(* ===== verification/Prelude.thy ===== *)
theory Prelude
  imports Main "HOL-Library.Word"
begin

text \<open>
  Shared vocabulary of the development: the machine integers of the C and C++ sources, the
  errno values the drivers return, counting semaphores, and the generic facts on lists and
  words that the component theories rest on.  Every component collects the unfolding of its
  straight-line operations in \<^verbatim>\<open>portal_defs\<close>, so that a branch of a handler is computed by
  \<^verbatim>\<open>simp add: portal_defs\<close>.
\<close>

unbundle bit_operations_syntax

named_theorems portal_defs

section \<open>Machine integers\<close>

type_synonym u8 = "8 word"
type_synonym u16 = "16 word"
type_synonym u32 = "32 word"
type_synonym u64 = "64 word"

text \<open>The two 32-bit beats in which the generated proxies send a 64-bit argument.\<close>

definition hi32 :: "u64 \<Rightarrow> u32" where
  "hi32 x = ucast (drop_bit 32 x)"

definition lo32 :: "u64 \<Rightarrow> u32" where
  "lo32 x = ucast x"

definition join32 :: "u32 \<Rightarrow> u32 \<Rightarrow> u64" where
  "join32 h l = push_bit 32 (ucast h) OR ucast l"

lemma join32_hi_lo [simp]: "join32 (hi32 x) (lo32 x) = x"
  unfolding join32_def hi32_def lo32_def
  by (rule bit_word_eqI) (auto simp: bit_simps)

lemma hi32_join32 [simp]: "hi32 (join32 h l) = h"
  unfolding join32_def hi32_def
  by (rule bit_word_eqI) (auto simp: bit_simps dest: bit_imp_le_length)

lemma lo32_join32 [simp]: "lo32 (join32 h l) = l"
  unfolding join32_def lo32_def
  by (rule bit_word_eqI) (auto simp: bit_simps)

section \<open>errno values\<close>

text \<open>The Linux error numbers the sources return (negated), from the kernel's errno headers.\<close>

abbreviation ENXIO :: int where "ENXIO \<equiv> 6"
abbreviation EIO :: int where "EIO \<equiv> 5"
abbreviation EAGAIN :: int where "EAGAIN \<equiv> 11"
abbreviation ENOMEM :: int where "ENOMEM \<equiv> 12"
abbreviation EFAULT :: int where "EFAULT \<equiv> 14"
abbreviation EBUSY :: int where "EBUSY \<equiv> 16"
abbreviation ENODEV :: int where "ENODEV \<equiv> 19"
abbreviation EINVAL :: int where "EINVAL \<equiv> 22"
abbreviation ENOTTY :: int where "ENOTTY \<equiv> 25"

text \<open>
  A driver call ends with a value or with a memory fault: a dereference of a null pointer or of
  an error pointer, a use of a freed object, an access past the end of an array.
\<close>

datatype kfault = NullDeref | ErrPtrDeref | UseAfterFree | OutOfBounds

type_synonym 'a kresult = "kfault + 'a"

section \<open>Decimal notation\<close>

text \<open>The digits of \<^verbatim>\<open>%d\<close> for a number that is not negative.\<close>

fun decimal :: "nat \<Rightarrow> string" where
  "decimal n = (if n < 10 then [char_of (48 + n)] else decimal (n div 10) @ [char_of (48 + n mod 10)])"

declare decimal.simps [simp del]

section \<open>Words read as natural numbers\<close>

lemma unat_ucast_down:
  "unat (ucast (x :: 'a::len word) :: 'b::len word) = unat x mod 2 ^ LENGTH('b)"
  by (simp add: unsigned_ucast_eq take_bit_eq_mod)

lemma unat_drop_bit_div: "unat (drop_bit n (x :: 'a::len word)) = unat x div 2 ^ n"
  by (simp add: unsigned_drop_bit_eq) (simp add: drop_bit_eq_div take_bit_nat_eq_self unsigned_less)

lemma unat_ucast_u64: "unat (ucast (x :: u32) :: u64) = unat x"
proof -
  have "unat x < 2 ^ 32" using unsigned_less [of x] by simp
  then show ?thesis by (simp add: unat_ucast_down)
qed

lemma unat_and_not_mask: "unat (x AND NOT (mask n) :: 'a::len word) = unat x div 2 ^ n * 2 ^ n"
proof -
  have e: "(x AND NOT (mask n)) = push_bit n (drop_bit n x)" by (rule bit_word_eqI) (auto simp: bit_simps)
  have "unat x div 2 ^ n * 2 ^ n < 2 ^ LENGTH('a)"
    by (rule le_less_trans [OF _ unsigned_less [of x]]) simp
  then have "take_bit LENGTH('a) (unat x div 2 ^ n * 2 ^ n) = unat x div 2 ^ n * 2 ^ n"
    by (rule take_bit_nat_eq_self)
  then show ?thesis
    unfolding e unsigned_push_bit_eq unat_drop_bit_div by (simp add: push_bit_eq_mult)
qed

lemma unat_of_nat_less: "n < 2 ^ LENGTH('a) \<Longrightarrow> unat (of_nat n :: 'a::len word) = n"
  by (simp add: unat_of_nat take_bit_nat_eq_self)

lemma unat_of_nat_mod: "unat (of_nat n :: 'a::len word) = n mod 2 ^ LENGTH('a)"
  by (simp add: unat_of_nat take_bit_eq_mod)

lemma word_eq_of_unat: "unat x = n \<Longrightarrow> x = of_nat n"
  by auto

lemma ucast_u32_u64 [simp]: "ucast (ucast (x :: u32) :: u64) = x"
  by (rule bit_word_eqI) (simp add: bit_simps)

lemma ucast_u8_u64 [simp]: "ucast (ucast (x :: u8) :: u64) = x"
  by (rule bit_word_eqI) (simp add: bit_simps)

lemma ucast_of_nat_down:
  "LENGTH('b::len) \<le> LENGTH('a::len) \<Longrightarrow> (ucast (of_nat n :: 'a word) :: 'b word) = of_nat n"
  by (simp add: word_unat_eq_iff unat_ucast_down unat_of_nat_mod mod_mod_cancel le_imp_power_dvd)

lemma ucast_of_nat_up:
  "n < 2 ^ LENGTH('a::len) \<Longrightarrow> (ucast (of_nat n :: 'a word) :: 'b::len word) = of_nat n"
  by (simp add: word_unat_eq_iff unat_ucast_down unat_of_nat_mod)

lemma ucast_minus_u8: "(ucast (x - y :: u64) :: u8) = ucast x - ucast y"
proof -
  have dn: "(ucast (of_int k :: u64) :: u8) = of_int k" for k
    by transfer (simp add: take_bit_take_bit)
  have "(ucast (of_int (uint x - uint y) :: u64) :: u8) = of_int (uint x) - of_int (uint y)"
    by (subst dn) (rule of_int_diff)
  then show ?thesis by simp
qed

lemma take_bit_word_id: "unat (x :: 'a::len word) < 2 ^ n \<Longrightarrow> take_bit n x = x"
  by (simp add: word_unat_eq_iff unsigned_take_bit_eq take_bit_nat_eq_self)

lemma sint_unat_small:
  assumes "2 * unat (x :: 'a::len word) < 2 ^ LENGTH('a)"
  shows "sint x = int (unat x)"
proof -
  have "unat x < 2 ^ (LENGTH('a) - 1)"
    using assms by (cases "LENGTH('a)") auto
  then have t: "take_bit (LENGTH('a) - 1) x = x" by (rule take_bit_word_id)
  then have "\<not> bit x (LENGTH('a) - 1)"
    by (metis bit_take_bit_iff less_irrefl)
  moreover have "take_bit (LENGTH('a) - 1) (uint x) = uint x"
    using t unsigned_take_bit_eq [of "LENGTH('a) - 1" x, where ?'a = int] by simp
  ultimately show ?thesis
    by (simp add: sint_uint signed_take_bit_eq_if_positive bit_uint_iff)
qed

lemma unat_less: "unat (x :: 'a::len word) < 2 ^ LENGTH('a)"
  by (rule unsigned_less)

lemma unat_u8_less: "unat (x :: u8) < 256"
  using unat_less [of x] by simp

lemma of_nat_word_eq_iff_less:
  assumes "a < 2 ^ LENGTH('a)" and "b < 2 ^ LENGTH('a)"
  shows "(of_nat a :: 'a::len word) = of_nat b \<longleftrightarrow> a = b"
  using unat_of_nat_less [OF assms(1)] unat_of_nat_less [OF assms(2)] by metis

lemma bit_u8_ge [simp]: "8 \<le> n \<Longrightarrow> \<not> bit (x :: u8) n"
  by (auto dest: bit_imp_le_length)

lemma push_bit_or_add:
  assumes "unat y < 2 ^ n"
  shows "push_bit n x OR y = push_bit n x + (y :: 'a::len word)"
proof -
  have "y = take_bit n y"
    using assms by (simp add: word_unat_eq_iff unsigned_take_bit_eq take_bit_nat_eq_self)
  then show ?thesis
    by (metis (no_types, lifting) bit_push_bit_iff bit_take_bit_iff disjunctive_add not_le)
qed

lemma radix256_inj:
  assumes "256 * a + p = 256 * b + (q :: nat)" and "p < 256" and "q < 256"
  shows "a = b \<and> p = q"
proof -
  have "(256 * a + p) div 256 = a" "(256 * b + q) div 256 = b" using assms(2,3) by simp_all
  with assms(1) show ?thesis by simp
qed

section \<open>Lists\<close>

lemma sum_list_replicate_map:
  "(\<And>x. x \<in> set xs \<Longrightarrow> f x = (c::nat)) \<Longrightarrow> sum_list (map f xs) = length xs * c"
  by (induction xs) auto

lemma filter_all_none:
  "(\<And>x. x \<in> set xs \<Longrightarrow> P x) \<Longrightarrow> filter P xs = xs"
  by (induction xs) auto

lemma All_less_2: "(\<forall>j<2. P j) \<longleftrightarrow> P 0 \<and> P (1 :: nat)"
  by (auto simp: less_2_cases_iff)

lemma fold_invariant_on:
  assumes "\<And>x s. x \<in> set xs \<Longrightarrow> I s \<Longrightarrow> I (f x s)" and "I s"
  shows "I (fold f xs s)"
  using assms by (induction xs arbitrary: s) auto

end
