(* ===== verification/Portal_Io.thy ===== *)
theory Portal_Io
  imports Prelude
begin

text \<open>
  Register access to a portal, from \<^verbatim>\<open>cpp/portal.h\<close>: the offsets of a portal's registers and
  FIFOs (as indices of 32-bit words from \<^verbatim>\<open>map_base\<close>) and the macros READL and WRITEL.  The
  device behind the registers is a parameter, a pair of functions on a device state: a read may
  change the state (reading an indication FIFO pops it) and a write may start work.  The
  hardware models that instantiate it are in \<^verbatim>\<open>Dma_Hw\<close> and \<^verbatim>\<open>Portal_Hw\<close>.
\<close>

record 'd mmio =
  mm_read :: "nat \<Rightarrow> 'd \<Rightarrow> u32 \<times> 'd"
  mm_write :: "nat \<Rightarrow> u32 \<Rightarrow> 'd \<Rightarrow> 'd"

definition READL :: "'d mmio \<Rightarrow> nat \<Rightarrow> 'd \<Rightarrow> u32 \<times> 'd" where
  "READL m a d = mm_read m a d"

definition WRITEL :: "'d mmio \<Rightarrow> nat \<Rightarrow> u32 \<Rightarrow> 'd \<Rightarrow> 'd" where
  "WRITEL m a v d = mm_write m a v d"

text \<open>Byte distance between the register windows of two portals, and the offsets within one.\<close>

definition PORTAL_BASE_OFFSET :: nat where
  "PORTAL_BASE_OFFSET = 2 ^ 16"

definition PORTAL_REQ_FIFO :: "nat \<Rightarrow> nat" where
  "PORTAL_REQ_FIFO a = (a * 256 + 256) div 4"

definition PORTAL_IND_FIFO :: "nat \<Rightarrow> nat" where
  "PORTAL_IND_FIFO a = (a * 256 + 256) div 4"

definition PORTAL_IND_REG_OFFSET_32 :: nat where
  "PORTAL_IND_REG_OFFSET_32 = 0"

definition IND_REG_INTERRUPT_FLAG :: nat where
  "IND_REG_INTERRUPT_FLAG = PORTAL_IND_REG_OFFSET_32 + 0"

definition IND_REG_INTERRUPT_MASK :: nat where
  "IND_REG_INTERRUPT_MASK = PORTAL_IND_REG_OFFSET_32 + 1"

definition IND_REG_INTERRUPT_COUNT :: nat where
  "IND_REG_INTERRUPT_COUNT = PORTAL_IND_REG_OFFSET_32 + 2"

definition IND_REG_QUEUE_STATUS :: nat where
  "IND_REG_QUEUE_STATUS = PORTAL_IND_REG_OFFSET_32 + 6"

definition PORTAL_DIRECTORY_OFFSET :: "nat \<Rightarrow> nat" where
  "PORTAL_DIRECTORY_OFFSET a = 128 + a"

definition PORTAL_DIRECTORY_PORTAL_ID :: "nat \<Rightarrow> nat" where
  "PORTAL_DIRECTORY_PORTAL_ID a = PORTAL_DIRECTORY_OFFSET (6 + 2 * a)"

definition PORTAL_DIRECTORY_PORTAL_TYPE :: "nat \<Rightarrow> nat" where
  "PORTAL_DIRECTORY_PORTAL_TYPE a = PORTAL_DIRECTORY_OFFSET (6 + 2 * a + 1)"

abbreviation PORTAL_DIRECTORY_VERSION :: nat where
  "PORTAL_DIRECTORY_VERSION \<equiv> PORTAL_DIRECTORY_OFFSET 0"

abbreviation PORTAL_DIRECTORY_TIMESTAMP :: nat where
  "PORTAL_DIRECTORY_TIMESTAMP \<equiv> PORTAL_DIRECTORY_OFFSET 1"

abbreviation PORTAL_DIRECTORY_NUMPORTALS :: nat where
  "PORTAL_DIRECTORY_NUMPORTALS \<equiv> PORTAL_DIRECTORY_OFFSET 2"

abbreviation PORTAL_DIRECTORY_ADDRBITS :: nat where
  "PORTAL_DIRECTORY_ADDRBITS \<equiv> PORTAL_DIRECTORY_OFFSET 3"

abbreviation PORTAL_DIRECTORY_COUNTER_MSB :: nat where
  "PORTAL_DIRECTORY_COUNTER_MSB \<equiv> PORTAL_DIRECTORY_OFFSET 4"

abbreviation PORTAL_DIRECTORY_COUNTER_LSB :: nat where
  "PORTAL_DIRECTORY_COUNTER_LSB \<equiv> PORTAL_DIRECTORY_OFFSET 5"

lemmas ind_reg_defs [portal_defs] =
  PORTAL_IND_REG_OFFSET_32_def IND_REG_INTERRUPT_FLAG_def IND_REG_INTERRUPT_MASK_def
  IND_REG_INTERRUPT_COUNT_def IND_REG_QUEUE_STATUS_def

lemmas directory_defs [portal_defs] =
  PORTAL_DIRECTORY_OFFSET_def PORTAL_DIRECTORY_PORTAL_ID_def PORTAL_DIRECTORY_PORTAL_TYPE_def

text \<open>A sequence of WRITEL statements to one address, as the proxies emit it.\<close>

primrec writel_seq :: "'d mmio \<Rightarrow> nat \<Rightarrow> u32 list \<Rightarrow> 'd \<Rightarrow> 'd" where
  "writel_seq m a [] d = d"
| "writel_seq m a (w # ws) d = writel_seq m a ws (WRITEL m a w d)"

lemma writel_seq_append:
  "writel_seq m a (ws @ vs) d = writel_seq m a vs (writel_seq m a ws d)"
  by (induction ws arbitrary: d) auto

section \<open>The FIFO windows are disjoint\<close>

lemma PORTAL_REQ_FIFO_eq: "PORTAL_REQ_FIFO a = 64 * a + 64"
  by (simp add: PORTAL_REQ_FIFO_def)

lemma PORTAL_IND_FIFO_eq: "PORTAL_IND_FIFO a = 64 * a + 64"
  by (simp add: PORTAL_IND_FIFO_def)

lemma PORTAL_REQ_FIFO_chan [simp]:
  "(PORTAL_REQ_FIFO a - 64) div 64 = a" "(PORTAL_REQ_FIFO a - 64) mod 64 = 0"
  "(PORTAL_REQ_FIFO a - 63) div 64 = a" "(PORTAL_REQ_FIFO a - 63) mod 64 = Suc 0"
  by (simp_all add: PORTAL_REQ_FIFO_eq div_Suc mod_Suc)

lemma PORTAL_REQ_FIFO_ge [simp]: "64 \<le> PORTAL_REQ_FIFO a" "63 \<le> PORTAL_REQ_FIFO a"
  by (simp_all add: PORTAL_REQ_FIFO_eq)

end
