(* ===== verification/Dma_Config_Proxy.thy ===== *)
theory Dma_Config_Proxy
  imports Portal_Io
begin

text \<open>
  The generated proxy \<^verbatim>\<open>generated/cpp/DmaConfigProxy.c\<close> with the enumerations of
  \<^verbatim>\<open>generated/cpp/GeneratedTypes.h\<close>.  A request polls the channel's not-full register at most
  51 times and then writes its arguments, most significant beat first, whether or not the FIFO
  reported space.  \<^verbatim>\<open>DmaConfigProxy_handleMessage\<close> is the indication side: it pops a putFailed
  message or counts an unknown channel.
\<close>

datatype ChannelType = ChannelType_Read | ChannelType_Write

fun ChannelType_value :: "ChannelType \<Rightarrow> u32" where
  "ChannelType_value ChannelType_Read = 0"
| "ChannelType_value ChannelType_Write = 1"

definition CHAN_NUM_DmaConfigProxy_sglist :: nat where "CHAN_NUM_DmaConfigProxy_sglist = 0"
definition CHAN_NUM_DmaConfigProxy_region :: nat where "CHAN_NUM_DmaConfigProxy_region = 1"
definition CHAN_NUM_DmaConfigProxy_addrRequest :: nat where "CHAN_NUM_DmaConfigProxy_addrRequest = 2"
definition CHAN_NUM_DmaConfigProxy_getStateDbg :: nat where "CHAN_NUM_DmaConfigProxy_getStateDbg = 3"
definition CHAN_NUM_DmaConfigProxy_getMemoryTraffic :: nat where "CHAN_NUM_DmaConfigProxy_getMemoryTraffic = 4"
definition CHAN_NUM_DmaConfigProxy_putFailed :: nat where "CHAN_NUM_DmaConfigProxy_putFailed = 5"

lemmas dma_chan_defs =
  CHAN_NUM_DmaConfigProxy_sglist_def CHAN_NUM_DmaConfigProxy_region_def
  CHAN_NUM_DmaConfigProxy_addrRequest_def CHAN_NUM_DmaConfigProxy_getStateDbg_def
  CHAN_NUM_DmaConfigProxy_getMemoryTraffic_def CHAN_NUM_DmaConfigProxy_putFailed_def

section \<open>Requests\<close>

text \<open>
  \<^verbatim>\<open>while (!READL(p, temp_working_addr + 1) && i-- > 0);\<close> with \<^verbatim>\<open>i = 50\<close>: the register is read
  first and the counter is tested only when it reads zero.
\<close>

fun busy_wait :: "'d mmio \<Rightarrow> nat \<Rightarrow> nat \<Rightarrow> 'd \<Rightarrow> 'd" where
  "busy_wait m a 0 d = snd (READL m (a + 1) d)"
| "busy_wait m a (Suc i) d =
     (case READL m (a + 1) d of (v, d') \<Rightarrow> if v \<noteq> 0 then d' else busy_wait m a i d')"

definition send_words :: "'d mmio \<Rightarrow> nat \<Rightarrow> u32 list \<Rightarrow> 'd \<Rightarrow> 'd" where
  "send_words m chan ws d =
     (let temp_working_addr = PORTAL_REQ_FIFO chan
      in writel_seq m temp_working_addr ws (busy_wait m temp_working_addr 50 d))"

definition DmaConfigProxy_sglist :: "'d mmio \<Rightarrow> u32 \<Rightarrow> u64 \<Rightarrow> u32 \<Rightarrow> 'd \<Rightarrow> 'd" where
  "DmaConfigProxy_sglist m pointer addr len =
     send_words m CHAN_NUM_DmaConfigProxy_sglist [pointer, hi32 addr, lo32 addr, len]"

definition DmaConfigProxy_region :: "'d mmio \<Rightarrow> u32 \<Rightarrow> u64 \<Rightarrow> u64 \<Rightarrow> u64 \<Rightarrow> 'd \<Rightarrow> 'd" where
  "DmaConfigProxy_region m pointer barr8 barr4 barr0 =
     send_words m CHAN_NUM_DmaConfigProxy_region
       [pointer, hi32 barr8, lo32 barr8, hi32 barr4, lo32 barr4, hi32 barr0, lo32 barr0]"

definition DmaConfigProxy_addrRequest :: "'d mmio \<Rightarrow> u32 \<Rightarrow> u32 \<Rightarrow> 'd \<Rightarrow> 'd" where
  "DmaConfigProxy_addrRequest m pointer offset =
     send_words m CHAN_NUM_DmaConfigProxy_addrRequest [pointer, offset]"

definition DmaConfigProxy_getStateDbg :: "'d mmio \<Rightarrow> ChannelType \<Rightarrow> 'd \<Rightarrow> 'd" where
  "DmaConfigProxy_getStateDbg m rc =
     send_words m CHAN_NUM_DmaConfigProxy_getStateDbg [ChannelType_value rc]"

definition DmaConfigProxy_getMemoryTraffic :: "'d mmio \<Rightarrow> ChannelType \<Rightarrow> 'd \<Rightarrow> 'd" where
  "DmaConfigProxy_getMemoryTraffic m rc =
     send_words m CHAN_NUM_DmaConfigProxy_getMemoryTraffic [ChannelType_value rc]"

section \<open>Indications\<close>

text \<open>
  The callback prints \<^verbatim>\<open>methodNameStrings[v]\<close>; an index outside the table of five names is a
  read past its end, kept apart as \<^verbatim>\<open>BadIndex\<close>.  \<^verbatim>\<open>runaway\<close> is the function's static counter.
  Outside the kernel build the twelfth unknown channel ends the process.
\<close>

datatype handled = PutFailed string | BadIndex u32 | Unknown | Exited

definition putFailed_methodNameStrings :: "string list" where
  "putFailed_methodNameStrings =
     [''sglist'', ''region'', ''addrRequest'', ''getStateDbg'', ''getMemoryTraffic'']"

definition DmaConfigProxyputFailed_cb :: "u32 \<Rightarrow> handled" where
  "DmaConfigProxyputFailed_cb v =
     (if unat v < length putFailed_methodNameStrings
      then PutFailed (putFailed_methodNameStrings ! unat v) else BadIndex v)"

definition DmaConfigProxyputFailed_demarshall :: "'d mmio \<Rightarrow> 'd \<Rightarrow> handled \<times> 'd" where
  "DmaConfigProxyputFailed_demarshall m d =
     (case READL m (PORTAL_IND_FIFO CHAN_NUM_DmaConfigProxy_putFailed) d of
        (tmp, d') \<Rightarrow> (DmaConfigProxyputFailed_cb (tmp AND 0xffffffff), d'))"

definition DmaConfigProxy_handleMessage ::
    "bool \<Rightarrow> 'd mmio \<Rightarrow> u32 \<Rightarrow> nat \<times> 'd \<Rightarrow> handled \<times> nat \<times> 'd" where
  "DmaConfigProxy_handleMessage in_kernel m channel s =
     (case s of (runaway, d) \<Rightarrow>
        if unat channel = CHAN_NUM_DmaConfigProxy_putFailed
        then (case DmaConfigProxyputFailed_demarshall m d of (h, d') \<Rightarrow> (h, runaway, d'))
        else if runaway > 10 \<and> \<not> in_kernel then (Exited, runaway + 1, d)
        else (Unknown, runaway + 1, d))"

fun handle_unknowns :: "bool \<Rightarrow> 'd mmio \<Rightarrow> u32 list \<Rightarrow> nat \<times> 'd \<Rightarrow> handled list" where
  "handle_unknowns k m [] s = []"
| "handle_unknowns k m (c # cs) s =
     (case DmaConfigProxy_handleMessage k m c s of
        (h, s') \<Rightarrow> h # (if h = Exited then [] else handle_unknowns k m cs s'))"

section \<open>Properties of the proxy alone\<close>

lemma busy_wait_ready:
  assumes "READL m (a + 1) d = (v, d')" and "v \<noteq> 0"
  shows "busy_wait m a i d = d'"
  using assms by (cases i) auto

lemma send_words_append:
  "send_words m c (ws @ vs) d = writel_seq m (PORTAL_REQ_FIFO c) vs (send_words m c ws d)"
  by (simp add: send_words_def writel_seq_append Let_def)

text \<open>
  What the request FIFO sees of a call to a device whose not-full register reads non-zero: the
  words of the message, in order, and nothing else.
\<close>

lemma send_words_ready:
  assumes "READL m (PORTAL_REQ_FIFO c + 1) d = (v, d')" and "v \<noteq> 0"
  shows "send_words m c ws d = writel_seq m (PORTAL_REQ_FIFO c) ws d'"
  using busy_wait_ready [OF assms] by (simp add: send_words_def)

lemma handleMessage_unknown_count:
  assumes "\<And>c. c \<in> set cs \<Longrightarrow> unat c \<noteq> CHAN_NUM_DmaConfigProxy_putFailed"
    and "r + length cs \<le> 11"
  shows "handle_unknowns k m cs (r, d) = replicate (length cs) Unknown"
  using assms
  by (induction cs arbitrary: r) (auto simp: DmaConfigProxy_handleMessage_def)

end
