(* ===== verification/Sglist_Mmu.thy ===== *)
theory Sglist_Mmu
  imports Prelude
begin

text \<open>
  The address translation unit the DMA software programs, from \<^verbatim>\<open>bsv/SGList.bsv\<close> (module
  mkSGListMMU) and the configuration methods of \<^verbatim>\<open>bsv/MemServer.bsv\<close> that call it.  Three BRAMs
  indexed by object id hold one region descriptor each (pages of 1 MB, 64 KB and 4 KB); a fourth
  holds the page frames, 256 per object.  The widths are those of the source: 40-bit offsets,
  28-bit frames and barriers, 8-bit indices, 5-bit object ids.  The pipeline stages 1 to 5 are
  one function from a request to its response.
\<close>

record region =
  barrier :: "28 word"
  idxOffset :: u8

record sglist_mmu =
  reg8 :: "5 word \<Rightarrow> region"
  reg4 :: "5 word \<Rightarrow> region"
  reg0 :: "5 word \<Rightarrow> region"
  pages :: "13 word \<Rightarrow> 28 word"

section \<open>Configuration\<close>

text \<open>\<^verbatim>\<open>unpack\<close> of a 36-bit vector to a Region: the barrier is the first field, the high bits.\<close>

definition unpack_region :: "36 word \<Rightarrow> region" where
  "unpack_region x = \<lparr>barrier = ucast (drop_bit 8 x), idxOffset = ucast x\<rparr>"

definition mmu_sglist :: "u32 \<Rightarrow> 40 word \<Rightarrow> u32 \<Rightarrow> sglist_mmu \<Rightarrow> sglist_mmu" where
  "mmu_sglist ptr paddr len mmu = mmu\<lparr>pages := (pages mmu)(ucast ptr := ucast paddr)\<rparr>"

definition mmu_region :: "u32 \<Rightarrow> 36 word \<Rightarrow> 36 word \<Rightarrow> 36 word \<Rightarrow> sglist_mmu \<Rightarrow> sglist_mmu" where
  "mmu_region ptr barr8 barr4 barr0 mmu =
     mmu\<lparr>reg8 := (reg8 mmu)(ucast ptr := unpack_region barr8),
         reg4 := (reg4 mmu)(ucast ptr := unpack_region barr4),
         reg0 := (reg0 mmu)(ucast ptr := unpack_region barr0)\<rparr>"

text \<open>The methods of the configuration interface truncate their 64-bit arguments.\<close>

definition cfg_sglist :: "u32 \<Rightarrow> u64 \<Rightarrow> u32 \<Rightarrow> sglist_mmu \<Rightarrow> sglist_mmu" where
  "cfg_sglist pref addr len = mmu_sglist pref (ucast addr) len"

definition cfg_region :: "u32 \<Rightarrow> u64 \<Rightarrow> u64 \<Rightarrow> u64 \<Rightarrow> sglist_mmu \<Rightarrow> sglist_mmu" where
  "cfg_region pointer barr8 barr4 barr0 =
     mmu_region pointer (ucast barr8) (ucast barr4) (ucast barr0)"

section \<open>Translation\<close>

datatype page_size = NoPage | Page4K | Page64K | Page1M

text \<open>
  Stages 2 and 3: compare the offset, in pages of each size, with the three barriers and select
  the first region it lies below, with the low 8 bits of its page number.
\<close>

definition mmu_select :: "region \<Rightarrow> region \<Rightarrow> region \<Rightarrow> 40 word \<Rightarrow> page_size \<times> u8 \<times> u8" where
  "mmu_select region8 region4 region0 off =
     (let off8 = ucast (drop_bit 20 off) :: 24 word;
          off4 = ucast (drop_bit 16 off) :: 24 word;
          off0 = ucast (drop_bit 12 off) :: 28 word
      in if off8 < ucast (barrier region8)
         then (Page1M, ucast (drop_bit 20 off), idxOffset region8)
         else if off4 < ucast (barrier region4)
         then (Page64K, ucast (drop_bit 16 off), idxOffset region4)
         else if off0 < barrier region0
         then (Page4K, ucast (drop_bit 12 off), idxOffset region0)
         else (NoPage, 0, 0))"

text \<open>The BRAM address \<^verbatim>\<open>{ptr,p}\<close> of a page frame.\<close>

definition page_addr :: "5 word \<Rightarrow> u8 \<Rightarrow> 13 word" where
  "page_addr ptr p = push_bit 8 (ucast ptr) OR ucast p"

text \<open>
  Stages 4 and 5.  An offset past every barrier raises DmaErrorBadAddrTrans, here \<^verbatim>\<open>None\<close> (the
  response the hardware then sends is an undefined value).
\<close>

definition mmu_translate :: "sglist_mmu \<Rightarrow> 5 word \<Rightarrow> 40 word \<Rightarrow> 40 word option" where
  "mmu_translate mmu ptr off =
     (case mmu_select (reg8 mmu ptr) (reg4 mmu ptr) (reg0 mmu ptr) off of
        (sz, pbase, idx) \<Rightarrow>
          let page = pages mmu (page_addr ptr (pbase + idx)) in
          (case sz of
             NoPage \<Rightarrow> None
           | Page4K \<Rightarrow> Some (push_bit 12 (ucast page) OR take_bit 12 off)
           | Page64K \<Rightarrow> Some (push_bit 16 (ucast (ucast page :: 24 word)) OR take_bit 16 off)
           | Page1M \<Rightarrow> Some (push_bit 20 (ucast (ucast page :: 20 word)) OR take_bit 20 off)))"

section \<open>The unit on natural numbers\<close>

text \<open>
  A region descriptor in the form the software computes it, \<^verbatim>\<open>(border << 8) | idxOffset\<close>, is read
  back as its two fields.
\<close>

lemma unpack_region_fields:
  "unpack_region (ucast (push_bit 8 b OR ucast (o8 :: u8) :: u64))
     = \<lparr>barrier = ucast b, idxOffset = o8\<rparr>"
  unfolding unpack_region_def
  by (auto intro!: bit_word_eqI simp: bit_simps)

lemma page_addr_eq: "page_addr ptr p = of_nat (256 * unat ptr + unat p)"
proof -
  have "unat (ucast p :: 13 word) < 2 ^ 8"
    using unat_u8_less [of p] by (simp add: unat_ucast_down)
  then have "page_addr ptr p = push_bit 8 (ucast ptr) + ucast p"
    by (simp add: page_addr_def push_bit_or_add)
  also have "\<dots> = of_nat (256 * unat ptr + unat p)"
    by (simp add: push_bit_eq_mult mult.commute)
  finally show ?thesis .
qed

lemma page_addr_inj: "page_addr ptr p = page_addr ptr' p' \<longleftrightarrow> ptr = ptr' \<and> p = p'"
proof
  assume eq: "page_addr ptr p = page_addr ptr' p'"
  have lt: "256 * unat ptr + unat p < 2 ^ 13" "256 * unat ptr' + unat p' < 2 ^ 13"
    using unat_less [of ptr] unat_less [of ptr'] unat_u8_less [of p] unat_u8_less [of p']
    by auto
  have "256 * unat ptr + unat p = 256 * unat ptr' + unat p'"
    by (rule of_nat_word_eq_iff_less [where 'a = 13, THEN iffD1])
      (use lt in simp, use lt in simp, rule eq [unfolded page_addr_eq])
  then have "unat ptr = unat ptr' \<and> unat p = unat p'"
    by (rule radix256_inj) (rule unat_u8_less)+
  then show "ptr = ptr' \<and> p = p'" by (simp add: word_unat_eq_iff)
qed simp

end
