(* ===== verification/Dma_Hw.thy ===== *)
theory Dma_Hw
  imports Dma_Config_Proxy Sglist_Mmu
begin

text \<open>
  The hardware end of the DMA configuration portal: the word-to-message gearbox of
  \<^verbatim>\<open>bsv/Adapter.bsv\<close> (mkFromBit), the request window of \<^verbatim>\<open>bsv/MemPortal.bsv\<close>
  (mkPipeInMemSlave) and the rules that \<^verbatim>\<open>scripts/bsvgen.py\<close> emits to pass a complete message to
  the configuration interface.  When the rules fire relative to the bus accesses is not fixed by
  the source: the device state carries a schedule, any function from bus cycles to bool.

  The locale \<^verbatim>\<open>config_port\<close> is the contract the software relies on; it is interpreted on this
  hardware for every state whose schedule lets the rules fire at least once in 51 consecutive
  bus cycles, the bound of the proxies' busy wait.
\<close>

section \<open>The gearbox\<close>

text \<open>
  \<^verbatim>\<open>fb_buff\<close> is the shift register \<^verbatim>\<open>fbnbuff\<close> cut into 32-bit words, oldest first; \<^verbatim>\<open>fb_max\<close> is
  the number of words of a message less one; \<^verbatim>\<open>fb_fifo\<close> is the one-place FIFO behind it.
\<close>

record frombit =
  fb_max :: nat
  fb_buff :: "u32 list"
  fb_count :: nat
  fb_fifo :: "u32 list option"

definition fb_notFull :: "frombit \<Rightarrow> bool" where
  "fb_notFull f \<longleftrightarrow> fb_fifo f = None"

definition fb_enq :: "u32 \<Rightarrow> frombit \<Rightarrow> frombit" where
  "fb_enq x f =
     (let newbuff = tl (fb_buff f) @ [x] in
      if fb_count f = fb_max f
      then f\<lparr>fb_buff := newbuff, fb_count := 0, fb_fifo := Some newbuff\<rparr>
      else f\<lparr>fb_buff := newbuff, fb_count := fb_count f + 1\<rparr>)"

text \<open>The bus write of mkPipeInMemSlave: a word that finds the FIFO full is dropped.\<close>

definition pipe_put :: "u32 \<Rightarrow> frombit \<Rightarrow> frombit" where
  "pipe_put x f = (if fb_notFull f then fb_enq x f else f)"

definition fb_ready :: "nat \<Rightarrow> frombit \<Rightarrow> bool" where
  "fb_ready n f \<longleftrightarrow> fb_max f + 1 = n \<and> length (fb_buff f) = n \<and> fb_count f = 0"

lemma pipe_put_notFull: "fb_fifo f = None \<Longrightarrow> pipe_put w f = fb_enq w f"
  by (simp add: pipe_put_def fb_notFull_def)

lemma fold_pipe_put_prefix:
  assumes "fb_fifo f = None" and "fb_count f + length ws \<le> fb_max f" and "length ws \<le> length (fb_buff f)"
  shows "fold pipe_put ws f =
    f\<lparr>fb_buff := drop (length ws) (fb_buff f) @ ws, fb_count := fb_count f + length ws\<rparr>"
  using assms
proof (induction ws arbitrary: f)
  case (Cons w ws)
  have "fold pipe_put ws (fb_enq w f) =
      (fb_enq w f)\<lparr>fb_buff := drop (length ws) (fb_buff (fb_enq w f)) @ ws,
        fb_count := fb_count (fb_enq w f) + length ws\<rparr>"
    using Cons.prems by (intro Cons.IH) (auto simp: fb_enq_def Let_def)
  then show ?case
    using Cons.prems
    by (auto simp: pipe_put_notFull fb_enq_def Let_def drop_Suc)
qed simp

text \<open>A whole message, delivered to an empty gearbox, appears in its FIFO word for word.\<close>

lemma fold_pipe_put_message:
  assumes "fb_ready (length ws) f" and "fb_fifo f = None" and "ws \<noteq> []"
  shows "fold pipe_put ws f = f\<lparr>fb_buff := ws, fb_count := 0, fb_fifo := Some ws\<rparr>"
proof -
  from assms(3) obtain us w where ws: "ws = us @ [w]" by (cases ws rule: rev_cases) auto
  let ?g = "f\<lparr>fb_buff := drop (length us) (fb_buff f) @ us, fb_count := length us\<rparr>"
  have len: "length (fb_buff f) = Suc (length us)" "fb_max f = length us" "fb_count f = 0"
    using assms(1) ws by (auto simp: fb_ready_def)
  have "fold pipe_put us f = ?g"
    using fold_pipe_put_prefix [of f us] assms(2) len by simp
  moreover have "tl (drop (length us) (fb_buff f) @ us) = us"
    using len by (cases "drop (length us) (fb_buff f)") (auto dest: arg_cong [where f = length])
  ultimately show ?thesis
    using assms(2) len ws by (simp add: pipe_put_notFull fb_enq_def Let_def)
qed

section \<open>The configuration portal\<close>

record dma_hw =
  hw_chan :: "nat \<Rightarrow> frombit"
  hw_mmu :: sglist_mmu
  hw_confs :: "5 word list"
  hw_others :: "(nat \<times> u32 list) list"
  hw_time :: nat
  hw_fires :: "nat \<Rightarrow> bool"

definition hw_words :: "nat \<Rightarrow> nat" where
  "hw_words c = [4, 7, 2, 1, 1] ! c"

text \<open>
  The rule \<^verbatim>\<open>handle_<method>_request\<close>: unpack the message and call the method.  The methods of
  channels 2 to 4 do not concern address translation and are recorded as received.
\<close>

fun hw_request :: "nat \<Rightarrow> u32 list \<Rightarrow> dma_hw \<Rightarrow> dma_hw" where
  "hw_request 0 [p, ah, al, len] s = s\<lparr>hw_mmu := cfg_sglist p (join32 ah al) len (hw_mmu s)\<rparr>"
| "hw_request (Suc 0) [p, h8, l8, h4, l4, h0, l0] s =
     s\<lparr>hw_mmu := cfg_region p (join32 h8 l8) (join32 h4 l4) (join32 h0 l0) (hw_mmu s),
       hw_confs := hw_confs s @ [ucast p]\<rparr>"
| "hw_request c ws s = s\<lparr>hw_others := hw_others s @ [(c, ws)]\<rparr>"

definition hw_handle :: "nat \<Rightarrow> dma_hw \<Rightarrow> dma_hw" where
  "hw_handle c s =
     (case fb_fifo (hw_chan s c) of
        None \<Rightarrow> s
      | Some ws \<Rightarrow> hw_request c ws
          (s\<lparr>hw_chan := (hw_chan s)(c := (hw_chan s c)\<lparr>fb_fifo := None\<rparr>)\<rparr>))"

definition hw_flush :: "dma_hw \<Rightarrow> dma_hw" where
  "hw_flush s = hw_handle 4 (hw_handle 3 (hw_handle 2 (hw_handle 1 (hw_handle 0 s))))"

definition hw_tick :: "dma_hw \<Rightarrow> dma_hw" where
  "hw_tick s =
     (let s' = (if hw_fires s (hw_time s) then hw_flush s else s)
      in s'\<lparr>hw_time := hw_time s' + 1\<rparr>)"

definition hw_read :: "nat \<Rightarrow> dma_hw \<Rightarrow> u32 \<times> dma_hw" where
  "hw_read a s =
     (let s' = hw_tick s; c = (a - 64) div 64 in
      (if 64 \<le> a \<and> c < 5 \<and> (a - 64) mod 64 = 1 then of_bool (fb_notFull (hw_chan s' c)) else 0, s'))"

definition hw_write :: "nat \<Rightarrow> u32 \<Rightarrow> dma_hw \<Rightarrow> dma_hw" where
  "hw_write a v s =
     (let s' = hw_tick s; c = (a - 64) div 64 in
      if 64 \<le> a \<and> c < 5
      then s'\<lparr>hw_chan := (hw_chan s')(c := pipe_put v (hw_chan s' c))\<rparr> else s')"

definition dma_mmio :: "dma_hw mmio" where
  "dma_mmio = \<lparr>mm_read = hw_read, mm_write = hw_write\<rparr>"

text \<open>Between two calls of the proxy no message is half delivered and the schedule is fair.\<close>

definition hw_ok :: "dma_hw \<Rightarrow> bool" where
  "hw_ok s \<longleftrightarrow> (\<forall>c<5. fb_ready (hw_words c) (hw_chan s c)) \<and>
     (\<forall>t. \<exists>k\<le>50. hw_fires s (t + k))"

section \<open>What outstanding messages will do\<close>

text \<open>
  The effect of a message waiting in channel 0 or 1 on the translation unit and on the stream of
  configuration responses.  The outcome of the pending rules does not depend on when they fire.
\<close>

fun sglist_effect :: "u32 list option \<Rightarrow> sglist_mmu \<Rightarrow> sglist_mmu" where
  "sglist_effect (Some [p, ah, al, len]) = cfg_sglist p (join32 ah al) len"
| "sglist_effect _ = (\<lambda>mmu. mmu)"

fun region_effect :: "u32 list option \<Rightarrow> sglist_mmu \<Rightarrow> sglist_mmu" where
  "region_effect (Some [p, h8, l8, h4, l4, h0, l0]) =
     cfg_region p (join32 h8 l8) (join32 h4 l4) (join32 h0 l0)"
| "region_effect _ = (\<lambda>mmu. mmu)"

fun conf_effect :: "u32 list option \<Rightarrow> 5 word list" where
  "conf_effect (Some [p, h8, l8, h4, l4, h0, l0]) = [ucast p]"
| "conf_effect _ = []"

definition hw_pend :: "dma_hw \<Rightarrow> nat \<Rightarrow> u32 list option" where
  "hw_pend s c = fb_fifo (hw_chan s c)"

definition hw_mmu_settled :: "dma_hw \<Rightarrow> sglist_mmu" where
  "hw_mmu_settled s = region_effect (hw_pend s 1) (sglist_effect (hw_pend s 0) (hw_mmu s))"

definition hw_confs_settled :: "dma_hw \<Rightarrow> 5 word list" where
  "hw_confs_settled s = hw_confs s @ conf_effect (hw_pend s 1)"

lemma hw_request_frame [simp]:
  "hw_chan (hw_request c ws s) = hw_chan s"
  "hw_time (hw_request c ws s) = hw_time s"
  "hw_fires (hw_request c ws s) = hw_fires s"
  by (induction c ws s rule: hw_request.induct) auto

lemma hw_request_mmu:
  "hw_mmu (hw_request c ws s) =
     (if c = 0 then sglist_effect (Some ws) (hw_mmu s)
      else if c = 1 then region_effect (Some ws) (hw_mmu s) else hw_mmu s)"
  "hw_confs (hw_request c ws s) =
     (if c = 1 then hw_confs s @ conf_effect (Some ws) else hw_confs s)"
  by (induction c ws s rule: hw_request.induct) auto

lemma fifo_none_update [simp]: "fb_fifo f = None \<Longrightarrow> f\<lparr>fb_fifo := None\<rparr> = f"
  by (cases f) simp

lemma hw_handle_frame [simp]:
  "hw_chan (hw_handle c s) = (hw_chan s)(c := (hw_chan s c)\<lparr>fb_fifo := None\<rparr>)"
  "hw_time (hw_handle c s) = hw_time s"
  "hw_fires (hw_handle c s) = hw_fires s"
  by (auto simp: hw_handle_def fun_eq_iff split: option.split)

lemma hw_handle_mmu:
  "hw_mmu (hw_handle c s) =
     (if c = 0 then sglist_effect (hw_pend s 0) (hw_mmu s)
      else if c = 1 then region_effect (hw_pend s 1) (hw_mmu s) else hw_mmu s)"
  "hw_confs (hw_handle c s) =
     (if c = 1 then hw_confs s @ conf_effect (hw_pend s 1) else hw_confs s)"
  by (auto simp: hw_handle_def hw_pend_def hw_request_mmu split: option.split)

lemma hw_pend_handle [simp]: "hw_pend (hw_handle c s) c' = (if c' = c then None else hw_pend s c')"
  by (simp add: hw_pend_def)

lemma chan_cases:
  assumes "c < (5 :: nat)"
  obtains "c = 0" | "c = 1" | "c = 2" | "c = 3" | "c = 4"
  using assms by force

lemma hw_flush_frame:
  "hw_chan (hw_flush s) c = (if c < 5 then (hw_chan s c)\<lparr>fb_fifo := None\<rparr> else hw_chan s c)"
  "hw_time (hw_flush s) = hw_time s"
  "hw_fires (hw_flush s) = hw_fires s"
  by (auto simp: hw_flush_def elim!: chan_cases)

lemma hw_flush_effect:
  "hw_mmu (hw_flush s) = hw_mmu_settled s" "hw_confs (hw_flush s) = hw_confs_settled s"
  by (simp_all add: hw_flush_def hw_handle_mmu hw_mmu_settled_def hw_confs_settled_def)

lemma hw_tick_frame [simp]: "hw_fires (hw_tick s) = hw_fires s" "hw_time (hw_tick s) = Suc (hw_time s)"
  by (auto simp: hw_tick_def Let_def hw_flush_frame)

lemma hw_tick_chan:
  "hw_chan (hw_tick s) c = (if hw_fires s (hw_time s) \<and> c < 5
     then (hw_chan s c)\<lparr>fb_fifo := None\<rparr> else hw_chan s c)"
  by (simp add: hw_tick_def Let_def hw_flush_frame)

lemma hw_tick_settled [simp]:
  "hw_mmu_settled (hw_tick s) = hw_mmu_settled s" "hw_confs_settled (hw_tick s) = hw_confs_settled s"
  by (auto simp: hw_mmu_settled_def hw_confs_settled_def hw_pend_def hw_tick_chan)
    (auto simp: hw_tick_def Let_def hw_flush_effect hw_mmu_settled_def hw_confs_settled_def hw_pend_def)

lemma fb_ready_fifo [simp]: "fb_ready n (f\<lparr>fb_fifo := q\<rparr>) = fb_ready n f"
  by (simp add: fb_ready_def)

lemma hw_ok_tick [simp]: "hw_ok (hw_tick s) = hw_ok s"
  by (simp add: hw_ok_def hw_tick_chan)

section \<open>The busy wait finds space under a fair schedule\<close>

lemma dma_READL:
  "c < 5 \<Longrightarrow> READL dma_mmio (Suc (PORTAL_REQ_FIFO c)) s =
     (of_bool (hw_pend (hw_tick s) c = None), hw_tick s)"
  by (simp add: READL_def dma_mmio_def hw_read_def Let_def fb_notFull_def hw_pend_def)

lemma hw_pend_tick:
  "hw_fires s (hw_time s) \<or> hw_pend s c = None \<Longrightarrow> c < 5 \<Longrightarrow> hw_pend (hw_tick s) c = None"
  by (auto simp: hw_pend_def hw_tick_chan)

lemma busy_wait_settles:
  assumes "hw_pend s c = None \<or> (\<exists>k\<le>i. hw_fires s (hw_time s + k))" and "c < 5"
  shows "hw_pend (busy_wait dma_mmio (PORTAL_REQ_FIFO c) i s) c = None"
  using assms(1)
proof (induction i arbitrary: s)
  case 0
  with assms(2) show ?case
    by (simp add: dma_READL hw_pend_tick disj_commute)
next
  case (Suc i)
  show ?case
  proof (cases "hw_pend (hw_tick s) c = None")
    case True
    with assms(2) show ?thesis by (simp add: dma_READL)
  next
    case False
    have "\<not> (hw_fires s (hw_time s) \<or> hw_pend s c = None)"
    proof
      assume "hw_fires s (hw_time s) \<or> hw_pend s c = None"
      from hw_pend_tick [OF this assms(2)] False show False by simp
    qed
    then have nf: "\<not> hw_fires s (hw_time s)" and "hw_pend s c \<noteq> None" by simp_all
    with Suc.prems obtain k where k: "k \<le> Suc i" "hw_fires s (hw_time s + k)" by auto
    with nf obtain k' where "k = Suc k'" by (cases k) auto
    with k have "\<exists>k\<le>i. hw_fires (hw_tick s) (hw_time (hw_tick s) + k)"
      by (intro exI [of _ k']) simp
    with Suc.IH [of "hw_tick s"] False assms(2) show ?thesis by (simp add: dma_READL)
  qed
qed

lemma busy_wait_frame:
  assumes "c < 5"
  shows "hw_ok (busy_wait dma_mmio (PORTAL_REQ_FIFO c) i s) = hw_ok s"
    and "hw_mmu_settled (busy_wait dma_mmio (PORTAL_REQ_FIFO c) i s) = hw_mmu_settled s"
    and "hw_confs_settled (busy_wait dma_mmio (PORTAL_REQ_FIFO c) i s) = hw_confs_settled s"
  using assms by (induction i arbitrary: s) (simp_all add: dma_READL)

section \<open>A message written word by word is delivered\<close>

lemma dma_WRITEL:
  "c < 5 \<Longrightarrow> WRITEL dma_mmio (PORTAL_REQ_FIFO c) v s =
     (hw_tick s)\<lparr>hw_chan := (hw_chan (hw_tick s))(c := pipe_put v (hw_chan (hw_tick s) c))\<rparr>"
  by (simp add: WRITEL_def dma_mmio_def hw_write_def Let_def)

lemma hw_chan_tick_empty:
  "fb_fifo (hw_chan s c) = None \<Longrightarrow> hw_chan (hw_tick s) c = hw_chan s c"
  by (simp add: hw_tick_chan)

definition others_ready :: "nat \<Rightarrow> dma_hw \<Rightarrow> bool" where
  "others_ready c s \<longleftrightarrow> (\<forall>c'<5. c' \<noteq> c \<longrightarrow> fb_ready (hw_words c') (hw_chan s c'))"

text \<open>Writing the words before the last leaves the settled outcome alone.\<close>

lemma writel_prefix:
  assumes "c < 5" and "fb_fifo (hw_chan s c) = None"
    and "fb_count (hw_chan s c) + length ws \<le> fb_max (hw_chan s c)"
  defines "s' \<equiv> writel_seq dma_mmio (PORTAL_REQ_FIFO c) ws s"
  shows "hw_chan s' c = fold pipe_put ws (hw_chan s c) \<and> fb_fifo (hw_chan s' c) = None \<and>
    hw_mmu_settled s' = hw_mmu_settled s \<and> hw_confs_settled s' = hw_confs_settled s \<and>
    hw_fires s' = hw_fires s \<and> others_ready c s' = others_ready c s"
  using assms(2,3) unfolding s'_def
proof (induction ws arbitrary: s)
  case (Cons w ws)
  let ?t = "WRITEL dma_mmio (PORTAL_REQ_FIFO c) w s"
  have ch: "hw_chan ?t c = fb_enq w (hw_chan s c)"
    using assms(1) Cons.prems(1) by (simp add: dma_WRITEL hw_chan_tick_empty pipe_put_notFull)
  have enq: "fb_fifo (fb_enq w (hw_chan s c)) = None"
    "fb_count (fb_enq w (hw_chan s c)) = Suc (fb_count (hw_chan s c))"
    "fb_max (fb_enq w (hw_chan s c)) = fb_max (hw_chan s c)"
    using Cons.prems by (auto simp: fb_enq_def Let_def)
  have pend: "hw_pend ?t = hw_pend (hw_tick s)"
    using assms(1) Cons.prems(1) ch enq(1)
    by (auto simp: fun_eq_iff hw_pend_def dma_WRITEL hw_chan_tick_empty pipe_put_notFull)
  have "hw_mmu_settled ?t = hw_mmu_settled s \<and> hw_confs_settled ?t = hw_confs_settled s"
    using pend hw_tick_settled [of s] assms(1)
    by (simp add: hw_mmu_settled_def hw_confs_settled_def dma_WRITEL)
  moreover have "hw_fires ?t = hw_fires s \<and> others_ready c ?t = others_ready c s"
    using assms(1) by (simp add: dma_WRITEL others_ready_def hw_tick_chan)
  moreover note Cons.IH [of ?t]
  ultimately show ?case
    using Cons.prems ch enq by (auto simp: pipe_put_notFull)
qed simp

text \<open>The last word completes the message.\<close>

lemma writel_message:
  assumes c: "c < 5" and ok: "hw_ok s" and p: "hw_pend s c = None"
    and len: "length ws = hw_words c" "ws \<noteq> []"
  defines "s' \<equiv> writel_seq dma_mmio (PORTAL_REQ_FIFO c) ws s"
  shows "hw_ok s' \<and> hw_pend s' c = Some ws \<and>
    (\<exists>t. hw_mmu_settled t = hw_mmu_settled s \<and> hw_confs_settled t = hw_confs_settled s \<and>
       hw_pend t c = None \<and> hw_mmu s' = hw_mmu t \<and> hw_confs s' = hw_confs t \<and>
       hw_pend s' = (hw_pend t)(c := Some ws))"
proof -
  from len(2) obtain us w where ws: "ws = us @ [w]" by (cases ws rule: rev_cases) auto
  let ?u = "writel_seq dma_mmio (PORTAL_REQ_FIFO c) us s" and ?f = "hw_chan s c"
  have rdy: "fb_ready (length ws) ?f" and f0: "fb_fifo ?f = None"
    using ok c p len by (auto simp: hw_ok_def hw_pend_def)
  then have u: "hw_chan ?u c = fold pipe_put us ?f" "fb_fifo (hw_chan ?u c) = None"
    "hw_mmu_settled ?u = hw_mmu_settled s" "hw_confs_settled ?u = hw_confs_settled s"
    "hw_fires ?u = hw_fires s" "others_ready c ?u = others_ready c s"
    using writel_prefix [of c s us] c ws by (auto simp: fb_ready_def)
  have s': "s' = (hw_tick ?u)\<lparr>hw_chan := (hw_chan (hw_tick ?u))(c := pipe_put w (hw_chan ?u c))\<rparr>"
    using c u(2) by (simp add: s'_def ws writel_seq_append dma_WRITEL hw_chan_tick_empty)
  have "pipe_put w (hw_chan ?u c) = fold pipe_put ws ?f"
    by (simp add: ws u(1))
  then have ch: "hw_chan s' c = ?f\<lparr>fb_buff := ws, fb_count := 0, fb_fifo := Some ws\<rparr>"
    using fold_pipe_put_message [OF rdy f0 len(2)] by (simp add: s')
  have "others_ready c s'"
    using u(6) ok by (auto simp: others_ready_def s' hw_tick_chan hw_ok_def)
  then have "hw_ok s'"
    using ok ch rdy len c u(5)
    by (auto simp: hw_ok_def others_ready_def fb_ready_def s')
  moreover have "hw_pend s' = (hw_pend (hw_tick ?u))(c := Some ws)"
    using ch by (auto simp: fun_eq_iff hw_pend_def s')
  moreover have "hw_pend (hw_tick ?u) c = None"
    using u(2) by (simp add: hw_pend_def hw_chan_tick_empty)
  ultimately show ?thesis
    using u(3,4) by (auto simp: s' intro!: exI [of _ "hw_tick ?u"])
qed

lemma effects_commute:
  "region_effect q (sglist_effect r mmu) = sglist_effect r (region_effect q mmu)"
  by (cases q rule: region_effect.cases; cases r rule: sglist_effect.cases)
    (simp_all add: cfg_region_def cfg_sglist_def mmu_region_def mmu_sglist_def)

text \<open>
  One request through the proxy: whatever was pending before, the settled outcome afterwards is
  that of the message's method on top of it.
\<close>

lemma send_words_delivers:
  assumes c: "c < 5" and ok: "hw_ok s" and len: "length ws = hw_words c" "ws \<noteq> []"
  defines "s' \<equiv> send_words dma_mmio c ws s"
  shows "hw_ok s'"
    and "c = 0 \<Longrightarrow> hw_mmu_settled s' = sglist_effect (Some ws) (hw_mmu_settled s)"
    and "c = 1 \<Longrightarrow> hw_mmu_settled s' = region_effect (Some ws) (hw_mmu_settled s)"
    and "hw_confs_settled s' = hw_confs_settled s @ (if c = 1 then conf_effect (Some ws) else [])"
proof -
  let ?b = "busy_wait dma_mmio (PORTAL_REQ_FIFO c) 50 s"
  have "\<exists>k\<le>50. hw_fires s (hw_time s + k)" using ok by (simp add: hw_ok_def)
  then have "hw_pend ?b c = None" using busy_wait_settles [of s c 50] c by simp
  moreover have b: "hw_ok ?b" "hw_mmu_settled ?b = hw_mmu_settled s"
    "hw_confs_settled ?b = hw_confs_settled s"
    using busy_wait_frame [OF c] ok by simp_all
  ultimately obtain t where t: "hw_mmu_settled t = hw_mmu_settled s"
    "hw_confs_settled t = hw_confs_settled s" "hw_pend t c = None" "hw_mmu s' = hw_mmu t"
    "hw_confs s' = hw_confs t" "hw_pend s' = (hw_pend t)(c := Some ws)" and ok': "hw_ok s'"
    using writel_message [OF c _ _ len, of ?b] by (auto simp: s'_def send_words_def Let_def)
  show "hw_ok s'" by (rule ok')
  show "c = 0 \<Longrightarrow> hw_mmu_settled s' = sglist_effect (Some ws) (hw_mmu_settled s)"
    using t by (simp add: hw_mmu_settled_def effects_commute)
  show "c = 1 \<Longrightarrow> hw_mmu_settled s' = region_effect (Some ws) (hw_mmu_settled s)"
    using t by (simp add: hw_mmu_settled_def)
  show "hw_confs_settled s' = hw_confs_settled s @ (if c = 1 then conf_effect (Some ws) else [])"
    using t by (auto simp: hw_confs_settled_def)
qed

section \<open>The contract of the configuration port\<close>

locale config_port =
  fixes m :: "'d mmio"
    and mmu_of :: "'d \<Rightarrow> sglist_mmu"
    and confs_of :: "'d \<Rightarrow> 5 word list"
    and port_ok :: "'d \<Rightarrow> bool"
  assumes ok_sglist: "port_ok d \<Longrightarrow> port_ok (DmaConfigProxy_sglist m p a l d)"
    and mmu_sglist: "port_ok d \<Longrightarrow>
      mmu_of (DmaConfigProxy_sglist m p a l d) = cfg_sglist p a l (mmu_of d)"
    and confs_sglist: "port_ok d \<Longrightarrow> confs_of (DmaConfigProxy_sglist m p a l d) = confs_of d"
    and ok_region: "port_ok d \<Longrightarrow> port_ok (DmaConfigProxy_region m p b8 b4 b0 d)"
    and mmu_region: "port_ok d \<Longrightarrow>
      mmu_of (DmaConfigProxy_region m p b8 b4 b0 d) = cfg_region p b8 b4 b0 (mmu_of d)"
    and confs_region: "port_ok d \<Longrightarrow>
      confs_of (DmaConfigProxy_region m p b8 b4 b0 d) = confs_of d @ [ucast p]"

lemma dma_sglist_delivered:
  assumes ok: "hw_ok d"
  shows "hw_ok (DmaConfigProxy_sglist dma_mmio p a l d)"
    and "hw_mmu_settled (DmaConfigProxy_sglist dma_mmio p a l d) = cfg_sglist p a l (hw_mmu_settled d)"
    and "hw_confs_settled (DmaConfigProxy_sglist dma_mmio p a l d) = hw_confs_settled d"
proof -
  let ?ws = "[p, hi32 a, lo32 a, l]"
  have len: "length ?ws = hw_words 0" "?ws \<noteq> []" by (simp_all add: hw_words_def)
  have eq: "DmaConfigProxy_sglist dma_mmio p a l d = send_words dma_mmio 0 ?ws d"
    by (simp only: DmaConfigProxy_sglist_def dma_chan_defs)
  note D = send_words_delivers [OF _ ok len]
  show "hw_ok (DmaConfigProxy_sglist dma_mmio p a l d)" unfolding eq by (rule D(1)) simp
  show "hw_mmu_settled (DmaConfigProxy_sglist dma_mmio p a l d) = cfg_sglist p a l (hw_mmu_settled d)"
    unfolding eq by (subst D(2)) simp_all
  show "hw_confs_settled (DmaConfigProxy_sglist dma_mmio p a l d) = hw_confs_settled d"
    unfolding eq by (subst D(4)) simp_all
qed

lemma dma_region_delivered:
  assumes ok: "hw_ok d"
  shows "hw_ok (DmaConfigProxy_region dma_mmio p b8 b4 b0 d)"
    and "hw_mmu_settled (DmaConfigProxy_region dma_mmio p b8 b4 b0 d)
       = cfg_region p b8 b4 b0 (hw_mmu_settled d)"
    and "hw_confs_settled (DmaConfigProxy_region dma_mmio p b8 b4 b0 d) = hw_confs_settled d @ [ucast p]"
proof -
  let ?ws = "[p, hi32 b8, lo32 b8, hi32 b4, lo32 b4, hi32 b0, lo32 b0]"
  have len: "length ?ws = hw_words 1" "?ws \<noteq> []" by (simp_all add: hw_words_def)
  have eq: "DmaConfigProxy_region dma_mmio p b8 b4 b0 d = send_words dma_mmio 1 ?ws d"
    by (simp only: DmaConfigProxy_region_def dma_chan_defs)
  note D = send_words_delivers [OF _ ok len]
  show "hw_ok (DmaConfigProxy_region dma_mmio p b8 b4 b0 d)" unfolding eq by (rule D(1)) simp
  show "hw_mmu_settled (DmaConfigProxy_region dma_mmio p b8 b4 b0 d)
       = cfg_region p b8 b4 b0 (hw_mmu_settled d)"
    unfolding eq by (subst D(3)) simp_all
  show "hw_confs_settled (DmaConfigProxy_region dma_mmio p b8 b4 b0 d) = hw_confs_settled d @ [ucast p]"
    unfolding eq by (subst D(4)) simp_all
qed

interpretation hw_port: config_port dma_mmio hw_mmu_settled hw_confs_settled hw_ok
  by unfold_locales (simp_all add: dma_sglist_delivered dma_region_delivered)

text \<open>A portal out of reset whose rules fire on every fourth bus cycle.\<close>

definition hw_reset :: "sglist_mmu \<Rightarrow> dma_hw" where
  "hw_reset mmu =
     \<lparr>hw_chan = (\<lambda>c. \<lparr>fb_max = hw_words c - 1, fb_buff = replicate (hw_words c) 0, fb_count = 0,
                      fb_fifo = None\<rparr>),
      hw_mmu = mmu, hw_confs = [], hw_others = [], hw_time = 0, hw_fires = (\<lambda>t. 4 dvd t)\<rparr>"

lemma hw_ok_reset: "hw_ok (hw_reset mmu)"
proof -
  have "\<exists>k\<le>50. (4::nat) dvd t + k" for t
    by (rule exI [of _ "3 * (t mod 4)"]) (auto simp: dvd_eq_mod_eq_0 mod_simps; presburger)
  then show ?thesis
    by (auto simp: hw_ok_def hw_reset_def fb_ready_def hw_words_def elim!: chan_cases)
qed

lemma hw_reset_settled [simp]:
  "hw_mmu_settled (hw_reset mmu) = mmu" "hw_confs_settled (hw_reset mmu) = []"
  by (simp_all add: hw_mmu_settled_def hw_confs_settled_def hw_reset_def hw_pend_def)

end
