(* ===== verification/Sg_List.thy ===== *)
theory Sg_List
  imports Prelude
begin

text \<open>
  Scatter-gather lists, the data that travels from the allocator (\<^verbatim>\<open>drivers/portalmem\<close>) through
  \<^verbatim>\<open>send_fd_to_portal\<close> to the translation unit: \<^verbatim>\<open>DmaEntry\<close> of \<^verbatim>\<open>portalmem.h\<close>, a physical address
  and a length.  This theory says what such a list means, independently of the code that builds
  or consumes it: the physical byte behind every offset of the buffer.
\<close>

type_synonym sg_entry = "u64 \<times> u32"

section \<open>Specification: where a byte of the buffer lives\<close>

fun sg_lookup :: "sg_entry list \<Rightarrow> nat \<Rightarrow> nat option" where
  "sg_lookup [] off = None"
| "sg_lookup ((addr, len) # es) off =
     (if off < unat len then Some (unat addr + off) else sg_lookup es (off - unat len))"

definition sg_total :: "sg_entry list \<Rightarrow> nat" where
  "sg_total es = sum_list (map (unat \<circ> snd) es)"

text \<open>
  The lists the unit can represent: the three page sizes in descending order, naturally aligned
  40-bit addresses, and at most 255 entries (one of the 256 frames of an object is taken by the
  end-of-list entry).
\<close>

definition sg_wf :: "sg_entry list \<Rightarrow> bool" where
  "sg_wf es \<longleftrightarrow> length es \<le> 255 \<and> sorted_wrt (\<lambda>x y. snd y \<le> snd x) es \<and>
     list_all (\<lambda>(addr, len). (len = 2 ^ 20 \<or> len = 2 ^ 16 \<or> len = 2 ^ 12) \<and>
       unat addr mod unat len = 0 \<and> unat addr < 2 ^ 40) es"

lemma sg_lookup_append:
  "sg_lookup (xs @ ys) off =
     (if off < sg_total xs then sg_lookup xs off else sg_lookup ys (off - sg_total xs))"
  by (induction xs off rule: sg_lookup.induct) (auto simp: sg_total_def)

lemma sg_lookup_uniform:
  assumes "\<And>e. e \<in> set es \<Longrightarrow> unat (snd e) = L" and "0 < L"
  shows "sg_lookup es off =
    (if off div L < length es then Some (unat (fst (es ! (off div L))) + off mod L) else None)"
  using assms(1)
proof (induction es off rule: sg_lookup.induct)
  case (2 addr len es off)
  have l: "unat len = L" using 2(2) [of "(addr, len)"] by simp
  have tl: "\<And>e. e \<in> set es \<Longrightarrow> unat (snd e) = L" using 2(2) by simp
  show ?case
  proof (cases "off < L")
    case True
    then show ?thesis by (simp add: l)
  next
    case False
    then have "off div L = Suc ((off - L) div L)" "off mod L = (off - L) mod L"
      using assms(2) by (simp_all add: le_div_geq le_mod_geq)
    with False 2(1) [OF _ tl] show ?thesis by (simp add: l)
  qed
qed simp

lemma sg_lookup_None_iff: "sg_lookup es off = None \<longleftrightarrow> sg_total es \<le> off"
  by (induction es off rule: sg_lookup.induct) (auto simp: sg_total_def)

definition entry_wf :: "sg_entry \<Rightarrow> bool" where
  "entry_wf e \<longleftrightarrow> (snd e = 2 ^ 20 \<or> snd e = 2 ^ 16 \<or> snd e = 2 ^ 12) \<and>
     unat (fst e) mod unat (snd e) = 0 \<and> unat (fst e) < 2 ^ 40"

lemma sg_wf_entry: "sg_wf es \<Longrightarrow> e \<in> set es \<Longrightarrow> entry_wf e"
  by (auto simp: sg_wf_def list_all_iff entry_wf_def)

lemma sg_total_uniform:
  "(\<And>e. e \<in> set es \<Longrightarrow> unat (snd e) = L) \<Longrightarrow> sg_total es = length es * L"
  unfolding sg_total_def by (rule sum_list_replicate_map) simp

end
