(* ===== verification/Dma_Send_Fd.thy ===== *)
theory Dma_Send_Fd
  imports Dma_Hw Sg_List
begin

text \<open>
  \<^verbatim>\<open>cpp/dmaSendFd.h\<close>: \<^verbatim>\<open>send_fd_to_portal\<close> programs the translation unit with the scatter-gather
  list of a buffer.  The source is compiled three ways (in a kernel module, in user space, and
  for the simulator); the body of the loop, the end-of-list entry and the computation of the
  region descriptors are shared by the three and are shared here.  \<^verbatim>\<open>int\<close> and \<^verbatim>\<open>long\<close> values are
  32- and 64-bit words, \<^verbatim>\<open>entryCount\<close> and \<^verbatim>\<open>idxOffset\<close> 8-bit ones, as on the targets.
\<close>

definition shifts :: "nat list" where
  "shifts = [20, 16, 12, 0]"

section \<open>The loop over the scatter-gather list\<close>

text \<open>The inner loop over \<^verbatim>\<open>j\<close>: the index of the page size equal to \<^verbatim>\<open>len\<close>, or 3.\<close>

function match_shift :: "u64 \<Rightarrow> nat \<Rightarrow> nat" where
  "match_shift len j =
     (if j < 3 then (if len = push_bit (shifts ! j) 1 then j else match_shift len (Suc j)) else j)"
  by pat_completeness auto
termination
  by (relation "measure (\<lambda>(len, j). 3 - j)") auto

declare match_shift.simps [simp del]

definition sg_pointer :: "u32 \<Rightarrow> nat \<Rightarrow> u32" where
  "sg_pointer oid i = push_bit 8 oid + of_nat i"

definition sg_shifted :: "u64 \<Rightarrow> u64 \<Rightarrow> u64" where
  "sg_shifted addr len =
     (let j = match_shift len 0 in if j < 3 then signed_drop_bit (shifts ! j) addr else addr)"

definition count_region :: "u64 \<Rightarrow> u32 list \<Rightarrow> u32 list" where
  "count_region len regions =
     (let j = match_shift len 0 in if j < 3 then regions[j := regions ! j + 1] else regions)"

definition sg_body :: "'d mmio \<Rightarrow> u32 \<Rightarrow> nat \<Rightarrow> u64 \<Rightarrow> u64 \<Rightarrow> u32 list \<times> 'd \<Rightarrow> u32 list \<times> 'd" where
  "sg_body m oid i addr len st =
     (case st of (regions, d) \<Rightarrow>
        (count_region len regions,
         DmaConfigProxy_sglist m (sg_pointer oid i) (sg_shifted addr len) (ucast len) d))"

fun sg_loop :: "'d mmio \<Rightarrow> u32 \<Rightarrow> nat \<Rightarrow> sg_entry list \<Rightarrow> u32 list \<times> 'd \<Rightarrow> nat \<times> u32 list \<times> 'd" where
  "sg_loop m oid i [] st = (i, st)"
| "sg_loop m oid i ((addr, len) # es) st = sg_loop m oid (Suc i) es (sg_body m oid i addr (ucast len) st)"

section \<open>The region descriptors\<close>

definition border_step :: "u32 list \<Rightarrow> nat \<Rightarrow> u64 \<times> u8 \<times> u64 list \<Rightarrow> u64 \<times> u8 \<times> u64 list" where
  "border_step regions i st =
     (case st of (border, entryCount, borderVal) \<Rightarrow>
        let idxOff = ucast (ucast entryCount - border) :: u8;
            entryCount' = entryCount + ucast (regions ! i);
            border' = border + ucast (regions ! i)
        in (push_bit (shifts ! i - shifts ! (i + 1)) border', entryCount',
            borderVal @ [push_bit 8 border' OR ucast idxOff]))"

definition border_loop :: "u32 list \<Rightarrow> u64 list" where
  "border_loop regions = snd (snd (fold (border_step regions) [0, 1, 2] (0, 0, [])))"

definition send_regions :: "'d mmio \<Rightarrow> u32 \<Rightarrow> nat \<times> u32 list \<times> 'd \<Rightarrow> 'd" where
  "send_regions m oid st =
     (case st of (i, regions, d) \<Rightarrow>
        let borderVal = border_loop regions in
        DmaConfigProxy_region m oid (borderVal ! 0) (borderVal ! 1) (borderVal ! 2)
          (DmaConfigProxy_sglist m (sg_pointer oid i) 0 0 d))"

section \<open>The three builds of send_fd_to_portal\<close>

text \<open>
  In the kernel the scatter-gather table hangs off the file the descriptor names; it is the
  argument here.  The result is the object id.
\<close>

definition send_fd_to_portal_kernel :: "'d mmio \<Rightarrow> sg_entry list \<Rightarrow> u32 \<Rightarrow> 'd \<Rightarrow> int \<times> 'd" where
  "send_fd_to_portal_kernel m sgtable oid d =
     (sint oid, send_regions m oid (sg_loop m oid 0 sgtable ([0, 0, 0], d)))"

text \<open>
  In user space the addresses come from the ioctl PA_DMA_ADDRESSES, a parameter: given the
  descriptor and the caller's entry count it fails with a return code or yields the number of
  entries of the buffer and the contents it leaves in the caller's array.
\<close>

definition send_fd_to_portal_user ::
    "(int \<Rightarrow> nat \<Rightarrow> int + nat \<times> (nat \<Rightarrow> sg_entry)) \<Rightarrow> 'd mmio \<Rightarrow> int \<Rightarrow> u32 \<Rightarrow> 'd \<Rightarrow> int \<times> 'd" where
  "send_fd_to_portal_user pa_ioctl m fd oid d =
     (case pa_ioctl fd 0 of
        Inl rc \<Rightarrow> (rc, d)
      | Inr (numEntries, _) \<Rightarrow>
          (case pa_ioctl fd numEntries of
             Inl rc \<Rightarrow> (rc, d)
           | Inr (_, entries) \<Rightarrow>
               (sint oid, send_regions m oid
                  (sg_loop m oid 0 (map entries [0..<numEntries]) ([0, 0, 0], d)))))"

text \<open>
  For the simulator the descriptor is first sent over the socket (\<^verbatim>\<open>sock_write\<close>), then the element
  sizes are asked for one by one until a zero or an error; addresses are offsets within the
  buffer tagged with the id in bits 32 and up.  The loop has no bound of its own.
\<close>

partial_function (option) bsim_loop ::
    "(nat \<Rightarrow> int) \<Rightarrow> 'd mmio \<Rightarrow> u32 \<Rightarrow> nat \<Rightarrow> u32 \<Rightarrow> u32 list \<times> 'd \<Rightarrow>
       (int \<times> nat \<times> u32 list \<times> 'd) option" where
  "bsim_loop elem m oid i size_accum st =
     (let len = elem i in
      if len < 0 then Some (len, i, st)
      else if len = 0 then Some (0, i, st)
      else bsim_loop elem m oid (Suc i) (size_accum + of_int len)
             (sg_body m oid i (scast size_accum OR push_bit 32 (scast oid)) (of_int len) st))"

definition send_fd_to_portal_bsim ::
    "(int \<Rightarrow> 'd \<Rightarrow> 'd) \<Rightarrow> (int \<Rightarrow> nat \<Rightarrow> int) \<Rightarrow> 'd mmio \<Rightarrow> int \<Rightarrow> u32 \<Rightarrow> 'd \<Rightarrow> (int \<times> 'd) option" where
  "send_fd_to_portal_bsim sock_write pa_elem m fd oid d =
     (case bsim_loop (pa_elem fd) m oid 0 0 ([0, 0, 0], sock_write fd d) of
        None \<Rightarrow> None
      | Some (rc, st) \<Rightarrow> Some (if rc < 0 then (rc, snd (snd st)) else (sint oid, send_regions m oid st)))"

section \<open>What the loop sends\<close>

lemma match_shift_eq:
  "match_shift len 0 =
     (if len = 2 ^ 20 then 0 else if len = 2 ^ 16 then 1 else if len = 2 ^ 12 then 2 else 3)"
  by (simp add: match_shift.simps shifts_def push_bit_of_1 eval_nat_numeral)

lemma page_size_cases:
  assumes "len = 2 ^ 20 \<or> len = 2 ^ 16 \<or> len = (2 ^ 12 :: u32)"
  obtains "len = 2 ^ 20" "match_shift (ucast len) 0 = 0"
    | "len = 2 ^ 16" "match_shift (ucast len) 0 = 1"
    | "len = 2 ^ 12" "match_shift (ucast len) 0 = 2"
  using assms by (auto simp: match_shift_eq)

text \<open>For an address below \<^verbatim>\<open>2 ^ 63\<close> the arithmetic shift of a \<^verbatim>\<open>long\<close> is a division.\<close>

lemma signed_drop_bit_nonneg:
  assumes "unat (a :: u64) < 2 ^ 63"
  shows "unat (signed_drop_bit n a) = unat a div 2 ^ n"
proof -
  have "\<not> bit a 63"
    using take_bit_word_id [OF assms] bit_take_bit_iff [of 63 a 63] by simp
  then have "signed_drop_bit n a = drop_bit n a"
    by (intro bit_word_eqI) (auto simp: bit_simps min_def dest: bit_imp_le_length)
  then show ?thesis by (simp add: unat_drop_bit_div)
qed

lemma sg_shifted_eq:
  assumes "len = 2 ^ 20 \<or> len = 2 ^ 16 \<or> len = (2 ^ 12 :: u32)" and "unat addr < 2 ^ 40"
  shows "unat (sg_shifted addr (ucast len)) = unat addr div unat len"
proof -
  have a: "unat addr < 2 ^ 63" using assms(2) by simp
  have len: "unat (2 ^ 20 :: u32) = 2 ^ 20" "unat (2 ^ 16 :: u32) = 2 ^ 16" "unat (2 ^ 12 :: u32) = 2 ^ 12"
    by simp_all
  have sh: "shifts ! 0 = 20" "shifts ! 1 = 16" "shifts ! 2 = 12"
    by (simp_all add: shifts_def)
  from assms(1) show ?thesis
    by (rule page_size_cases)
      (simp_all only: sg_shifted_def Let_def sh len, simp_all add: signed_drop_bit_nonneg [OF a])
qed

fun load_pages :: "u32 \<Rightarrow> nat \<Rightarrow> sg_entry list \<Rightarrow> sglist_mmu \<Rightarrow> sglist_mmu" where
  "load_pages oid i [] mmu = mmu"
| "load_pages oid i ((addr, len) # es) mmu =
     load_pages oid (Suc i) es (cfg_sglist (sg_pointer oid i) (sg_shifted addr (ucast len)) len mmu)"

definition count_regions :: "sg_entry list \<Rightarrow> u32 list \<Rightarrow> u32 list" where
  "count_regions es = fold (\<lambda>e. count_region (ucast (snd e))) es"

context config_port
begin

lemma sg_loop_result:
  assumes "port_ok d"
  shows "\<exists>d'. sg_loop m oid i es (regions, d) = (i + length es, count_regions es regions, d') \<and>
    port_ok d' \<and> mmu_of d' = load_pages oid i es (mmu_of d) \<and> confs_of d' = confs_of d"
  using assms
proof (induction es arbitrary: i regions d)
  case (Cons e es)
  obtain addr len where e: "e = (addr, len)" by (cases e)
  let ?d = "DmaConfigProxy_sglist m (sg_pointer oid i) (sg_shifted addr (ucast len)) len d"
  have "port_ok ?d" "mmu_of ?d = cfg_sglist (sg_pointer oid i) (sg_shifted addr (ucast len)) len (mmu_of d)"
    "confs_of ?d = confs_of d"
    using Cons.prems by (simp_all add: ok_sglist mmu_sglist confs_sglist)
  with Cons.IH [of ?d "Suc i" "count_region (ucast len) regions"] e show ?case
    by (auto simp: sg_body_def count_regions_def)
qed (simp add: count_regions_def)

text \<open>The whole transfer: the pages, the end-of-list entry, the region descriptors, one confirmation.\<close>

lemma send_fd_result:
  fixes oid :: u32 and es :: "sg_entry list"
  assumes "port_ok d"
  defines "d' \<equiv> send_regions m oid (sg_loop m oid 0 es ([0, 0, 0], d))"
    and "bv \<equiv> border_loop (count_regions es [0, 0, 0])"
  shows "port_ok d'"
    and "mmu_of d' = cfg_region oid (bv ! 0) (bv ! 1) (bv ! 2)
      (cfg_sglist (sg_pointer oid (length es)) 0 0 (load_pages oid 0 es (mmu_of d)))"
    and "confs_of d' = confs_of d @ [ucast oid]"
proof -
  obtain e where e: "sg_loop m oid 0 es ([0, 0, 0], d) = (length es, count_regions es [0, 0, 0], e)"
    "port_ok e" "mmu_of e = load_pages oid 0 es (mmu_of d)" "confs_of e = confs_of d"
    using sg_loop_result [OF assms(1), of oid 0 es "[0, 0, 0]"] by auto
  show "port_ok d'" and "confs_of d' = confs_of d @ [ucast oid]"
    and "mmu_of d' = cfg_region oid (bv ! 0) (bv ! 1) (bv ! 2)
      (cfg_sglist (sg_pointer oid (length es)) 0 0 (load_pages oid 0 es (mmu_of d)))"
    using e unfolding d'_def bv_def
    by (simp_all add: send_regions_def Let_def ok_sglist ok_region mmu_sglist mmu_region
        confs_sglist confs_region)
qed

end

section \<open>What the translation unit holds afterwards\<close>

definition page_frame :: "sg_entry \<Rightarrow> 28 word" where
  "page_frame e = ucast (ucast (sg_shifted (fst e) (ucast (snd e))) :: 40 word)"

lemma sg_pointer_index: "(ucast (sg_pointer oid i) :: 13 word) = of_nat (256 * unat oid + i)"
proof -
  have "sg_pointer oid i = of_nat (256 * unat oid + i)"
    by (simp add: sg_pointer_def push_bit_eq_mult mult.commute)
  then have "unat (sg_pointer oid i) = (256 * unat oid + i) mod 2 ^ 32"
    by (simp only: unat_of_nat_mod) simp
  then have "unat (ucast (sg_pointer oid i) :: 13 word) = unat (of_nat (256 * unat oid + i) :: 13 word)"
    by (simp only: unat_ucast_down unat_of_nat_mod) (simp add: mod_mod_cancel)
  then show ?thesis by (simp only: word_unat_eq_iff)
qed

lemma cfg_sglist_pages:
  "pages (cfg_sglist p a l mmu) = (pages mmu)(ucast p := ucast (ucast a :: 40 word))"
  by (simp add: cfg_sglist_def mmu_sglist_def)

lemma cfg_sglist_regs [simp]:
  "reg8 (cfg_sglist p a l mmu) = reg8 mmu" "reg4 (cfg_sglist p a l mmu) = reg4 mmu"
  "reg0 (cfg_sglist p a l mmu) = reg0 mmu"
  by (simp_all add: cfg_sglist_def mmu_sglist_def)

lemma load_pages_regs [simp]:
  "reg8 (load_pages oid i es mmu) = reg8 mmu" "reg4 (load_pages oid i es mmu) = reg4 mmu"
  "reg0 (load_pages oid i es mmu) = reg0 mmu"
  by (induction es mmu rule: load_pages.induct) simp_all

lemma load_pages_at:
  assumes "256 * unat oid + i + length es \<le> 2 ^ 13" and "n < 2 ^ 13"
  shows "pages (load_pages oid i es mmu) (of_nat n) =
    (if 256 * unat oid + i \<le> n \<and> n < 256 * unat oid + i + length es
     then page_frame (es ! (n - (256 * unat oid + i))) else pages mmu (of_nat n))"
  using assms(1)
proof (induction oid i es mmu rule: load_pages.induct)
  case (2 oid i addr len es mmu)
  let ?b = "256 * unat oid + i"
  have "(of_nat n :: 13 word) = of_nat ?b \<longleftrightarrow> n = ?b"
    by (rule of_nat_word_eq_iff_less) (use 2(2) assms(2) in simp_all)
  then have hd: "pages (cfg_sglist (sg_pointer oid i) (sg_shifted addr (ucast len)) len mmu) (of_nat n)
      = (if n = ?b then page_frame (addr, len) else pages mmu (of_nat n))"
    by (simp add: cfg_sglist_pages sg_pointer_index page_frame_def)
  have "n - ?b = Suc (n - Suc ?b)" if "Suc ?b \<le> n" using that by simp
  with 2 hd show ?case by (auto simp: nth_Cons')
qed auto

lemma region_of_count:
  "count_regions es [a, b, c] =
     [a + of_nat (length (filter (\<lambda>e. snd e = 2 ^ 20) es)),
      b + of_nat (length (filter (\<lambda>e. snd e = 2 ^ 16) es)),
      c + of_nat (length (filter (\<lambda>e. snd e = 2 ^ 12) es))]"
proof (induction es arbitrary: a b c)
  case (Cons e es)
  have up: "(ucast (snd e) :: u64) = 2 ^ k \<longleftrightarrow> snd e = 2 ^ k" if "k < 32" for k
  proof -
    have "(2 :: u64) ^ k = ucast ((2 :: u32) ^ k)"
      using that by (intro bit_word_eqI) (auto simp: bit_simps)
    then show ?thesis by (metis ucast_u32_u64)
  qed
  have "count_region (ucast (snd e)) [a, b, c] =
      [a + of_bool (snd e = 2 ^ 20), b + of_bool (snd e = 2 ^ 16), c + of_bool (snd e = 2 ^ 12)]"
    using up [of 20] up [of 16] up [of 12]
    by (simp add: count_region_def Let_def match_shift_eq)
  then show ?case
    using Cons.IH by (simp add: count_regions_def)
qed (simp add: count_regions_def)

lemma border_step_eq:
  assumes "regions ! i = of_nat n" and "n < 2 ^ 32" and "shifts ! i - shifts ! (i + 1) = k"
  shows "border_step regions i (of_nat b, e, bv) =
    (of_nat (2 ^ k * (b + n)), e + of_nat n, bv @ [push_bit 8 (of_nat (b + n)) OR ucast (e - of_nat b)])"
proof -
  have up: "(ucast (of_nat n :: u32) :: u64) = of_nat n" using assms(2) by (simp add: ucast_of_nat_up)
  have dn: "(ucast (of_nat x :: u32) :: u8) = of_nat x" "(ucast (of_nat x :: u64) :: u8) = of_nat x" for x
    by (simp_all add: ucast_of_nat_down)
  have p: "push_bit k (of_nat x :: u64) = of_nat (2 ^ k * x)" for x
    by (simp add: push_bit_eq_mult mult.commute)
  show ?thesis
    unfolding border_step_def Let_def prod.case assms(1,3) up dn ucast_minus_u8 ucast_u8_u64
      of_nat_add [symmetric] p ..
qed

lemma border_loop_eq:
  assumes "n0 + n1 + n2 < 2 ^ 24"
  shows "border_loop [of_nat n0, of_nat n1, of_nat n2] =
    [push_bit 8 (of_nat n0) OR ucast (0 :: u8),
     push_bit 8 (of_nat (16 * n0 + n1)) OR ucast (of_nat n0 - of_nat (16 * n0) :: u8),
     push_bit 8 (of_nat (256 * n0 + 16 * n1 + n2)) OR
       ucast (of_nat (n0 + n1) - of_nat (256 * n0 + 16 * n1) :: u8)]"
proof -
  let ?R = "[of_nat n0, of_nat n1, of_nat n2] :: u32 list"
  have s0: "border_step ?R 0 (of_nat 0, of_nat 0, []) =
      (of_nat (2 ^ 4 * (0 + n0)), of_nat 0 + of_nat n0,
       [] @ [push_bit 8 (of_nat (0 + n0)) OR ucast (of_nat 0 - of_nat 0 :: u8)])"
    by (rule border_step_eq) (use assms in \<open>simp_all add: shifts_def\<close>)
  have s1: "border_step ?R 1 (of_nat b, e, bv) =
      (of_nat (2 ^ 4 * (b + n1)), e + of_nat n1,
       bv @ [push_bit 8 (of_nat (b + n1)) OR ucast (e - of_nat b)])" for b e bv
    by (rule border_step_eq) (use assms in \<open>simp_all add: shifts_def\<close>)
  have s2: "border_step ?R 2 (of_nat b, e, bv) =
      (of_nat (2 ^ 12 * (b + n2)), e + of_nat n2,
       bv @ [push_bit 8 (of_nat (b + n2)) OR ucast (e - of_nat b)])" for b e bv
    by (rule border_step_eq) (use assms in \<open>simp_all add: shifts_def\<close>)
  have "fold (border_step ?R) [0, 1, 2] (0, 0, []) =
      border_step ?R 2 (border_step ?R 1 (border_step ?R 0 (of_nat 0, of_nat 0, [])))"
    by simp
  also have "snd (snd \<dots>) =
    [push_bit 8 (of_nat n0) OR ucast (0 :: u8),
     push_bit 8 (of_nat (16 * n0 + n1)) OR ucast (of_nat n0 - of_nat (16 * n0) :: u8),
     push_bit 8 (of_nat (16 * (16 * n0 + n1) + n2)) OR
       ucast (of_nat n0 + of_nat n1 - of_nat (16 * (16 * n0 + n1)) :: u8)]"
    unfolding s0 s1 s2 by simp
  finally show ?thesis
    by (simp add: border_loop_def algebra_simps)
qed

section \<open>The barriers partition the buffer\<close>

text \<open>
  The unit on a triple of region descriptors for \<^verbatim>\<open>n0\<close> large, \<^verbatim>\<open>n1\<close> medium and \<^verbatim>\<open>n2\<close> small pages: the
  selected frame is the position in the list of the entry the offset falls into.
\<close>

lemma mmu_select_eq:
  assumes n: "n0 + n1 + n2 \<le> 255"
  shows "mmu_select \<lparr>barrier = of_nat n0, idxOffset = 0\<rparr>
      \<lparr>barrier = of_nat (16 * n0 + n1), idxOffset = of_nat n0 - of_nat (16 * n0)\<rparr>
      \<lparr>barrier = of_nat (256 * n0 + 16 * n1 + n2),
       idxOffset = of_nat (n0 + n1) - of_nat (256 * n0 + 16 * n1)\<rparr> off =
    (let o8 = unat off div 2 ^ 20; o4 = unat off div 2 ^ 16; o0 = unat off div 2 ^ 12 in
     if o8 < n0 then (Page1M, of_nat o8, 0)
     else if o4 < 16 * n0 + n1 then (Page64K, of_nat o4, of_nat n0 - of_nat (16 * n0))
     else if o0 < 256 * n0 + 16 * n1 + n2
     then (Page4K, of_nat o0, of_nat (n0 + n1) - of_nat (256 * n0 + 16 * n1))
     else (NoPage, 0, 0))"
proof -
  have off: "unat off < 2 ^ 40" using unat_less [of off] by simp
  have o: "unat (ucast (drop_bit 20 off) :: 24 word) = unat off div 2 ^ 20"
    "unat (ucast (drop_bit 16 off) :: 24 word) = unat off div 2 ^ 16"
    "unat (ucast (drop_bit 12 off) :: 28 word) = unat off div 2 ^ 12"
    using off by (simp_all add: unat_ucast_down unat_drop_bit_div)
  have o8: "(ucast (drop_bit k off) :: u8) = of_nat (unat off div 2 ^ k)" for k
    by (simp add: word_unat_eq_iff unat_ucast_down unat_drop_bit_div unat_of_nat_mod)
  have b: "unat (ucast (of_nat n0 :: 28 word) :: 24 word) = n0"
    "unat (ucast (of_nat (16 * n0 + n1) :: 28 word) :: 24 word) = 16 * n0 + n1"
    "unat (of_nat (256 * n0 + 16 * n1 + n2) :: 28 word) = 256 * n0 + 16 * n1 + n2"
    using n by (simp_all only: unat_ucast_down unat_of_nat_mod) simp_all
  show ?thesis
    unfolding mmu_select_def Let_def word_less_nat_alt region.simps o b o8 ..
qed

definition n_pages :: "nat \<Rightarrow> sg_entry list \<Rightarrow> nat" where
  "n_pages k es = length (filter (\<lambda>e. snd e = 2 ^ k) es)"

lemma sg_partition:
  assumes "sorted_wrt (\<lambda>x y. snd y \<le> snd x) es" and "\<And>e. e \<in> set es \<Longrightarrow> entry_wf e"
  shows "es = filter (\<lambda>e. snd e = 2 ^ 20) es @ filter (\<lambda>e. snd e = 2 ^ 16) es @
    filter (\<lambda>e. snd e = 2 ^ 12) es"
  using assms
proof (induction es)
  case (Cons e es)
  have none: "filter (\<lambda>e. snd e = k) es = []" if "snd e < k" for k
    using Cons.prems(1) that by (auto simp: filter_empty_conv)
  have sz: "snd e = 2 ^ 20 \<or> snd e = 2 ^ 16 \<or> snd e = 2 ^ 12"
    using Cons.prems(2) [of e] by (simp add: entry_wf_def)
  have IH: "es = filter (\<lambda>e. snd e = 2 ^ 20) es @ filter (\<lambda>e. snd e = 2 ^ 16) es @
      filter (\<lambda>e. snd e = 2 ^ 12) es"
    using Cons by simp
  from sz show ?case
    using none [of "2 ^ 20"] none [of "2 ^ 16"] IH by auto
qed simp

lemma unat_page_frame:
  assumes "entry_wf e"
  shows "unat (page_frame e) = unat (fst e) div unat (snd e)"
proof -
  have sh: "unat (sg_shifted (fst e) (ucast (snd e))) = unat (fst e) div unat (snd e)"
    using assms by (intro sg_shifted_eq) (auto simp: entry_wf_def)
  moreover have "unat (fst e) div unat (snd e) < 2 ^ 28"
    using assms by (auto simp: entry_wf_def)
  ultimately show ?thesis
    by (simp add: page_frame_def unat_ucast_down)
qed

lemma frame_and_offset:
  assumes "unat (w :: 40 word) = a div 2 ^ s" and "a mod 2 ^ s = 0"
  shows "push_bit s w OR take_bit s off = of_nat (a + unat off mod 2 ^ s)"
proof -
  have lo: "unat (take_bit s off) = unat off mod 2 ^ s"
    by (simp only: unsigned_take_bit_eq) (simp add: take_bit_eq_mod)
  then have sum: "push_bit s w OR take_bit s off = push_bit s w + take_bit s off"
    by (intro push_bit_or_add) simp
  have "2 ^ s * unat w = a" using assms by auto
  then have hi: "push_bit s w = of_nat a"
    by (simp add: push_bit_eq_mult mult.commute flip: \<open>2 ^ s * unat w = a\<close>)
  have "take_bit s off = of_nat (unat off mod 2 ^ s)"
    by (rule word_eq_of_unat) (rule lo)
  with sum hi show ?thesis by (simp only: of_nat_add)
qed

text \<open>The response of the unit for a page size and the frame of a well-formed entry of that size.\<close>

lemma translated_address:
  assumes "entry_wf e"
  shows "snd e = 2 ^ 20 \<Longrightarrow> push_bit 20 (ucast (ucast (page_frame e) :: 20 word)) OR take_bit 20 off
      = (of_nat (unat (fst e) + unat off mod 2 ^ 20) :: 40 word)"
    and "snd e = 2 ^ 16 \<Longrightarrow> push_bit 16 (ucast (ucast (page_frame e) :: 24 word)) OR take_bit 16 off
      = (of_nat (unat (fst e) + unat off mod 2 ^ 16) :: 40 word)"
    and "snd e = 2 ^ 12 \<Longrightarrow> push_bit 12 (ucast (page_frame e)) OR take_bit 12 off
      = (of_nat (unat (fst e) + unat off mod 2 ^ 12) :: 40 word)"
proof -
  have f: "unat (page_frame e) = unat (fst e) div unat (snd e)"
    and a: "unat (fst e) < 2 ^ 40" "unat (fst e) mod unat (snd e) = 0"
    using assms unat_page_frame by (auto simp: entry_wf_def)
  show "push_bit 20 (ucast (ucast (page_frame e) :: 20 word)) OR take_bit 20 off
      = (of_nat (unat (fst e) + unat off mod 2 ^ 20) :: 40 word)" if "snd e = 2 ^ 20"
    using f a that by (intro frame_and_offset) (simp_all add: unat_ucast_down)
  show "push_bit 16 (ucast (ucast (page_frame e) :: 24 word)) OR take_bit 16 off
      = (of_nat (unat (fst e) + unat off mod 2 ^ 16) :: 40 word)" if "snd e = 2 ^ 16"
    using f a that by (intro frame_and_offset) (simp_all add: unat_ucast_down)
  show "push_bit 12 (ucast (page_frame e)) OR take_bit 12 off
      = (of_nat (unat (fst e) + unat off mod 2 ^ 12) :: 40 word)" if "snd e = 2 ^ 12"
    using f a that by (intro frame_and_offset) (simp_all add: unat_ucast_down)
qed

lemma shifted_div:
  assumes "k * L \<le> (off :: nat)" and "0 < L"
  shows "(off - k * L) div L = off div L - k" and "(off - k * L) mod L = off mod L"
proof -
  from assms(1) obtain r where "off = k * L + r" by (auto simp: le_iff_add)
  then show "(off - k * L) div L = off div L - k" and "(off - k * L) mod L = off mod L"
    using assms(2) by (simp_all add: div_add1_eq)
qed

lemma sg_lookup_tier:
  assumes y: "\<And>e. e \<in> set ys \<Longrightarrow> unat (snd e) = L" and "0 < L"
    and x: "sg_total xs = k * L" "k * L \<le> off"
  shows "sg_lookup (xs @ ys @ zs) off =
    (if off div L < k + length ys
     then Some (unat (fst ((xs @ ys @ zs) ! (off div L - k + length xs))) + off mod L)
     else sg_lookup zs (off - k * L - length ys * L))"
proof -
  have k: "k \<le> off div L" using x(2) assms(2) by (simp add: less_eq_div_iff_mult_less_eq)
  have lt: "off div L - k < length ys \<longleftrightarrow> off div L < k + length ys" using k by linarith
  have "off div L < k + length ys \<longleftrightarrow> off < (k + length ys) * L"
    using assms(2) by (simp add: div_less_iff_less_mult)
  then have lt': "off - k * L < length ys * L \<longleftrightarrow> off div L < k + length ys"
    using x(2) by (simp add: algebra_simps less_diff_conv2)
  have "sg_lookup (xs @ ys @ zs) off = (if off div L < k + length ys
      then sg_lookup ys (off - k * L) else sg_lookup zs (off - k * L - length ys * L))"
    using x(2) lt' by (simp add: sg_lookup_append x(1) sg_total_uniform [OF y])
  moreover have "sg_lookup ys (off - k * L) =
      (if off div L < k + length ys then Some (unat (fst (ys ! (off div L - k))) + off mod L) else None)"
    using sg_lookup_uniform [OF y assms(2), of ys "off - k * L"] shifted_div [OF x(2) assms(2)] lt
    by simp
  ultimately show ?thesis
    using lt by (auto simp: nth_append)
qed

lemma sg_lookup_three:
  assumes x: "\<forall>e\<in>set xs. unat (snd e) = 2 ^ 20"
    and y: "\<forall>e\<in>set ys. unat (snd e) = 2 ^ 16"
    and z: "\<forall>e\<in>set zs. unat (snd e) = 2 ^ 12"
  defines "n0 \<equiv> length xs" and "n1 \<equiv> length ys" and "n2 \<equiv> length zs" and "es \<equiv> xs @ ys @ zs"
  shows "sg_lookup es off =
    (let o8 = off div 2 ^ 20; o4 = off div 2 ^ 16; o0 = off div 2 ^ 12 in
     if o8 < n0 then Some (unat (fst (es ! o8)) + off mod 2 ^ 20)
     else if o4 < 16 * n0 + n1 then Some (unat (fst (es ! (o4 - 16 * n0 + n0))) + off mod 2 ^ 16)
     else if o0 < 256 * n0 + 16 * n1 + n2
     then Some (unat (fst (es ! (o0 - (256 * n0 + 16 * n1) + (n0 + n1)))) + off mod 2 ^ 12)
     else None)"
proof (cases "off div 2 ^ 20 < n0")
  case True
  then show ?thesis
    using sg_lookup_tier [of xs "2 ^ 20" "[]" 0 off "ys @ zs"] x
    by (simp add: sg_total_def n0_def es_def)
next
  case F8: False
  then have o8: "16 * n0 * 2 ^ 16 \<le> off" by (simp add: div_less_iff_less_mult)
  have tx: "sg_total xs = 16 * n0 * 2 ^ 16" using sg_total_uniform [of xs "2 ^ 20"] x by (simp add: n0_def)
  note t4 = sg_lookup_tier [OF bspec [OF y] _ tx o8, of ys zs]
  show ?thesis
  proof (cases "off div 2 ^ 16 < 16 * n0 + n1")
    case True
    with F8 t4 show ?thesis
      by (simp add: n0_def n1_def es_def Let_def)
  next
    case F4: False
    then have o4: "(256 * n0 + 16 * n1) * 2 ^ 12 \<le> off" by (simp add: div_less_iff_less_mult)
    have "sg_total (xs @ ys) = (256 * n0 + 16 * n1) * 2 ^ 12"
      using tx sg_total_uniform [of ys "2 ^ 16"] y by (simp add: sg_total_def n1_def)
    note t0 = sg_lookup_tier [OF bspec [OF z] _ this o4, of zs "[]"]
    with F8 F4 show ?thesis
      by (simp add: n0_def n1_def n2_def es_def Let_def)
  qed
qed

section \<open>The programmed unit translates the buffer\<close>

text \<open>What the unit holds for an object after a list was sent: frames and descriptors.\<close>

definition mmu_holds :: "sglist_mmu \<Rightarrow> 5 word \<Rightarrow> sg_entry list \<Rightarrow> bool" where
  "mmu_holds mmu p es \<longleftrightarrow>
     (let n0 = n_pages 20 es; n1 = n_pages 16 es; n2 = n_pages 12 es in
      reg8 mmu p = \<lparr>barrier = of_nat n0, idxOffset = 0\<rparr> \<and>
      reg4 mmu p = \<lparr>barrier = of_nat (16 * n0 + n1), idxOffset = of_nat n0 - of_nat (16 * n0)\<rparr> \<and>
      reg0 mmu p = \<lparr>barrier = of_nat (256 * n0 + 16 * n1 + n2),
        idxOffset = of_nat (n0 + n1) - of_nat (256 * n0 + 16 * n1)\<rparr> \<and>
      (\<forall>k<length es. pages mmu (page_addr p (of_nat k)) = page_frame (es ! k)))"

lemma n_pages_partition:
  assumes "sg_wf es"
  obtains xs ys zs where "es = xs @ ys @ zs"
    "n_pages 20 es = length xs" "n_pages 16 es = length ys" "n_pages 12 es = length zs"
    "\<And>e. e \<in> set xs \<Longrightarrow> snd e = 2 ^ 20" "\<And>e. e \<in> set ys \<Longrightarrow> snd e = 2 ^ 16"
    "\<And>e. e \<in> set zs \<Longrightarrow> snd e = 2 ^ 12"
proof -
  have "sorted_wrt (\<lambda>x y. snd y \<le> snd x) es" using assms by (simp add: sg_wf_def)
  from sg_partition [OF this sg_wf_entry [OF assms]] show thesis
    by (rule that) (simp_all add: n_pages_def)
qed

lemma tier_index:
  assumes "b \<le> o'" shows "(of_nat o' :: u8) + (of_nat c - of_nat b) = of_nat (o' - b + c)"
  using assms by (simp add: of_nat_diff)

text \<open>Translation with the descriptors of \<^verbatim>\<open>n0\<close>, \<^verbatim>\<open>n1\<close> and \<^verbatim>\<open>n2\<close> pages, in terms of list positions.\<close>

lemma mmu_translate_tiers:
  fixes off :: "40 word" and n0 n1 n2 :: nat
  assumes n: "n0 + n1 + n2 \<le> 255"
    and r: "reg8 mmu p = \<lparr>barrier = of_nat n0, idxOffset = 0\<rparr>"
      "reg4 mmu p = \<lparr>barrier = of_nat (16 * n0 + n1), idxOffset = of_nat n0 - of_nat (16 * n0)\<rparr>"
      "reg0 mmu p = \<lparr>barrier = of_nat (256 * n0 + 16 * n1 + n2),
        idxOffset = of_nat (n0 + n1) - of_nat (256 * n0 + 16 * n1)\<rparr>"
  defines "o8 \<equiv> unat off div 2 ^ 20" and "o4 \<equiv> unat off div 2 ^ 16" and "o0 \<equiv> unat off div 2 ^ 12"
    and "pg \<equiv> \<lambda>k. pages mmu (page_addr p (of_nat k))"
  shows "mmu_translate mmu p off =
    (if o8 < n0 then Some (push_bit 20 (ucast (ucast (pg o8) :: 20 word)) OR take_bit 20 off)
     else if o4 < 16 * n0 + n1
     then Some (push_bit 16 (ucast (ucast (pg (o4 - 16 * n0 + n0)) :: 24 word)) OR take_bit 16 off)
     else if o0 < 256 * n0 + 16 * n1 + n2
     then Some (push_bit 12 (ucast (pg (o0 - (256 * n0 + 16 * n1) + (n0 + n1)))) OR take_bit 12 off)
     else None)"
proof -
  have "\<not> o8 < n0 \<longrightarrow> 16 * n0 \<le> o4" "\<not> o4 < 16 * n0 + n1 \<longrightarrow> 256 * n0 + 16 * n1 \<le> o0"
    by (simp_all add: o8_def o4_def o0_def div_less_iff_less_mult less_eq_div_iff_mult_less_eq)
  moreover have sel: "mmu_select (reg8 mmu p) (reg4 mmu p) (reg0 mmu p) off =
      (if o8 < n0 then (Page1M, of_nat o8, 0)
       else if o4 < 16 * n0 + n1 then (Page64K, of_nat o4, of_nat n0 - of_nat (16 * n0))
       else if o0 < 256 * n0 + 16 * n1 + n2
       then (Page4K, of_nat o0, of_nat (n0 + n1) - of_nat (256 * n0 + 16 * n1))
       else (NoPage, 0, 0))"
    using mmu_select_eq [OF n, of off] unfolding r o8_def o4_def o0_def Let_def .
  ultimately show ?thesis
    unfolding mmu_translate_def sel pg_def
    by (auto simp: Let_def tier_index simp del: of_nat_add of_nat_mult)
qed

lemma mmu_holds_translates:
  assumes wf: "sg_wf es" and h: "mmu_holds mmu p es"
  shows "mmu_translate mmu p off = map_option of_nat (sg_lookup es (unat off))"
proof -
  obtain xs ys zs where es: "es = xs @ ys @ zs"
    and n: "n_pages 20 es = length xs" "n_pages 16 es = length ys" "n_pages 12 es = length zs"
    and sz: "\<And>e. e \<in> set xs \<Longrightarrow> snd e = 2 ^ 20" "\<And>e. e \<in> set ys \<Longrightarrow> snd e = 2 ^ 16"
      "\<And>e. e \<in> set zs \<Longrightarrow> snd e = 2 ^ 12"
    using n_pages_partition [OF wf] by metis
  define n0 n1 n2 where nn: "n0 = length xs" "n1 = length ys" "n2 = length zs"
  define o8 o4 o0 where oo: "o8 = unat off div 2 ^ 20" "o4 = unat off div 2 ^ 16" "o0 = unat off div 2 ^ 12"
  have len: "n0 + n1 + n2 \<le> 255" "length es = n0 + n1 + n2"
    using wf by (simp_all add: sg_wf_def es nn)
  have szn: "\<forall>e\<in>set xs. unat (snd e) = 2 ^ 20" "\<forall>e\<in>set ys. unat (snd e) = 2 ^ 16"
    "\<forall>e\<in>set zs. unat (snd e) = 2 ^ 12"
    by (simp_all add: sz)
  note look = sg_lookup_three [OF szn, of "unat off", folded es nn oo, unfolded Let_def]
  note r = h [unfolded mmu_holds_def Let_def n, folded nn]
  note tr = mmu_translate_tiers [OF len(1) r [THEN conjunct1] r [THEN conjunct2, THEN conjunct1]
      r [THEN conjunct2, THEN conjunct2, THEN conjunct1], of off, folded oo]
  have pg: "pages mmu (page_addr p (of_nat k)) = page_frame (es ! k)" "entry_wf (es ! k)" if "k < length es" for k
    using h that sg_wf_entry [OF wf, of "es ! k"] by (simp_all add: mmu_holds_def Let_def)
  have o4: "o8 < n0 \<longleftrightarrow> o4 < 16 * n0" "o4 < 16 * n0 + n1 \<longleftrightarrow> o0 < 256 * n0 + 16 * n1"
    by (simp_all add: oo div_less_iff_less_mult mult.commute)
  have at: "snd (es ! k) = (if k < n0 then 2 ^ 20 else if k < n0 + n1 then 2 ^ 16 else 2 ^ 12)"
    if "k < length es" for k
    using that sz nth_mem [of k xs] nth_mem [of "k - n0" ys] nth_mem [of "k - n0 - n1" zs] len(2)
    by (auto simp: es nn nth_append)
  have addr: "push_bit 20 (ucast (ucast (page_frame (es ! k)) :: 20 word)) OR take_bit 20 off
      = of_nat (unat (fst (es ! k)) + unat off mod 2 ^ 20)" if "k < n0" for k
    using translated_address(1) [OF pg(2)] at that len(2) by simp
  have addr4: "push_bit 16 (ucast (ucast (page_frame (es ! k)) :: 24 word)) OR take_bit 16 off
      = of_nat (unat (fst (es ! k)) + unat off mod 2 ^ 16)" if "n0 \<le> k" "k < n0 + n1" for k
    using translated_address(2) [OF pg(2)] at that len(2) by simp
  have addr0: "push_bit 12 (ucast (page_frame (es ! k))) OR take_bit 12 off
      = of_nat (unat (fst (es ! k)) + unat off mod 2 ^ 12)" if "n0 + n1 \<le> k" "k < length es" for k
    using translated_address(3) [OF pg(2)] at that len(2) by simp
  have i: "o8 < n0 \<Longrightarrow> o8 < length es"
    "\<not> o8 < n0 \<Longrightarrow> o4 < 16 * n0 + n1 \<Longrightarrow> o4 - 16 * n0 + n0 < n0 + n1"
    "\<not> o4 < 16 * n0 + n1 \<Longrightarrow> o0 < 256 * n0 + 16 * n1 + n2 \<Longrightarrow>
      o0 - (256 * n0 + 16 * n1) + (n0 + n1) < length es"
    using o4 len by linarith+
  show ?thesis
    unfolding tr look using i o4 len(2)
    by (auto simp: pg addr addr4 addr0 simp del: of_nat_add of_nat_diff)
qed

text \<open>The effect of one whole transfer on the unit.\<close>

definition programmed :: "u32 \<Rightarrow> sg_entry list \<Rightarrow> sglist_mmu \<Rightarrow> sglist_mmu" where
  "programmed oid es mmu =
     (let bv = border_loop (count_regions es [0, 0, 0]) in
      cfg_region oid (bv ! 0) (bv ! 1) (bv ! 2)
        (cfg_sglist (sg_pointer oid (length es)) 0 0 (load_pages oid 0 es mmu)))"

lemma n_pages_le: "n_pages 20 es + n_pages 16 es + n_pages 12 es \<le> length es"
  by (induction es) (auto simp: n_pages_def)

lemma programmed_regs:
  assumes "length es \<le> 255"
  defines "n0 \<equiv> n_pages 20 es" and "n1 \<equiv> n_pages 16 es" and "n2 \<equiv> n_pages 12 es"
  shows "reg8 (programmed oid es mmu) = (reg8 mmu)(ucast oid := \<lparr>barrier = of_nat n0, idxOffset = 0\<rparr>)"
    and "reg4 (programmed oid es mmu) = (reg4 mmu)(ucast oid :=
      \<lparr>barrier = of_nat (16 * n0 + n1), idxOffset = of_nat n0 - of_nat (16 * n0)\<rparr>)"
    and "reg0 (programmed oid es mmu) = (reg0 mmu)(ucast oid :=
      \<lparr>barrier = of_nat (256 * n0 + 16 * n1 + n2),
       idxOffset = of_nat (n0 + n1) - of_nat (256 * n0 + 16 * n1)\<rparr>)"
proof -
  have "n0 + n1 + n2 < 2 ^ 24"
    using n_pages_le [of es] assms(1) by (simp add: n0_def n1_def n2_def)
  note B = border_loop_eq [OF this]
  have C: "count_regions es [0, 0, 0] = [of_nat n0, of_nat n1, of_nat n2]"
    unfolding region_of_count n0_def n1_def n2_def n_pages_def by simp
  have dn: "(ucast (of_nat k :: u64) :: 28 word) = of_nat k" for k
    by (simp add: ucast_of_nat_down)
  show "reg8 (programmed oid es mmu) = (reg8 mmu)(ucast oid := \<lparr>barrier = of_nat n0, idxOffset = 0\<rparr>)"
    and "reg4 (programmed oid es mmu) = (reg4 mmu)(ucast oid :=
      \<lparr>barrier = of_nat (16 * n0 + n1), idxOffset = of_nat n0 - of_nat (16 * n0)\<rparr>)"
    and "reg0 (programmed oid es mmu) = (reg0 mmu)(ucast oid :=
      \<lparr>barrier = of_nat (256 * n0 + 16 * n1 + n2),
       idxOffset = of_nat (n0 + n1) - of_nat (256 * n0 + 16 * n1)\<rparr>)"
    unfolding programmed_def Let_def C B cfg_region_def mmu_region_def
    by (simp_all add: unpack_region_fields unpack_region_fields [of _ 0, simplified] dn
        del: of_nat_add of_nat_mult)
qed

lemma programmed_pages:
  assumes "oid < 32" and "length es \<le> 255" and "n < 2 ^ 13"
  shows "pages (programmed oid es mmu) (of_nat n) =
    (if 256 * unat oid \<le> n \<and> n < 256 * unat oid + length es then page_frame (es ! (n - 256 * unat oid))
     else if n = 256 * unat oid + length es then 0 else pages mmu (of_nat n))"
proof -
  have oid: "unat oid < 32" using assms(1) by (simp add: word_less_nat_alt)
  have "(of_nat n :: 13 word) = of_nat (256 * unat oid + length es) \<longleftrightarrow> n = 256 * unat oid + length es"
    by (rule of_nat_word_eq_iff_less) (use oid assms(2,3) in simp_all)
  moreover have "pages (load_pages oid 0 es mmu) (of_nat n) =
      (if 256 * unat oid \<le> n \<and> n < 256 * unat oid + length es
       then page_frame (es ! (n - 256 * unat oid)) else pages mmu (of_nat n))"
    using load_pages_at [of oid 0 es n mmu] oid assms(2,3) by simp
  moreover have "pages (programmed oid es mmu) = (pages (load_pages oid 0 es mmu))
      (of_nat (256 * unat oid + length es) := 0)"
    unfolding programmed_def Let_def cfg_region_def mmu_region_def
    by (simp add: cfg_sglist_pages sg_pointer_index del: of_nat_add of_nat_mult)
  ultimately show ?thesis by auto
qed

lemma object_index:
  assumes "oid < (32 :: u32)" and "k < 256"
  shows "page_addr (ucast oid) (of_nat k) = of_nat (256 * unat oid + k)"
proof -
  have "unat (ucast oid :: 5 word) = unat oid"
    using assms(1) by (simp add: unat_ucast_down word_less_nat_alt)
  then show ?thesis
    using assms(2) by (simp add: page_addr_eq unat_of_nat_less del: of_nat_add of_nat_mult)
qed

lemma programmed_holds:
  assumes oid: "oid < 32" and len: "length es \<le> 255"
  shows "mmu_holds (programmed oid es mmu) (ucast oid) es"
proof -
  have "pages (programmed oid es mmu) (page_addr (ucast oid) (of_nat k)) = page_frame (es ! k)"
    if "k < length es" for k
  proof -
    have "256 * unat oid + k < 2 ^ 13" using that len oid by (simp add: word_less_nat_alt)
    then show ?thesis
      using programmed_pages [OF oid len] object_index [OF oid, of k] that len
      by (simp del: of_nat_add of_nat_mult)
  qed
  then show ?thesis
    unfolding mmu_holds_def Let_def by (simp add: programmed_regs [OF len] del: of_nat_add of_nat_mult)
qed

text \<open>Other objects are untouched: their descriptors and their 256 frames stay as they were.\<close>

lemma programmed_frame:
  assumes oid: "oid < 32" and len: "length es \<le> 255" and q: "q \<noteq> ucast oid"
  shows "mmu_translate (programmed oid es mmu) q off = mmu_translate mmu q off"
proof -
  have "pages (programmed oid es mmu) (page_addr q b) = pages mmu (page_addr q b)" for b
  proof -
    have ne: "unat q \<noteq> unat oid"
      using q oid by (auto simp: word_unat_eq_iff unat_ucast_down word_less_nat_alt)
    let ?n = "256 * unat q + unat b"
    have "?n < 2 ^ 13" using unat_less [of q] unat_u8_less [of b] by simp
    moreover have "\<not> (256 * unat oid \<le> ?n \<and> ?n \<le> 256 * unat oid + 255)"
      using ne unat_u8_less [of b] by auto
    ultimately show ?thesis
      using programmed_pages [OF oid len, of ?n mmu] len
      unfolding page_addr_eq by (auto simp del: of_nat_add of_nat_mult)
  qed
  then show ?thesis
    using q by (simp add: mmu_translate_def programmed_regs [OF len])
qed

section \<open>Properties of send_fd_to_portal\<close>

definition mmu_zero :: sglist_mmu where
  "mmu_zero = \<lparr>reg8 = \<lambda>_. \<lparr>barrier = 0, idxOffset = 0\<rparr>, reg4 = \<lambda>_. \<lparr>barrier = 0, idxOffset = 0\<rparr>,
     reg0 = \<lambda>_. \<lparr>barrier = 0, idxOffset = 0\<rparr>, pages = \<lambda>_. 0\<rparr>"

definition sample_list :: "sg_entry list" where
  "sample_list = [(0x7300000, 2 ^ 20), (0x100000, 2 ^ 20), (0x30000, 2 ^ 16), (0x5000, 2 ^ 12)]"

lemma sample_list_wf: "sg_wf sample_list"
  by (simp add: sample_list_def sg_wf_def)

lemma kernel_result:
  fixes oid :: u32 and es :: "sg_entry list"
  assumes "hw_ok d"
  defines "r \<equiv> send_fd_to_portal_kernel dma_mmio es oid d"
  shows "fst r = sint oid" and "hw_ok (snd r)"
    and "hw_mmu_settled (snd r) = programmed oid es (hw_mmu_settled d)"
    and "hw_confs_settled (snd r) = hw_confs_settled d @ [ucast oid]"
  using hw_port.send_fd_result [OF assms(1), of oid es]
  by (simp_all add: r_def send_fd_to_portal_kernel_def programmed_def Let_def)

text \<open>
  C1.  After \<^verbatim>\<open>send_fd_to_portal\<close> (kernel build) on any portal whose rules make progress, the
  translation unit maps every 40-bit offset of the object to the physical byte the
  scatter-gather list assigns to it, reports a bad translation for every offset past the end of
  the buffer, and has queued exactly one configuration response for the object.
\<close>

theorem send_fd_translates:
  assumes "hw_ok d" and "sg_wf es" and "oid < 32"
  shows "let r = send_fd_to_portal_kernel dma_mmio es oid d in
    fst r = sint oid \<and> hw_ok (snd r) \<and>
    mmu_translate (hw_mmu_settled (snd r)) (ucast oid) off = map_option of_nat (sg_lookup es (unat off)) \<and>
    hw_confs_settled (snd r) = hw_confs_settled d @ [ucast oid]"
proof -
  have "length es \<le> 255" using assms(2) by (simp add: sg_wf_def)
  from mmu_holds_translates [OF assms(2) programmed_holds [OF assms(3) this]]
  show ?thesis using kernel_result [OF assms(1)] by (simp add: Let_def)
qed

theorem send_fd_translates_witness:
  "mmu_translate (hw_mmu_settled (snd (send_fd_to_portal_kernel dma_mmio sample_list 3 (hw_reset mmu_zero))))
     3 0x210123 = Some 0x5123"
  using send_fd_translates [OF hw_ok_reset [of mmu_zero] sample_list_wf, where oid = 3 and off = "0x210123"]
  by (simp add: Let_def sample_list_def)

text \<open>
  C2.  \<^verbatim>\<open>send_fd_to_portal\<close> leaves the translation of every other object id as it was, for every
  list of at most 255 entries, well-formed or not.
\<close>

theorem send_fd_frame:
  assumes "hw_ok d" and "length es \<le> 255" and "oid < 32" and "q \<noteq> ucast oid"
  shows "mmu_translate (hw_mmu_settled (snd (send_fd_to_portal_kernel dma_mmio es oid d))) q off
    = mmu_translate (hw_mmu_settled d) q off"
  using kernel_result(3) [OF assms(1)] programmed_frame [OF assms(3,2,4)] by simp

theorem send_fd_frame_witness:
  "mmu_translate (hw_mmu_settled (snd (send_fd_to_portal_kernel dma_mmio sample_list 3 (hw_reset mmu_zero)))) 4 0
    = None"
  using send_fd_frame [OF hw_ok_reset, of sample_list 3 4 mmu_zero 0]
  by (simp add: sample_list_def mmu_translate_def mmu_select_def mmu_zero_def)

text \<open>
  The bound of 255 entries is not checked by the code and is needed: sending a list of 256
  entries as object \<^verbatim>\<open>oid\<close> overwrites the first page frame of object \<^verbatim>\<open>oid + 1\<close> with the end-of-list
  zero, whatever that object was mapped to.
\<close>

theorem send_fd_collision:
  assumes "hw_ok d" and "length es = 256" and "oid < 31"
  shows "pages (hw_mmu_settled (snd (send_fd_to_portal_kernel dma_mmio es oid d)))
    (page_addr (ucast (oid + 1)) 0) = 0"
proof -
  have "unat oid < 31" using assms(3) by (simp add: word_less_nat_alt)
  then have "unat (oid + 1) = unat oid + 1" by (simp add: unat_word_ariths)
  moreover from this have "oid + 1 < 32" using \<open>unat oid < 31\<close> by (simp add: word_less_nat_alt)
  ultimately have a: "page_addr (ucast (oid + 1)) 0 = of_nat (256 * unat oid + 256)"
    using object_index [of "oid + 1" 0] by (simp add: algebra_simps)
  have "pages (programmed oid es mmu) (of_nat (256 * unat oid + 256)) = 0" for mmu
    using assms(2) unfolding programmed_def Let_def cfg_region_def mmu_region_def
    by (simp add: cfg_sglist_pages sg_pointer_index [of oid 256, simplified])
  then show ?thesis using kernel_result(3) [OF assms(1)] a by simp
qed

theorem send_fd_collision_witness:
  "pages (hw_mmu_settled (snd (send_fd_to_portal_kernel dma_mmio (replicate 256 (0x5000, 0x1000)) 3
     (hw_reset (mmu_zero\<lparr>pages := \<lambda>_. 7\<rparr>))))) (page_addr 4 0) = 0"
  using send_fd_collision [OF hw_ok_reset, of "replicate 256 (0x5000, 0x1000)" 3] by simp

section \<open>The other builds\<close>



text \<open>The list the simulator build makes up: offsets within the buffer, tagged with the object id.\<close>

fun bsim_entries :: "u32 \<Rightarrow> nat \<Rightarrow> u32 list \<Rightarrow> sg_entry list" where
  "bsim_entries oid acc [] = []"
| "bsim_entries oid acc (l # ls) =
     (of_nat (acc + 2 ^ 32 * unat oid), l) # bsim_entries oid (acc + unat l) ls"

lemma bsim_address:
  fixes oid :: u32
  assumes "acc < 2 ^ 31" and "oid < 2 ^ 31"
  shows "(scast (of_nat acc :: u32) OR push_bit 32 (scast oid) :: u64) = of_nat (acc + 2 ^ 32 * unat oid)"
proof -
  have up: "(scast w :: u64) = ucast w" if "unat w < 2 ^ 31" for w :: u32
  proof -
    have "\<not> bit w n" if "31 \<le> n" for n
      using take_bit_word_id [OF \<open>unat w < 2 ^ 31\<close>] bit_take_bit_iff [of 31 w n] that by simp
    then show ?thesis
      by (intro bit_word_eqI) (auto simp: bit_simps min_def)
  qed
  have a: "(scast (of_nat acc :: u32) :: u64) = of_nat acc"
    using assms(1) up [of "of_nat acc"] by (simp add: unat_of_nat_less ucast_of_nat_up)
  have o: "(push_bit 32 (scast oid) :: u64) = of_nat (2 ^ 32 * unat oid)"
    using assms(2) up [of oid] by (simp add: word_less_nat_alt push_bit_eq_mult mult.commute)
  have "(of_nat acc OR push_bit 32 (scast oid) :: u64) = push_bit 32 (scast oid) OR of_nat acc"
    by (simp add: or.commute)
  also have "\<dots> = push_bit 32 (scast oid) + of_nat acc"
    using assms(1) by (intro push_bit_or_add) (simp add: unat_of_nat_mod)
  finally show ?thesis unfolding a o by simp
qed

lemma bsim_loop_result:
  assumes "\<And>k. k < length ls \<Longrightarrow> elem (i + k) = int (unat (ls ! k)) \<and> ls ! k \<noteq> 0"
    and "elem (i + length ls) = 0" and "acc + sum_list (map unat ls) < 2 ^ 31" and "oid < 2 ^ 31"
  shows "bsim_loop elem m oid i (of_nat acc) st =
    Some (0, sg_loop m oid i (bsim_entries oid acc ls) st)"
  using assms(1-3)
proof (induction ls arbitrary: i acc st)
  case Nil
  then show ?case by (subst bsim_loop.simps) simp
next
  case (Cons l ls)
  have l: "elem i = int (unat l)" "l \<noteq> 0" using Cons.prems(1) [of 0] by simp_all
  have IH: "bsim_loop elem m oid (Suc i) (of_nat (acc + unat l)) st' =
      Some (0, sg_loop m oid (Suc i) (bsim_entries oid (acc + unat l) ls) st')" for st'
  proof (rule Cons.IH)
    show "elem (Suc i + k) = int (unat (ls ! k)) \<and> ls ! k \<noteq> 0" if "k < length ls" for k
      using Cons.prems(1) [of "Suc k"] that by simp
  qed (use Cons.prems in simp_all)
  have a: "(scast (of_nat acc :: u32) OR push_bit 32 (scast oid) :: u64) = of_nat (acc + 2 ^ 32 * unat oid)"
    using Cons.prems(3) by (intro bsim_address assms(4)) simp
  have "uint l \<noteq> 0" using l(2) by (simp add: uint_0_iff)
  then show ?case
    using l IH unfolding bsim_loop.simps [of elem m oid i "of_nat acc"] Let_def a by simp
qed

text \<open>
  C5.  The simulator build returns for every buffer whose element sizes are reported by
  PA_ELEMENT_SIZE followed by a zero, with a total below 2 GB: it programs the unit with the
  offsets within the buffer tagged with the object id.
\<close>

theorem send_fd_bsim_returns:
  assumes "\<forall>k<length ls. pa_elem fd k = int (unat (ls ! k)) \<and> ls ! k \<noteq> 0"
    and "pa_elem fd (length ls) = 0" and "sum_list (map unat ls) < 2 ^ 31" and "oid < 2 ^ 31"
  shows "send_fd_to_portal_bsim sock_write pa_elem m fd oid d =
    Some (send_fd_to_portal_kernel m (bsim_entries oid 0 ls) oid (sock_write fd d))"
  using bsim_loop_result [of ls "pa_elem fd" 0 0 oid m] assms
  by (simp add: send_fd_to_portal_bsim_def send_fd_to_portal_kernel_def)

theorem send_fd_bsim_returns_witness:
  "send_fd_to_portal_bsim (\<lambda>fd d. d) (\<lambda>fd k. if k = 0 then 0x10000 else if k = 1 then 0x1000 else 0)
     dma_mmio 9 3 (hw_reset mmu_zero) =
   Some (send_fd_to_portal_kernel dma_mmio [(0x300000000, 0x10000), (0x300010000, 0x1000)] 3
     (hw_reset mmu_zero))"
  using send_fd_bsim_returns [of "[0x10000, 0x1000]"
      "\<lambda>fd k. if k = 0 then 0x10000 else if k = 1 then 0x1000 else 0" 9 3 "\<lambda>fd d. d" dma_mmio
      "hw_reset mmu_zero"]
  by (simp add: All_less_Suc)

end
