(* ===== verification/Dma_Manager.thy ===== *)
theory Dma_Manager
  imports Dma_Send_Fd
begin

text \<open>
  \<^verbatim>\<open>cpp/dmaManager.c\<close> and \<^verbatim>\<open>cpp/dmaManager.h\<close> with the indication handlers of
  \<^verbatim>\<open>cpp/StdDmaIndication.h\<close>: the manager hands out object ids, has the buffer's list sent to the
  device and waits on a semaphore that the indication thread posts when the device answers.

  A call of \<^verbatim>\<open>DmaManager_reference\<close> is cut where it blocks, and the caller, the device's responses
  and the indication thread interleave in the step relation \<^verbatim>\<open>ref_step\<close>.  How the list reaches the
  device is an interface, the locale \<^verbatim>\<open>dma_sender\<close>; the PCIe driver's ioctl provides it.
\<close>

section \<open>The manager\<close>

record dma_manager =
  confSem :: nat
  mtSem :: nat
  dbgSem :: nat
  mtCnt :: u64
  mgr_pa_fd :: int
  handle :: u32

text \<open>
  \<^verbatim>\<open>global_pa_fd\<close> is opened on first use; a failure to open it or to initialise a semaphore is only
  printed.  The result is the manager and the global descriptor.
\<close>

definition DmaManager_init :: "bool \<Rightarrow> int \<Rightarrow> int \<Rightarrow> dma_manager \<times> int" where
  "DmaManager_init in_kernel open_result global_pa_fd =
     (\<lparr>confSem = 0, mtSem = 0, dbgSem = 0, mtCnt = 0, mgr_pa_fd = 0, handle = 0\<rparr>,
      if \<not> in_kernel \<and> global_pa_fd = - 1 then open_result else global_pa_fd)"

section \<open>Indications\<close>

definition confResp :: "dma_manager \<Rightarrow> dma_manager" where
  "confResp p = p\<lparr>confSem := confSem p + 1\<rparr>"

definition mtResp :: "u64 \<Rightarrow> dma_manager \<Rightarrow> dma_manager" where
  "mtResp words p = p\<lparr>mtCnt := words, mtSem := mtSem p + 1\<rparr>"

definition dbgResp :: "dma_manager \<Rightarrow> dma_manager" where
  "dbgResp p = p\<lparr>dbgSem := dbgSem p + 1\<rparr>"

datatype dma_indication =
    ConfigResp u32
  | AddrResponse u64
  | ReportStateDbg "u32 \<times> u32 \<times> u32 \<times> u32"
  | ReportMemoryTraffic u64
  | DmaError u32 u32 u64 u64

text \<open>The handlers of DmaIndication; None is \<^verbatim>\<open>exit(-1)\<close>.  \<^verbatim>\<open>error_limit\<close> starts at 20.\<close>

fun dma_indicate :: "dma_indication \<Rightarrow> int \<times> dma_manager \<Rightarrow> (int \<times> dma_manager) option" where
  "dma_indicate (ConfigResp pointer) (limit, p) = Some (limit, confResp p)"
| "dma_indicate (AddrResponse a) (limit, p) = Some (limit, p)"
| "dma_indicate (ReportStateDbg rec) (limit, p) = Some (limit, dbgResp p)"
| "dma_indicate (ReportMemoryTraffic words) (limit, p) = Some (limit, mtResp words p)"
| "dma_indicate (DmaError code ptr off extra) (limit, p) =
     (if limit - 1 < 0 then None else Some (limit - 1, p))"

section \<open>References\<close>

datatype caller = Idle | Waiting int | Done int

type_synonym 'd sender = "int \<Rightarrow> u32 \<Rightarrow> 'd \<Rightarrow> (int \<times> 'd) kresult"

text \<open>
  The two builds of \<^verbatim>\<open>DmaManager_reference\<close> up to the \<^verbatim>\<open>sem_wait\<close>: through the driver's ioctl, and by
  calling \<^verbatim>\<open>send_fd_to_portal\<close> (the simulator and the kernel build).
\<close>

definition reference_ioctl ::
    "'d sender \<Rightarrow> int \<Rightarrow> dma_manager \<times> 'd \<Rightarrow> (caller \<times> dma_manager \<times> 'd) kresult" where
  "reference_ioctl send fd st =
     (case st of (p, d) \<Rightarrow>
        let oid = handle p; p' = p\<lparr>handle := oid + 1\<rparr> in
        (case send fd oid d of
           Inl e \<Rightarrow> Inl e
         | Inr (rc, d') \<Rightarrow> Inr (if rc = 0 then Waiting (sint oid) else Done (sint oid), p', d')))"

definition reference_direct ::
    "'d sender \<Rightarrow> int \<Rightarrow> dma_manager \<times> 'd \<Rightarrow> (caller \<times> dma_manager \<times> 'd) kresult" where
  "reference_direct send fd st =
     (case st of (p, d) \<Rightarrow>
        let oid = handle p; p' = p\<lparr>handle := oid + 1\<rparr> in
        (case send fd oid d of
           Inl e \<Rightarrow> Inl e
         | Inr (rc, d') \<Rightarrow> Inr (if rc \<le> 0 then Waiting rc else Done rc, p', d')))"

text \<open>
  One thread calling \<^verbatim>\<open>reference\<close> and one delivering the device's responses.  \<^verbatim>\<open>ds_delivered\<close> counts
  the responses that reached \<^verbatim>\<open>configResp\<close>, \<^verbatim>\<open>ds_calls\<close> the calls of \<^verbatim>\<open>reference\<close>.
\<close>

record 'd dma_sys =
  ds_dev :: 'd
  ds_mgr :: dma_manager
  ds_caller :: caller
  ds_delivered :: nat
  ds_results :: "int list"
  ds_calls :: nat

inductive ref_step ::
    "(int \<Rightarrow> dma_manager \<times> 'd \<Rightarrow> (caller \<times> dma_manager \<times> 'd) kresult) \<Rightarrow> ('d \<Rightarrow> 5 word list) \<Rightarrow>
       'd dma_sys \<Rightarrow> 'd dma_sys \<Rightarrow> bool"
  for reference :: "int \<Rightarrow> dma_manager \<times> 'd \<Rightarrow> (caller \<times> dma_manager \<times> 'd) kresult"
    and confs :: "'d \<Rightarrow> 5 word list" where
  call: "ds_caller s = Idle \<Longrightarrow> reference fd (ds_mgr s, ds_dev s) = Inr (c, p, d) \<Longrightarrow>
    ref_step reference confs s (s\<lparr>ds_caller := c, ds_mgr := p, ds_dev := d, ds_calls := ds_calls s + 1\<rparr>)"
| respond: "ds_delivered s < length (confs (ds_dev s)) \<Longrightarrow>
    ref_step reference confs s (s\<lparr>ds_mgr := confResp (ds_mgr s), ds_delivered := ds_delivered s + 1\<rparr>)"
| wake: "ds_caller s = Waiting rc \<Longrightarrow> 0 < confSem (ds_mgr s) \<Longrightarrow>
    ref_step reference confs s
      (s\<lparr>ds_caller := Done rc, ds_mgr := (ds_mgr s)\<lparr>confSem := confSem (ds_mgr s) - 1\<rparr>\<rparr>)"
| return: "ds_caller s = Done rc \<Longrightarrow>
    ref_step reference confs s (s\<lparr>ds_caller := Idle, ds_results := ds_results s @ [rc]\<rparr>)"

inductive_simps ref_step_Waiting: "ref_step reference confs s s'"

section \<open>Memory statistics\<close>

text \<open>\<^verbatim>\<open>DmaManager_show_mem_stats\<close> after its \<^verbatim>\<open>sem_wait\<close>; None while it would block.\<close>

definition show_mem_stats_request :: "'d mmio \<Rightarrow> ChannelType \<Rightarrow> 'd \<Rightarrow> 'd" where
  "show_mem_stats_request m rc d = DmaConfigProxy_getMemoryTraffic m rc d"

definition show_mem_stats_finish :: "dma_manager \<Rightarrow> (u64 \<times> dma_manager) option" where
  "show_mem_stats_finish p = (if mtSem p > 0 then Some (0 + mtCnt p, p\<lparr>mtSem := mtSem p - 1\<rparr>) else None)"

section \<open>The contract of the sender\<close>

locale dma_sender =
  fixes send :: "'d sender"
    and confs_of :: "'d \<Rightarrow> 5 word list"
    and dev_ok :: "'d \<Rightarrow> bool"
  assumes send_keeps: "dev_ok d \<Longrightarrow> send fd oid d = Inr (rc, d') \<Longrightarrow> dev_ok d'"
    and send_done: "dev_ok d \<Longrightarrow> send fd oid d = Inr (0, d') \<Longrightarrow> confs_of d' = confs_of d @ [ucast oid]"
    and send_failed: "dev_ok d \<Longrightarrow> send fd oid d = Inr (rc, d') \<Longrightarrow> rc \<noteq> 0 \<Longrightarrow> 0 \<le> sint oid \<Longrightarrow>
      confs_of d' = confs_of d"
begin

definition sys_inv :: "'d dma_sys \<Rightarrow> bool" where
  "sys_inv s \<longleftrightarrow> dev_ok (ds_dev s) \<and> handle (ds_mgr s) = of_nat (ds_calls s) \<and> ds_delivered s \<le> length (confs_of (ds_dev s)) \<and>
     confSem (ds_mgr s) + length (confs_of (ds_dev s)) =
       ds_delivered s + (case ds_caller s of Waiting _ \<Rightarrow> 1 | _ \<Rightarrow> 0)"

lemma sys_inv_step:
  assumes "ref_step (reference_ioctl send) confs_of s s'" and "sys_inv s" and "ds_calls s' \<le> 2 ^ 31"
  shows "sys_inv s'"
  using assms
proof (cases rule: ref_step.cases)
  case (call fd c p d)
  from call(3) obtain rc where sd: "send fd (handle (ds_mgr s)) (ds_dev s) = Inr (rc, d)"
    and c: "c = (if rc = 0 then Waiting (sint (handle (ds_mgr s))) else Done (sint (handle (ds_mgr s))))"
    and p: "p = (ds_mgr s)\<lparr>handle := handle (ds_mgr s) + 1\<rparr>"
    by (auto simp: reference_ioctl_def Let_def split: sum.splits prod.splits)
  have ok: "dev_ok (ds_dev s)" using assms(2) by (simp add: sys_inv_def)
  have "unat (handle (ds_mgr s)) < 2 ^ 31"
    using assms(2,3) call(1) by (simp add: sys_inv_def unat_of_nat_mod)
  then have nn: "0 \<le> sint (handle (ds_mgr s))"
    using sint_unat_small [of "handle (ds_mgr s)"] by simp
  show ?thesis
    using call nn assms(2) c p send_keeps [OF ok sd] send_done [OF ok] send_failed [OF ok sd] sd
    by (cases "rc = 0") (auto simp: sys_inv_def)
qed (auto simp: sys_inv_def confResp_def)

lemma sys_inv_reachable:
  assumes "(ref_step (reference_ioctl send) confs_of)\<^sup>*\<^sup>* s s'" and "sys_inv s" and "ds_calls s' \<le> 2 ^ 31"
  shows "sys_inv s'"
  using assms
proof (induction rule: rtranclp_induct)
  case (step t u)
  have "ds_calls t \<le> ds_calls u" using step(2) by (cases rule: ref_step.cases) auto
  with step sys_inv_step show ?case by simp
qed

text \<open>A caller that is not waiting has seen every response; one that waits is never stuck.\<close>

lemma acknowledged:
  "sys_inv s \<Longrightarrow> (\<And>rc. ds_caller s \<noteq> Waiting rc) \<Longrightarrow>
     ds_delivered s = length (confs_of (ds_dev s)) \<and> confSem (ds_mgr s) = 0"
  by (cases "ds_caller s") (auto simp: sys_inv_def)

lemma waiting_progress:
  assumes "sys_inv s" and "ds_caller s = Waiting rc"
  shows "\<exists>s'. ref_step (reference_ioctl send) confs_of s s' \<and>
    (ds_caller s' = Done rc \<or> confSem (ds_mgr s') = 1 \<and> ds_caller s' = Waiting rc)"
proof (cases "confSem (ds_mgr s) = 0")
  case True
  then have "ds_delivered s < length (confs_of (ds_dev s))" using assms by (auto simp: sys_inv_def)
  then have "ref_step (reference_ioctl send) confs_of s
      (s\<lparr>ds_mgr := confResp (ds_mgr s), ds_delivered := ds_delivered s + 1\<rparr>)" by (rule ref_step.respond)
  moreover have "confSem (confResp (ds_mgr s)) = 1" using True by (simp add: confResp_def)
  ultimately show ?thesis
    using assms(2) by (intro exI [of _ "s\<lparr>ds_mgr := confResp (ds_mgr s), ds_delivered := ds_delivered s + 1\<rparr>"]) simp
next
  case False
  then have "ref_step (reference_ioctl send) confs_of s
      (s\<lparr>ds_caller := Done rc, ds_mgr := (ds_mgr s)\<lparr>confSem := confSem (ds_mgr s) - 1\<rparr>\<rparr>)"
    using assms(2) by (intro ref_step.wake) simp_all
  then show ?thesis
    by (rule_tac x = "s\<lparr>ds_caller := Done rc, ds_mgr := (ds_mgr s)\<lparr>confSem := confSem (ds_mgr s) - 1\<rparr>\<rparr>" in exI)
      simp
qed

end

section \<open>Properties of the direct build\<close>

text \<open>
  In the build that calls \<^verbatim>\<open>send_fd_to_portal\<close> itself, the test \<^verbatim>\<open>rc <= 0\<close> makes a successful
  reference with a positive id return at once: a caller can hold the id while the device's
  response to it has not been delivered.
\<close>

theorem direct_returns_unacknowledged:
  assumes "ds_caller s = Idle" and "ds_delivered s = length (confs (ds_dev s))"
    and "send fd (handle (ds_mgr s)) (ds_dev s) = Inr (sint (handle (ds_mgr s)), d)"
    and "confs d = confs (ds_dev s) @ [c]" and "0 < sint (handle (ds_mgr s))"
  shows "\<exists>s'. (ref_step (reference_direct send) confs)\<^sup>*\<^sup>* s s' \<and> ds_caller s' = Idle \<and>
    ds_results s' = ds_results s @ [sint (handle (ds_mgr s))] \<and>
    ds_delivered s' < length (confs (ds_dev s'))"
proof -
  let ?oid = "handle (ds_mgr s)"
  let ?s1 = "s\<lparr>ds_caller := Done (sint ?oid), ds_mgr := (ds_mgr s)\<lparr>handle := ?oid + 1\<rparr>, ds_dev := d,
      ds_calls := ds_calls s + 1\<rparr>"
  have "reference_direct send fd (ds_mgr s, ds_dev s) =
      Inr (Done (sint ?oid), (ds_mgr s)\<lparr>handle := ?oid + 1\<rparr>, d)"
    using assms(3,5) by (simp add: reference_direct_def Let_def)
  from ref_step.call [OF assms(1), where reference = "reference_direct send", OF this]
  have s1: "ref_step (reference_direct send) confs s ?s1" .
  have "ref_step (reference_direct send) confs ?s1
      (?s1\<lparr>ds_caller := Idle, ds_results := ds_results ?s1 @ [sint ?oid]\<rparr>)"
    by (rule ref_step.return) simp
  with s1 have "(ref_step (reference_direct send) confs)\<^sup>*\<^sup>* s
      (?s1\<lparr>ds_caller := Idle, ds_results := ds_results ?s1 @ [sint ?oid]\<rparr>)"
    by (meson r_into_rtranclp rtranclp_trans)
  then show ?thesis using assms(2,4) by (intro exI conjI) auto
qed

definition sample_sys :: "u32 \<Rightarrow> dma_hw dma_sys" where
  "sample_sys h = \<lparr>ds_dev = hw_reset mmu_zero, ds_mgr = (fst (DmaManager_init False 3 (- 1)))\<lparr>handle := h\<rparr>,
     ds_caller = Idle, ds_delivered = 0, ds_results = [], ds_calls = 0\<rparr>"

theorem direct_returns_unacknowledged_witness:
  "\<exists>s'. (ref_step (reference_direct (\<lambda>fd oid d. Inr (send_fd_to_portal_kernel dma_mmio sample_list oid d)))
       hw_confs_settled)\<^sup>*\<^sup>* (sample_sys 1) s' \<and> ds_results s' = [1] \<and>
     ds_delivered s' < length (hw_confs_settled (ds_dev s'))"
proof -
  let ?r = "send_fd_to_portal_kernel dma_mmio sample_list 1 (hw_reset mmu_zero)"
  have r: "?r = (1, snd ?r)"
    using kernel_result(1) [OF hw_ok_reset [of mmu_zero], of sample_list 1] by (simp add: prod_eq_iff)
  have "hw_confs_settled (snd ?r) = [1]"
    using kernel_result(4) [OF hw_ok_reset [of mmu_zero], of sample_list 1] by simp
  with r direct_returns_unacknowledged [of "sample_sys 1" hw_confs_settled
      "\<lambda>fd oid d. Inr (send_fd_to_portal_kernel dma_mmio sample_list oid d)" 9 "snd ?r" 1]
  show ?thesis by (auto simp: sample_sys_def)
qed

text \<open>
  In the same build a failed transfer blocks for ever: the caller waits for a response the
  device was never asked for, and no step of the system is possible.
\<close>

theorem direct_failure_blocks:
  assumes "ds_caller s = Idle" and "ds_delivered s = length (confs (ds_dev s))"
    and "confSem (ds_mgr s) = 0" and "rc < 0"
    and "send fd (handle (ds_mgr s)) (ds_dev s) = Inr (rc, d)" and "confs d = confs (ds_dev s)"
  shows "\<exists>s'. ref_step (reference_direct send) confs s s' \<and> ds_caller s' = Waiting rc \<and>
    (\<nexists>s''. ref_step (reference_direct send) confs s' s'')"
proof -
  let ?oid = "handle (ds_mgr s)"
  let ?s1 = "s\<lparr>ds_caller := Waiting rc, ds_mgr := (ds_mgr s)\<lparr>handle := ?oid + 1\<rparr>, ds_dev := d,
      ds_calls := ds_calls s + 1\<rparr>"
  have "reference_direct send fd (ds_mgr s, ds_dev s) =
      Inr (Waiting rc, (ds_mgr s)\<lparr>handle := ?oid + 1\<rparr>, d)"
    using assms(4,5) by (simp add: reference_direct_def Let_def)
  from ref_step.call [OF assms(1), where reference = "reference_direct send", OF this]
  have "ref_step (reference_direct send) confs s ?s1" .
  moreover have "\<nexists>s''. ref_step (reference_direct send) confs ?s1 s''"
    using assms(2,3,6) by (subst ref_step_Waiting) auto
  ultimately show ?thesis by (intro exI [of _ ?s1]) simp
qed

theorem direct_failure_blocks_witness:
  "\<exists>s'. ref_step (reference_direct (\<lambda>fd oid d. Inr (send_fd_to_portal_user (\<lambda>_ _. Inl (- 1)) dma_mmio fd oid d)))
     hw_confs_settled (sample_sys 1) s' \<and> ds_caller s' = Waiting (- 1) \<and>
     (\<nexists>s''. ref_step (reference_direct (\<lambda>fd oid d. Inr (send_fd_to_portal_user (\<lambda>_ _. Inl (- 1)) dma_mmio fd oid d)))
       hw_confs_settled s' s'')"
  by (rule direct_failure_blocks [where fd = 9 and d = "hw_reset mmu_zero"])
    (simp_all add: sample_sys_def DmaManager_init_def send_fd_to_portal_user_def)

section \<open>Errors and statistics\<close>

fun dma_indicate_all :: "dma_indication list \<Rightarrow> int \<times> dma_manager \<Rightarrow> (int \<times> dma_manager) option" where
  "dma_indicate_all [] st = Some st"
| "dma_indicate_all (i # is) st = (case dma_indicate i st of None \<Rightarrow> None | Some st' \<Rightarrow> dma_indicate_all is st')"

definition is_dma_error :: "dma_indication \<Rightarrow> bool" where
  "is_dma_error i = (case i of DmaError _ _ _ _ \<Rightarrow> True | _ \<Rightarrow> False)"

lemma dma_indicate_all_eq:
  assumes "0 \<le> limit"
  shows "dma_indicate_all is (limit, p) = None \<longleftrightarrow> limit < int (length (filter is_dma_error is))"
    and "dma_indicate_all is (limit, p) = Some (limit', p') \<Longrightarrow>
      limit' = limit - int (length (filter is_dma_error is)) \<and>
      confSem p' = confSem p + length (filter (\<lambda>i. \<exists>x. i = ConfigResp x) is) \<and>
      mtSem p' = mtSem p + length (filter (\<lambda>i. \<exists>x. i = ReportMemoryTraffic x) is)"
  using assms
proof (induction "is" arbitrary: limit p)
  case (Cons i "is")
  { case 1 then show ?case using Cons.IH(1)
      by (cases i) (auto simp: is_dma_error_def) }
  { case 2 then show ?case using Cons.IH(2)
      by (cases i) (force simp: is_dma_error_def confResp_def mtResp_def dbgResp_def split: if_splits)+ }
qed simp_all

text \<open>
  The indication thread survives exactly \<^verbatim>\<open>error_limit\<close> (20) DMA errors: a sequence of
  indications ends the process if and only if it has more than 20 of them, and otherwise every
  configuration response and every traffic report in it has posted its semaphore once.
\<close>

theorem dma_error_limit:
  "(case dma_indicate_all is (20, p) of
      None \<Rightarrow> length (filter is_dma_error is) > 20
    | Some (limit, p') \<Rightarrow> length (filter is_dma_error is) \<le> 20 \<and>
        confSem p' = confSem p + length (filter (\<lambda>i. \<exists>x. i = ConfigResp x) is) \<and>
        mtSem p' = mtSem p + length (filter (\<lambda>i. \<exists>x. i = ReportMemoryTraffic x) is))"
proof (cases "dma_indicate_all is (20, p)")
  case None
  then show ?thesis using dma_indicate_all_eq(1) [of 20 "is" p] by simp
next
  case (Some r)
  obtain limit p' where "r = (limit, p')" by force
  with Some show ?thesis
    using dma_indicate_all_eq(1) [of 20 "is" p] dma_indicate_all_eq(2) [of 20 "is" p limit p'] by simp
qed

end
