(* ===== verification/Portalmem.thy ===== *)
theory Portalmem
  imports Sg_List
begin

text \<open>
  The buffer allocator, \<^verbatim>\<open>drivers/portalmem/portalmem.c\<close>: \<^verbatim>\<open>portalmem_dmabuffer_create\<close> collects
  page blocks of orders 8, 4 and 0 into a scatter-gather table and exports it as a file; the
  ioctls of \<^verbatim>\<open>/dev/portalmem\<close> read the table back; the dma_buf callbacks map it.  The kernel's
  services (page allocator, kmalloc, dma_buf, copies from and to user space) are not part of the
  repository: their results are arguments.
\<close>

definition PAGE_SIZE :: nat where
  "PAGE_SIZE = 4096"

record pa_buffer =
  pb_size :: u64
  kmap_cnt :: int
  vaddr :: "u64 option"
  sg_table :: "sg_entry list"

text \<open>
  The state the driver shares with the kernel: the page allocator's own state, the open dma_buf
  files with their reference counts, and how many objects of each kind are allocated.
\<close>

record 's pmem =
  pm_pages :: 's
  pm_files :: "int \<Rightarrow> pa_buffer option"
  pm_refs :: "int \<Rightarrow> nat"
  live_buffers :: nat
  live_tables :: nat
  live_infos :: nat

text \<open>
  The kernel services used by one call of the allocator: \<^verbatim>\<open>alloc_pages\<close> gives the physical
  address of a block of the requested order; the other fields are the results of kzalloc,
  kmalloc, sg_alloc_table, dma_buf_export (False: an error pointer) and dma_buf_fd.
\<close>

record 's kcalls =
  kc_alloc_pages :: "nat \<Rightarrow> 's \<Rightarrow> u64 option \<times> 's"
  kc_kzalloc :: bool
  kc_kmalloc_table :: bool
  kc_kmalloc_info :: "nat \<Rightarrow> bool"
  kc_sg_alloc_table :: int
  kc_export :: bool
  kc_fd :: int

section \<open>Allocation\<close>

definition orders :: "nat list" where
  "orders = [8, 4, 0]"

text \<open>The inner loop over \<^verbatim>\<open>ordindex\<close>.\<close>

fun try_orders ::
    "(nat \<Rightarrow> 's \<Rightarrow> u64 option \<times> 's) \<Rightarrow> int \<Rightarrow> nat \<Rightarrow> nat list \<Rightarrow> 's \<Rightarrow> (u64 \<times> nat) option \<times> 's" where
  "try_orders alloc_pages size_remaining max_order [] s = (None, s)"
| "try_orders alloc_pages size_remaining max_order (ord # ords) s =
     (if size_remaining \<ge> int (PAGE_SIZE * 2 ^ ord) \<and> max_order \<ge> ord
      then (case alloc_pages ord s of
              (Some page, s') \<Rightarrow> (Some (page, ord), s')
            | (None, s') \<Rightarrow> try_orders alloc_pages size_remaining max_order ords s')
      else try_orders alloc_pages size_remaining max_order ords s)"

lemma try_orders_SomeD:
  assumes "try_orders a r mx ords s = (Some (p, ord), s')"
  shows "ord \<in> set ords \<and> ord \<le> mx \<and> int (PAGE_SIZE * 2 ^ ord) \<le> r"
  using assms
  by (induction a r mx ords s rule: try_orders.induct) (auto split: if_splits option.splits prod.splits)

text \<open>
  The outer loop.  \<^verbatim>\<open>info\<close> is the pointer the code tests afterwards: it is null when no order
  could be allocated in the last round, or when there was no round.
\<close>

function alloc_loop ::
    "(nat \<Rightarrow> 's \<Rightarrow> u64 option \<times> 's) \<Rightarrow> int \<Rightarrow> nat \<Rightarrow> bool \<times> (u64 \<times> nat) list \<times> 's \<Rightarrow>
       bool \<times> (u64 \<times> nat) list \<times> 's" where
  "alloc_loop alloc_pages size_remaining max_order st =
     (case st of (info, infos, s) \<Rightarrow>
        if size_remaining > 0
        then (case try_orders alloc_pages size_remaining max_order orders s of
                (None, s') \<Rightarrow> (False, infos, s')
              | (Some (page, ord), s') \<Rightarrow>
                  alloc_loop alloc_pages (size_remaining - int (PAGE_SIZE * 2 ^ ord)) ord
                    (True, infos @ [(page, ord)], s'))
        else (info, infos, s))"
  by pat_completeness auto
termination
  by (relation "measure (\<lambda>(a, r, mx, st). nat r)")
    (auto simp: PAGE_SIZE_def dest!: try_orders_SomeD [OF sym])

declare alloc_loop.simps [simp del]

definition page_round :: "u64 \<Rightarrow> u64" where
  "page_round len = (len + 4095) AND NOT 4095"

definition block_entry :: "u64 \<times> nat \<Rightarrow> sg_entry" where
  "block_entry b = (fst b, of_nat (2 ^ snd b * PAGE_SIZE))"

definition pa_buffer_free :: "'s pmem \<Rightarrow> 's pmem" where
  "pa_buffer_free st = st\<lparr>live_tables := live_tables st - 1, live_buffers := live_buffers st - 1\<rparr>"

text \<open>
  \<^verbatim>\<open>free_buffer_page\<close> is empty, so no page block is ever returned.  The last loop of the function
  frees each \<^verbatim>\<open>info\<close> and then follows its list link.
\<close>

definition create_failed :: "(u64 \<times> nat) list \<Rightarrow> 's pmem \<Rightarrow> (int \<times> 's pmem) kresult" where
  "create_failed infos st =
     (if infos \<noteq> [] then Inl UseAfterFree
      else Inr (- ENOMEM, st\<lparr>live_buffers := live_buffers st - 1\<rparr>))"

definition create_export :: "'s kcalls \<Rightarrow> u64 \<Rightarrow> (u64 \<times> nat) list \<Rightarrow> 's pmem \<Rightarrow> (int \<times> 's pmem) kresult" where
  "create_export k len infos st =
     (let buffer = \<lparr>pb_size = len, kmap_cnt = 0, vaddr = None, sg_table = map block_entry infos\<rparr>;
          st' = st\<lparr>live_infos := live_infos st - length infos\<rparr>
      in if \<not> kc_export k then Inl ErrPtrDeref
         else if kc_fd k < 0 then Inr (kc_fd k, pa_buffer_free st')
         else Inr (kc_fd k, st'\<lparr>pm_files := (pm_files st')(kc_fd k := Some buffer),
                                pm_refs := (pm_refs st')(kc_fd k := 1)\<rparr>))"

definition portalmem_dmabuffer_create :: "'s kcalls \<Rightarrow> u64 \<Rightarrow> 's pmem \<Rightarrow> (int \<times> 's pmem) kresult" where
  "portalmem_dmabuffer_create k len0 st =
     (let len = page_round len0 in
      if \<not> kc_kzalloc k then Inr (- ENOMEM, st)
      else if \<not> kc_kmalloc_table k then Inr (- ENOMEM, st)
      else
        (case alloc_loop (kc_alloc_pages k) (sint len) 8 (False, [], pm_pages st) of (info, infos, s') \<Rightarrow>
           let st1 = st\<lparr>pm_pages := s', live_buffers := live_buffers st + 1,
                        live_tables := live_tables st + 1, live_infos := live_infos st + length infos\<rparr>
           in if \<not> list_all (kc_kmalloc_info k) [0..<length infos] then Inl NullDeref
              else if info
              then (if kc_sg_alloc_table k = 0 then create_export k len infos st1
                    else create_failed infos (st1\<lparr>live_tables := live_tables st1 - 1\<rparr>))
              else create_failed infos st1))"

section \<open>ioctl\<close>

text \<open>
  The requests of \<^verbatim>\<open>/dev/portalmem\<close>.  The flags are the outcome of the copies: of the request
  from user space, of entry \<^verbatim>\<open>i\<close> to user space, of the header to user space.
\<close>

datatype 's pa_cmd =
    PA_DMA_ADDRESSES bool int int "nat \<Rightarrow> bool" bool
  | PA_MALLOC "'s kcalls" u64
  | PA_ELEMENT_SIZE bool int int
  | PA_OTHER u32

text \<open>What the call leaves in the caller's memory: the entries written and the new \<^verbatim>\<open>numEntries\<close>.\<close>

type_synonym pa_user = "sg_entry list \<times> int option"

definition pa_fget :: "int \<Rightarrow> 's pmem \<Rightarrow> (pa_buffer \<times> 's pmem) kresult" where
  "pa_fget fd st =
     (case pm_files st fd of
        None \<Rightarrow> Inl NullDeref
      | Some b \<Rightarrow> Inr (b, st\<lparr>pm_refs := (pm_refs st)(fd := pm_refs st fd + 1)\<rparr>))"

definition pa_fput :: "int \<Rightarrow> 's pmem \<Rightarrow> 's pmem" where
  "pa_fput fd st = st\<lparr>pm_refs := (pm_refs st)(fd := pm_refs st fd - 1)\<rparr>"

definition pa_dma_addresses ::
    "bool \<Rightarrow> int \<Rightarrow> int \<Rightarrow> (nat \<Rightarrow> bool) \<Rightarrow> bool \<Rightarrow> 's pmem \<Rightarrow> (int \<times> pa_user \<times> 's pmem) kresult" where
  "pa_dma_addresses from_ok fd numEntries entry_ok to_ok st =
     (if \<not> from_ok then Inr (- EFAULT, ([], None), st)
      else case pa_fget fd st of
             Inl e \<Rightarrow> Inl e
           | Inr (buffer, st1) \<Rightarrow>
               let es = sg_table buffer;
                   written = (if numEntries > 0 then es else [])
               in if \<not> list_all entry_ok [0..<length written]
                  then Inr (- EFAULT, (take (length (takeWhile entry_ok [0..<length written])) es, None), st1)
                  else let st2 = pa_fput fd st1 in
                       if \<not> to_ok then Inr (- EFAULT, (written, None), st2)
                       else Inr (0, (written, Some (int (length es))), st2))"

definition pa_element_size :: "bool \<Rightarrow> int \<Rightarrow> int \<Rightarrow> 's pmem \<Rightarrow> (int \<times> pa_user \<times> 's pmem) kresult" where
  "pa_element_size from_ok fd index st =
     (if \<not> from_ok then Inr (- EFAULT, ([], None), st)
      else case pa_fget fd st of
             Inl e \<Rightarrow> Inl e
           | Inr (buffer, st1) \<Rightarrow>
               let es = sg_table buffer;
                   retsize = (if 0 \<le> index \<and> nat index < length es
                              then sint (snd (es ! nat index)) else 0)
               in Inr (retsize, ([], None), pa_fput fd st1))"

fun pa_unlocked_ioctl :: "'s pa_cmd \<Rightarrow> 's pmem \<Rightarrow> (int \<times> pa_user \<times> 's pmem) kresult" where
  "pa_unlocked_ioctl (PA_DMA_ADDRESSES from_ok fd n entry_ok to_ok) st =
     pa_dma_addresses from_ok fd n entry_ok to_ok st"
| "pa_unlocked_ioctl (PA_MALLOC k len) st =
     (case portalmem_dmabuffer_create k len st of
        Inl e \<Rightarrow> Inl e | Inr (rc, st') \<Rightarrow> Inr (rc, ([], None), st'))"
| "pa_unlocked_ioctl (PA_ELEMENT_SIZE from_ok fd index) st = pa_element_size from_ok fd index st"
| "pa_unlocked_ioctl (PA_OTHER cmd) st = Inr (- ENOTTY, ([], None), st)"

section \<open>Mapping a buffer\<close>

text \<open>
  \<^verbatim>\<open>pa_dma_buf_mmap\<close>: the loop over the table, as the list of its calls of \<^verbatim>\<open>remap_pfn_range\<close>:
  virtual address, physical address of the first page, length.
\<close>

fun mmap_loop :: "nat \<Rightarrow> sg_entry list \<Rightarrow> nat \<Rightarrow> nat \<Rightarrow> (nat \<times> nat \<times> nat) list" where
  "mmap_loop vm_end [] addr offset = []"
| "mmap_loop vm_end ((page, slen) # es) addr offset =
     (let remainder = vm_end - addr in
      if offset \<ge> unat slen then mmap_loop vm_end es addr (offset - unat slen)
      else let page' = unat page + offset div PAGE_SIZE * PAGE_SIZE;
               len = min (unat slen - offset) remainder;
               addr' = addr + len
           in (addr, page', len) # (if addr' \<ge> vm_end then [] else mmap_loop vm_end es addr' 0))"

definition pa_dma_buf_mmap :: "pa_buffer \<Rightarrow> nat \<Rightarrow> nat \<Rightarrow> nat \<Rightarrow> int \<times> (nat \<times> nat \<times> nat) list" where
  "pa_dma_buf_mmap buffer vm_start vm_end vm_pgoff =
     (0, mmap_loop vm_end (sg_table buffer) vm_start (vm_pgoff * PAGE_SIZE))"

text \<open>
  \<^verbatim>\<open>custom_vma_access\<close>.  \<^verbatim>\<open>offset\<close> is an int compared with the unsigned length of the entry, so the
  comparison is unsigned; the address of the copy adds it as a signed number.  Memory is a
  function from physical addresses to bytes.
\<close>

fun access_loop :: "sg_entry list \<Rightarrow> u64 option \<times> u32 \<Rightarrow> u64 option \<times> u32" where
  "access_loop [] st = st"
| "access_loop ((page, slen) # es) (maddr, offset) =
     (if offset < slen then (Some page, offset) else access_loop es (Some page, offset - slen))"

definition custom_vma_access ::
    "pa_buffer option \<Rightarrow> u64 \<Rightarrow> u64 \<Rightarrow> u8 list \<Rightarrow> nat \<Rightarrow> bool \<Rightarrow> (int \<Rightarrow> u8) \<Rightarrow>
       (int \<times> u8 list \<times> (int \<Rightarrow> u8)) kresult" where
  "custom_vma_access private vm_start addr buf len write mem =
     (case private of
        None \<Rightarrow> Inr (- EFAULT, buf, mem)
      | Some buffer \<Rightarrow>
          (case access_loop (sg_table buffer) (None, ucast (addr - vm_start)) of
             (None, _) \<Rightarrow> Inl NullDeref
           | (Some maddr, offset) \<Rightarrow>
               let base = int (unat maddr) + sint offset in
               if write
               then Inr (int len, buf,
                 \<lambda>a. if base \<le> a \<and> a < base + int len then buf ! nat (a - base) else mem a)
               else Inr (int len, map (\<lambda>j. mem (base + int j)) [0..<len], mem)))"

section \<open>Kernel mappings\<close>

text \<open>
  \<^verbatim>\<open>vmap\<close> is a kernel service: given the pages it returns an address, a null or an error pointer.
  The page array has \<^verbatim>\<open>npages\<close> slots; filling it past its end is a fault, and so is \<^verbatim>\<open>BUG_ON\<close>.
\<close>

datatype vptr = Vnull | Verr int | Vaddr u64

definition vptr_of :: "u64 option \<Rightarrow> vptr" where
  "vptr_of v = (case v of None \<Rightarrow> Vnull | Some a \<Rightarrow> Vaddr a)"

definition page_array :: "sg_entry list \<Rightarrow> nat list" where
  "page_array es = concat (map (\<lambda>(page, slen).
     map (\<lambda>j. unat page + j * PAGE_SIZE) [0..<(unat slen + 4095) div PAGE_SIZE]) es)"

definition pa_dma_buf_begin_cpu_access ::
    "bool \<Rightarrow> (nat list \<Rightarrow> vptr) \<Rightarrow> pa_buffer \<Rightarrow> (int \<times> pa_buffer) kresult" where
  "pa_dma_buf_begin_cpu_access vmalloc_ok vmap buffer =
     (let npages = unat (page_round (pb_size buffer)) div PAGE_SIZE;
          pages = page_array (sg_table buffer);
          finish = (\<lambda>v. case v of
             Vaddr a \<Rightarrow> Inr (0, buffer\<lparr>vaddr := Some a, kmap_cnt := kmap_cnt buffer + 1\<rparr>)
           | Verr e \<Rightarrow> Inr (e, buffer)
           | Vnull \<Rightarrow> Inr (- ENOMEM, buffer))
      in if kmap_cnt buffer = 0 \<and> vmalloc_ok
         then (if length (sg_table buffer) > npages \<or> length pages > npages then Inl OutOfBounds
               else finish (vmap pages))
         else finish (vptr_of (vaddr buffer)))"

text \<open>The second component is the address given to \<^verbatim>\<open>vunmap\<close>, if it is called.\<close>

definition pa_dma_buf_end_cpu_access :: "pa_buffer \<Rightarrow> pa_buffer \<times> u64 option option" where
  "pa_dma_buf_end_cpu_access buffer =
     (let b = buffer\<lparr>kmap_cnt := kmap_cnt buffer - 1\<rparr> in
      if kmap_cnt b = 0 then (b\<lparr>vaddr := None\<rparr>, Some (vaddr buffer)) else (b, None))"

definition pa_dma_buf_vmap ::
    "bool \<Rightarrow> (nat list \<Rightarrow> vptr) \<Rightarrow> pa_buffer \<Rightarrow> (u64 option \<times> pa_buffer) kresult" where
  "pa_dma_buf_vmap vmalloc_ok vmap buffer =
     (case pa_dma_buf_begin_cpu_access vmalloc_ok vmap buffer of
        Inl e \<Rightarrow> Inl e | Inr (_, b) \<Rightarrow> Inr (vaddr b, b))"

definition pa_dma_buf_vunmap :: "pa_buffer \<Rightarrow> pa_buffer" where
  "pa_dma_buf_vunmap buffer = buffer"

definition pa_dma_buf_kmap :: "pa_buffer \<Rightarrow> nat \<Rightarrow> nat" where
  "pa_dma_buf_kmap buffer offset = (case vaddr buffer of None \<Rightarrow> 0 | Some a \<Rightarrow> unat a) + offset * PAGE_SIZE"

definition pa_dma_buf_map :: "pa_buffer \<Rightarrow> sg_entry list" where
  "pa_dma_buf_map buffer = sg_table buffer"

section \<open>The allocation loop\<close>

definition block_bytes :: "(u64 \<times> nat) list \<Rightarrow> nat" where
  "block_bytes bs = sum_list (map (\<lambda>b. PAGE_SIZE * 2 ^ snd b) bs)"

text \<open>
  What the code relies on of the kernel's page allocator: a block of \<^verbatim>\<open>2 ^ ord\<close> pages is naturally
  aligned and lies in the 40-bit physical address space of the devices.
\<close>

definition pages_aligned :: "(nat \<Rightarrow> 's \<Rightarrow> u64 option \<times> 's) \<Rightarrow> bool" where
  "pages_aligned alloc_pages \<longleftrightarrow> (\<forall>ord s p s'. alloc_pages ord s = (Some p, s') \<longrightarrow>
     unat p mod (PAGE_SIZE * 2 ^ ord) = 0 \<and> unat p < 2 ^ 40)"

definition blocks_ok :: "nat \<Rightarrow> (u64 \<times> nat) list \<Rightarrow> bool" where
  "blocks_ok mx bs \<longleftrightarrow> sorted_wrt (\<lambda>x y. snd y \<le> snd x) bs \<and>
     (\<forall>b\<in>set bs. snd b \<le> mx \<and> snd b \<in> set orders \<and>
        unat (fst b) mod (PAGE_SIZE * 2 ^ snd b) = 0 \<and> unat (fst b) < 2 ^ 40)"

lemma try_orders_aligned:
  assumes "pages_aligned a" and "try_orders a r mx ords s = (Some (p, ord), s')"
  shows "unat p mod (PAGE_SIZE * 2 ^ ord) = 0 \<and> unat p < 2 ^ 40"
  using assms
proof (induction a r mx ords s rule: try_orders.induct)
  case (2 a r mx ord' ords s)
  have "unat p mod (PAGE_SIZE * 2 ^ ord) = 0 \<and> unat p < 2 ^ 40" if "a ord s = (Some p, s')"
    using 2(3) that unfolding pages_aligned_def by blast
  with 2 show ?case by (auto split: if_splits option.splits prod.splits)
qed simp

lemma alloc_loop_blocks:
  assumes "pages_aligned a" and "alloc_loop a r mx (info, infos, s) = (info', infos', s')" and "0 \<le> r"
  shows "\<exists>bs. infos' = infos @ bs \<and> blocks_ok mx bs \<and> int (block_bytes bs) \<le> r \<and>
    (info' \<longrightarrow> int (block_bytes bs) = r)"
  using assms
proof (induction a r mx "(info, infos, s)" arbitrary: info infos s rule: alloc_loop.induct)
  case (1 a r mx info infos s)
  show ?case
  proof (cases "r > 0")
    case False
    with 1(3,4) show ?thesis
      by (subst (asm) alloc_loop.simps) (auto simp: blocks_ok_def block_bytes_def)
  next
    case True
    obtain res t where t: "try_orders a r mx orders s = (res, t)" by force
    show ?thesis
    proof (cases res)
      case None
      with 1(3) True t show ?thesis
        by (subst (asm) alloc_loop.simps) (auto simp: blocks_ok_def block_bytes_def)
    next
      case (Some b)
      obtain p ord where b: "b = (p, ord)" by force
      note d = try_orders_SomeD [OF t [unfolded Some b]]
        try_orders_aligned [OF 1(2) t [unfolded Some b]]
      have "alloc_loop a (r - int (PAGE_SIZE * 2 ^ ord)) ord (True, infos @ [(p, ord)], t) = (info', infos', s')"
        using 1(3) True t Some b by (subst (asm) alloc_loop.simps) simp
      from 1(1) [OF refl refl True t [symmetric] Some b [symmetric] 1(2) this] d obtain bs where
        bs: "infos' = (infos @ [(p, ord)]) @ bs" "blocks_ok ord bs"
          "int (block_bytes bs) \<le> r - int (PAGE_SIZE * 2 ^ ord)"
          "info' \<longrightarrow> int (block_bytes bs) = r - int (PAGE_SIZE * 2 ^ ord)" by auto
      have "blocks_ok mx ((p, ord) # bs)"
        using bs(2) d by (auto simp: blocks_ok_def)
      moreover have "block_bytes ((p, ord) # bs) = PAGE_SIZE * 2 ^ ord + block_bytes bs"
        by (simp add: block_bytes_def)
      ultimately show ?thesis
        using bs by (intro exI [of _ "(p, ord) # bs"]) auto
    qed
  qed
qed

section \<open>The table of a created buffer\<close>

lemma block_entry_wf:
  assumes "blocks_ok mx bs" and "b \<in> set bs"
  shows "entry_wf (block_entry b)" and "unat (snd (block_entry b)) = PAGE_SIZE * 2 ^ snd b"
proof -
  have "snd b = 8 \<or> snd b = 4 \<or> snd b = 0" using assms by (auto simp: blocks_ok_def orders_def)
  then show "unat (snd (block_entry b)) = PAGE_SIZE * 2 ^ snd b"
    by (auto simp: block_entry_def PAGE_SIZE_def)
  then show "entry_wf (block_entry b)"
    using assms \<open>snd b = 8 \<or> snd b = 4 \<or> snd b = 0\<close>
    by (auto simp: blocks_ok_def entry_wf_def block_entry_def PAGE_SIZE_def)
qed

text \<open>The form every buffer of the driver has, the invariant of \<^verbatim>\<open>pm_files\<close>.\<close>

definition table_ok :: "sg_entry list \<Rightarrow> bool" where
  "table_ok es \<longleftrightarrow> sorted_wrt (\<lambda>x y. snd y \<le> snd x) es \<and> list_all entry_wf es"

lemma table_ok_blocks:
  assumes "blocks_ok mx bs"
  shows "table_ok (map block_entry bs)" and "sg_total (map block_entry bs) = block_bytes bs"
proof -
  have le: "snd (block_entry y) \<le> snd (block_entry x)"
    if "x \<in> set bs" "y \<in> set bs" "snd y \<le> snd x" for x y
  proof -
    have "(2 :: nat) ^ snd y \<le> 2 ^ snd x" using that(3) by simp
    then show ?thesis
      using block_entry_wf(2) [OF assms] that(1,2) by (simp add: word_le_nat_alt)
  qed
  have "sorted_wrt (\<lambda>x y. snd y \<le> snd x) bs" using assms by (simp add: blocks_ok_def)
  then have "sorted_wrt (\<lambda>x y. snd y \<le> snd x) (map block_entry bs)"
    unfolding sorted_wrt_map by (rule sorted_wrt_mono_rel [rotated]) (rule le)
  then show "table_ok (map block_entry bs)"
    using block_entry_wf(1) [OF assms] by (auto simp: table_ok_def list_all_iff)
  have "map (unat \<circ> snd) (map block_entry bs) = map (\<lambda>b. PAGE_SIZE * 2 ^ snd b) bs"
    using block_entry_wf(2) [OF assms] by auto
  then show "sg_total (map block_entry bs) = block_bytes bs"
    unfolding sg_total_def block_bytes_def by (rule arg_cong)
qed

lemma table_ok_wf: "table_ok es \<Longrightarrow> length es \<le> 255 \<Longrightarrow> sg_wf es"
  by (auto simp: table_ok_def sg_wf_def list_all_iff entry_wf_def)

lemma table_ok_length: "table_ok es \<Longrightarrow> length es * PAGE_SIZE \<le> sg_total es"
proof (induction es)
  case (Cons e es)
  then have "PAGE_SIZE \<le> unat (snd e)" by (auto simp: table_ok_def entry_wf_def PAGE_SIZE_def)
  with Cons show ?case by (simp add: table_ok_def sg_total_def)
qed (simp add: sg_total_def)

lemma page_round_unat:
  assumes "unat len + 4095 < 2 ^ 64"
  shows "unat (page_round len) = (unat len + 4095) div 4096 * 4096"
proof -
  have "(x AND NOT (mask 12) :: u64) = push_bit 12 (drop_bit 12 x)" for x
    by (rule bit_word_eqI) (auto simp: bit_simps)
  from this [of "len + 4095"] have "page_round len = push_bit 12 (drop_bit 12 (len + 4095))"
    unfolding page_round_def by (simp add: mask_eq_exp_minus_1)
  moreover have "unat (len + 4095) = unat len + 4095"
    using assms by (simp add: unat_word_ariths)
  ultimately show ?thesis
    using assms by (simp add: push_bit_eq_mult unat_word_ariths unat_drop_bit_div)
qed

section \<open>Creation\<close>

lemma create_unfold:
  assumes "alloc_loop (kc_alloc_pages k) (sint (page_round len)) 8 (False, [], pm_pages st) = (info, infos, s')"
    and "kc_kzalloc k" and "kc_kmalloc_table k"
  defines "st1 \<equiv> st\<lparr>pm_pages := s', live_buffers := live_buffers st + 1,
      live_tables := live_tables st + 1, live_infos := live_infos st + length infos\<rparr>"
  shows "portalmem_dmabuffer_create k len st =
    (if \<not> list_all (kc_kmalloc_info k) [0..<length infos] then Inl NullDeref
     else if info
     then (if kc_sg_alloc_table k = 0 then create_export k (page_round len) infos st1
           else create_failed infos (st1\<lparr>live_tables := live_tables st1 - 1\<rparr>))
     else create_failed infos st1)"
  using assms by (simp add: portalmem_dmabuffer_create_def Let_def)

lemma create_nonneg:
  assumes "portalmem_dmabuffer_create k len st = Inr (fd, st')" and "0 \<le> fd"
  obtains infos s' where
    "alloc_loop (kc_alloc_pages k) (sint (page_round len)) 8 (False, [], pm_pages st) = (True, infos, s')"
    "st' = st\<lparr>pm_pages := s', live_buffers := live_buffers st + 1, live_tables := live_tables st + 1,
       pm_files := (pm_files st)(fd := Some \<lparr>pb_size = page_round len, kmap_cnt = 0, vaddr = None,
         sg_table = map block_entry infos\<rparr>),
       pm_refs := (pm_refs st)(fd := 1)\<rparr>"
proof -
  obtain info infos s' where l:
    "alloc_loop (kc_alloc_pages k) (sint (page_round len)) 8 (False, [], pm_pages st) = (info, infos, s')"
    by (metis prod_cases3)
  have z: "kc_kzalloc k" "kc_kmalloc_table k"
    using assms by (auto simp: portalmem_dmabuffer_create_def Let_def split: if_splits)
  have "info" and "st' = st\<lparr>pm_pages := s', live_buffers := live_buffers st + 1, live_tables := live_tables st + 1,
       pm_files := (pm_files st)(fd := Some \<lparr>pb_size = page_round len, kmap_cnt = 0, vaddr = None,
         sg_table = map block_entry infos\<rparr>),
       pm_refs := (pm_refs st)(fd := 1)\<rparr>"
    using assms unfolding create_unfold [OF l z]
    by (auto simp: create_failed_def create_export_def Let_def split: if_splits)
  with l that show thesis by simp
qed

lemma create_result:
  assumes "pages_aligned (kc_alloc_pages k)" and "unat len + 4095 < 2 ^ 63"
    and "portalmem_dmabuffer_create k len st = Inr (fd, st')" and "0 \<le> fd"
  shows "\<exists>b. pm_files st' = (pm_files st)(fd := Some b) \<and> table_ok (sg_table b) \<and>
    sg_total (sg_table b) = (unat len + 4095) div 4096 * 4096 \<and> kmap_cnt b = 0 \<and>
    live_infos st' = live_infos st \<and> live_buffers st' = live_buffers st + 1 \<and>
    live_tables st' = live_tables st + 1"
proof -
  from create_nonneg [OF assms(3,4)] obtain infos s' where l:
    "alloc_loop (kc_alloc_pages k) (sint (page_round len)) 8 (False, [], pm_pages st) = (True, infos, s')"
    and st': "st' = st\<lparr>pm_pages := s', live_buffers := live_buffers st + 1, live_tables := live_tables st + 1,
       pm_files := (pm_files st)(fd := Some \<lparr>pb_size = page_round len, kmap_cnt = 0, vaddr = None,
         sg_table = map block_entry infos\<rparr>),
       pm_refs := (pm_refs st)(fd := 1)\<rparr>" by metis
  have r: "unat (page_round len) = (unat len + 4095) div 4096 * 4096"
    using assms(2) by (intro page_round_unat) simp
  then have s: "sint (page_round len) = int ((unat len + 4095) div 4096 * 4096)"
    using assms(2) by (intro sint_unat_small [THEN trans]) auto
  have b: "blocks_ok 8 infos" "int (block_bytes infos) = sint (page_round len)"
    using alloc_loop_blocks [OF assms(1) l] s by auto
  then have "block_bytes infos = (unat len + 4095) div 4096 * 4096"
    unfolding s by (simp only: of_nat_eq_iff)
  with table_ok_blocks [OF b(1)] show ?thesis
    by (intro exI [of _ "\<lparr>pb_size = page_round len, kmap_cnt = 0, vaddr = None,
         sg_table = map block_entry infos\<rparr>"]) (simp add: st')
qed

text \<open>
  C6.  When \<^verbatim>\<open>portalmem_dmabuffer_create\<close> returns a descriptor, the file behind it has a table whose
  blocks are of the three supported sizes in descending order and aligned, and add up to exactly
  the requested length rounded up to whole pages; one buffer and one table stay allocated, every
  \<^verbatim>\<open>page_info\<close> was freed, and no other file changed.
\<close>

theorem create_table:
  assumes "pages_aligned (kc_alloc_pages k)" and "unat len + 4095 < 2 ^ 63"
    and "portalmem_dmabuffer_create k len st = Inr (fd, st')" and "0 \<le> fd"
  shows "\<exists>b. pm_files st' = (pm_files st)(fd := Some b) \<and> table_ok (sg_table b) \<and>
    sg_total (sg_table b) = (unat len + 4095) div 4096 * 4096 \<and> kmap_cnt b = 0 \<and>
    live_infos st' = live_infos st \<and> live_buffers st' = live_buffers st + 1 \<and>
    live_tables st' = live_tables st + 1"
  by (rule create_result [OF assms])

section \<open>Properties of the mappings\<close>

fun map_lookup :: "(nat \<times> nat \<times> nat) list \<Rightarrow> nat \<Rightarrow> nat option" where
  "map_lookup [] v = None"
| "map_lookup ((va, pa, n) # ms) v = (if va \<le> v \<and> v < va + n then Some (pa + (v - va)) else map_lookup ms v)"

lemma mmap_loop_lookup:
  assumes "PAGE_SIZE dvd offset" and "addr \<le> v" and "v < vm_end"
    and "list_all (\<lambda>e. PAGE_SIZE dvd unat (snd e)) es"
  shows "map_lookup (mmap_loop vm_end es addr offset) v = sg_lookup es (offset + (v - addr))"
  using assms
proof (induction vm_end es addr offset rule: mmap_loop.induct)
  case (2 vm_end page slen es addr offset)
  show ?case
  proof (cases "offset \<ge> unat slen")
    case True
    then have "PAGE_SIZE dvd offset - unat slen" using 2(3,6) by (auto intro: dvd_diff_nat)
    with 2(1) [OF refl True] 2(4-6)
    have IH: "map_lookup (mmap_loop vm_end es addr (offset - unat slen)) v =
        sg_lookup es (offset - unat slen + (v - addr))" by simp
    have e: "\<not> offset + (v - addr) < unat slen"
      "offset + (v - addr) - unat slen = offset - unat slen + (v - addr)" using True by linarith+
    show ?thesis
      unfolding mmap_loop.simps Let_def if_P [OF True] IH sg_lookup.simps if_not_P [OF e(1)] e(2) ..
  next
    case False
    let ?len = "min (unat slen - offset) (vm_end - addr)"
    have pg: "offset div PAGE_SIZE * PAGE_SIZE = offset" using 2(3) by simp
    show ?thesis
    proof (cases "v < addr + ?len")
      case True
      with False 2(4) pg show ?thesis by (auto simp: Let_def)
    next
      case past: False
      with 2(5) have lt: "\<not> addr + ?len \<ge> vm_end" and len: "?len = unat slen - offset"
        using 2(4) False by (auto simp: min_def split: if_splits)
      have IH: "map_lookup (mmap_loop vm_end es (addr + ?len) 0) v = sg_lookup es (0 + (v - (addr + ?len)))"
        using 2(4-6) past lt by (intro 2(2) [OF refl False refl refl refl lt]) auto
      have e: "\<not> offset + (v - addr) < unat slen"
        "offset + (v - addr) - unat slen = 0 + (v - (addr + ?len))"
        using False past len 2(4) by auto
      have np: "\<not> (addr \<le> v \<and> v < addr + ?len)" using past by simp
      show ?thesis
        unfolding mmap_loop.simps Let_def if_not_P [OF False] if_not_P [OF lt] map_lookup.simps
          if_not_P [OF np] IH sg_lookup.simps if_not_P [OF e(1)] e(2) ..
    qed
  qed
qed simp

lemma table_ok_dvd: "table_ok es \<Longrightarrow> list_all (\<lambda>e. PAGE_SIZE dvd unat (snd e)) es"
  by (auto simp: table_ok_def list_all_iff entry_wf_def PAGE_SIZE_def)

text \<open>
  C7.  After \<^verbatim>\<open>mmap\<close> of a buffer, every address of the mapping reaches the physical byte the
  scatter-gather table assigns to the file offset, and addresses past the end of the buffer are
  left unmapped.
\<close>

theorem mmap_reaches_buffer:
  assumes "table_ok (sg_table b)" and "vm_start \<le> v" and "v < vm_end"
  shows "map_lookup (snd (pa_dma_buf_mmap b vm_start vm_end pgoff)) v =
    sg_lookup (sg_table b) (pgoff * PAGE_SIZE + (v - vm_start))"
  using mmap_loop_lookup [OF _ assms(2,3) table_ok_dvd [OF assms(1)], of "pgoff * PAGE_SIZE"]
  by (simp add: pa_dma_buf_mmap_def)

definition sample_buffer :: pa_buffer where
  "sample_buffer = \<lparr>pb_size = 0x12000, kmap_cnt = 0, vaddr = None,
     sg_table = [(0x30000, 0x10000), (0x5000, 0x1000), (0x7000, 0x1000)]\<rparr>"

lemma sample_buffer_ok: "table_ok (sg_table sample_buffer)"
  by (simp add: table_ok_def sample_buffer_def entry_wf_def)

theorem mmap_reaches_buffer_witness:
  "map_lookup (snd (pa_dma_buf_mmap sample_buffer 0x400000 0x403000 15)) 0x401234 = Some 0x5234"
  using mmap_reaches_buffer [OF sample_buffer_ok, of "0x400000" "0x401234" "0x403000" 15]
  by (simp add: sample_buffer_def PAGE_SIZE_def)

lemma access_loop_found:
  assumes "sg_lookup es (unat offset) = Some pa"
  obtains page o' where "access_loop es (mad, offset) = (Some page, o')" "pa = unat page + unat o'"
    "\<exists>l. (page, l) \<in> set es \<and> o' < l"
  using assms
proof (induction es arbitrary: offset mad thesis)
  case (Cons e es)
  obtain page l where e: "e = (page, l)" by force
  show ?case
  proof (cases "offset < l")
    case True
    then show ?thesis
      using Cons.prems e by (auto simp: word_less_nat_alt)
  next
    case False
    then have "unat (offset - l) = unat offset - unat l"
      by (simp add: unat_sub word_le_nat_alt not_less)
    with False Cons.prems(2) e have "sg_lookup es (unat (offset - l)) = Some pa"
      by (simp add: word_less_nat_alt)
    from Cons.IH [OF _ this, of "Some page"] obtain pg o' where
      "access_loop es (Some page, offset - l) = (Some pg, o')" "pa = unat pg + unat o'"
      "\<exists>l. (pg, l) \<in> set es \<and> o' < l" by metis
    with False e Cons.prems(1) show ?thesis by auto
  qed
qed simp



section \<open>The life of a kernel mapping\<close>

lemma page_array_length:
  assumes "table_ok es"
  shows "length (page_array es) = sg_total es div PAGE_SIZE"
  using assms
proof (induction es)
  case (Cons e es)
  obtain page l where e: "e = (page, l)" by force
  have "(unat l + 4095) div PAGE_SIZE = unat l div PAGE_SIZE" and d: "PAGE_SIZE dvd unat l"
    using Cons.prems e by (auto simp: table_ok_def entry_wf_def PAGE_SIZE_def)
  then have "length (page_array (e # es)) = unat l div PAGE_SIZE + length (page_array es)"
    by (simp add: page_array_def e)
  moreover have "length (page_array es) = sg_total es div PAGE_SIZE"
    using Cons by (simp add: table_ok_def)
  moreover have "sg_total (e # es) = unat l + sg_total es" by (simp add: sg_total_def e)
  ultimately show ?case using d by (simp add: div_plus_div_distrib_dvd_left)
qed (simp add: page_array_def sg_total_def)

definition buffer_ok :: "pa_buffer \<Rightarrow> bool" where
  "buffer_ok b \<longleftrightarrow> table_ok (sg_table b) \<and> sg_total (sg_table b) = unat (page_round (pb_size b))"

lemma begin_in_bounds:
  assumes "buffer_ok b"
  shows "pa_dma_buf_begin_cpu_access ok vm b \<noteq> Inl e"
proof -
  have "PAGE_SIZE * length (sg_table b) \<le> sg_total (sg_table b)"
    using assms table_ok_length [of "sg_table b"] by (simp add: buffer_ok_def mult.commute)
  then have "length (sg_table b) \<le> sg_total (sg_table b) div PAGE_SIZE"
    by (simp add: PAGE_SIZE_def less_eq_div_iff_mult_less_eq mult.commute)
  then show ?thesis
    using assms page_array_length [of "sg_table b"]
    by (auto simp: buffer_ok_def pa_dma_buf_begin_cpu_access_def Let_def split: vptr.split)
qed

text \<open>
  A buffer with its clients: the accesses begun and not ended, the successful calls of the vmap
  callback, and the kernel mappings that exist.  \<^verbatim>\<open>vmap\<close> and \<^verbatim>\<open>vmalloc\<close> may succeed or fail at every
  step; an access is ended only by a client that began one.
\<close>

record cpu_state =
  cs_buf :: pa_buffer
  cs_open :: nat
  cs_vmaps :: nat
  cs_mapped :: "u64 list"

inductive cpu_step :: "cpu_state \<Rightarrow> cpu_state \<Rightarrow> bool" where
  begin_ok: "(\<And>p. vm p \<noteq> Verr 0) \<Longrightarrow> pa_dma_buf_begin_cpu_access ok vm (cs_buf s) = Inr (0, b) \<Longrightarrow>
    cpu_step s (s\<lparr>cs_buf := b, cs_open := cs_open s + 1,
      cs_mapped := (if kmap_cnt (cs_buf s) = 0 then cs_mapped s @ [the (vaddr b)] else cs_mapped s)\<rparr>)"
| begin_fails: "pa_dma_buf_begin_cpu_access ok vm (cs_buf s) = Inr (rc, b) \<Longrightarrow> rc \<noteq> 0 \<Longrightarrow>
    cpu_step s (s\<lparr>cs_buf := b\<rparr>)"
| end_unmap: "0 < cs_open s \<Longrightarrow> pa_dma_buf_end_cpu_access (cs_buf s) = (b, Some va) \<Longrightarrow>
    cpu_step s (s\<lparr>cs_buf := b, cs_open := cs_open s - 1,
      cs_mapped := filter (\<lambda>a. Some a \<noteq> va) (cs_mapped s)\<rparr>)"
| end_keep: "0 < cs_open s \<Longrightarrow> pa_dma_buf_end_cpu_access (cs_buf s) = (b, None) \<Longrightarrow>
    cpu_step s (s\<lparr>cs_buf := b, cs_open := cs_open s - 1\<rparr>)"
| vmap_ok: "pa_dma_buf_vmap ok vm (cs_buf s) = Inr (v, b) \<Longrightarrow> kmap_cnt b \<noteq> kmap_cnt (cs_buf s) \<Longrightarrow>
    cpu_step s (s\<lparr>cs_buf := b, cs_vmaps := cs_vmaps s + 1,
      cs_mapped := (if kmap_cnt (cs_buf s) = 0 then cs_mapped s @ [the (vaddr b)] else cs_mapped s)\<rparr>)"
| vunmap: "cpu_step s (s\<lparr>cs_buf := pa_dma_buf_vunmap (cs_buf s)\<rparr>)"

inductive_cases cpu_stepE: "cpu_step s s'"

definition cpu_inv :: "cpu_state \<Rightarrow> bool" where
  "cpu_inv s \<longleftrightarrow> buffer_ok (cs_buf s) \<and> kmap_cnt (cs_buf s) = int (cs_open s + cs_vmaps s) \<and>
     cs_mapped s = (case vaddr (cs_buf s) of None \<Rightarrow> [] | Some a \<Rightarrow> [a]) \<and>
     (vaddr (cs_buf s) = None \<longleftrightarrow> cs_open s + cs_vmaps s = 0)"

lemma begin_cases:
  assumes "pa_dma_buf_begin_cpu_access ok vm b = Inr (rc, b')"
  shows "b' = b \<or> (rc = 0 \<and> (\<exists>a. b' = b\<lparr>vaddr := Some a, kmap_cnt := kmap_cnt b + 1\<rparr> \<and>
    (kmap_cnt b \<noteq> 0 \<longrightarrow> vaddr b = Some a)))"
  using assms
  by (auto simp: pa_dma_buf_begin_cpu_access_def Let_def vptr_of_def
      split: if_splits vptr.splits option.splits)

lemma begin_success:
  assumes "pa_dma_buf_begin_cpu_access ok vm b = Inr (0, b')" and "\<And>p. vm p \<noteq> Verr 0"
  shows "\<exists>a. b' = b\<lparr>vaddr := Some a, kmap_cnt := kmap_cnt b + 1\<rparr> \<and> (kmap_cnt b \<noteq> 0 \<longrightarrow> vaddr b = Some a)"
  using assms
  by (auto simp: pa_dma_buf_begin_cpu_access_def Let_def vptr_of_def
      split: if_splits vptr.splits option.splits)

lemma cpu_inv_mapped:
  assumes "cpu_inv s" and "b' = (cs_buf s)\<lparr>vaddr := Some a, kmap_cnt := kmap_cnt (cs_buf s) + 1\<rparr>"
    and "kmap_cnt (cs_buf s) \<noteq> 0 \<longrightarrow> vaddr (cs_buf s) = Some a"
  defines "m \<equiv> (if kmap_cnt (cs_buf s) = 0 then cs_mapped s @ [the (vaddr b')] else cs_mapped s)"
  shows "cpu_inv (s\<lparr>cs_buf := b', cs_open := cs_open s + 1, cs_mapped := m\<rparr>)"
    and "cpu_inv (s\<lparr>cs_buf := b', cs_vmaps := cs_vmaps s + 1, cs_mapped := m\<rparr>)"
  using assms by (auto simp: cpu_inv_def buffer_ok_def)


definition sample_cpu :: cpu_state where
  "sample_cpu = \<lparr>cs_buf = sample_buffer, cs_open = 0, cs_vmaps = 0, cs_mapped = []\<rparr>"

lemma sample_cpu_begin:
  "cpu_step sample_cpu (sample_cpu\<lparr>cs_buf := sample_buffer\<lparr>vaddr := Some 0xd0000000, kmap_cnt := 1\<rparr>,
     cs_open := 1, cs_mapped := [0xd0000000]\<rparr>)"
proof -
  have "length (page_array (sg_table sample_buffer)) = 18"
    using page_array_length [OF sample_buffer_ok] by (simp add: sample_buffer_def sg_total_def PAGE_SIZE_def)
  moreover have "unat (page_round (pb_size sample_buffer)) = 0x12000"
    by (simp add: sample_buffer_def page_round_unat)
  ultimately have "pa_dma_buf_begin_cpu_access True (\<lambda>_. Vaddr 0xd0000000) (cs_buf sample_cpu) =
      Inr (0, sample_buffer\<lparr>vaddr := Some 0xd0000000, kmap_cnt := 1\<rparr>)"
    by (simp add: pa_dma_buf_begin_cpu_access_def Let_def sample_cpu_def PAGE_SIZE_def)
      (simp add: sample_buffer_def)
  from cpu_step.begin_ok [OF _ this] show ?thesis
    by (simp add: sample_cpu_def sample_buffer_def)
qed


section \<open>Errors\<close>



text \<open>
  PA_ELEMENT_SIZE enumerates the table: successive indices give the lengths of the entries,
  which are positive, and the first index past the end gives 0, the simulator's end mark.
\<close>

theorem element_size_enumerates:
  assumes "pm_files st fd = Some b" and "table_ok (sg_table b)"
  shows "pa_unlocked_ioctl (PA_ELEMENT_SIZE True fd (int i)) st =
    Inr (if i < length (sg_table b) then int (unat (snd (sg_table b ! i))) else 0, ([], None), st) \<and>
    (i < length (sg_table b) \<longrightarrow> 0 < unat (snd (sg_table b ! i)))"
proof -
  have w: "entry_wf (sg_table b ! i)" if "i < length (sg_table b)"
    using assms(2) that by (simp add: table_ok_def list_all_length)
  then have "sint (snd (sg_table b ! i)) = int (unat (snd (sg_table b ! i)))" if "i < length (sg_table b)"
    using that by (intro sint_unat_small) (auto simp: entry_wf_def)
  moreover have "st\<lparr>pm_refs := (pm_refs st)(fd := pm_refs st fd)\<rparr> = st" by simp
  moreover have "i < length (sg_table b) \<longrightarrow> 0 < unat (snd (sg_table b ! i))"
    using w by (auto simp: entry_wf_def)
  ultimately show ?thesis
    using assms(1) by (auto simp: pa_element_size_def pa_fget_def pa_fput_def Let_def)
qed

section \<open>A concrete allocator\<close>

text \<open>A bump allocator over \<^verbatim>\<open>lim\<close> bytes of memory, on which the properties above are applied.\<close>

definition bump_alloc :: "nat \<Rightarrow> nat \<Rightarrow> nat \<Rightarrow> u64 option \<times> nat" where
  "bump_alloc lim ord s =
     (let sz = PAGE_SIZE * 2 ^ ord; p = (s + sz - 1) div sz * sz in
      if p + sz \<le> lim then (Some (of_nat p), p + sz) else (None, s))"

lemma bump_aligned:
  assumes "lim \<le> 2 ^ 40"
  shows "pages_aligned (bump_alloc lim)"
  unfolding pages_aligned_def
proof (intro allI impI)
  fix ord s p s'
  assume a: "bump_alloc lim ord s = (Some p, s')"
  let ?sz = "PAGE_SIZE * 2 ^ ord"
  let ?p = "(s + ?sz - 1) div ?sz * ?sz"
  have p: "p = of_nat ?p" "?p + ?sz \<le> 2 ^ 40" "0 < ?sz"
    using a assms by (auto simp: bump_alloc_def Let_def PAGE_SIZE_def split: if_splits)
  then have "unat p = ?p" by (simp only: p(1)) (rule unat_of_nat_less, simp)
  moreover have "?p < 2 ^ 40" using p(2,3) by linarith
  ultimately show "unat p mod ?sz = 0 \<and> unat p < 2 ^ 40" by (metis mod_mult_self2_is_0)
qed

definition sample_calls :: "nat \<Rightarrow> nat kcalls" where
  "sample_calls lim = \<lparr>kc_alloc_pages = bump_alloc lim, kc_kzalloc = True, kc_kmalloc_table = True,
     kc_kmalloc_info = (\<lambda>_. True), kc_sg_alloc_table = 0, kc_export = True, kc_fd = 5\<rparr>"

definition sample_pmem :: "nat pmem" where
  "sample_pmem = \<lparr>pm_pages = 0x3000, pm_files = (\<lambda>_. None), pm_refs = (\<lambda>_. 0), live_buffers = 0,
     live_tables = 0, live_infos = 0\<rparr>"

lemma sample_loop:
  "alloc_loop (kc_alloc_pages (sample_calls 0x1000000)) (sint (page_round 0x110abc)) 8
     (False, [], pm_pages sample_pmem) = (True, [(0x100000, 8), (0x200000, 4), (0x210000, 0)], 0x211000)"
  by (simp add: sample_calls_def sample_pmem_def page_round_def alloc_loop.simps orders_def PAGE_SIZE_def
      bump_alloc_def Let_def)

theorem create_table_witness:
  "\<exists>b st'. portalmem_dmabuffer_create (sample_calls 0x1000000) 0x110abc sample_pmem = Inr (5, st') \<and>
     pm_files st' = (\<lambda>_. None)(5 := Some b) \<and> sg_total (sg_table b) = 0x111000"
proof -
  have z: "kc_kzalloc (sample_calls 0x1000000)" "kc_kmalloc_table (sample_calls 0x1000000)"
    by (simp_all add: sample_calls_def)
  obtain st' where c: "portalmem_dmabuffer_create (sample_calls 0x1000000) 0x110abc sample_pmem = Inr (5, st')"
    using create_unfold [OF sample_loop z]
    by (auto simp: create_export_def Let_def sample_calls_def list_all_iff)
  have "pages_aligned (kc_alloc_pages (sample_calls 0x1000000))"
    by (simp add: sample_calls_def bump_aligned)
  from create_table [OF this _ c] c show ?thesis by (auto simp: sample_pmem_def)
qed


definition sample_open :: "nat pmem" where
  "sample_open = sample_pmem\<lparr>pm_files := (\<lambda>_. None)(5 := Some sample_buffer)\<rparr>"

lemma sample_open_file: "pm_files sample_open 5 = Some sample_buffer"
  by (simp add: sample_open_def)


theorem element_size_enumerates_witness:
  "pa_unlocked_ioctl (PA_ELEMENT_SIZE True 5 1) sample_open = Inr (0x1000, ([], None), sample_open)"
  using element_size_enumerates [OF sample_open_file sample_buffer_ok, of 1]
  by (simp add: sample_buffer_def)

end
