(* ===== verification/Pcie_Driver.thy ===== *)
theory Pcie_Driver
  imports Dma_Manager Portalmem
begin

text \<open>
  The PCIe driver, \<^verbatim>\<open>drivers/pcieportal/pcieportal.c\<close>: the file operations of a portal device, the
  ioctls (one of which runs \<^verbatim>\<open>send_fd_to_portal\<close> in the kernel), and the life of a board, whose
  activation acquires a chain of kernel resources and unwinds them through goto labels.  BAR 0
  and the portal windows of BAR 2 are bus accesses on a device state; the results of the kernel's
  own functions are arguments.
\<close>

section \<open>Registers\<close>

definition CSR_ID :: nat where "CSR_ID = 0"
definition CSR_TLPDATAFIFO_DEQ :: nat where "CSR_TLPDATAFIFO_DEQ = 768 * 4"
definition CSR_TLPTRACELENGTHREG :: nat where "CSR_TLPTRACELENGTHREG = 774 * 4"
definition CSR_TLPTRACINGREG :: nat where "CSR_TLPTRACINGREG = 775 * 4"
definition CSR_TLPDATABRAMRESPONSESLICE :: "nat \<Rightarrow> nat" where
  "CSR_TLPDATABRAMRESPONSESLICE i = (776 + i) * 4"
definition CSR_TLPPCIEWRADDRREG :: nat where "CSR_TLPPCIEWRADDRREG = 792 * 4"
definition CSR_MSIX_ADDR_LO :: nat where "CSR_MSIX_ADDR_LO = 1024 * 4"
definition CSR_MSIX_ADDR_HI :: nat where "CSR_MSIX_ADDR_HI = 1025 * 4"
definition CSR_MSIX_MSG_DATA :: nat where "CSR_MSIX_MSG_DATA = 1026 * 4"
definition CSR_MSIX_MASKED :: nat where "CSR_MSIX_MASKED = 1027 * 4"

definition NUM_BOARDS :: nat where "NUM_BOARDS = 1"
definition NUM_PORTALS :: nat where "NUM_PORTALS = 16"

definition expected_magic :: u64 where
  "expected_magic = foldr (\<lambda>c acc. push_bit 8 acc OR of_nat (of_char c)) ''Bluespec'' 0"

section \<open>Commands\<close>

text \<open>
  An ioctl command word is (direction, size, type, number); the sizes are those of pointers, as
  the header passes pointer types to the macros.
\<close>

definition ioc :: "u32 \<Rightarrow> u32 \<Rightarrow> u32 \<Rightarrow> u32 \<Rightarrow> u32" where
  "ioc dir ty nr sz = push_bit 30 dir OR push_bit 16 sz OR push_bit 8 ty OR nr"

definition IOC_DIR :: "u32 \<Rightarrow> u32" where "IOC_DIR cmd = drop_bit 30 cmd"
definition IOC_TYPE :: "u32 \<Rightarrow> u32" where "IOC_TYPE cmd = drop_bit 8 cmd AND 0xff"
definition IOC_NR :: "u32 \<Rightarrow> u32" where "IOC_NR cmd = cmd AND 0xff"

definition BNOC_IOC_MAGIC :: u32 where "BNOC_IOC_MAGIC = 0xB5"
definition BNOC_IOC_MAXNR :: u32 where "BNOC_IOC_MAXNR = 12"
definition BNOC_IDENTIFY :: u32 where "BNOC_IDENTIFY = ioc 2 BNOC_IOC_MAGIC 0 8"
definition BNOC_IDENTIFY_PORTAL :: u32 where "BNOC_IDENTIFY_PORTAL = ioc 2 BNOC_IOC_MAGIC 6 8"
definition BNOC_GET_TLP :: u32 where "BNOC_GET_TLP = ioc 2 BNOC_IOC_MAGIC 7 8"
definition BNOC_TRACE :: u32 where "BNOC_TRACE = ioc 3 BNOC_IOC_MAGIC 8 8"
definition PCIE_SEND_FD :: u32 where "PCIE_SEND_FD = ioc 2 BNOC_IOC_MAGIC 12 8"

section \<open>ioctl\<close>

text \<open>
  The caller's argument: whether \<^verbatim>\<open>access_ok\<close> accepts it, whether the copies in and out succeed,
  and the fields read from it.
\<close>

record uarg =
  ua_access_ok :: bool
  ua_from_ok :: bool
  ua_to_ok :: bool
  ua_trace :: u32
  ua_fd :: int
  ua_id :: u32

datatype pcie_out =
    OutNone
  | OutInfo nat nat
  | OutPortalInfo "u32 list"
  | OutTlp "u32 list"
  | OutTrace u32 u32 u32

definition read_msix :: "'b mmio \<Rightarrow> 'b \<Rightarrow> 'b" where
  "read_msix m = fold (\<lambda>i b.
     let b1 = snd (READL m (CSR_MSIX_ADDR_HI + 16 * i) b);
         b2 = snd (READL m (CSR_MSIX_ADDR_LO + 16 * i) b1)
     in snd (READL m (CSR_MSIX_MSG_DATA + 16 * i) b2)) [0..<16]"

text \<open>BNOC_GET_TLP: the slices are read in the order 5 0 4 1 3 2, then the FIFO is dequeued.\<close>

definition get_tlp :: "'b mmio \<Rightarrow> 'b \<Rightarrow> u32 list \<times> 'b" where
  "get_tlp m b =
     (let (t5, b) = READL m (CSR_TLPDATABRAMRESPONSESLICE 5) b;
          (t0, b) = READL m (CSR_TLPDATABRAMRESPONSESLICE 0) b;
          (t4, b) = READL m (CSR_TLPDATABRAMRESPONSESLICE 4) b;
          (t1, b) = READL m (CSR_TLPDATABRAMRESPONSESLICE 1) b;
          (t3, b) = READL m (CSR_TLPDATABRAMRESPONSESLICE 3) b;
          (t2, b) = READL m (CSR_TLPDATABRAMRESPONSESLICE 2) b
      in ([t0, t1, t2, t3, t4, t5], WRITEL m CSR_TLPDATAFIFO_DEQ 0 b))"

text \<open>BNOC_TRACE: the old state and the trace length are read before the new state is written.\<close>

definition set_trace :: "'b mmio \<Rightarrow> u32 \<Rightarrow> 'b \<Rightarrow> (u32 \<times> u32) \<times> 'b" where
  "set_trace m trace b =
     (let b = WRITEL m CSR_TLPPCIEWRADDRREG 0 b;
          (oldTrace, b) = READL m CSR_TLPTRACINGREG b;
          (len, b) = READL m CSR_TLPTRACELENGTHREG b;
          traceLength = (if len = 0xbad0add0 then 2048 else len)
      in ((oldTrace, traceLength), WRITEL m CSR_TLPTRACINGREG trace b))"

text \<open>
  The body of the switch, with \<^verbatim>\<open>err\<close> as its first result and None for the default case.  \<^verbatim>\<open>win\<close> is
  the window of a portal in BAR 2, \<^verbatim>\<open>files\<close> the scatter-gather tables behind open descriptors.
\<close>

definition ioctl_switch ::
    "'b mmio \<Rightarrow> (nat \<Rightarrow> 'd mmio) \<Rightarrow> (int \<Rightarrow> sg_entry list option) \<Rightarrow> nat \<Rightarrow> nat \<Rightarrow> u32 \<Rightarrow> uarg \<Rightarrow>
       'b \<times> 'd \<Rightarrow> ((bool \<times> pcie_out \<times> 'b \<times> 'd) option) kresult" where
  "ioctl_switch m win files board portal cmd arg st =
     (case st of (b, d) \<Rightarrow>
        if cmd = BNOC_IDENTIFY
        then Inr (Some (\<not> ua_to_ok arg, OutInfo board portal, read_msix m b, d))
        else if cmd = BNOC_IDENTIFY_PORTAL
        then Inr (Some (\<not> ua_to_ok arg, OutPortalInfo (replicate 11 0), b, d))
        else if cmd = BNOC_GET_TLP
        then (case get_tlp m b of (tlp, b') \<Rightarrow> Inr (Some (\<not> ua_to_ok arg, OutTlp tlp, b', d)))
        else if cmd = BNOC_TRACE
        then (if \<not> ua_from_ok arg then Inr (Some (True, OutNone, b, d))
              else case set_trace m (ua_trace arg) b of ((old, len), b') \<Rightarrow>
                     Inr (Some (\<not> ua_to_ok arg, OutTrace (ua_trace arg) old len, b', d)))
        else if cmd = PCIE_SEND_FD
        then (if \<not> ua_from_ok arg then Inr (Some (True, OutNone, b, d))
              else case files (ua_fd arg) of
                     None \<Rightarrow> Inl NullDeref
                   | Some sgtable \<Rightarrow>
                       (case send_fd_to_portal_kernel (win portal) sgtable (ua_id arg) d of (err, d') \<Rightarrow>
                          Inr (Some (err < 0, OutNone, b, d'))))
        else Inr None)"

definition pcieportal_ioctl ::
    "'b mmio \<Rightarrow> (nat \<Rightarrow> 'd mmio) \<Rightarrow> (int \<Rightarrow> sg_entry list option) \<Rightarrow> nat \<Rightarrow> nat \<Rightarrow> u32 \<Rightarrow> uarg \<Rightarrow>
       'b \<times> 'd \<Rightarrow> (int \<times> pcie_out \<times> 'b \<times> 'd) kresult" where
  "pcieportal_ioctl m win files board portal cmd arg st =
     (if IOC_TYPE cmd \<noteq> BNOC_IOC_MAGIC then Inr (- ENOTTY, OutNone, st)
      else if IOC_NR cmd > BNOC_IOC_MAXNR then Inr (- ENOTTY, OutNone, st)
      else if IOC_DIR cmd AND 3 \<noteq> 0 \<and> \<not> ua_access_ok arg then Inr (- EFAULT, OutNone, st)
      else case ioctl_switch m win files board portal cmd arg st of
             Inl e \<Rightarrow> Inl e
           | Inr None \<Rightarrow> Inr (- ENOTTY, OutNone, st)
           | Inr (Some (err, out, st')) \<Rightarrow>
               if err then Inr (- EFAULT, OutNone, st') else Inr (0, out, st'))"

lemmas pcie_cmd_defs = BNOC_IDENTIFY_def BNOC_IDENTIFY_PORTAL_def BNOC_GET_TLP_def BNOC_TRACE_def
  PCIE_SEND_FD_def ioc_def BNOC_IOC_MAGIC_def BNOC_IOC_MAXNR_def IOC_TYPE_def IOC_NR_def IOC_DIR_def

section \<open>Opening, polling and mapping a portal\<close>

record pcie_board =
  pb_in_use :: bool
  pb_number :: nat
  pb_irq_num :: nat
  open_count :: u32
  pb_virt :: "nat \<Rightarrow> nat option"
  pb_dma_handle :: "nat \<Rightarrow> u64"

text \<open>\<^verbatim>\<open>minor\<close> is relative to the driver's first minor: board in the high bits, portal in the low four.\<close>

definition pcieportal_open :: "nat \<Rightarrow> (nat \<Rightarrow> pcie_board) \<Rightarrow> int \<times> (nat \<times> nat) \<times> (nat \<Rightarrow> pcie_board)" where
  "pcieportal_open minor boards =
     (let bn = drop_bit 4 minor; pn = minor AND 15; b = boards bn
      in (0, (bn, pn), boards(bn := b\<lparr>open_count := open_count b + 1\<rparr>)))"

definition pcieportal_release :: "nat \<times> nat \<Rightarrow> (nat \<Rightarrow> pcie_board) \<Rightarrow> int \<times> (nat \<Rightarrow> pcie_board)" where
  "pcieportal_release file boards =
     (let b = boards (fst file) in (0, boards(fst file := b\<lparr>open_count := open_count b - 1\<rparr>)))"

text \<open>POLLIN is 1 and POLLRDNORM is 0x40; the interrupt register may not be mapped.\<close>

definition pcieportal_poll :: "'d mmio option \<Rightarrow> 'd \<Rightarrow> u32 \<times> 'd" where
  "pcieportal_poll regs d =
     (case regs of
        None \<Rightarrow> (0, d)
      | Some m \<Rightarrow> (case READL m 0 d of (intr_status, d') \<Rightarrow> (if intr_status \<noteq> 0 then 0x41 else 0, d')))"

text \<open>
  \<^verbatim>\<open>portal_mmap\<close>.  Page offsets below 16 map the registers; larger ones map a coherent buffer,
  allocated on first use and kept with the portal (\<^verbatim>\<open>pb_virt\<close>: the buffer's size, once there is
  one).  The result is the return code and the mapped page frame and length.
\<close>

definition portal_mmap ::
    "u64 \<Rightarrow> (nat \<Rightarrow> u64 option) \<Rightarrow> bool \<Rightarrow> nat \<Rightarrow> nat \<Rightarrow> nat \<Rightarrow> nat \<Rightarrow> pcie_board \<Rightarrow>
       int \<times> (u64 \<times> nat) option \<times> pcie_board" where
  "portal_mmap bar2_start dma_alloc remap_ok portal vm_pgoff vm_start vm_end b =
     (let sz = vm_end - vm_start in
      if vm_pgoff > 2 ^ 52 - 1 then (- EINVAL, None, b)
      else let b' =
             (if vm_pgoff \<ge> 16 \<and> pb_virt b portal = None
              then (case dma_alloc sz of
                      None \<Rightarrow> b
                    | Some h \<Rightarrow> b\<lparr>pb_virt := (pb_virt b)(portal := Some sz),
                                    pb_dma_handle := (pb_dma_handle b)(portal := h)\<rparr>)
              else b);
               off = (if vm_pgoff < 16 then bar2_start + of_nat (PORTAL_BASE_OFFSET * portal)
                      else pb_dma_handle b' portal)
           in if remap_ok then (0, Some (drop_bit 12 off, sz), b') else (- EAGAIN, None, b'))"

section \<open>The life of a board\<close>

text \<open>
  What the kernel holds for a board, the resources the driver acquires and must give back, and
  the register offsets the board's portals point to (\<^verbatim>\<open>portal[dn].regs\<close>, relative to BAR 2).
\<close>

record board_res =
  br_pci_dev :: bool
  br_enabled :: bool
  br_regions :: bool
  br_bars :: "nat list"
  br_msix :: bool
  br_irqs :: "nat list"
  br_master :: bool
  br_cdevs :: "nat list"
  br_drvdata :: bool
  br_regs :: "nat list"

definition no_res :: board_res where
  "no_res = \<lparr>br_pci_dev = False, br_enabled = False, br_regions = False, br_bars = [], br_msix = False,
     br_irqs = [], br_master = False, br_cdevs = [], br_drvdata = False, br_regs = []\<rparr>"

text \<open>
  The kernel's answers during one activation: True where the call succeeds.  \<^verbatim>\<open>pc_iomap1_small\<close> is the
  second attempt at BAR 1, with 8192 bytes; \<^verbatim>\<open>pc_directory_version\<close> is what word 128 of BAR 2 reads.
\<close>

record pci_calls =
  pc_extra :: "nat \<Rightarrow> bool"
  pc_enable :: bool
  pc_request0 :: bool
  pc_iomap :: "nat \<Rightarrow> bool"
  pc_iomap1_small :: bool
  pc_dma_mask :: bool
  pc_msix :: bool
  pc_irq :: "nat \<Rightarrow> bool"
  pc_directory_version :: u32
  pc_cdev :: "nat \<Rightarrow> bool"

text \<open>The labels, each falling through to the next.\<close>

definition err_exit :: "int \<Rightarrow> board_res \<times> 'b \<Rightarrow> int \<times> board_res \<times> 'b" where
  "err_exit err st = (err, (fst st)\<lparr>br_pci_dev := False, br_drvdata := False\<rparr>, snd st)"

definition PCI_DEV_ENABLED_label :: "int \<Rightarrow> board_res \<times> 'b \<Rightarrow> int \<times> board_res \<times> 'b" where
  "PCI_DEV_ENABLED_label err st = err_exit err ((fst st)\<lparr>br_enabled := False\<rparr>, snd st)"

definition BARS_ALLOCATED_label :: "int \<Rightarrow> board_res \<times> 'b \<Rightarrow> int \<times> board_res \<times> 'b" where
  "BARS_ALLOCATED_label err st = PCI_DEV_ENABLED_label err ((fst st)\<lparr>br_regions := False\<rparr>, snd st)"

definition BARS_MAPPED_label :: "int \<Rightarrow> board_res \<times> 'b \<Rightarrow> int \<times> board_res \<times> 'b" where
  "BARS_MAPPED_label err st = BARS_ALLOCATED_label err ((fst st)\<lparr>br_bars := []\<rparr>, snd st)"

definition MSI_ENABLED_label :: "int \<Rightarrow> board_res \<times> 'b \<Rightarrow> int \<times> board_res \<times> 'b" where
  "MSI_ENABLED_label err st = BARS_MAPPED_label err ((fst st)\<lparr>br_msix := False\<rparr>, snd st)"

definition board_deactivate :: "'b mmio \<Rightarrow> int \<Rightarrow> board_res \<times> 'b \<Rightarrow> int \<times> board_res \<times> 'b" where
  "board_deactivate m err st = MSI_ENABLED_label err
     ((fst st)\<lparr>br_cdevs := [], br_master := False, br_irqs := []\<rparr>, WRITEL m CSR_MSIX_MASKED 1 (snd st))"

text \<open>
  The loop over \<^verbatim>\<open>dn\<close> stops after the first failure of \<^verbatim>\<open>cdev_add\<close>; the register pointer of a portal is
  set before its device is added, when BAR 2 is mapped.
\<close>

definition add_cdevs :: "bool \<Rightarrow> u32 \<Rightarrow> (nat \<Rightarrow> bool) \<Rightarrow> int \<times> nat list \<times> nat list" where
  "add_cdevs bar2 version ok =
     (let ds = takeWhile ok [0..<NUM_PORTALS];
          reg_offset = (if bar2 \<and> version \<noteq> 1 then 0 else 0xc000)
      in (if length ds = NUM_PORTALS then 0 else - EFAULT, ds,
          if bar2 then map (\<lambda>dn. 0x10000 * dn + reg_offset) [0..<min NUM_PORTALS (length ds + 1)] else []))"

text \<open>Tracing is switched on and the identification read, high word first, through BAR 0.\<close>

definition read_magic :: "'b mmio \<Rightarrow> 'b \<Rightarrow> u64 \<times> 'b" where
  "read_magic m b =
     (let b = WRITEL m CSR_TLPPCIEWRADDRREG 0 b;
          b = WRITEL m CSR_TLPTRACINGREG 1 b;
          (hi, b) = READL m (CSR_ID + 4) b;
          (lo, b) = READL m CSR_ID b
      in (join32 hi lo, b))"

definition board_activate :: "'b mmio \<Rightarrow> bool \<Rightarrow> pci_calls \<Rightarrow> board_res \<times> 'b \<Rightarrow> int \<times> board_res \<times> 'b" where
  "board_activate m activate k st =
     (case st of (r0, b0) \<Rightarrow>
      if \<not> list_all (pc_extra k) [0..<NUM_PORTALS] then err_exit (- EFAULT) (r0, b0)
      else if \<not> activate then board_deactivate m 0 (r0, b0)
      else
        let r1 = r0\<lparr>br_pci_dev := True\<rparr> in
        if \<not> pc_enable k then err_exit (- EFAULT) (r1, b0)
        else let r2 = r1\<lparr>br_enabled := True\<rparr> in
        if \<not> pc_request0 k then PCI_DEV_ENABLED_label (- EBUSY) (r2, b0)
        else let bars = filter (\<lambda>i. pc_iomap k i \<or> i = 1 \<and> pc_iomap1_small k) [0, 1, 2];
                 r3 = r2\<lparr>br_regions := True, br_bars := bars\<rparr> in
        if \<not> pc_iomap k 0 then BARS_ALLOCATED_label (- EFAULT) (r3, b0)
        else case read_magic m b0 of (magic_num, b1) \<Rightarrow>
        if magic_num \<noteq> expected_magic then BARS_MAPPED_label (- EINVAL) (r3, b1)
        else if \<not> pc_dma_mask k then BARS_MAPPED_label (- EIO) (r3, b1)
        else if \<not> pc_msix k then BARS_MAPPED_label (- EFAULT) (r3, b1)
        else let irqs = takeWhile (pc_irq k) [0..<16];
                 r4 = r3\<lparr>br_msix := True, br_irqs := irqs\<rparr> in
        if length irqs < 16 then MSI_ENABLED_label (- EBUSY) (r4, b1)
        else let b2 = WRITEL m CSR_MSIX_MASKED 0 b1 in
        case add_cdevs (pc_iomap k 2) (pc_directory_version k) (pc_cdev k) of (err, cdevs, regs) \<Rightarrow>
          let r5 = r4\<lparr>br_master := True, br_cdevs := cdevs, br_regs := regs, br_drvdata := True\<rparr> in
          if err = 0 then (0, r5, b2) else board_deactivate m err (r5, b2))"

definition BLUESPEC_VENDOR_ID :: u16 where "BLUESPEC_VENDOR_ID = 0x1be7"
definition XBSV_DEVICE_ID :: u16 where "XBSV_DEVICE_ID = 0xc100"

text \<open>
  \<^verbatim>\<open>board_map\<close> has one entry more than NUM_BOARDS, so the search reads within it.  The board's entry
  is cleared before it is activated.
\<close>

definition pcieportal_probe :: "'b mmio \<Rightarrow> u16 \<Rightarrow> u16 \<Rightarrow> pci_calls \<Rightarrow> board_res list \<times> 'b \<Rightarrow> int \<times> board_res list \<times> 'b" where
  "pcieportal_probe m vendor device k st =
     (case st of (boards, b) \<Rightarrow>
      if vendor \<noteq> BLUESPEC_VENDOR_ID \<or> device \<noteq> XBSV_DEVICE_ID then (- EINVAL, boards, b)
      else let board_number = length (takeWhile br_pci_dev (take NUM_BOARDS boards)) in
           if board_number \<ge> NUM_BOARDS then (- EBUSY, boards, b)
           else case board_activate m True k (no_res, b) of
                  (err, r, b') \<Rightarrow> (err, boards[board_number := r], b'))"

definition pcieportal_remove :: "'b mmio \<Rightarrow> pci_calls \<Rightarrow> nat \<Rightarrow> board_res list \<times> 'b \<Rightarrow> board_res list \<times> 'b" where
  "pcieportal_remove m k n st =
     (case st of (boards, b) \<Rightarrow>
      if \<not> br_drvdata (boards ! n) then (boards, b)
      else case board_activate m False k (boards ! n, b) of (_, r, b') \<Rightarrow> (boards[n := r], b'))"

text \<open>Module load and unload: the class and the device numbers the module holds afterwards.\<close>

definition pcieportal_init :: "bool \<Rightarrow> int \<Rightarrow> bool \<Rightarrow> int \<Rightarrow> int \<times> bool \<times> bool" where
  "pcieportal_init class_ok class_err chrdev_ok register_status =
     (if \<not> class_ok then (class_err, False, False)
      else if \<not> chrdev_ok then (- 1, False, False)
      else if register_status < 0 then (register_status, False, True)
      else (0, True, True))"

definition pcieportal_exit :: "bool \<times> bool \<Rightarrow> bool \<times> bool" where
  "pcieportal_exit held = (False, False)"

lemmas label_defs = err_exit_def PCI_DEV_ENABLED_label_def BARS_ALLOCATED_label_def
  BARS_MAPPED_label_def MSI_ENABLED_label_def board_deactivate_def

section \<open>Properties\<close>

definition all_res :: "pci_calls \<Rightarrow> board_res" where
  "all_res k = \<lparr>br_pci_dev = True, br_enabled = True, br_regions = True,
     br_bars = filter (\<lambda>i. pc_iomap k i \<or> i = 1 \<and> pc_iomap1_small k) [0, 1, 2],
     br_msix = True, br_irqs = [0..<16], br_master = True, br_cdevs = [0..<16], br_drvdata = True,
     br_regs = (if pc_iomap k 2
       then map (\<lambda>dn. 0x10000 * dn + (if pc_directory_version k = 1 then 0xc000 else 0)) [0..<16] else [])\<rparr>"

lemma takeWhile_16:
  fixes P :: "nat \<Rightarrow> bool"
  shows "\<not> length (takeWhile P [0..<16]) < 16 \<Longrightarrow> takeWhile P [0..<16] = [0..<16]"
    and "length (takeWhile P [0..<16]) = 16 \<Longrightarrow> takeWhile P [0..<16] = [0..<16]"
    and "list_all P [0..<16] \<Longrightarrow> takeWhile P [0..<16] = [0..<16]"
proof -
  have tw: "takeWhile P xs = xs" if "\<not> length (takeWhile P xs) < length xs" for xs
    using that by (metis le_antisym length_takeWhile_le not_less takeWhile_eq_take take_all_iff order_refl)
  show "\<not> length (takeWhile P [0..<16]) < 16 \<Longrightarrow> takeWhile P [0..<16] = [0..<16]"
    and "length (takeWhile P [0..<16]) = 16 \<Longrightarrow> takeWhile P [0..<16] = [0..<16]"
    using tw [of "[0..<16]"] by simp_all
  show "list_all P [0..<16] \<Longrightarrow> takeWhile P [0..<16] = [0..<16]"
    by (simp add: list_all_iff takeWhile_eq_all_conv)
qed

lemma add_cdevs_done:
  "add_cdevs bar2 v ok = (0, cdevs, regs) \<Longrightarrow> cdevs = [0..<16] \<and>
     regs = (if bar2 then map (\<lambda>dn. 0x10000 * dn + (if v = 1 then 0xc000 else 0)) [0..<16] else [])"
proof -
  assume a: "add_cdevs bar2 v ok = (0, cdevs, regs)"
  then have len: "length (takeWhile ok [0..<16]) = 16"
    by (auto simp: add_cdevs_def NUM_PORTALS_def Let_def split: if_splits)
  show ?thesis
    using a unfolding add_cdevs_def NUM_PORTALS_def Let_def len takeWhile_16(2) [OF len] by auto
qed

lemma add_cdevs_failed: "add_cdevs bar2 v ok = (err, cdevs, regs) \<Longrightarrow> err \<noteq> 0 \<Longrightarrow> err < 0"
  by (auto simp: add_cdevs_def Let_def split: if_splits)

lemma activate_done:
  assumes "board_activate m True k (no_res, b) = (0, r, b')"
  shows "list_all (pc_extra k) [0..<NUM_PORTALS] \<and> r = all_res k \<and> pc_iomap k 0 \<and>
    fst (read_magic m b) = expected_magic \<and> b' = WRITEL m CSR_MSIX_MASKED 0 (snd (read_magic m b))"
proof -
  obtain err cdevs regs where a: "add_cdevs (pc_iomap k 2) (pc_directory_version k) (pc_cdev k) = (err, cdevs, regs)"
    by (rule prod_cases3)
  obtain magic b1 where g: "read_magic m b = (magic, b1)" by force
  have "err = 0 \<and> length (takeWhile (pc_irq k) [0..<16]) \<ge> 16 \<and> list_all (pc_extra k) [0..<NUM_PORTALS] \<and>
      pc_iomap k 0 \<and> magic = expected_magic \<and> b' = WRITEL m CSR_MSIX_MASKED 0 b1 \<and>
      r = (all_res k)\<lparr>br_irqs := takeWhile (pc_irq k) [0..<16], br_cdevs := cdevs, br_regs := regs\<rparr>"
    using assms a g
    by (simp add: board_activate_def label_defs Let_def no_res_def all_res_def split: if_splits) blast+
  then show ?thesis
    using add_cdevs_done a takeWhile_16(1) [of "pc_irq k"] g by (force simp: all_res_def)
qed

lemma activate_failed:
  assumes "board_activate m True k (no_res, b) = (err, r, b')" and "err \<noteq> 0"
  shows "err < 0 \<and> r = no_res\<lparr>br_bars := br_bars r, br_irqs := br_irqs r, br_regs := br_regs r\<rparr> \<and>
    (pc_iomap k 0 \<longrightarrow> br_bars r = []) \<and> (\<not> pc_iomap k 0 \<longrightarrow> b' = b) \<and>
    (list_all (pc_irq k) [0..<16] \<longrightarrow> br_irqs r = [])"
proof -
  obtain e cdevs regs where a: "add_cdevs (pc_iomap k 2) (pc_directory_version k) (pc_cdev k) = (e, cdevs, regs)"
    by (rule prod_cases3)
  obtain magic b1 where g: "read_magic m b = (magic, b1)" by force
  have all: "\<not> length (takeWhile (pc_irq k) [0..<16]) < 16" if "list_all (pc_irq k) [0..<16]"
    unfolding takeWhile_16(3) [OF that] by simp
  show ?thesis
    using assms a g add_cdevs_failed [OF a] all
    by (simp add: board_activate_def label_defs Let_def no_res_def split: if_splits) auto
qed

text \<open>
  C16.  Activation is all or nothing, but for two leaks.  When it returns 0 the board holds all
  its resources, the identification matched and the interrupts are unmasked; when it fails it
  returns a negative code and holds none, except the mappings of BARs 1 and 2 when BAR 0 could not
  be mapped, and the interrupts already requested when a later one was refused.  No register is
  touched when BAR 0 could not be mapped.
\<close>

theorem board_activate_outcome:
  "case board_activate m True k (no_res, b) of (err, r, b') \<Rightarrow>
     if err = 0
     then r = all_res k \<and> pc_iomap k 0 \<and> fst (read_magic m b) = expected_magic \<and>
       b' = WRITEL m CSR_MSIX_MASKED 0 (snd (read_magic m b))
     else err < 0 \<and> r = no_res\<lparr>br_bars := br_bars r, br_irqs := br_irqs r, br_regs := br_regs r\<rparr> \<and>
       (pc_iomap k 0 \<longrightarrow> br_bars r = []) \<and> (\<not> pc_iomap k 0 \<longrightarrow> b' = b) \<and>
       (list_all (pc_irq k) [0..<16] \<longrightarrow> br_irqs r = [])"
proof -
  obtain err r b' where e: "board_activate m True k (no_res, b) = (err, r, b')" by (rule prod_cases3)
  show ?thesis
    using activate_done [of m k b r b'] activate_failed [OF e] by (simp add: e)
qed

definition good_calls :: pci_calls where
  "good_calls = \<lparr>pc_extra = (\<lambda>_. True), pc_enable = True, pc_request0 = True, pc_iomap = (\<lambda>_. True),
     pc_iomap1_small = True, pc_dma_mask = True, pc_msix = True,
     pc_irq = (\<lambda>_. True), pc_directory_version = 2, pc_cdev = (\<lambda>_. True)\<rparr>"

text \<open>A BAR 0 that identifies itself: plain registers with the magic number in the first two.\<close>

definition csr_mmio :: "(nat \<Rightarrow> u32) mmio" where
  "csr_mmio = \<lparr>mm_read = (\<lambda>a f. (f a, f)), mm_write = (\<lambda>a v f. f(a := v))\<rparr>"

definition sample_bar0 :: "nat \<Rightarrow> u32" where
  "sample_bar0 = (\<lambda>_. 0)(CSR_ID := lo32 expected_magic, CSR_ID + 4 := hi32 expected_magic)"

lemma sample_magic: "fst (read_magic csr_mmio sample_bar0) = expected_magic"
  by (simp add: read_magic_def csr_mmio_def READL_def WRITEL_def sample_bar0_def Let_def CSR_ID_def
      CSR_TLPPCIEWRADDRREG_def CSR_TLPTRACINGREG_def)

theorem board_activate_outcome_witness:
  "let r = board_activate csr_mmio True (good_calls\<lparr>pc_irq := \<lambda>i. i < 3\<rparr>) (no_res, sample_bar0)
   in fst r < 0 \<and> br_irqs (fst (snd r)) = [0, 1, 2] \<and> br_bars (fst (snd r)) = []"
proof -
  let ?k = "good_calls\<lparr>pc_irq := \<lambda>i. i < 3\<rparr>"
  obtain magic b1 where g: "read_magic csr_mmio sample_bar0 = (magic, b1)" by force
  have e: "board_activate csr_mmio True ?k (no_res, sample_bar0) = (- EBUSY, no_res\<lparr>br_irqs := [0, 1, 2]\<rparr>, b1)"
    using g sample_magic
    by (simp add: board_activate_def good_calls_def label_defs Let_def no_res_def NUM_PORTALS_def
        list_all_iff upt_rec)
  show ?thesis using board_activate_outcome [of ?k csr_mmio sample_bar0] unfolding Let_def e by (simp add: no_res_def)
qed

text \<open>
  C17.  Probe and remove are inverse: after a probe that succeeded, removing the device gives back
  every resource (only the portals' register pointers keep their old values, which the next probe
  clears) and masks the interrupts; and a second probe while the board is in use is refused with
  -EBUSY.
\<close>

theorem probe_remove:
  assumes "boards = [no_res, extra]" and "pcieportal_probe m v dv k (boards, b) = (0, boards', b')"
  shows "pcieportal_remove m k 0 (boards', b') =
      ([no_res\<lparr>br_regs := br_regs (all_res k)\<rparr>, extra], WRITEL m CSR_MSIX_MASKED 1 b') \<and>
    pcieportal_probe m BLUESPEC_VENDOR_ID XBSV_DEVICE_ID k' (boards', b') = (- EBUSY, boards', b')"
proof -
  obtain r where a: "board_activate m True k (no_res, b) = (0, r, b')" and bs: "boards' = [r, extra]"
    using assms by (auto simp: pcieportal_probe_def NUM_BOARDS_def no_res_def Let_def
        split: if_splits prod.splits)
  from activate_done [OF a] bs show ?thesis
    by (simp add: pcieportal_remove_def board_activate_def label_defs no_res_def all_res_def pcieportal_probe_def
        NUM_BOARDS_def Let_def)
qed

theorem probe_remove_witness:
  "\<exists>boards' b'. pcieportal_probe csr_mmio 0x1be7 0xc100 good_calls ([no_res, no_res], sample_bar0) = (0, boards', b') \<and>
     map br_irqs (fst (pcieportal_remove csr_mmio good_calls 0 (boards', b'))) = [[], []]"
proof -
  obtain magic b1 where g: "read_magic csr_mmio sample_bar0 = (magic, b1)" by force
  have tw: "takeWhile (\<lambda>_. True) xs = xs" for xs :: "nat list" by (induction xs) simp_all
  obtain boards' b' where
    p: "pcieportal_probe csr_mmio 0x1be7 0xc100 good_calls ([no_res, no_res], sample_bar0) = (0, boards', b')"
    using sample_magic g
    by (simp add: pcieportal_probe_def BLUESPEC_VENDOR_ID_def XBSV_DEVICE_ID_def NUM_BOARDS_def
        board_activate_def good_calls_def no_res_def add_cdevs_def NUM_PORTALS_def list_all_iff Let_def tw)
  with probe_remove [OF refl p] show ?thesis by (simp add: no_res_def)
qed

text \<open>
  C18.  Every ioctl that is not one of the driver's commands is refused with -ENOTTY, and every
  refused access with -EFAULT, before any register is touched; the five commands of the driver
  all pass the sanity checks.
\<close>

theorem ioctl_refused:
  "(IOC_TYPE cmd \<noteq> BNOC_IOC_MAGIC \<or> IOC_NR cmd > BNOC_IOC_MAXNR \<longrightarrow>
      pcieportal_ioctl m win files board portal cmd arg st = Inr (- ENOTTY, OutNone, st)) \<and>
   (cmd \<in> {BNOC_IDENTIFY, BNOC_IDENTIFY_PORTAL, BNOC_GET_TLP, BNOC_TRACE, PCIE_SEND_FD} \<longrightarrow>
      IOC_TYPE cmd = BNOC_IOC_MAGIC \<and> IOC_NR cmd \<le> BNOC_IOC_MAXNR \<and>
      (\<not> ua_access_ok arg \<longrightarrow>
        pcieportal_ioctl m win files board portal cmd arg st = Inr (- EFAULT, OutNone, st))) \<and>
   (cmd \<notin> {BNOC_IDENTIFY, BNOC_IDENTIFY_PORTAL, BNOC_GET_TLP, BNOC_TRACE, PCIE_SEND_FD} \<and> ua_access_ok arg \<longrightarrow>
      pcieportal_ioctl m win files board portal cmd arg st = Inr (- ENOTTY, OutNone, st))"
proof (intro conjI impI)
  show "pcieportal_ioctl m win files board portal cmd arg st = Inr (- ENOTTY, OutNone, st)"
    if "IOC_TYPE cmd \<noteq> BNOC_IOC_MAGIC \<or> IOC_NR cmd > BNOC_IOC_MAXNR"
    using that by (simp add: pcieportal_ioctl_def)
  show "pcieportal_ioctl m win files board portal cmd arg st = Inr (- ENOTTY, OutNone, st)"
    if "cmd \<notin> {BNOC_IDENTIFY, BNOC_IDENTIFY_PORTAL, BNOC_GET_TLP, BNOC_TRACE, PCIE_SEND_FD} \<and> ua_access_ok arg"
    using that by (simp add: pcieportal_ioctl_def ioctl_switch_def split: prod.splits)
  assume c: "cmd \<in> {BNOC_IDENTIFY, BNOC_IDENTIFY_PORTAL, BNOC_GET_TLP, BNOC_TRACE, PCIE_SEND_FD}"
  then show t: "IOC_TYPE cmd = BNOC_IOC_MAGIC" and n: "IOC_NR cmd \<le> BNOC_IOC_MAXNR"
    by (auto simp: pcie_cmd_defs)
  have "IOC_DIR cmd AND 3 \<noteq> 0" using c by (auto simp: pcie_cmd_defs)
  then show "\<not> ua_access_ok arg \<Longrightarrow>
      pcieportal_ioctl m win files board portal cmd arg st = Inr (- EFAULT, OutNone, st)"
    using t n by (simp add: pcieportal_ioctl_def)
qed

theorem ioctl_refused_witness:
  "pcieportal_ioctl dma_mmio (\<lambda>_. dma_mmio) (\<lambda>_. None) 0 1 BNOC_TRACE
     \<lparr>ua_access_ok = False, ua_from_ok = True, ua_to_ok = True, ua_trace = 1, ua_fd = 0, ua_id = 0\<rparr>
     (hw_reset mmu_zero, hw_reset mmu_zero) = Inr (- 14, OutNone, hw_reset mmu_zero, hw_reset mmu_zero)"
  using ioctl_refused [of BNOC_TRACE dma_mmio "\<lambda>_. dma_mmio" "\<lambda>_. None" 0 1
      "\<lparr>ua_access_ok = False, ua_from_ok = True, ua_to_ok = True, ua_trace = 1, ua_fd = 0, ua_id = 0\<rparr>"
      "(hw_reset mmu_zero, hw_reset mmu_zero)"]
  by simp

section \<open>The driver as a sender\<close>

text \<open>\<^verbatim>\<open>ioctl(fpga_fd, PCIE_SEND_FD, &sendFd)\<close> as the manager sees it: -1 in user space on an error.\<close>

definition pcie_send :: "'b mmio \<Rightarrow> (nat \<Rightarrow> 'd mmio) \<Rightarrow> (int \<Rightarrow> sg_entry list option) \<Rightarrow> nat \<Rightarrow> ('b \<times> 'd) sender" where
  "pcie_send m win files portal fd oid st =
     (case pcieportal_ioctl m win files 0 portal PCIE_SEND_FD
             \<lparr>ua_access_ok = True, ua_from_ok = True, ua_to_ok = True, ua_trace = 0, ua_fd = fd, ua_id = oid\<rparr> st of
        Inl e \<Rightarrow> Inl e
      | Inr (rc, _, st') \<Rightarrow> Inr (if rc < 0 then - 1 else rc, st'))"

lemma PCIE_SEND_FD_distinct:
  "IOC_TYPE PCIE_SEND_FD = BNOC_IOC_MAGIC" "\<not> IOC_NR PCIE_SEND_FD > BNOC_IOC_MAXNR"
  "PCIE_SEND_FD \<noteq> BNOC_IDENTIFY" "PCIE_SEND_FD \<noteq> BNOC_IDENTIFY_PORTAL" "PCIE_SEND_FD \<noteq> BNOC_GET_TLP"
  "PCIE_SEND_FD \<noteq> BNOC_TRACE"
  by (simp_all add: pcie_cmd_defs)

lemma pcie_send_eq:
  "pcie_send m win files portal fd oid (b, d) =
     (case files fd of
        None \<Rightarrow> Inl NullDeref
      | Some es \<Rightarrow> Inr (if sint oid < 0 then - 1 else 0,
          (b, snd (send_fd_to_portal_kernel (win portal) es oid d))))"
  by (simp add: pcie_send_def pcieportal_ioctl_def ioctl_switch_def PCIE_SEND_FD_distinct
      send_fd_to_portal_kernel_def split: option.split)

text \<open>The device is BAR 0 together with the hardware of the configuration portal.\<close>

interpretation pcie: dma_sender "pcie_send m (\<lambda>_. dma_mmio) files portal"
    "hw_confs_settled \<circ> snd" "hw_ok \<circ> snd"
  for m :: "'b mmio" and files portal
proof unfold_locales
  fix d d' :: "'b \<times> dma_hw" and fd :: int and oid :: u32 and rc :: int
  assume ok: "(hw_ok \<circ> snd) d"
  obtain b h where d: "d = (b, h)" by force
  have ok': "hw_ok h" using ok d by simp
  note K = kernel_result [OF ok']
  have S: "\<exists>es. d' = (b, snd (send_fd_to_portal_kernel dma_mmio es oid h)) \<and> (0 \<le> sint oid \<longrightarrow> r = 0)"
    if "pcie_send m (\<lambda>_. dma_mmio) files portal fd oid d = Inr (r, d')" for r
    using that by (auto simp: d pcie_send_eq split: if_splits option.splits)
  show "(hw_ok \<circ> snd) d'" if "pcie_send m (\<lambda>_. dma_mmio) files portal fd oid d = Inr (rc, d')"
    using S [OF that] K(2) by auto
  show "(hw_confs_settled \<circ> snd) d' = (hw_confs_settled \<circ> snd) d @ [ucast oid]"
    if "pcie_send m (\<lambda>_. dma_mmio) files portal fd oid d = Inr (0, d')"
    using S [OF that] K(4) d by auto
  show "(hw_confs_settled \<circ> snd) d' = (hw_confs_settled \<circ> snd) d"
    if "pcie_send m (\<lambda>_. dma_mmio) files portal fd oid d = Inr (rc, d')" "rc \<noteq> 0" "0 \<le> sint oid"
    using S [OF that(1)] that by auto
qed

text \<open>
  C19.  Over the PCIe driver, \<^verbatim>\<open>DmaManager_reference\<close> returns an id only when the device has
  acknowledged it: in every state reachable from a fresh manager in which the caller is not
  waiting, every configuration response has been delivered; and a waiting caller can always
  make progress.
\<close>

theorem reference_acknowledged:
  assumes "(ref_step (reference_ioctl (pcie_send m (\<lambda>_. dma_mmio) files portal)) (hw_confs_settled \<circ> snd))\<^sup>*\<^sup>* s s'"
    and "ds_mgr s = fst (DmaManager_init False fd g)" and "ds_caller s = Idle" and "ds_calls s = 0"
    and "hw_ok (snd (ds_dev s))" and "hw_confs_settled (snd (ds_dev s)) = []" and "ds_delivered s = 0"
    and "ds_calls s' \<le> 2 ^ 31"
  shows "((\<nexists>rc. ds_caller s' = Waiting rc) \<longrightarrow>
      ds_delivered s' = length (hw_confs_settled (snd (ds_dev s')))) \<and>
    (\<forall>rc. ds_caller s' = Waiting rc \<longrightarrow>
      (\<exists>t. ref_step (reference_ioctl (pcie_send m (\<lambda>_. dma_mmio) files portal)) (hw_confs_settled \<circ> snd) s' t \<and>
         (ds_caller t = Done rc \<or> confSem (ds_mgr t) = 1 \<and> ds_caller t = Waiting rc)))"
proof -
  have "pcie.sys_inv s"
    using assms(2-7) by (simp add: pcie.sys_inv_def DmaManager_init_def)
  from pcie.sys_inv_reachable [OF assms(1) this assms(8)] have "pcie.sys_inv s'" .
  from pcie.acknowledged [OF this] pcie.waiting_progress [OF this, of _ m files portal] show ?thesis by auto
qed

definition sample_pcie_sys :: "(dma_hw \<times> dma_hw) dma_sys" where
  "sample_pcie_sys = \<lparr>ds_dev = (hw_reset mmu_zero, hw_reset mmu_zero),
     ds_mgr = fst (DmaManager_init False 3 (- 1)), ds_caller = Idle, ds_delivered = 0, ds_results = [],
     ds_calls = 0\<rparr>"

theorem reference_acknowledged_witness:
  "\<exists>s' t. ref_step (reference_ioctl (pcie_send dma_mmio (\<lambda>_. dma_mmio) (\<lambda>_. Some sample_list) 1))
       (hw_confs_settled \<circ> snd) sample_pcie_sys s' \<and> ds_caller s' = Waiting 0 \<and>
     ref_step (reference_ioctl (pcie_send dma_mmio (\<lambda>_. dma_mmio) (\<lambda>_. Some sample_list) 1))
       (hw_confs_settled \<circ> snd) s' t"
proof -
  let ?ref = "reference_ioctl (pcie_send dma_mmio (\<lambda>_. dma_mmio) (\<lambda>_. Some sample_list) 1)"
  obtain p d where r: "?ref 9 (ds_mgr sample_pcie_sys, ds_dev sample_pcie_sys) = Inr (Waiting 0, p, d)"
    by (simp add: reference_ioctl_def Let_def pcie_send_eq sample_pcie_sys_def DmaManager_init_def)
  let ?s = "sample_pcie_sys\<lparr>ds_caller := Waiting 0, ds_mgr := p, ds_dev := d, ds_calls := ds_calls sample_pcie_sys + 1\<rparr>"
  have st: "ref_step ?ref (hw_confs_settled \<circ> snd) sample_pcie_sys ?s"
    by (rule ref_step.call [where reference = ?ref, OF _ r]) (simp add: sample_pcie_sys_def)
  have "\<exists>t. ref_step ?ref (hw_confs_settled \<circ> snd) ?s t"
    using reference_acknowledged [OF r_into_rtranclp [of "ref_step ?ref (hw_confs_settled \<circ> snd)", OF st],
        of 3 "- 1"]
    by (auto simp: sample_pcie_sys_def hw_ok_reset)
  then obtain t where t: "ref_step ?ref (hw_confs_settled \<circ> snd) ?s t" by blast
  show ?thesis by (rule exI [of _ ?s], rule exI [of _ t]) (use st t in simp)
qed

text \<open>
  The coherent buffer of a portal is allocated once, with the size of the first mapping, and
  a later \<^verbatim>\<open>mmap\<close> does not look at that size: a larger request succeeds and maps pages past the end
  of the buffer.
\<close>

theorem mmap_outgrows_buffer:
  assumes "16 \<le> vm_pgoff" and "vm_pgoff < 2 ^ 52" and "pb_virt b portal = None"
    and "dma_alloc n = Some h" and "n < m"
  shows "case portal_mmap bar2 dma_alloc True portal vm_pgoff start (start + n) b of (rc, mapped, b') \<Rightarrow>
    rc = 0 \<and> mapped = Some (drop_bit 12 h, n) \<and>
    portal_mmap bar2 dma_alloc True portal vm_pgoff start' (start' + m) b' = (0, Some (drop_bit 12 h, m), b')"
  using assms by (simp add: portal_mmap_def Let_def)

theorem mmap_outgrows_buffer_witness:
  "let b = \<lparr>pb_in_use = True, pb_number = 0, pb_irq_num = 0, open_count = 1, pb_virt = \<lambda>_. None,
        pb_dma_handle = \<lambda>_. 0\<rparr>;
      b' = snd (snd (portal_mmap 0xf0000000 (\<lambda>_. Some 0x7000000) True 1 16 0x400000 0x401000 b))
   in portal_mmap 0xf0000000 (\<lambda>_. Some 0x7000000) True 1 16 0x500000 0x509000 b' = (0, Some (0x7000, 0x9000), b')"
  using mmap_outgrows_buffer [of 16 "\<lparr>pb_in_use = True, pb_number = 0, pb_irq_num = 0, open_count = 1,
      pb_virt = \<lambda>_. None, pb_dma_handle = \<lambda>_. 0\<rparr>" 1 "\<lambda>_. Some 0x7000000" "0x1000" "0x7000000" "0x9000"
      "0xf0000000" "0x500000" "0x400000"]
  by (simp add: Let_def split: prod.splits)

end
