(* ===== verification/Portal_Hw.thy ===== *)
theory Portal_Hw
  imports Portal_Io
begin

text \<open>
  The indication side of a portal in hardware, from \<^verbatim>\<open>bsv/MemPortal.bsv\<close>: the control registers of
  mkPortalCtrlMemSlave, the read window of mkPipeOutMemSlave, and the address multiplexer of
  mkMemPortal (the control slave first, then the request channels, then the indication channels,
  256 bytes each).  Reading the data register of an empty channel blocks the bus for ever; the
  flag \<^verbatim>\<open>ih_stuck\<close> records it.
\<close>

record ind_hw =
  ih_nreq :: nat
  ih_nchan :: nat
  ih_queue :: "nat \<Rightarrow> u32 list"
  ih_enable :: bool
  ih_stuck :: bool

text \<open>The loop that computes \<^verbatim>\<open>readyChannel\<close>: the last ready channel wins.\<close>

fun ready_channel :: "nat \<Rightarrow> (nat \<Rightarrow> u32 list) \<Rightarrow> nat option" where
  "ready_channel 0 q = None"
| "ready_channel (Suc n) q = (if q n \<noteq> [] then Some n else ready_channel n q)"

definition ih_status :: "ind_hw \<Rightarrow> bool" where
  "ih_status s \<longleftrightarrow> ready_channel (ih_nchan s) (ih_queue s) \<noteq> None"

definition ih_interrupt :: "ind_hw \<Rightarrow> bool" where
  "ih_interrupt s \<longleftrightarrow> ih_status s \<and> ih_enable s"

definition ih_pop :: "nat \<Rightarrow> ind_hw \<Rightarrow> u32 \<times> ind_hw" where
  "ih_pop c s =
     (case ih_queue s c of
        [] \<Rightarrow> (0, s\<lparr>ih_stuck := True\<rparr>)
      | w # ws \<Rightarrow> (w, s\<lparr>ih_queue := (ih_queue s)(c := ws)\<rparr>))"

definition ih_read :: "nat \<Rightarrow> ind_hw \<Rightarrow> u32 \<times> ind_hw" where
  "ih_read a s =
     (if a < 64
      then (if a = 0 then of_bool (ih_status s)
            else if a = 1 then of_bool (ih_enable s)
            else if a = 2 then 7
            else if a = 3 \<or> a = 4 \<or> a = 5 then 0
            else if a = 6
            then (case ready_channel (ih_nchan s) (ih_queue s) of None \<Rightarrow> 0 | Some c \<Rightarrow> of_nat c + 1)
            else 0x05a05a0, s)
      else let w = a div 64 - 1 in
        if ih_nreq s \<le> w \<and> w < ih_nreq s + ih_nchan s
        then (if a mod 64 = 0 then ih_pop (w - ih_nreq s) s
              else if a mod 64 = 1 then (of_bool (ih_queue s (w - ih_nreq s) \<noteq> []), s) else (0, s))
        else (0, s))"

definition ih_write :: "nat \<Rightarrow> u32 \<Rightarrow> ind_hw \<Rightarrow> ind_hw" where
  "ih_write a v s = (if a = 1 then s\<lparr>ih_enable := bit v 0\<rparr> else s)"

definition ind_mmio :: "ind_hw mmio" where
  "ind_mmio = \<lparr>mm_read = ih_read, mm_write = ih_write\<rparr>"

lemma ready_channel_SomeD: "ready_channel n q = Some k \<Longrightarrow> k < n \<and> q k \<noteq> []"
  by (induction n) (auto split: if_splits)

lemma ready_channel_None: "ready_channel n q = None \<longleftrightarrow> (\<forall>c<n. q c = [])"
  by (induction n) (auto simp: less_Suc_eq)

lemma queue_status_read:
  "READL ind_mmio IND_REG_QUEUE_STATUS s =
     (case ready_channel (ih_nchan s) (ih_queue s) of None \<Rightarrow> 0 | Some c \<Rightarrow> of_nat c + 1, s)"
  by (simp add: READL_def ind_mmio_def ih_read_def portal_defs)

lemma mask_write:
  "WRITEL ind_mmio IND_REG_INTERRUPT_MASK v s = s\<lparr>ih_enable := bit v 0\<rparr>"
  by (simp add: WRITEL_def ind_mmio_def ih_write_def portal_defs)

lemma ind_fifo_read:
  assumes "ih_nreq s = 0" and "c < ih_nchan s"
  shows "READL ind_mmio (PORTAL_IND_FIFO c) s = ih_pop c s"
  using assms by (simp add: READL_def ind_mmio_def ih_read_def PORTAL_IND_FIFO_eq Let_def)

text \<open>Reading a message word by word, as the generated demarshalling code does.\<close>

fun read_words :: "'d mmio \<Rightarrow> nat \<Rightarrow> nat \<Rightarrow> 'd \<Rightarrow> u32 list \<times> 'd" where
  "read_words m a 0 d = ([], d)"
| "read_words m a (Suc n) d =
     (case READL m a d of (w, d') \<Rightarrow> (case read_words m a n d' of (ws, d'') \<Rightarrow> (w # ws, d'')))"

lemma read_words_message:
  assumes "ih_nreq s = 0" and "c < ih_nchan s" and "ih_queue s c = ws @ rest"
  shows "read_words ind_mmio (PORTAL_IND_FIFO c) (length ws) s =
    (ws, s\<lparr>ih_queue := (ih_queue s)(c := rest)\<rparr>)"
  using assms
proof (induction ws arbitrary: s)
  case Nil
  then have "(ih_queue s)(c := rest) = ih_queue s" by auto
  then show ?case by simp
next
  case (Cons w ws)
  let ?s = "s\<lparr>ih_queue := (ih_queue s)(c := ws @ rest)\<rparr>"
  have "read_words ind_mmio (PORTAL_IND_FIFO c) (length ws) ?s = (ws, ?s\<lparr>ih_queue := (ih_queue ?s)(c := rest)\<rparr>)"
    using Cons.prems by (intro Cons.IH) simp_all
  with Cons.prems show ?case by (simp add: ind_fifo_read ih_pop_def fun_upd_def cong: if_cong)
qed

end
