(* ===== verification/Portal_Poller.thy ===== *)
theory Portal_Poller
  imports Portal_Hw Dma_Manager
begin

text \<open>
  \<^verbatim>\<open>cpp/poller.cpp\<close> and \<^verbatim>\<open>cpp/poller.h\<close>: the table of registered portals, the event loop that
  drains every portal's indications and re-enables its interrupt, and the thread around it.  The
  handler of a portal is the demarshalling code that \<^verbatim>\<open>scripts/cppgen.py\<close> emits, here for the DMA
  indications declared in \<^verbatim>\<open>generated/cpp/GeneratedTypes.h\<close> with the callbacks of
  \<^verbatim>\<open>cpp/StdDmaIndication.h\<close>; what the loop needs of a handler is the locale \<^verbatim>\<open>ind_handler\<close>.
\<close>

section \<open>The table of portals\<close>

text \<open>A portal is its identity and its descriptor; \<^verbatim>\<open>numFds\<close> is the length of both arrays.\<close>

record poller =
  portal_wrappers :: "nat list"
  portal_fds :: "int list"
  numFds :: int
  stopping :: bool
  portalExec_timeout :: int
  sem_startup :: nat

definition PortalPoller :: poller where
  "PortalPoller = \<lparr>portal_wrappers = [], portal_fds = [], numFds = 0, stopping = False,
     portalExec_timeout = 0, sem_startup = 0\<rparr>"

definition registerInstance :: "nat \<Rightarrow> int \<Rightarrow> poller \<Rightarrow> poller" where
  "registerInstance portal fd p =
     p\<lparr>numFds := numFds p + 1, portal_wrappers := portal_wrappers p @ [portal],
       portal_fds := portal_fds p @ [fd]\<rparr>"

text \<open>The first loop of \<^verbatim>\<open>unregisterInstance\<close>: the index of the descriptor, or the number of entries.\<close>

fun find_fd :: "int \<Rightarrow> int list \<Rightarrow> nat" where
  "find_fd fd [] = 0"
| "find_fd fd (x # xs) = (if x = fd then 0 else Suc (find_fd fd xs))"

text \<open>The second loop, which moves one entry down and does not advance its index.\<close>

partial_function (option) shift_down :: "nat \<Rightarrow> int \<Rightarrow> int list \<times> nat list \<Rightarrow> (int list \<times> nat list) option" where
  "shift_down i n st =
     (if int i < n - 1
      then shift_down i n ((fst st)[i := fst st ! (i + 1)], (snd st)[i := snd st ! (i + 1)])
      else Some st)"

definition unregisterInstance :: "int \<Rightarrow> poller \<Rightarrow> poller option" where
  "unregisterInstance fd p =
     (case shift_down (find_fd fd (portal_fds p)) (numFds p) (portal_fds p, portal_wrappers p) of
        None \<Rightarrow> None
      | Some (fds, ws) \<Rightarrow>
          Some (p\<lparr>numFds := numFds p - 1, portal_fds := take (nat (numFds p - 1)) fds,
                  portal_wrappers := take (nat (numFds p - 1)) ws\<rparr>))"

section \<open>Handling events\<close>

text \<open>
  A handler takes the channel and the state of the application and of the portal; None means it
  ended the process.
\<close>

type_synonym ('h, 'd) handler = "u32 \<Rightarrow> 'h \<times> 'd \<Rightarrow> ('h \<times> 'd) option"

text \<open>
  The loop on one portal's queue status.  It ends only when the status reads zero, so its result
  is None if that never happens; \<^verbatim>\<open>Some None\<close> is a process that ended.
\<close>

partial_function (option) event_loop ::
    "'d mmio \<Rightarrow> ('h, 'd) handler \<Rightarrow> nat \<Rightarrow> 'h \<times> 'd \<Rightarrow> ((nat \<times> 'h \<times> 'd) option) option" where
  "event_loop m handler mcnt st =
     (let r = READL m IND_REG_QUEUE_STATUS (snd st) in
      if fst r = 0 then Some (Some (mcnt, fst st, snd r))
      else case handler (fst r - 1) (fst st, snd r) of
             None \<Rightarrow> Some None
           | Some st' \<Rightarrow> event_loop m handler (mcnt + 1) st')"

definition portalEnableInterrupts :: "'d mmio \<Rightarrow> 'd \<Rightarrow> 'd" where
  "portalEnableInterrupts m d = WRITEL m IND_REG_INTERRUPT_MASK 1 d"

text \<open>The body of \<^verbatim>\<open>portalExec_event\<close> for one portal, then for all of them in order.\<close>

definition portal_event ::
    "'d mmio \<Rightarrow> ('h, 'd) handler \<Rightarrow> nat \<times> 'h \<times> 'd \<Rightarrow> ((nat \<times> 'h \<times> 'd) option) option" where
  "portal_event m handler st =
     (case event_loop m handler (fst st) (snd st) of
        None \<Rightarrow> None
      | Some None \<Rightarrow> Some None
      | Some (Some (mcnt, h, d)) \<Rightarrow> Some (Some (mcnt, h, portalEnableInterrupts m d)))"

fun portalExec_event ::
    "'d mmio \<Rightarrow> ('h, 'd) handler list \<Rightarrow> nat \<times> 'h \<Rightarrow> 'd list \<Rightarrow> ((nat \<times> 'h \<times> 'd list) option) option" where
  "portalExec_event m (hdl # hds) (mcnt, h) (d # ds) =
     (case portal_event m hdl (mcnt, h, d) of
        None \<Rightarrow> None
      | Some None \<Rightarrow> Some None
      | Some (Some (mcnt', h', d')) \<Rightarrow>
          (case portalExec_event m hds (mcnt', h') ds of
             None \<Rightarrow> None
           | Some None \<Rightarrow> Some None
           | Some (Some (n, h'', ds')) \<Rightarrow> Some (Some (n, h'', d' # ds'))))"
| "portalExec_event m hds (mcnt, h) ds = Some (Some (mcnt, h, ds))"

definition portalExec_init :: "'d mmio \<Rightarrow> 'd list \<Rightarrow> poller \<Rightarrow> int \<times> 'd list \<times> poller" where
  "portalExec_init m ds p =
     (let p' = p\<lparr>portalExec_timeout := - 1\<rparr> in
      if numFds p = 0 then (- ENODEV, ds, p') else (0, map (portalEnableInterrupts m) ds, p'))"

definition portalExec_end :: "'d mmio \<Rightarrow> 'd list \<Rightarrow> poller \<Rightarrow> 'd list \<times> poller" where
  "portalExec_end m ds p = (map (WRITEL m IND_REG_INTERRUPT_MASK 0) ds, p\<lparr>stopping := True\<rparr>)"

text \<open>\<^verbatim>\<open>portalExec_poll\<close> outside the simulator: \<^verbatim>\<open>poll\<close> is not called for a zero timeout.\<close>

definition portalExec_poll :: "int \<Rightarrow> int \<Rightarrow> int" where
  "portalExec_poll poll_result timeout = (if timeout \<noteq> 0 then poll_result else 0)"

text \<open>
  The thread.  Before round \<open>k\<close> other threads and the hardware may act: \<open>stop k\<close> is the flag
  \<^verbatim>\<open>stopping\<close> as another thread left it, \<open>polls k\<close> the result of \<^verbatim>\<open>poll\<close>, and \<open>arrive k\<close> what the
  hardware did to the portals meanwhile.
\<close>

partial_function (option) exec_loop ::
    "'d mmio \<Rightarrow> ('h, 'd) handler list \<Rightarrow> (nat \<Rightarrow> bool) \<Rightarrow> (nat \<Rightarrow> int) \<Rightarrow> (nat \<Rightarrow> 'd list \<Rightarrow> 'd list) \<Rightarrow> nat \<Rightarrow> int \<Rightarrow>
       'h \<Rightarrow> 'd list \<Rightarrow> poller \<Rightarrow> ((int \<times> 'h \<times> 'd list) option) option" where
  "exec_loop m hds stop polls arrive k rc h ds p =
     (if rc = 0 \<and> \<not> (stopping p \<or> stop k)
      then let rc' = portalExec_poll (polls k) (portalExec_timeout p); ds' = arrive k ds in
           if 0 \<le> rc'
           then (case portalExec_event m hds (0, h) ds' of
                   None \<Rightarrow> None
                 | Some None \<Rightarrow> Some None
                 | Some (Some (mcnt, h', ds'')) \<Rightarrow> exec_loop m hds stop polls arrive (Suc k) 0 h' ds'' p)
           else exec_loop m hds stop polls arrive (Suc k) rc' h ds' p
      else Some (Some (rc, h, ds)))"

definition portalExec ::
    "'d mmio \<Rightarrow> ('h, 'd) handler list \<Rightarrow> (nat \<Rightarrow> bool) \<Rightarrow> (nat \<Rightarrow> int) \<Rightarrow> (nat \<Rightarrow> 'd list \<Rightarrow> 'd list) \<Rightarrow>
       'h \<Rightarrow> 'd list \<Rightarrow> poller \<Rightarrow> ((int \<times> 'h \<times> 'd list \<times> poller) option) option" where
  "portalExec m hds stop polls arrive h ds p =
     (case portalExec_init m ds p of (rc, ds1, p1) \<Rightarrow>
        (let p2 = p1\<lparr>sem_startup := sem_startup p1 + 1\<rparr> in
         case exec_loop m hds stop polls arrive 0 rc h ds1 p2 of
           None \<Rightarrow> None
         | Some None \<Rightarrow> Some None
         | Some (Some (rc', h', ds2)) \<Rightarrow>
             (case portalExec_end m ds2 p2 of (ds3, p3) \<Rightarrow> Some (Some (rc', h', ds3, p3)))))"

text \<open>
  The first \<^verbatim>\<open>poll\<close> that fails, interrupted or not, ends the thread with its result, as long as the
  rounds before it handle their events.
\<close>

lemma exec_loop_ends:
  assumes "\<And>i. i \<le> n \<Longrightarrow> \<not> stop (k + i)" "\<And>i. i < n \<Longrightarrow> 0 \<le> polls (k + i)" "polls (k + n) < 0"
    and "\<not> stopping p" "portalExec_timeout p \<noteq> 0"
    and "\<And>h ds. \<exists>c h' ds'. portalExec_event m hds (0, h) ds = Some (Some (c, h', ds'))"
  shows "\<exists>h' ds'. exec_loop m hds stop polls arrive k 0 h ds p = Some (Some (polls (k + n), h', ds'))"
  using assms(1-3)
proof (induction n arbitrary: k h ds)
  case 0
  then show ?case
    using assms(4,5) by (simp add: exec_loop.simps [of m hds stop polls arrive k]
        exec_loop.simps [of m hds stop polls arrive "Suc k"] portalExec_poll_def Let_def)
next
  case (Suc n)
  obtain c h' ds' where e: "portalExec_event m hds (0, h) (arrive k ds) = Some (Some (c, h', ds'))"
    using assms(6) by blast
  have "\<exists>h'' ds''. exec_loop m hds stop polls arrive (Suc k) 0 h' ds' p = Some (Some (polls (Suc k + n), h'', ds''))"
  proof (rule Suc.IH)
    show "\<And>i. i \<le> n \<Longrightarrow> \<not> stop (Suc k + i)" using Suc.prems(1) [of "Suc i" for i] by simp
    show "\<And>i. i < n \<Longrightarrow> 0 \<le> polls (Suc k + i)" using Suc.prems(2) [of "Suc i" for i] by simp
    show "polls (Suc k + n) < 0" using Suc.prems(3) by simp
  qed
  then show ?case
    using e Suc.prems(1) [of 0] Suc.prems(2) [of 0] assms(4,5)
    by (simp add: exec_loop.simps [of m hds stop polls arrive k] portalExec_poll_def Let_def)
qed

section \<open>The DMA indication handler\<close>

definition dma_ind_words :: "nat \<Rightarrow> nat" where
  "dma_ind_words c = [1, 2, 4, 2, 6] ! c"

text \<open>The arguments of each method from its words, the most significant beat first.\<close>

fun dma_ind_decode :: "nat \<Rightarrow> u32 list \<Rightarrow> dma_indication option" where
  "dma_ind_decode 0 [pointer] = Some (ConfigResp pointer)"
| "dma_ind_decode (Suc 0) [h, l] = Some (AddrResponse (join32 h l))"
| "dma_ind_decode (Suc (Suc 0)) [x, y, z, w] = Some (ReportStateDbg (x, y, z, w))"
| "dma_ind_decode (Suc (Suc (Suc 0))) [h, l] = Some (ReportMemoryTraffic (join32 h l))"
| "dma_ind_decode (Suc (Suc (Suc (Suc 0)))) [code, pointer, oh, ol, eh, el] =
     Some (DmaError code pointer (join32 oh ol) (join32 eh el))"
| "dma_ind_decode _ _ = None"

type_synonym dma_app = "nat \<times> int \<times> dma_manager"

definition dma_ind_callback :: "nat \<Rightarrow> u32 list \<Rightarrow> dma_app \<Rightarrow> dma_app option" where
  "dma_ind_callback c ws app =
     (case dma_ind_decode c ws of
        None \<Rightarrow> Some app
      | Some i \<Rightarrow> map_option (Pair (fst app)) (dma_indicate i (snd app)))"

definition DmaIndicationWrapper_handleMessage :: "'d mmio \<Rightarrow> (dma_app, 'd) handler" where
  "DmaIndicationWrapper_handleMessage m channel st =
     (case st of (app, d) \<Rightarrow>
        if unat channel < 5
        then (case read_words m (PORTAL_IND_FIFO (unat channel)) (dma_ind_words (unat channel)) d of
                (ws, d') \<Rightarrow> map_option (\<lambda>app'. (app', d')) (dma_ind_callback (unat channel) ws app))
        else if fst app > 10 then None else Some ((fst app + 1, snd app), d))"

section \<open>What the loop needs of a handler\<close>

text \<open>
  The messages waiting in a portal, per channel and oldest first, in the order the hardware
  presents them: all of the highest channel, then the next.
\<close>

fun drain :: "nat \<Rightarrow> (nat \<Rightarrow> u32 list list) \<Rightarrow> (nat \<times> u32 list) list" where
  "drain 0 msgs = []"
| "drain (Suc n) msgs = map (Pair n) (msgs n) @ drain n msgs"

fun run_msgs :: "(nat \<Rightarrow> u32 list \<Rightarrow> 'h \<Rightarrow> 'h option) \<Rightarrow> (nat \<times> u32 list) list \<Rightarrow> 'h \<Rightarrow> 'h option" where
  "run_msgs cb [] h = Some h"
| "run_msgs cb ((c, ws) # ms) h = (case cb c ws h of None \<Rightarrow> None | Some h' \<Rightarrow> run_msgs cb ms h')"

definition queued :: "nat \<Rightarrow> (nat \<Rightarrow> nat) \<Rightarrow> (nat \<Rightarrow> u32 list list) \<Rightarrow> ind_hw \<Rightarrow> bool" where
  "queued nchan words msgs d \<longleftrightarrow> ih_nreq d = 0 \<and> ih_nchan d = nchan \<and>
     (\<forall>c<nchan. ih_queue d c = concat (msgs c) \<and> (\<forall>ws\<in>set (msgs c). length ws = words c))"

lemma drain_upd: "n \<le> k \<Longrightarrow> drain n (msgs(k := x)) = drain n msgs"
  by (induction n) auto

lemma drain_next:
  assumes "ready_channel n q = Some k" and "\<And>c. c < n \<Longrightarrow> q c = [] \<longleftrightarrow> msgs c = []"
  shows "drain n msgs = (k, hd (msgs k)) # drain n (msgs(k := tl (msgs k)))"
  using assms
proof (induction n)
  case (Suc n)
  show ?case
  proof (cases "q n = []")
    case True
    then have "k < n" using Suc.prems ready_channel_SomeD [of n q k] by simp
    with True Suc show ?thesis by simp
  next
    case False
    then obtain m ms where "msgs n = m # ms" using Suc.prems(2) [of n] by (cases "msgs n") auto
    moreover have "drain n (msgs(n := ms)) = drain n msgs" by (simp only: drain_upd)
    moreover have "k = n" using False Suc.prems(1) by simp
    ultimately show ?thesis by (simp del: fun_upd_apply) simp
  qed
qed simp

lemma drain_none:
  assumes "ready_channel n q = None" and "\<And>c. c < n \<Longrightarrow> q c = [] \<longleftrightarrow> msgs c = []"
  shows "drain n msgs = []"
  using assms by (induction n) (auto split: if_splits)

locale ind_handler =
  fixes handler :: "('h, ind_hw) handler"
    and nchan :: nat
    and words :: "nat \<Rightarrow> nat"
    and cb :: "nat \<Rightarrow> u32 list \<Rightarrow> 'h \<Rightarrow> 'h option"
  assumes words_pos: "c < nchan \<Longrightarrow> 0 < words c"
    and nchan_small: "nchan < 2 ^ 32"
    and handles: "c < nchan \<Longrightarrow> ih_nreq d = 0 \<Longrightarrow> ih_nchan d = nchan \<Longrightarrow> ih_queue d c = ws @ rest \<Longrightarrow>
      length ws = words c \<Longrightarrow>
      handler (of_nat c) (h, d) = map_option (\<lambda>h'. (h', d\<lparr>ih_queue := (ih_queue d)(c := rest)\<rparr>)) (cb c ws h)"
begin

lemma queued_empty_iff:
  assumes "queued nchan words msgs d" and "c < nchan"
  shows "ih_queue d c = [] \<longleftrightarrow> msgs c = []"
  using assms words_pos [OF assms(2)] by (cases "msgs c") (auto simp: queued_def)

lemma queued_pop:
  assumes "queued nchan words msgs d" and "k < nchan" and "msgs k = m # ms"
  shows "queued nchan words (msgs(k := ms)) (d\<lparr>ih_queue := (ih_queue d)(k := concat ms)\<rparr>)"
  using assms by (auto simp: queued_def)

text \<open>The event loop returns, and has run the callback on every waiting message exactly once.\<close>

lemma event_loop_drains:
  assumes "queued nchan words msgs d"
  shows "event_loop ind_mmio handler n (h, d) =
    Some (map_option (\<lambda>h'. (n + length (drain nchan msgs), h',
       d\<lparr>ih_queue := \<lambda>c. if c < nchan then [] else ih_queue d c\<rparr>)) (run_msgs cb (drain nchan msgs) h))"
  using assms
proof (induction "drain nchan msgs" arbitrary: msgs d h n)
  case Nil
  have "ready_channel nchan (ih_queue d) = None"
  proof (rule ccontr)
    assume "ready_channel nchan (ih_queue d) \<noteq> None"
    then obtain k where "ready_channel nchan (ih_queue d) = Some k" by auto
    from drain_next [OF this queued_empty_iff [OF Nil(2)]] Nil(1) show False by simp
  qed
  then have "ih_queue d c = []" if "c < nchan" for c
    using that by (simp add: ready_channel_None)
  then have "(\<lambda>c. if c < nchan then [] else ih_queue d c) = ih_queue d" by (auto simp: fun_eq_iff)
  then show ?case
    using Nil \<open>ready_channel nchan (ih_queue d) = None\<close>
    by (subst event_loop.simps) (simp add: queue_status_read queued_def Let_def flip: Nil(1))
next
  case (Cons x xs)
  from Cons(2) obtain k where k: "ready_channel nchan (ih_queue d) = Some k"
    using drain_none [OF _ queued_empty_iff [OF Cons(3)]] by fastforce
  then have kn: "k < nchan" by (simp add: ready_channel_SomeD)
  note nx = drain_next [OF k queued_empty_iff [OF Cons(3)]]
  have "msgs k \<noteq> []" using k ready_channel_SomeD [of nchan] queued_empty_iff [OF Cons(3) kn] by blast
  then obtain m ms where m: "msgs k = m # ms" by (cases "msgs k") auto
  let ?d = "d\<lparr>ih_queue := (ih_queue d)(k := concat ms)\<rparr>"
  have q: "ih_queue d k = m @ concat ms" "length m = words k" "ih_nreq d = 0" "ih_nchan d = nchan"
    using Cons(3) kn m by (auto simp: queued_def)
  have hdl: "handler (of_nat k) (h, d) = map_option (\<lambda>h'. (h', ?d)) (cb k m h)"
    by (rule handles [OF kn q(3,4,1,2)])
  have "(of_nat k + 1 :: u32) \<noteq> 0"
  proof -
    have "unat (of_nat (Suc k) :: u32) = Suc k"
      using kn nchan_small by (intro unat_of_nat_less) simp
    then show ?thesis by (metis of_nat_Suc add.commute unsigned_0 nat.distinct(1))
  qed
  then have step: "event_loop ind_mmio handler n (h, d) =
      (case cb k m h of None \<Rightarrow> Some None | Some h' \<Rightarrow> event_loop ind_mmio handler (n + 1) (h', ?d))"
    using k q hdl by (subst event_loop.simps) (simp add: queue_status_read Let_def split: option.split)
  have dr: "drain nchan (msgs(k := ms)) = xs" "x = (k, m)" using nx Cons(2) m by simp_all
  have IH: "event_loop ind_mmio handler (n + 1) (h', ?d) =
      Some (map_option (\<lambda>h''. (n + 1 + length xs, h'',
        ?d\<lparr>ih_queue := \<lambda>c. if c < nchan then [] else ih_queue ?d c\<rparr>)) (run_msgs cb xs h'))" for h'
    using Cons(1) [OF dr(1) [symmetric] queued_pop [OF Cons(3) kn m]] dr(1) by simp
  have "(\<lambda>c. if c < nchan then [] else ih_queue ?d c) = (\<lambda>c. if c < nchan then [] else ih_queue d c)"
    using kn by (auto simp: fun_eq_iff)
  then show ?case
    unfolding step Cons(2) [symmetric] dr(2) using IH by (simp split: option.split)
qed

end

lemma dma_ind_words_pos: "c < 5 \<Longrightarrow> 0 < dma_ind_words c"
  by (auto simp: dma_ind_words_def less_Suc_eq numeral_eq_Suc)

interpretation dma_ind: ind_handler "DmaIndicationWrapper_handleMessage ind_mmio" 5 dma_ind_words dma_ind_callback
proof unfold_locales
  fix c :: nat and d :: ind_hw and ws rest :: "u32 list" and h :: dma_app
  show "c < 5 \<Longrightarrow> 0 < dma_ind_words c" by (rule dma_ind_words_pos)
  assume a: "c < 5" "ih_nreq d = 0" "ih_nchan d = 5" "ih_queue d c = ws @ rest" "length ws = dma_ind_words c"
  then have u: "unat (of_nat c :: u32) = c" by (intro unat_of_nat_less) simp
  show "DmaIndicationWrapper_handleMessage ind_mmio (of_nat c) (h, d) =
      map_option (\<lambda>h'. (h', d\<lparr>ih_queue := (ih_queue d)(c := rest)\<rparr>)) (dma_ind_callback c ws h)"
    using read_words_message [of d c ws rest] a
    unfolding DmaIndicationWrapper_handleMessage_def u by simp
qed simp

section \<open>Properties of the poller\<close>


definition sample_ind :: ind_hw where
  "sample_ind = \<lparr>ih_nreq = 0, ih_nchan = 5, ih_queue = (\<lambda>c. if c = 0 then [3, 4] else if c = 3 then [1, 2] else []),
     ih_enable = False, ih_stuck = False\<rparr>"


lemma shift_down_returns:
  assumes "shift_down i n st = Some st'"
  shows "\<not> int i < n - 1"
  using assms
  by (rule shift_down.raw_induct [where P = "\<lambda>i n st y. \<not> int i < n - 1", rotated])
    (auto split: if_splits)

lemma find_fd_le: "find_fd fd xs \<le> length xs"
  by (induction xs) auto

text \<open>
  C22.  \<^verbatim>\<open>unregisterInstance\<close> does not end unless the portal is the last of the table or not in it,
  because the loop that closes the gap never advances; and when the portal is not in the table
  the call drops the entry of another one, the last.
\<close>

theorem unregister_cases:
  assumes "numFds p = int (length (portal_fds p))" and "length (portal_wrappers p) = length (portal_fds p)"
    and "portal_fds p \<noteq> []"
  shows "unregisterInstance fd p =
    (if find_fd fd (portal_fds p) < length (portal_fds p) - 1 then None
     else Some (p\<lparr>numFds := numFds p - 1, portal_fds := butlast (portal_fds p),
                  portal_wrappers := butlast (portal_wrappers p)\<rparr>))"
proof -
  let ?i = "find_fd fd (portal_fds p)"
  have iff: "int ?i < numFds p - 1 \<longleftrightarrow> ?i < length (portal_fds p) - 1" using assms(1,3) by auto
  have "nat (numFds p - 1) = length (portal_fds p) - 1" using assms(1) by simp
  then have t: "take (nat (numFds p - 1)) (portal_fds p) = butlast (portal_fds p)"
    "take (nat (numFds p - 1)) (portal_wrappers p) = butlast (portal_wrappers p)"
    using assms(2) by (simp_all add: butlast_conv_take)
  show ?thesis
  proof (cases "?i < length (portal_fds p) - 1")
    case True
    then have "shift_down ?i (numFds p) (portal_fds p, portal_wrappers p) = None"
      using iff shift_down_returns by (metis option.exhaust)
    with True show ?thesis by (simp add: unregisterInstance_def)
  next
    case False
    then have "shift_down ?i (numFds p) (portal_fds p, portal_wrappers p) = Some (portal_fds p, portal_wrappers p)"
      using iff by (subst shift_down.simps) simp
    with False t show ?thesis by (simp add: unregisterInstance_def)
  qed
qed

theorem unregister_cases_witness:
  "unregisterInstance 7 (registerInstance 1 8 (registerInstance 0 7 PortalPoller)) = None \<and>
   unregisterInstance 9 (registerInstance 1 8 (registerInstance 0 7 PortalPoller)) =
     Some (registerInstance 0 7 PortalPoller)"
  using unregister_cases [of "registerInstance 1 8 (registerInstance 0 7 PortalPoller)" 7]
    unregister_cases [of "registerInstance 1 8 (registerInstance 0 7 PortalPoller)" 9]
  by (simp add: registerInstance_def PortalPoller_def)

end
