(* ===== verification/Portal_Core.thy ===== *)
theory Portal_Core
  imports Portal_Io Portalmem
begin

text \<open>
  \<^verbatim>\<open>cpp/portal.c\<close>: opening a portal, the directory of portals, the cycle counter, and the wrappers
  around the allocator and the cache.  The directory hardware (\<^verbatim>\<open>bsv/Directory.bsv\<close>, mkStdDirectory)
  is modelled with a clock that advances by any amount between two bus accesses.
\<close>

section \<open>The directory hardware\<close>

record dir_hw =
  dh_portals :: "(u32 \<times> u32) list"
  dh_cycle :: u64
  dh_snapshot :: u32
  dh_time :: nat
  dh_delay :: "nat \<Rightarrow> u64"

definition dh_tick :: "dir_hw \<Rightarrow> dir_hw" where
  "dh_tick s = s\<lparr>dh_cycle := dh_cycle s + dh_delay s (dh_time s), dh_time := dh_time s + 1\<rparr>"

text \<open>Reading the high half of the counter latches the low half.\<close>

definition dh_read :: "nat \<Rightarrow> dir_hw \<Rightarrow> u32 \<times> dir_hw" where
  "dh_read a s0 =
     (let s = dh_tick s0; idx = a - (128 + 6) in
      if a = 128 then (2, s)
      else if a = 129 then (0, s)
      else if a = 130 then (of_nat (length (dh_portals s)), s)
      else if a = 131 then (16, s)
      else if a = 132 then (hi32 (dh_cycle s), s\<lparr>dh_snapshot := lo32 (dh_cycle s)\<rparr>)
      else if a = 133 then (dh_snapshot s, s)
      else if 134 \<le> a \<and> idx div 2 < length (dh_portals s)
      then (if idx mod 2 = 0 then fst (dh_portals s ! (idx div 2)) else snd (dh_portals s ! (idx div 2)), s)
      else (0, s))"

definition dir_mmio :: "dir_hw mmio" where
  "dir_mmio = \<lparr>mm_read = dh_read, mm_write = \<lambda>a v s. dh_tick s\<rparr>"

section \<open>The directory\<close>

text \<open>The loop of \<^verbatim>\<open>portalGetFpga\<close>; \<^verbatim>\<open>numportals\<close> is an int.\<close>

function get_fpga_loop :: "'d mmio \<Rightarrow> u32 \<Rightarrow> int \<Rightarrow> nat \<Rightarrow> 'd \<Rightarrow> u32 \<times> 'd" where
  "get_fpga_loop m oid numportals i d =
     (if int i < numportals
      then (case READL m (PORTAL_DIRECTORY_PORTAL_ID i) d of (v, d') \<Rightarrow>
              if v = oid then (of_nat (i + 1), d') else get_fpga_loop m oid numportals (i + 1) d')
      else (0, d))"
  by pat_completeness auto
termination
  by (relation "measure (\<lambda>(m, oid, n, i, d). nat (n - int i))") auto

declare get_fpga_loop.simps [simp del]

definition portalGetFpga :: "'d mmio \<Rightarrow> u32 \<Rightarrow> 'd \<Rightarrow> u32 \<times> 'd" where
  "portalGetFpga m oid d =
     (case READL m PORTAL_DIRECTORY_NUMPORTALS d of (n, d') \<Rightarrow> get_fpga_loop m oid (sint n) 0 d')"

definition portalGetAddrbits :: "'d mmio \<Rightarrow> 'd \<Rightarrow> u32 \<times> 'd" where
  "portalGetAddrbits m d = READL m PORTAL_DIRECTORY_ADDRBITS d"

definition portalCycleCount :: "'d mmio \<Rightarrow> 'd \<Rightarrow> u64 \<times> 'd" where
  "portalCycleCount m d =
     (case READL m PORTAL_DIRECTORY_COUNTER_MSB d of (high_bits, d1) \<Rightarrow>
        (case READL m PORTAL_DIRECTORY_COUNTER_LSB d1 of (low_bits, d2) \<Rightarrow>
           (push_bit 32 (ucast high_bits) OR ucast low_bits, d2)))"

text \<open>The scan that prints the directory, with its reads in order: at most 32 portals are listed.\<close>

fun scan_portals :: "'d mmio \<Rightarrow> nat \<Rightarrow> nat \<Rightarrow> 'd \<Rightarrow> (u32 \<times> u32) list \<times> 'd" where
  "scan_portals m i 0 d = ([], d)"
| "scan_portals m i (Suc n) d =
     (case READL m (PORTAL_DIRECTORY_PORTAL_ID i) d of (ifcid, d1) \<Rightarrow>
        (case READL m (PORTAL_DIRECTORY_PORTAL_TYPE i) d1 of (ifctype, d2) \<Rightarrow>
           (case scan_portals m (i + 1) n d2 of (ps, d3) \<Rightarrow> ((ifcid, ifctype) # ps, d3))))"

definition scan_directory :: "'d mmio \<Rightarrow> 'd \<Rightarrow> (u32 \<times> u32) list \<times> 'd" where
  "scan_directory m d =
     (let (timestamp, d1) = READL m PORTAL_DIRECTORY_TIMESTAMP d;
          (numportals, d2) = READL m PORTAL_DIRECTORY_NUMPORTALS d1;
          (version, d3) = READL m PORTAL_DIRECTORY_VERSION d2;
          (addrbits, d4) = READL m PORTAL_DIRECTORY_ADDRBITS d3
      in scan_portals m 0 (min (unat numportals) 32) d4)"

section \<open>Opening a portal\<close>

datatype build = BSIM | KERNEL | ZYNQ | PCIE

record portal_internal =
  fpga_fd :: int
  fpga_number :: u32
  map_base :: "nat option"

text \<open>
  The system calls of one opening: the descriptor of the file that says the FPGA is programmed
  (negative: neither path opened), the character read from it (None: the read failed), the
  descriptor of \<^verbatim>\<open>/dev/fpga<n>\<close>, errno, and the address \<^verbatim>\<open>mmap\<close> returned (None: MAP_FAILED).
\<close>

record os_calls =
  os_prog_done :: int
  os_prog_status :: "char option"
  os_open :: "u32 \<Rightarrow> int"
  os_errno :: int
  os_mmap :: "nat \<Rightarrow> nat option"

definition portal_location :: "'d mmio \<Rightarrow> int \<Rightarrow> 'd \<Rightarrow> u32 \<times> nat \<times> 'd" where
  "portal_location m oid d =
     (if oid \<noteq> - 1
      then (case portalGetFpga m (of_int oid) d of (n, d1) \<Rightarrow>
              (case portalGetAddrbits m d1 of (a, d2) \<Rightarrow> (n, unat a, d2)))
      else (0, 16, d))"

definition map_registers :: "os_calls \<Rightarrow> nat \<Rightarrow> portal_internal \<Rightarrow> int \<times> portal_internal" where
  "map_registers os addrbits p =
     (if fpga_fd p < 0 then (- os_errno os, p)
      else case os_mmap os (2 ^ addrbits) of
             None \<Rightarrow> (- os_errno os, p)
           | Some a \<Rightarrow> (0, p\<lparr>map_base := Some a\<rparr>))"

text \<open>The driver commands the library issues, with the descriptor; their results are not looked at.\<close>

datatype lib_ioctl =
    Enable_interrupt int int int
  | Set_fclk_rate int int int
  | Trace int u32

text \<open>
  The body of \<^verbatim>\<open>init_portal_internal\<close> after \<^verbatim>\<open>init_directory\<close>: the return code before the label, the
  portal, the commands issued, and the directory's state.  \<^verbatim>\<open>oid = - 1\<close> opens the directory itself.
\<close>

definition open_portal ::
    "build \<Rightarrow> os_calls \<Rightarrow> nat \<Rightarrow> 'd mmio \<Rightarrow> int \<Rightarrow> 'd \<Rightarrow>
       int \<times> portal_internal \<times> lib_ioctl list \<times> 'd" where
  "open_portal b os bar2 m oid d =
     (case portal_location m oid d of (num, addrbits, d') \<Rightarrow>
        let p0 = \<lparr>fpga_fd = - 1, fpga_number = num, map_base = None\<rparr>;
            fd = os_open os num;
            opened = (\<lambda>cmds. case map_registers os addrbits (p0\<lparr>fpga_fd := fd\<rparr>) of (rc, p) \<Rightarrow> (rc, p, cmds, d'))
        in case b of
             BSIM \<Rightarrow> (0, p0, [], d')
           | KERNEL \<Rightarrow> (0, p0\<lparr>map_base := Some (bar2 + unat num * PORTAL_BASE_OFFSET)\<rparr>, [], d')
           | ZYNQ \<Rightarrow>
               if os_prog_done os < 0 then (- 1, p0, [], d')
               else if os_prog_status os \<noteq> Some (CHR ''1'') then (- ENODEV, p0, [], d')
               else opened [Enable_interrupt fd (3 * 2 ^ 14) (3 * 2 ^ 14 + 4)]
           | PCIE \<Rightarrow> opened [])"

text \<open>
  \<^verbatim>\<open>init_directory\<close> runs once: it opens the directory (the nested call of itself returns at once,
  the flag being set) and scans it.  A failure to open ends a user process: None.
\<close>

record 'd portal_lib =
  pl_once :: bool
  pl_dir :: portal_internal
  pl_ioctls :: "lib_ioctl list"
  pl_dev :: 'd

definition init_directory :: "build \<Rightarrow> os_calls \<Rightarrow> nat \<Rightarrow> 'd mmio \<Rightarrow> 'd portal_lib \<Rightarrow> 'd portal_lib option" where
  "init_directory b os bar2 m st =
     (if pl_once st then Some st
      else case open_portal b os bar2 m (- 1) (pl_dev st) of (rc, p, cmds, d) \<Rightarrow>
        if rc \<noteq> 0 \<and> b \<noteq> KERNEL then None
        else Some \<lparr>pl_once = True, pl_dir = p,
          pl_ioctls = pl_ioctls st @ cmds @ (if b = ZYNQ then [Set_fclk_rate (fpga_fd p) 0 100000000] else []),
          pl_dev = snd (scan_directory m d)\<rparr>)"

definition init_portal_internal ::
    "build \<Rightarrow> os_calls \<Rightarrow> nat \<Rightarrow> 'd mmio \<Rightarrow> int \<Rightarrow> 'd portal_lib \<Rightarrow> (portal_internal \<times> 'd portal_lib) option" where
  "init_portal_internal b os bar2 m oid st =
     (case init_directory b os bar2 m st of
        None \<Rightarrow> None
      | Some st' \<Rightarrow>
          (case open_portal b os bar2 m oid (pl_dev st') of (rc, p, cmds, d) \<Rightarrow>
             if rc \<noteq> 0 \<and> b \<noteq> KERNEL then None
             else Some (p, st'\<lparr>pl_ioctls := pl_ioctls st' @ cmds, pl_dev := d\<rparr>)))"

text \<open>\<^verbatim>\<open>portalTrace_start\<close> and \<^verbatim>\<open>portalTrace_stop\<close>; only the PCIe and simulator builds have the command.\<close>

definition portalTrace :: "u32 \<Rightarrow> build \<Rightarrow> os_calls \<Rightarrow> nat \<Rightarrow> 'd mmio \<Rightarrow> 'd portal_lib \<Rightarrow> 'd portal_lib option" where
  "portalTrace trace b os bar2 m st =
     (case init_directory b os bar2 m st of
        None \<Rightarrow> None
      | Some st' \<Rightarrow>
          Some (if b = ZYNQ \<or> b = KERNEL then st'
                else st'\<lparr>pl_ioctls := pl_ioctls st' @ [Trace (fpga_fd (pl_dir st')) trace]\<rparr>))"

definition portalTrace_start ::
    "build \<Rightarrow> os_calls \<Rightarrow> nat \<Rightarrow> 'd mmio \<Rightarrow> 'd portal_lib \<Rightarrow> 'd portal_lib option" where
  "portalTrace_start = portalTrace 1"

definition portalTrace_stop ::
    "build \<Rightarrow> os_calls \<Rightarrow> nat \<Rightarrow> 'd mmio \<Rightarrow> 'd portal_lib \<Rightarrow> 'd portal_lib option" where
  "portalTrace_stop = portalTrace 0"

section \<open>Clock, cache and allocator wrappers\<close>

text \<open>\<^verbatim>\<open>clk\<close> is the driver's answer: a status, and the rate it set.  Only Zynq has the ioctl.\<close>

definition setClockFrequency :: "build \<Rightarrow> (int \<Rightarrow> int \<Rightarrow> int \<times> int) \<Rightarrow> int \<Rightarrow> int \<Rightarrow> int \<Rightarrow> int \<times> int option" where
  "setClockFrequency b clk errno clkNum requestedFrequency =
     (if b = ZYNQ
      then (case clk clkNum requestedFrequency of (status, rate) \<Rightarrow>
              (if status < 0 then errno else status, if status = 0 then Some rate else None))
      else (0, None))"

text \<open>
  The kernel's cache maintenance on ARM: the ranges cleaned and invalidated, one per entry of the
  buffer's table.
\<close>

definition dcache_flush_ranges :: "sg_entry list \<Rightarrow> (u64 \<times> u64) list" where
  "dcache_flush_ranges sgtable = map (\<lambda>(start, len). (start, start + ucast len)) sgtable"

text \<open>The x86 version touches every byte of the mapping.\<close>

definition dcache_flush_x86 :: "nat \<Rightarrow> int \<Rightarrow> nat list" where
  "dcache_flush_x86 p sz = map (\<lambda>i. p + i) [0..<nat sz]"

definition portalAlloc :: "bool \<Rightarrow> 's kcalls \<Rightarrow> u64 \<Rightarrow> 's pmem \<Rightarrow> (int \<times> 's pmem) kresult" where
  "portalAlloc in_kernel k sz st =
     (if in_kernel then portalmem_dmabuffer_create k sz st
      else case pa_unlocked_ioctl (PA_MALLOC k sz) st of
             Inl e \<Rightarrow> Inl e
           | Inr (rc, _, st') \<Rightarrow> Inr (if rc < 0 then - 1 else rc, st'))"

text \<open>\<^verbatim>\<open>portalMmap\<close> in the kernel: a vmap of the buffer behind the descriptor.\<close>

definition portalMmap_kernel ::
    "bool \<Rightarrow> (nat list \<Rightarrow> vptr) \<Rightarrow> int \<Rightarrow> 's pmem \<Rightarrow> (u64 option \<times> 's pmem) kresult" where
  "portalMmap_kernel vmalloc_ok vmap fd st =
     (case pm_files st fd of
        None \<Rightarrow> Inl NullDeref
      | Some b \<Rightarrow>
          (case pa_dma_buf_vmap vmalloc_ok vmap b of
             Inl e \<Rightarrow> Inl e
           | Inr (v, b') \<Rightarrow> Inr (v, st\<lparr>pm_files := (pm_files st)(fd := Some b')\<rparr>)))"

section \<open>Properties\<close>

lemma dir_READL: "READL dir_mmio a s = dh_read a s"
  by (simp add: READL_def dir_mmio_def)

lemma dh_tick_frame [simp]:
  "dh_portals (dh_tick s) = dh_portals s" "dh_snapshot (dh_tick s) = dh_snapshot s"
  by (simp_all add: dh_tick_def)

text \<open>
  \<^verbatim>\<open>portalCycleCount\<close> is not torn: whatever time passes between its two reads, the 64-bit value
  it assembles is the counter at the first one.
\<close>

theorem cycle_count_atomic:
  "fst (portalCycleCount dir_mmio s) = dh_cycle (dh_tick s)"
  by (simp add: portalCycleCount_def dir_READL dh_read_def Let_def portal_defs flip: join32_def)

fun find_id :: "u32 \<Rightarrow> (u32 \<times> u32) list \<Rightarrow> nat option" where
  "find_id oid [] = None"
| "find_id oid (p # ps) = (if fst p = oid then Some 0 else map_option Suc (find_id oid ps))"

lemma dh_read_id:
  assumes "i < length (dh_portals s)"
  shows "dh_read (PORTAL_DIRECTORY_PORTAL_ID i) s = (fst (dh_portals s ! i), dh_tick s)"
  using assms by (simp add: dh_read_def Let_def portal_defs)

lemma get_fpga_loop_finds:
  assumes "i \<le> length (dh_portals s)"
  shows "fst (get_fpga_loop dir_mmio oid (int (length (dh_portals s))) i s) =
    (case find_id oid (drop i (dh_portals s)) of None \<Rightarrow> 0 | Some k \<Rightarrow> of_nat (i + k + 1))"
  using assms
proof (induction "length (dh_portals s) - i" arbitrary: i s)
  case 0
  then show ?case by (simp add: get_fpga_loop.simps)
next
  case (Suc n)
  then have lt: "i < length (dh_portals s)" by simp
  have d: "drop i (dh_portals s) = dh_portals s ! i # drop (Suc i) (dh_portals s)"
    using lt by (simp add: Cons_nth_drop_Suc)
  have IH: "fst (get_fpga_loop dir_mmio oid (int (length (dh_portals s))) (Suc i) (dh_tick s)) =
      (case find_id oid (drop (Suc i) (dh_portals s)) of None \<Rightarrow> 0 | Some k \<Rightarrow> of_nat (Suc i + k + 1))"
    using Suc(1) [of "dh_tick s" "Suc i"] Suc(2,3) lt by simp
  show ?case
    using lt d IH by (subst get_fpga_loop.simps) (simp add: dir_READL dh_read_id split: option.split)
qed

text \<open>
  \<^verbatim>\<open>portalGetFpga\<close> finds a portal by its interface id: it returns one more than the position of
  the first portal with that id in the directory (device 0 being the directory itself), and 0
  when there is none.
\<close>

theorem get_fpga_finds:
  assumes "length (dh_portals s) < 2 ^ 31"
  shows "fst (portalGetFpga dir_mmio oid s) =
    (case find_id oid (dh_portals s) of None \<Rightarrow> 0 | Some k \<Rightarrow> of_nat (k + 1))"
proof -
  have "unat (of_nat (length (dh_portals s)) :: u32) = length (dh_portals s)"
    using assms by (intro unat_of_nat_less) simp
  then have "sint (of_nat (length (dh_portals s)) :: u32) = int (length (dh_portals s))"
    using assms by (subst sint_unat_small) simp_all
  then show ?thesis
    using get_fpga_loop_finds [of 0 "dh_tick s" oid]
    by (simp add: portalGetFpga_def dir_READL dh_read_def Let_def portal_defs split: option.split)
qed

definition sample_dir :: dir_hw where
  "sample_dir = \<lparr>dh_portals = [(5, 0), (9, 0), (7, 1)], dh_cycle = 0xfffffffe, dh_snapshot = 0, dh_time = 0,
     dh_delay = \<lambda>t. of_nat t + 1\<rparr>"

theorem get_fpga_finds_witness:
  "fst (portalGetFpga dir_mmio 7 sample_dir) = 3 \<and> fst (portalGetFpga dir_mmio 8 sample_dir) = 0"
  using get_fpga_finds [of sample_dir 7] get_fpga_finds [of sample_dir 8]
  by (simp add: sample_dir_def)

lemma map_registers_ok:
  "map_registers os ab p = (0, p') \<Longrightarrow> os_errno os \<noteq> 0 \<Longrightarrow>
     0 \<le> fpga_fd p' \<and> map_base p' \<noteq> None \<and> fpga_number p' = fpga_number p \<and> fpga_fd p' = fpga_fd p"
  by (auto simp: map_registers_def split: if_splits option.splits)

lemma open_portal_ok:
  assumes "open_portal b os bar2 m oid d = (0, p, cmds, d')" and "b = ZYNQ \<or> b = PCIE" and "os_errno os \<noteq> 0"
  shows "0 \<le> fpga_fd p \<and> map_base p \<noteq> None \<and> (b = ZYNQ \<longrightarrow> os_prog_status os = Some (CHR ''1'')) \<and>
    (oid = - 1 \<longrightarrow> fpga_number p = 0) \<and>
    cmds = (if b = ZYNQ then [Enable_interrupt (fpga_fd p) 0xc000 0xc004] else [])"
proof -
  obtain num ab d1 where l: "portal_location m oid d = (num, ab, d1)" by (metis prod_cases3)
  then have "oid = - 1 \<longrightarrow> num = 0" by (auto simp: portal_location_def)
  with assms l show ?thesis
    by (auto simp: open_portal_def Let_def split: if_splits prod.splits dest!: map_registers_ok)
qed

text \<open>
  C25.  In the user-space builds \<^verbatim>\<open>init_portal_internal\<close> returns only with a usable portal: its device
  is open and its registers are mapped; every failure on the way (for which errno is set) ends the
  process.  The directory is initialised by the first call and left alone by later ones.  On Zynq
  the FPGA was programmed and the last command asked the driver to enable the portal's interrupt.
\<close>

theorem init_portal_usable:
  assumes "init_portal_internal b os bar2 m oid st = Some (p, st')" and "b = ZYNQ \<or> b = PCIE"
    and "os_errno os \<noteq> 0"
  shows "0 \<le> fpga_fd p \<and> map_base p \<noteq> None \<and> pl_once st' \<and>
    (pl_once st \<longrightarrow> pl_dir st' = pl_dir st) \<and>
    (b = ZYNQ \<longrightarrow> os_prog_status os = Some (CHR ''1'') \<and>
       last (pl_ioctls st') = Enable_interrupt (fpga_fd p) 0xc000 0xc004) \<and>
    (oid = - 1 \<longrightarrow> fpga_number p = 0)"
proof -
  obtain st1 d cmds where i: "init_directory b os bar2 m st = Some st1"
    and o: "open_portal b os bar2 m oid (pl_dev st1) = (0, p, cmds, d)"
      "st' = st1\<lparr>pl_ioctls := pl_ioctls st1 @ cmds, pl_dev := d\<rparr>"
    using assms by (auto simp: init_portal_internal_def split: option.splits prod.splits if_splits)
  have "pl_once st1 \<and> (pl_once st \<longrightarrow> pl_dir st1 = pl_dir st)"
    using i by (auto simp: init_directory_def split: if_splits prod.splits)
  with open_portal_ok [OF o(1) assms(2,3)] o(2) show ?thesis by simp
qed

definition sample_os :: os_calls where
  "sample_os = \<lparr>os_prog_done = 4, os_prog_status = Some (CHR ''1''), os_open = (\<lambda>n. 10),
     os_errno = 2, os_mmap = (\<lambda>sz. Some 0x7f000000)\<rparr>"

theorem init_portal_usable_witness:
  "\<exists>p st'. init_portal_internal PCIE sample_os 0 dir_mmio 7
       \<lparr>pl_once = True, pl_dir = \<lparr>fpga_fd = 10, fpga_number = 0, map_base = Some 0\<rparr>, pl_ioctls = [], pl_dev = sample_dir\<rparr>
     = Some (p, st') \<and> 0 \<le> fpga_fd p \<and> map_base p \<noteq> None"
proof -
  let ?st = "\<lparr>pl_once = True, pl_dir = \<lparr>fpga_fd = 10, fpga_number = 0, map_base = Some 0\<rparr>, pl_ioctls = [], pl_dev = sample_dir\<rparr>"
  obtain num ab d where l: "portal_location dir_mmio 7 sample_dir = (num, ab, d)" by (metis prod_cases3)
  then obtain p st' where i: "init_portal_internal PCIE sample_os 0 dir_mmio 7 ?st = Some (p, st')"
    by (auto simp: init_portal_internal_def init_directory_def open_portal_def map_registers_def Let_def
        sample_os_def)
  with init_portal_usable [OF i] show ?thesis by (simp add: sample_os_def)
qed

end
