(* ===== verification/Portal_Timer.thy ===== *)
theory Portal_Timer
  imports Portal_Core
begin

text \<open>
  \<^verbatim>\<open>cpp/timer.c\<close>: lap counters over the cycle counter and the statistics kept for each timer.  The
  arrays have 16 start values and 50 timers; an assertion failure ends the process (None), and in
  the kernel build, where assertions are empty, the access is out of bounds (also None).
\<close>

definition MAX_TIMER_COUNT :: nat where "MAX_TIMER_COUNT = 16"
definition MAX_TIMERS :: nat where "MAX_TIMERS = 50"

record timetype =
  tt_total :: u64
  tt_min :: u64
  tt_max :: u64
  tt_over :: u64

record timers =
  c_start :: "u64 list"
  lap_timer_temp :: u64
  tm_timers :: "timetype list"

definition portalTimerStart :: "'d mmio \<Rightarrow> nat \<Rightarrow> timers \<times> 'd \<Rightarrow> (timers \<times> 'd) option" where
  "portalTimerStart m i st =
     (case st of (t, d) \<Rightarrow>
        if i < MAX_TIMER_COUNT
        then (case portalCycleCount m d of (c, d') \<Rightarrow> Some (t\<lparr>c_start := (c_start t)[i := c]\<rparr>, d'))
        else None)"

definition portalTimerLap :: "'d mmio \<Rightarrow> nat \<Rightarrow> timers \<times> 'd \<Rightarrow> (u64 \<times> timers \<times> 'd) option" where
  "portalTimerLap m i st =
     (case st of (t, d) \<Rightarrow>
        (case portalCycleCount m d of (temp, d') \<Rightarrow>
           if i < MAX_TIMER_COUNT
           then Some (temp - c_start t ! i, t\<lparr>lap_timer_temp := temp\<rparr>, d') else None))"

definition portalTimerInit :: "timers \<Rightarrow> timers" where
  "portalTimerInit t =
     t\<lparr>tm_timers := replicate MAX_TIMERS \<lparr>tt_total = 0, tt_min = push_bit 63 1, tt_max = 0, tt_over = 0\<rparr>\<rparr>"

definition timer_add :: "u64 \<Rightarrow> timetype \<Rightarrow> timetype" where
  "timer_add val t =
     (let t1 = (if val > tt_max t then t\<lparr>tt_max := val\<rparr> else t);
          t2 = (if val < tt_min t1 then t1\<lparr>tt_min := val\<rparr> else t1);
          t3 = (if val = 0 then t2\<lparr>tt_over := tt_over t2 + 1\<rparr> else t2)
      in t3\<lparr>tt_total := tt_total t3 + val\<rparr>)"

definition portalTimerCatch :: "'d mmio \<Rightarrow> nat \<Rightarrow> timers \<times> 'd \<Rightarrow> (u64 \<times> timers \<times> 'd) option" where
  "portalTimerCatch m i st =
     (case portalTimerLap m 0 st of
        None \<Rightarrow> None
      | Some (val, t, d) \<Rightarrow>
          if i \<ge> MAX_TIMERS then Some (0, t, d)
          else Some (lap_timer_temp t, t\<lparr>tm_timers := (tm_timers t)[i := timer_add val (tm_timers t ! i)]\<rparr>, d))"

text \<open>The lines printed: timer, average, minimum, maximum, zero laps; None is a division by zero.\<close>

definition portalTimerPrint :: "u64 \<Rightarrow> timers \<Rightarrow> ((nat \<times> u64 \<times> u64 \<times> u64 \<times> u64) list) option" where
  "portalTimerPrint loops t =
     (let used = filter (\<lambda>i. tt_min (tm_timers t ! i) \<noteq> push_bit 63 1) [0..<MAX_TIMERS] in
      if loops = 0 \<and> used \<noteq> [] then None
      else Some (map (\<lambda>i. let x = tm_timers t ! i in
        (i, tt_total x div loops, tt_min x, tt_max x, tt_over x)) used))"

section \<open>Properties\<close>

lemma timer_add_fields:
  "tt_total (timer_add v t) = tt_total t + v"
  "tt_min (timer_add v t) = min v (tt_min t)"
  "tt_max (timer_add v t) = max v (tt_max t)"
  "tt_over (timer_add v t) = tt_over t + of_bool (v = 0)"
  by (auto simp: timer_add_def Let_def min_def max_def not_less word_gt_0 order.order_iff_strict)

lemma timer_add_all:
  "tt_total (fold timer_add vs t) = tt_total t + sum_list vs"
  "tt_min (fold timer_add vs t) = Min (insert (tt_min t) (set vs))"
  "tt_max (fold timer_add vs t) = Max (insert (tt_max t) (set vs))"
  "tt_over (fold timer_add vs t) = tt_over t + of_nat (length (filter (\<lambda>v. v = 0) vs))"
proof (induction vs arbitrary: t)
  case (Cons v vs)
  { case 1 show ?case using Cons(1) by (simp add: timer_add_fields algebra_simps) }
  { case 2
    show ?case using Cons(2) [of "timer_add v t"] by (simp add: timer_add_fields insert_commute min.commute)
        (cases "set vs = {}"; simp add: min.left_commute min.commute min.assoc) }
  { case 3
    show ?case using Cons(3) [of "timer_add v t"] by (simp add: timer_add_fields insert_commute max.commute)
        (cases "set vs = {}"; simp add: max.left_commute max.commute max.assoc) }
  { case 4 show ?case using Cons(4) by (simp add: timer_add_fields algebra_simps) }
qed simp_all

text \<open>A run of laps caught by one timer, with the lap times.\<close>

fun catch_laps :: "'d mmio \<Rightarrow> nat \<Rightarrow> nat \<Rightarrow> timers \<times> 'd \<Rightarrow> (u64 list \<times> timers \<times> 'd) option" where
  "catch_laps m i 0 st = Some ([], st)"
| "catch_laps m i (Suc n) st =
     (case portalTimerCatch m i st of
        None \<Rightarrow> None
      | Some (now, t, d) \<Rightarrow>
          (case catch_laps m i n (t, d) of
             None \<Rightarrow> None
           | Some (vs, st') \<Rightarrow> Some ((now - c_start t ! 0) # vs, st')))"

lemma catch_laps_fold:
  assumes "i < MAX_TIMERS" and "length (tm_timers t) = MAX_TIMERS"
  shows "\<exists>vs t' d'. catch_laps m i n (t, d) = Some (vs, t', d') \<and> length vs = n \<and>
    tm_timers t' = (tm_timers t)[i := fold timer_add vs (tm_timers t ! i)]"
  using assms(2)
proof (induction n arbitrary: t d)
  case (Suc n)
  obtain temp d1 where c: "portalCycleCount m d = (temp, d1)" by force
  let ?v = "temp - c_start t ! 0"
  let ?t = "t\<lparr>lap_timer_temp := temp, tm_timers := (tm_timers t)[i := timer_add ?v (tm_timers t ! i)]\<rparr>"
  have k: "portalTimerCatch m i (t, d) = Some (temp, ?t, d1)"
    using assms(1) c by (simp add: portalTimerCatch_def portalTimerLap_def MAX_TIMER_COUNT_def)
  obtain vs t' d' where IH: "catch_laps m i n (?t, d1) = Some (vs, t', d')" "length vs = n"
    "tm_timers t' = (tm_timers ?t)[i := fold timer_add vs (tm_timers ?t ! i)]"
    using Suc.IH [of ?t d1] Suc.prems by auto
  have "catch_laps m i (Suc n) (t, d) = Some (?v # vs, t', d')" using k IH(1) by simp
  then show ?case
    using IH(2,3) assms(1) Suc.prems by (intro exI [of _ "?v # vs"]) simp
qed simp

text \<open>
  After \<^verbatim>\<open>portalTimerInit\<close>, a timer that has caught any number of laps holds their sum (modulo
  2 ^ 64), their maximum, their minimum (capped at the initial 2 ^ 63) and the number of zero
  laps, and the other timers are untouched.
\<close>

theorem timer_statistics:
  assumes "i < MAX_TIMERS"
  shows "\<exists>vs t' d'. catch_laps m i n (portalTimerInit t, d) = Some (vs, t', d') \<and> length vs = n \<and>
    tt_total (tm_timers t' ! i) = sum_list vs \<and> tt_max (tm_timers t' ! i) = Max (insert 0 (set vs)) \<and>
    tt_min (tm_timers t' ! i) = Min (insert (2 ^ 63) (set vs)) \<and>
    tt_over (tm_timers t' ! i) = of_nat (length (filter (\<lambda>v. v = 0) vs)) \<and>
    (\<forall>j<MAX_TIMERS. j \<noteq> i \<longrightarrow> tm_timers t' ! j = tm_timers (portalTimerInit t) ! j)"
proof -
  let ?z = "\<lparr>tt_total = 0, tt_min = 2 ^ 63, tt_max = 0, tt_over = 0\<rparr>"
  have len: "length (tm_timers (portalTimerInit t)) = MAX_TIMERS" by (simp add: portalTimerInit_def)
  have z: "tm_timers (portalTimerInit t) ! i = ?z" using assms by (simp add: portalTimerInit_def)
  from catch_laps_fold [OF assms len, of m n d] obtain vs t' d' where
    c: "catch_laps m i n (portalTimerInit t, d) = Some (vs, t', d')" "length vs = n"
    "tm_timers t' = (tm_timers (portalTimerInit t))[i := fold timer_add vs ?z]" unfolding z by auto
  have "tm_timers t' ! i = fold timer_add vs ?z" using c(3) assms len by simp
  with c timer_add_all [of vs ?z] show ?thesis by (intro exI [of _ vs]) simp
qed

theorem timer_statistics_witness:
  "\<exists>vs t' d'. catch_laps dir_mmio 3 4 (portalTimerInit \<lparr>c_start = replicate 16 0, lap_timer_temp = 0, tm_timers = []\<rparr>, sample_dir)
     = Some (vs, t', d') \<and> length vs = 4 \<and> tt_total (tm_timers t' ! 3) = sum_list vs"
  using timer_statistics [of 3 dir_mmio 4 "\<lparr>c_start = replicate 16 0, lap_timer_temp = 0, tm_timers = []\<rparr>" sample_dir]
  by (auto simp: MAX_TIMERS_def)

end
