(* ===== verification/Bsim_Link.thy ===== *)
theory Bsim_Link
  imports Portal_Io
begin

text \<open>
  Running against the simulator: \<^verbatim>\<open>cpp/sock_utils.c\<close> (application side), \<^verbatim>\<open>cpp/BsimCtrl.cxx\<close> and
  \<^verbatim>\<open>cpp/BsimDma.cxx\<close> (the functions the simulated design calls).  READL and WRITEL become messages
  on a socket; responses share the socket with interrupt notifications.  The two byte streams are
  queues of whole messages, and the simulator acts while the application waits for a response, in
  any order given as a list of actions.
\<close>

definition MAGIC_PORTAL_FOR_SENDING_FD :: int where "MAGIC_PORTAL_FOR_SENDING_FD = 666"
definition MAGIC_PORTAL_FOR_SENDING_INTERRUPT :: int where "MAGIC_PORTAL_FOR_SENDING_INTERRUPT = 999"

record memrequest =
  mq_portal :: int
  mq_write_flag :: u32
  mq_addr :: u64
  mq_data :: u32

record memresponse =
  ms_portal :: int
  ms_data :: u32

datatype sock_item = SockReq memrequest | SockFd int

record 'd bsim =
  bs_to_sim :: "sock_item list"
  bs_to_app :: "memresponse list"
  bs_interrupt_value :: u32
  bs_req :: memrequest
  bs_valid :: bool
  bs_inflight :: bool
  bs_respitem :: memresponse
  bs_dma_fd :: int
  bs_dma_waiting :: nat
  bs_last_level :: u32
  bs_hw :: 'd

section \<open>The simulator's side\<close>

text \<open>\<^verbatim>\<open>bsim_ctrl_recv\<close>: a request, with a descriptor read behind it if it announces one; \<^verbatim>\<open>Inl\<close> is exit.\<close>

definition bsim_ctrl_recv :: "'d bsim \<Rightarrow> kfault + memrequest option \<times> 'd bsim" where
  "bsim_ctrl_recv st =
     (case bs_to_sim st of
        SockReq q # rest \<Rightarrow>
          if mq_portal q = MAGIC_PORTAL_FOR_SENDING_FD
          then (case rest of
                  SockFd fd # rest' \<Rightarrow> Inr (Some (q\<lparr>mq_data := of_int fd\<rparr>), st\<lparr>bs_to_sim := rest'\<rparr>)
                | _ \<Rightarrow> Inl OutOfBounds)
          else Inr (Some q, st\<lparr>bs_to_sim := rest\<rparr>)
      | SockFd fd # rest \<Rightarrow> Inl OutOfBounds
      | [] \<Rightarrow> Inr (None, st))"

definition bsim_ctrl_send :: "memresponse \<Rightarrow> 'd bsim \<Rightarrow> 'd bsim" where
  "bsim_ctrl_send r st = st\<lparr>bs_to_app := bs_to_app st @ [r]\<rparr>"

definition processReq32 :: "u32 \<Rightarrow> 'd bsim \<Rightarrow> kfault + bool \<times> 'd bsim" where
  "processReq32 rr st =
     (let answer = (\<lambda>s. Inr (bs_valid s \<and> bs_inflight s \<and> mq_write_flag (bs_req s) = rr, s)) in
      if bs_valid st then answer st
      else case bsim_ctrl_recv st of
             Inl e \<Rightarrow> Inl e
           | Inr (None, st1) \<Rightarrow> answer st1
           | Inr (Some q, st1) \<Rightarrow>
               let st2 = st1\<lparr>bs_req := q, bs_respitem := (bs_respitem st1)\<lparr>ms_portal := mq_portal q\<rparr>\<rparr> in
               if mq_portal q = MAGIC_PORTAL_FOR_SENDING_FD
               then Inr (False, st2\<lparr>bs_dma_fd := sint (mq_data q), bs_dma_waiting := bs_dma_waiting st2 + 1\<rparr>)
               else answer (st2\<lparr>bs_valid := True, bs_inflight := True,
                      bs_req := q\<lparr>mq_addr := mq_addr q OR push_bit 16 (of_int (mq_portal q))\<rparr>\<rparr>))"

text \<open>The design takes the low 32 bits of the address.\<close>

definition processAddr32 :: "'d bsim \<Rightarrow> nat \<times> 'd bsim" where
  "processAddr32 st = (unat (ucast (mq_addr (bs_req st)) :: u32), st\<lparr>bs_inflight := False\<rparr>)"

definition writeData32 :: "'d bsim \<Rightarrow> u32 \<times> 'd bsim" where
  "writeData32 st = (mq_data (bs_req st), st\<lparr>bs_valid := False\<rparr>)"

definition readData32 :: "u32 \<Rightarrow> 'd bsim \<Rightarrow> 'd bsim" where
  "readData32 x st =
     (let r = (bs_respitem st)\<lparr>ms_data := x\<rparr>
      in bsim_ctrl_send r (st\<lparr>bs_valid := False, bs_respitem := r\<rparr>))"

definition interruptLevel :: "u32 \<Rightarrow> 'd bsim \<Rightarrow> 'd bsim" where
  "interruptLevel ivalue st =
     (if ivalue \<noteq> bs_last_level st
      then let r = \<lparr>ms_portal = MAGIC_PORTAL_FOR_SENDING_INTERRUPT, ms_data = ivalue\<rparr>
           in (bsim_ctrl_send r (st\<lparr>bs_last_level := ivalue\<rparr>))
                \<lparr>bs_respitem := (bs_respitem st)\<lparr>ms_data := ivalue\<rparr>\<rparr>
      else st)"

text \<open>\<^verbatim>\<open>pareff_fd\<close>: the slot for the descriptor holds one; None while it would block.\<close>

definition pareff_fd :: "'d bsim \<Rightarrow> (int \<times> 'd bsim) option" where
  "pareff_fd st =
     (if bs_dma_waiting st > 0
      then Some (bs_dma_fd st, st\<lparr>bs_dma_fd := - 1, bs_dma_waiting := bs_dma_waiting st - 1\<rparr>)
      else None)"

text \<open>
  One bus transaction of the simulated design: ask for a write, then for a read, and carry out
  the one that is there.
\<close>

definition serve_write :: "'d mmio \<Rightarrow> 'd bsim \<Rightarrow> 'd bsim" where
  "serve_write m st =
     (case processAddr32 st of (a, st1) \<Rightarrow>
        (case writeData32 st1 of (v, st2) \<Rightarrow> st2\<lparr>bs_hw := WRITEL m a v (bs_hw st2)\<rparr>))"

definition serve_read :: "'d mmio \<Rightarrow> 'd bsim \<Rightarrow> 'd bsim" where
  "serve_read m st =
     (case processAddr32 st of (a, st1) \<Rightarrow>
        (case READL m a (bs_hw st1) of (v, d) \<Rightarrow> readData32 v (st1\<lparr>bs_hw := d\<rparr>)))"

definition serve :: "'d mmio \<Rightarrow> 'd bsim \<Rightarrow> kfault + 'd bsim" where
  "serve m st =
     (case processReq32 1 st of
        Inl e \<Rightarrow> Inl e
      | Inr (True, st1) \<Rightarrow> Inr (serve_write m st1)
      | Inr (False, st1) \<Rightarrow>
          (case processReq32 0 st1 of
             Inl e \<Rightarrow> Inl e
           | Inr (True, st2) \<Rightarrow> Inr (serve_read m st2)
           | Inr (False, st2) \<Rightarrow> Inr st2))"

datatype sim_act = Serve | Level u32

fun run_act :: "'d mmio \<Rightarrow> sim_act \<Rightarrow> 'd bsim \<Rightarrow> kfault + 'd bsim" where
  "run_act m Serve st = serve m st"
| "run_act m (Level v) st = Inr (interruptLevel v st)"

section \<open>The application's side\<close>

text \<open>
  \<^verbatim>\<open>connect_to_bsim\<close>: \<^verbatim>\<open>connects\<close> are the outcomes of successive calls of \<^verbatim>\<open>connect\<close>.  None is exit(1).
\<close>

fun connect_loop :: "nat \<Rightarrow> bool list \<Rightarrow> nat option" where
  "connect_loop attempts [] = None"
| "connect_loop attempts (ok # oks) =
     (if ok then Some attempts else if attempts > 16 then None else connect_loop (attempts + 1) oks)"

definition connect_to_bsim :: "int \<Rightarrow> int \<Rightarrow> bool list \<Rightarrow> int option" where
  "connect_to_bsim global_sockfd socket_result connects =
     (if global_sockfd \<noteq> - 1 then Some global_sockfd
      else if socket_result = - 1 then None
      else case connect_loop 0 connects of None \<Rightarrow> None | Some _ \<Rightarrow> Some socket_result)"

definition app_send :: "sock_item \<Rightarrow> 'd bsim \<Rightarrow> 'd bsim" where
  "app_send i st = st\<lparr>bs_to_sim := bs_to_sim st @ [i]\<rparr>"

definition bluesim_sock_fd_write :: "int \<Rightarrow> 'd bsim \<Rightarrow> 'd bsim" where
  "bluesim_sock_fd_write fd st =
     app_send (SockFd fd)
       (app_send (SockReq \<lparr>mq_portal = MAGIC_PORTAL_FOR_SENDING_FD, mq_write_flag = 0, mq_addr = 0, mq_data = 0\<rparr>) st)"

definition write_portal_bsim :: "u64 \<Rightarrow> u32 \<Rightarrow> int \<Rightarrow> 'd bsim \<Rightarrow> 'd bsim" where
  "write_portal_bsim addr v pid st =
     app_send (SockReq \<lparr>mq_portal = pid, mq_write_flag = 1, mq_addr = addr, mq_data = v\<rparr>) st"

text \<open>
  The receive loop of \<^verbatim>\<open>read_portal_bsim\<close>.  When nothing has arrived the simulator performs its next
  action; the result is None if the actions run out first (the application still waits) or the
  simulator ended.
\<close>

function recv_loop :: "'d mmio \<Rightarrow> sim_act list \<Rightarrow> 'd bsim \<Rightarrow> (u32 \<times> sim_act list \<times> 'd bsim) option" where
  "recv_loop m acts st =
     (case bs_to_app st of
        r # rest \<Rightarrow>
          let st1 = st\<lparr>bs_to_app := rest\<rparr> in
          if ms_portal r = MAGIC_PORTAL_FOR_SENDING_INTERRUPT
          then recv_loop m acts (st1\<lparr>bs_interrupt_value := ms_data r\<rparr>)
          else Some (ms_data r, acts, st1)
      | [] \<Rightarrow>
          (case acts of
             [] \<Rightarrow> None
           | a # as \<Rightarrow> (case run_act m a st of Inl e \<Rightarrow> None | Inr st' \<Rightarrow> recv_loop m as st')))"
  by pat_completeness auto
termination
  by (relation "measures [\<lambda>(m, acts, st). length acts, \<lambda>(m, acts, st). length (bs_to_app st)]") auto

declare recv_loop.simps [simp del]

definition read_portal_bsim ::
    "'d mmio \<Rightarrow> sim_act list \<Rightarrow> u64 \<Rightarrow> int \<Rightarrow> 'd bsim \<Rightarrow> (u32 \<times> sim_act list \<times> 'd bsim) option" where
  "read_portal_bsim m acts addr pid st =
     recv_loop m acts (app_send (SockReq \<lparr>mq_portal = pid, mq_write_flag = 0, mq_addr = addr, mq_data = 0\<rparr>) st)"

definition bsim_poll_interrupt :: "bool \<Rightarrow> 'd bsim \<Rightarrow> u32 \<times> 'd bsim" where
  "bsim_poll_interrupt connected st =
     (if \<not> connected then (0, st)
      else case bs_to_app st of
             [] \<Rightarrow> (bs_interrupt_value st, st)
           | r # rest \<Rightarrow>
               let st' = (if ms_portal r = MAGIC_PORTAL_FOR_SENDING_INTERRUPT
                          then st\<lparr>bs_to_app := rest, bs_interrupt_value := ms_data r\<rparr>
                          else st\<lparr>bs_to_app := rest\<rparr>)
               in (bs_interrupt_value st', st'))"

section \<open>The socket is a bus\<close>

text \<open>The bus address of a request, and the effect of the writes that are still on their way.\<close>

definition bus_addr :: "int \<Rightarrow> u64 \<Rightarrow> nat" where
  "bus_addr pid addr = unat (ucast (addr OR push_bit 16 (of_int pid)) :: u32)"

definition bus_write :: "'d mmio \<Rightarrow> memrequest \<Rightarrow> 'd \<Rightarrow> 'd" where
  "bus_write m q d = WRITEL m (bus_addr (mq_portal q) (mq_addr q)) (mq_data q) d"

definition is_write :: "memrequest \<Rightarrow> bool" where
  "is_write q \<longleftrightarrow> mq_write_flag q = 1 \<and> mq_portal q \<noteq> MAGIC_PORTAL_FOR_SENDING_FD"

definition serves :: "sim_act list \<Rightarrow> nat" where
  "serves acts = length (filter (\<lambda>a. a = Serve) acts)"

lemmas bsim_defs = serve_def processReq32_def bsim_ctrl_recv_def serve_write_def serve_read_def
  processAddr32_def writeData32_def readData32_def bsim_ctrl_send_def Let_def

lemma serve_one_write:
  assumes "\<not> bs_valid st" and "bs_to_sim st = SockReq q # rest" and "is_write q"
  shows "\<exists>st'. serve m st = Inr st' \<and> \<not> bs_valid st' \<and> bs_to_sim st' = rest \<and>
    bs_to_app st' = bs_to_app st \<and> bs_hw st' = bus_write m q (bs_hw st)"
  using assms by (simp add: bsim_defs is_write_def bus_write_def bus_addr_def)

lemma serve_one_read:
  assumes "\<not> bs_valid st" and "bs_to_sim st = SockReq q # rest" and "mq_write_flag q = 0"
    and "mq_portal q \<noteq> MAGIC_PORTAL_FOR_SENDING_FD"
    and "READL m (bus_addr (mq_portal q) (mq_addr q)) (bs_hw st) = (v, d)"
  shows "\<exists>st'. serve m st = Inr st' \<and> \<not> bs_valid st' \<and> bs_to_sim st' = rest \<and>
    bs_to_app st' = bs_to_app st @ [\<lparr>ms_portal = mq_portal q, ms_data = v\<rparr>] \<and> bs_hw st' = d"
  using assms by (simp add: bsim_defs bus_addr_def)

lemma interrupt_frame:
  "bs_to_sim (interruptLevel v st) = bs_to_sim st" "bs_valid (interruptLevel v st) = bs_valid st"
  "bs_hw (interruptLevel v st) = bs_hw st"
  "bs_to_app (interruptLevel v st) = bs_to_app st @
     (if v \<noteq> bs_last_level st then [\<lparr>ms_portal = MAGIC_PORTAL_FOR_SENDING_INTERRUPT, ms_data = v\<rparr>] else [])"
  by (auto simp: interruptLevel_def bsim_ctrl_send_def Let_def)

text \<open>Interrupt notifications in front of a response are taken in and skipped.\<close>

lemma recv_skips_interrupts:
  assumes "list_all (\<lambda>r. ms_portal r = MAGIC_PORTAL_FOR_SENDING_INTERRUPT) (bs_to_app st)"
  shows "\<exists>iv. recv_loop m acts st = recv_loop m acts (st\<lparr>bs_to_app := [], bs_interrupt_value := iv\<rparr>)"
  using assms
proof (induction "bs_to_app st" arbitrary: st)
  case Nil
  then have "st\<lparr>bs_to_app := [], bs_interrupt_value := bs_interrupt_value st\<rparr> = st" by simp
  then show ?case by metis
next
  case (Cons r rest)
  have r: "ms_portal r = MAGIC_PORTAL_FOR_SENDING_INTERRUPT"
    using Cons.prems Cons(2) [symmetric] by simp
  let ?s = "st\<lparr>bs_to_app := rest, bs_interrupt_value := ms_data r\<rparr>"
  have l: "list_all (\<lambda>r. ms_portal r = MAGIC_PORTAL_FOR_SENDING_INTERRUPT) (bs_to_app ?s)"
    using Cons.prems Cons(2) [symmetric] by simp
  have "recv_loop m acts st = recv_loop m acts ?s"
    using Cons(2) [symmetric] r by (subst recv_loop.simps) (simp add: Let_def)
  with Cons(1) [of ?s] l show ?case by auto
qed

text \<open>The wait of a read whose request is behind the writes \<^verbatim>\<open>ws\<close>.\<close>

lemma recv_loop_answers:
  assumes "\<not> bs_valid st" and "bs_to_app st = []"
    and "bs_to_sim st = map SockReq (ws @ [q])" and "list_all is_write ws"
    and "mq_write_flag q = 0" and "mq_portal q \<noteq> MAGIC_PORTAL_FOR_SENDING_FD"
    and "mq_portal q \<noteq> MAGIC_PORTAL_FOR_SENDING_INTERRUPT" and "length ws < serves acts"
    and "READL m (bus_addr (mq_portal q) (mq_addr q)) (fold (bus_write m) ws (bs_hw st)) = (v, d)"
  shows "\<exists>acts' st'. recv_loop m acts st = Some (v, acts', st') \<and> \<not> bs_valid st' \<and>
    bs_to_sim st' = [] \<and> bs_to_app st' = [] \<and> bs_hw st' = d"
  using assms
proof (induction acts arbitrary: st ws)
  case Nil
  then show ?case by (simp add: serves_def)
next
  case (Cons a acts)
  note ws = Cons.prems(3,4)
  show ?case
  proof (cases a)
    case (Level x)
    let ?s = "interruptLevel x st"
    have "list_all (\<lambda>r. ms_portal r = MAGIC_PORTAL_FOR_SENDING_INTERRUPT) (bs_to_app ?s)"
      using Cons.prems(2) by (simp add: interrupt_frame)
    then obtain iv where iv: "recv_loop m acts ?s = recv_loop m acts (?s\<lparr>bs_to_app := [], bs_interrupt_value := iv\<rparr>)"
      using recv_skips_interrupts by blast
    have "recv_loop m (a # acts) st = recv_loop m acts ?s"
      using Cons.prems(2) Level by (subst recv_loop.simps) simp
    moreover have "length ws < serves acts" using Cons.prems(8) Level by (simp add: serves_def)
    ultimately show ?thesis
      using Cons.IH [of "?s\<lparr>bs_to_app := [], bs_interrupt_value := iv\<rparr>" ws] Cons.prems iv
      by (simp add: interrupt_frame)
  next
    case Serve
    show ?thesis
    proof (cases ws)
      case Nil
      then obtain st' where st': "serve m st = Inr st'" "\<not> bs_valid st'" "bs_to_sim st' = []"
        "bs_to_app st' = [\<lparr>ms_portal = mq_portal q, ms_data = v\<rparr>]" "bs_hw st' = d"
        using serve_one_read [of st q "[]" m v d] Cons.prems by auto
      have "recv_loop m (a # acts) st = recv_loop m acts st'"
        using Cons.prems(2) Serve st'(1) by (subst recv_loop.simps) simp
      also have "\<dots> = Some (v, acts, st'\<lparr>bs_to_app := []\<rparr>)"
        using st'(4) Cons.prems(7) by (subst recv_loop.simps) simp
      finally show ?thesis using st' by simp
    next
      case ws': (Cons w ws')
      then obtain st' where st': "serve m st = Inr st'" "\<not> bs_valid st'"
        "bs_to_sim st' = map SockReq (ws' @ [q])" "bs_to_app st' = []" "bs_hw st' = bus_write m w (bs_hw st)"
        using serve_one_write [of st w "map SockReq (ws' @ [q])" m] Cons.prems by auto
      have "recv_loop m (a # acts) st = recv_loop m acts st'"
        using Cons.prems(2) Serve st'(1) by (subst recv_loop.simps) simp
      with Cons.IH [of st' ws'] st' Cons.prems ws' Serve show ?thesis by (simp add: serves_def)
    qed
  qed
qed

text \<open>
  C27.  A read through the simulator socket is a bus read: while interrupt notifications and posted
  writes are in transit, in any order of the simulator's actions that serves enough requests,
  \<^verbatim>\<open>read_portal_bsim\<close> returns the value the device gives after all earlier writes were applied in
  order, and leaves the link drained.
\<close>

theorem bsim_read_is_bus_read:
  assumes "\<not> bs_valid st" and "bs_to_sim st = map SockReq ws" and "list_all is_write ws"
    and "list_all (\<lambda>r. ms_portal r = MAGIC_PORTAL_FOR_SENDING_INTERRUPT) (bs_to_app st)"
    and "pid \<noteq> MAGIC_PORTAL_FOR_SENDING_FD" and "pid \<noteq> MAGIC_PORTAL_FOR_SENDING_INTERRUPT"
    and "length ws < serves acts"
  shows "\<exists>acts' st'. read_portal_bsim m acts addr pid st =
      Some (fst (READL m (bus_addr pid addr) (fold (bus_write m) ws (bs_hw st))), acts', st') \<and>
    bs_hw st' = snd (READL m (bus_addr pid addr) (fold (bus_write m) ws (bs_hw st))) \<and>
    \<not> bs_valid st' \<and> bs_to_sim st' = [] \<and> bs_to_app st' = []"
proof -
  let ?q = "\<lparr>mq_portal = pid, mq_write_flag = 0, mq_addr = addr, mq_data = 0\<rparr>"
  let ?s = "app_send (SockReq ?q) st"
  obtain v d where vd: "READL m (bus_addr pid addr) (fold (bus_write m) ws (bs_hw st)) = (v, d)" by force
  obtain iv where "recv_loop m acts ?s = recv_loop m acts (?s\<lparr>bs_to_app := [], bs_interrupt_value := iv\<rparr>)"
    using recv_skips_interrupts [of ?s m acts] assms(4) by (auto simp: app_send_def)
  moreover have "\<exists>acts' st'. recv_loop m acts (?s\<lparr>bs_to_app := [], bs_interrupt_value := iv\<rparr>) = Some (v, acts', st') \<and>
      \<not> bs_valid st' \<and> bs_to_sim st' = [] \<and> bs_to_app st' = [] \<and> bs_hw st' = d"
    using assms vd by (intro recv_loop_answers [where ws = ws and q = ?q]) (simp_all add: app_send_def)
  ultimately show ?thesis using vd by (auto simp: read_portal_bsim_def)
qed

text \<open>A register file as the simulated device.\<close>

definition regs_mmio :: "(nat \<Rightarrow> u32) mmio" where
  "regs_mmio = \<lparr>mm_read = \<lambda>a d. (d a, d), mm_write = \<lambda>a v d. d(a := v)\<rparr>"

definition sample_bsim :: "(nat \<Rightarrow> u32) bsim" where
  "sample_bsim = \<lparr>bs_to_sim = [], bs_to_app = [\<lparr>ms_portal = 999, ms_data = 1\<rparr>], bs_interrupt_value = 0,
     bs_req = \<lparr>mq_portal = 0, mq_write_flag = 0, mq_addr = 0, mq_data = 0\<rparr>, bs_valid = False, bs_inflight = False,
     bs_respitem = \<lparr>ms_portal = 0, ms_data = 0\<rparr>, bs_dma_fd = - 1, bs_dma_waiting = 0, bs_last_level = 1,
     bs_hw = \<lambda>_. 0\<rparr>"

theorem bsim_read_is_bus_read_witness:
  "\<exists>acts' st'. read_portal_bsim regs_mmio [Level 0, Serve, Level 1, Serve] 0x104 3
     (write_portal_bsim 0x104 42 3 sample_bsim) = Some (42, acts', st')"
  using bsim_read_is_bus_read [of "write_portal_bsim 0x104 42 3 sample_bsim"
      "[\<lparr>mq_portal = 3, mq_write_flag = 1, mq_addr = 0x104, mq_data = 42\<rparr>]" 3
      "[Level 0, Serve, Level 1, Serve]" regs_mmio "0x104"]
  by (auto simp: write_portal_bsim_def app_send_def sample_bsim_def is_write_def serves_def
      MAGIC_PORTAL_FOR_SENDING_FD_def MAGIC_PORTAL_FOR_SENDING_INTERRUPT_def regs_mmio_def bus_write_def
      READL_def WRITEL_def)

text \<open>
  The simulator keeps one descriptor: if two are received before the first is fetched, the
  semaphore counts two but the first descriptor is lost and the second fetch yields -1.
\<close>

theorem bsim_fd_lost:
  assumes "\<not> bs_valid st" and "bs_to_sim st = []" and "bs_dma_waiting st = 0"
    and "fd1 \<in> {- (2 ^ 31)..<2 ^ 31}" and "fd2 \<in> {- (2 ^ 31)..<2 ^ 31}"
  shows "\<exists>st1 st2 st3. serve m (bluesim_sock_fd_write fd2 (bluesim_sock_fd_write fd1 st)) = Inr st1 \<and>
    pareff_fd st1 = Some (fd2, st2) \<and> pareff_fd st2 = Some (- 1, st3)"
proof -
  have f: "sint (of_int fd2 :: u32) = fd2"
    using assms(5) by (simp add: signed_of_int signed_take_bit_int_eq_self)
  show ?thesis
    using assms f
    by (simp add: bluesim_sock_fd_write_def app_send_def serve_def processReq32_def bsim_ctrl_recv_def Let_def
        pareff_fd_def)
qed

theorem bsim_fd_lost_witness:
  "\<exists>st1 st2 st3. serve regs_mmio (bluesim_sock_fd_write 8 (bluesim_sock_fd_write 7 sample_bsim)) = Inr st1 \<and>
    pareff_fd st1 = Some (8, st2) \<and> pareff_fd st2 = Some (- 1, st3)"
  by (rule bsim_fd_lost) (simp_all add: sample_bsim_def)

section \<open>Buffers of the simulated memory\<close>

text \<open>
  \<^verbatim>\<open>BsimDma.cxx\<close>: the design announces the sizes of an object's entries and a zero; the object is then
  mapped from the descriptor received before.  An access outside the mapping is a fault.
\<close>

record dma_info =
  di_buffer :: "(int \<times> u8 list) option"
  di_buffer_len :: u32
  di_size_accum :: u32

text \<open>\<^verbatim>\<open>mmap\<close> gives the contents of the file behind the descriptor, or fails (exit).\<close>

definition pareff ::
    "(int \<Rightarrow> u32 \<Rightarrow> u8 list option) \<Rightarrow> u32 \<Rightarrow> u32 \<Rightarrow> (nat \<Rightarrow> dma_info) \<times> 'd bsim \<Rightarrow>
       ((nat \<Rightarrow> dma_info) \<times> 'd bsim) option" where
  "pareff mmap apref sz st =
     (case st of (info, s) \<Rightarrow>
        let pref = unat (drop_bit 8 apref) in
        if \<not> pref < 32 then None
        else let i = (info pref)\<lparr>di_size_accum := di_size_accum (info pref) + sz\<rparr> in
          if sz = 0
          then (case pareff_fd s of
                  None \<Rightarrow> None
                | Some (fd, s') \<Rightarrow>
                    (case mmap fd (di_size_accum i) of
                       None \<Rightarrow> None
                     | Some bytes \<Rightarrow>
                         Some (info(pref := i\<lparr>di_buffer := Some (fd, bytes), di_buffer_len := di_size_accum i\<rparr>), s')))
          else Some (info(pref := i), s))"

definition le_bytes :: "nat \<Rightarrow> 'a::len word \<Rightarrow> u8 list" where
  "le_bytes n w = map (\<lambda>i. ucast (drop_bit (8 * i) w)) [0..<n]"

definition le_word :: "u8 list \<Rightarrow> 'a::len word" where
  "le_word bs = foldr (\<lambda>b acc. push_bit 8 acc OR ucast b) bs 0"

definition write_pareff :: "nat \<Rightarrow> nat \<Rightarrow> nat \<Rightarrow> 'a::len word \<Rightarrow> (nat \<Rightarrow> dma_info) \<Rightarrow> (nat \<Rightarrow> dma_info) kresult" where
  "write_pareff n pref offset w info =
     (if \<not> pref < 32 then Inl OutOfBounds
      else case di_buffer (info pref) of
             None \<Rightarrow> Inl NullDeref
           | Some (fd, bytes) \<Rightarrow>
               if offset + n \<le> length bytes
               then Inr (info(pref := (info pref)\<lparr>di_buffer :=
                      Some (fd, take offset bytes @ le_bytes n w @ drop (offset + n) bytes)\<rparr>))
               else Inl OutOfBounds)"

definition read_pareff :: "nat \<Rightarrow> nat \<Rightarrow> nat \<Rightarrow> (nat \<Rightarrow> dma_info) \<Rightarrow> ('a::len word) kresult" where
  "read_pareff n pref offset info =
     (if \<not> pref < 32 then Inl OutOfBounds
      else case di_buffer (info pref) of
             None \<Rightarrow> Inl NullDeref
           | Some (fd, bytes) \<Rightarrow>
               if offset + n \<le> length bytes then Inr (le_word (take n (drop offset bytes))) else Inl OutOfBounds)"

definition write_pareff32 :: "u32 \<Rightarrow> u32 \<Rightarrow> u32 \<Rightarrow> (nat \<Rightarrow> dma_info) \<Rightarrow> (nat \<Rightarrow> dma_info) kresult" where
  "write_pareff32 pref offset w = write_pareff 4 (unat pref) (unat offset) w"

definition read_pareff32 :: "u32 \<Rightarrow> u32 \<Rightarrow> (nat \<Rightarrow> dma_info) \<Rightarrow> u32 kresult" where
  "read_pareff32 pref offset = read_pareff 4 (unat pref) (unat offset)"

definition write_pareff64 :: "u32 \<Rightarrow> u32 \<Rightarrow> u64 \<Rightarrow> (nat \<Rightarrow> dma_info) \<Rightarrow> (nat \<Rightarrow> dma_info) kresult" where
  "write_pareff64 pref offset w = write_pareff 8 (unat pref) (unat offset) w"

definition read_pareff64 :: "u32 \<Rightarrow> u32 \<Rightarrow> (nat \<Rightarrow> dma_info) \<Rightarrow> u64 kresult" where
  "read_pareff64 pref offset = read_pareff 8 (unat pref) (unat offset)"

end
