(* ===== verification/Bsim_Kernel.thy ===== *)
theory Bsim_Kernel
  imports Bsim_Link
begin

text \<open>
  Running a test program in the kernel against a simulator in user space: the kernel half of
  \<^verbatim>\<open>cpp/sock_utils.c\<close>, the module \<^verbatim>\<open>cpp/kernel_module.c\<close> that starts the program, and the relay process
  \<^verbatim>\<open>cpp/bsim_relay.c\<close> that reads requests from the module's device file and passes them to the
  simulator.  The program's thread and the relay interleave; they meet in two variables
  (\<^verbatim>\<open>upreq\<close>, \<^verbatim>\<open>downresp\<close>) guarded by semaphores.  A request the relay passes on is a bus access of the
  simulated device, as \<^verbatim>\<open>Bsim_Link\<close> shows of \<^verbatim>\<open>read_portal_bsim\<close> and \<^verbatim>\<open>write_portal_bsim\<close>; descriptors
  passed on are kept in a list.
\<close>

section \<open>The module's side\<close>

record kbsim =
  bsim_relay_running :: bool
  main_program_finished :: bool
  bsim_start :: nat
  bsim_avail :: nat
  bsim_have_response :: nat
  have_request :: bool
  upreq :: memrequest
  downresp :: memresponse

definition kbsim_init :: kbsim where
  "kbsim_init = \<lparr>bsim_relay_running = False, main_program_finished = False, bsim_start = 0, bsim_avail = 0,
     bsim_have_response = 0, have_request = False,
     upreq = \<lparr>mq_portal = 0, mq_write_flag = 0, mq_addr = 0, mq_data = 0\<rparr>,
     downresp = \<lparr>ms_portal = 0, ms_data = 0\<rparr>\<rparr>"

text \<open>
  \<^verbatim>\<open>xbsv_kernel_read\<close> of a whole request.  The pointer to a buffer becomes a descriptor of the relay
  process (\<^verbatim>\<open>dma_buf_fd\<close>, a kernel function).
\<close>

datatype kread = Read_done | Read_again | Read_request memrequest

definition xbsv_kernel_read :: "(u64 \<Rightarrow> int) \<Rightarrow> kbsim \<Rightarrow> kread \<times> kbsim" where
  "xbsv_kernel_read dma_buf_fd k =
     (let k1 = k\<lparr>bsim_start := (if bsim_relay_running k then bsim_start k else bsim_start k + 1),
                 bsim_relay_running := True\<rparr> in
      if main_program_finished k1 then (Read_done, k1)
      else if \<not> have_request k1 then (Read_again, k1)
      else let r = (if mq_portal (upreq k1) = MAGIC_PORTAL_FOR_SENDING_FD
                    then (upreq k1)\<lparr>mq_addr := of_int (dma_buf_fd (mq_addr (upreq k1)))\<rparr> else upreq k1)
           in (Read_request r, k1\<lparr>upreq := r, have_request := False, bsim_avail := bsim_avail k1 + 1\<rparr>))"

definition xbsv_kernel_write :: "bool \<Rightarrow> memresponse \<Rightarrow> kbsim \<Rightarrow> kbsim" where
  "xbsv_kernel_write copy_ok r k =
     (if copy_ok then k\<lparr>downresp := r, bsim_have_response := bsim_have_response k + 1\<rparr> else k)"

section \<open>The program's thread\<close>

text \<open>
  The three operations of the program, with the request each sends: the initialisers
  \<^verbatim>\<open>{id, 0, addr, 0}\<close>, \<^verbatim>\<open>{id, 1, addr, v}\<close> and \<^verbatim>\<open>{MAGIC_PORTAL_FOR_SENDING_FD}\<close> with the buffer's pointer.
\<close>

datatype kop = KRead int u64 | KWrite int u64 u32 | KFd u64

fun kreq :: "kop \<Rightarrow> memrequest" where
  "kreq (KRead pid addr) = \<lparr>mq_portal = pid, mq_write_flag = 0, mq_addr = addr, mq_data = 0\<rparr>"
| "kreq (KWrite pid addr v) = \<lparr>mq_portal = pid, mq_write_flag = 1, mq_addr = addr, mq_data = v\<rparr>"
| "kreq (KFd buf) = \<lparr>mq_portal = MAGIC_PORTAL_FOR_SENDING_FD, mq_write_flag = 0, mq_addr = buf, mq_data = 0\<rparr>"

text \<open>\<^verbatim>\<open>bluesim_sock_fd_write\<close> finds the buffer through the descriptor; an unknown one is a null file.\<close>

definition kfd_op :: "(int \<Rightarrow> u64 option) \<Rightarrow> int \<Rightarrow> kop kresult" where
  "kfd_op files fd = (case files fd of None \<Rightarrow> Inl NullDeref | Some buf \<Rightarrow> Inr (KFd buf))"

definition kwaits :: "kop \<Rightarrow> bool" where
  "kwaits op = (case op of KWrite _ _ _ \<Rightarrow> False | _ \<Rightarrow> True)"

definition kresult_of :: "kop \<Rightarrow> u32 \<Rightarrow> u32" where
  "kresult_of op v = (case op of KRead _ _ \<Rightarrow> v | _ \<Rightarrow> 0)"

text \<open>
  Where the thread is: before \<^verbatim>\<open>connect_to_bsim\<close>, in its wait for the relay, between operations,
  past the wait for \<^verbatim>\<open>bsim_avail\<close>, in the wait for a response, or past the end of \<^verbatim>\<open>main\<close>.
\<close>

datatype app = Unconnected | Connecting | Ready | Holding kop | Awaiting kop | Finished

definition post_request :: "kop \<Rightarrow> kbsim \<Rightarrow> kbsim" where
  "post_request op k = k\<lparr>upreq := kreq op, have_request := True\<rparr>"

section \<open>The relay\<close>

text \<open>The relay is in its \<^verbatim>\<open>read\<close>, has a request, has a reply to write, or has returned.\<close>

datatype relay = Reading | Got memrequest | Reply memresponse | Exited

definition relay_serve :: "'d mmio \<Rightarrow> memrequest \<Rightarrow> 'd \<times> int list \<Rightarrow> relay \<times> 'd \<times> int list" where
  "relay_serve m q st =
     (case st of (d, fds) \<Rightarrow>
        if mq_portal q = 666 then (Reply \<lparr>ms_portal = mq_portal q, ms_data = 0xdead\<rparr>, d, fds @ [sint (mq_addr q)])
        else if mq_write_flag q \<noteq> 0 then (Reading, bus_write m q d, fds)
        else case READL m (bus_addr (mq_portal q) (mq_addr q)) d of
               (v, d') \<Rightarrow> (Reply \<lparr>ms_portal = mq_portal q, ms_data = v\<rparr>, d', fds))"

section \<open>The whole system\<close>

record 'd ksys =
  ks_k :: kbsim
  ks_app :: app
  ks_ops :: "kop list"
  ks_results :: "u32 list"
  ks_relay :: relay
  ks_far :: "'d \<times> int list"

inductive ksys_step :: "'d mmio \<Rightarrow> (u64 \<Rightarrow> int) \<Rightarrow> 'd ksys \<Rightarrow> 'd ksys \<Rightarrow> bool"
  for m :: "'d mmio" and dma_buf_fd :: "u64 \<Rightarrow> int" where
  connect_early: "ks_app s = Unconnected \<Longrightarrow> \<not> bsim_relay_running (ks_k s) \<Longrightarrow>
    ksys_step m dma_buf_fd s
      (s\<lparr>ks_app := Connecting, ks_k := (ks_k s)\<lparr>bsim_avail := 1, bsim_have_response := 0\<rparr>\<rparr>)"
| connect_late: "ks_app s = Unconnected \<Longrightarrow> bsim_relay_running (ks_k s) \<Longrightarrow>
    ksys_step m dma_buf_fd s (s\<lparr>ks_app := Ready\<rparr>)"
| connected: "ks_app s = Connecting \<Longrightarrow> 0 < bsim_start (ks_k s) \<Longrightarrow>
    ksys_step m dma_buf_fd s
      (s\<lparr>ks_app := Ready, ks_k := (ks_k s)\<lparr>bsim_start := bsim_start (ks_k s) - 1\<rparr>\<rparr>)"
| skip: "ks_app s = Ready \<Longrightarrow> ks_ops s = op # rest \<Longrightarrow> main_program_finished (ks_k s) \<Longrightarrow>
    ksys_step m dma_buf_fd s
      (s\<lparr>ks_ops := rest, ks_results := ks_results s @ (if kwaits op then [0] else [])\<rparr>)"
| acquire: "ks_app s = Ready \<Longrightarrow> ks_ops s = op # rest \<Longrightarrow> \<not> main_program_finished (ks_k s) \<Longrightarrow>
    0 < bsim_avail (ks_k s) \<Longrightarrow>
    ksys_step m dma_buf_fd s
      (s\<lparr>ks_app := Holding op, ks_ops := rest, ks_k := (ks_k s)\<lparr>bsim_avail := bsim_avail (ks_k s) - 1\<rparr>\<rparr>)"
| post: "ks_app s = Holding op \<Longrightarrow>
    ksys_step m dma_buf_fd s
      (s\<lparr>ks_app := (if kwaits op then Awaiting op else Ready), ks_k := post_request op (ks_k s)\<rparr>)"
| collect: "ks_app s = Awaiting op \<Longrightarrow> 0 < bsim_have_response (ks_k s) \<Longrightarrow>
    ksys_step m dma_buf_fd s
      (s\<lparr>ks_app := Ready, ks_results := ks_results s @ [kresult_of op (ms_data (downresp (ks_k s)))],
         ks_k := (ks_k s)\<lparr>bsim_have_response := bsim_have_response (ks_k s) - 1\<rparr>\<rparr>)"
| main_end: "ks_app s = Ready \<Longrightarrow> ks_ops s = [] \<Longrightarrow>
    ksys_step m dma_buf_fd s (s\<lparr>ks_app := Finished, ks_k := (ks_k s)\<lparr>main_program_finished := True\<rparr>\<rparr>)"
| relay_read: "ks_relay s = Reading \<Longrightarrow> xbsv_kernel_read dma_buf_fd (ks_k s) = (r, k) \<Longrightarrow>
    ksys_step m dma_buf_fd s
      (s\<lparr>ks_k := k, ks_relay := (case r of Read_done \<Rightarrow> Exited | Read_again \<Rightarrow> Reading | Read_request q \<Rightarrow> Got q)\<rparr>)"
| relay_serve: "ks_relay s = Got q \<Longrightarrow> relay_serve m q (ks_far s) = (r, far) \<Longrightarrow>
    ksys_step m dma_buf_fd s (s\<lparr>ks_relay := r, ks_far := far\<rparr>)"
| relay_write: "ks_relay s = Reply r \<Longrightarrow>
    ksys_step m dma_buf_fd s (s\<lparr>ks_relay := Reading, ks_k := xbsv_kernel_write True r (ks_k s)\<rparr>)"

text \<open>The module: the program is started at load; unloading waits for it, or ends it before it ran.\<close>

definition pa_init :: "'d ksys \<Rightarrow> 'd ksys" where
  "pa_init s = s\<lparr>ks_app := Unconnected, ks_k := (ks_k s)\<lparr>bsim_start := 0\<rparr>\<rparr>"

definition pa_exit :: "'d ksys \<Rightarrow> 'd ksys option" where
  "pa_exit s =
     (if \<not> bsim_relay_running (ks_k s)
      then Some (s\<lparr>ks_k := (ks_k s)\<lparr>main_program_finished := True, bsim_start := bsim_start (ks_k s) + 1\<rparr>\<rparr>)
      else if ks_app s = Finished then Some s else None)"

section \<open>Refinement of a sequential program\<close>

text \<open>The specification: the operations of the program one after the other, on the bus.\<close>

fun kexec :: "'d mmio \<Rightarrow> (u64 \<Rightarrow> int) \<Rightarrow> kop \<Rightarrow> 'd \<times> int list \<Rightarrow> u32 list \<times> 'd \<times> int list" where
  "kexec m dma_buf_fd (KRead pid addr) (d, fds) =
     (case READL m (bus_addr pid addr) d of (v, d') \<Rightarrow> ([v], d', fds))"
| "kexec m dma_buf_fd (KWrite pid addr v) (d, fds) = ([], bus_write m (kreq (KWrite pid addr v)) d, fds)"
| "kexec m dma_buf_fd (KFd buf) (d, fds) = ([0], d, fds @ [sint (of_int (dma_buf_fd buf) :: u64)])"

fun kspec :: "'d mmio \<Rightarrow> (u64 \<Rightarrow> int) \<Rightarrow> kop list \<Rightarrow> 'd \<times> int list \<Rightarrow> u32 list \<times> 'd \<times> int list" where
  "kspec m dma_buf_fd [] st = ([], st)"
| "kspec m dma_buf_fd (op # ops) st =
     (case kexec m dma_buf_fd op st of (vs, st1) \<Rightarrow>
        (case kspec m dma_buf_fd ops st1 of (ws, st2) \<Rightarrow> (vs @ ws, st2)))"

lemma kspec_append:
  "kspec m g (xs @ ys) st =
     (case kspec m g xs st of (vs, st1) \<Rightarrow> (case kspec m g ys st1 of (ws, st2) \<Rightarrow> (vs @ ws, st2)))"
  by (induction xs arbitrary: st) (simp_all split: prod.split)

definition plain_op :: "kop \<Rightarrow> bool" where
  "plain_op op = (case op of KRead pid _ \<Rightarrow> pid \<noteq> 666 | KWrite pid _ _ \<Rightarrow> pid \<noteq> 666 | KFd _ \<Rightarrow> True)"

text \<open>The request as the relay receives it.\<close>

definition ksent :: "(u64 \<Rightarrow> int) \<Rightarrow> kop \<Rightarrow> memrequest" where
  "ksent dma_buf_fd op =
     (case op of KFd buf \<Rightarrow> (kreq op)\<lparr>mq_addr := of_int (dma_buf_fd buf)\<rparr> | _ \<Rightarrow> kreq op)"

lemma relay_serve_kexec:
  assumes "plain_op op" and "kexec m g op far = (vs, far')"
  shows "relay_serve m (ksent g op) far =
    (if kwaits op then Reply \<lparr>ms_portal = mq_portal (kreq op),
        ms_data = (case op of KFd _ \<Rightarrow> 0xdead | _ \<Rightarrow> hd vs)\<rparr> else Reading, far') \<and>
    (kwaits op \<longrightarrow> vs = [kresult_of op (hd vs)]) \<and> (\<not> kwaits op \<longrightarrow> vs = [])"
proof (cases op)
  case (KRead pid addr)
  with assms show ?thesis
    by (cases far) (auto simp: relay_serve_def ksent_def plain_op_def kwaits_def kresult_of_def split: prod.splits)
next
  case (KWrite pid addr v)
  with assms show ?thesis
    by (cases far) (auto simp: relay_serve_def ksent_def plain_op_def kwaits_def kresult_of_def)
next
  case (KFd buf)
  with assms show ?thesis
    by (cases far) (auto simp: relay_serve_def ksent_def plain_op_def kwaits_def kresult_of_def
        MAGIC_PORTAL_FOR_SENDING_FD_def)
qed

text \<open>
  The invariant: \<^verbatim>\<open>g\<close> is the operation the relay has taken, \<^verbatim>\<open>p\<close> the one posted, \<^verbatim>\<open>h\<close> the one about to be
  posted (lists of at most one), \<^verbatim>\<open>vals\<close> the result on its way back; the results so far and the
  state of the device are those of the sequential program up to there.
\<close>

definition ktaken :: "(u64 \<Rightarrow> int) \<Rightarrow> relay \<Rightarrow> kop list \<Rightarrow> bool" where
  "ktaken f r g = (case r of Got q \<Rightarrow> (\<exists>op. g = [op] \<and> q = ksent f op) | _ \<Rightarrow> g = [])"

definition kposted :: "kbsim \<Rightarrow> kop list \<Rightarrow> bool" where
  "kposted k p = (if have_request k then (\<exists>op. p = [op] \<and> upreq k = kreq op) else p = [])"

definition kheld :: "app \<Rightarrow> kop list \<Rightarrow> bool" where
  "kheld a h = (case a of Holding op \<Rightarrow> h = [op] | _ \<Rightarrow> h = [])"

definition kreply :: "'d ksys \<Rightarrow> kop list \<Rightarrow> u32 list \<Rightarrow> bool" where
  "kreply s gp vals =
     (case ks_app s of
        Awaiting op \<Rightarrow>
          (if gp \<noteq> [] then last gp = op \<and> list_all (\<lambda>x. \<not> kwaits x) (butlast gp) \<and> vals = [] \<and>
              bsim_have_response (ks_k s) = 0 \<and> (\<forall>r. ks_relay s \<noteq> Reply r)
           else (case ks_relay s of
                   Reply r \<Rightarrow> bsim_have_response (ks_k s) = 0 \<and> vals = [kresult_of op (ms_data r)]
                 | _ \<Rightarrow> bsim_have_response (ks_k s) = 1 \<and> vals = [kresult_of op (ms_data (downresp (ks_k s)))])) \<and>
          kwaits op
      | _ \<Rightarrow> list_all (\<lambda>x. \<not> kwaits x) gp \<and> vals = [] \<and> bsim_have_response (ks_k s) = 0 \<and>
          (\<forall>r. ks_relay s \<noteq> Reply r))"

definition kphase :: "'d ksys \<Rightarrow> kop list \<Rightarrow> kop list \<Rightarrow> bool" where
  "kphase s p h \<longleftrightarrow>
     ks_app s \<noteq> Unconnected \<and> bsim_avail (ks_k s) + length p + length h = 1 \<and>
     (main_program_finished (ks_k s) \<longleftrightarrow> ks_app s = Finished) \<and>
     (ks_app s = Finished \<longrightarrow> ks_ops s = []) \<and> (ks_relay s = Exited \<longrightarrow> ks_app s = Finished) \<and>
     (ks_app s = Connecting \<longrightarrow> p = [] \<and> (bsim_relay_running (ks_k s) \<longrightarrow> 0 < bsim_start (ks_k s)))"

definition kinv :: "'d mmio \<Rightarrow> (u64 \<Rightarrow> int) \<Rightarrow> kop list \<Rightarrow> 'd \<times> int list \<Rightarrow> 'd ksys \<Rightarrow> bool" where
  "kinv m f ops far s \<longleftrightarrow> (\<exists>xs g p h vals.
     ops = xs @ g @ p @ h @ ks_ops s \<and> kspec m f xs far = (ks_results s @ vals, ks_far s) \<and>
     ktaken f (ks_relay s) g \<and> kposted (ks_k s) p \<and> kheld (ks_app s) h \<and> kreply s (g @ p) vals \<and> kphase s p h)"

lemmas kinv_defs = ktaken_def kposted_def kheld_def kreply_def kphase_def

lemma kinvI:
  assumes "ops = xs @ g @ p @ h @ ks_ops s" and "kspec m f xs far = (ks_results s @ vals, ks_far s)"
    and "ktaken f (ks_relay s) g" and "kposted (ks_k s) p" and "kheld (ks_app s) h"
    and "kreply s (g @ p) vals" and "kphase s p h"
  shows "kinv m f ops far s"
  using assms unfolding kinv_def by blast

lemma kread_request:
  assumes "xbsv_kernel_read f k = (Read_request q, k')" and "upreq k = kreq op" and "plain_op op"
  shows "have_request k \<and> q = ksent f op \<and> \<not> main_program_finished k \<and>
    k' = k\<lparr>bsim_start := bsim_start k', bsim_relay_running := True, upreq := q, have_request := False,
      bsim_avail := bsim_avail k + 1\<rparr> \<and> bsim_start k \<le> bsim_start k'"
  using assms
  by (cases op) (auto simp: xbsv_kernel_read_def Let_def ksent_def plain_op_def MAGIC_PORTAL_FOR_SENDING_FD_def
      split: if_splits)

lemma kread_other:
  assumes "xbsv_kernel_read f k = (r, k')" and "\<forall>q. r \<noteq> Read_request q"
  shows "k' = k\<lparr>bsim_start := bsim_start k', bsim_relay_running := True\<rparr> \<and> bsim_start k \<le> bsim_start k' \<and>
    (\<not> bsim_relay_running k \<longrightarrow> 0 < bsim_start k') \<and>
    r = (if main_program_finished k then Read_done else Read_again) \<and>
    (have_request k \<longrightarrow> main_program_finished k)"
  using assms by (auto simp: xbsv_kernel_read_def Let_def split: if_splits)

lemma kinv_app_step:
  assumes "ksys_step m f s s'" and "kinv m f ops far s" and "ks_relay s' = ks_relay s" and "ks_far s' = ks_far s"
    and "bsim_relay_running (ks_k s') = bsim_relay_running (ks_k s)" and "ks_app s' \<noteq> ks_app s"
  shows "kinv m f ops far s'"
proof -
  from assms(2) obtain xs g p h vals where I: "ops = xs @ g @ p @ h @ ks_ops s"
    "kspec m f xs far = (ks_results s @ vals, ks_far s)"
    "ktaken f (ks_relay s) g" "kposted (ks_k s) p" "kheld (ks_app s) h" "kreply s (g @ p) vals" "kphase s p h"
    unfolding kinv_def by blast
  from assms(1) show ?thesis
  proof (cases rule: ksys_step.cases)
    case connected
    with I have h: "h = []" by (simp add: kinv_defs)
    show ?thesis using I connected h
      by (intro kinvI [of ops xs g p "[]" s' m f far vals]) (auto simp: kinv_defs)
  next
    case (acquire op rest)
    with I have h: "h = []" "p = []" by (cases p; simp add: kinv_defs)+
    show ?thesis using I acquire h
      by (intro kinvI [of ops xs g p "[op]" s' m f far vals]) (auto simp: kinv_defs)
  next
    case (post op)
    with I have h: "h = [op]" "p = []" by (auto simp: kinv_defs)
    show ?thesis using I post h
      by (intro kinvI [of ops xs g "[op]" "[]" s' m f far vals]) (auto simp: kinv_defs post_request_def)
  next
    case (collect op)
    with I have h: "h = []" "g @ p = []" by (auto simp: kinv_defs split: if_splits)
    have r: "\<forall>r. ks_relay s \<noteq> Reply r" "bsim_have_response (ks_k s) = 1"
        "vals = [kresult_of op (ms_data (downresp (ks_k s)))]"
      using I(6) collect h by (auto simp: kreply_def split: relay.splits)
    show ?thesis using I collect h r
      by (intro kinvI [of ops xs g p "[]" s' m f far "[]"]) (auto simp: kinv_defs)
  next
    case main_end
    with I have h: "h = []" by (simp add: kinv_defs)
    show ?thesis using I main_end h
      by (intro kinvI [of ops xs g p "[]" s' m f far vals]) (auto simp: kinv_defs)
  qed (use I assms in \<open>auto simp: kinv_defs\<close>)
qed

lemma kinv_relay_step:
  assumes "ksys_step m f s s'" and "kinv m f ops far s" and "ks_app s' = ks_app s" and "list_all plain_op ops"
  shows "kinv m f ops far s'"
proof -
  from assms(2) obtain xs g p h vals where I: "ops = xs @ g @ p @ h @ ks_ops s"
    "kspec m f xs far = (ks_results s @ vals, ks_far s)"
    "ktaken f (ks_relay s) g" "kposted (ks_k s) p" "kheld (ks_app s) h" "kreply s (g @ p) vals" "kphase s p h"
    unfolding kinv_def by blast
  from assms(1) show ?thesis
  proof (cases rule: ksys_step.cases)
    case (relay_read r k)
    then have g: "g = []" using I by (simp add: kinv_defs)
    show ?thesis
    proof (cases "\<exists>q. r = Read_request q")
      case True
      then obtain q where q: "r = Read_request q" by blast
      then have hr: "have_request (ks_k s)"
        using relay_read by (auto simp: xbsv_kernel_read_def Let_def split: if_splits)
      then obtain op where op: "p = [op]" "upreq (ks_k s) = kreq op" using I by (auto simp: kposted_def)
      have "plain_op op" using assms(4) I(1) op by simp
      from kread_request [OF relay_read(3) [unfolded q] op(2) this]
      obtain n where k: "q = ksent f op" "\<not> main_program_finished (ks_k s)" "k = (ks_k s)\<lparr>bsim_start := n,
          bsim_relay_running := True, upreq := q, have_request := False, bsim_avail := bsim_avail (ks_k s) + 1\<rparr>"
        by blast
      show ?thesis using I relay_read g op k q
        by (intro kinvI [of ops xs "[op]" "[]" h s' m f far vals]) (auto simp: kinv_defs split: app.splits)
    next
      case False
      then have "\<forall>q. r \<noteq> Read_request q" by blast
      from kread_other [OF relay_read(3) this] obtain n where
        k: "k = (ks_k s)\<lparr>bsim_start := n, bsim_relay_running := True\<rparr>" "bsim_start (ks_k s) \<le> n"
          "\<not> bsim_relay_running (ks_k s) \<longrightarrow> 0 < n"
          "r = (if main_program_finished (ks_k s) then Read_done else Read_again)"
        by (metis kbsim.select_convs(3) kbsim.surjective kbsim.update_convs(2,3))
      show ?thesis using I relay_read g k
        by (intro kinvI [of ops xs "[]" p h s' m f far vals]) (auto simp: kinv_defs split: app.splits)
    qed
  next
    case (relay_serve q r far')
    then obtain op where g: "g = [op]" "q = ksent f op" using I by (auto simp: ktaken_def)
    have pl: "plain_op op" using assms(4) I(1) g by simp
    obtain vs far1 where e: "kexec m f op (ks_far s) = (vs, far1)" by (rule prod.exhaust)
    note S = relay_serve_kexec [OF pl e]
    have sp: "kspec m f (xs @ [op]) far = (ks_results s @ vals @ vs, far1)"
      using I(2) e by (simp add: kspec_append)
    have f1: "far' = far1" using S relay_serve g by simp
    show ?thesis
    proof (cases "kwaits op")
      case True
      then have p: "p = []" and a: "ks_app s = Awaiting op" and v: "vals = []"
        using I(6) g by (auto simp: kreply_def split: app.splits if_splits)
      show ?thesis using I relay_serve g p a v S sp f1 True
        by (intro kinvI [of ops "xs @ [op]" "[]" "[]" h s' m f far vs])
          (auto simp: kinv_defs kresult_of_def split: kop.splits)
    next
      case False
      then have "vals = []" using I(6) g by (auto simp: kreply_def split: app.splits)
      then show ?thesis using I relay_serve g S sp f1 False
        by (intro kinvI [of ops "xs @ [op]" "[]" p h s' m f far "[]"])
          (auto simp: kinv_defs split: app.splits if_splits)
    qed
  next
    case (relay_write r)
    then obtain op where gp: "g = []" "p = []" "ks_app s = Awaiting op"
      using I by (auto simp: kinv_defs split: app.splits if_splits)
    show ?thesis using I relay_write gp
      by (intro kinvI [of ops xs "[]" "[]" h s' m f far vals]) (auto simp: kinv_defs xbsv_kernel_write_def)
  qed (use I assms in \<open>auto simp: kinv_defs split: if_splits\<close>)
qed

lemma kinv_step:
  assumes "ksys_step m f s s'" and "kinv m f ops far s" and "list_all plain_op ops"
  shows "kinv m f ops far s'"
proof (cases "ks_app s' = ks_app s")
  case True
  show ?thesis by (rule kinv_relay_step [OF assms(1,2) True assms(3)])
next
  case False
  from assms(1) have "ks_relay s' = ks_relay s \<and> ks_far s' = ks_far s \<and>
      bsim_relay_running (ks_k s') = bsim_relay_running (ks_k s)"
    by (cases rule: ksys_step.cases) (use False in \<open>auto simp: post_request_def\<close>)
  with kinv_app_step [OF assms(1,2)] False show ?thesis by simp
qed

lemma kinv_reachable:
  "(ksys_step m f)\<^sup>*\<^sup>* s s' \<Longrightarrow> kinv m f ops far s \<Longrightarrow> list_all plain_op ops \<Longrightarrow> kinv m f ops far s'"
  by (induction rule: rtranclp_induct) (auto dest: kinv_step)

text \<open>The state after \<^verbatim>\<open>connect_to_bsim\<close> has initialised the semaphores and waits for the relay.\<close>

definition ksys_start :: "kop list \<Rightarrow> 'd \<times> int list \<Rightarrow> 'd ksys" where
  "ksys_start ops far = \<lparr>ks_k = kbsim_init\<lparr>bsim_avail := 1\<rparr>, ks_app = Connecting, ks_ops = ops, ks_results = [],
     ks_relay = Reading, ks_far = far\<rparr>"

lemma kinv_start: "kinv m f ops far (ksys_start ops far)"
  by (rule kinvI [of ops "[]" "[]" "[]" "[]" _ m f far "[]"])
    (simp_all add: kinv_defs ksys_start_def kbsim_init_def)

section \<open>Progress\<close>

definition kmeasure :: "'d ksys \<Rightarrow> nat" where
  "kmeasure s = 10 * length (ks_ops s) +
     (case ks_app s of Unconnected \<Rightarrow> 3 | Connecting \<Rightarrow> 2 | Ready \<Rightarrow> 1 | Holding _ \<Rightarrow> 9 | Awaiting _ \<Rightarrow> 2 | Finished \<Rightarrow> 0) +
     (case ks_relay s of Reading \<Rightarrow> 1 | Got _ \<Rightarrow> 3 | Reply _ \<Rightarrow> 2 | Exited \<Rightarrow> 0) +
     (if have_request (ks_k s) then 4 else 0) + (if bsim_relay_running (ks_k s) then 0 else 1)"

lemma relay_progress:
  assumes "ks_relay s = Reading" and "have_request (ks_k s) \<or> main_program_finished (ks_k s) \<or> \<not> bsim_relay_running (ks_k s)"
  shows "\<exists>s'. ksys_step m f s s' \<and> kmeasure s' < kmeasure s"
proof -
  obtain r k where rk: "xbsv_kernel_read f (ks_k s) = (r, k)" by (rule prod.exhaust)
  let ?s = "s\<lparr>ks_k := k, ks_relay := (case r of Read_done \<Rightarrow> Exited | Read_again \<Rightarrow> Reading | Read_request q \<Rightarrow> Got q)\<rparr>"
  have "ksys_step m f s ?s" by (rule ksys_step.relay_read [OF assms(1) rk])
  moreover have "kmeasure ?s < kmeasure s"
    using rk assms by (auto simp: xbsv_kernel_read_def Let_def kmeasure_def split: if_splits)
  ultimately show ?thesis by blast
qed

lemma relay_busy_progress:
  assumes "ks_relay s = Got q \<or> ks_relay s = Reply r"
  shows "\<exists>s'. ksys_step m f s s' \<and> kmeasure s' < kmeasure s"
  using assms
proof
  assume q: "ks_relay s = Got q"
  obtain r far where rf: "relay_serve m q (ks_far s) = (r, far)" by (rule prod.exhaust)
  have "r = Reading \<or> (\<exists>x. r = Reply x)"
    using rf by (auto simp: relay_serve_def split: prod.splits if_splits)
  then have "kmeasure (s\<lparr>ks_relay := r, ks_far := far\<rparr>) < kmeasure s" using q by (auto simp: kmeasure_def)
  with ksys_step.relay_serve [OF q rf] show ?thesis by blast
next
  assume r: "ks_relay s = Reply r"
  have "kmeasure (s\<lparr>ks_relay := Reading, ks_k := xbsv_kernel_write True r (ks_k s)\<rparr>) < kmeasure s"
    using r by (simp add: kmeasure_def xbsv_kernel_write_def)
  with ksys_step.relay_write [OF r] show ?thesis by blast
qed

text \<open>With the relay idle or gone, the program's thread can move unless it has ended.\<close>

lemma app_progress:
  assumes "kposted (ks_k s) p" and "kheld (ks_app s) h" and "kreply s p vals" and "kphase s p h"
    and "ks_relay s = Reading \<or> ks_relay s = Exited"
    and idle: "\<not> (ks_relay s = Reading \<and>
        (have_request (ks_k s) \<or> main_program_finished (ks_k s) \<or> \<not> bsim_relay_running (ks_k s)))"
    and "ks_app s \<noteq> Finished"
  shows "\<exists>s'. ksys_step m f s s' \<and> kmeasure s' < kmeasure s"
proof -
  have R: "ks_relay s = Reading" using assms(4,5,7) by (auto simp: kphase_def)
  with idle have p: "p = []" "\<not> have_request (ks_k s)" "bsim_relay_running (ks_k s)"
      "\<not> main_program_finished (ks_k s)"
    using assms(1) by (auto simp: kposted_def)
  show ?thesis
  proof (cases "ks_app s")
    case Connecting
    with p assms(4) have "0 < bsim_start (ks_k s)" by (simp add: kphase_def)
    from ksys_step.connected [OF Connecting this, of m f] Connecting show ?thesis
      by (rule_tac exI, rule_tac conjI) (assumption, simp add: kmeasure_def)
  next
    case Ready
    show ?thesis
    proof (cases "ks_ops s")
      case Nil
      from ksys_step.main_end [OF Ready Nil, of m f] Ready show ?thesis
        by (rule_tac exI, rule_tac conjI) (assumption, simp add: kmeasure_def)
    next
      case (Cons op rest)
      have "0 < bsim_avail (ks_k s)" using assms(2,4) p Ready by (simp add: kphase_def kheld_def)
      from ksys_step.acquire [OF Ready Cons p(4) this, of m f] Ready Cons show ?thesis
        by (rule_tac exI, rule_tac conjI) (assumption, simp add: kmeasure_def)
    qed
  next
    case (Holding op)
    with ksys_step.post [OF Holding, of m f] p show ?thesis
      by (rule_tac exI, rule_tac conjI) (assumption, simp add: kmeasure_def post_request_def)
  next
    case (Awaiting op)
    with assms(3) p R have "0 < bsim_have_response (ks_k s)" by (simp add: kreply_def)
    from ksys_step.collect [OF Awaiting this, of m f] Awaiting show ?thesis
      by (rule_tac exI, rule_tac conjI) (assumption, simp add: kmeasure_def)
  qed (use assms in \<open>simp_all add: kphase_def\<close>)
qed

lemma kinv_progress:
  assumes "kinv m f ops far s" and "\<not> (ks_app s = Finished \<and> ks_relay s = Exited)"
  shows "\<exists>s'. ksys_step m f s s' \<and> kmeasure s' < kmeasure s"
proof -
  from assms(1) obtain g p h vals where I:
    "ktaken f (ks_relay s) g" "kposted (ks_k s) p" "kheld (ks_app s) h" "kreply s (g @ p) vals" "kphase s p h"
    unfolding kinv_def by blast
  consider q r where "ks_relay s = Got q \<or> ks_relay s = Reply r"
    | "ks_relay s = Reading" "have_request (ks_k s) \<or> main_program_finished (ks_k s) \<or> \<not> bsim_relay_running (ks_k s)"
    | "ks_relay s = Reading \<or> ks_relay s = Exited" "\<not> (ks_relay s = Reading \<and>
        (have_request (ks_k s) \<or> main_program_finished (ks_k s) \<or> \<not> bsim_relay_running (ks_k s)))"
    by (cases "ks_relay s") auto
  then show ?thesis
  proof cases
    case 1 then show ?thesis by (rule relay_busy_progress)
  next
    case 2 then show ?thesis by (rule relay_progress)
  next
    case 3
    have g: "g = []" using I(1) 3(1) by (auto simp: ktaken_def)
    have "ks_app s \<noteq> Finished" using 3 assms(2) I(5) by (auto simp: kphase_def)
    from app_progress [OF I(2,3) _ I(5) 3 this] I(4) g show ?thesis by simp
  qed
qed

lemma kinv_completes:
  assumes "kinv m f ops far s" and "list_all plain_op ops"
  shows "\<exists>s'. (ksys_step m f)\<^sup>*\<^sup>* s s' \<and> ks_app s' = Finished \<and> ks_relay s' = Exited"
  using assms
proof (induction "kmeasure s" arbitrary: s rule: less_induct)
  case less
  show ?case
  proof (cases "ks_app s = Finished \<and> ks_relay s = Exited")
    case True then show ?thesis by blast
  next
    case False
    from kinv_progress [OF less(2) this] obtain s1 where s1: "ksys_step m f s s1" "kmeasure s1 < kmeasure s" by blast
    from less(1) [OF s1(2) kinv_step [OF s1(1) less(2,3)] less(3)] s1(1) show ?thesis
      by (meson converse_rtranclp_into_rtranclp)
  qed
qed

section \<open>Properties\<close>

lemma kspec_writes: "list_all (\<lambda>x. \<not> kwaits x) xs \<Longrightarrow> fst (kspec m f xs st) = []"
proof (induction xs arbitrary: st)
  case (Cons x xs)
  then obtain pid a v where "x = KWrite pid a v" by (cases x) (auto simp: kwaits_def)
  with Cons show ?case by (cases st) (simp add: case_prod_beta)
qed simp



text \<open>
  The last write of a program can be lost: \<^verbatim>\<open>xbsv_kernel_read\<close> looks at \<^verbatim>\<open>main_program_finished\<close> before
  the posted request, so a program that ends right after a write can end the relay before the
  write is passed on.
\<close>

theorem last_write_lost:
  assumes "pid \<noteq> 666"
  shows "\<exists>s. (ksys_step m f)\<^sup>*\<^sup>* (ksys_start [KWrite pid a v] far) s \<and> ks_app s = Finished \<and>
    ks_relay s = Exited \<and> ks_far s = far"
proof -
  let ?k = "kbsim_init\<lparr>bsim_avail := 1, bsim_relay_running := True\<rparr>"
  let ?op = "KWrite pid a v"
  let ?s = "\<lambda>k a ops r. \<lparr>ks_k = k, ks_app = a, ks_ops = ops, ks_results = [], ks_relay = r, ks_far = far\<rparr>"
  let ?kp = "post_request ?op (?k\<lparr>bsim_avail := 0\<rparr>)"
  let ?kf = "?kp\<lparr>main_program_finished := True\<rparr>"
  have 1: "ksys_step m f (ksys_start [?op] far) (?s (?k\<lparr>bsim_start := 1\<rparr>) Connecting [?op] Reading)"
    using ksys_step.relay_read [of "ksys_start [?op] far" f Read_again "?k\<lparr>bsim_start := 1\<rparr>" m]
    by (simp add: ksys_start_def xbsv_kernel_read_def kbsim_init_def)
  have 2: "ksys_step m f (?s (?k\<lparr>bsim_start := 1\<rparr>) Connecting [?op] Reading) (?s ?k Ready [?op] Reading)"
    using ksys_step.connected [of "?s (?k\<lparr>bsim_start := 1\<rparr>) Connecting [?op] Reading" m f]
    by (simp add: kbsim_init_def)
  have 3: "ksys_step m f (?s ?k Ready [?op] Reading) (?s (?k\<lparr>bsim_avail := 0\<rparr>) (Holding ?op) [] Reading)"
    using ksys_step.acquire [of "?s ?k Ready [?op] Reading" ?op "[]" m f] by (simp add: kbsim_init_def)
  have 4: "ksys_step m f (?s (?k\<lparr>bsim_avail := 0\<rparr>) (Holding ?op) [] Reading) (?s ?kp Ready [] Reading)"
    using ksys_step.post [of "?s (?k\<lparr>bsim_avail := 0\<rparr>) (Holding ?op) [] Reading" ?op m f]
    by (simp add: kwaits_def)
  have 5: "ksys_step m f (?s ?kp Ready [] Reading) (?s ?kf Finished [] Reading)"
    using ksys_step.main_end [of "?s ?kp Ready [] Reading" m f] by simp
  have 6: "ksys_step m f (?s ?kf Finished [] Reading) (?s ?kf Finished [] Exited)"
    using ksys_step.relay_read [of "?s ?kf Finished [] Reading" f Read_done ?kf m]
    by (simp add: xbsv_kernel_read_def post_request_def kbsim_init_def)
  have "(ksys_step m f)\<^sup>*\<^sup>* (ksys_start [?op] far) (?s ?kf Finished [] Exited)"
    using 1 2 3 4 5 6 by (meson converse_rtranclp_into_rtranclp rtranclp.rtrancl_refl)
  then show ?thesis by (rule exI [where x = "?s ?kf Finished [] Exited", OF conjI]) simp
qed

theorem last_write_lost_witness:
  "\<exists>s. (ksys_step regs_mmio (\<lambda>_. 5))\<^sup>*\<^sup>* (ksys_start [KWrite 1 4 7] (\<lambda>_. 0, [])) s \<and> ks_app s = Finished \<and>
     ks_relay s = Exited \<and> fst (ks_far s) (bus_addr 1 4) = 0"
  using last_write_lost [of 1 regs_mmio "\<lambda>_. 5" 4 7 "(\<lambda>_. 0, [])"] by fastforce

text \<open>
  The relay has to be started after the program: when it reads the device file before the
  program connects, \<^verbatim>\<open>connect_to_bsim\<close> returns without initialising the semaphores and the program
  blocks in its first operation for ever.
\<close>

theorem relay_first_blocks:
  assumes "(ksys_step m f)\<^sup>*\<^sup>* (\<lparr>ks_k = kbsim_init, ks_app = Unconnected, ks_ops = ops, ks_results = [],
      ks_relay = Reading, ks_far = far\<rparr>\<lparr>ks_k := snd (xbsv_kernel_read f kbsim_init)\<rparr>) s"
    and "ops \<noteq> []"
  shows "(ks_app s = Unconnected \<or> ks_app s = Ready) \<and> ks_ops s = ops \<and> ks_results s = [] \<and> ks_far s = far"
proof -
  have "(ks_app s = Unconnected \<or> ks_app s = Ready) \<and> ks_ops s = ops \<and> ks_results s = [] \<and> ks_far s = far \<and>
      ks_relay s = Reading \<and> bsim_relay_running (ks_k s) \<and> bsim_avail (ks_k s) = 0 \<and> \<not> have_request (ks_k s) \<and>
      \<not> main_program_finished (ks_k s)"
    using assms(1)
  proof (induction rule: rtranclp_induct)
    case base
    then show ?case by (simp add: xbsv_kernel_read_def kbsim_init_def Let_def)
  next
    case (step s1 s2)
    from step(2,3) assms(2) show ?case
      by (cases rule: ksys_step.cases) (auto simp: xbsv_kernel_read_def Let_def)
  qed
  then show ?thesis by simp
qed

theorem relay_first_blocks_witness:
  "\<exists>s. (ksys_step regs_mmio (\<lambda>_. 5))\<^sup>*\<^sup>* (\<lparr>ks_k = kbsim_init, ks_app = Unconnected, ks_ops = [KRead 1 4],
      ks_results = [], ks_relay = Reading, ks_far = (\<lambda>_. 0, [])\<rparr>\<lparr>ks_k := snd (xbsv_kernel_read (\<lambda>_. 5) kbsim_init)\<rparr>) s \<and>
     ks_app s = Ready \<and> ks_ops s = [KRead 1 4]"
proof -
  let ?s0 = "\<lparr>ks_k = kbsim_init, ks_app = Unconnected, ks_ops = [KRead 1 4], ks_results = [],
      ks_relay = Reading, ks_far = ((\<lambda>_. 0) :: nat \<Rightarrow> u32, [])\<rparr>\<lparr>ks_k := snd (xbsv_kernel_read (\<lambda>_. 5) kbsim_init)\<rparr>"
  have "ksys_step regs_mmio (\<lambda>_. 5) ?s0 (?s0\<lparr>ks_app := Ready\<rparr>)"
    by (rule ksys_step.connect_late) (simp_all add: xbsv_kernel_read_def Let_def kbsim_init_def)
  then have r: "(ksys_step regs_mmio (\<lambda>_. 5))\<^sup>*\<^sup>* ?s0 (?s0\<lparr>ks_app := Ready\<rparr>)" by (rule r_into_rtranclp)
  show ?thesis using r relay_first_blocks [OF r] by (intro exI [of _ "?s0\<lparr>ks_app := Ready\<rparr>"]) simp
qed

end
