(* ===== verification/Zynq_Driver.thy ===== *)
theory Zynq_Driver
  imports Portal_Core Portal_Poller
begin

text \<open>
  The Zynq driver, \<^verbatim>\<open>drivers/zynqportal/zynqportal.c\<close>: one misc device per portal, its interrupt
  handler, the four ioctls, \<^verbatim>\<open>mmap\<close>, \<^verbatim>\<open>poll\<close> and \<^verbatim>\<open>release\<close>, and the platform probe and remove.
  A pointer from \<^verbatim>\<open>ioremap_nocache\<close> is the physical address it maps (None for NULL), so a register
  access is an access of the portal's device at the distance from \<^verbatim>\<open>dev_base_phys\<close>.  The handlers
  the kernel holds for the portal and the mappings never given back are part of the state.
\<close>

section \<open>State\<close>

record portal_data =
  dev_base_phys :: u32
  interrupt_virt :: "u32 option"
  mask_virt :: "u32 option"
  pd_map_base :: "u32 option"
  portal_irq :: u32
  irq_is_registered :: bool

record 'd zynq =
  zy_data :: portal_data
  zy_dev :: 'd
  zy_irqs :: "u32 list"
  zy_maps :: nat
  zy_woken :: nat

definition reg_addr :: "portal_data \<Rightarrow> u32 \<Rightarrow> nat" where
  "reg_addr p v = unat (v - dev_base_phys p) div 4"

definition zynq_readl :: "'d mmio \<Rightarrow> u32 option \<Rightarrow> 'd zynq \<Rightarrow> (u32 \<times> 'd zynq) kresult" where
  "zynq_readl m v st =
     (case v of
        None \<Rightarrow> Inl NullDeref
      | Some a \<Rightarrow> (case READL m (reg_addr (zy_data st) a) (zy_dev st) of (x, d) \<Rightarrow> Inr (x, st\<lparr>zy_dev := d\<rparr>)))"

definition zynq_writel :: "'d mmio \<Rightarrow> u32 \<Rightarrow> u32 option \<Rightarrow> 'd zynq \<Rightarrow> 'd zynq kresult" where
  "zynq_writel m x v st =
     (case v of
        None \<Rightarrow> Inl NullDeref
      | Some a \<Rightarrow> Inr (st\<lparr>zy_dev := WRITEL m (reg_addr (zy_data st) a) x (zy_dev st)\<rparr>))"

section \<open>Interrupt handler\<close>

datatype irqreturn = IRQ_NONE | IRQ_HANDLED

definition portal_isr :: "'d mmio \<Rightarrow> 'd zynq \<Rightarrow> (irqreturn \<times> 'd zynq) kresult" where
  "portal_isr m st =
     (case zynq_readl m (interrupt_virt (zy_data st)) st of
        Inl e \<Rightarrow> Inl e
      | Inr (x, st1) \<Rightarrow>
          if x \<noteq> 0
          then (case zynq_writel m 0 (mask_virt (zy_data st1)) st1 of
                  Inl e \<Rightarrow> Inl e
                | Inr st2 \<Rightarrow> Inr (IRQ_HANDLED, st2\<lparr>zy_woken := zy_woken st2 + 1\<rparr>))
          else Inr (IRQ_NONE, st1))"

section \<open>ioctl\<close>

text \<open>
  The commands with the fields of their argument and whether the copies from and to the caller
  succeed.
\<close>

datatype zynq_cmd =
    PORTAL_SET_FCLK_RATE bool nat int bool
  | PORTAL_ENABLE_INTERRUPT bool u32 u32
  | PORTAL_SEND_FD bool int u32
  | PORTAL_DCACHE_FLUSH_INVAL int
  | Unknown_cmd u32

datatype zynq_out = Zynq_none | Actual_rate int | Flushed "(u64 \<times> u64) list"

text \<open>A clock pointer: \<^verbatim>\<open>clk_get_sys\<close> reports failure with an error pointer, which is not NULL.\<close>

datatype clk = Clk_null | Clk_err | Clk nat

text \<open>
  The kernel functions the ioctls call: the clock framework, \<^verbatim>\<open>ioremap_nocache\<close> on an address
  (False: NULL), \<^verbatim>\<open>request_irq\<close> (True: granted), and the tables behind open descriptors.
\<close>

record zynq_calls =
  zk_clk_get_sys :: "string \<Rightarrow> clk"
  zk_clk_round_rate :: "nat \<Rightarrow> int \<Rightarrow> int"
  zk_clk_set_rate :: "nat \<Rightarrow> int \<Rightarrow> int"
  zk_ioremap :: "u32 \<Rightarrow> bool"
  zk_request_irq :: "u32 \<Rightarrow> bool"
  zk_files :: "int \<Rightarrow> sg_entry list option"

text \<open>\<^verbatim>\<open>snprintf(clkname, sizeof(clkname), "FPGA%d", clknum)\<close> keeps seven characters.\<close>

definition clkname :: "nat \<Rightarrow> string" where
  "clkname n = take 7 (''FPGA'' @ decimal n)"

definition set_fclk_rate :: "zynq_calls \<Rightarrow> bool \<Rightarrow> nat \<Rightarrow> int \<Rightarrow> bool \<Rightarrow> (int \<times> zynq_out) kresult" where
  "set_fclk_rate k copy_in clknum requested_rate copy_out =
     (if \<not> copy_in then Inr (- EFAULT, Zynq_none)
      else case zk_clk_get_sys k (clkname clknum) of
             Clk_null \<Rightarrow> Inr (- ENODEV, Zynq_none)
           | Clk_err \<Rightarrow> Inl ErrPtrDeref
           | Clk c \<Rightarrow>
               let actual_rate = zk_clk_round_rate k c requested_rate;
                   status = zk_clk_set_rate k c actual_rate
               in if status \<noteq> 0 then Inr (status, Zynq_none)
                  else if \<not> copy_out then Inr (- EFAULT, Zynq_none)
                  else Inr (0, Actual_rate actual_rate))"

text \<open>One \<^verbatim>\<open>if (!p) p = ioremap_nocache(a)\<close>: the new pointer and the number of mappings made.\<close>

definition remap_once :: "zynq_calls \<Rightarrow> u32 option \<Rightarrow> u32 \<Rightarrow> u32 option \<times> nat" where
  "remap_once k v a =
     (case v of Some x \<Rightarrow> (Some x, 0) | None \<Rightarrow> if zk_ioremap k a then (Some a, 1) else (None, 0))"

definition remap_registers :: "zynq_calls \<Rightarrow> u32 \<Rightarrow> u32 \<Rightarrow> 'd zynq \<Rightarrow> 'd zynq" where
  "remap_registers k interrupt_offset mask_offset st =
     (let p = zy_data st;
          (i, n1) = remap_once k (interrupt_virt p) (dev_base_phys p + interrupt_offset);
          (w, n2) = remap_once k (mask_virt p) (dev_base_phys p + mask_offset);
          (b, n3) = remap_once k (pd_map_base p) (dev_base_phys p)
      in st\<lparr>zy_data := p\<lparr>interrupt_virt := i, mask_virt := w, pd_map_base := b\<rparr>,
            zy_maps := zy_maps st + n1 + n2 + n3\<rparr>)"

definition enable_interrupt :: "'d mmio \<Rightarrow> zynq_calls \<Rightarrow> u32 \<Rightarrow> u32 \<Rightarrow> 'd zynq \<Rightarrow> (int \<times> 'd zynq) kresult" where
  "enable_interrupt m k interrupt_offset mask_offset st =
     (let st1 = remap_registers k interrupt_offset mask_offset st; p = zy_data st1 in
      if irq_is_registered p then Inr (0, st1)
      else case zynq_readl m (interrupt_virt p) st1 of
             Inl e \<Rightarrow> Inl e
           | Inr (_, st2) \<Rightarrow>
               (case zynq_readl m (mask_virt p) st2 of
                  Inl e \<Rightarrow> Inl e
                | Inr (_, st3) \<Rightarrow>
                    if \<not> zk_request_irq k (portal_irq p)
                    then Inr (- EFAULT, st3\<lparr>zy_data := p\<lparr>portal_irq := 0\<rparr>\<rparr>)
                    else Inr (0, st3\<lparr>zy_data := p\<lparr>irq_is_registered := True\<rparr>,
                                     zy_irqs := portal_irq p # zy_irqs st3\<rparr>)))"

text \<open>
  \<^verbatim>\<open>send_fd_to_portal\<close> writes at least the end of the list, so a null \<^verbatim>\<open>map_base\<close> faults.  A failed copy and
  a negative result leave the switch and return -ENODEV.
\<close>

definition zynq_send_fd :: "'d mmio \<Rightarrow> zynq_calls \<Rightarrow> bool \<Rightarrow> int \<Rightarrow> u32 \<Rightarrow> 'd zynq \<Rightarrow> (int \<times> 'd zynq) kresult" where
  "zynq_send_fd m k copy_in fd oid st =
     (if \<not> copy_in then Inr (- ENODEV, st)
      else case zk_files k fd of
             None \<Rightarrow> Inl NullDeref
           | Some sgtable \<Rightarrow>
               if pd_map_base (zy_data st) = None then Inl NullDeref
               else (case send_fd_to_portal_kernel m sgtable oid (zy_dev st) of (err, d) \<Rightarrow>
                       Inr (if err < 0 then - ENODEV else 0, st\<lparr>zy_dev := d\<rparr>)))"

fun portal_unlocked_ioctl ::
    "'d mmio \<Rightarrow> zynq_calls \<Rightarrow> zynq_cmd \<Rightarrow> 'd zynq \<Rightarrow> (int \<times> zynq_out \<times> 'd zynq) kresult" where
  "portal_unlocked_ioctl m k (PORTAL_SET_FCLK_RATE cin n rate cout) st =
     map_sum (\<lambda>e. e) (\<lambda>(rc, out). (rc, out, st)) (set_fclk_rate k cin n rate cout)"
| "portal_unlocked_ioctl m k (PORTAL_ENABLE_INTERRUPT cin i w) st =
     (if \<not> cin then Inr (- EFAULT, Zynq_none, st)
      else map_sum (\<lambda>e. e) (\<lambda>(rc, st'). (rc, Zynq_none, st')) (enable_interrupt m k i w st))"
| "portal_unlocked_ioctl m k (PORTAL_SEND_FD cin fd oid) st =
     map_sum (\<lambda>e. e) (\<lambda>(rc, st'). (rc, Zynq_none, st')) (zynq_send_fd m k cin fd oid st)"
| "portal_unlocked_ioctl m k (PORTAL_DCACHE_FLUSH_INVAL fd) st =
     (case zk_files k fd of
        None \<Rightarrow> Inl NullDeref
      | Some sgtable \<Rightarrow> Inr (0, Flushed (dcache_flush_ranges sgtable), st))"
| "portal_unlocked_ioctl m k (Unknown_cmd c) st = Inr (- ENOTTY, Zynq_none, st)"

section \<open>mmap, poll, open and release\<close>

definition zynq_mmap :: "bool \<Rightarrow> nat \<Rightarrow> nat \<Rightarrow> nat \<Rightarrow> portal_data \<Rightarrow> int \<times> (u32 \<times> nat) option" where
  "zynq_mmap remap_ok vm_pgoff vm_start vm_end p =
     (if vm_pgoff > 2 ^ 20 - 1 then (- EINVAL, None)
      else if remap_ok then (0, Some (drop_bit 12 (dev_base_phys p), vm_end - vm_start))
      else (- EAGAIN, None))"

definition portal_poll :: "'d mmio \<Rightarrow> 'd zynq \<Rightarrow> u32 \<times> 'd zynq" where
  "portal_poll m st =
     (case zynq_readl m (interrupt_virt (zy_data st)) st of
        Inl _ \<Rightarrow> (0, st)
      | Inr (int_status, st') \<Rightarrow> (if int_status \<noteq> 0 then 0x41 else 0, st'))"

definition portal_open :: "'d zynq \<Rightarrow> int \<times> 'd zynq" where
  "portal_open st = (0, st)"

text \<open>The write goes through \<^verbatim>\<open>interrupt_virt\<close>, the read-only flag, where the mask is meant.\<close>

definition portal_release :: "'d mmio \<Rightarrow> 'd zynq \<Rightarrow> (int \<times> 'd zynq) kresult" where
  "portal_release m st =
     (let p = zy_data st in
      if irq_is_registered p
      then (case zynq_writel m 0 (interrupt_virt p) st of
              Inl e \<Rightarrow> Inl e
            | Inr st1 \<Rightarrow> Inr (0, st1\<lparr>zy_data := p\<lparr>irq_is_registered := False\<rparr>,
                                     zy_irqs := remove1 (portal_irq p) (zy_irqs st1)\<rparr>))
      else Inr (0, st))"

section \<open>Probe and remove\<close>

text \<open>\<^verbatim>\<open>reg\<close> and \<^verbatim>\<open>irq\<close> are the starts of the platform resources, None when one is missing.\<close>

definition portal_of_probe :: "bool \<Rightarrow> u32 option \<Rightarrow> u32 option \<Rightarrow> bool \<Rightarrow> int \<times> portal_data option" where
  "portal_of_probe has_name reg irq kzalloc_ok =
     (if \<not> has_name then (- EINVAL, None)
      else case (reg, irq) of
             (Some r, Some i) \<Rightarrow>
               if kzalloc_ok
               then (0, Some \<lparr>dev_base_phys = r, interrupt_virt = None, mask_virt = None, pd_map_base = None,
                              portal_irq = i, irq_is_registered = False\<rparr>)
               else (- ENOMEM, None)
           | _ \<Rightarrow> (- ENODEV, None))"

definition portal_of_remove :: "'d zynq \<Rightarrow> u32 list \<times> nat" where
  "portal_of_remove st =
     (if irq_is_registered (zy_data st) then remove1 (portal_irq (zy_data st)) (zy_irqs st) else zy_irqs st,
      zy_maps st)"

definition portal_of_init :: "bool \<Rightarrow> int" where
  "portal_of_init register_ok = (if register_ok then 0 else - ENODEV)"

section \<open>The life of a portal device\<close>

text \<open>
  Everything that can happen between probe and remove: calls on the device file, the interrupt
  while a handler is registered, and changes of the device's own state.
\<close>

inductive zynq_step :: "'d mmio \<Rightarrow> 'd zynq \<Rightarrow> 'd zynq \<Rightarrow> bool" for m :: "'d mmio" where
  ioctl: "portal_unlocked_ioctl m k cmd st = Inr (rc, out, st') \<Longrightarrow> zynq_step m st st'"
| isr: "zy_irqs st \<noteq> [] \<Longrightarrow> portal_isr m st = Inr (r, st') \<Longrightarrow> zynq_step m st st'"
| poll: "zynq_step m st (snd (portal_poll m st))"
| opened: "zynq_step m st (snd (portal_open st))"
| release: "portal_release m st = Inr (rc, st') \<Longrightarrow> zynq_step m st st'"
| device: "zynq_step m st (st\<lparr>zy_dev := d\<rparr>)"

inductive_cases zynq_stepE: "zynq_step m st st'"

definition mapped :: "portal_data \<Rightarrow> nat" where
  "mapped p = of_bool (interrupt_virt p \<noteq> None) + of_bool (mask_virt p \<noteq> None) + of_bool (pd_map_base p \<noteq> None)"

definition zynq_inv :: "u32 \<Rightarrow> u32 \<Rightarrow> 'd zynq \<Rightarrow> bool" where
  "zynq_inv base irq st \<longleftrightarrow>
     (let p = zy_data st in
      dev_base_phys p = base \<and> portal_irq p \<in> {irq, 0} \<and>
      zy_irqs st = (if irq_is_registered p then [portal_irq p] else []) \<and>
      (irq_is_registered p \<longrightarrow> interrupt_virt p \<noteq> None \<and> mask_virt p \<noteq> None) \<and>
      zy_maps st = mapped p)"

definition zynq_start :: "portal_data \<Rightarrow> 'd \<Rightarrow> 'd zynq" where
  "zynq_start p d = \<lparr>zy_data = p, zy_dev = d, zy_irqs = [], zy_maps = 0, zy_woken = 0\<rparr>"

lemma zynq_readl_frame:
  "zynq_readl m v st = Inr (x, st') \<Longrightarrow> v \<noteq> None \<and> st' = st\<lparr>zy_dev := zy_dev st'\<rparr>"
  by (auto simp: zynq_readl_def split: option.splits prod.splits)

lemma zynq_writel_frame:
  "zynq_writel m x v st = Inr st' \<Longrightarrow> v \<noteq> None \<and> st' = st\<lparr>zy_dev := zy_dev st'\<rparr>"
  by (auto simp: zynq_writel_def split: option.splits)

lemma zynq_inv_dev [simp]:
  "zynq_inv base irq (st\<lparr>zy_dev := d\<rparr>) = zynq_inv base irq st"
  "zynq_inv base irq (st\<lparr>zy_woken := n\<rparr>) = zynq_inv base irq st"
  by (simp_all add: zynq_inv_def)

lemma zynq_readl_inv:
  assumes "zynq_readl m v st = Inr (x, st')"
  shows "zynq_inv base irq st' = zynq_inv base irq st"
proof -
  have "st' = st\<lparr>zy_dev := zy_dev st'\<rparr>" using zynq_readl_frame [OF assms] by simp
  then show ?thesis by (metis zynq_inv_dev(1))
qed

lemma zynq_writel_inv:
  assumes "zynq_writel m x v st = Inr st'"
  shows "zynq_inv base irq st' = zynq_inv base irq st"
proof -
  have "st' = st\<lparr>zy_dev := zy_dev st'\<rparr>" using zynq_writel_frame [OF assms] by simp
  then show ?thesis by (metis zynq_inv_dev(1))
qed

lemma remap_registers_frame:
  "zy_irqs (remap_registers k i w st) = zy_irqs st" "zy_dev (remap_registers k i w st) = zy_dev st"
  "irq_is_registered (zy_data (remap_registers k i w st)) = irq_is_registered (zy_data st)"
  "portal_irq (zy_data (remap_registers k i w st)) = portal_irq (zy_data st)"
  "dev_base_phys (zy_data (remap_registers k i w st)) = dev_base_phys (zy_data st)"
  by (simp_all add: remap_registers_def Let_def split: prod.splits)

lemma remap_registers_inv:
  assumes "zynq_inv base irq st"
  shows "zynq_inv base irq (remap_registers k i w st)"
  using assms
  by (cases "interrupt_virt (zy_data st)"; cases "mask_virt (zy_data st)"; cases "pd_map_base (zy_data st)")
    (simp_all add: zynq_inv_def remap_registers_def Let_def remap_once_def mapped_def)

lemma enable_interrupt_inv:
  assumes "enable_interrupt m k i w st = Inr (rc, st')" and "zynq_inv base irq st"
  shows "zynq_inv base irq st'"
proof -
  let ?st1 = "remap_registers k i w st"
  have inv1: "zynq_inv base irq ?st1" by (rule remap_registers_inv [OF assms(2)])
  show ?thesis
  proof (cases "irq_is_registered (zy_data ?st1)")
    case True
    with assms(1) inv1 show ?thesis by (simp add: enable_interrupt_def Let_def)
  next
    case False
    then obtain x st2 y st3 where r: "zynq_readl m (interrupt_virt (zy_data ?st1)) ?st1 = Inr (x, st2)"
      "zynq_readl m (mask_virt (zy_data ?st1)) st2 = Inr (y, st3)"
      using assms(1) by (auto simp: enable_interrupt_def Let_def split: sum.splits)
    have "st3 = ?st1\<lparr>zy_dev := zy_dev st3\<rparr>"
      using zynq_readl_frame [OF r(1)] zynq_readl_frame [OF r(2)] by (metis zynq.surjective zynq.update_convs(2))
    then have fr: "zy_irqs st3 = zy_irqs ?st1" "zy_maps st3 = zy_maps ?st1"
      by (metis zynq.select_convs(3,4) zynq.surjective zynq.update_convs(2))+
    show ?thesis
      using assms(1) False r inv1 fr zynq_readl_frame [OF r(1)] zynq_readl_frame [OF r(2)]
      by (auto simp: enable_interrupt_def Let_def zynq_inv_def mapped_def split: if_splits)
  qed
qed

lemma zynq_inv_ioctl:
  assumes "portal_unlocked_ioctl m k cmd st = Inr (rc, out, st')" and "zynq_inv base irq st"
  shows "zynq_inv base irq st'"
proof (cases cmd)
  case (PORTAL_SET_FCLK_RATE cin n rate cout)
  with assms show ?thesis by (cases "set_fclk_rate k cin n rate cout") auto
next
  case (PORTAL_ENABLE_INTERRUPT cin i w)
  with assms show ?thesis
    by (cases "enable_interrupt m k i w st") (auto split: if_splits dest: enable_interrupt_inv)
next
  case (PORTAL_SEND_FD cin fd oid)
  with assms show ?thesis
    by (cases "zynq_send_fd m k cin fd oid st")
      (auto simp: zynq_send_fd_def split: if_splits option.splits prod.splits)
qed (use assms in \<open>auto split: option.splits\<close>)

lemma portal_isr_inv:
  assumes "portal_isr m st = Inr (r, st')" and "zynq_inv base irq st"
  shows "zynq_inv base irq st'"
  using assms zynq_readl_inv [of m _ _ _ _ base irq] zynq_writel_inv [of m _ _ _ _ base irq]
  by (simp add: portal_isr_def split: sum.splits if_splits prod.splits) (metis zynq_inv_dev(2))+

lemma portal_release_ok:
  assumes "zynq_inv base irq st"
  shows "\<exists>st'. portal_release m st = Inr (0, st') \<and> zy_irqs st' = [] \<and> zynq_inv base irq st'"
  using assms by (auto simp: portal_release_def zynq_inv_def Let_def zynq_writel_def mapped_def split: option.split)

lemma zynq_inv_step: "zynq_step m st st' \<Longrightarrow> zynq_inv base irq st \<Longrightarrow> zynq_inv base irq st'"
proof (erule zynq_stepE)
  fix r assume "zynq_inv base irq st" "portal_isr m st = Inr (r, st')"
  then show "zynq_inv base irq st'" by (rule portal_isr_inv [rotated])
next
  assume i: "zynq_inv base irq st" and s: "st' = snd (portal_poll m st)"
  then show "zynq_inv base irq st'"
    by (auto simp: portal_poll_def zynq_readl_inv split: sum.split)
next
  fix rc assume i: "zynq_inv base irq st" and r: "portal_release m st = Inr (rc, st')"
  then show "zynq_inv base irq st'" using portal_release_ok [OF i, of m] by auto
qed (auto simp: portal_open_def dest: zynq_inv_ioctl)

lemma zynq_inv_reachable:
  "(zynq_step m)\<^sup>*\<^sup>* st st' \<Longrightarrow> zynq_inv base irq st \<Longrightarrow> zynq_inv base irq st'"
  by (induction rule: rtranclp_induct) (auto dest: zynq_inv_step)

lemma zynq_inv_start:
  "portal_of_probe nm (Some base) (Some irq) ok = (0, Some p) \<Longrightarrow> zynq_inv base irq (zynq_start p d)"
  by (auto simp: portal_of_probe_def zynq_start_def zynq_inv_def mapped_def split: if_splits)

section \<open>Properties\<close>

text \<open>
  C29.  Between probe and remove, whatever the order of calls, interrupts and kernel failures: at
  most one handler is registered, the interrupt handler never follows a null pointer, and a
  release takes the handler back.  The mappings are made at most once each and never given back:
  after remove they remain.  The interrupt line registered is the one probed, or line 0 once a
  registration was refused.
\<close>

theorem zynq_interrupt_safe:
  assumes "portal_of_probe nm (Some base) (Some irq) ok = (0, Some p)"
    and "(zynq_step m)\<^sup>*\<^sup>* (zynq_start p d) st"
  shows "set (zy_irqs st) \<subseteq> {irq, 0} \<and> length (zy_irqs st) \<le> 1 \<and>
    (zy_irqs st \<noteq> [] \<longrightarrow> (\<exists>r st'. portal_isr m st = Inr (r, st'))) \<and>
    (\<exists>st'. portal_release m st = Inr (0, st') \<and> portal_of_remove st' = ([], mapped (zy_data st')))"
proof -
  have inv: "zynq_inv base irq st"
    by (rule zynq_inv_reachable [OF assms(2) zynq_inv_start [OF assms(1)]])
  obtain st' where r: "portal_release m st = Inr (0, st')" "zy_irqs st' = []" "zynq_inv base irq st'"
    using portal_release_ok [OF inv] by blast
  have "\<exists>r st'. portal_isr m st = Inr (r, st')" if "zy_irqs st \<noteq> []"
  proof -
    from that inv obtain a b where "interrupt_virt (zy_data st) = Some a" "mask_virt (zy_data st) = Some b"
      by (auto simp: zynq_inv_def Let_def split: if_splits)
    then show ?thesis
      by (simp add: portal_isr_def zynq_readl_def zynq_writel_def split: prod.split)
  qed
  moreover have "portal_of_remove st' = ([], mapped (zy_data st'))"
    using r(2,3) by (simp add: portal_of_remove_def zynq_inv_def Let_def)
  ultimately show ?thesis
    using inv r(1) by (auto simp: zynq_inv_def Let_def split: if_splits)
qed

definition sample_zynq_calls :: zynq_calls where
  "sample_zynq_calls = \<lparr>zk_clk_get_sys = (\<lambda>_. Clk 0), zk_clk_round_rate = (\<lambda>_ r. r), zk_clk_set_rate = (\<lambda>_ _. 0),
     zk_ioremap = (\<lambda>_. True), zk_request_irq = (\<lambda>n. n = 61), zk_files = (\<lambda>_. Some sample_list)\<rparr>"

definition sample_portal :: portal_data where
  "sample_portal = \<lparr>dev_base_phys = 0x6e400000, interrupt_virt = None, mask_virt = None, pd_map_base = None,
     portal_irq = 61, irq_is_registered = False\<rparr>"

definition sample_enabled :: "'d \<Rightarrow> 'd zynq" where
  "sample_enabled d = \<lparr>zy_data = sample_portal\<lparr>interrupt_virt := Some 0x6e400000, mask_virt := Some 0x6e400004,
     pd_map_base := Some 0x6e400000, irq_is_registered := True\<rparr>, zy_dev = d, zy_irqs = [61], zy_maps = 3, zy_woken = 0\<rparr>"

lemma sample_enable:
  "portal_unlocked_ioctl ind_mmio sample_zynq_calls (PORTAL_ENABLE_INTERRUPT True 0 4) (zynq_start sample_portal d) =
     Inr (0, Zynq_none, sample_enabled d)"
  by (simp add: enable_interrupt_def remap_registers_def remap_once_def zynq_readl_def sample_zynq_calls_def
      zynq_start_def sample_portal_def sample_enabled_def READL_def ind_mmio_def ih_read_def reg_addr_def)

theorem zynq_interrupt_safe_witness:
  "\<exists>r st'. portal_isr ind_mmio (sample_enabled sample_ind) = Inr (r, st')"
proof -
  have p: "portal_of_probe True (Some 0x6e400000) (Some 61) True = (0, Some sample_portal)"
    by (simp add: portal_of_probe_def sample_portal_def)
  have "(zynq_step ind_mmio)\<^sup>*\<^sup>* (zynq_start sample_portal sample_ind) (sample_enabled sample_ind)"
    by (rule r_into_rtranclp, rule zynq_step.ioctl, rule sample_enable)
  from zynq_interrupt_safe [OF p this] show ?thesis by (simp add: sample_enabled_def)
qed



section \<open>The driver as a sender\<close>

text \<open>\<^verbatim>\<open>ioctl(fpga_fd, PORTAL_SEND_FD, &sendFd)\<close> as the DMA manager sees it: -1 in user space on an error.\<close>

definition zynq_send :: "'d mmio \<Rightarrow> zynq_calls \<Rightarrow> 'd zynq sender" where
  "zynq_send m k fd oid st =
     (case portal_unlocked_ioctl m k (PORTAL_SEND_FD True fd oid) st of
        Inl e \<Rightarrow> Inl e
      | Inr (rc, _, st') \<Rightarrow> Inr (if rc < 0 then - 1 else rc, st'))"

lemma zynq_send_eq:
  "zynq_send m k fd oid st =
     (case zk_files k fd of
        None \<Rightarrow> Inl NullDeref
      | Some es \<Rightarrow>
          if pd_map_base (zy_data st) = None then Inl NullDeref
          else Inr (if sint oid < 0 then - 1 else 0,
                    st\<lparr>zy_dev := snd (send_fd_to_portal_kernel m es oid (zy_dev st))\<rparr>))"
  by (simp add: zynq_send_def zynq_send_fd_def send_fd_to_portal_kernel_def split: option.split) auto

interpretation zynq_port: dma_sender "zynq_send dma_mmio k" "hw_confs_settled \<circ> zy_dev" "hw_ok \<circ> zy_dev"
  for k :: zynq_calls
proof unfold_locales
  fix st st' :: "dma_hw zynq" and fd :: int and oid :: u32 and rc :: int
  assume ok: "(hw_ok \<circ> zy_dev) st"
  then have ok': "hw_ok (zy_dev st)" by simp
  note K = kernel_result [OF ok']
  have S: "\<exists>es. st' = st\<lparr>zy_dev := snd (send_fd_to_portal_kernel dma_mmio es oid (zy_dev st))\<rparr> \<and>
      (0 \<le> sint oid \<longrightarrow> r = 0)"
    if "zynq_send dma_mmio k fd oid st = Inr (r, st')" for r
    using that by (auto simp: zynq_send_eq split: if_splits option.splits)
  show "(hw_ok \<circ> zy_dev) st'" if "zynq_send dma_mmio k fd oid st = Inr (rc, st')"
    using S [OF that] K(2) by auto
  show "(hw_confs_settled \<circ> zy_dev) st' = (hw_confs_settled \<circ> zy_dev) st @ [ucast oid]"
    if "zynq_send dma_mmio k fd oid st = Inr (0, st')"
    using S [OF that] K(4) by auto
  show "(hw_confs_settled \<circ> zy_dev) st' = (hw_confs_settled \<circ> zy_dev) st"
    if "zynq_send dma_mmio k fd oid st = Inr (rc, st')" "rc \<noteq> 0" "0 \<le> sint oid"
    using S [OF that(1)] that by auto
qed


definition sample_zynq_sys :: "portal_data \<Rightarrow> dma_hw zynq dma_sys" where
  "sample_zynq_sys p = \<lparr>ds_dev = zynq_start p (hw_reset mmu_zero), ds_mgr = fst (DmaManager_init False 3 (- 1)),
     ds_caller = Idle, ds_delivered = 0, ds_results = [], ds_calls = 0\<rparr>"


end
