(* ===== verification/Gralloc.thy ===== *)
theory Gralloc
  imports Portal_Core
begin

text \<open>
  The Android graphics allocator, \<^verbatim>\<open>gralloc/gralloc.cpp\<close>, \<^verbatim>\<open>gralloc/mapper.cpp\<close>, \<^verbatim>\<open>gralloc/gralloc_priv.h\<close>
  and \<^verbatim>\<open>gralloc/gr.h\<close>: buffers from the portal memory driver, the handles that name them, their
  mappings, and the frame buffer device that shows them.  The target is 32-bit ARM, so sizes and
  addresses are \<^verbatim>\<open>u32\<close>.  \<^verbatim>\<open>mmap\<close>, \<^verbatim>\<open>munmap\<close>, \<^verbatim>\<open>close\<close> and \<^verbatim>\<open>errno\<close> are the system's; what they did is
  recorded in the state of the process.
\<close>

section \<open>Handles\<close>

definition NATIVE_HANDLE_SIZE :: u32 where "NATIVE_HANDLE_SIZE = 12"
definition sNumInts :: u32 where "sNumInts = 6"
definition sNumFds :: u32 where "sNumFds = 1"
definition sMagic :: u32 where "sMagic = 0x11052012"
definition PRIV_FLAGS_FRAMEBUFFER :: u32 where "PRIV_FLAGS_FRAMEBUFFER = 1"

record private_handle =
  ph_version :: u32
  ph_numFds :: u32
  ph_numInts :: u32
  ph_fd :: int
  ph_magic :: u32
  ph_flags :: u32
  ph_size :: u32
  ph_offset :: u32
  ph_base :: u32
  ph_pid :: int
  ph_stride :: u32
  ph_segmentNumber :: u32

definition private_handle_t :: "int \<Rightarrow> int \<Rightarrow> u32 \<Rightarrow> u32 \<Rightarrow> private_handle" where
  "private_handle_t pid fd sz flags =
     \<lparr>ph_version = NATIVE_HANDLE_SIZE, ph_numFds = sNumFds, ph_numInts = sNumInts, ph_fd = fd, ph_magic = sMagic,
      ph_flags = flags, ph_size = sz, ph_offset = 0, ph_base = 0, ph_pid = pid, ph_stride = 0,
      ph_segmentNumber = 0\<rparr>"

text \<open>\<^verbatim>\<open>validate\<close>; None is a null handle.\<close>

definition validate :: "private_handle option \<Rightarrow> int" where
  "validate h =
     (case h of
        None \<Rightarrow> - EINVAL
      | Some p \<Rightarrow>
          if ph_version p \<noteq> NATIVE_HANDLE_SIZE \<or> ph_numInts p \<noteq> sNumInts \<or> ph_numFds p \<noteq> sNumFds \<or> ph_magic p \<noteq> sMagic
          then - EINVAL else 0)"

text \<open>
  What another process receives: the descriptors (as the receiver's own) and the first \<^verbatim>\<open>numInts\<close>
  integers of the handle, in the order of the fields; the rest is not transferred.
\<close>

definition handle_ints :: "private_handle \<Rightarrow> u32 list" where
  "handle_ints p = [ph_magic p, ph_flags p, ph_size p, ph_offset p, ph_base p, of_int (ph_pid p), ph_stride p,
     ph_segmentNumber p]"

definition transferred :: "private_handle \<Rightarrow> u32 list" where
  "transferred p = take (unat (ph_numInts p)) (handle_ints p)"

definition roundUpToPageSize :: "u32 \<Rightarrow> u32" where
  "roundUpToPageSize x = (x + (4096 - 1)) AND NOT (4096 - 1)"

section \<open>The process\<close>

text \<open>
  Requests to the HDMI hardware are kept in order.  \<^verbatim>\<open>gc_display\<close> says whether \<^verbatim>\<open>hdmiDisplay\<close> is set.
\<close>

datatype hdmi_req =
    WaitForVsync u32
  | StartFrameBuffer u32 u32
  | SetDeLineCountMinMax int int int
  | SetDePixelCountMinMax int int int
  | SetClockFrequency int int

record gralloc_context =
  gc_display :: bool
  gc_vsync :: bool
  ref_srcAlloc :: u32
  nextSegmentNumber :: u32

record 's gproc =
  gp_pid :: int
  gp_maps :: "(u32 \<times> u32) list"
  gp_closed :: "int list"
  gp_hdmi :: "hdmi_req list"
  gp_ctx :: gralloc_context
  gp_mem :: "'s pmem"

section \<open>Mapping\<close>

text \<open>\<^verbatim>\<open>mmap\<close> gives an address or fails with \<^verbatim>\<open>errno\<close>.\<close>

definition gralloc_map ::
    "(int \<Rightarrow> u32 \<Rightarrow> u32 option) \<Rightarrow> int \<Rightarrow> private_handle \<Rightarrow> 's gproc \<Rightarrow> int \<times> private_handle \<times> 's gproc" where
  "gralloc_map mmap errno hnd st =
     (if ph_flags hnd AND PRIV_FLAGS_FRAMEBUFFER = 0
      then (case mmap (ph_fd hnd) (ph_size hnd) of
              None \<Rightarrow> (- errno, hnd, st)
            | Some a \<Rightarrow> (0, hnd\<lparr>ph_base := a + ph_offset hnd\<rparr>, st\<lparr>gp_maps := (a, ph_size hnd) # gp_maps st\<rparr>))
      else (0, hnd, st))"

definition gralloc_unmap :: "private_handle \<Rightarrow> 's gproc \<Rightarrow> private_handle \<times> 's gproc" where
  "gralloc_unmap hnd st =
     (hnd\<lparr>ph_base := 0\<rparr>,
      if ph_flags hnd AND PRIV_FLAGS_FRAMEBUFFER = 0
      then st\<lparr>gp_maps := remove1 (ph_base hnd, ph_size hnd) (gp_maps st)\<rparr> else st)"

definition gralloc_register_buffer ::
    "(int \<Rightarrow> u32 \<Rightarrow> u32 option) \<Rightarrow> int \<Rightarrow> private_handle \<Rightarrow> 's gproc \<Rightarrow> int \<times> private_handle \<times> 's gproc" where
  "gralloc_register_buffer mmap errno hnd st =
     (if validate (Some hnd) < 0 then (- EINVAL, hnd, st)
      else if ph_pid hnd \<noteq> gp_pid st then gralloc_map mmap errno hnd st else (0, hnd, st))"

definition gralloc_unregister_buffer :: "private_handle \<Rightarrow> 's gproc \<Rightarrow> int \<times> private_handle \<times> 's gproc" where
  "gralloc_unregister_buffer hnd st =
     (if validate (Some hnd) < 0 then (- EINVAL, hnd, st)
      else if ph_pid hnd \<noteq> gp_pid st \<and> ph_base hnd \<noteq> 0
      then (case gralloc_unmap hnd st of (hnd', st') \<Rightarrow> (0, hnd', st')) else (0, hnd, st))"

definition mapBuffer ::
    "(int \<Rightarrow> u32 \<Rightarrow> u32 option) \<Rightarrow> int \<Rightarrow> private_handle \<Rightarrow> 's gproc \<Rightarrow> int \<times> private_handle \<times> 's gproc" where
  "mapBuffer = gralloc_map"

definition terminateBuffer :: "private_handle \<Rightarrow> 's gproc \<Rightarrow> private_handle \<times> 's gproc" where
  "terminateBuffer hnd st = (if ph_base hnd \<noteq> 0 then gralloc_unmap hnd st else (hnd, st))"

definition gralloc_lock :: "private_handle option \<Rightarrow> int \<times> u32 option" where
  "gralloc_lock h = (if validate h < 0 then (- EINVAL, None) else (0, map_option ph_base h))"

definition gralloc_unlock :: "private_handle option \<Rightarrow> int" where
  "gralloc_unlock h = (if validate h < 0 then - EINVAL else 0)"

section \<open>Allocation\<close>

text \<open>
  \<^verbatim>\<open>gralloc_alloc_buffer\<close>.  The buffer comes from \<^verbatim>\<open>portalAlloc\<close>; \<^verbatim>\<open>reference\<close> is the id the DMA manager
  returns for the descriptor (it is called whether or not the allocation succeeded).  The new
  handle is returned only when it could be mapped.
\<close>

definition gralloc_alloc_buffer ::
    "'s kcalls \<Rightarrow> (int \<Rightarrow> u32) \<Rightarrow> (int \<Rightarrow> u32 \<Rightarrow> u32 option) \<Rightarrow> int \<Rightarrow> u32 \<Rightarrow> u32 \<Rightarrow> 's gproc \<Rightarrow>
       (int \<times> private_handle option \<times> 's gproc) kresult" where
  "gralloc_alloc_buffer k reference mmap errno sz0 stride st =
     (let sz = roundUpToPageSize sz0;
          alloc = (if gc_display (gp_ctx st) then portalAlloc False k (ucast sz) (gp_mem st) else Inr (- 1, gp_mem st))
      in case alloc of
           Inl e \<Rightarrow> Inl e
         | Inr (fd, mem) \<Rightarrow>
             let st1 = st\<lparr>gp_mem := mem,
                   gp_ctx := (if gc_display (gp_ctx st) then (gp_ctx st)\<lparr>ref_srcAlloc := reference fd\<rparr> else gp_ctx st)\<rparr>;
                 err = (if fd < 0 then - errno else 0)
             in if err = 0
                then let hnd = (private_handle_t (gp_pid st) fd sz 0)\<lparr>ph_stride := stride, ph_segmentNumber := 0\<rparr>
                     in (case mapBuffer mmap errno hnd st1 of (err', hnd', st2) \<Rightarrow>
                           Inr (err', if err' = 0 then Some hnd' else None, st2))
                else Inr (err, None, st1))"

datatype pixel_format = RGBA_8888 | RGBX_8888 | BGRA_8888 | RGB_888 | RGB_565 | Other_format

fun bytes_per_pixel :: "pixel_format \<Rightarrow> nat option" where
  "bytes_per_pixel RGBA_8888 = Some 4"
| "bytes_per_pixel RGBX_8888 = Some 4"
| "bytes_per_pixel BGRA_8888 = Some 4"
| "bytes_per_pixel RGB_888 = Some 3"
| "bytes_per_pixel RGB_565 = Some 2"
| "bytes_per_pixel Other_format = None"

definition bytes_per_row :: "u32 \<Rightarrow> nat \<Rightarrow> u32" where
  "bytes_per_row w bpp = (w * of_nat bpp + (32 - 1)) AND NOT (32 - 1)"

definition gralloc_alloc ::
    "'s kcalls \<Rightarrow> (int \<Rightarrow> u32) \<Rightarrow> (int \<Rightarrow> u32 \<Rightarrow> u32 option) \<Rightarrow> int \<Rightarrow> u32 \<Rightarrow> u32 \<Rightarrow> pixel_format \<Rightarrow> 's gproc \<Rightarrow>
       (int \<times> (private_handle \<times> u32) option \<times> 's gproc) kresult" where
  "gralloc_alloc k reference mmap errno w h format st =
     (case bytes_per_pixel format of
        None \<Rightarrow> Inr (- EINVAL, None, st)
      | Some bpp \<Rightarrow>
          let bpr = bytes_per_row w bpp; stride = bpr div of_nat bpp in
          (case gralloc_alloc_buffer k reference mmap errno (bpr * h) stride st of
             Inl e \<Rightarrow> Inl e
           | Inr (err, hnd, st') \<Rightarrow>
               Inr (if err < 0 then err else 0,
                    if err < 0 then None else map_option (\<lambda>p. (p, stride)) hnd, st')))"

text \<open>
  \<^verbatim>\<open>gralloc_free\<close>: with a display the descriptor is closed without unmapping the buffer, and then
  closed once more.
\<close>

definition gralloc_free :: "private_handle option \<Rightarrow> 's gproc \<Rightarrow> int \<times> 's gproc" where
  "gralloc_free h st =
     (case h of
        None \<Rightarrow> (- EINVAL, st)
      | Some hnd \<Rightarrow>
          if validate h < 0 then (- EINVAL, st)
          else let st1 = (if gc_display (gp_ctx st) then st\<lparr>gp_closed := gp_closed st @ [ph_fd hnd]\<rparr>
                          else snd (terminateBuffer hnd st))
               in (0, st1\<lparr>gp_closed := gp_closed st1 @ [ph_fd hnd]\<rparr>))"

section \<open>Frame buffer\<close>

definition fb_setSwapInterval :: "int \<Rightarrow> int \<Rightarrow> int \<Rightarrow> int" where
  "fb_setSwapInterval lo hi interval = (if interval < lo \<or> interval > hi then - EINVAL else 0)"

definition vsync :: "'s gproc \<Rightarrow> 's gproc" where
  "vsync st = st\<lparr>gp_ctx := (gp_ctx st)\<lparr>gc_vsync := True\<rparr>\<rparr>"

text \<open>\<^verbatim>\<open>fb_post\<close> up to its wait, and after it: None while the flag is not set.\<close>

definition fb_post :: "private_handle option \<Rightarrow> 's gproc \<Rightarrow> int \<times> 's gproc" where
  "fb_post h st =
     (case h of
        None \<Rightarrow> (- EINVAL, st)
      | Some hnd \<Rightarrow>
          if validate h < 0 then (- EINVAL, st)
          else if gc_display (gp_ctx st)
          then (0, st\<lparr>gp_ctx := (gp_ctx st)\<lparr>gc_vsync := False\<rparr>,
                     gp_hdmi := gp_hdmi st @
                       [WaitForVsync 0, StartFrameBuffer (ref_srcAlloc (gp_ctx st)) (ph_size hnd div 4), WaitForVsync 0]\<rparr>)
          else (0, st))"

definition fb_post_finish :: "'s gproc \<Rightarrow> (int \<times> 's gproc) option" where
  "fb_post_finish st = (if gc_display (gp_ctx st) \<and> \<not> gc_vsync (gp_ctx st) then None else Some (0, st))"

section \<open>Opening the devices\<close>

text \<open>The table of CEA-861-D: code, hactive, vactive, hblank, vblank.\<close>

definition screen_types :: "(int \<times> nat \<times> nat \<times> nat \<times> nat) list" where
  "screen_types =
     [(1, 640, 480, 160, 45), (2, 720, 480, 138, 45), (3, 720, 480, 138, 45), (4, 1280, 720, 370, 30),
      (8, 1440, 240, 276, 22), (9, 1440, 240, 276, 22), (12, 2880, 240, 552, 22), (13, 2880, 240, 552, 22),
      (14, 1440, 480, 276, 45), (15, 1440, 480, 276, 45), (16, 1920, 1080, 280, 45), (17, 720, 576, 144, 49),
      (18, 720, 576, 144, 49), (19, 1280, 720, 700, 30), (23, 1440, 288, 288, 24), (24, 1440, 288, 288, 24),
      (27, 2880, 288, 576, 24), (28, 2880, 288, 576, 24), (29, 1440, 576, 288, 49), (30, 1440, 576, 288, 49),
      (31, 1920, 1080, 720, 45), (32, 1920, 1080, 830, 45), (33, 1920, 1080, 720, 45), (34, 1920, 1080, 280, 45),
      (35, 2880, 480, 552, 45), (36, 2880, 480, 552, 45), (37, 2880, 576, 576, 49), (38, 2880, 576, 576, 49),
      (41, 1280, 720, 700, 30), (42, 720, 576, 144, 49), (43, 720, 576, 144, 49), (47, 1280, 720, 370, 30),
      (48, 720, 480, 138, 45), (49, 720, 480, 138, 45), (52, 720, 576, 144, 49), (53, 720, 576, 144, 49),
      (56, 720, 480, 138, 45), (57, 720, 480, 138, 45), (0, 0, 0, 0, 0)]"

record screen_mode =
  sm_nlines :: u16
  sm_npixels :: u16
  sm_lmin :: u16
  sm_pmin :: u16

text \<open>The search loop ends at the entry with code 0; the defaults then stay.\<close>

fun find_screen :: "int \<Rightarrow> (int \<times> nat \<times> nat \<times> nat \<times> nat) list \<Rightarrow> screen_mode" where
  "find_screen code ((c, hactive, vactive, hblank, vblank) # rest) =
     (if c = 0 then \<lparr>sm_nlines = 480, sm_npixels = 720, sm_lmin = 45, sm_pmin = 138\<rparr>
      else if c = code
      then \<lparr>sm_nlines = of_nat vactive, sm_npixels = of_nat hactive, sm_lmin = of_nat vblank, sm_pmin = of_nat hblank\<rparr>
      else find_screen code rest)"
| "find_screen code [] = \<lparr>sm_nlines = 480, sm_npixels = 720, sm_lmin = 45, sm_pmin = 138\<rparr>"

definition stridebytes :: "screen_mode \<Rightarrow> u16" where
  "stridebytes s = (sm_npixels s * 4 + 31) AND NOT 31"

text \<open>The values are promoted to int before the sums; \<^verbatim>\<open>vsyncwidth\<close> has been set to 0.\<close>

definition screen_requests :: "screen_mode \<Rightarrow> hdmi_req list" where
  "screen_requests s =
     (let nlines = uint (sm_nlines s); npixels = uint (sm_npixels s); lmin = uint (sm_lmin s); pmin = uint (sm_pmin s)
      in [SetDeLineCountMinMax lmin (lmin + nlines) ((lmin + lmin + nlines) div 2),
          SetDePixelCountMinMax pmin (pmin + npixels) (pmin + npixels div 2),
          SetClockFrequency 1 (60 * (pmin + npixels) * (lmin + nlines))])"

datatype device_name = Gpu0 | Fb0 | Other_device

definition open_gpu :: "'s gproc \<Rightarrow> 's gproc" where
  "open_gpu st = st\<lparr>gp_ctx := \<lparr>gc_display = True, gc_vsync = False, ref_srcAlloc = 0, nextSegmentNumber = 0\<rparr>\<rparr>"

text \<open>
  Opening the frame buffer opens the allocator first (\<^verbatim>\<open>gralloc_open\<close>, a library function that opens
  the module's "gpu0"), then sets up the screen chosen by the property \<^verbatim>\<open>rw.screencode\<close>.
\<close>

definition gralloc_device_open :: "device_name \<Rightarrow> int \<Rightarrow> 's gproc \<Rightarrow> int \<times> 's gproc" where
  "gralloc_device_open name screen_code st =
     (case name of
        Gpu0 \<Rightarrow> (0, open_gpu st)
      | Fb0 \<Rightarrow> (0, let st1 = open_gpu st in
                 st1\<lparr>gp_hdmi := gp_hdmi st1 @ screen_requests (find_screen screen_code screen_types)\<rparr>)
      | Other_device \<Rightarrow> (- EINVAL, st))"

section \<open>Properties\<close>

lemma round_up_unat:
  "unat x + 4095 < 2 ^ 32 \<Longrightarrow> unat (roundUpToPageSize x) = (unat x + 4095) div 4096 * 4096"
  using unat_and_not_mask [of "x + 4095" 12]
  by (simp add: roundUpToPageSize_def mask_eq_exp_minus_1 unat_word_ariths)

lemma bytes_per_row_unat:
  assumes "unat w * bpp + 31 < 2 ^ 32" and "bpp \<noteq> 0"
  shows "unat (bytes_per_row w bpp) = (unat w * bpp + 31) div 32 * 32"
    and "unat w * bpp \<le> unat (bytes_per_row w bpp)"
proof -
  have "unat (w * of_nat bpp + 31 :: u32) = unat w * bpp + 31"
  proof (cases "unat w = 0")
    case True
    then have "w = 0" by (simp add: unsigned_eq_0_iff)
    then show ?thesis by simp
  next
    case False
    then have "1 \<le> unat w" by simp
    then have "bpp \<le> unat w * bpp" by simp
    then have "bpp < 2 ^ 32" using assms(1) by linarith
    then have "unat (of_nat bpp :: u32) = bpp" by (simp add: unat_of_nat_less)
    then show ?thesis using assms(1) by (simp add: unat_word_ariths)
  qed
  then show e: "unat (bytes_per_row w bpp) = (unat w * bpp + 31) div 32 * 32"
    using unat_and_not_mask [of "w * of_nat bpp + 31 :: u32" 5]
    by (simp add: bytes_per_row_def mask_eq_exp_minus_1)
  show "unat w * bpp \<le> unat (bytes_per_row w bpp)" unfolding e by linarith
qed

lemma bpp_range: "bytes_per_pixel format = Some bpp \<Longrightarrow> bpp \<in> {2, 3, 4}"
  by (cases format) auto

text \<open>What an allocation with a display does when it returns a handle.\<close>

lemma alloc_buffer_done:
  assumes "gralloc_alloc_buffer k reference mmap errno sz stride st = Inr (0, Some hnd, st')"
    and "gc_display (gp_ctx st)" and "errno \<noteq> 0"
  obtains fd mem a where "portalmem_dmabuffer_create k (ucast (roundUpToPageSize sz)) (gp_mem st) = Inr (fd, mem)"
    "0 \<le> fd" "mmap fd (roundUpToPageSize sz) = Some a"
    "hnd = (private_handle_t (gp_pid st) fd (roundUpToPageSize sz) 0)\<lparr>ph_stride := stride, ph_base := a\<rparr>"
    "st' = st\<lparr>gp_mem := mem, gp_ctx := (gp_ctx st)\<lparr>ref_srcAlloc := reference fd\<rparr>,
       gp_maps := (a, roundUpToPageSize sz) # gp_maps st\<rparr>"
proof -
  from assms(1,2) obtain fd mem where p: "portalAlloc False k (ucast (roundUpToPageSize sz)) (gp_mem st) = Inr (fd, mem)"
    by (auto simp: gralloc_alloc_buffer_def Let_def split: sum.splits)
  have fd: "0 \<le> fd" using assms p by (auto simp: gralloc_alloc_buffer_def Let_def split: if_splits)
  then have c: "portalmem_dmabuffer_create k (ucast (roundUpToPageSize sz)) (gp_mem st) = Inr (fd, mem)"
    using p by (auto simp: portalAlloc_def split: sum.splits prod.splits if_splits)
  show thesis
    using assms p fd that [OF c fd]
    by (auto simp: gralloc_alloc_buffer_def Let_def mapBuffer_def gralloc_map_def private_handle_t_def
        split: prod.splits if_splits option.splits)
qed

text \<open>
  C35.  A graphics buffer that \<^verbatim>\<open>gralloc_alloc\<close> returns is valid, mapped, and large enough: the stride is at
  least the width, a row of stride pixels fits in the aligned row, all rows fit in the buffer, and
  the memory driver's buffer behind the descriptor has exactly the handle's size.
\<close>

theorem gralloc_alloc_fits:
  assumes "gralloc_alloc k reference mmap errno w h format st = Inr (0, Some (hnd, stride), st')"
    and "bytes_per_pixel format = Some bpp" and "gc_display (gp_ctx st)" and "errno \<noteq> 0"
    and "pages_aligned (kc_alloc_pages k)"
    and "(unat w * bpp + 31) * unat h + 4095 < 2 ^ 32" and "unat h \<noteq> 0"
  shows "validate (Some hnd) = 0 \<and> ph_pid hnd = gp_pid st \<and> (ph_base hnd, ph_size hnd) \<in> set (gp_maps st') \<and>
    unat w \<le> unat stride \<and> unat stride * bpp * unat h \<le> unat (ph_size hnd) \<and>
    (\<exists>b. pm_files (gp_mem st') (ph_fd hnd) = Some b \<and> table_ok (sg_table b) \<and>
       sg_total (sg_table b) = unat (ph_size hnd))"
proof -
  let ?bpr = "bytes_per_row w bpp"
  have n: "bpp \<noteq> 0" "bpp < 2 ^ 32" using bpp_range [OF assms(2)] by auto
  have "(unat w * bpp + 31) * 1 \<le> (unat w * bpp + 31) * unat h"
    using assms(7) by (intro mult_le_mono2) simp
  moreover have "(unat w * bpp + 31) * unat h < 2 ^ 32" using assms(6) by (rule add_lessD1)
  ultimately have one: "unat w * bpp + 31 < 2 ^ 32" unfolding mult_1_right by (rule le_less_trans)
  note row = bytes_per_row_unat [OF one n(1)]
  have s: "stride = ?bpr div of_nat bpp" and b: "\<exists>err. err \<ge> 0 \<and>
      gralloc_alloc_buffer k reference mmap errno (?bpr * h) stride st = Inr (err, Some hnd, st')"
    using assms(1,2) by (auto simp: gralloc_alloc_def Let_def split: sum.splits prod.splits if_splits)
  have "err = 0" if "gralloc_alloc_buffer k reference mmap errno (?bpr * h) stride st = Inr (err, Some hnd, st')" for err
    using that by (auto simp: gralloc_alloc_buffer_def Let_def split: sum.splits prod.splits if_splits)
  with b have a: "gralloc_alloc_buffer k reference mmap errno (?bpr * h) stride st = Inr (0, Some hnd, st')" by blast
  from alloc_buffer_done [OF a assms(3,4)] obtain fd mem c where A:
    "portalmem_dmabuffer_create k (ucast (roundUpToPageSize (?bpr * h))) (gp_mem st) = Inr (fd, mem)" "0 \<le> fd"
    "hnd = (private_handle_t (gp_pid st) fd (roundUpToPageSize (?bpr * h)) 0)\<lparr>ph_stride := stride, ph_base := c\<rparr>"
    "st' = st\<lparr>gp_mem := mem, gp_ctx := (gp_ctx st)\<lparr>ref_srcAlloc := reference fd\<rparr>,
       gp_maps := (c, roundUpToPageSize (?bpr * h)) # gp_maps st\<rparr>" by metis
  have le: "unat ?bpr * unat h \<le> (unat w * bpp + 31) * unat h" unfolding row(1) by simp
  have lim: "unat ?bpr * unat h + 4095 < 2 ^ 32"
    by (rule le_less_trans [OF _ assms(6)]) (rule add_le_mono1 [OF le])
  then have m: "unat (?bpr * h) = unat ?bpr * unat h"
    unfolding unat_word_ariths by (intro mod_less) (drule add_lessD1, simp)
  have sz: "unat (roundUpToPageSize (?bpr * h)) = (unat ?bpr * unat h + 4095) div 4096 * 4096"
    using round_up_unat [of "?bpr * h", unfolded m, OF lim] .
  have r32: "unat (roundUpToPageSize (?bpr * h)) < 2 ^ 32"
    using unsigned_less [of "roundUpToPageSize (?bpr * h)"] by simp
  have st: "unat stride = unat ?bpr div bpp"
    using n(2) by (simp add: s unat_div unat_of_nat_less)
  have "unat stride * bpp * unat h \<le> unat ?bpr * unat h" by (simp add: st)
  also have "unat ?bpr * unat h \<le> (unat ?bpr * unat h + 4095) div 4096 * 4096" by linarith
  finally have "unat stride * bpp * unat h \<le> unat (roundUpToPageSize (?bpr * h))" unfolding sz .
  moreover have "unat w \<le> unat stride"
    unfolding st using row(2) n(1) by (simp add: less_eq_div_iff_mult_less_eq)
  moreover obtain bf where "pm_files mem = (pm_files (gp_mem st))(fd := Some bf)" "table_ok (sg_table bf)"
      "sg_total (sg_table bf) = (unat (roundUpToPageSize (?bpr * h)) + 4095) div 4096 * 4096"
    using create_result [OF assms(5) _ A(1,2), unfolded unat_ucast_u64]
      r32 by auto
  moreover have "(unat (roundUpToPageSize (?bpr * h)) + 4095) div 4096 * 4096 = unat (roundUpToPageSize (?bpr * h))"
    unfolding sz by simp
  ultimately show ?thesis
    using A(3,4) by (auto simp: private_handle_t_def validate_def)
qed

definition sample_proc :: "nat gproc" where
  "sample_proc = \<lparr>gp_pid = 77, gp_maps = [], gp_closed = [], gp_hdmi = [],
     gp_ctx = \<lparr>gc_display = True, gc_vsync = False, ref_srcAlloc = 0, nextSegmentNumber = 0\<rparr>, gp_mem = sample_pmem\<rparr>"

lemma sample_page_loop:
  "s = 0x3000 \<or> s = 0x4000 \<Longrightarrow>
   alloc_loop (bump_alloc 0x1000000) (sint (page_round 4096)) 8 (False, [], s) = (True, [(of_nat s, 0)], s + 0x1000)"
  by (auto simp: page_round_def alloc_loop.simps orders_def PAGE_SIZE_def bump_alloc_def Let_def)

lemma sample_page_create:
  assumes "pm_pages st = s" and "s = 0x3000 \<or> s = 0x4000" and "0 \<le> fd"
  shows "\<exists>st'. portalmem_dmabuffer_create (sample_calls 0x1000000\<lparr>kc_fd := fd\<rparr>) 4096 st = Inr (fd, st') \<and>
    pm_pages st' = s + 0x1000"
  using create_unfold [of "sample_calls 0x1000000\<lparr>kc_fd := fd\<rparr>" 4096 st] sample_page_loop [OF assms(2)] assms
  by (auto simp: create_export_def Let_def sample_calls_def list_all_iff)

lemma sample_alloc_buffer:
  assumes "pm_pages (gp_mem st) = 0x3000 \<or> pm_pages (gp_mem st) = 0x4000" and "gc_display (gp_ctx st)" and "0 \<le> fd"
  shows "\<exists>hnd st'. gralloc_alloc_buffer (sample_calls 0x1000000\<lparr>kc_fd := fd\<rparr>) of_int (\<lambda>_ _. Some 0x40000000) 12 320 10 st =
     Inr (0, Some hnd, st') \<and> ph_fd hnd = fd \<and> ph_size hnd = 4096 \<and> pm_pages (gp_mem st') = pm_pages (gp_mem st) + 0x1000 \<and>
     gc_display (gp_ctx st')"
  using sample_page_create [OF refl assms(1,3)] assms(2,3)
  by (auto simp: gralloc_alloc_buffer_def Let_def roundUpToPageSize_def portalAlloc_def
      mapBuffer_def gralloc_map_def private_handle_t_def)

theorem gralloc_alloc_fits_witness:
  "\<exists>hnd st'. gralloc_alloc (sample_calls 0x1000000\<lparr>kc_fd := 5\<rparr>) of_int (\<lambda>_ _. Some 0x40000000) 12 10 10 RGB_888 sample_proc =
      Inr (0, Some (hnd, 10), st') \<and> 300 \<le> unat (ph_size hnd)"
proof -
  have b: "bytes_per_row 10 3 = 32" by (simp add: bytes_per_row_def)
  from sample_alloc_buffer [of sample_proc 5] obtain hnd st' where
    g: "gralloc_alloc (sample_calls 0x1000000\<lparr>kc_fd := 5\<rparr>) of_int (\<lambda>_ _. Some 0x40000000) 12 10 10 RGB_888 sample_proc =
      Inr (0, Some (hnd, 10), st')"
    by (auto simp: gralloc_alloc_def b sample_proc_def sample_pmem_def)
  have "pages_aligned (kc_alloc_pages (sample_calls 0x1000000\<lparr>kc_fd := 5\<rparr>))" by (simp add: sample_calls_def bump_aligned)
  with gralloc_alloc_fits [OF g, of 3] g show ?thesis by (simp add: sample_proc_def)
qed

text \<open>
  The allocator keeps one DMA reference for all buffers and forgets mappings: after two
  allocations, posting the first buffer starts the display on the reference of the second (with
  the size of the first); freeing a buffer closes its descriptor twice and leaves its memory mapped.
\<close>

theorem gralloc_one_reference:
  assumes "gralloc_alloc_buffer k reference mmap errno sz1 s1 st = Inr (0, Some h1, st1)"
    and "gralloc_alloc_buffer k' reference mmap errno sz2 s2 st1 = Inr (0, Some h2, st2)"
    and "gc_display (gp_ctx st)" and "errno \<noteq> 0"
  shows "gp_hdmi (snd (fb_post (Some h1) st2)) = gp_hdmi st2 @
      [WaitForVsync 0, StartFrameBuffer (reference (ph_fd h2)) (ph_size h1 div 4), WaitForVsync 0] \<and>
    (case gralloc_free (Some h1) st2 of (rc, st3) \<Rightarrow>
       rc = 0 \<and> gp_closed st3 = gp_closed st2 @ [ph_fd h1, ph_fd h1] \<and>
       (ph_base h1, ph_size h1) \<in> set (gp_maps st3))"
proof -
  obtain fd1 mem1 a1 where 1: "h1 = (private_handle_t (gp_pid st) fd1 (roundUpToPageSize sz1) 0)\<lparr>ph_stride := s1, ph_base := a1\<rparr>"
    "st1 = st\<lparr>gp_mem := mem1, gp_ctx := (gp_ctx st)\<lparr>ref_srcAlloc := reference fd1\<rparr>,
       gp_maps := (a1, roundUpToPageSize sz1) # gp_maps st\<rparr>"
    using alloc_buffer_done [OF assms(1,3,4)] by metis
  have d: "gc_display (gp_ctx st1)" using 1(2) assms(3) by simp
  obtain fd2 mem2 a2 where 2: "h2 = (private_handle_t (gp_pid st1) fd2 (roundUpToPageSize sz2) 0)\<lparr>ph_stride := s2, ph_base := a2\<rparr>"
    "st2 = st1\<lparr>gp_mem := mem2, gp_ctx := (gp_ctx st1)\<lparr>ref_srcAlloc := reference fd2\<rparr>,
       gp_maps := (a2, roundUpToPageSize sz2) # gp_maps st1\<rparr>"
    using alloc_buffer_done [OF assms(2) d assms(4)] by metis
  show ?thesis
    using 1 2 d by (simp add: fb_post_def gralloc_free_def validate_def private_handle_t_def Let_def)
qed

theorem gralloc_one_reference_witness:
  "\<exists>st1 st2 h1 h2. gralloc_alloc_buffer (sample_calls 0x1000000\<lparr>kc_fd := 5\<rparr>) of_int (\<lambda>_ _. Some 0x40000000) 12 320 10 sample_proc
       = Inr (0, Some h1, st1) \<and>
     gralloc_alloc_buffer (sample_calls 0x1000000\<lparr>kc_fd := 6\<rparr>) of_int (\<lambda>_ _. Some 0x40000000) 12 320 10 st1
       = Inr (0, Some h2, st2) \<and>
     ph_fd h1 = 5 \<and> StartFrameBuffer 6 1024 \<in> set (gp_hdmi (snd (fb_post (Some h1) st2)))"
proof -
  have p: "pm_pages (gp_mem sample_proc) = 0x3000" "gc_display (gp_ctx sample_proc)"
    by (simp_all add: sample_proc_def sample_pmem_def)
  from sample_alloc_buffer [of sample_proc 5] p obtain h1 st1 where
    1: "gralloc_alloc_buffer (sample_calls 0x1000000\<lparr>kc_fd := 5\<rparr>) of_int (\<lambda>_ _. Some 0x40000000) 12 320 10 sample_proc
       = Inr (0, Some h1, st1)" "ph_fd h1 = 5" "ph_size h1 = 4096" "pm_pages (gp_mem st1) = 0x4000" "gc_display (gp_ctx st1)"
    by auto
  from sample_alloc_buffer [of st1 6] 1 obtain h2 st2 where
    2: "gralloc_alloc_buffer (sample_calls 0x1000000\<lparr>kc_fd := 6\<rparr>) of_int (\<lambda>_ _. Some 0x40000000) 12 320 10 st1
       = Inr (0, Some h2, st2)" "ph_fd h2 = 6" by auto
  from gralloc_one_reference [OF 1(1) 2(1) p(2)] 1 2 show ?thesis by (intro exI) auto
qed

end
