(* ===== verification/Cmd_Ring.thy ===== *)
theory Cmd_Ring
  imports Prelude "HOL-Library.Multiset"
begin

text \<open>
  \<^verbatim>\<open>examples/ring/testring.cpp\<close> and the hardware it drives (\<^verbatim>\<open>lib/bsv/RingBuffer.bsv\<close>,
  \<^verbatim>\<open>examples/ring/Ring.bsv\<close> with its engines): software writes 64-byte commands into a ring in
  memory, the hardware fetches them, and its engines write one 64-byte status per command into a
  second ring, from which software calls the finish function of the command's completion.
  Software learns how far the hardware got only by asking (\<^verbatim>\<open>ring_send\<close> asks every quarter of the
  ring), and tells how far it read only every quarter (\<^verbatim>\<open>ring_pop\<close>).  Portal requests and
  indications are queues between the two sides, so every value is stale when it arrives.

  A failed \<^verbatim>\<open>assert\<close> and a null pointer that is followed are the value \<^verbatim>\<open>None\<close>.
\<close>

section \<open>Memory\<close>

text \<open>A buffer is a function from the index of a 64-bit word; a slot is eight words.\<close>

type_synonym ring_mem = "nat \<Rightarrow> u64"

definition get_slot :: "nat \<Rightarrow> ring_mem \<Rightarrow> u64 list" where
  "get_slot off m = map (\<lambda>k. m (off div 8 + k)) [0..<8]"

definition put_slot :: "nat \<Rightarrow> u64 list \<Rightarrow> ring_mem \<Rightarrow> ring_mem" where
  "put_slot off ws m = (\<lambda>a. if off div 8 \<le> a \<and> a < off div 8 + 8 then ws ! (a - off div 8) else m a)"

section \<open>The data of the program\<close>

datatype finish_fn = Flag_finish | Echo_finish

record Ring_Completion =
  rc_tag :: nat
  rc_in_use :: bool
  rc_finish :: "finish_fn option"
  rc_arg :: "nat option"

record CompletionEvent =
  exp_a :: u64
  exp_b :: u64
  got_a :: u64
  got_b :: u64
  ev_flag :: bool

record SWRing =
  r_ref :: nat
  r_first :: nat
  r_last :: nat
  r_size :: nat
  r_slots :: nat
  r_cached_space :: nat
  r_ringid :: nat

definition REG_BASE :: nat where "REG_BASE = 0"
definition REG_END :: nat where "REG_END = 1"
definition REG_MASK :: nat where "REG_MASK = 4"
definition REG_HANDLE :: nat where "REG_HANDLE = 5"
definition REG_LASTACK :: nat where "REG_LASTACK = 6"

definition CMD_NOP :: u64 where "CMD_NOP = 0"
definition CMD_COPY :: u64 where "CMD_COPY = 1"
definition CMD_ECHO :: u64 where "CMD_ECHO = 2"

definition cmd_ring_sz :: nat where "cmd_ring_sz = 8192"
definition status_ring_sz :: nat where "status_ring_sz = 8192"

text \<open>The requests and indications of the portal that the program uses.\<close>

datatype ring_req =
    Rset nat nat nat | RsetCmdFirst nat | RsetCmdLast nat | RsetStatusFirst nat | RsetStatusLast nat
  | Rget nat nat | Rhwenable nat

datatype ring_ind = SetResult nat nat nat | GetResult nat nat nat

record RingBuffer =
  rbufferbase :: nat
  rbufferend :: nat
  rbufferfirst :: nat
  rbufferlastfetch :: nat
  rbufferlastack :: nat
  rbuffermask :: nat
  rmempointer :: nat
  renable :: bool

text \<open>
  Where the program is: between calls, at the head of the inquiry loop of \<^verbatim>\<open>ring_send\<close>, or in its
  \<^verbatim>\<open>waitforflag\<close>.
\<close>

datatype ring_pc = Idle | Sending "u64 list" "finish_fn option" "nat option"
  | Waiting "u64 list" "finish_fn option" "nat option"

text \<open>
  The whole system.  The last group is the hardware: the two ring registers, the outstanding
  command reads, the reads that completed and are not acknowledged yet, and the responses the
  engines hold.
\<close>

record ring_sys =
  cmd_ring :: SWRing
  status_ring :: SWRing
  completion :: "nat \<Rightarrow> Ring_Completion"
  completionfreelist :: "nat list"
  setresult_flag :: bool
  getresult_flag :: bool
  char_flags :: "nat \<Rightarrow> bool"
  echo_events :: "nat \<Rightarrow> CompletionEvent"
  totalCompletions :: int
  ring_pc :: ring_pc
  cmdBuffer :: ring_mem
  statusBuffer :: ring_mem
  ring_reqs :: "ring_req list"
  ring_inds :: "ring_ind list"
  cmdRing :: RingBuffer
  statusRing :: RingBuffer
  hwenabled :: bool
  cmd_fetches :: "nat list"
  cmd_acks :: nat
  copy_queue :: "u64 list list"
  echo_queue :: "u64 list list"

section \<open>Completions\<close>

definition completion_list_init :: "ring_sys \<Rightarrow> ring_sys" where
  "completion_list_init s =
     fold (\<lambda>i s. s\<lparr>completion := (completion s)(i := \<lparr>rc_tag = i, rc_in_use = False, rc_finish = None, rc_arg = None\<rparr>),
                   completionfreelist := completionfreelist s @ [i]\<rparr>)
       [1..<1024] (s\<lparr>completionfreelist := []\<rparr>)"

text \<open>The result is the completion taken, or None for \<^verbatim>\<open>NULL\<close>.\<close>

definition get_free_completion :: "ring_sys \<Rightarrow> (nat option \<times> ring_sys) option" where
  "get_free_completion s =
     (case completionfreelist s of
        [] \<Rightarrow> Some (None, s)
      | p # ps \<Rightarrow>
          if rc_in_use (completion s p) then None
          else Some (Some p, s\<lparr>completionfreelist := ps,
                 completion := (completion s)(p := (completion s p)\<lparr>rc_in_use := True\<rparr>)\<rparr>))"

definition flag_finish :: "nat option \<Rightarrow> u64 list \<Rightarrow> ring_sys \<Rightarrow> ring_sys option" where
  "flag_finish a event s =
     (case a of None \<Rightarrow> None | Some f \<Rightarrow> Some (s\<lparr>char_flags := (char_flags s)(f := True)\<rparr>))"

definition echo_finish :: "nat option \<Rightarrow> u64 list \<Rightarrow> ring_sys \<Rightarrow> ring_sys option" where
  "echo_finish a event s =
     (case a of
        None \<Rightarrow> None
      | Some e \<Rightarrow> Some (s\<lparr>echo_events := (echo_events s)
            (e := (echo_events s e)\<lparr>got_a := event ! 1, got_b := event ! 2, ev_flag := True\<rparr>),
            totalCompletions := totalCompletions s + 1\<rparr>))"

definition call_finish :: "finish_fn option \<Rightarrow> nat option \<Rightarrow> u64 list \<Rightarrow> ring_sys \<Rightarrow> ring_sys option" where
  "call_finish f a event s =
     (case f of
        None \<Rightarrow> Some s
      | Some Flag_finish \<Rightarrow> flag_finish a event s
      | Some Echo_finish \<Rightarrow> echo_finish a event s)"

text \<open>The event is the slot of the status ring at the given offset.\<close>

definition Ring_Handle_Completion :: "nat \<Rightarrow> ring_sys \<Rightarrow> ring_sys option" where
  "Ring_Handle_Completion off s =
     (let event = get_slot off (statusBuffer s);
          tag = unat (event ! 7 AND 0xffff);
          p = completion s tag
      in if \<not> tag < 1024 then None
         else if \<not> rc_in_use p then None
         else case call_finish (rc_finish p) (rc_arg p) event
                     (s\<lparr>completion := (completion s)(tag := p\<lparr>rc_in_use := False\<rparr>)\<rparr>) of
                None \<Rightarrow> None
              | Some s' \<Rightarrow> Some (s'\<lparr>statusBuffer := (statusBuffer s')(off div 8 + 7 := 0),
                                   completionfreelist := completionfreelist s' @ [tag]\<rparr>))"

section \<open>Rings\<close>

text \<open>The structure \<^verbatim>\<open>ring_init\<close> fills in, and the requests it sends in order; it waits for the
  indication of every \<^verbatim>\<open>set\<close> before it goes on.\<close>

definition ring_init :: "nat \<Rightarrow> nat \<Rightarrow> nat \<Rightarrow> SWRing \<times> ring_req list" where
  "ring_init ringid ref sz =
     (\<lparr>r_ref = ref, r_first = 0, r_last = 0, r_size = sz, r_slots = sz div 64, r_cached_space = sz - 64,
       r_ringid = ringid\<rparr>,
      [Rset ringid REG_BASE 0, Rset ringid REG_END sz]
      @ (if ringid = 0 then [RsetCmdFirst 0, RsetCmdLast 0] else [RsetStatusFirst 0, RsetStatusLast 0])
      @ [Rset ringid REG_MASK (sz - 1), Rset ringid REG_HANDLE ref])"

definition ring_next :: "SWRing \<Rightarrow> ring_mem \<Rightarrow> nat option" where
  "ring_next r m = (if m (r_last r div 8 + 7) = 0 then None else Some (r_last r))"

text \<open>The new structure, the memory with the slot marked unused, and the requests sent.\<close>

definition ring_pop :: "SWRing \<Rightarrow> ring_mem \<Rightarrow> SWRing \<times> ring_mem \<times> ring_req list" where
  "ring_pop r m =
     (let l = (r_last r + 64) mod 2 ^ 32;
          l = (if r_size r \<le> l then 0 else l)
      in (r\<lparr>r_last := l\<rparr>, m(r_last r div 8 + 7 := 0),
          if l mod (r_size r div 4) = 0
          then [if r_ringid r = 0 then RsetCmdLast l else RsetStatusLast l] else []))"

text \<open>One round of the polling loops: the next status, if there is one.\<close>

definition poll_status :: "ring_sys \<Rightarrow> ring_sys option" where
  "poll_status s =
     (case ring_next (status_ring s) (statusBuffer s) of
        None \<Rightarrow> Some s
      | Some msg \<Rightarrow>
          (case Ring_Handle_Completion msg s of
             None \<Rightarrow> None
           | Some s' \<Rightarrow>
               (case ring_pop (status_ring s') (statusBuffer s') of
                  (r, m, qs) \<Rightarrow> Some (s'\<lparr>status_ring := r, statusBuffer := m,
                                        ring_reqs := ring_reqs s' @ qs\<rparr>))))"

text \<open>The outer option is None when the loop does not end, the inner one when an \<^verbatim>\<open>assert\<close> fails.\<close>

partial_function (option) StatusPollRingOnly :: "ring_sys \<Rightarrow> ring_sys option option" where
  "StatusPollRingOnly s =
     (case ring_next (status_ring s) (statusBuffer s) of
        None \<Rightarrow> Some (Some s)
      | Some msg \<Rightarrow>
          (case poll_status s of
             None \<Rightarrow> Some None
           | Some s' \<Rightarrow> StatusPollRingOnly s'))"

text \<open>The indication callbacks.\<close>

fun ring_indication :: "ring_ind \<Rightarrow> ring_sys \<Rightarrow> ring_sys" where
  "ring_indication (SetResult c r a) s = s\<lparr>setresult_flag := True\<rparr>"
| "ring_indication (GetResult c r a) s =
     (let s = (if c = r_ringid (cmd_ring s) \<and> r = REG_LASTACK
               then s\<lparr>cmd_ring := (cmd_ring s)\<lparr>r_last := a mod 2 ^ 32\<rparr>\<rparr> else s)
      in s\<lparr>getresult_flag := True\<rparr>)"

text \<open>\<^verbatim>\<open>StatusPoll\<close> after \<^verbatim>\<open>ring_init_done\<close>: every waiting indication, then one status.\<close>

definition portal_events :: "ring_sys \<Rightarrow> ring_sys" where
  "portal_events s = fold ring_indication (ring_inds s) (s\<lparr>ring_inds := []\<rparr>)"

definition StatusPoll :: "ring_sys \<Rightarrow> ring_sys option" where
  "StatusPoll s = poll_status (portal_events s)"

section \<open>Sending\<close>

definition need_inquiry :: "SWRing \<Rightarrow> bool" where
  "need_inquiry r \<longleftrightarrow> r_cached_space r mod (r_size r div 4) = 0"

text \<open>The space is computed in \<^verbatim>\<open>size_t\<close> and kept in an \<^verbatim>\<open>unsigned\<close>.\<close>

definition ring_space :: "SWRing \<Rightarrow> nat" where
  "ring_space r =
     nat ((int (r_size r) + int (r_last r) - int (r_first r) - 64) mod 2 ^ 64) mod r_size r mod 2 ^ 32"

definition ring_put :: "u64 list \<Rightarrow> finish_fn option \<Rightarrow> nat option \<Rightarrow> ring_sys \<Rightarrow> ring_sys option" where
  "ring_put cmd fp a s =
     (case get_free_completion s of
        None \<Rightarrow> None
      | Some (None, _) \<Rightarrow> None
      | Some (Some p, s) \<Rightarrow>
          (let r = cmd_ring s;
               c = completion s p;
               n = (r_first r + 64) mod 2 ^ 32
           in Some (s\<lparr>completion := (completion s)(p := c\<lparr>rc_finish := fp, rc_arg := a\<rparr>),
                      cmdBuffer := put_slot (r_first r) (cmd[7 := of_nat (rc_tag c)]) (cmdBuffer s),
                      cmd_ring := r\<lparr>r_first := if n = r_size r then 0 else n,
                                    r_cached_space := (r_cached_space r + 2 ^ 32 - 64) mod 2 ^ 32\<rparr>,
                      ring_pc := Idle\<rparr>)))"

text \<open>\<^verbatim>\<open>ring_send\<close>: the entry, and then one move of its loops at a time.\<close>

definition ring_send_enter :: "u64 list \<Rightarrow> finish_fn option \<Rightarrow> nat option \<Rightarrow> ring_sys \<Rightarrow> ring_sys option" where
  "ring_send_enter cmd fp a s =
     (if r_first (cmd_ring s) < r_size (cmd_ring s) then Some (s\<lparr>ring_pc := Sending cmd fp a\<rparr>) else None)"

definition ring_send_next :: "ring_sys \<Rightarrow> ring_sys option" where
  "ring_send_next s =
     (case ring_pc s of
        Idle \<Rightarrow> Some s
      | Sending cmd fp a \<Rightarrow>
          if need_inquiry (cmd_ring s)
          then Some (s\<lparr>getresult_flag := False,
                       ring_reqs := ring_reqs s @ [Rget (r_ringid (cmd_ring s)) REG_LASTACK],
                       ring_pc := Waiting cmd fp a\<rparr>)
          else ring_put cmd fp a s
      | Waiting cmd fp a \<Rightarrow>
          if getresult_flag s
          then let n = ring_space (cmd_ring s); s = s\<lparr>cmd_ring := (cmd_ring s)\<lparr>r_cached_space := n\<rparr>\<rparr>
               in if n \<noteq> 0 then ring_put cmd fp a s else Some (s\<lparr>ring_pc := Sending cmd fp a\<rparr>)
          else StatusPoll s)"

definition STARTRING :: "ring_sys \<Rightarrow> ring_sys" where
  "STARTRING s = s\<lparr>ring_reqs := ring_reqs s @ [RsetCmdFirst (r_first (cmd_ring s))]\<rparr>"

text \<open>
  The callers up to \<^verbatim>\<open>ring_send\<close>: the words of the command that they do not set are what the stack
  holds (\<^verbatim>\<open>junk\<close>).  After it they call \<^verbatim>\<open>STARTRING\<close> and poll until their flag is set.
\<close>

definition echo_cmd :: "u64 \<Rightarrow> u64 \<Rightarrow> u64 list \<Rightarrow> u64 list" where
  "echo_cmd a b junk = [push_bit 56 CMD_ECHO, a, b, junk ! 0, junk ! 1, junk ! 2, junk ! 3, junk ! 4]"

definition hw_echo :: "nat \<Rightarrow> u64 \<Rightarrow> u64 \<Rightarrow> u64 list \<Rightarrow> ring_sys \<Rightarrow> ring_sys option" where
  "hw_echo e a b junk s =
     ring_send_enter (echo_cmd a b junk) (Some Echo_finish) (Some e)
       (s\<lparr>echo_events := (echo_events s)(e := (echo_events s e)\<lparr>exp_a := a, exp_b := b, ev_flag := False\<rparr>)\<rparr>)"

definition copy_cmd :: "u64 \<Rightarrow> u64 \<Rightarrow> u64 \<Rightarrow> u32 \<Rightarrow> u64 list \<Rightarrow> u64 list" where
  "copy_cmd scratch from to cnt junk =
     [push_bit 56 CMD_COPY, scratch, from, scratch, to, ucast cnt, junk ! 0, junk ! 1]"

definition hw_copy :: "nat \<Rightarrow> u64 \<Rightarrow> u64 \<Rightarrow> u64 \<Rightarrow> u32 \<Rightarrow> u64 list \<Rightarrow> ring_sys \<Rightarrow> ring_sys option" where
  "hw_copy f scratch from to cnt junk s =
     ring_send_enter (copy_cmd scratch from to cnt junk) (Some Flag_finish) (Some f)
       (s\<lparr>char_flags := (char_flags s)(f := False)\<rparr>)"

definition hw_copy_nb :: "nat \<Rightarrow> u64 \<Rightarrow> u64 \<Rightarrow> u64 \<Rightarrow> u32 \<Rightarrow> u64 list \<Rightarrow> ring_sys \<Rightarrow> ring_sys option" where
  "hw_copy_nb f scratch from to cnt junk s =
     ring_send_enter (copy_cmd scratch from to cnt junk) (Some Flag_finish) (Some f) s"

definition nop_cmd :: "u64 list \<Rightarrow> u64 list" where
  "nop_cmd junk = [push_bit 56 CMD_NOP, 17, 34, junk ! 0, junk ! 1, junk ! 2, junk ! 3, junk ! 4]"

definition hw_nop :: "u64 list \<Rightarrow> ring_sys \<Rightarrow> ring_sys option" where
  "hw_nop junk s = ring_send_enter (nop_cmd junk) None None s"

section \<open>The hardware\<close>

text \<open>Offsets are 40 bits wide (\<^verbatim>\<open>ObjectOffsetSize\<close>) and pointers 32.\<close>

definition rb_set :: "nat \<Rightarrow> nat \<Rightarrow> RingBuffer \<Rightarrow> RingBuffer" where
  "rb_set regist addr b =
     (let a = addr mod 2 ^ 40
      in if regist = 0 then b\<lparr>rbufferbase := a\<rparr>
         else if regist = 1 then b\<lparr>rbufferend := a\<rparr>
         else if regist = 2 then b\<lparr>rbufferfirst := a\<rparr>
         else if regist = 3 then b\<lparr>rbufferlastfetch := a\<rparr>
         else if regist = 4 then b\<lparr>rbuffermask := a\<rparr>
         else if regist = 5 then b\<lparr>rmempointer := addr mod 2 ^ 32\<rparr>
         else if regist = 6 then b\<lparr>rbufferlastack := a\<rparr>
         else b\<lparr>renable := odd addr\<rparr>)"

definition rb_setFirst :: "nat \<Rightarrow> RingBuffer \<Rightarrow> RingBuffer" where
  "rb_setFirst addr b = b\<lparr>rbufferfirst := addr mod 2 ^ 40\<rparr>"

definition rb_setLast :: "nat \<Rightarrow> RingBuffer \<Rightarrow> RingBuffer" where
  "rb_setLast addr b = b\<lparr>rbufferlastfetch := addr mod 2 ^ 40, rbufferlastack := addr mod 2 ^ 40\<rparr>"

definition rb_get :: "nat \<Rightarrow> RingBuffer \<Rightarrow> nat" where
  "rb_get regist b =
     (if regist = 0 then rbufferbase b
      else if regist = 1 then rbufferend b
      else if regist = 2 then rbufferfirst b
      else if regist = 3 then rbufferlastfetch b
      else if regist = 4 then rbuffermask b
      else if regist = 5 then rmempointer b
      else if regist = 6 then rbufferlastack b
      else of_bool (renable b))"

definition rb_advance :: "nat \<Rightarrow> RingBuffer \<Rightarrow> nat" where
  "rb_advance p b = ((p + 64) mod 2 ^ 40) AND rbuffermask b"

definition rb_notEmpty :: "RingBuffer \<Rightarrow> bool" where
  "rb_notEmpty b \<longleftrightarrow> rbufferfirst b \<noteq> rbufferlastfetch b"

definition rb_notFull :: "RingBuffer \<Rightarrow> bool" where
  "rb_notFull b \<longleftrightarrow> rb_advance (rbufferfirst b) b \<noteq> rbufferlastack b"

definition rb_push :: "RingBuffer \<Rightarrow> RingBuffer" where
  "rb_push b = b\<lparr>rbufferfirst := rb_advance (rbufferfirst b) b\<rparr>"

definition rb_popfetch :: "RingBuffer \<Rightarrow> RingBuffer" where
  "rb_popfetch b = b\<lparr>rbufferlastfetch := rb_advance (rbufferlastfetch b) b\<rparr>"

definition rb_popack :: "RingBuffer \<Rightarrow> RingBuffer" where
  "rb_popack b = b\<lparr>rbufferlastack := rb_advance (rbufferlastack b) b\<rparr>"

text \<open>The request methods of \<^verbatim>\<open>mkRingRequest\<close>.\<close>

fun ring_request :: "ring_req \<Rightarrow> ring_sys \<Rightarrow> ring_sys" where
  "ring_request (Rset c regist addr) s =
     (if c = 0 then s\<lparr>cmdRing := rb_set regist addr (cmdRing s), ring_inds := ring_inds s @ [SetResult c regist addr]\<rparr>
      else s\<lparr>statusRing := rb_set regist addr (statusRing s), ring_inds := ring_inds s @ [SetResult c regist addr]\<rparr>)"
| "ring_request (RsetCmdFirst addr) s = s\<lparr>cmdRing := rb_setFirst addr (cmdRing s)\<rparr>"
| "ring_request (RsetCmdLast addr) s = s\<lparr>cmdRing := rb_setLast addr (cmdRing s)\<rparr>"
| "ring_request (RsetStatusFirst addr) s = s\<lparr>statusRing := rb_setFirst addr (statusRing s)\<rparr>"
| "ring_request (RsetStatusLast addr) s = s\<lparr>statusRing := rb_setLast addr (statusRing s)\<rparr>"
| "ring_request (Rget c regist) s =
     s\<lparr>ring_inds := ring_inds s @ [GetResult c regist (rb_get regist (if c = 0 then cmdRing s else statusRing s))]\<rparr>"
| "ring_request (Rhwenable en) s = s\<lparr>hwenabled := (en = 1)\<rparr>"

definition serve_request :: "ring_sys \<Rightarrow> ring_sys" where
  "serve_request s =
     (case ring_reqs s of [] \<Rightarrow> s | q # qs \<Rightarrow> ring_request q (s\<lparr>ring_reqs := qs\<rparr>))"

definition cmdFetch :: "ring_sys \<Rightarrow> ring_sys" where
  "cmdFetch s =
     (if hwenabled s \<and> rb_notEmpty (cmdRing s)
      then s\<lparr>cmd_fetches := cmd_fetches s @ [rbufferlastfetch (cmdRing s)], cmdRing := rb_popfetch (cmdRing s)\<rparr>
      else s)"

definition engineselect :: "u64 list \<Rightarrow> u64" where
  "engineselect cmd = drop_bit 56 (cmd ! 0)"

text \<open>The copy engine answers with seven zero words and the low 32 bits of the tag word.\<close>

definition copy_response :: "u64 list \<Rightarrow> u64 list" where
  "copy_response cmd = replicate 7 0 @ [take_bit 32 (cmd ! 7)]"

text \<open>
  A command read from memory goes to its engine when the engine has room: the echo engine's FIFO
  holds two commands, the copy engine two at its input, one being copied and two answers.  The
  nop engine discards the words and has no response.
\<close>

definition cmdDispatch :: "ring_sys \<Rightarrow> ring_sys" where
  "cmdDispatch s =
     (case cmd_fetches s of
        [] \<Rightarrow> s
      | off # offs \<Rightarrow>
          (let cmd = get_slot off (cmdBuffer s);
               t = s\<lparr>cmd_fetches := offs, cmd_acks := cmd_acks s + 1\<rparr>
           in if engineselect cmd = CMD_COPY
              then (if length (copy_queue s) < 5 then t\<lparr>copy_queue := copy_queue s @ [copy_response cmd]\<rparr> else s)
              else if engineselect cmd = CMD_ECHO
              then (if length (echo_queue s) < 2 then t\<lparr>echo_queue := echo_queue s @ [cmd]\<rparr> else s)
              else t))"

definition finishCmdReads :: "ring_sys \<Rightarrow> ring_sys" where
  "finishCmdReads s =
     (case cmd_acks s of 0 \<Rightarrow> s | Suc n \<Rightarrow> s\<lparr>cmd_acks := n, cmdRing := rb_popack (cmdRing s)\<rparr>)"

definition write_status :: "u64 list \<Rightarrow> ring_sys \<Rightarrow> ring_sys" where
  "write_status w s =
     s\<lparr>statusBuffer := put_slot (rbufferfirst (statusRing s)) w (statusBuffer s),
       statusRing := rb_push (statusRing s)\<rparr>"

definition responseArbiter_copy :: "ring_sys \<Rightarrow> ring_sys" where
  "responseArbiter_copy s =
     (case copy_queue s of
        [] \<Rightarrow> s
      | w # ws \<Rightarrow> if rb_notFull (statusRing s) then write_status w (s\<lparr>copy_queue := ws\<rparr>) else s)"

definition responseArbiter_echo :: "ring_sys \<Rightarrow> ring_sys" where
  "responseArbiter_echo s =
     (case echo_queue s of
        [] \<Rightarrow> s
      | w # ws \<Rightarrow> if rb_notFull (statusRing s) then write_status w (s\<lparr>echo_queue := ws\<rparr>) else s)"

section \<open>The system\<close>

text \<open>
  The state in which \<^verbatim>\<open>main\<close> starts its tests: the completions and both rings are initialised and
  the engines enabled; the status buffer comes zeroed from the allocator, the command buffer and
  the variables hold anything, but no event is marked as arrived.
\<close>

definition ring_boot :: "ring_sys \<Rightarrow> nat \<Rightarrow> nat \<Rightarrow> ring_sys" where
  "ring_boot s cmdPointer statusPointer =
     (let c = ring_init 0 cmdPointer cmd_ring_sz;
          t = ring_init 1 statusPointer status_ring_sz;
          s = completion_list_init (s\<lparr>cmd_ring := fst c, status_ring := fst t, ring_pc := Idle, ring_reqs := [],
                ring_inds := [], cmd_fetches := [], cmd_acks := 0, copy_queue := [], echo_queue := []\<rparr>);
          s = fold ring_request (snd c @ snd t @ [Rhwenable 1]) s
      in portal_events s)"

definition ring_start :: "ring_sys \<Rightarrow> bool" where
  "ring_start s \<longleftrightarrow>
     (\<exists>s0 c t. s = ring_boot s0 c t \<and> statusBuffer s0 = (\<lambda>_. 0) \<and> (\<forall>e. \<not> ev_flag (echo_events s0 e)))"

text \<open>A caller uses an event of its own: no completion in use points to it.\<close>

definition event_free :: "nat \<Rightarrow> ring_sys \<Rightarrow> bool" where
  "event_free e s \<longleftrightarrow>
     (\<forall>t. rc_in_use (completion s t) \<and> rc_finish (completion s t) = Some Echo_finish \<longrightarrow>
          rc_arg (completion s t) \<noteq> Some e)"

text \<open>
  The moves of the program, which is single threaded, and of the hardware, whose machines move
  independently.  The number is 1 for a call of \<^verbatim>\<open>hw_nop\<close> and 0 otherwise.
\<close>

inductive ring_step :: "ring_sys \<Rightarrow> nat \<Rightarrow> ring_sys option \<Rightarrow> bool" where
  echo: "ring_pc s = Idle \<Longrightarrow> event_free e s \<Longrightarrow> ring_step s 0 (hw_echo e a b junk s)"
| copy: "ring_pc s = Idle \<Longrightarrow> ring_step s 0 (hw_copy f scratch from to cnt junk s)"
| copy_nb: "ring_pc s = Idle \<Longrightarrow> ring_step s 0 (hw_copy_nb f scratch from to cnt junk s)"
| nop: "ring_pc s = Idle \<Longrightarrow> ring_step s 1 (hw_nop junk s)"
| send: "ring_pc s \<noteq> Idle \<Longrightarrow> ring_step s 0 (ring_send_next s)"
| start: "ring_pc s = Idle \<Longrightarrow> ring_step s 0 (Some (STARTRING s))"
| poll: "ring_pc s = Idle \<Longrightarrow> ring_step s 0 (StatusPoll s)"
| poll_ring: "ring_pc s = Idle \<Longrightarrow> StatusPollRingOnly s = Some r \<Longrightarrow> ring_step s 0 r"
| request: "ring_step s 0 (Some (serve_request s))"
| fetch: "ring_step s 0 (Some (cmdFetch s))"
| dispatch: "ring_step s 0 (Some (cmdDispatch s))"
| ack: "ring_step s 0 (Some (finishCmdReads s))"
| respond_copy: "ring_step s 0 (Some (responseArbiter_copy s))"
| respond_echo: "ring_step s 0 (Some (responseArbiter_echo s))"

text \<open>The states reached with the number of calls of \<^verbatim>\<open>hw_nop\<close> so far.\<close>

inductive ring_reach :: "nat \<Rightarrow> ring_sys \<Rightarrow> bool" where
  init: "ring_start s \<Longrightarrow> ring_reach 0 s"
| step: "ring_reach n s \<Longrightarrow> ring_step s k (Some s') \<Longrightarrow> ring_reach (n + k) s'"

section \<open>Offsets of slots\<close>

text \<open>
  A ring of \<open>slots\<close> slots of 64 bytes: the \<open>i\<close>-th slot ever used is at offset \<open>off i\<close>.  Both sides
  advance their pointers by one slot, and two slots fewer than \<open>slots\<close> apart do not overlap.
\<close>

locale slot_ring =
  fixes off :: "nat \<Rightarrow> nat" and slots :: nat and sz :: nat
  assumes off_eq: "off i = off j \<longleftrightarrow> i mod slots = j mod slots"
    and off_Suc: "off (Suc i) = (if off i + 64 = sz then 0 else off i + 64)"
    and off_less: "off i + 64 \<le> sz"
    and off_aligned: "64 dvd off i"
begin

lemma off_window: "i < j \<Longrightarrow> j < i + slots \<Longrightarrow> off i \<noteq> off j"
  unfolding off_eq by (metis add_diff_cancel_left' dvd_imp_le less_imp_add_positive mod_eq_dvd_iff_nat
      less_imp_le_nat nat_add_left_cancel_less not_less)

lemma off_neq_window: "i \<noteq> j \<Longrightarrow> i < j + slots \<Longrightarrow> j < i + slots \<Longrightarrow> off i \<noteq> off j"
  using off_window [of i j] off_window [of j i] by (metis linorder_neqE_nat)

lemma off_words: "off i \<noteq> off j \<Longrightarrow> off i div 8 + 8 \<le> off j div 8 \<or> off j div 8 + 8 \<le> off i div 8"
proof -
  assume "off i \<noteq> off j"
  moreover obtain a b where "off i = 64 * a" "off j = 64 * b"
    using off_aligned [of i] off_aligned [of j] by (auto simp: dvd_def)
  ultimately show ?thesis by auto
qed

lemma get_put_same: "length w = 8 \<Longrightarrow> get_slot (off i) (put_slot (off i) w m) = w"
  by (rule nth_equalityI) (auto simp: get_slot_def put_slot_def)

lemma get_put_other: "off i \<noteq> off j \<Longrightarrow> get_slot (off i) (put_slot (off j) w m) = get_slot (off i) m"
  using off_words [of i j] by (auto simp: get_slot_def put_slot_def)

lemma tag_put_other: "off i \<noteq> off j \<Longrightarrow> put_slot (off j) w m (off i div 8 + 7) = m (off i div 8 + 7)"
  using off_words [of i j] by (auto simp: put_slot_def)

lemma get_clear_other: "off i \<noteq> off j \<Longrightarrow> get_slot (off i) (m(off j div 8 + 7 := 0)) = get_slot (off i) m"
  using off_words [of i j] by (auto simp: get_slot_def)

lemma tag_clear_other: "off i \<noteq> off j \<Longrightarrow> (m(off j div 8 + 7 := 0)) (off i div 8 + 7) = m (off i div 8 + 7)"
  using off_words [of i j] by auto

end

definition slot_off :: "nat \<Rightarrow> nat" where
  "slot_off i = 64 * (i mod 128)"

lemma slot_off_and_mask: "(slot_off i + 64) AND 8191 = slot_off (Suc i)"
proof -
  have "(slot_off i + 64) AND mask 13 = (slot_off i + 64) mod 2 ^ 13"
    by (simp only: take_bit_eq_mask [symmetric] take_bit_eq_mod)
  moreover have "mask 13 = (8191 :: nat)" by (simp add: mask_eq_exp_minus_1)
  moreover have "(64 * (i mod 128) + 64) mod 8192 = 64 * (Suc i mod 128)"
  proof (cases "i mod 128 = 127")
    case False
    then have "i mod 128 < 127" using mod_less_divisor [of 128 i] by linarith
    then show ?thesis by (simp add: mod_Suc)
  qed (simp add: mod_Suc)
  ultimately show ?thesis by (simp add: slot_off_def)
qed

interpretation ring8k: slot_ring slot_off 128 8192
proof unfold_locales
  fix i j
  show "slot_off i = slot_off j \<longleftrightarrow> i mod 128 = j mod 128" by (simp add: slot_off_def)
  show "slot_off (Suc i) = (if slot_off i + 64 = 8192 then 0 else slot_off i + 64)"
    by (auto simp: slot_off_def mod_Suc)
  have "i mod 128 \<le> 127" by (simp add: less_Suc_eq_le [symmetric])
  then show "slot_off i + 64 \<le> 8192" by (simp add: slot_off_def)
  show "64 dvd slot_off i" by (simp add: slot_off_def)
qed

lemma slot_off_less: "slot_off i < 2 ^ 32"
  using ring8k.off_less [of i] by simp

lemma slot_off_add_less: "slot_off i + 64 < 2 ^ 32"
  using ring8k.off_less [of i] by simp

lemma slot_off_mod [simp]: "slot_off i mod 4294967296 = slot_off i" "slot_off i mod 1099511627776 = slot_off i"
  "(slot_off i + 64) mod 4294967296 = slot_off i + 64" "(slot_off i + 64) mod 1099511627776 = slot_off i + 64"
  using ring8k.off_less [of i] by simp_all

lemma rb_advance_slot: "rbuffermask b = 8191 \<Longrightarrow> rb_advance (slot_off i) b = slot_off (Suc i)"
  by (simp add: rb_advance_def slot_off_and_mask)

end
