(* ===== verification/Ring_Safety.thy ===== *)
theory Ring_Safety
  imports Cmd_Ring
begin

text \<open>
  What the ring program of \<^verbatim>\<open>Cmd_Ring\<close> guarantees: an abstract account of a run (every command
  ever written, every status ever posted, and how far each side got, as plain counters) to which
  the pointers, queues and buffers of the system always correspond, and from it that no command or
  status is overwritten before it was read, that every echo returns its arguments, and that tags
  are lost only through \<^verbatim>\<open>hw_nop\<close>.
\<close>

section \<open>The account of a run\<close>

record ring_account =
  g_cmds :: "u64 list list"
  g_hwfirst :: nat
  g_fetch :: nat
  g_disp :: nat
  g_ack :: nat
  g_known :: nat
  g_firsts :: "nat list"
  g_answers :: "nat list"
  g_posts :: "u64 list list"
  g_handled :: nat
  g_slast :: nat
  g_slasts :: "nat list"
  g_lost :: "nat multiset"

fun firsts_of :: "ring_req list \<Rightarrow> nat list" where
  "firsts_of [] = []"
| "firsts_of (RsetCmdFirst a # qs) = a # firsts_of qs"
| "firsts_of (_ # qs) = firsts_of qs"

fun lasts_of :: "ring_req list \<Rightarrow> nat list" where
  "lasts_of [] = []"
| "lasts_of (RsetStatusLast a # qs) = a # lasts_of qs"
| "lasts_of (_ # qs) = lasts_of qs"

fun run_req :: "ring_req \<Rightarrow> bool" where
  "run_req (RsetCmdFirst a) = True"
| "run_req (RsetStatusLast a) = True"
| "run_req (Rget c r) = (c = 0 \<and> r = 6)"
| "run_req _ = False"

lemma firsts_of_append [simp]: "firsts_of (qs @ rs) = firsts_of qs @ firsts_of rs"
  by (induction qs rule: firsts_of.induct) auto

lemma lasts_of_append [simp]: "lasts_of (qs @ rs) = lasts_of qs @ lasts_of rs"
  by (induction qs rule: lasts_of.induct) auto

text \<open>The command ring: the counters are ordered and at most 127 slots apart, and the slots of the
  commands that were not dispatched yet hold them.\<close>

definition cmd_inv :: "ring_account \<Rightarrow> ring_sys \<Rightarrow> bool" where
  "cmd_inv g s \<longleftrightarrow>
     r_first (cmd_ring s) = slot_off (length (g_cmds g)) \<and> r_last (cmd_ring s) = slot_off (g_known g) \<and>
     r_size (cmd_ring s) = 8192 \<and> r_ringid (cmd_ring s) = 0 \<and> 64 dvd r_cached_space (cmd_ring s) \<and>
     length (g_cmds g) + r_cached_space (cmd_ring s) div 64 \<le> g_known g + 127 \<and>
     hwenabled s \<and> rbuffermask (cmdRing s) = 8191 \<and> rbufferfirst (cmdRing s) = slot_off (g_hwfirst g) \<and>
     rbufferlastfetch (cmdRing s) = slot_off (g_fetch g) \<and> rbufferlastack (cmdRing s) = slot_off (g_ack g) \<and>
     g_ack g + cmd_acks s = g_disp g \<and> g_disp g \<le> g_fetch g \<and> g_fetch g \<le> g_hwfirst g \<and>
     cmd_fetches s = map slot_off [g_disp g..<g_fetch g] \<and>
     firsts_of (ring_reqs s) = map slot_off (g_firsts g) \<and>
     sorted (g_hwfirst g # g_firsts g @ [length (g_cmds g)]) \<and>
     ring_inds s = map (\<lambda>k. GetResult 0 6 (slot_off k)) (g_answers g) \<and>
     sorted (g_known g # g_answers g @ [g_ack g]) \<and>
     (\<forall>q\<in>set (ring_reqs s). run_req q) \<and>
     (\<forall>i. g_disp g \<le> i \<and> i < length (g_cmds g) \<longrightarrow> get_slot (slot_off i) (cmdBuffer s) = g_cmds g ! i)"

text \<open>The status ring: unread slots hold the posted statuses, the others are marked unused.\<close>

definition status_inv :: "ring_account \<Rightarrow> ring_sys \<Rightarrow> bool" where
  "status_inv g s \<longleftrightarrow>
     r_last (status_ring s) = slot_off (g_handled g) \<and> r_size (status_ring s) = 8192 \<and>
     r_ringid (status_ring s) = 1 \<and>
     rbuffermask (statusRing s) = 8191 \<and> rbufferfirst (statusRing s) = slot_off (length (g_posts g)) \<and>
     rbufferlastack (statusRing s) = slot_off (g_slast g) \<and>
     lasts_of (ring_reqs s) = map slot_off (g_slasts g) \<and>
     sorted (g_slast g # g_slasts g @ [g_handled g]) \<and>
     g_handled g \<le> length (g_posts g) \<and> length (g_posts g) \<le> g_slast g + 127 \<and>
     (\<forall>i. g_handled g \<le> i \<and> i < length (g_posts g) \<longrightarrow>
          get_slot (slot_off i) (statusBuffer s) = g_posts g ! i) \<and>
     (\<forall>i. length (g_posts g) \<le> i \<and> i < g_handled g + 128 \<longrightarrow>
          statusBuffer s (slot_off i div 8 + 7) = 0)"

definition ctag :: "u64 list \<Rightarrow> nat" where
  "ctag w = unat (w ! 7 AND 0xffff)"

definition in_flight :: "ring_account \<Rightarrow> ring_sys \<Rightarrow> u64 list list" where
  "in_flight g s = drop (g_disp g) (g_cmds g) @ copy_queue s @ echo_queue s @ drop (g_handled g) (g_posts g)"

text \<open>Tags: each of 1 to 1023 is free, in flight or lost, exactly once.\<close>

definition tags_inv :: "ring_account \<Rightarrow> ring_sys \<Rightarrow> bool" where
  "tags_inv g s \<longleftrightarrow>
     mset (completionfreelist s) + mset (map ctag (in_flight g s)) + g_lost g = mset [1..<1024] \<and>
     (\<forall>t\<in>{1..<1024}. rc_tag (completion s t) = t \<and>
        (rc_in_use (completion s t) \<longleftrightarrow> t \<notin> set (completionfreelist s))) \<and>
     (\<forall>w\<in>set (in_flight g s). length w = 8) \<and>
     length (copy_queue s) \<le> 5 \<and> length (echo_queue s) \<le> 2"

text \<open>Jobs: a command goes to the engine its finish function expects, and carries the values its
  event expects.\<close>

type_synonym echo_evs = "nat \<Rightarrow> CompletionEvent"
type_synonym completions = "nat \<Rightarrow> Ring_Completion"

definition echo_ok :: "echo_evs \<Rightarrow> nat option \<Rightarrow> u64 list \<Rightarrow> bool" where
  "echo_ok ev a w \<longleftrightarrow> (\<exists>e. a = Some e \<and> w ! 1 = exp_a (ev e) \<and> w ! 2 = exp_b (ev e))"

definition is_nop :: "u64 list \<Rightarrow> bool" where
  "is_nop w \<longleftrightarrow> engineselect w \<noteq> CMD_COPY \<and> engineselect w \<noteq> CMD_ECHO"

definition job_ok :: "echo_evs \<Rightarrow> finish_fn option \<Rightarrow> nat option \<Rightarrow> u64 list \<Rightarrow> bool" where
  "job_ok ev f a w \<longleftrightarrow>
     f = None \<and> is_nop w \<or>
     f = Some Flag_finish \<and> a \<noteq> None \<and> engineselect w = CMD_COPY \<or>
     f = Some Echo_finish \<and> echo_ok ev a w \<and> engineselect w = CMD_ECHO"

definition cmd_ok :: "completions \<Rightarrow> echo_evs \<Rightarrow> u64 list \<Rightarrow> bool" where
  "cmd_ok cm ev w = job_ok ev (rc_finish (cm (ctag w))) (rc_arg (cm (ctag w))) w"

definition copy_ok :: "completions \<Rightarrow> u64 list \<Rightarrow> bool" where
  "copy_ok cm w \<longleftrightarrow> rc_finish (cm (ctag w)) = Some Flag_finish \<and> rc_arg (cm (ctag w)) \<noteq> None"

definition echoed_ok :: "completions \<Rightarrow> echo_evs \<Rightarrow> u64 list \<Rightarrow> bool" where
  "echoed_ok cm ev w \<longleftrightarrow> rc_finish (cm (ctag w)) = Some Echo_finish \<and> echo_ok ev (rc_arg (cm (ctag w))) w"

definition call_ok :: "echo_evs \<Rightarrow> ring_pc \<Rightarrow> bool" where
  "call_ok ev pc =
     (case pc of
        Idle \<Rightarrow> True
      | Sending w f a \<Rightarrow> length w = 8 \<and> job_ok ev f a w
      | Waiting w f a \<Rightarrow> length w = 8 \<and> job_ok ev f a w)"

definition pending_nop :: "ring_pc \<Rightarrow> nat" where
  "pending_nop pc =
     (case pc of Idle \<Rightarrow> 0 | Sending w f a \<Rightarrow> of_bool (is_nop w) | Waiting w f a \<Rightarrow> of_bool (is_nop w))"

definition jobs_inv :: "nat \<Rightarrow> ring_account \<Rightarrow> ring_sys \<Rightarrow> bool" where
  "jobs_inv n g s \<longleftrightarrow>
     (\<forall>w\<in>set (drop (g_disp g) (g_cmds g)). cmd_ok (completion s) (echo_events s) w) \<and>
     (\<forall>w\<in>set (copy_queue s). copy_ok (completion s) w) \<and>
     (\<forall>w\<in>set (echo_queue s). echoed_ok (completion s) (echo_events s) w) \<and>
     (\<forall>w\<in>set (drop (g_handled g) (g_posts g)).
        copy_ok (completion s) w \<or> echoed_ok (completion s) (echo_events s) w) \<and>
     call_ok (echo_events s) (ring_pc s) \<and>
     (\<forall>e. ev_flag (echo_events s e) \<longrightarrow>
          got_a (echo_events s e) = exp_a (echo_events s e) \<and> got_b (echo_events s e) = exp_b (echo_events s e)) \<and>
     n = size (g_lost g) + length (filter is_nop (drop (g_disp g) (g_cmds g))) + pending_nop (ring_pc s)"

definition ring_inv :: "nat \<Rightarrow> ring_account \<Rightarrow> ring_sys \<Rightarrow> bool" where
  "ring_inv n g s \<longleftrightarrow> cmd_inv g s \<and> status_inv g s \<and> tags_inv g s \<and> jobs_inv n g s"

section \<open>The hardware keeps the account\<close>

lemma cmdFetch_inv:
  assumes "ring_inv n g s"
  shows "\<exists>g'. ring_inv n g' (cmdFetch s)"
proof (cases "hwenabled s \<and> rb_notEmpty (cmdRing s)")
  case True
  let ?s = "cmdFetch s"
  let ?g = "g\<lparr>g_fetch := Suc (g_fetch g)\<rparr>"
  have c: "cmd_inv g s" using assms by (simp add: ring_inv_def)
  then have "g_fetch g < g_hwfirst g"
    using True by (auto simp: cmd_inv_def rb_notEmpty_def le_less)
  with c True have "cmd_inv ?g ?s"
    by (simp add: cmd_inv_def cmdFetch_def rb_popfetch_def rb_advance_slot)
  moreover have "status_inv ?g ?s" "tags_inv ?g ?s" "jobs_inv n ?g ?s"
    using assms True by (simp_all add: ring_inv_def status_inv_def tags_inv_def in_flight_def jobs_inv_def
        cmdFetch_def)
  ultimately show ?thesis unfolding ring_inv_def by blast
qed (use assms in \<open>auto simp: cmdFetch_def\<close>)

lemma finishCmdReads_inv:
  assumes "ring_inv n g s"
  shows "\<exists>g'. ring_inv n g' (finishCmdReads s)"
proof (cases "cmd_acks s")
  case (Suc m)
  let ?s = "finishCmdReads s"
  let ?g = "g\<lparr>g_ack := Suc (g_ack g)\<rparr>"
  have c: "cmd_inv g s" using assms by (simp add: ring_inv_def)
  then have "cmd_inv ?g ?s"
    using Suc by (auto simp: cmd_inv_def finishCmdReads_def rb_popack_def rb_advance_slot sorted_append)
  moreover have "status_inv ?g ?s" "tags_inv ?g ?s" "jobs_inv n ?g ?s"
    using assms Suc by (simp_all add: ring_inv_def status_inv_def tags_inv_def in_flight_def jobs_inv_def
        finishCmdReads_def)
  ultimately show ?thesis unfolding ring_inv_def by blast
qed (use assms in \<open>auto simp: finishCmdReads_def\<close>)

lemma serve_request_inv:
  assumes "ring_inv n g s"
  shows "\<exists>g'. ring_inv n g' (serve_request s)"
proof (cases "ring_reqs s")
  case (Cons q qs)
  have c: "cmd_inv g s" and st: "status_inv g s" and t: "tags_inv g s" and j: "jobs_inv n g s"
    using assms by (simp_all add: ring_inv_def)
  from c Cons consider a where "q = RsetCmdFirst a" | a where "q = RsetStatusLast a" | "q = Rget 0 6"
    by (cases q) (auto simp: cmd_inv_def)
  then show ?thesis
  proof cases
    case 1
    from c 1 Cons obtain k ks where k: "g_firsts g = k # ks" "a = slot_off k"
      by (auto simp: cmd_inv_def)
    let ?g = "g\<lparr>g_hwfirst := k, g_firsts := ks\<rparr>"
    have "cmd_inv ?g (serve_request s)" using c 1 Cons k
      by (auto simp: cmd_inv_def serve_request_def rb_setFirst_def)
    moreover have "status_inv ?g (serve_request s)" using st 1 Cons by (simp add: status_inv_def serve_request_def)
    moreover have "tags_inv ?g (serve_request s)" "jobs_inv n ?g (serve_request s)"
      using t j 1 Cons by (simp_all add: tags_inv_def in_flight_def jobs_inv_def serve_request_def)
    ultimately show ?thesis unfolding ring_inv_def by blast
  next
    case 2
    from st 2 Cons obtain k ks where k: "g_slasts g = k # ks" "a = slot_off k"
      by (auto simp: status_inv_def)
    let ?g = "g\<lparr>g_slast := k, g_slasts := ks\<rparr>"
    have "cmd_inv ?g (serve_request s)" using c 2 Cons by (simp add: cmd_inv_def serve_request_def)
    moreover have "status_inv ?g (serve_request s)" using st 2 Cons k
      by (auto simp: status_inv_def serve_request_def rb_setLast_def)
    moreover have "tags_inv ?g (serve_request s)" "jobs_inv n ?g (serve_request s)"
      using t j 2 Cons by (simp_all add: tags_inv_def in_flight_def jobs_inv_def serve_request_def)
    ultimately show ?thesis unfolding ring_inv_def by blast
  next
    case 3
    let ?g = "g\<lparr>g_answers := g_answers g @ [g_ack g]\<rparr>"
    have "cmd_inv ?g (serve_request s)" using c 3 Cons
      by (auto simp: cmd_inv_def serve_request_def rb_get_def sorted_append)
    moreover have "status_inv ?g (serve_request s)" using st 3 Cons by (simp add: status_inv_def serve_request_def)
    moreover have "tags_inv ?g (serve_request s)" "jobs_inv n ?g (serve_request s)"
      using t j 3 Cons by (simp_all add: tags_inv_def in_flight_def jobs_inv_def serve_request_def)
    ultimately show ?thesis unfolding ring_inv_def by blast
  qed
qed (use assms in \<open>auto simp: serve_request_def\<close>)

lemma ctag_copy_response [simp]: "ctag (copy_response w) = ctag w"
proof -
  have m: "(0xffff :: u64) = mask 16" by (simp add: mask_eq_exp_minus_1)
  have "(take_bit 32 x AND 0xffff :: u64) = x AND 0xffff" for x
    unfolding m by (rule bit_word_eqI) (auto simp: bit_and_iff bit_take_bit_iff bit_mask_iff)
  then show ?thesis by (simp add: ctag_def copy_response_def nth_append)
qed

lemma length_copy_response [simp]: "length (copy_response w) = 8"
  by (simp add: copy_response_def)

text \<open>The next command to dispatch is the oldest one that is in flight.\<close>

lemma dispatch_oldest:
  assumes "cmd_inv g s" "cmd_fetches s = off # offs"
  shows "get_slot off (cmdBuffer s) = g_cmds g ! g_disp g"
    and "drop (g_disp g) (g_cmds g) = g_cmds g ! g_disp g # drop (Suc (g_disp g)) (g_cmds g)"
    and "off = slot_off (g_disp g)" and "offs = map slot_off [Suc (g_disp g)..<g_fetch g]"
    and "g_disp g < g_fetch g"
proof -
  have lt: "g_disp g < g_fetch g" using assms by (auto simp: cmd_inv_def intro: ccontr)
  then have "off # offs = slot_off (g_disp g) # map slot_off [Suc (g_disp g)..<g_fetch g]"
    using assms by (simp add: cmd_inv_def upt_conv_Cons)
  then show "off = slot_off (g_disp g)" "offs = map slot_off [Suc (g_disp g)..<g_fetch g]" by simp_all
  have "g_disp g < length (g_cmds g)" using assms(1) lt by (auto simp: cmd_inv_def)
  then show "drop (g_disp g) (g_cmds g) = g_cmds g ! g_disp g # drop (Suc (g_disp g)) (g_cmds g)"
    "get_slot off (cmdBuffer s) = g_cmds g ! g_disp g"
    using assms(1) \<open>off = _\<close> by (simp_all add: Cons_nth_drop_Suc cmd_inv_def)
  show "g_disp g < g_fetch g" by (rule lt)
qed

lemma cmdDispatch_inv:
  assumes "ring_inv n g s"
  shows "\<exists>g'. ring_inv n g' (cmdDispatch s)"
proof (cases "cmd_fetches s")
  case (Cons off offs)
  have c: "cmd_inv g s" and st: "status_inv g s" and t: "tags_inv g s" and j: "jobs_inv n g s"
    using assms by (simp_all add: ring_inv_def)
  note d = dispatch_oldest [OF c Cons]
  let ?w = "g_cmds g ! g_disp g"
  let ?s = "cmdDispatch s"
  let ?f = "g\<lparr>g_disp := Suc (g_disp g)\<rparr>"
  have ok: "cmd_ok (completion s) (echo_events s) ?w" using j d(2) by (simp add: jobs_inv_def)
  have w8: "length ?w = 8" using t d(2) by (simp add: tags_inv_def in_flight_def)
  consider "?s = s" | "engineselect ?w = CMD_COPY" "length (copy_queue s) < 5" | "engineselect ?w = CMD_ECHO" "length (echo_queue s) < 2"
    | "is_nop ?w"
    using Cons d(1)
    by (cases "engineselect ?w = CMD_COPY"; cases "engineselect ?w = CMD_ECHO";
        cases "length (copy_queue s) < 5"; cases "length (echo_queue s) < 2")
      (simp_all add: cmdDispatch_def Let_def is_nop_def)
  then show ?thesis
  proof cases
    case 2
    then have s: "?s = s\<lparr>cmd_fetches := offs, cmd_acks := cmd_acks s + 1, copy_queue := copy_queue s @ [copy_response ?w]\<rparr>"
      using Cons d(1) by (simp add: cmdDispatch_def)
    have "cmd_inv ?f ?s" "status_inv ?f ?s"
      unfolding s using c st d by (auto simp: cmd_inv_def status_inv_def)
    moreover have "tags_inv ?f ?s"
      unfolding s using t d(2) w8 2 by (simp add: tags_inv_def in_flight_def)
    moreover have "jobs_inv n ?f ?s"
      unfolding s using j d(2) 2 ok by (auto simp: jobs_inv_def cmd_ok_def job_ok_def copy_ok_def is_nop_def CMD_COPY_def CMD_ECHO_def)
    ultimately show ?thesis unfolding ring_inv_def by blast
  next
    case 3
    then have s: "?s = s\<lparr>cmd_fetches := offs, cmd_acks := cmd_acks s + 1, echo_queue := echo_queue s @ [?w]\<rparr>"
      using Cons d(1) by (simp add: cmdDispatch_def CMD_COPY_def CMD_ECHO_def)
    have "cmd_inv ?f ?s" "status_inv ?f ?s"
      unfolding s using c st d by (auto simp: cmd_inv_def status_inv_def)
    moreover have "tags_inv ?f ?s"
      unfolding s using t d(2) 3 by (simp add: tags_inv_def in_flight_def)
    moreover have "jobs_inv n ?f ?s"
      unfolding s using j d(2) 3 ok by (auto simp: jobs_inv_def cmd_ok_def job_ok_def echoed_ok_def is_nop_def CMD_COPY_def CMD_ECHO_def)
    ultimately show ?thesis unfolding ring_inv_def by blast
  next
    case 4
    let ?h = "?f\<lparr>g_lost := add_mset (ctag ?w) (g_lost g)\<rparr>"
    have s: "?s = s\<lparr>cmd_fetches := offs, cmd_acks := cmd_acks s + 1\<rparr>"
      using 4 Cons d(1) by (simp add: cmdDispatch_def is_nop_def)
    have "cmd_inv ?h ?s" "status_inv ?h ?s"
      unfolding s using c st d by (auto simp: cmd_inv_def status_inv_def)
    moreover have "tags_inv ?h ?s"
      unfolding s using t d(2) by (simp add: tags_inv_def in_flight_def)
    moreover have "jobs_inv n ?h ?s"
      unfolding s using j d(2) 4 by (auto simp: jobs_inv_def)
    ultimately show ?thesis unfolding ring_inv_def by blast
  qed (use assms in auto)
qed (use assms in \<open>auto simp: cmdDispatch_def\<close>)

text \<open>A status is written only into a slot that software has read and cleared.\<close>

lemma notFull_room:
  assumes "status_inv g s" "rb_notFull (statusRing s)"
  shows "length (g_posts g) \<le> g_slast g + 126"
proof (rule ccontr)
  assume "\<not> ?thesis"
  with assms(1) have "Suc (length (g_posts g)) = g_slast g + 128" by (simp add: status_inv_def)
  then have "slot_off (Suc (length (g_posts g))) = slot_off (g_slast g)"
    by (simp only: ring8k.off_eq) simp
  with assms show False by (simp add: rb_notFull_def rb_advance_slot status_inv_def)
qed

lemma write_status_inv:
  assumes st: "status_inv g s" and room: "rb_notFull (statusRing s)" and w: "length w = 8"
  shows "status_inv (g\<lparr>g_posts := g_posts g @ [w]\<rparr>) (write_status w s)"
proof -
  let ?n = "length (g_posts g)"
  have n: "?n \<le> g_slast g + 126" using st room by (rule notFull_room)
  have h: "g_slast g \<le> g_handled g" "g_handled g \<le> ?n" using st by (auto simp: status_inv_def)
  have old: "slot_off i \<noteq> slot_off ?n" if "g_handled g \<le> i" "i < g_handled g + 128" "i \<noteq> ?n" for i
    using that n h by (intro ring8k.off_neq_window) auto
  have "get_slot (slot_off i) (put_slot (slot_off ?n) w (statusBuffer s)) = (g_posts g @ [w]) ! i"
    if "g_handled g \<le> i" "i < Suc ?n" for i
  proof (cases "i = ?n")
    case False
    then have "slot_off i \<noteq> slot_off ?n" using that n h by (intro old) auto
    with False that st show ?thesis by (simp add: ring8k.get_put_other status_inv_def nth_append)
  qed (simp add: ring8k.get_put_same w)
  moreover have "put_slot (slot_off ?n) w (statusBuffer s) (slot_off i div 8 + 7) = 0"
    if "Suc ?n \<le> i" "i < g_handled g + 128" for i
    using that h st old [of i] by (simp add: ring8k.tag_put_other status_inv_def)
  ultimately show ?thesis
    using st n h by (auto simp: status_inv_def write_status_def rb_push_def rb_advance_slot)
qed

lemma responseArbiter_copy_inv:
  assumes "ring_inv n g s"
  shows "\<exists>g'. ring_inv n g' (responseArbiter_copy s)"
proof (cases "copy_queue s = [] \<or> \<not> rb_notFull (statusRing s)")
  case False
  then obtain w ws where q: "copy_queue s = w # ws" by (cases "copy_queue s") auto
  have c: "cmd_inv g s" and st: "status_inv g s" and t: "tags_inv g s" and j: "jobs_inv n g s"
    using assms by (simp_all add: ring_inv_def)
  let ?g = "g\<lparr>g_posts := g_posts g @ [w]\<rparr>"
  let ?s = "write_status w (s\<lparr>copy_queue := ws\<rparr>)"
  have s: "responseArbiter_copy s = ?s" using False q by (simp add: responseArbiter_copy_def)
  have w: "length w = 8" using t q by (simp add: tags_inv_def in_flight_def)
  have "status_inv ?g ?s"
    by (rule write_status_inv) (use st False w in \<open>simp_all add: status_inv_def\<close>)
  moreover have "cmd_inv ?g ?s" using c by (simp add: cmd_inv_def write_status_def)
  moreover have "g_handled g \<le> length (g_posts g)" using st by (simp add: status_inv_def)
  then have "tags_inv ?g ?s" "jobs_inv n ?g ?s"
    using t j q by (simp_all add: tags_inv_def in_flight_def jobs_inv_def write_status_def ac_simps)
  ultimately show ?thesis unfolding s ring_inv_def by blast
qed (use assms in \<open>auto simp: responseArbiter_copy_def split: list.split\<close>)

lemma responseArbiter_echo_inv:
  assumes "ring_inv n g s"
  shows "\<exists>g'. ring_inv n g' (responseArbiter_echo s)"
proof (cases "echo_queue s = [] \<or> \<not> rb_notFull (statusRing s)")
  case False
  then obtain w ws where q: "echo_queue s = w # ws" by (cases "echo_queue s") auto
  have c: "cmd_inv g s" and st: "status_inv g s" and t: "tags_inv g s" and j: "jobs_inv n g s"
    using assms by (simp_all add: ring_inv_def)
  let ?g = "g\<lparr>g_posts := g_posts g @ [w]\<rparr>"
  let ?s = "write_status w (s\<lparr>echo_queue := ws\<rparr>)"
  have s: "responseArbiter_echo s = ?s" using False q by (simp add: responseArbiter_echo_def)
  have w: "length w = 8" using t q by (simp add: tags_inv_def in_flight_def)
  have "status_inv ?g ?s"
    by (rule write_status_inv) (use st False w in \<open>simp_all add: status_inv_def\<close>)
  moreover have "cmd_inv ?g ?s" using c by (simp add: cmd_inv_def write_status_def)
  moreover have "g_handled g \<le> length (g_posts g)" using st by (simp add: status_inv_def)
  then have "tags_inv ?g ?s" "jobs_inv n ?g ?s"
    using t j q by (simp_all add: tags_inv_def in_flight_def jobs_inv_def write_status_def ac_simps)
  ultimately show ?thesis unfolding s ring_inv_def by blast
qed (use assms in \<open>auto simp: responseArbiter_echo_def split: list.split\<close>)

section \<open>The software keeps the account\<close>

lemma in_flight_tag:
  assumes "tags_inv g s" "w \<in> set (in_flight g s)"
  shows "1 \<le> ctag w" "ctag w < 1024" "ctag w \<notin> set (completionfreelist s)" "rc_in_use (completion s (ctag w))"
proof -
  have eq: "mset (completionfreelist s) + mset (map ctag (in_flight g s)) + g_lost g = mset [1..<1024]"
    using assms(1) by (simp add: tags_inv_def)
  have "ctag w \<in># mset (map ctag (in_flight g s))" using assms(2) by simp
  then have c1: "1 \<le> count (mset (map ctag (in_flight g s))) (ctag w)" using count_eq_zero_iff by fastforce
  then have "ctag w \<in># mset [1..<1024]" unfolding eq [symmetric] by auto
  then show r: "1 \<le> ctag w" "ctag w < 1024" by auto
  have "count (mset [1..<1024]) (ctag w) \<le> 1"
    using distinct_count_atmost_1 [of "[1..<1024::nat]"] by simp
  then have "count (mset (completionfreelist s)) (ctag w) = 0"
    using c1 unfolding eq [symmetric] count_union by linarith
  then show f: "ctag w \<notin> set (completionfreelist s)" by simp
  show "rc_in_use (completion s (ctag w))" using assms(1) r f by (simp add: tags_inv_def)
qed

lemma echo_ok_got [simp]:
  "echo_ok (ev(e := (ev e)\<lparr>got_a := x, got_b := y, ev_flag := b\<rparr>)) a w \<longleftrightarrow> echo_ok ev a w"
  by (auto simp: echo_ok_def)

lemma job_ok_got [simp]:
  "job_ok (ev(e := (ev e)\<lparr>got_a := x, got_b := y, ev_flag := b\<rparr>)) f a w \<longleftrightarrow> job_ok ev f a w"
  by (simp add: job_ok_def)

lemma call_ok_got [simp]:
  "call_ok (ev(e := (ev e)\<lparr>got_a := x, got_b := y, ev_flag := b\<rparr>)) pc \<longleftrightarrow> call_ok ev pc"
  by (simp add: call_ok_def split: ring_pc.split)

text \<open>The slot software looks at next holds the oldest unread status, or is marked unused.\<close>

lemma next_status:
  assumes st: "status_inv g s" and t: "tags_inv g s"
  shows "ring_next (status_ring s) (statusBuffer s) =
      (if g_handled g < length (g_posts g) then Some (slot_off (g_handled g)) else None)"
    and "g_handled g < length (g_posts g) \<Longrightarrow>
      get_slot (slot_off (g_handled g)) (statusBuffer s) = g_posts g ! g_handled g \<and>
      drop (g_handled g) (g_posts g) = g_posts g ! g_handled g # drop (Suc (g_handled g)) (g_posts g)"
proof -
  let ?h = "g_handled g"
  show d: "get_slot (slot_off ?h) (statusBuffer s) = g_posts g ! ?h \<and>
    drop ?h (g_posts g) = g_posts g ! ?h # drop (Suc ?h) (g_posts g)" if "?h < length (g_posts g)"
    using st that by (simp add: status_inv_def Cons_nth_drop_Suc)
  have l: "r_last (status_ring s) = slot_off ?h" using st by (simp add: status_inv_def)
  show "ring_next (status_ring s) (statusBuffer s) =
      (if ?h < length (g_posts g) then Some (slot_off ?h) else None)"
  proof (cases "?h < length (g_posts g)")
    case True
    have "1 \<le> ctag (g_posts g ! ?h)"
      by (rule in_flight_tag(1) [OF t]) (simp add: in_flight_def d [OF True])
    then have "g_posts g ! ?h ! 7 \<noteq> 0" by (auto simp: ctag_def)
    moreover have "statusBuffer s (slot_off ?h div 8 + 7) = get_slot (slot_off ?h) (statusBuffer s) ! 7"
      by (simp add: get_slot_def)
    ultimately show ?thesis using True d [OF True] l by (simp add: ring_next_def)
  next
    case False
    then show ?thesis using st l by (simp add: ring_next_def status_inv_def)
  qed
qed

text \<open>What handling a status changes: the event or the flag of its completion, nothing else.\<close>

definition finish_rel :: "ring_sys \<Rightarrow> ring_sys \<Rightarrow> bool" where
  "finish_rel s s' \<longleftrightarrow>
     (\<exists>f ev k. s' = s\<lparr>char_flags := f, echo_events := ev, totalCompletions := k\<rparr> \<and>
        (ev = echo_events s \<or>
         (\<exists>e x y. ev = (echo_events s)(e := (echo_events s e)\<lparr>got_a := x, got_b := y, ev_flag := True\<rparr>) \<and>
                  x = exp_a (echo_events s e) \<and> y = exp_b (echo_events s e))))"

lemma call_finish_rel:
  assumes "copy_ok cm w \<or> echoed_ok cm (echo_events s) w"
  shows "\<exists>s'. call_finish (rc_finish (cm (ctag w))) (rc_arg (cm (ctag w))) w s = Some s' \<and> finish_rel s s'"
  using assms
proof
  assume "copy_ok cm w"
  then obtain f where "rc_finish (cm (ctag w)) = Some Flag_finish" "rc_arg (cm (ctag w)) = Some f"
    by (auto simp: copy_ok_def)
  moreover have "finish_rel s (s\<lparr>char_flags := (char_flags s)(f := True)\<rparr>)"
    unfolding finish_rel_def
    by (rule exI [of _ "(char_flags s)(f := True)"], rule exI [of _ "echo_events s"],
        rule exI [of _ "totalCompletions s"]) simp
  ultimately show ?thesis by (simp add: call_finish_def flag_finish_def)
next
  assume "echoed_ok cm (echo_events s) w"
  then obtain e where "rc_finish (cm (ctag w)) = Some Echo_finish" "rc_arg (cm (ctag w)) = Some e"
    "w ! 1 = exp_a (echo_events s e)" "w ! 2 = exp_b (echo_events s e)"
    by (auto simp: echoed_ok_def echo_ok_def)
  moreover from this have "finish_rel s (s\<lparr>echo_events := (echo_events s)
        (e := (echo_events s e)\<lparr>got_a := w ! 1, got_b := w ! 2, ev_flag := True\<rparr>),
      totalCompletions := totalCompletions s + 1\<rparr>)" (is "finish_rel s (s\<lparr>echo_events := ?ev, totalCompletions := _\<rparr>)")
    unfolding finish_rel_def
    by (intro exI [of _ "char_flags s"] exI [of _ ?ev] exI [of _ "totalCompletions s + 1"] conjI disjI2) auto
  ultimately show ?thesis by (simp add: call_finish_def echo_finish_def)
qed

lemma finish_rel_jobs:
  assumes "finish_rel s s'" "jobs_inv n g s"
  shows "jobs_inv n g s'"
proof -
  obtain f ev k where s': "s' = s\<lparr>char_flags := f, echo_events := ev, totalCompletions := k\<rparr>"
    and ev: "ev = echo_events s \<or>
      (\<exists>e x y. ev = (echo_events s)(e := (echo_events s e)\<lparr>got_a := x, got_b := y, ev_flag := True\<rparr>) \<and>
               x = exp_a (echo_events s e) \<and> y = exp_b (echo_events s e))"
    using assms(1) unfolding finish_rel_def by blast
  from ev show ?thesis
  proof
    assume "ev = echo_events s"
    then show ?thesis using assms(2) unfolding s' by (simp add: jobs_inv_def)
  next
    assume "\<exists>e x y. ev = (echo_events s)(e := (echo_events s e)\<lparr>got_a := x, got_b := y, ev_flag := True\<rparr>) \<and>
               x = exp_a (echo_events s e) \<and> y = exp_b (echo_events s e)"
    then show ?thesis using assms(2) unfolding s'
      by (auto simp: jobs_inv_def cmd_ok_def echoed_ok_def)
  qed
qed

text \<open>Clearing the slot that was read keeps the unread statuses, and adds an unused slot.\<close>

lemma popped_old:
  assumes st: "status_inv g s" and i: "Suc (g_handled g) \<le> i" "i < length (g_posts g)"
  shows "get_slot (slot_off i) ((statusBuffer s)(slot_off (g_handled g) div 8 + 7 := 0)) = g_posts g ! i"
proof -
  have "length (g_posts g) \<le> g_handled g + 127" using st by (auto simp: status_inv_def)
  then have "slot_off i \<noteq> slot_off (g_handled g)" using i by (intro ring8k.off_neq_window) auto
  then show ?thesis using st i by (simp add: ring8k.get_clear_other status_inv_def)
qed

lemma popped_free:
  assumes st: "status_inv g s" and i: "length (g_posts g) \<le> i" "i < Suc (g_handled g) + 128"
  shows "((statusBuffer s)(slot_off (g_handled g) div 8 + 7 := 0)) (slot_off i div 8 + 7) = 0"
proof (cases "i < g_handled g + 128")
  case False
  then have "i = g_handled g + 128" using i by simp
  then have "slot_off i = slot_off (g_handled g)" by (simp add: ring8k.off_eq)
  then show ?thesis by simp
qed (use st i in \<open>simp add: status_inv_def\<close>)

lemma poll_status_inv:
  assumes "ring_inv n g s"
  shows "\<exists>s' g'. poll_status s = Some s' \<and> ring_inv n g' s' \<and> ring_pc s' = ring_pc s \<and>
    length (g_posts g') - g_handled g' = length (g_posts g) - g_handled g - 1"
proof (cases "g_handled g < length (g_posts g)")
  case True
  let ?h = "g_handled g"
  let ?w = "g_posts g ! ?h"
  have c: "cmd_inv g s" and st: "status_inv g s" and t: "tags_inv g s" and j: "jobs_inv n g s"
    using assms by (simp_all add: ring_inv_def)
  note nx = next_status [OF st t]
  have d: "drop ?h (g_posts g) = ?w # drop (Suc ?h) (g_posts g)" using nx(2) True by simp
  have fl: "?w \<in> set (in_flight g s)" by (simp add: in_flight_def d)
  note tag = in_flight_tag [OF t fl]
  let ?cm = "(completion s)(ctag ?w := (completion s (ctag ?w))\<lparr>rc_in_use := False\<rparr>)"
  let ?s1 = "s\<lparr>completion := ?cm\<rparr>"
  have "copy_ok (completion s) ?w \<or> echoed_ok (completion s) (echo_events ?s1) ?w"
    using j d by (simp add: jobs_inv_def)
  from call_finish_rel [OF this] obtain s2 where
    cf: "call_finish (rc_finish (completion s (ctag ?w))) (rc_arg (completion s (ctag ?w))) ?w ?s1 = Some s2"
    and fr: "finish_rel ?s1 s2" by blast
  have j1: "jobs_inv n g ?s1"
    using j by (auto simp: jobs_inv_def cmd_ok_def copy_ok_def echoed_ok_def)
  have j2: "jobs_inv n g s2" by (rule finish_rel_jobs [OF fr j1])
  obtain f ev k where s2: "s2 = ?s1\<lparr>char_flags := f, echo_events := ev, totalCompletions := k\<rparr>"
    using fr unfolding finish_rel_def by blast
  let ?s3 = "s2\<lparr>statusBuffer := (statusBuffer s)(slot_off ?h div 8 + 7 := 0),
                completionfreelist := completionfreelist s @ [ctag ?w]\<rparr>"
  have h3: "Ring_Handle_Completion (slot_off ?h) s = Some ?s3"
    using cf tag nx(2) True by (simp add: Ring_Handle_Completion_def Let_def ctag_def s2)
  let ?m = "(statusBuffer s)(slot_off ?h div 8 + 7 := 0)"
  let ?l = "slot_off (Suc ?h)"
  let ?q = "if ?l mod 2048 = 0 then [RsetStatusLast ?l] else []"
  have sr: "r_last (status_ring s) = slot_off ?h" "r_size (status_ring s) = 8192" "r_ringid (status_ring s) = 1"
    using st by (simp_all add: status_inv_def)
  have l: "(if 8192 \<le> slot_off ?h + 64 then 0 else slot_off ?h + 64) = ?l"
    using ring8k.off_less [of ?h] by (auto simp: ring8k.off_Suc)
  have pop: "ring_pop (status_ring s) ?m = ((status_ring s)\<lparr>r_last := ?l\<rparr>, ?m, ?q)"
    using sr l by (simp add: ring_pop_def Let_def)
  let ?s' = "?s3\<lparr>status_ring := (status_ring s)\<lparr>r_last := ?l\<rparr>, ring_reqs := ring_reqs s @ ?q\<rparr>"
  let ?g = "g\<lparr>g_handled := Suc ?h, g_slasts := g_slasts g @ (if ?l mod 2048 = 0 then [Suc ?h] else [])\<rparr>"
  have r: "poll_status s = Some ?s'"
    using nx(1) True h3 pop by (simp add: poll_status_def s2)
  have "cmd_inv ?g ?s'" using c by (auto simp: cmd_inv_def s2)
  moreover have "status_inv ?g ?s'"
    using st True popped_old [OF st] popped_free [OF st] sr
    by (simp add: status_inv_def s2 sorted_append) (auto intro: le_SucI)
  moreover have "tags_inv ?g ?s'"
    using t d tag by (auto simp: tags_inv_def in_flight_def s2)
  moreover have "jobs_inv n ?g ?s'"
    using j2 d by (auto simp: jobs_inv_def s2)
  ultimately have "ring_inv n ?g ?s'" unfolding ring_inv_def by blast
  then show ?thesis using r by (intro exI [of _ ?s'] exI [of _ ?g]) (auto simp: s2)
next
  case False
  have "ring_next (status_ring s) (statusBuffer s) = None"
    using next_status(1) [of g s] False assms by (simp add: ring_inv_def)
  then show ?thesis using assms False by (intro exI [of _ s] exI [of _ g]) (simp add: poll_status_def)
qed

lemma fold_answers:
  "r_ringid (cmd_ring s) = 0 \<Longrightarrow>
   fold ring_indication (map (\<lambda>k. GetResult 0 6 (slot_off k)) ks) s =
     (if ks = [] then s
      else s\<lparr>cmd_ring := (cmd_ring s)\<lparr>r_last := slot_off (last ks)\<rparr>, getresult_flag := True\<rparr>)"
  by (induction ks arbitrary: s) (auto simp: REG_LASTACK_def Let_def)

lemma portal_events_inv:
  assumes "ring_inv n g s"
  shows "\<exists>g'. ring_inv n g' (portal_events s) \<and> g_posts g' = g_posts g \<and> g_handled g' = g_handled g"
    and "ring_pc (portal_events s) = ring_pc s"
proof -
  have c: "cmd_inv g s" and st: "status_inv g s" and t: "tags_inv g s" and j: "jobs_inv n g s"
    using assms by (simp_all add: ring_inv_def)
  let ?k = "last (g_known g # g_answers g)"
  let ?g = "g\<lparr>g_known := ?k, g_answers := []\<rparr>"
  let ?s = "portal_events s"
  have s: "?s = (if g_answers g = [] then s\<lparr>ring_inds := []\<rparr>
      else s\<lparr>ring_inds := [], cmd_ring := (cmd_ring s)\<lparr>r_last := slot_off (last (g_answers g))\<rparr>, getresult_flag := True\<rparr>)"
    using c unfolding portal_events_def cmd_inv_def by (simp add: fold_answers)
  have k: "g_known g \<le> ?k" "?k \<le> g_ack g"
    using c by (auto simp: cmd_inv_def sorted_append)
  have "cmd_inv ?g ?s" using c k unfolding s by (auto simp: cmd_inv_def)
  moreover have "status_inv ?g ?s" "tags_inv ?g ?s" "jobs_inv n ?g ?s"
    using st t j unfolding s by (simp_all add: status_inv_def tags_inv_def in_flight_def jobs_inv_def)
  ultimately show "\<exists>g'. ring_inv n g' ?s \<and> g_posts g' = g_posts g \<and> g_handled g' = g_handled g"
    unfolding ring_inv_def by (intro exI [of _ ?g]) simp
  show "ring_pc ?s = ring_pc s" unfolding s by simp
qed

lemma StatusPoll_inv:
  assumes "ring_inv n g s"
  shows "\<exists>s' g'. StatusPoll s = Some s' \<and> ring_inv n g' s'"
  unfolding StatusPoll_def using portal_events_inv(1) [OF assms] poll_status_inv by blast

text \<open>\<^verbatim>\<open>StatusPollRingOnly\<close> ends, after as many rounds as there are unread statuses.\<close>

lemma StatusPollRingOnly_inv:
  assumes "ring_inv n g s"
  shows "\<exists>s' g'. StatusPollRingOnly s = Some (Some s') \<and> ring_inv n g' s'"
  using assms
proof (induction "length (g_posts g) - g_handled g" arbitrary: g s rule: less_induct)
  case less
  have nx: "ring_next (status_ring s) (statusBuffer s) =
      (if g_handled g < length (g_posts g) then Some (slot_off (g_handled g)) else None)"
    using less.prems by (intro next_status(1)) (simp_all add: ring_inv_def)
  show ?case
  proof (cases "g_handled g < length (g_posts g)")
    case True
    from poll_status_inv [OF less.prems] obtain s' g' where
      p: "poll_status s = Some s'" "ring_inv n g' s'"
      "length (g_posts g') - g_handled g' = length (g_posts g) - g_handled g - 1" by blast
    then have "length (g_posts g') - g_handled g' < length (g_posts g) - g_handled g" using True by simp
    from less.hyps [OF this p(2)] show ?thesis using p(1) nx True
      by (subst StatusPollRingOnly.simps) simp
  next
    case False
    then show ?thesis using less.prems nx by (subst StatusPollRingOnly.simps) auto
  qed
qed

lemma cached_bounds:
  assumes "cmd_inv g s"
  shows "r_cached_space (cmd_ring s) \<le> 8128" "g_known g \<le> g_disp g" "g_disp g \<le> length (g_cmds g)"
    "length (g_cmds g) + r_cached_space (cmd_ring s) div 64 \<le> g_known g + 127"
    "64 * (r_cached_space (cmd_ring s) div 64) = r_cached_space (cmd_ring s)"
proof -
  show k: "g_known g \<le> g_disp g" using assms by (auto simp: cmd_inv_def)
  show d: "g_disp g \<le> length (g_cmds g)" using assms by (auto simp: cmd_inv_def)
  show e: "64 * (r_cached_space (cmd_ring s) div 64) = r_cached_space (cmd_ring s)"
    using assms by (simp add: cmd_inv_def)
  show b: "length (g_cmds g) + r_cached_space (cmd_ring s) div 64 \<le> g_known g + 127"
    using assms by (simp add: cmd_inv_def)
  show "r_cached_space (cmd_ring s) \<le> 8128" using k d e b by linarith
qed

text \<open>A tag that is free is free once, and not in flight.\<close>

lemma free_tag:
  assumes "tags_inv g s" "completionfreelist s = p # ps"
  shows "1 \<le> p" "p < 1024" "p \<notin> set ps" "rc_tag (completion s p) = p" "\<not> rc_in_use (completion s p)"
    "w \<in> set (in_flight g s) \<Longrightarrow> ctag w \<noteq> p"
proof -
  have eq: "mset (completionfreelist s) + mset (map ctag (in_flight g s)) + g_lost g = mset [1..<1024]"
    using assms(1) by (simp add: tags_inv_def)
  have "p \<in># mset [1..<1024]" unfolding eq [symmetric] using assms(2) by simp
  then show r: "1 \<le> p" "p < 1024" by auto
  have "count (mset [1..<1024]) p \<le> 1"
    using distinct_count_atmost_1 [of "[1..<1024::nat]"] by simp
  then have "count (mset ps) p = 0"
    unfolding eq [symmetric] count_union assms(2) by simp
  then show "p \<notin> set ps" by simp
  show "rc_tag (completion s p) = p" "\<not> rc_in_use (completion s p)"
    using assms r by (simp_all add: tags_inv_def)
  show "w \<in> set (in_flight g s) \<Longrightarrow> ctag w \<noteq> p"
    using in_flight_tag(3) [OF assms(1)] assms(2) by force
qed

lemma ring_space_known:
  assumes "cmd_inv g s"
  shows "ring_space (cmd_ring s) = 64 * (127 - (length (g_cmds g) - g_known g))"
proof -
  obtain k where len: "length (g_cmds g) = g_known g + k" and k: "k \<le> 127"
    by (rule that [of "length (g_cmds g) - g_known g"]) (use cached_bounds [OF assms] in linarith)+
  define a where "a = g_known g mod 128"
  have a: "a < 128" by (simp add: a_def)
  have b: "(g_known g + k) mod 128 = (if a + k < 128 then a + k else a + k - 128)"
    using a k by (auto simp: a_def mod_add_left_eq [symmetric, of "g_known g"] mod_if [of "g_known g mod 128 + k"])
  define v where "v = (if a + k < 128 then 64 * (127 - k) else 8192 + 64 * (127 - k))"
  have "int 8192 + int (64 * a) - int (64 * ((g_known g + k) mod 128)) - 64 = int v"
    unfolding b v_def using a k by (auto simp: of_nat_diff)
  moreover have "r_size (cmd_ring s) = 8192" "r_last (cmd_ring s) = 64 * a"
    "r_first (cmd_ring s) = 64 * ((g_known g + k) mod 128)"
    using assms by (simp_all add: cmd_inv_def len slot_off_def a_def)
  ultimately have "ring_space (cmd_ring s) = nat (int v mod 2 ^ 64) mod 8192 mod 2 ^ 32"
    by (simp only: ring_space_def)
  moreover have "int v mod 2 ^ 64 = int v" unfolding v_def by (intro mod_pos_pos_trivial) auto
  moreover have "v mod 8192 = 64 * (127 - k)" by (auto simp: v_def)
  ultimately show ?thesis by (simp add: len)
qed

lemma space_inv:
  assumes "ring_inv n g s"
  shows "ring_inv n g (s\<lparr>cmd_ring := (cmd_ring s)\<lparr>r_cached_space := ring_space (cmd_ring s)\<rparr>\<rparr>)"
proof -
  have c: "cmd_inv g s" using assms by (simp add: ring_inv_def)
  have "length (g_cmds g) \<le> g_known g + 127" "g_known g \<le> length (g_cmds g)"
    using cached_bounds [OF c] by linarith+
  with c have "cmd_inv g (s\<lparr>cmd_ring := (cmd_ring s)\<lparr>r_cached_space := ring_space (cmd_ring s)\<rparr>\<rparr>)"
    unfolding ring_space_known [OF c] by (simp add: cmd_inv_def)
  with assms show ?thesis
    by (simp add: ring_inv_def status_inv_def tags_inv_def in_flight_def jobs_inv_def)
qed

lemma ctag_of_nat [simp]: "length c = 8 \<Longrightarrow> p < 1024 \<Longrightarrow> ctag (c[7 := of_nat p]) = p"
proof -
  assume "length c = 8" and p: "p < 1024"
  moreover have "(0xffff :: u64) = mask 16" by (simp add: mask_eq_exp_minus_1)
  then have "unat (of_nat p AND 0xffff :: u64) = p mod 2 ^ 16"
    using p by (simp only: take_bit_eq_mask [symmetric] unsigned_take_bit_eq)
      (simp add: unat_of_nat_less take_bit_eq_mod)
  ultimately show ?thesis by (simp add: ctag_def)
qed

lemma job_ok_tagged [simp]: "length c = 8 \<Longrightarrow> job_ok ev f a (c[7 := x]) \<longleftrightarrow> job_ok ev f a c"
  by (simp add: job_ok_def echo_ok_def is_nop_def engineselect_def)

lemma is_nop_tagged [simp]: "length c = 8 \<Longrightarrow> is_nop (c[7 := x]) \<longleftrightarrow> is_nop c"
  by (simp add: is_nop_def engineselect_def)

text \<open>Writing a command: the slot is free, because software counted it as acknowledged.\<close>

lemma put_cmd_inv:
  assumes c: "cmd_inv g s" and sp: "r_cached_space (cmd_ring s) \<noteq> 0" and w: "length w = 8"
  shows "cmd_inv (g\<lparr>g_cmds := g_cmds g @ [w]\<rparr>)
    (s\<lparr>cmdBuffer := put_slot (r_first (cmd_ring s)) w (cmdBuffer s),
       cmd_ring := (cmd_ring s)\<lparr>r_first := slot_off (Suc (length (g_cmds g))),
                                 r_cached_space := r_cached_space (cmd_ring s) - 64\<rparr>\<rparr>)"
proof -
  let ?n = "length (g_cmds g)"
  note b = cached_bounds [OF c]
  have d: "r_cached_space (cmd_ring s) div 64 \<noteq> 0" using b(5) sp by (metis mult_0_right)
  have n: "?n + 1 \<le> g_disp g + 127" using b(2,4) d by linarith
  have q: "(r_cached_space (cmd_ring s) - 64) div 64 = r_cached_space (cmd_ring s) div 64 - 1"
    using b(5) by (metis diff_mult_distrib2 mult_1_right nonzero_mult_div_cancel_left zero_neq_numeral)
  have dv: "64 dvd r_cached_space (cmd_ring s) - 64" using c by (simp add: cmd_inv_def dvd_diff_nat)
  have "get_slot (slot_off i) (put_slot (slot_off ?n) w (cmdBuffer s)) = (g_cmds g @ [w]) ! i"
    if "g_disp g \<le> i" "i < Suc ?n" for i
  proof (cases "i = ?n")
    case False
    then have "slot_off i \<noteq> slot_off ?n" using that n by (intro ring8k.off_neq_window) auto
    with False that c show ?thesis by (simp add: ring8k.get_put_other cmd_inv_def nth_append)
  qed (simp add: ring8k.get_put_same w)
  moreover have "Suc ?n + (r_cached_space (cmd_ring s) div 64 - 1) \<le> g_known g + 127"
    using b(4) d by linarith
  ultimately show ?thesis
    using c q dv by (simp add: cmd_inv_def sorted_append) (auto intro: le_SucI)
qed

lemma ring_put_inv:
  assumes "ring_inv n g s" and sp: "r_cached_space (cmd_ring s) \<noteq> 0"
    and pc: "ring_pc s = Sending c f a \<or> ring_pc s = Waiting c f a"
    and put: "ring_put c f a s = Some s'"
  shows "\<exists>g'. ring_inv n g' s'"
proof -
  have ci: "cmd_inv g s" and st: "status_inv g s" and t: "tags_inv g s" and j: "jobs_inv n g s"
    using assms(1) by (simp_all add: ring_inv_def)
  have job: "length c = 8" "job_ok (echo_events s) f a c" "pending_nop (ring_pc s) = of_bool (is_nop c)"
    using j pc by (auto simp: jobs_inv_def call_ok_def pending_nop_def)
  from put obtain p ps where fr: "completionfreelist s = p # ps"
    by (cases "completionfreelist s") (simp_all add: ring_put_def get_free_completion_def)
  note tag = free_tag [OF t fr]
  let ?n = "length (g_cmds g)"
  let ?w = "c[7 := of_nat p]"
  let ?g = "g\<lparr>g_cmds := g_cmds g @ [?w]\<rparr>"
  have "64 dvd r_cached_space (cmd_ring s)" using ci by (simp add: cmd_inv_def)
  then have ge: "64 \<le> r_cached_space (cmd_ring s)" using sp by (simp add: dvd_imp_le)
  have wrap: "(r_cached_space (cmd_ring s) + 2 ^ 32 - 64) mod 2 ^ 32 = r_cached_space (cmd_ring s) - 64"
  proof -
    have "r_cached_space (cmd_ring s) + 2 ^ 32 - 64 = (r_cached_space (cmd_ring s) - 64) + 2 ^ 32" using ge by simp
    then show ?thesis
      by (simp only: mod_add_self2) (rule mod_less, use cached_bounds(1) [OF ci] in simp)
  qed
  have s': "s' = s\<lparr>completionfreelist := ps,
      completion := (completion s)(p := (completion s p)\<lparr>rc_in_use := True, rc_finish := f, rc_arg := a\<rparr>),
      cmdBuffer := put_slot (r_first (cmd_ring s)) ?w (cmdBuffer s),
      cmd_ring := (cmd_ring s)\<lparr>r_first := slot_off (Suc ?n), r_cached_space := r_cached_space (cmd_ring s) - 64\<rparr>,
      ring_pc := Idle\<rparr>"
    using put fr tag(4,5) ci wrap
    by (simp add: ring_put_def get_free_completion_def Let_def cmd_inv_def ring8k.off_Suc cong: if_cong)
  have "cmd_inv ?g s'" using put_cmd_inv [OF ci sp, of ?w] job(1) unfolding s' by (simp add: cmd_inv_def)
  moreover have "status_inv ?g s'" using st unfolding s' by (simp add: status_inv_def)
  moreover have "tags_inv ?g s'"
    using t fr tag(1-5) job(1) cached_bounds(3) [OF ci] unfolding s' by (auto simp: tags_inv_def in_flight_def)
  moreover have "jobs_inv n ?g s'"
    using j job tag(2,6) cached_bounds(3) [OF ci] unfolding s'
    by (auto simp: jobs_inv_def in_flight_def cmd_ok_def copy_ok_def echoed_ok_def call_ok_def pending_nop_def)
  ultimately show ?thesis unfolding ring_inv_def by blast
qed

text \<open>Tags run out only through calls of \<^verbatim>\<open>hw_nop\<close>: at most 261 commands are in flight.\<close>

lemma tags_left:
  assumes "ring_inv n g s"
  shows "1023 \<le> length (completionfreelist s) + 261 + n"
    and "length (completionfreelist s) + n \<le> 1023 + pending_nop (ring_pc s)"
proof -
  have c: "cmd_inv g s" and st: "status_inv g s" and t: "tags_inv g s" and j: "jobs_inv n g s"
    using assms by (simp_all add: ring_inv_def)
  have "size (mset (completionfreelist s) + mset (map ctag (in_flight g s)) + g_lost g) = size (mset [1..<1024])"
    using t by (simp add: tags_inv_def)
  then have tot: "length (completionfreelist s) + length (in_flight g s) + size (g_lost g) = 1023" by simp
  have "length (drop (g_disp g) (g_cmds g)) \<le> 127" using cached_bounds [OF c] by (simp add: le_diff_conv)
  moreover have "length (drop (g_handled g) (g_posts g)) \<le> 127" using st by (auto simp: status_inv_def)
  ultimately have fl: "length (in_flight g s) \<le> 261" using t by (simp add: in_flight_def tags_inv_def)
  have n: "n = size (g_lost g) + length (filter is_nop (drop (g_disp g) (g_cmds g))) + pending_nop (ring_pc s)"
    using j by (simp add: jobs_inv_def)
  show "1023 \<le> length (completionfreelist s) + 261 + n" using tot fl n by linarith
  have "length (filter is_nop (drop (g_disp g) (g_cmds g))) \<le> length (in_flight g s)"
    using length_filter_le [of is_nop "drop (g_disp g) (g_cmds g)"] by (simp add: in_flight_def)
  then show "length (completionfreelist s) + n \<le> 1023 + pending_nop (ring_pc s)" using tot n by linarith
qed

lemma ring_put_some:
  assumes "ring_inv n g s" "n \<le> 761"
  shows "ring_put c f a s \<noteq> None"
proof -
  have "completionfreelist s \<noteq> []" using tags_left(1) [OF assms(1)] assms(2) by auto
  then obtain p ps where fr: "completionfreelist s = p # ps" by (cases "completionfreelist s") auto
  have "\<not> rc_in_use (completion s p)" by (rule free_tag(5) [OF _ fr, of g]) (use assms in \<open>simp add: ring_inv_def\<close>)
  with fr show ?thesis by (simp add: ring_put_def get_free_completion_def Let_def)
qed

lemma ring_send_next_inv:
  assumes i: "ring_inv n g s" and pc: "ring_pc s \<noteq> Idle"
  shows "ring_send_next s = Some s' \<Longrightarrow> \<exists>g'. ring_inv n g' s'" and "n \<le> 761 \<Longrightarrow> ring_send_next s \<noteq> None"
proof -
  have c: "cmd_inv g s" and st: "status_inv g s" and t: "tags_inv g s" and j: "jobs_inv n g s"
    using i by (simp_all add: ring_inv_def)
  from pc consider cmd f a where "ring_pc s = Sending cmd f a" | cmd f a where "ring_pc s = Waiting cmd f a"
    by (cases "ring_pc s") auto
  then have "(ring_send_next s = Some s' \<longrightarrow> (\<exists>g'. ring_inv n g' s')) \<and> (n \<le> 761 \<longrightarrow> ring_send_next s \<noteq> None)"
  proof cases
    case 1
    show ?thesis
    proof (cases "need_inquiry (cmd_ring s)")
      case True
      let ?s = "s\<lparr>getresult_flag := False, ring_reqs := ring_reqs s @ [Rget 0 6], ring_pc := Waiting cmd f a\<rparr>"
      have "ring_send_next s = Some ?s"
        using True 1 c by (simp add: ring_send_next_def cmd_inv_def REG_LASTACK_def)
      moreover have "ring_inv n g ?s"
        using c st t j 1 by (simp add: ring_inv_def cmd_inv_def status_inv_def tags_inv_def in_flight_def
            jobs_inv_def call_ok_def pending_nop_def)
      ultimately show ?thesis by auto
    next
      case False
      then have "r_cached_space (cmd_ring s) \<noteq> 0" unfolding need_inquiry_def by (intro notI) simp
      then show ?thesis using ring_put_inv [OF i _ disjI1 [OF 1]] ring_put_some [OF i] False 1
        by (auto simp: ring_send_next_def)
    qed
  next
    case 2
    let ?s = "s\<lparr>cmd_ring := (cmd_ring s)\<lparr>r_cached_space := ring_space (cmd_ring s)\<rparr>\<rparr>"
    have i2: "ring_inv n g ?s" by (rule space_inv [OF i])
    consider "\<not> getresult_flag s" | "getresult_flag s" "ring_space (cmd_ring s) = 0" | "getresult_flag s" "ring_space (cmd_ring s) \<noteq> 0"
      by blast
    then show ?thesis
    proof cases
      case 1
      then show ?thesis using 2 StatusPoll_inv [OF i] by (auto simp: ring_send_next_def)
    next
      case p: 2
      have "ring_inv n g (?s\<lparr>ring_pc := Sending cmd f a\<rparr>)"
        using i2 2 by (simp add: ring_inv_def cmd_inv_def status_inv_def tags_inv_def in_flight_def
            jobs_inv_def call_ok_def pending_nop_def)
      then show ?thesis using p 2 by (auto simp: ring_send_next_def)
    next
      case 3
      have "r_cached_space (cmd_ring ?s) \<noteq> 0" "ring_pc ?s = Waiting cmd f a" using 3 2 by simp_all
      then show ?thesis using ring_put_inv [OF i2 _ disjI2] ring_put_some [OF i2] 3 2
        by (auto simp: ring_send_next_def Let_def)
    qed
  qed
  then show "ring_send_next s = Some s' \<Longrightarrow> \<exists>g'. ring_inv n g' s'" "n \<le> 761 \<Longrightarrow> ring_send_next s \<noteq> None"
    by simp_all
qed

lemma enter_some:
  "ring_inv n g s \<Longrightarrow> cmd_ring s' = cmd_ring s \<Longrightarrow> ring_send_enter c f a s' = Some (s'\<lparr>ring_pc := Sending c f a\<rparr>)"
  using ring8k.off_less [of "length (g_cmds g)"] by (simp add: ring_send_enter_def ring_inv_def cmd_inv_def)

lemma engineselect_cmds [simp]:
  "engineselect (echo_cmd a b junk) = CMD_ECHO" "engineselect (copy_cmd m x y cnt junk) = CMD_COPY"
  "engineselect (nop_cmd junk) = CMD_NOP"
  by (simp_all add: engineselect_def echo_cmd_def copy_cmd_def nop_cmd_def CMD_ECHO_def CMD_COPY_def CMD_NOP_def)

lemma echo_ok_other:
  "a \<noteq> Some e \<Longrightarrow> echo_ok (ev(e := x)) a w \<longleftrightarrow> echo_ok ev a w"
  by (auto simp: echo_ok_def)

lemma hw_echo_inv:
  assumes i: "ring_inv n g s" and pc: "ring_pc s = Idle" and e: "event_free e s"
  shows "\<exists>s'. hw_echo e a b junk s = Some s' \<and> ring_inv n g s'"
proof -
  let ?ev = "(echo_events s)(e := (echo_events s e)\<lparr>exp_a := a, exp_b := b, ev_flag := False\<rparr>)"
  let ?s = "s\<lparr>echo_events := ?ev, ring_pc := Sending (echo_cmd a b junk) (Some Echo_finish) (Some e)\<rparr>"
  have r: "hw_echo e a b junk s = Some ?s"
    unfolding hw_echo_def by (subst enter_some [OF i]) simp_all
  have t: "tags_inv g s" and j: "jobs_inv n g s" using i by (simp_all add: ring_inv_def)
  have other: "rc_finish (completion s (ctag w)) = Some Echo_finish \<Longrightarrow> rc_arg (completion s (ctag w)) \<noteq> Some e"
    if "w \<in> set (in_flight g s)" for w
    using in_flight_tag(4) [OF t that] e by (simp add: event_free_def)
  have "cmd_ok (completion s) ?ev w \<longleftrightarrow> cmd_ok (completion s) (echo_events s) w"
    "echoed_ok (completion s) ?ev w \<longleftrightarrow> echoed_ok (completion s) (echo_events s) w" if "w \<in> set (in_flight g s)" for w
    using other [OF that] by (auto simp: cmd_ok_def echoed_ok_def job_ok_def echo_ok_other)
  moreover have "call_ok ?ev (ring_pc ?s)"
    by (simp add: call_ok_def job_ok_def echo_ok_def) (simp add: echo_cmd_def)
  ultimately have "jobs_inv n g ?s"
    using j pc by (auto simp: jobs_inv_def in_flight_def pending_nop_def is_nop_def)
  with i have "ring_inv n g ?s" by (simp add: ring_inv_def cmd_inv_def status_inv_def tags_inv_def in_flight_def)
  with r show ?thesis by blast
qed

lemma hw_copy_nb_inv:
  assumes i: "ring_inv n g s" and pc: "ring_pc s = Idle"
  shows "\<exists>s'. hw_copy_nb f m x y cnt junk s = Some s' \<and> ring_inv n g s'"
proof -
  let ?s = "s\<lparr>ring_pc := Sending (copy_cmd m x y cnt junk) (Some Flag_finish) (Some f)\<rparr>"
  have "hw_copy_nb f m x y cnt junk s = Some ?s"
    unfolding hw_copy_nb_def by (subst enter_some [OF i]) simp_all
  moreover have "ring_inv n g ?s"
    using i pc by (simp add: ring_inv_def cmd_inv_def status_inv_def tags_inv_def in_flight_def jobs_inv_def
        call_ok_def job_ok_def pending_nop_def is_nop_def) (simp add: copy_cmd_def)
  ultimately show ?thesis by blast
qed

lemma hw_copy_inv:
  assumes i: "ring_inv n g s" and pc: "ring_pc s = Idle"
  shows "\<exists>s'. hw_copy f m x y cnt junk s = Some s' \<and> ring_inv n g s'"
proof -
  let ?s = "s\<lparr>char_flags := (char_flags s)(f := False)\<rparr>"
  have "ring_inv n g ?s"
    using i by (simp add: ring_inv_def cmd_inv_def status_inv_def tags_inv_def in_flight_def jobs_inv_def)
  from hw_copy_nb_inv [OF this] pc show ?thesis by (simp add: hw_copy_def hw_copy_nb_def)
qed

lemma hw_nop_inv:
  assumes i: "ring_inv n g s" and pc: "ring_pc s = Idle"
  shows "\<exists>s'. hw_nop junk s = Some s' \<and> ring_inv (n + 1) g s'"
proof -
  let ?s = "s\<lparr>ring_pc := Sending (nop_cmd junk) None None\<rparr>"
  have "hw_nop junk s = Some ?s"
    unfolding hw_nop_def by (subst enter_some [OF i]) simp_all
  moreover have "is_nop (nop_cmd junk)" by (simp add: is_nop_def CMD_NOP_def CMD_COPY_def CMD_ECHO_def)
  then have "ring_inv (n + 1) g ?s"
    using i pc by (simp add: ring_inv_def cmd_inv_def status_inv_def tags_inv_def in_flight_def jobs_inv_def
        call_ok_def job_ok_def pending_nop_def) (simp add: nop_cmd_def)
  ultimately show ?thesis by blast
qed

lemma STARTRING_inv:
  assumes "ring_inv n g s"
  shows "\<exists>g'. ring_inv n g' (STARTRING s)"
proof -
  let ?g = "g\<lparr>g_firsts := g_firsts g @ [length (g_cmds g)]\<rparr>"
  have "ring_inv n ?g (STARTRING s)"
    using assms by (auto simp: ring_inv_def cmd_inv_def status_inv_def tags_inv_def in_flight_def jobs_inv_def
        STARTRING_def sorted_append)
  then show ?thesis ..
qed

lemma completion_list_init_fold:
  fixes xs :: "nat list"
  shows "fold (\<lambda>i s. s\<lparr>completion := (completion s)(i := \<lparr>rc_tag = i, rc_in_use = False, rc_finish = None, rc_arg = None\<rparr>),
                completionfreelist := completionfreelist s @ [i]\<rparr>) xs s =
     s\<lparr>completion := (\<lambda>t. if t \<in> set xs then \<lparr>rc_tag = t, rc_in_use = False, rc_finish = None, rc_arg = None\<rparr>
                          else completion s t),
       completionfreelist := completionfreelist s @ xs\<rparr>"
  by (induction xs arbitrary: s) (auto simp: fun_eq_iff intro!: ring_sys.equality)

lemma ring_start_inv:
  assumes "ring_start s"
  shows "\<exists>g. ring_inv 0 g s \<and> ring_pc s = Idle"
proof -
  obtain s0 c t where s: "s = ring_boot s0 c t" and z: "statusBuffer s0 = (\<lambda>_. 0)"
    and e: "\<And>e. \<not> ev_flag (echo_events s0 e)"
    using assms by (auto simp: ring_start_def)
  let ?g = "\<lparr>g_cmds = [], g_hwfirst = 0, g_fetch = 0, g_disp = 0, g_ack = 0, g_known = 0, g_firsts = [],
      g_answers = [], g_posts = [], g_handled = 0, g_slast = 0, g_slasts = [], g_lost = {#}\<rparr>"
  note boot = s ring_boot_def completion_list_init_def completion_list_init_fold ring_init_def
    cmd_ring_sz_def status_ring_sz_def REG_BASE_def REG_END_def REG_MASK_def REG_HANDLE_def
    portal_events_def rb_set_def rb_setFirst_def rb_setLast_def Let_def
  have "cmd_inv ?g s" "status_inv ?g s" "tags_inv ?g s" "jobs_inv 0 ?g s"
    using z e by (simp_all add: boot cmd_inv_def status_inv_def tags_inv_def in_flight_def jobs_inv_def
        call_ok_def pending_nop_def slot_off_def del: upt_rec_numeral)
  moreover have "ring_pc s = Idle" by (simp add: boot)
  ultimately show ?thesis unfolding ring_inv_def by blast
qed

section \<open>Every run keeps the account\<close>

lemma ring_step_inv:
  assumes "ring_step s k r" "ring_inv n g s"
  shows "(\<forall>s'. r = Some s' \<longrightarrow> (\<exists>g'. ring_inv (n + k) g' s')) \<and> (n \<le> 761 \<longrightarrow> r \<noteq> None)"
  using assms
proof (cases rule: ring_step.cases)
  case (echo e a b junk)
  then show ?thesis using hw_echo_inv [OF assms(2), of e a b junk] by auto
next
  case (copy f m x y cnt junk)
  then show ?thesis using hw_copy_inv [OF assms(2), of f m x y cnt junk] by auto
next
  case (copy_nb f m x y cnt junk)
  then show ?thesis using hw_copy_nb_inv [OF assms(2), of f m x y cnt junk] by auto
next
  case (nop junk)
  then show ?thesis using hw_nop_inv [OF assms(2), of junk] by auto
next
  case send
  then show ?thesis using ring_send_next_inv [OF assms(2)] by auto
next
  case poll
  then show ?thesis using StatusPoll_inv [OF assms(2)] by auto
next
  case poll_ring
  then show ?thesis using StatusPollRingOnly_inv [OF assms(2)] by auto
qed (use assms STARTRING_inv serve_request_inv cmdFetch_inv cmdDispatch_inv finishCmdReads_inv
      responseArbiter_copy_inv responseArbiter_echo_inv in simp_all)

lemma ring_reach_inv: "ring_reach n s \<Longrightarrow> \<exists>g. ring_inv n g s"
proof (induction rule: ring_reach.induct)
  case (init s)
  then show ?case using ring_start_inv by blast
next
  case (step n s k s')
  then obtain g where "ring_inv n g s" by blast
  from ring_step_inv [OF step.hyps(2) this] show ?case by simp
qed

text \<open>A concrete system: zeroed buffers, both rings at handles 1 and 2.\<close>

definition sample_ring :: ring_sys where
  "sample_ring = ring_boot
     \<lparr>cmd_ring = fst (ring_init 0 0 0), status_ring = fst (ring_init 1 0 0),
      completion = (\<lambda>_. \<lparr>rc_tag = 0, rc_in_use = False, rc_finish = None, rc_arg = None\<rparr>), completionfreelist = [],
      setresult_flag = False, getresult_flag = False, char_flags = (\<lambda>_. False),
      echo_events = (\<lambda>_. \<lparr>exp_a = 0, exp_b = 0, got_a = 0, got_b = 0, ev_flag = False\<rparr>), totalCompletions = 0,
      ring_pc = Idle, cmdBuffer = (\<lambda>_. 0), statusBuffer = (\<lambda>_. 0), ring_reqs = [], ring_inds = [],
      cmdRing = \<lparr>rbufferbase = 0, rbufferend = 0, rbufferfirst = 0, rbufferlastfetch = 0, rbufferlastack = 0,
                 rbuffermask = 0, rmempointer = 0, renable = False\<rparr>,
      statusRing = \<lparr>rbufferbase = 0, rbufferend = 0, rbufferfirst = 0, rbufferlastfetch = 0, rbufferlastack = 0,
                 rbuffermask = 0, rmempointer = 0, renable = False\<rparr>,
      hwenabled = False, cmd_fetches = [], cmd_acks = 0, copy_queue = [], echo_queue = []\<rparr> 1 2"

lemma sample_ring_start: "ring_start sample_ring"
  unfolding ring_start_def sample_ring_def by (intro exI conjI allI, rule refl) simp_all

lemmas ring_unfold = ring_boot_def completion_list_init_def completion_list_init_fold ring_init_def
  cmd_ring_sz_def status_ring_sz_def REG_BASE_def REG_END_def REG_MASK_def REG_HANDLE_def
  portal_events_def rb_set_def rb_setFirst_def rb_setLast_def Let_def

text \<open>One echo on the sample, move by move: the call, the write, the doorbell, and the hardware.\<close>

definition sample_moves :: "(ring_sys \<Rightarrow> ring_sys option) list" where
  "sample_moves =
     [hw_echo 5 0x111 0x222 [0, 0, 0, 0, 0], ring_send_next, Some \<circ> STARTRING, Some \<circ> serve_request, Some \<circ> cmdFetch,
      Some \<circ> cmdDispatch, Some \<circ> responseArbiter_echo, StatusPoll]"

fun run_moves :: "(ring_sys \<Rightarrow> ring_sys option) list \<Rightarrow> ring_sys \<Rightarrow> ring_sys option" where
  "run_moves [] s = Some s"
| "run_moves (m # ms) s = (case m s of None \<Rightarrow> None | Some s' \<Rightarrow> run_moves ms s')"

lemma upt_tags: "[Suc 0..<1024] = 1 # [2..<1024]"
  by (subst upt_conv_Cons) (simp_all add: numeral_2_eq_2 del: upt_rec_numeral)

lemmas move_unfold = sample_ring_def ring_unfold hw_echo_def hw_nop_def ring_send_enter_def ring_send_next_def
  need_inquiry_def ring_put_def get_free_completion_def STARTRING_def serve_request_def cmdFetch_def rb_notEmpty_def
  rb_popfetch_def rb_advance_def cmdDispatch_def engineselect_def responseArbiter_echo_def rb_notFull_def
  write_status_def rb_push_def StatusPoll_def poll_status_def ring_next_def Ring_Handle_Completion_def call_finish_def
  echo_finish_def ring_pop_def put_slot_def get_slot_def echo_cmd_def nop_cmd_def CMD_ECHO_def CMD_COPY_def CMD_NOP_def
  upt_tags

lemma run_moves_reach:
  assumes "run_moves ms s = Some t" "ring_reach n s"
    and "\<And>k u. k < length ms \<Longrightarrow> run_moves (take k ms) s = Some u \<Longrightarrow> ring_step u 0 ((ms ! k) u)"
  shows "ring_reach n t"
  using assms
proof (induction ms arbitrary: s)
  case (Cons m ms)
  from Cons.prems(1) obtain s' where m: "m s = Some s'" "run_moves ms s' = Some t" by (auto split: option.splits)
  have "ring_step s 0 (Some s')" using Cons.prems(3) [of 0 s] m(1) by simp
  then have r: "ring_reach n s'" using ring_reach.step [OF Cons.prems(2)] by fastforce
  show ?case
  proof (rule Cons.IH [OF m(2) r])
    fix k u assume "k < length ms" "run_moves (take k ms) s' = Some u"
    then show "ring_step u 0 ((ms ! k) u)" using Cons.prems(3) [of "Suc k" u] m(1) by simp
  qed
qed simp

lemma sample_pcs:
  "ring_pc sample_ring = Idle"
  "map_option ring_pc (run_moves (take 1 sample_moves) sample_ring) =
     Some (Sending (echo_cmd 0x111 0x222 [0, 0, 0, 0, 0]) (Some Echo_finish) (Some 5))"
  "map_option ring_pc (run_moves (take 2 sample_moves) sample_ring) = Some Idle"
  "map_option ring_pc (run_moves (take 7 sample_moves) sample_ring) = Some Idle"
  "event_free 5 sample_ring"
  by (simp_all add: sample_moves_def move_unfold event_free_def del: upt_rec_numeral cong: if_cong)

definition sample_done :: ring_sys where
  "sample_done = the (run_moves sample_moves sample_ring)"

lemma sample_done_reached:
  "run_moves sample_moves sample_ring = Some sample_done"
  "ev_flag (echo_events sample_done 5)" "exp_a (echo_events sample_done 5) = 0x111"
  "exp_b (echo_events sample_done 5) = 0x222"
  by (simp_all add: sample_done_def sample_moves_def move_unfold del: upt_rec_numeral cong: if_cong)

lemma sample_done_reach: "ring_reach 0 sample_done"
proof (rule run_moves_reach [OF sample_done_reached(1) ring_reach.init [OF sample_ring_start]])
  fix k u assume k: "k < length sample_moves" and u: "run_moves (take k sample_moves) sample_ring = Some u"
  from k have "k \<in> {0, 1, 2, 3, 4, 5, 6, 7}" by (auto simp: sample_moves_def)
  then show "ring_step u 0 ((sample_moves ! k) u)"
  proof (elim insertE emptyE)
    assume "k = 0"
    then show ?thesis using u sample_pcs(1,5) by (simp add: sample_moves_def ring_step.echo)
  next
    assume "k = 1"
    then show ?thesis using u sample_pcs(2) by (auto simp: sample_moves_def intro!: ring_step.send)
  next
    assume "k = 2"
    then show ?thesis using u sample_pcs(3) by (auto simp: sample_moves_def intro!: ring_step.start)
  next
    assume "k = 7"
    then show ?thesis using u sample_pcs(4) by (auto simp: sample_moves_def intro!: ring_step.poll)
  qed (auto simp: sample_moves_def intro: ring_step.intros)
qed

section \<open>Properties\<close>

text \<open>
  C37.  Whatever the order of the program's calls and of the hardware's machines, as long as
  \<^verbatim>\<open>hw_nop\<close> was called at most 761 times: no \<^verbatim>\<open>assert\<close> of the program fails and no null pointer is
  followed, \<^verbatim>\<open>StatusPollRingOnly\<close> ends, and an event that is marked as arrived holds exactly the two
  arguments of its \<^verbatim>\<open>hw_echo\<close> (so the message \<^verbatim>\<open>echo failed\<close> is never printed).
\<close>

theorem ring_echo_returns:
  assumes "ring_reach n s" and "n \<le> 761"
  shows "(\<forall>k r. ring_step s k r \<longrightarrow> r \<noteq> None) \<and>
    (\<exists>t. StatusPollRingOnly s = Some (Some t)) \<and>
    (\<forall>e. ev_flag (echo_events s e) \<longrightarrow>
       got_a (echo_events s e) = exp_a (echo_events s e) \<and> got_b (echo_events s e) = exp_b (echo_events s e))"
proof -
  obtain g where i: "ring_inv n g s" using ring_reach_inv [OF assms(1)] by blast
  have "\<forall>k r. ring_step s k r \<longrightarrow> r \<noteq> None" using ring_step_inv [OF _ i] assms(2) by blast
  moreover have "\<exists>t. StatusPollRingOnly s = Some (Some t)" using StatusPollRingOnly_inv [OF i] by blast
  moreover have "jobs_inv n g s" using i by (simp add: ring_inv_def)
  ultimately show ?thesis by (simp add: jobs_inv_def)
qed

theorem ring_echo_returns_witness:
  "got_a (echo_events sample_done 5) = 0x111 \<and> got_b (echo_events sample_done 5) = 0x222"
  using ring_echo_returns [OF sample_done_reach] sample_done_reached(2-4) by simp

text \<open>
  Every \<^verbatim>\<open>hw_nop\<close> loses its completion, because the nop engine never answers: between calls
  at most \<open>1023 - n\<close> tags are left after \<open>n\<close> of them, and after 1023 the assertion of \<^verbatim>\<open>ring_send\<close>
  that a completion was found fails for every command.
\<close>

theorem nop_loses_tags:
  assumes "ring_reach n s" and "ring_pc s = Idle"
  shows "length (completionfreelist s) + n \<le> 1023 \<and> (n = 1023 \<longrightarrow> ring_put c f a s = None)"
proof -
  obtain g where i: "ring_inv n g s" using ring_reach_inv [OF assms(1)] by blast
  have le: "length (completionfreelist s) + n \<le> 1023"
    using tags_left(2) [OF i] assms(2) by (simp add: pending_nop_def)
  moreover have "ring_put c f a s = None" if "n = 1023"
  proof -
    have "completionfreelist s = []" using le that by simp
    then show ?thesis by (simp add: ring_put_def get_free_completion_def)
  qed
  ultimately show ?thesis by blast
qed

definition sample_nop :: ring_sys where
  "sample_nop = the (ring_send_next (the (hw_nop [0, 0, 0, 0, 0] sample_ring)))"

lemma sample_nop_steps:
  "ring_send_next (the (hw_nop [0, 0, 0, 0, 0] sample_ring)) = Some sample_nop"
  "hw_nop [0, 0, 0, 0, 0] sample_ring = Some (the (hw_nop [0, 0, 0, 0, 0] sample_ring))"
  "ring_pc (the (hw_nop [0, 0, 0, 0, 0] sample_ring)) \<noteq> Idle" "ring_pc sample_nop = Idle"
  by (simp_all add: sample_nop_def move_unfold del: upt_rec_numeral cong: if_cong)

lemma sample_nop_reach: "ring_reach 1 sample_nop"
proof -
  have "ring_step sample_ring 1 (Some (the (hw_nop [0, 0, 0, 0, 0] sample_ring)))"
    by (subst sample_nop_steps(2) [symmetric]) (rule ring_step.nop [OF sample_pcs(1)])
  from ring_reach.step [OF ring_reach.init [OF sample_ring_start] this]
  have "ring_reach (0 + 1) (the (hw_nop [0, 0, 0, 0, 0] sample_ring))" .
  from ring_reach.step [OF this ring_step.send [OF sample_nop_steps(3), unfolded sample_nop_steps(1)]]
  show ?thesis by simp
qed

theorem nop_loses_tags_witness: "length (completionfreelist sample_nop) \<le> 1022"
  using nop_loses_tags [OF sample_nop_reach sample_nop_steps(4)] by simp

end
