(* ===== verification/Xbsv_Util.thy ===== *)
theory Xbsv_Util
  imports Pcie_Driver
begin

text \<open>
  The command line tool \<^verbatim>\<open>pcie/xbsvutil/xbsvutil.c\<close>: its modes, what it does with one device file
  (\<^verbatim>\<open>process\<close>), and the choice of the files.  The ioctls are a parameter, instantiated at the end with
  the driver's \<^verbatim>\<open>pcieportal_ioctl\<close>; the help texts are not modelled, a line printed is a value of
  \<^verbatim>\<open>util_line\<close>.
\<close>

section \<open>One device file\<close>

datatype tMode = HELP | INFO | PORTAL | TLP | TRACE | NOTRACE | MMAP

datatype util_line =
    L_info nat nat
  | L_portal "u32 list"
  | L_tlp "u32 list"
  | L_trace u32 u32
  | L_mmap "u32 list"

definition is_bluenoc_file :: "string \<Rightarrow> bool" where
  "is_bluenoc_file d_name \<longleftrightarrow> take 4 d_name = ''fpga''"

text \<open>An ioctl takes the command and the \<^verbatim>\<open>trace\<close> field of its argument; it fails (None) or fills the argument.\<close>

type_synonym 's util_io = "u32 \<Rightarrow> u32 \<Rightarrow> 's \<Rightarrow> pcie_out option \<times> 's"

text \<open>The loop of the mode \<^verbatim>\<open>tlp\<close>, \<open>n\<close> rounds still to go; the flag tells whether every ioctl succeeded.\<close>

fun tlp_loop :: "'s util_io \<Rightarrow> nat \<Rightarrow> 's \<Rightarrow> bool \<times> util_line list \<times> 's" where
  "tlp_loop io 0 s = (True, [], s)"
| "tlp_loop io (Suc n) s =
     (case io BNOC_GET_TLP 0 s of
        (Some (OutTlp tlp), s') \<Rightarrow> (case tlp_loop io n s' of (ok, ls, s'') \<Rightarrow> (ok, L_tlp (rev tlp) # ls, s''))
      | (_, s') \<Rightarrow> (False, [], s'))"

text \<open>
  The trace field of an argument after BNOC_TRACE: what the driver wrote, or what the variable
  held (\<open>junk\<close>), since the result of the call is not looked at.
\<close>

definition trace_ioctl :: "'s util_io \<Rightarrow> u32 \<Rightarrow> u32 \<times> u32 \<Rightarrow> 's \<Rightarrow> (u32 \<times> u32) \<times> 's" where
  "trace_ioctl io trace junk s =
     (case io BNOC_TRACE trace s of
        (Some (OutTrace _ old len), s') \<Rightarrow> ((old, len), s')
      | (_, s') \<Rightarrow> (junk, s'))"

text \<open>
  \<^verbatim>\<open>process\<close>: the return value, the lines printed and the device; the descriptor is closed on every
  path after a successful \<^verbatim>\<open>open\<close>, and a mapping that failed is used anyway.  \<open>mapped\<close> reads and
  writes the mapped registers and gives the words printed.
\<close>

definition process ::
    "'s util_io \<Rightarrow> bool \<Rightarrow> ('s \<Rightarrow> u32 list \<times> 's) option \<Rightarrow> u32 \<times> u32 \<Rightarrow> tMode \<Rightarrow> bool \<Rightarrow> 's \<Rightarrow>
       (int \<times> util_line list \<times> 's) kresult" where
  "process io open_ok mapped junk mode strict s =
     (let failed = (if strict then -1 else 0) in
      if \<not> open_ok then Inr (failed, [], s)
      else case io BNOC_IDENTIFY 0 s of
             (Some (OutInfo board portal), s1) \<Rightarrow>
               (case mode of
                  HELP \<Rightarrow> Inr (0, [], s1)
                | INFO \<Rightarrow> Inr (1, [L_info board portal], s1)
                | PORTAL \<Rightarrow>
                    (case io BNOC_IDENTIFY_PORTAL 0 s1 of
                       (Some (OutPortalInfo ws), s2) \<Rightarrow> Inr (0, [L_portal (take 9 ws @ drop 10 ws)], s2)
                     | (_, s2) \<Rightarrow> Inr (failed, [], s2))
                | TLP \<Rightarrow>
                    (case trace_ioctl io 0 junk s1 of
                       ((old, len), s2) \<Rightarrow>
                         (case tlp_loop io (unat len) s2 of
                            (ok, ls, s3) \<Rightarrow> Inr (if ok then 0 else failed, ls, s3)))
                | TRACE \<Rightarrow> (case trace_ioctl io 1 junk s1 of ((old, len), s2) \<Rightarrow> Inr (0, [L_trace old len], s2))
                | NOTRACE \<Rightarrow> (case trace_ioctl io 0 junk s1 of ((old, len), s2) \<Rightarrow> Inr (0, [L_trace old len], s2))
                | MMAP \<Rightarrow>
                    (case mapped of
                       None \<Rightarrow> Inl ErrPtrDeref
                     | Some f \<Rightarrow> (case f s1 of (ws, s2) \<Rightarrow> Inr (0, [L_mmap ws], s2))))
           | (_, s1) \<Rightarrow> Inr (failed, [], s1))"

section \<open>The command line\<close>

text \<open>The mode and the remaining arguments, after the options.\<close>

definition execution_mode :: "string list \<Rightarrow> tMode \<times> string list" where
  "execution_mode args =
     (case args of
        [] \<Rightarrow> (INFO, [])
      | a # as \<Rightarrow>
          if a = ''help'' then (HELP, args)
          else if a = ''info'' then (INFO, as)
          else if a = ''portal'' then (PORTAL, as)
          else if a = ''tlp'' then (TLP, as)
          else if a = ''trace'' then (TRACE, as)
          else if a = ''notrace'' then (NOTRACE, as)
          else if a = ''mmap'' then (MMAP, as)
          else (INFO, args))"

text \<open>The loops over the files: \<open>run\<close> is \<^verbatim>\<open>process\<close> with its mode; the flag is \<^verbatim>\<open>process_failed\<close>.\<close>

fun process_files ::
    "(string \<Rightarrow> bool \<Rightarrow> 's \<Rightarrow> (int \<times> util_line list \<times> 's) kresult) \<Rightarrow> bool \<Rightarrow> string list \<Rightarrow> bool \<times> util_line list \<times> 's \<Rightarrow>
       (bool \<times> util_line list \<times> 's) kresult" where
  "process_files run strict [] st = Inr st"
| "process_files run strict (f # fs) (bad, ls, s) =
     (case run f strict s of
        Inl e \<Rightarrow> Inl e
      | Inr (ret, ls', s') \<Rightarrow> process_files run strict fs (bad \<or> ret = -1, ls @ ls', s'))"

text \<open>
  \<^verbatim>\<open>main\<close> after the options, when memory for the file name can be had: \<open>devs\<close> are the names under
  \<^verbatim>\<open>/dev\<close> in order, or None when the directory cannot be read.  The result is the exit status.
\<close>

definition util_main ::
    "(tMode \<Rightarrow> string \<Rightarrow> bool \<Rightarrow> 's \<Rightarrow> (int \<times> util_line list \<times> 's) kresult) \<Rightarrow> string list option \<Rightarrow> string list \<Rightarrow> 's \<Rightarrow>
       (int \<times> util_line list \<times> 's) kresult" where
  "util_main run devs args s =
     (let (mode, files) = execution_mode args;
          finish = map_sum id (\<lambda>(bad, ls, s'). (if bad then 1 else 0, ls, s'))
      in if mode = HELP then Inr (0, [], s)
         else if files = []
         then (case devs of
                 None \<Rightarrow> Inr (1, [], s)
               | Some names \<Rightarrow>
                   finish (process_files (run mode) False (map ((@) ''/dev/'') (filter is_bluenoc_file names)) (False, [], s)))
         else finish (process_files (run mode) True files (False, [], s)))"

section \<open>What the tool does\<close>

text \<open>Only a call with named files reports a failure.\<close>

lemma process_lenient: "process io open_ok mapped junk mode False s = Inr (ret, ls, s') \<Longrightarrow> ret \<noteq> -1"
  by (auto simp: process_def Let_def split: if_splits prod.splits option.splits pcie_out.splits tMode.splits)

lemma process_files_lenient:
  assumes "\<And>f s ret ls s'. run f False s = Inr (ret, ls, s') \<Longrightarrow> ret \<noteq> -1"
    and "process_files run False fs (False, ls, s) = Inr (bad, ls', s')"
  shows "\<not> bad"
  using assms(2)
proof (induction fs arbitrary: ls s)
  case (Cons f fs)
  then show ?case using assms(1) [of f s] by (auto split: sum.splits prod.splits)
qed simp

lemma scan_exit_status:
  assumes "\<And>mode. run mode = (\<lambda>f. process io (open_ok f) mapped junk mode)"
    and "snd (execution_mode args) = []"
    and "util_main run (Some names) args s = Inr (rc, ls, s')"
  shows "rc = 0"
proof (cases "fst (execution_mode args) = HELP")
  case False
  obtain mode where m: "execution_mode args = (mode, [])" using assms(2) by (cases "execution_mode args") auto
  let ?fs = "map ((@) ''/dev/'') (filter is_bluenoc_file names)"
  from assms(3) False m obtain bad where
    p: "process_files (run mode) False ?fs (False, [], s) = Inr (bad, ls, s')" "rc = (if bad then 1 else 0)"
    by (cases "process_files (run mode) False ?fs (False, [], s)") (auto simp: util_main_def)
  have "\<not> bad"
    by (rule process_files_lenient [OF _ p(1)]) (auto simp: assms(1) dest: process_lenient)
  with p(2) show ?thesis by simp
qed (use assms in \<open>auto simp: util_main_def split: prod.splits\<close>)

text \<open>The ioctls of the PCIe driver, for a caller whose argument can be read and written.\<close>

definition driver_io ::
    "'b mmio \<Rightarrow> (nat \<Rightarrow> 'd mmio) \<Rightarrow> (int \<Rightarrow> sg_entry list option) \<Rightarrow> nat \<Rightarrow> nat \<Rightarrow> ('b \<times> 'd) util_io" where
  "driver_io m win files board portal cmd trace st =
     (case pcieportal_ioctl m win files board portal cmd
             \<lparr>ua_access_ok = True, ua_from_ok = True, ua_to_ok = True, ua_trace = trace, ua_fd = 0, ua_id = 0\<rparr> st of
        Inl e \<Rightarrow> (None, st)
      | Inr (rc, out, st') \<Rightarrow> (if rc < 0 then None else Some out, st'))"

lemma driver_io_results:
  "driver_io m win files board portal BNOC_IDENTIFY t (b, d) = (Some (OutInfo board portal), (read_msix m b, d))"
  "driver_io m win files board portal BNOC_GET_TLP t (b, d) = (Some (OutTlp (fst (get_tlp m b))), (snd (get_tlp m b), d))"
  "driver_io m win files board portal BNOC_TRACE t (b, d) =
     (Some (OutTrace t (fst (fst (set_trace m t b))) (snd (fst (set_trace m t b)))), (snd (set_trace m t b), d))"
  by (simp_all add: driver_io_def pcieportal_ioctl_def ioctl_switch_def pcie_cmd_defs split: prod.split)

fun read_tlps :: "'b mmio \<Rightarrow> nat \<Rightarrow> 'b \<Rightarrow> u32 list list \<times> 'b" where
  "read_tlps m 0 b = ([], b)"
| "read_tlps m (Suc n) b =
     (case get_tlp m b of (t, b') \<Rightarrow> (case read_tlps m n b' of (ts, b'') \<Rightarrow> (t # ts, b'')))"

lemma tlp_loop_driver:
  "tlp_loop (driver_io m win files board portal) n (b, d) =
     (True, map (L_tlp \<circ> rev) (fst (read_tlps m n b)), (snd (read_tlps m n b), d))"
  by (induction n arbitrary: b) (simp_all add: driver_io_results split: prod.split)

text \<open>
  Mode \<^verbatim>\<open>tlp\<close> on the driver: tracing is switched off, and exactly as many entries as the trace length
  register counts (or 2048 on hardware without it) are taken from the trace and printed, most
  significant word first.
\<close>

lemma tlp_mode_dumps_trace:
  assumes "set_trace m 0 (read_msix m b) = ((old, len), b1)"
  shows "process (driver_io m win files board portal) True mapped junk TLP strict (b, d) =
    Inr (0, map (L_tlp \<circ> rev) (fst (read_tlps m (unat len) b1)), (snd (read_tlps m (unat len) b1), d))"
  using assms by (simp add: process_def trace_ioctl_def driver_io_results tlp_loop_driver)

end
