(* ===== verification/Tlp_Trace.thy ===== *)
theory Tlp_Trace
  imports Xbsv_Util
begin

text \<open>
  The trace of PCIe packets after the tool printed it: \<^verbatim>\<open>cpp/TlpReplay.cxx\<close> loads the lines and plays
  them to a simulated design, \<^verbatim>\<open>pcie/dumppacket.c\<close> labels them.  A line is the six words of a trace
  entry in hexadecimal; the first eight digits are a time stamp, the other forty the packet's
  twenty bytes.
\<close>

section \<open>Printing\<close>

text \<open>\<^verbatim>\<open>printf("%08x")\<close>, and the line the tool prints for a trace entry (\<^verbatim>\<open>xbsvutil.c\<close>).\<close>

definition hex_digit :: "nat \<Rightarrow> char" where
  "hex_digit n = ''0123456789abcdef'' ! n"

definition nibble :: "nat \<Rightarrow> u32 \<Rightarrow> nat" where
  "nibble k w = unat w div 16 ^ k mod 16"

definition hex8 :: "u32 \<Rightarrow> string" where
  "hex8 w = map (\<lambda>k. hex_digit (nibble k w)) [7, 6, 5, 4, 3, 2, 1, 0]"

fun print_tlp :: "util_line \<Rightarrow> string" where
  "print_tlp (L_tlp ws) = concat (map hex8 ws)"
| "print_tlp _ = []"

section \<open>Replaying\<close>

text \<open>
  A \<^verbatim>\<open>char\<close> is signed and the result a \<^verbatim>\<open>uint8_t\<close>: a character that is not a digit gives some value,
  too.
\<close>

definition cvt :: "char \<Rightarrow> u8" where
  "cvt c =
     (let v = of_nat (of_char c) :: u8 in
      if 97 \<le> sint v then v - 97 + 10 else if 65 \<le> sint v then v - 65 + 10 else v - 48)"

text \<open>\<^verbatim>\<open>line[k]\<close> of a \<^verbatim>\<open>std::string\<close>: the terminating NUL at its length, undefined past it.\<close>

definition string_at :: "string \<Rightarrow> nat \<Rightarrow> char option" where
  "string_at line k = (if k < length line then Some (line ! k) else if k = length line then Some (CHR 0x00) else None)"

definition load_byte :: "string \<Rightarrow> nat \<Rightarrow> u8 option" where
  "load_byte line i =
     (case string_at line (8 + i) of
        None \<Rightarrow> None
      | Some high \<Rightarrow>
          (case string_at line (8 + i + 1) of
             None \<Rightarrow> None
           | Some low \<Rightarrow> Some (push_bit 4 (cvt high) OR cvt low)))"

fun load_bytes :: "string \<Rightarrow> nat list \<Rightarrow> u8 list option" where
  "load_bytes line [] = Some []"
| "load_bytes line (i # is) =
     (case load_byte line i of None \<Rightarrow> None | Some b \<Rightarrow> map_option ((#) b) (load_bytes line is))"

fun load_lines :: "string list \<Rightarrow> u8 list option" where
  "load_lines [] = Some []"
| "load_lines (line # lines) =
     (case load_bytes line (map ((*) 2) [0..<20]) of
        None \<Rightarrow> None
      | Some bs \<Rightarrow> map_option ((@) bs) (load_lines lines))"

text \<open>The loaded packets from the pointer on; None is an access past them.\<close>

record tlp_replay =
  tr_loaded :: bool
  tlp_packets :: "u8 list"

definition load_tlp :: "string list \<Rightarrow> tlp_replay \<Rightarrow> tlp_replay option" where
  "load_tlp lines st =
     (if tr_loaded st then Some st
      else map_option (\<lambda>bs. st\<lparr>tlp_packets := bs, tr_loaded := True\<rparr>) (load_lines lines))"

definition portnum :: "tlp_replay \<Rightarrow> u8 option" where
  "portnum st = (case tlp_packets st of [] \<Rightarrow> None | b # bs \<Rightarrow> Some (drop_bit 1 b))"

definition can_put_tlp :: "string list \<Rightarrow> tlp_replay \<Rightarrow> (bool \<times> tlp_replay) option" where
  "can_put_tlp lines st =
     (case load_tlp lines st of
        None \<Rightarrow> None
      | Some st' \<Rightarrow> map_option (\<lambda>p. (p = 8, st')) (portnum st'))"

definition can_get_tlp :: "string list \<Rightarrow> tlp_replay \<Rightarrow> (bool \<times> tlp_replay) option" where
  "can_get_tlp lines st =
     (case load_tlp lines st of
        None \<Rightarrow> None
      | Some st' \<Rightarrow> map_option (\<lambda>p. (p = 4, st')) (portnum st'))"

definition put_tlp :: "tlp_replay \<Rightarrow> tlp_replay option" where
  "put_tlp st = (if tr_loaded st then Some (st\<lparr>tlp_packets := drop 20 (tlp_packets st)\<rparr>) else None)"

text \<open>
  The loop of \<^verbatim>\<open>get_tlp\<close> starts at whatever its variable holds (\<open>i0\<close>, it is initialised with itself);
  the design's packet is twenty bytes.
\<close>

definition replay_get_tlp :: "int \<Rightarrow> u8 list \<Rightarrow> tlp_replay \<Rightarrow> (u8 list \<times> tlp_replay) option" where
  "replay_get_tlp i0 tlp st =
     (if \<not> tr_loaded st \<or> i0 < 0 \<or> (i0 < 20 \<and> length (tlp_packets st) < 20) then None
      else Some (fold (\<lambda>i t. t[19 - i := tlp_packets st ! i]) [nat i0..<20] tlp,
                 st\<lparr>tlp_packets := drop 20 (tlp_packets st)\<rparr>))"

section \<open>Labelling\<close>

definition hex_value :: "char \<Rightarrow> nat" where
  "hex_value ch =
     (let v = of_char ch in
      if 48 \<le> v \<and> v \<le> 57 then v - 48
      else if 97 \<le> v \<and> v \<le> 102 then v - 97 + 10
      else if 65 \<le> v \<and> v \<le> 70 then v - 65 + 10 else 0)"

definition gethex :: "string \<Rightarrow> u32" where
  "gethex data = fold (\<lambda>ch ret. push_bit 4 ret OR of_nat (hex_value ch)) data 0"

text \<open>One run of the inner loop with \<open>room\<close> characters left: a character that does not fit is consumed.\<close>

fun take_line :: "nat \<Rightarrow> string \<Rightarrow> string \<times> string" where
  "take_line room [] = ([], [])"
| "take_line room (c # cs) =
     (if c = CHR 0x0A \<or> room = 0 then ([], cs)
      else case take_line (room - 1) cs of (l, r) \<Rightarrow> (c # l, r))"

text \<open>The lines passed over: empty ones, and those with time stamp zero.\<close>

definition skipped :: "string \<Rightarrow> bool" where
  "skipped l \<longleftrightarrow> takeWhile (\<lambda>c. c \<noteq> CHR 0x00) l = [] \<or> take 8 l = ''00000000''"

partial_function (option) get_next_line :: "string \<Rightarrow> (string \<times> string) option" where
  "get_next_line data =
     (case take_line 99 data of (l, r) \<Rightarrow> if \<not> skipped l then Some (l, r) else get_next_line r)"

text \<open>The label of a line of at least 18 characters: direction, kind of packet.\<close>

definition dump_label :: "string \<Rightarrow> string" where
  "dump_label line =
     (let dataline = drop 8 line;
          pn = drop_bit 1 (gethex (take 2 dataline));
          tlpsof = gethex (take 1 (drop 1 dataline)) AND 1;
          pkttype = gethex (take 2 (drop 8 dataline)) AND 0x1f;
          foo = (if tlpsof = 0 then ''cc'' else if pkttype = 10 then ''pp'' else ''qq'')
      in if pn = 4 then ''RX'' @ foo else if pn = 8 then ''TX'' @ foo else ''____'')"

partial_function (option) dump_main :: "string \<Rightarrow> (string \<times> string) list \<Rightarrow> (string \<times> string) list option" where
  "dump_main data out =
     (if data = [] then Some out
      else case get_next_line data of
             None \<Rightarrow> None
           | Some (l, r) \<Rightarrow> dump_main r (out @ [(dump_label l, l)]))"

section \<open>Lines that are passed over\<close>

lemma take_line_shorter: "data \<noteq> [] \<Longrightarrow> length (snd (take_line room data)) < length data"
proof (induction room data rule: take_line.induct)
  case (2 room c cs)
  then show ?case by (cases "cs = []") (auto split: prod.split)
qed simp

function all_skipped :: "string \<Rightarrow> bool" where
  "all_skipped data =
     (if data = [] then True
      else skipped (fst (take_line 99 data)) \<and> all_skipped (snd (take_line 99 data)))"
  by pat_completeness auto
termination
  by (relation "measure length") (auto simp: take_line_shorter)

declare all_skipped.simps [simp del]

lemma skipped_Nil [simp]: "skipped []"
  by (simp add: skipped_def)

lemma get_next_line_some:
  assumes "get_next_line data = Some y"
  shows "\<not> all_skipped data"
proof (rule get_next_line.raw_induct [of "\<lambda>data y. \<not> all_skipped data", OF _ assms])
  fix f :: "string \<Rightarrow> (string \<times> string) option" and data y
  assume IH: "\<And>x y. f x = Some y \<Longrightarrow> \<not> all_skipped x"
    and s: "(case take_line 99 data of (l, r) \<Rightarrow> if \<not> skipped l then Some (l, r) else f r) = Some y"
  obtain l r where t: "take_line 99 data = (l, r)" by (rule prod.exhaust)
  show "\<not> all_skipped data"
  proof (cases "data = []")
    case True
    then have "f [] = Some y" using s by simp
    then show ?thesis using IH True by blast
  next
    case False
    then show ?thesis using s t IH [of r y] by (subst all_skipped.simps) (auto split: if_splits)
  qed
qed

lemma get_next_line_returns: "\<not> all_skipped data \<Longrightarrow> \<exists>y. get_next_line data = Some y"
proof (induction data rule: all_skipped.induct)
  case (1 data)
  then show ?case
    by (subst get_next_line.simps) (auto simp: all_skipped.simps [of data] split: prod.splits if_splits)
qed

text \<open>The program does not end when only lines that are passed over are left in the file.\<close>

lemma get_next_line_ends_iff: "(\<exists>y. get_next_line data = Some y) \<longleftrightarrow> \<not> all_skipped data"
  using get_next_line_some get_next_line_returns by blast

lemma dump_main_blank_tail: "data \<noteq> [] \<Longrightarrow> all_skipped data \<Longrightarrow> dump_main data out = None"
  using get_next_line_some by (subst dump_main.simps) (auto split: option.split)

section \<open>What was printed is loaded\<close>

definition word_bytes :: "u32 \<Rightarrow> u8 list" where
  "word_bytes w = [ucast (drop_bit 24 w), ucast (drop_bit 16 w), ucast (drop_bit 8 w), ucast w]"

text \<open>The packet of a trace entry: its five low words, most significant byte first.\<close>

definition tlp_bytes :: "u32 list \<Rightarrow> u8 list" where
  "tlp_bytes tlp = concat (map word_bytes (rev (take 5 tlp)))"

lemma cvt_hex_digit: "n < 16 \<Longrightarrow> cvt (hex_digit n) = of_nat n"
proof -
  have "list_all (\<lambda>n. cvt (hex_digit n) = of_nat n) [0..<16]" by code_simp
  then show "n < 16 \<Longrightarrow> ?thesis" by (simp add: list_all_iff)
qed

lemma nibble_less: "nibble k w < 16"
  by (simp add: nibble_def)

lemma hex_pair:
  assumes "unat w div 16 ^ k mod 256 = unat b"
  shows "push_bit 4 (cvt (hex_digit (nibble (Suc k) w))) OR cvt (hex_digit (nibble k w)) = (b :: u8)"
proof -
  let ?h = "nibble (Suc k) w" and ?l = "nibble k w"
  have l: "unat (of_nat ?l :: u8) < 2 ^ 4" using nibble_less [of k w] by (simp add: unat_of_nat_less)
  have "push_bit 4 (cvt (hex_digit ?h)) OR cvt (hex_digit ?l) = push_bit 4 (of_nat ?h) OR (of_nat ?l :: u8)"
    by (simp add: cvt_hex_digit nibble_less)
  also have "\<dots> = push_bit 4 (of_nat ?h) + of_nat ?l" by (rule push_bit_or_add [OF l])
  also have "\<dots> = of_nat (16 * ?h + ?l)" by (simp add: push_bit_eq_mult)
  also have "16 * ?h + ?l = unat w div 16 ^ k mod 256"
    using mod_mult2_eq [of "unat w div 16 ^ k" 16 16] by (simp add: nibble_def div_mult2_eq [symmetric] mult.commute)
  finally show ?thesis using assms by simp
qed

lemma hex_pairs:
  "push_bit 4 (cvt (hex_digit (nibble 1 w))) OR cvt (hex_digit (nibble 0 w)) = ucast w"
  "push_bit 4 (cvt (hex_digit (nibble 3 w))) OR cvt (hex_digit (nibble 2 w)) = ucast (drop_bit 8 w)"
  "push_bit 4 (cvt (hex_digit (nibble 5 w))) OR cvt (hex_digit (nibble 4 w)) = ucast (drop_bit 16 w)"
  "push_bit 4 (cvt (hex_digit (nibble 7 w))) OR cvt (hex_digit (nibble 6 w)) = ucast (drop_bit 24 w)"
proof -
  have "unat w div 16 ^ 0 mod 256 = unat (ucast w :: u8)" by (simp add: unat_ucast_down)
  from hex_pair [OF this]
  show "push_bit 4 (cvt (hex_digit (nibble 1 w))) OR cvt (hex_digit (nibble 0 w)) = ucast w" by simp
  have "unat w div 16 ^ 2 mod 256 = unat (ucast (drop_bit 8 w) :: u8)"
    by (simp add: unat_ucast_down unat_drop_bit_div)
  from hex_pair [OF this]
  show "push_bit 4 (cvt (hex_digit (nibble 3 w))) OR cvt (hex_digit (nibble 2 w)) = ucast (drop_bit 8 w)" by simp
  have "unat w div 16 ^ 4 mod 256 = unat (ucast (drop_bit 16 w) :: u8)"
    by (simp add: unat_ucast_down unat_drop_bit_div)
  from hex_pair [OF this]
  show "push_bit 4 (cvt (hex_digit (nibble 5 w))) OR cvt (hex_digit (nibble 4 w)) = ucast (drop_bit 16 w)" by simp
  have "unat w div 16 ^ 6 mod 256 = unat (ucast (drop_bit 24 w) :: u8)"
    by (simp add: unat_ucast_down unat_drop_bit_div)
  from hex_pair [OF this]
  show "push_bit 4 (cvt (hex_digit (nibble 7 w))) OR cvt (hex_digit (nibble 6 w)) = ucast (drop_bit 24 w)" by simp
qed

lemma load_printed:
  "load_bytes (print_tlp (L_tlp (rev [t0, t1, t2, t3, t4, t5]))) (map ((*) 2) [0..<20]) =
     Some (tlp_bytes [t0, t1, t2, t3, t4, t5])"
  by (simp add: load_byte_def string_at_def hex8_def upt_rec hex_pairs [unfolded One_nat_def] tlp_bytes_def word_bytes_def)

lemma load_printed_lines:
  "\<forall>tlp\<in>set ts. length tlp = 6 \<Longrightarrow>
   load_lines (map (print_tlp \<circ> L_tlp \<circ> rev) ts) = Some (concat (map tlp_bytes ts))"
proof (induction ts)
  case (Cons tlp ts)
  then have "length tlp = 6" by simp
  then obtain t0 t1 t2 t3 t4 t5 where "tlp = [t0, t1, t2, t3, t4, t5]"
    by (auto simp: numeral_eq_Suc length_Suc_conv)
  with load_printed [of t0 t1 t2 t3 t4 t5] Cons show ?case by (simp del: print_tlp.simps rev.simps)
qed simp

lemma read_tlps_length: "\<forall>tlp\<in>set (fst (read_tlps m n b)). length tlp = 6"
proof (induction n arbitrary: b)
  case (Suc n)
  have "length (fst (get_tlp m b)) = 6" by (simp add: get_tlp_def Let_def split: prod.split)
  with Suc [of "snd (get_tlp m b)"] show ?case by (auto split: prod.splits)
qed simp

text \<open>A packet reaches the design with its bytes reversed, when the variable happens to hold 0.\<close>

lemma replay_from_zero:
  assumes "tr_loaded st" "20 \<le> length (tlp_packets st)" "length tlp = 20"
  shows "replay_get_tlp 0 tlp st =
    Some (rev (take 20 (tlp_packets st)), st\<lparr>tlp_packets := drop 20 (tlp_packets st)\<rparr>)"
proof -
  have "length (fold (\<lambda>i t. t[19 - i := ps ! i]) [0..<n] (tlp :: u8 list)) = 20 \<and>
      (\<forall>j < 20. fold (\<lambda>i t. t[19 - i := ps ! i]) [0..<n] tlp ! j = (if 19 - j < n then ps ! (19 - j) else tlp ! j))"
    if "n \<le> 20" for n and ps :: "u8 list"
    using that assms(3)
  proof (induction n)
    case (Suc n)
    then have IH: "length (fold (\<lambda>i t. t[19 - i := ps ! i]) [0..<n] tlp) = 20"
      "\<And>j. j < 20 \<Longrightarrow> fold (\<lambda>i t. t[19 - i := ps ! i]) [0..<n] tlp ! j = (if 19 - j < n then ps ! (19 - j) else tlp ! j)"
      by simp_all
    show ?case using IH Suc.prems by (auto simp: nth_list_update less_Suc_eq)
  qed simp
  from this [of 20 "tlp_packets st"]
  have "fold (\<lambda>i t. t[19 - i := tlp_packets st ! i]) [0..<20] tlp = rev (take 20 (tlp_packets st))"
    using assms(2) by (intro nth_equalityI) (auto simp: rev_nth min_def)
  then show ?thesis using assms by (simp add: replay_get_tlp_def)
qed

section \<open>Properties\<close>

text \<open>
  C24.  The trace survives its way from the driver to the replay: mode \<^verbatim>\<open>tlp\<close> of the tool succeeds on
  the driver, and loading the lines it printed gives, in order, the bytes of every packet read from
  the trace memory, most significant byte first and without the time stamps.
\<close>

theorem tlp_dump_roundtrip:
  assumes "set_trace m 0 (read_msix m b) = ((old, len), b1)"
  shows "\<exists>ls s. process (driver_io m win files board portal) True mapped junk TLP strict (b, d) = Inr (0, ls, s) \<and>
    load_tlp (map print_tlp ls) \<lparr>tr_loaded = False, tlp_packets = []\<rparr> =
      Some \<lparr>tr_loaded = True, tlp_packets = concat (map tlp_bytes (fst (read_tlps m (unat len) b1)))\<rparr>"
  using tlp_mode_dumps_trace [OF assms, of win files board portal mapped junk strict d]
    load_printed_lines [OF read_tlps_length, of m "unat len" b1]
  by (simp add: load_tlp_def comp_assoc)

definition sample_trace :: "nat \<Rightarrow> u32" where
  "sample_trace = (\<lambda>_. 0)(CSR_TLPTRACELENGTHREG := 1, CSR_TLPDATABRAMRESPONSESLICE 4 := 0x08000000,
     CSR_TLPDATABRAMRESPONSESLICE 3 := 0x4a000001, CSR_TLPDATABRAMRESPONSESLICE 5 := 0x0000beef)"

lemma sample_trace_read:
  "set_trace csr_mmio 0 (read_msix csr_mmio sample_trace) = ((0, 1), sample_trace)"
  "fst (read_tlps csr_mmio 1 sample_trace) = [[0, 0, 0, 0x4a000001, 0x08000000, 0x0000beef]]"
proof -
  have "fold (\<lambda>i b. b) is (f :: nat \<Rightarrow> u32) = f" for "is" :: "nat list" and f by (induction "is") simp_all
  then have m: "read_msix csr_mmio sample_trace = sample_trace"
    by (simp add: read_msix_def csr_mmio_def READL_def Let_def)
  show "set_trace csr_mmio 0 (read_msix csr_mmio sample_trace) = ((0, 1), sample_trace)"
    unfolding m by (auto simp: set_trace_def csr_mmio_def READL_def WRITEL_def Let_def sample_trace_def fun_eq_iff
        CSR_TLPPCIEWRADDRREG_def CSR_TLPTRACINGREG_def CSR_TLPTRACELENGTHREG_def CSR_TLPDATABRAMRESPONSESLICE_def)
  show "fst (read_tlps csr_mmio 1 sample_trace) = [[0, 0, 0, 0x4a000001, 0x08000000, 0x0000beef]]"
    by (simp add: get_tlp_def csr_mmio_def READL_def WRITEL_def Let_def sample_trace_def
        CSR_TLPTRACELENGTHREG_def CSR_TLPDATABRAMRESPONSESLICE_def)
qed

lemma sample_trace_bytes:
  "concat (map tlp_bytes [[0, 0, 0, 0x4a000001, 0x08000000, 0x0000beef]]) =
     [8, 0, 0, 0, 0x4a, 0, 0, 1, 0, 0, 0, 0, 0, 0, 0, 0, 0, 0, 0, 0]"
  by code_simp

theorem tlp_dump_roundtrip_witness:
  "\<exists>ls s. process (driver_io csr_mmio (\<lambda>_. csr_mmio) (\<lambda>_. None) 0 3) True None (0, 0) TLP True (sample_trace, sample_trace)
       = Inr (0, ls, s) \<and>
    load_tlp (map print_tlp ls) \<lparr>tr_loaded = False, tlp_packets = []\<rparr> =
      Some \<lparr>tr_loaded = True, tlp_packets = [8, 0, 0, 0, 0x4a, 0, 0, 1, 0, 0, 0, 0, 0, 0, 0, 0, 0, 0, 0, 0]\<rparr>"
  using tlp_dump_roundtrip [OF sample_trace_read(1), of "\<lambda>_. csr_mmio" "\<lambda>_. None" 0 3 None "(0, 0)" True sample_trace]
  unfolding unat_1 sample_trace_read(2) sample_trace_bytes .

end
