(* ===== verification/Edid.thy ===== *)
theory Edid
  imports Prelude
begin

text \<open>
  What the display examples read from a monitor and write to the board's I2C devices:
  \<^verbatim>\<open>lib/cpp/edid.h\<close> parses the monitor's identification (EDID), \<^verbatim>\<open>lib/cpp/i2chdmi.h\<close> and
  \<^verbatim>\<open>examples/imageon/i2ccamera.h\<close> set up the HDMI transmitter and the camera's clock generator.
\<close>

section \<open>Monitor identification\<close>

record edid_detailed_timing =
  pixclk :: u16
  npixels :: u16
  bpixels :: u16
  nlines :: u16
  blines :: u16
  hsyncoff :: u16
  hsyncwidth :: u16
  vsyncoff :: u16
  vsyncwidth :: u16
  widthmm :: u16
  heightmm :: u16
  hborderpxls :: u8
  vborderpxls :: u8
  features :: u8

definition zero_timing :: edid_detailed_timing where
  "zero_timing = \<lparr>pixclk = 0, npixels = 0, bpixels = 0, nlines = 0, blines = 0, hsyncoff = 0, hsyncwidth = 0,
     vsyncoff = 0, vsyncwidth = 0, widthmm = 0, heightmm = 0, hborderpxls = 0, vborderpxls = 0, features = 0\<rparr>"

text \<open>A descriptor that is not a timing is only printed: its kind and up to 13 characters.\<close>

datatype edid_message =
    Monitor_serial_number "u8 list"
  | Monitor_text "u8 list"
  | Monitor_name "u8 list"
  | Standard_timing_identifiers

definition short_at :: "u8 list \<Rightarrow> u16" where
  "short_at rec = ucast (rec ! 0) OR push_bit 8 (ucast (rec ! 1))"

definition printed13 :: "u8 list \<Rightarrow> u8 list" where
  "printed13 s = takeWhile (\<lambda>c. c \<noteq> 0) (take 13 s)"

definition parse_descriptor :: "u8 list \<Rightarrow> edid_message list" where
  "parse_descriptor rec =
     (let descriptor_type = rec ! 3; str = printed13 (drop 5 rec) in
      if descriptor_type = 0xFF then [Monitor_serial_number str]
      else if descriptor_type = 0xFE then [Monitor_text str]
      else if descriptor_type = 0xFC then [Monitor_name str]
      else if descriptor_type = 0xFA then [Standard_timing_identifiers]
      else [])"

definition parse_timing :: "u8 list \<Rightarrow> edid_detailed_timing" where
  "parse_timing rec =
     \<lparr>pixclk = short_at rec,
      npixels = ucast (rec ! 2) OR push_bit 8 (drop_bit 4 (ucast (rec ! 4))),
      bpixels = ucast (rec ! 3) OR push_bit 8 (ucast (rec ! 4) AND 0xF),
      nlines = ucast (rec ! 5) OR push_bit 8 (drop_bit 4 (ucast (rec ! 7))),
      blines = ucast (rec ! 6) OR push_bit 8 (ucast (rec ! 7) AND 0xF),
      hsyncoff = ucast (rec ! 8) OR push_bit 8 (drop_bit 6 (ucast (rec ! 11))),
      hsyncwidth = ucast (rec ! 9) OR push_bit 8 (drop_bit 4 (ucast (rec ! 11) AND 0x30)),
      vsyncoff = drop_bit 4 (ucast (rec ! 10)) OR push_bit 4 (drop_bit 2 (ucast (rec ! 11) AND 0x0c)),
      vsyncwidth = (ucast (rec ! 10) AND 0xf) OR push_bit 4 (drop_bit 0 (ucast (rec ! 11) AND 0x03)),
      widthmm = ucast (rec ! 12) OR push_bit 8 (drop_bit 4 (ucast (rec ! 14))),
      heightmm = ucast (rec ! 13) OR push_bit 8 (ucast (rec ! 14) AND 0xf),
      hborderpxls = rec ! 15,
      vborderpxls = rec ! 16,
      features = rec ! 17\<rparr>"

text \<open>The four records of 18 bytes from byte 54 on.\<close>

definition edid_record :: "u8 list \<Rightarrow> nat \<Rightarrow> u8 list" where
  "edid_record raw i = take 18 (drop (54 + 18 * i) raw)"

definition parse_record :: "u8 list \<Rightarrow> edid_detailed_timing \<times> edid_message list" where
  "parse_record rec =
     (if short_at rec = 0 then (zero_timing, parse_descriptor rec) else (parse_timing rec, []))"

definition parseEdid :: "u8 list \<Rightarrow> edid_detailed_timing list \<times> edid_message list" where
  "parseEdid raw =
     (let rs = map (\<lambda>i. parse_record (edid_record raw i)) [0..<4] in (map fst rs, concat (map snd rs)))"

section \<open>The I2C bus\<close>

text \<open>
  The kernel's I2C character device: opening it, choosing the slave, and a byte transfer (read or
  write, register, byte), which gives a status and the byte then in the argument.
\<close>

record 'd i2c_io =
  i2c_open :: "string \<Rightarrow> 'd \<Rightarrow> int \<times> 'd"
  i2c_slave :: "int \<Rightarrow> int \<Rightarrow> 'd \<Rightarrow> int \<times> 'd"
  i2c_smbus :: "int \<Rightarrow> bool \<Rightarrow> u8 \<Rightarrow> u8 \<Rightarrow> 'd \<Rightarrow> int \<times> u8 \<times> 'd"

text \<open>
  The loop of \<^verbatim>\<open>i2c_write_array\<close> takes two bytes a round until the size is zero; an odd array would
  be read past its end.
\<close>

fun i2c_write_loop :: "'d i2c_io \<Rightarrow> int \<Rightarrow> u8 list \<Rightarrow> 'd \<Rightarrow> (int \<times> 'd) kresult" where
  "i2c_write_loop io fd [] d = Inr (0, d)"
| "i2c_write_loop io fd [c] d = Inl OutOfBounds"
| "i2c_write_loop io fd (c # v # datap) d =
     (case i2c_smbus io fd False c v d of (status, b, d') \<Rightarrow>
        if status \<noteq> 0 then Inr (- 1, d') else i2c_write_loop io fd datap d')"

definition i2c_write_array :: "'d i2c_io \<Rightarrow> int \<Rightarrow> int \<Rightarrow> u8 list \<Rightarrow> 'd \<Rightarrow> (int \<times> 'd) kresult" where
  "i2c_write_array io fd device datap d =
     (case i2c_slave io fd device d of (status, d') \<Rightarrow>
        if status \<noteq> 0 then Inr (- 1, d') else i2c_write_loop io fd datap d')"

text \<open>Errors of a read are printed and the byte is returned all the same.\<close>

definition i2c_read_reg :: "'d i2c_io \<Rightarrow> int \<Rightarrow> int \<Rightarrow> u8 \<Rightarrow> 'd \<Rightarrow> u8 \<times> 'd" where
  "i2c_read_reg io fd device reg d =
     (case i2c_slave io fd device d of (status, d1) \<Rightarrow>
      case i2c_smbus io fd True reg 0 d1 of (status, b, d2) \<Rightarrow> (b, d2))"

definition hdmi_muxdata :: "u8 list" where
  "hdmi_muxdata = [2, 2]"

definition hdmidata :: "u8 list" where
  "hdmidata = [
    0x41, 0x10, 0xD6, 0xC0,
    0x15, 0x01, 0x16, 0x38,
    0x18, 0xAB, 0x19, 0x37,
    0x1A, 0x08, 0x1B, 0x00, 0x1C, 0x00, 0x1D, 0x00,
    0x1E, 0x1A, 0x1F, 0x86, 0x20, 0x1A, 0x21, 0x49,
    0x22, 0x08, 0x23, 0x00, 0x24, 0x1D, 0x25, 0x3F,
    0x26, 0x04, 0x27, 0x22, 0x28, 0x00, 0x29, 0x00,
    0x2A, 0x08, 0x2B, 0x00, 0x2C, 0x0E, 0x2D, 0x2D,
    0x2E, 0x19, 0x2F, 0x14,
    0x48, 0x08,
    0x55, 0x00, 0x56, 0x28,
    0x98, 0x03, 0x9A, 0xE0, 0x9C, 0x30, 0x9D, 0x61,
    0xA2, 0xA4, 0xA3, 0xA4, 0xAF, 0x04, 0xE0, 0xD0, 0xF9, 0x00]"

definition hdmidata_rgb24 :: "u8 list" where
  "hdmidata_rgb24 = [
    0x41, 0x10, 0xD6, 0xC0, 0x15, 0x00, 0x16, 0x38,
    0x18, 0xAB, 0x19, 0x37, 0x1A, 0x08, 0x1B, 0x00,
    0x1C, 0x00, 0x1D, 0x00, 0x1E, 0x1A, 0x1F, 0x86,
    0x20, 0x1A, 0x21, 0x49, 0x22, 0x08, 0x23, 0x00,
    0x24, 0x1D, 0x25, 0x3F, 0x26, 0x04, 0x27, 0x22,
    0x28, 0x00, 0x29, 0x00, 0x2A, 0x08, 0x2B, 0x00,
    0x2C, 0x0E, 0x2D, 0x2D, 0x2E, 0x19, 0x2F, 0x14,
    0x48, 0x08, 0x55, 0x00, 0x56, 0x28, 0x98, 0x03,
    0x9A, 0xE0, 0x9C, 0x30, 0x9D, 0x61, 0xA2, 0xA4,
    0xA3, 0xA4, 0xAF, 0x04, 0xE0, 0xD0, 0xF9, 0x00]"

definition cmuxdata :: "u8 list" where
  "cmuxdata = [8, 8]"

definition cdce913_data :: "u8 list" where
  "cdce913_data = [
    0x00, 0x81, 0x01, 0x01,
    0x02, 0xB4, 0x03, 0x02,
    0x04, 0x02, 0x05, 0x50, 0x06, 0x60, 0x07, 0x00,
    0x08, 0x00, 0x09, 0x00, 0x0A, 0x00, 0x0B, 0x00,
    0x0C, 0x00, 0x0D, 0x00, 0x0E, 0x00, 0x0F, 0x00,
    0x10, 0x00, 0x11, 0x00, 0x12, 0x00, 0x13, 0x00,
    0x14, 0x6D, 0x15, 0x02, 0x16, 0x00, 0x17, 0x00,
    0x18, 0x00, 0x19, 0xB0, 0x1A, 0x02, 0x1B, 0xC9,
    0x1C, 0x00, 0x1D, 0xB0, 0x1E, 0x02, 0x1F, 0xC9,
    0x02, 0xB4, 0x03, 0x01,
    0x18, 0x00, 0x19, 0xB0, 0x1A, 0x02, 0x1B, 0xC9]"

text \<open>
  The set-up functions write two arrays and report what failed: whether the file was opened, and
  the results of the two writes.  They go on after a failure.
\<close>

definition two_arrays :: "'d i2c_io \<Rightarrow> int \<Rightarrow> int \<times> u8 list \<Rightarrow> int \<times> u8 list \<Rightarrow> 'd \<Rightarrow> (int \<times> int \<times> 'd) kresult" where
  "two_arrays io fd a b d =
     (case i2c_write_array io fd (fst a) (snd a) d of
        Inl f \<Rightarrow> Inl f
      | Inr (r1, d1) \<Rightarrow>
          (case i2c_write_array io fd (fst b) (snd b) d1 of
             Inl f \<Rightarrow> Inl f
           | Inr (r2, d2) \<Rightarrow> Inr (r1, r2, d2)))"

definition init_i2c_hdmi :: "bool \<Rightarrow> 'd i2c_io \<Rightarrow> 'd \<Rightarrow> (bool \<times> int \<times> int \<times> 'd) kresult" where
  "init_i2c_hdmi zedboard io d =
     (case i2c_open io ''/dev/i2c-0'' d of (fd, d0) \<Rightarrow>
        map_sum id (Pair (0 \<le> fd))
          (if zedboard then map_sum id (Pair 0) (i2c_write_array io fd 0x39 hdmidata d0)
           else two_arrays io fd (0x74, hdmi_muxdata) (0x39, hdmidata) d0))"

definition init_i2c_hdmi_rgb24 :: "'d i2c_io \<Rightarrow> 'd \<Rightarrow> (bool \<times> int \<times> int \<times> 'd) kresult" where
  "init_i2c_hdmi_rgb24 io d =
     (case i2c_open io ''/dev/i2c-0'' d of (fd, d0) \<Rightarrow>
        map_sum id (Pair (0 \<le> fd)) (two_arrays io fd (0x74, hdmi_muxdata) (0x39, hdmidata_rgb24) d0))"

definition init_i2c_camera :: "'d i2c_io \<Rightarrow> 'd \<Rightarrow> (bool \<times> int \<times> int \<times> 'd) kresult" where
  "init_i2c_camera io d =
     (case i2c_open io ''/dev/i2c-1'' d of (fd, d0) \<Rightarrow>
        map_sum id (Pair (0 \<le> fd)) (two_arrays io fd (0x70, cmuxdata) (0x65, cdce913_data) d0))"

section \<open>Parsing loses nothing\<close>

text \<open>The bytes of a timing, and the widths of its fields.\<close>

definition encode_timing :: "edid_detailed_timing \<Rightarrow> u8 list" where
  "encode_timing t =
     [ucast (pixclk t), ucast (drop_bit 8 (pixclk t)),
      ucast (npixels t), ucast (bpixels t),
      ucast (push_bit 4 (drop_bit 8 (npixels t)) OR drop_bit 8 (bpixels t)),
      ucast (nlines t), ucast (blines t),
      ucast (push_bit 4 (drop_bit 8 (nlines t)) OR drop_bit 8 (blines t)),
      ucast (hsyncoff t), ucast (hsyncwidth t),
      ucast (push_bit 4 (vsyncoff t) OR take_bit 4 (vsyncwidth t)),
      ucast (push_bit 6 (drop_bit 8 (hsyncoff t)) OR push_bit 4 (drop_bit 8 (hsyncwidth t)) OR
        push_bit 2 (drop_bit 4 (vsyncoff t)) OR drop_bit 4 (vsyncwidth t)),
      ucast (widthmm t), ucast (heightmm t),
      ucast (push_bit 4 (drop_bit 8 (widthmm t)) OR drop_bit 8 (heightmm t)),
      hborderpxls t, vborderpxls t, features t]"

definition timing_fits :: "edid_detailed_timing \<Rightarrow> bool" where
  "timing_fits t \<longleftrightarrow>
     unat (npixels t) < 2 ^ 12 \<and> unat (bpixels t) < 2 ^ 12 \<and> unat (nlines t) < 2 ^ 12 \<and> unat (blines t) < 2 ^ 12 \<and>
     unat (hsyncoff t) < 2 ^ 10 \<and> unat (hsyncwidth t) < 2 ^ 10 \<and>
     unat (vsyncoff t) < 2 ^ 6 \<and> unat (vsyncwidth t) < 2 ^ 6 \<and>
     unat (widthmm t) < 2 ^ 12 \<and> unat (heightmm t) < 2 ^ 12"

lemma unat_less_iff_take_bit: "unat (x :: 'a::len word) < 2 ^ n \<longleftrightarrow> take_bit n x = x"
proof
  assume "take_bit n x = x"
  then have "unat x = take_bit n (unat x)" by (metis unsigned_take_bit_eq)
  then show "unat x < 2 ^ n" by (metis take_bit_nat_less_exp)
qed (rule take_bit_word_id)

lemma edid_masks:
  "(0xF :: u16) = mask 4" "(0x30 :: u16) = push_bit 4 (mask 2)" "(0x0c :: u16) = push_bit 2 (mask 2)" "(0x03 :: u16) = mask 2"
  by (simp_all add: mask_eq_exp_minus_1)

lemma parse_timing_fits: "timing_fits (parse_timing rec)"
  unfolding timing_fits_def unat_less_iff_take_bit parse_timing_def edid_masks
  by (intro conjI; simp; intro bit_word_eqI) (auto simp: bit_simps)

lemma fits_bit: "unat (x :: u16) < 2 ^ k \<Longrightarrow> bit x n \<Longrightarrow> n < k"
  by (metis bit_take_bit_iff unat_less_iff_take_bit)

lemma split12:
  assumes "unat (x :: u16) < 2 ^ 12" and "unat (y :: u16) < 2 ^ 12"
  shows "ucast (ucast x :: u8) OR push_bit 8 (drop_bit 4 (ucast (ucast (push_bit 4 (drop_bit 8 x) OR drop_bit 8 y) :: u8))) = x"
    and "ucast (ucast y :: u8) OR push_bit 8 (ucast (ucast (push_bit 4 (drop_bit 8 x) OR drop_bit 8 y) :: u8) AND mask 4) = y"
  by (rule bit_word_eqI; use fits_bit [OF assms(1)] fits_bit [OF assms(2)] in \<open>fastforce simp: bit_simps\<close>)+

lemma split16: "ucast (ucast x :: u8) OR push_bit 8 (ucast (ucast (drop_bit 8 x) :: u8)) = (x :: u16)"
  by (rule bit_word_eqI) (auto simp: bit_simps)

lemma split_sync:
  fixes ho hw vo vw :: u16
  assumes "unat ho < 2 ^ 10" and "unat hw < 2 ^ 10" and "unat vo < 2 ^ 6" and "unat vw < 2 ^ 6"
  defines "m \<equiv> push_bit 6 (drop_bit 8 ho) OR push_bit 4 (drop_bit 8 hw) OR push_bit 2 (drop_bit 4 vo) OR drop_bit 4 vw"
  shows "ucast (ucast ho :: u8) OR push_bit 8 (drop_bit 6 (ucast (ucast m :: u8))) = ho"
    and "ucast (ucast hw :: u8) OR push_bit 8 (drop_bit 4 (ucast (ucast m :: u8)) AND 3) = hw"
    and "drop_bit 4 (ucast (ucast (push_bit 4 vo OR take_bit 4 vw) :: u8)) OR
      push_bit 4 (drop_bit 2 (ucast (ucast m :: u8)) AND 3) = vo"
    and "(ucast (ucast (push_bit 4 vo OR take_bit 4 vw) :: u8) AND mask 4) OR
      push_bit 4 (ucast (ucast m :: u8) AND 3) = vw"
  unfolding m_def edid_masks(4)
  by (rule bit_word_eqI; use fits_bit [OF assms(1)] fits_bit [OF assms(2)] fits_bit [OF assms(3)] fits_bit [OF assms(4)]
      in \<open>fastforce simp: bit_simps\<close>)+

lemma parse_encode_timing:
  assumes "timing_fits t"
  shows "parse_timing (encode_timing t) = t"
proof -
  have fit: "unat (npixels t) < 2 ^ 12" "unat (bpixels t) < 2 ^ 12" "unat (nlines t) < 2 ^ 12" "unat (blines t) < 2 ^ 12"
    "unat (hsyncoff t) < 2 ^ 10" "unat (hsyncwidth t) < 2 ^ 10" "unat (vsyncoff t) < 2 ^ 6" "unat (vsyncwidth t) < 2 ^ 6"
    "unat (widthmm t) < 2 ^ 12" "unat (heightmm t) < 2 ^ 12"
    using assms by (simp_all add: timing_fits_def)
  note fields = split16 [of "pixclk t"] split12 [OF fit(1,2)] split12 [OF fit(3,4)] split12 [OF fit(9,10)]
    split_sync [OF fit(5-8)]
  show ?thesis
    by (rule edid_detailed_timing.equality)
      (simp_all add: parse_timing_def encode_timing_def short_at_def edid_masks(1) fields del: push_bit_and)
qed

lemma join_bytes:
  fixes a b c :: u8
  shows "(ucast (ucast a OR push_bit 8 x :: u16) :: u8) = a"
    and "(ucast (drop_bit 8 (ucast a OR push_bit 8 (ucast b) :: u16)) :: u8) = b"
    and "(ucast (push_bit 4 (drop_bit 8 (ucast a OR push_bit 8 (drop_bit 4 (ucast c)) :: u16)) OR
      drop_bit 8 (ucast b OR push_bit 8 (ucast c AND mask 4))) :: u8) = c"
  by (rule bit_word_eqI; auto simp: bit_simps)+

lemma join_sync:
  fixes a b c d :: u8
  defines "vo \<equiv> drop_bit 4 (ucast c) OR push_bit 4 (drop_bit 2 (ucast d AND push_bit 2 (mask 2))) :: u16"
    and "vw \<equiv> (ucast c AND mask 4) OR push_bit 4 (ucast d AND mask 2) :: u16"
  shows "(ucast (push_bit 4 vo OR take_bit 4 vw) :: u8) = c"
    and "(ucast (push_bit 6 (drop_bit 8 (ucast a OR push_bit 8 (drop_bit 6 (ucast d)) :: u16)) OR
      push_bit 4 (drop_bit 8 (ucast b OR push_bit 8 (drop_bit 4 (ucast d AND push_bit 4 (mask 2))) :: u16)) OR
      push_bit 2 (drop_bit 4 vo) OR drop_bit 4 vw) :: u8) = d"
proof -
  have cases8: "n \<in> {0, 1, 2, 3, 4, 5, 6, 7}" if "n < LENGTH(8)" for n using that by auto
  show "(ucast (push_bit 4 vo OR take_bit 4 vw) :: u8) = c"
    unfolding vo_def vw_def
    by (rule bit_word_eqI; drule cases8; elim insertE emptyE) (simp_all add: bit_simps)
  show "(ucast (push_bit 6 (drop_bit 8 (ucast a OR push_bit 8 (drop_bit 6 (ucast d)) :: u16)) OR
      push_bit 4 (drop_bit 8 (ucast b OR push_bit 8 (drop_bit 4 (ucast d AND push_bit 4 (mask 2))) :: u16)) OR
      push_bit 2 (drop_bit 4 vo) OR drop_bit 4 vw) :: u8) = d"
    unfolding vo_def vw_def
    by (rule bit_word_eqI; drule cases8; elim insertE emptyE) (simp_all add: bit_simps)
qed

lemma encode_parse_timing:
  assumes "length rec = 18"
  shows "encode_timing (parse_timing rec) = rec"
proof -
  obtain r0 r1 r2 r3 r4 r5 r6 r7 r8 r9 r10 r11 r12 r13 r14 r15 r16 r17 where
    r: "rec = [r0, r1, r2, r3, r4, r5, r6, r7, r8, r9, r10, r11, r12, r13, r14, r15, r16, r17]"
    using assms by (auto simp: numeral_eq_Suc length_Suc_conv)
  show ?thesis
    unfolding r parse_timing_def encode_timing_def short_at_def edid_masks
    by (simp add: join_bytes join_sync del: push_bit_or drop_bit_or take_bit_or push_bit_and drop_bit_and take_bit_and)
qed

section \<open>Writing arrays to a device\<close>

lemma i2c_write_even:
  "even (length xs) \<Longrightarrow> \<exists>r d'. i2c_write_loop io fd xs d = Inr (r, d') \<and> (r = 0 \<or> r = - 1)"
  by (induction io fd xs d rule: i2c_write_loop.induct) (auto split: prod.split)

lemma i2c_array_even:
  assumes "even (length xs)"
  shows "\<exists>r d'. i2c_write_array io fd dev xs d = Inr (r, d') \<and> (r = 0 \<or> r = - 1)"
proof -
  obtain st d1 where "i2c_slave io fd dev d = (st, d1)" by (rule prod.exhaust)
  with i2c_write_even [OF assms, of io fd d1] show ?thesis by (auto simp: i2c_write_array_def)
qed

lemma two_arrays_even:
  assumes "even (length (snd a))" and "even (length (snd b))"
  shows "\<exists>r1 r2 d'. two_arrays io fd a b d = Inr (r1, r2, d') \<and> r1 \<in> {0, - 1} \<and> r2 \<in> {0, - 1}"
proof -
  obtain r1 d1 where 1: "i2c_write_array io fd (fst a) (snd a) d = Inr (r1, d1)" "r1 = 0 \<or> r1 = - 1"
    using i2c_array_even [OF assms(1), of io fd "fst a" d] by blast
  obtain r2 d2 where "i2c_write_array io fd (fst b) (snd b) d1 = Inr (r2, d2)" "r2 = 0 \<or> r2 = - 1"
    using i2c_array_even [OF assms(2), of io fd "fst b" d1] by blast
  with 1 show ?thesis by (auto simp: two_arrays_def)
qed

text \<open>Whatever the bus answers, the set-up functions stay inside their arrays and return.\<close>

lemma init_i2c_returns:
  "\<exists>r. init_i2c_hdmi zed io d = Inr r" "\<exists>r. init_i2c_hdmi_rgb24 io d = Inr r" "\<exists>r. init_i2c_camera io d = Inr r"
proof -
  have e: "even (length hdmi_muxdata)" "even (length hdmidata)" "even (length hdmidata_rgb24)" "even (length cmuxdata)"
    "even (length cdce913_data)"
    by (simp_all add: hdmi_muxdata_def hdmidata_def hdmidata_rgb24_def cmuxdata_def cdce913_data_def)
  obtain fd d0 where o: "i2c_open io ''/dev/i2c-0'' d = (fd, d0)" by (rule prod.exhaust)
  obtain fd1 d1 where o1: "i2c_open io ''/dev/i2c-1'' d = (fd1, d1)" by (rule prod.exhaust)
  show "\<exists>r. init_i2c_hdmi zed io d = Inr r"
    using i2c_array_even [OF e(2), of io fd "0x39" d0]
      two_arrays_even [of "(0x74, hdmi_muxdata)" "(0x39, hdmidata)" io fd d0] e o
    by (auto simp: init_i2c_hdmi_def)
  show "\<exists>r. init_i2c_hdmi_rgb24 io d = Inr r"
    using two_arrays_even [of "(0x74, hdmi_muxdata)" "(0x39, hdmidata_rgb24)" io fd d0] e o
    by (auto simp: init_i2c_hdmi_rgb24_def)
  show "\<exists>r. init_i2c_camera io d = Inr r"
    using two_arrays_even [of "(0x70, cmuxdata)" "(0x65, cdce913_data)" io fd1 d1] e o1
    by (auto simp: init_i2c_camera_def)
qed

text \<open>A bus of register devices, and what the camera's clock generator is told there.\<close>

definition i2c_regs_io :: "(int \<times> (int \<Rightarrow> u8 \<Rightarrow> u8)) i2c_io" where
  "i2c_regs_io = \<lparr>i2c_open = (\<lambda>name d. (3, d)), i2c_slave = (\<lambda>fd dev d. (0, (dev, snd d))),
     i2c_smbus = (\<lambda>fd rd c v (dev, m). if rd then (0, m dev c, (dev, m)) else (0, v, (dev, m(dev := (m dev)(c := v)))))\<rparr>"

definition camera_regs :: "u8 \<Rightarrow> u8" where
  "camera_regs = (case init_i2c_camera i2c_regs_io (0, \<lambda>_ _. 0) of Inr (_, _, _, _, m) \<Rightarrow> m 0x65 | Inl _ \<Rightarrow> \<lambda>_. 0)"

lemma camera_regs_list:
  "map camera_regs [0x02, 0x03, 0x18, 0x19, 0x1A, 0x1B] = [0xB4, 0x01, 0x00, 0xB0, 0x02, 0xC9]"
  by (simp add: camera_regs_def init_i2c_camera_def two_arrays_def i2c_write_array_def i2c_regs_io_def cmuxdata_def cdce913_data_def)

text \<open>
  The values of the comments: 27 MHz times 11 / 2, with N' = N * 2^P, Q = N' div M, R = N' mod M for
  M = 2, and an output divider of 1.
\<close>

lemma camera_clock:
  defines "N \<equiv> unat (camera_regs 0x18) * 16 + unat (camera_regs 0x19) div 16"
    and "R \<equiv> unat (camera_regs 0x19) mod 16 * 32 + unat (camera_regs 0x1A) div 8"
    and "Q \<equiv> unat (camera_regs 0x1A) mod 8 * 8 + unat (camera_regs 0x1B) div 32"
    and "P \<equiv> unat (camera_regs 0x1B) div 4 mod 8"
    and "Pdiv \<equiv> unat (camera_regs 0x02) mod 4 * 256 + unat (camera_regs 0x03)"
  shows "N = 11 \<and> Pdiv = 1 \<and> P = 2 \<and> Q = N * 2 ^ P div 2 \<and> R = N * 2 ^ P mod 2"
  using camera_regs_list unfolding N_def R_def Q_def P_def Pdiv_def by simp

section \<open>Properties\<close>


definition sample_timing :: edid_detailed_timing where
  "sample_timing = \<lparr>pixclk = 14850, npixels = 1920, bpixels = 280, nlines = 1080, blines = 45, hsyncoff = 88, hsyncwidth = 44,
     vsyncoff = 4, vsyncwidth = 5, widthmm = 509, heightmm = 286, hborderpxls = 0, vborderpxls = 0, features = 0x1e\<rparr>"

definition sample_record :: "u8 list" where
  "sample_record = [0x02, 0x3a, 0x80, 0x18, 0x71, 0x38, 0x2d, 0x40, 0x58, 0x2c, 0x45, 0x00, 0xfd, 0x1e, 0x11, 0x00, 0x00, 0x1e]"


end
