(* ===== verification/Hdmi_Gen.thy ===== *)
theory Hdmi_Gen
  imports Edid
begin

text \<open>
  The video timing generator of \<^verbatim>\<open>lib/bsv/HDMI.bsv\<close> and the way the display programs set it from a
  monitor's EDID.  One step is one clock of the video domain; a register written from the other
  clock domain is seen from the next step on.
\<close>

section \<open>The generator\<close>

record video_data =
  vd_de :: bool
  vd_vsync :: bool
  vd_hsync :: bool
  vd_pixel :: "24 word"

record hdmi_gen =
  dePixelEnd :: "12 word"
  dePixelWidth :: "12 word"
  dePixelPorch :: "12 word"
  dePixelVisible :: "12 word"
  pixelMidpoint :: "12 word"
  deLineEnd :: "11 word"
  deLineWidth :: "11 word"
  deLinePorch :: "11 word"
  deLineVisible :: "11 word"
  lineMidpoint :: "11 word"
  patternRegs :: "24 word list"
  shadowTestPatternEnabled :: bool
  waitingForVsync :: bool
  lineCount :: "11 word"
  pixelCount :: "12 word"
  patternIndex0 :: bool
  patternIndex1 :: bool
  testPatternEnabled :: bool
  dataEnable :: bool
  lineVisible :: bool
  hg_vsync :: bool
  hg_hsync :: bool
  vsyncCounter :: u32
  rgb888StageReg :: video_data

text \<open>The values at reset: 1920 by 1080.\<close>

definition hdmi_reset :: hdmi_gen where
  "hdmi_reset = \<lparr>dePixelEnd = 1920 + 192 + 44 + 44 - 1, dePixelWidth = 44 + 44 - 1 + 44, dePixelPorch = 44 + 44 - 1,
     dePixelVisible = 44 + 44 - 1 + 192, pixelMidpoint = 960 + 192,
     deLineEnd = 1080 + 45 - 1, deLineWidth = 3 + 5, deLinePorch = 3, deLineVisible = 3 + 41, lineMidpoint = 540 + 41,
     patternRegs = replicate 4 0x00FFFFFF, shadowTestPatternEnabled = True, waitingForVsync = False,
     lineCount = 0, pixelCount = 0, patternIndex0 = False, patternIndex1 = False, testPatternEnabled = True,
     dataEnable = False, lineVisible = False, hg_vsync = False, hg_hsync = False, vsyncCounter = 0,
     rgb888StageReg = \<lparr>vd_de = False, vd_vsync = False, vd_hsync = False, vd_pixel = 0\<rparr>\<rparr>"

text \<open>Pulses sent to the other clock domain.\<close>

datatype hdmi_pulse = SendVsyncIndication | StartDMA

text \<open>The counters at the end of a line, and inside it.\<close>

definition end_of_line :: "hdmi_gen \<Rightarrow> hdmi_gen \<times> hdmi_pulse list" where
  "end_of_line g =
     (let g1 = g\<lparr>pixelCount := 0, dataEnable := False, patternIndex0 := False\<rparr> in
      if lineCount g = deLineEnd g
      then (g1\<lparr>lineCount := 0, patternIndex1 := False, lineVisible := False, testPatternEnabled := shadowTestPatternEnabled g\<rparr>,
            if waitingForVsync g then [SendVsyncIndication] else [])
      else (g1\<lparr>lineVisible := (if lineCount g = deLineVisible g then True else lineVisible g),
               lineCount := lineCount g + 1,
               patternIndex1 := (if lineMidpoint g \<le> lineCount g then True else patternIndex1 g)\<rparr>, []))"

definition within_line :: "hdmi_gen \<Rightarrow> hdmi_gen \<times> hdmi_pulse list" where
  "within_line g =
     (let start = (lineCount g = deLinePorch g \<and> pixelCount g = 0 \<and> \<not> testPatternEnabled g) in
      (g\<lparr>hg_vsync := (if lineCount g = deLinePorch g then True else if lineCount g = deLineWidth g then False else hg_vsync g),
         vsyncCounter := (if start then vsyncCounter g + 1 else vsyncCounter g),
         hg_hsync := (if pixelCount g = dePixelPorch g then True else if pixelCount g = dePixelWidth g then False else hg_hsync g),
         dataEnable := (if pixelCount g = dePixelVisible g then lineVisible g else dataEnable g),
         pixelCount := pixelCount g + 1,
         patternIndex0 := (if pixelCount g = pixelMidpoint g then True else patternIndex0 g)\<rparr>,
       if start then [StartDMA] else []))"

definition inc_counters :: "hdmi_gen \<Rightarrow> hdmi_gen \<times> hdmi_pulse list" where
  "inc_counters g = (if pixelCount g = dePixelEnd g then end_of_line g else within_line g)"

definition init_pattern :: "24 word list \<Rightarrow> 24 word list" where
  "init_pattern regs = regs[1 := 0x00FF0000, 2 := 0x0000FF00, 3 := 0x000000FF]"

text \<open>
  What the pixel stage takes: blanking, the test pattern, or a pixel of the frame buffer when one
  is offered; without one it keeps its value.
\<close>

definition next_stage :: "u32 option \<Rightarrow> hdmi_gen \<Rightarrow> video_data" where
  "next_stage inp g =
     (if \<not> dataEnable g then \<lparr>vd_de = False, vd_vsync = hg_vsync g, vd_hsync = hg_hsync g, vd_pixel = 0\<rparr>
      else if testPatternEnabled g
        then \<lparr>vd_de = True, vd_vsync = False, vd_hsync = False,
              vd_pixel = patternRegs g ! (2 * of_bool (patternIndex1 g) + of_bool (patternIndex0 g))\<rparr>
      else case inp of
             None \<Rightarrow> rgb888StageReg g
           | Some v \<Rightarrow> \<lparr>vd_de = True, vd_vsync = False, vd_hsync = False, vd_pixel = ucast v\<rparr>)"

definition hdmi_tick :: "u32 option \<Rightarrow> hdmi_gen \<Rightarrow> hdmi_gen \<times> hdmi_pulse list" where
  "hdmi_tick inp g =
     (case inc_counters g of (g', ps) \<Rightarrow>
        (g'\<lparr>patternRegs := init_pattern (patternRegs g), rgb888StageReg := next_stage inp g\<rparr>, ps))"

text \<open>The requests of software; arguments are cut to the width of the registers.\<close>

definition setPatternColor :: "u32 \<Rightarrow> hdmi_gen \<Rightarrow> hdmi_gen" where
  "setPatternColor v g = g\<lparr>patternRegs := (patternRegs g)[0 := ucast v]\<rparr>"

definition setTestPattern :: "bool \<Rightarrow> hdmi_gen \<Rightarrow> hdmi_gen" where
  "setTestPattern v g = g\<lparr>shadowTestPatternEnabled := v\<rparr>"

definition setDePixel :: "int \<Rightarrow> int \<Rightarrow> int \<Rightarrow> int \<Rightarrow> int \<Rightarrow> hdmi_gen \<Rightarrow> hdmi_gen" where
  "setDePixel porch width visible final mid g =
     g\<lparr>dePixelWidth := of_int width, dePixelPorch := of_int porch, dePixelVisible := of_int visible,
       dePixelEnd := of_int final, pixelMidpoint := of_int mid\<rparr>"

definition setDeLine :: "int \<Rightarrow> int \<Rightarrow> int \<Rightarrow> int \<Rightarrow> int \<Rightarrow> hdmi_gen \<Rightarrow> hdmi_gen" where
  "setDeLine porch width visible final mid g =
     g\<lparr>deLineWidth := of_int width, deLinePorch := of_int porch, deLineVisible := of_int visible,
       deLineEnd := of_int final, lineMidpoint := of_int mid\<rparr>"

definition waitForVsync :: "hdmi_gen \<Rightarrow> hdmi_gen" where
  "waitForVsync g = g\<lparr>waitingForVsync := True\<rparr>"

definition vsyncReceived :: "hdmi_gen \<Rightarrow> hdmi_gen" where
  "vsyncReceived g = g\<lparr>waitingForVsync := False\<rparr>"

section \<open>Setting the timing of a monitor\<close>

text \<open>
  The display programs take the first timing below a clock limit and set the generator from it
  (\<^verbatim>\<open>main\<close> of \<^verbatim>\<open>testhdmidisplay.cpp\<close> and \<^verbatim>\<open>testimagecapture.cpp\<close>).
\<close>

definition pixel_clock :: "edid_detailed_timing \<Rightarrow> int" where
  "pixel_clock t = uint (pixclk t) * 10000"

fun select_timing :: "int \<Rightarrow> edid_detailed_timing list \<Rightarrow> edid_detailed_timing option" where
  "select_timing limit [] = None"
| "select_timing limit (t # ts) =
     (if 0 < pixel_clock t \<and> pixel_clock t < limit then Some t else select_timing limit ts)"

definition set_timing :: "edid_detailed_timing \<Rightarrow> hdmi_gen \<Rightarrow> hdmi_gen" where
  "set_timing t g =
     (let nl = uint (nlines t); np = uint (npixels t);
          vblank = uint (blines t); hblank = uint (bpixels t);
          vso = uint (vsyncoff t); hso = uint (hsyncoff t);
          vsw = uint (vsyncwidth t); hsw = uint (hsyncwidth t);
          hblank = hblank - 1
      in setDePixel hso (hso + hsw) hblank (hblank + np) (hblank + np div 2)
           (setDeLine vso (vso + vsw) vblank (vblank + nl) (vblank + nl div 2) g))"

section \<open>Where the generator is after any number of clocks\<close>

definition hdmi_run :: "u32 option list \<Rightarrow> hdmi_gen \<Rightarrow> hdmi_gen" where
  "hdmi_run inps = fold (\<lambda>inp g. fst (hdmi_tick inp g)) inps"

lemma hdmi_run_simps [simp]:
  "hdmi_run [] g = g"
  "hdmi_run (inps @ [inp]) g = fst (hdmi_tick inp (hdmi_run inps g))"
  by (simp_all add: hdmi_run_def)

text \<open>Sync pulses inside the blanking times.\<close>

definition timing_ok :: "hdmi_gen \<Rightarrow> bool" where
  "timing_ok g \<longleftrightarrow>
     dePixelPorch g < dePixelWidth g \<and> dePixelWidth g < dePixelEnd g \<and>
     deLinePorch g < deLineWidth g \<and> deLineWidth g \<le> deLineEnd g"

definition same_timing :: "hdmi_gen \<Rightarrow> hdmi_gen \<Rightarrow> bool" where
  "same_timing g h \<longleftrightarrow>
     dePixelEnd h = dePixelEnd g \<and> dePixelWidth h = dePixelWidth g \<and> dePixelPorch h = dePixelPorch g \<and>
     dePixelVisible h = dePixelVisible g \<and> deLineEnd h = deLineEnd g \<and> deLineWidth h = deLineWidth g \<and>
     deLinePorch h = deLinePorch g \<and> deLineVisible h = deLineVisible g"

text \<open>
  The state at pixel \<open>p\<close> of line \<open>l\<close>.  The sync signals keep what they were (\<open>hs\<close>, \<open>vs\<close>) until their
  first porch.
\<close>

definition at_pos :: "bool \<Rightarrow> bool \<Rightarrow> nat \<Rightarrow> nat \<Rightarrow> hdmi_gen \<Rightarrow> bool" where
  "at_pos hs vs l p g \<longleftrightarrow>
     unat (lineCount g) = l \<and> unat (pixelCount g) = p \<and>
     lineVisible g = (unat (deLineVisible g) < l) \<and>
     dataEnable g = (unat (deLineVisible g) < l \<and> unat (dePixelVisible g) < p) \<and>
     hg_hsync g = (if l = 0 \<and> p \<le> unat (dePixelPorch g) then hs
                   else unat (dePixelPorch g) < p \<and> p \<le> unat (dePixelWidth g)) \<and>
     hg_vsync g = (if l < unat (deLinePorch g) \<or> l = unat (deLinePorch g) \<and> p = 0 then vs
                   else l < unat (deLineWidth g) \<or> l = unat (deLineWidth g) \<and> p = 0)"

lemma unat_succ_less:
  assumes "unat (x :: 'a::len word) < unat (y :: 'a word)"
  shows "unat (x + 1) = Suc (unat x)"
proof -
  have "Suc (unat x) < 2 ^ LENGTH('a)" using assms unat_less [of y] by linarith
  moreover have "x + 1 = of_nat (Suc (unat x))" by simp
  ultimately show ?thesis using unat_of_nat_less by metis
qed

lemma tick_same_timing: "same_timing g (fst (hdmi_tick inp g))"
  by (auto simp: same_timing_def hdmi_tick_def inc_counters_def end_of_line_def within_line_def Let_def split: prod.split)

lemma within_line_fields:
  "lineCount (fst (within_line g)) = lineCount g"
  "pixelCount (fst (within_line g)) = pixelCount g + 1"
  "lineVisible (fst (within_line g)) = lineVisible g"
  "dataEnable (fst (within_line g)) = (if pixelCount g = dePixelVisible g then lineVisible g else dataEnable g)"
  "hg_hsync (fst (within_line g)) =
     (if pixelCount g = dePixelPorch g then True else if pixelCount g = dePixelWidth g then False else hg_hsync g)"
  "hg_vsync (fst (within_line g)) =
     (if lineCount g = deLinePorch g then True else if lineCount g = deLineWidth g then False else hg_vsync g)"
  by (simp_all add: within_line_def Let_def)

lemma end_of_line_fields:
  "lineCount (fst (end_of_line g)) = (if lineCount g = deLineEnd g then 0 else lineCount g + 1)"
  "pixelCount (fst (end_of_line g)) = 0"
  "lineVisible (fst (end_of_line g)) =
     (lineCount g \<noteq> deLineEnd g \<and> (lineCount g = deLineVisible g \<or> lineVisible g))"
  "dataEnable (fst (end_of_line g)) = False"
  "hg_hsync (fst (end_of_line g)) = hg_hsync g"
  "hg_vsync (fst (end_of_line g)) = hg_vsync g"
  by (simp_all add: end_of_line_def Let_def)

lemma line_timing:
  "dePixelVisible (fst (within_line g)) = dePixelVisible g" "dePixelPorch (fst (within_line g)) = dePixelPorch g"
  "dePixelWidth (fst (within_line g)) = dePixelWidth g" "deLineVisible (fst (within_line g)) = deLineVisible g"
  "deLinePorch (fst (within_line g)) = deLinePorch g" "deLineWidth (fst (within_line g)) = deLineWidth g"
  "dePixelVisible (fst (end_of_line g)) = dePixelVisible g" "dePixelPorch (fst (end_of_line g)) = dePixelPorch g"
  "dePixelWidth (fst (end_of_line g)) = dePixelWidth g" "deLineVisible (fst (end_of_line g)) = deLineVisible g"
  "deLinePorch (fst (end_of_line g)) = deLinePorch g" "deLineWidth (fst (end_of_line g)) = deLineWidth g"
  by (simp_all add: within_line_def end_of_line_def Let_def)

lemma at_posD:
  assumes "at_pos hs vs l p g"
  shows "unat (lineCount g) = l" "unat (pixelCount g) = p"
    "lineVisible g = (unat (deLineVisible g) < l)"
    "dataEnable g = (unat (deLineVisible g) < l \<and> unat (dePixelVisible g) < p)"
    "hg_hsync g = (if l = 0 \<and> p \<le> unat (dePixelPorch g) then hs
                   else unat (dePixelPorch g) < p \<and> p \<le> unat (dePixelWidth g))"
    "hg_vsync g = (if l < unat (deLinePorch g) \<or> l = unat (deLinePorch g) \<and> p = 0 then vs
                   else l < unat (deLineWidth g) \<or> l = unat (deLineWidth g) \<and> p = 0)"
    "lineCount g = x \<longleftrightarrow> l = unat x" "pixelCount g = y \<longleftrightarrow> p = unat y"
  using assms by (simp_all add: at_pos_def word_unat_eq_iff)

lemma within_line_pos:
  assumes "timing_ok g" and "at_pos hs vs l p g" and "p < unat (dePixelEnd g)"
  shows "at_pos hs vs l (Suc p) (fst (within_line g))"
proof -
  note d = at_posD [OF assms(2)]
  have s: "unat (pixelCount g + 1) = Suc p" using d(2) assms(3) unat_succ_less by metis
  have t: "unat (dePixelPorch g) < unat (dePixelWidth g)" "unat (deLinePorch g) < unat (deLineWidth g)"
    using assms(1) by (simp_all add: timing_ok_def word_less_nat_alt)
  have "hg_hsync (fst (within_line g)) = (if l = 0 \<and> Suc p \<le> unat (dePixelPorch g) then hs
      else unat (dePixelPorch g) < Suc p \<and> Suc p \<le> unat (dePixelWidth g))"
    unfolding within_line_fields d(5,8) using t by auto
  moreover have "hg_vsync (fst (within_line g)) =
      (if l < unat (deLinePorch g) \<or> l = unat (deLinePorch g) \<and> Suc p = 0 then vs
       else l < unat (deLineWidth g) \<or> l = unat (deLineWidth g) \<and> Suc p = 0)"
    unfolding within_line_fields d(6,7) using t by auto
  moreover have "dataEnable (fst (within_line g)) = (unat (deLineVisible g) < l \<and> unat (dePixelVisible g) < Suc p)"
    unfolding within_line_fields d(3,4,8) by auto
  ultimately show ?thesis
    unfolding at_pos_def line_timing by (simp add: within_line_fields d(1,3) s)
qed

lemma end_of_line_pos:
  assumes "timing_ok g" and "at_pos hs vs l p g" and "p = unat (dePixelEnd g)" and "l \<le> unat (deLineEnd g)"
  shows "if l = unat (deLineEnd g) then at_pos False False 0 0 (fst (end_of_line g))
         else at_pos hs vs (Suc l) 0 (fst (end_of_line g))"
proof -
  note d = at_posD [OF assms(2)]
  have t: "unat (dePixelPorch g) < p" "unat (dePixelWidth g) < p" "unat (deLinePorch g) < unat (deLineWidth g)"
    "unat (deLineWidth g) \<le> unat (deLineEnd g)"
    using assms(1,3) by (simp_all add: timing_ok_def word_less_nat_alt word_le_nat_alt)
  have hs: "\<not> hg_hsync (fst (end_of_line g))" unfolding end_of_line_fields d(5) using t by auto
  show ?thesis
  proof (cases "l = unat (deLineEnd g)")
    case True
    have "\<not> hg_vsync (fst (end_of_line g))" unfolding end_of_line_fields d(6) using t True by auto
    with True hs show ?thesis unfolding at_pos_def line_timing by (auto simp: end_of_line_fields d(7))
  next
    case False
    have s: "unat (lineCount (fst (end_of_line g))) = Suc l"
      using d(1) assms(4) False unat_succ_less [of "lineCount g" "deLineEnd g"] by (simp add: end_of_line_fields d(7))
    have "hg_vsync (fst (end_of_line g)) =
        (if Suc l < unat (deLinePorch g) \<or> Suc l = unat (deLinePorch g) \<and> (0::nat) = 0 then vs
         else Suc l < unat (deLineWidth g) \<or> Suc l = unat (deLineWidth g) \<and> (0::nat) = 0)"
      unfolding end_of_line_fields d(6) using t by auto
    moreover have "lineVisible (fst (end_of_line g)) = (unat (deLineVisible g) < Suc l)"
      unfolding end_of_line_fields d(3,7) using False by auto
    ultimately show ?thesis
      using False hs unfolding at_pos_def line_timing s by (simp add: end_of_line_fields(2,4))
  qed
qed

lemma at_pos_tick:
  "at_pos hs vs l p (fst (hdmi_tick inp g)) = at_pos hs vs l p (fst (inc_counters g))"
  by (simp add: hdmi_tick_def at_pos_def split: prod.split)

lemma same_timing_trans: "same_timing g h \<Longrightarrow> same_timing h k \<Longrightarrow> same_timing g k"
  by (simp add: same_timing_def)

text \<open>
  The position is the number of clocks in the mixed radix of lines and pixels: a line has one
  clock more than the number in \<^verbatim>\<open>dePixelEnd\<close>, a frame one line more than the number in \<^verbatim>\<open>deLineEnd\<close>.
\<close>

lemma mixed_radix_Suc:
  fixes k H :: nat
  shows "k mod Suc H < H \<Longrightarrow> Suc k mod Suc H = Suc (k mod Suc H) \<and> Suc k div Suc H = k div Suc H"
    and "k mod Suc H = H \<Longrightarrow> Suc k mod Suc H = 0 \<and> Suc k div Suc H = Suc (k div Suc H)"
  by (auto simp: mod_Suc div_Suc)

lemma hdmi_run_pos:
  assumes "timing_ok g" and "at_pos hs0 vs0 0 0 g"
  shows "same_timing g (hdmi_run inps g) \<and>
    (\<exists>hs vs. (Suc (unat (dePixelEnd g)) * Suc (unat (deLineEnd g)) \<le> length inps \<longrightarrow> \<not> hs \<and> \<not> vs) \<and>
      at_pos hs vs (length inps div Suc (unat (dePixelEnd g)) mod Suc (unat (deLineEnd g)))
             (length inps mod Suc (unat (dePixelEnd g))) (hdmi_run inps g))"
proof (induction inps rule: rev_induct)
  case Nil
  then show ?case using assms(2) by (auto simp: same_timing_def)
next
  case (snoc inp inps)
  let ?H = "unat (dePixelEnd g)" and ?V = "unat (deLineEnd g)" and ?k = "length inps" and ?h = "hdmi_run inps g"
  from snoc obtain hs vs where st: "same_timing g ?h" and pos: "at_pos hs vs (?k div Suc ?H mod Suc ?V) (?k mod Suc ?H) ?h"
    and fst: "Suc ?H * Suc ?V \<le> ?k \<longrightarrow> \<not> hs \<and> \<not> vs" by auto
  have ok: "timing_ok ?h" and e: "dePixelEnd ?h = dePixelEnd g" "deLineEnd ?h = deLineEnd g"
    using st assms(1) by (simp_all add: same_timing_def timing_ok_def)
  have "\<exists>hs vs. (Suc ?H * Suc ?V \<le> Suc ?k \<longrightarrow> \<not> hs \<and> \<not> vs) \<and>
      at_pos hs vs (Suc ?k div Suc ?H mod Suc ?V) (Suc ?k mod Suc ?H) (fst (inc_counters ?h))"
  proof (cases "?k mod Suc ?H = ?H")
    case True
    then have i: "inc_counters ?h = end_of_line ?h" using at_posD(8) [OF pos] e by (simp add: inc_counters_def)
    have "?k div Suc ?H mod Suc ?V \<le> ?V" using mod_less_divisor [of "Suc ?V"] by (simp add: less_Suc_eq_le)
    note nx = end_of_line_pos [OF ok pos, unfolded e, OF True this]
    show ?thesis
    proof (cases "?k div Suc ?H mod Suc ?V = ?V")
      case V: True
      with nx mixed_radix_Suc(2) [OF True] i show ?thesis by (intro exI [of _ False]) (simp add: mod_Suc)
    next
      case V: False
      have "Suc ?k \<noteq> Suc ?H * Suc ?V"
      proof
        assume "Suc ?k = Suc ?H * Suc ?V"
        then have "Suc ?k div Suc ?H = Suc ?V" by (metis nonzero_mult_div_cancel_left nat.simps(3))
        with mixed_radix_Suc(2) [OF True] V show False by simp
      qed
      with fst nx mixed_radix_Suc(2) [OF True] V i show ?thesis
        by (intro exI [of _ hs] exI [of _ vs]) (simp add: mod_Suc)
    qed
  next
    case False
    then have l: "?k mod Suc ?H < ?H" by (metis less_Suc_eq mod_less_divisor zero_less_Suc)
    then have i: "inc_counters ?h = within_line ?h" using at_posD(8) [OF pos] e by (simp add: inc_counters_def)
    have "Suc ?k \<noteq> Suc ?H * Suc ?V" using mixed_radix_Suc(1) [OF l] by (metis mod_mult_self1_is_0 nat.simps(3))
    with fst within_line_pos [OF ok pos] mixed_radix_Suc(1) [OF l] l e i show ?thesis
      by (intro exI [of _ hs] exI [of _ vs]) simp
  qed
  then show ?case
    using same_timing_trans [OF st tick_same_timing] by (simp add: at_pos_tick)
qed

section \<open>The generator finds the frame from any state\<close>

definition next_count :: "hdmi_gen \<Rightarrow> 11 word \<times> 12 word \<Rightarrow> 11 word \<times> 12 word" where
  "next_count c = (\<lambda>(l, p). if p = dePixelEnd c then (if l = deLineEnd c then 0 else l + 1, 0) else (l, p + 1))"

lemma tick_counts:
  assumes "same_timing c g"
  shows "(lineCount (fst (hdmi_tick inp g)), pixelCount (fst (hdmi_tick inp g))) = next_count c (lineCount g, pixelCount g)"
  using assms
  by (auto simp: hdmi_tick_def inc_counters_def within_line_def end_of_line_def Let_def next_count_def same_timing_def)

lemma tick_frame_end:
  assumes "lineCount g = deLineEnd g" and "pixelCount g = dePixelEnd g"
  shows "at_pos (hg_hsync g) (hg_vsync g) 0 0 (fst (hdmi_tick inp g))"
  using assms by (auto simp: hdmi_tick_def inc_counters_def end_of_line_def Let_def at_pos_def)

lemma word_distance_succ:
  assumes "(x :: 'a::len word) \<noteq> y"
  shows "unat (y - (x + 1)) < unat (y - x)"
proof -
  have "y - x \<noteq> 0" using assms by simp
  then have "0 < unat (y - x)" by (simp add: unat_gt_0)
  moreover have "y - (x + 1) = (y - x) - 1" by simp
  ultimately show ?thesis by (metis \<open>y - x \<noteq> 0\<close> unat_minus_one diff_less less_numeral_extra(1))
qed

lemma finds_frame:
  "\<exists>n. \<forall>g inps. same_timing c g \<and> lineCount g = l \<and> pixelCount g = p \<and> length inps = n \<longrightarrow>
     (\<exists>hs vs. at_pos hs vs 0 0 (hdmi_run inps g))"
proof (induction "(unat (deLineEnd c - l), unat (dePixelEnd c - p))" arbitrary: l p
    rule: wf_induct_rule [OF wf_lex_prod [OF wf_less_than wf_less_than]])
  case 1
  show ?case
  proof (cases "l = deLineEnd c \<and> p = dePixelEnd c")
    case True
    have "\<exists>hs vs. at_pos hs vs 0 0 (hdmi_run inps g)"
      if a: "same_timing c g" "lineCount g = l" "pixelCount g = p" "length inps = 1" for g inps
    proof -
      obtain inp where "inps = [inp]" using a(4) by (auto simp: length_Suc_conv)
      with tick_frame_end [of g inp] a True show ?thesis by (auto simp: hdmi_run_def same_timing_def)
    qed
    then show ?thesis by blast
  next
    case False
    obtain l' p' where n: "next_count c (l, p) = (l', p')" by (rule prod.exhaust)
    have "((unat (deLineEnd c - l'), unat (dePixelEnd c - p')), (unat (deLineEnd c - l), unat (dePixelEnd c - p)))
        \<in> less_than <*lex*> less_than"
      using n False word_distance_succ [of l "deLineEnd c"] word_distance_succ [of p "dePixelEnd c"]
      by (auto simp: next_count_def split: if_splits)
    from 1 [OF this] obtain k where
      k: "\<And>g inps. same_timing c g \<Longrightarrow> lineCount g = l' \<Longrightarrow> pixelCount g = p' \<Longrightarrow> length inps = k \<Longrightarrow>
        \<exists>hs vs. at_pos hs vs 0 0 (hdmi_run inps g)" by blast
    have "\<exists>hs vs. at_pos hs vs 0 0 (hdmi_run inps g)"
      if a: "same_timing c g" "lineCount g = l" "pixelCount g = p" "length inps = Suc k" for g inps
    proof -
      obtain inp rest where i: "inps = inp # rest" "length rest = k" using a(4) by (auto simp: length_Suc_conv)
      have "same_timing c (fst (hdmi_tick inp g))" by (rule same_timing_trans [OF a(1) tick_same_timing])
      with k [of "fst (hdmi_tick inp g)" rest] tick_counts [OF a(1), of inp] n a i show ?thesis
        by (simp add: hdmi_run_def)
    qed
    then show ?thesis by blast
  qed
qed

section \<open>A monitor's timing\<close>

text \<open>
  A timing the generator can show: the sync pulses are not empty and lie in the blanking, and the
  totals fit the counters.
\<close>

definition edid_sane :: "edid_detailed_timing \<Rightarrow> bool" where
  "edid_sane t \<longleftrightarrow>
     0 < unat (hsyncwidth t) \<and> unat (hsyncoff t) + unat (hsyncwidth t) < unat (bpixels t) \<and>
     0 < unat (npixels t) \<and> unat (bpixels t) + unat (npixels t) \<le> 4096 \<and>
     0 < unat (vsyncwidth t) \<and> unat (vsyncoff t) + unat (vsyncwidth t) \<le> unat (blines t) \<and>
     unat (blines t) + unat (nlines t) < 2048"

lemma unat_of_int_nat: "0 \<le> i \<Longrightarrow> i < 2 ^ LENGTH('a) \<Longrightarrow> unat (of_int i :: 'a::len word) = nat i"
  using unat_of_nat_less [of "nat i", where ?'a = 'a] by (simp add: nat_less_iff)

lemma set_timing_fields:
  assumes "edid_sane t"
  shows "unat (dePixelEnd (set_timing t g)) = unat (bpixels t) + unat (npixels t) - 1"
    "unat (dePixelWidth (set_timing t g)) = unat (hsyncoff t) + unat (hsyncwidth t)"
    "unat (dePixelPorch (set_timing t g)) = unat (hsyncoff t)"
    "unat (dePixelVisible (set_timing t g)) = unat (bpixels t) - 1"
    "unat (deLineEnd (set_timing t g)) = unat (blines t) + unat (nlines t)"
    "unat (deLineWidth (set_timing t g)) = unat (vsyncoff t) + unat (vsyncwidth t)"
    "unat (deLinePorch (set_timing t g)) = unat (vsyncoff t)"
    "unat (deLineVisible (set_timing t g)) = unat (blines t)"
proof -
  have nat_of: "\<exists>n. uint x = int n \<and> unat x = n" for x :: u16 by simp
  obtain B N where bn: "uint (bpixels t) = int B" "unat (bpixels t) = B" "uint (npixels t) = int N" "unat (npixels t) = N"
    using nat_of by metis
  obtain HO HW where h: "uint (hsyncoff t) = int HO" "unat (hsyncoff t) = HO" "uint (hsyncwidth t) = int HW" "unat (hsyncwidth t) = HW"
    using nat_of by metis
  obtain BL NL where bl: "uint (blines t) = int BL" "unat (blines t) = BL" "uint (nlines t) = int NL" "unat (nlines t) = NL"
    using nat_of by metis
  obtain VO VW where v: "uint (vsyncoff t) = int VO" "unat (vsyncoff t) = VO" "uint (vsyncwidth t) = int VW" "unat (vsyncwidth t) = VW"
    using nat_of by metis
  note eqs = bn h bl v
  have p: "unat (of_int i :: 12 word) = nat i" if "0 \<le> i" "i < 4096" for i
    using unat_of_int_nat [OF that(1), where ?'a = 12] that(2) by simp
  have l: "unat (of_int i :: 11 word) = nat i" if "0 \<le> i" "i < 2048" for i
    using unat_of_int_nat [OF that(1), where ?'a = 11] that(2) by simp
  show "unat (dePixelEnd (set_timing t g)) = unat (bpixels t) + unat (npixels t) - 1"
    "unat (dePixelWidth (set_timing t g)) = unat (hsyncoff t) + unat (hsyncwidth t)"
    "unat (dePixelPorch (set_timing t g)) = unat (hsyncoff t)"
    "unat (dePixelVisible (set_timing t g)) = unat (bpixels t) - 1"
    "unat (deLineEnd (set_timing t g)) = unat (blines t) + unat (nlines t)"
    "unat (deLineWidth (set_timing t g)) = unat (vsyncoff t) + unat (vsyncwidth t)"
    "unat (deLinePorch (set_timing t g)) = unat (vsyncoff t)"
    "unat (deLineVisible (set_timing t g)) = unat (blines t)"
    using assms
    by (simp_all add: set_timing_def setDePixel_def setDeLine_def Let_def edid_sane_def eqs p l nat_add_distrib
        del: of_int_add of_int_diff of_int_of_nat_eq) arith
qed

lemma same_timing_refl: "same_timing g g"
  by (simp add: same_timing_def)

lemma hdmi_run_same_timing: "same_timing g (hdmi_run inps g)"
proof (induction inps rule: rev_induct)
  case (snoc inp inps)
  then show ?case using same_timing_trans [OF _ tick_same_timing] by simp
qed (simp add: same_timing_def)

lemma lex_linear: "p < W \<Longrightarrow> l * W + p \<le> v * W \<longleftrightarrow> l < v \<or> l = v \<and> p = (0 :: nat)"
proof (cases "l < v")
  case True
  assume "p < W"
  have "Suc l * W \<le> v * W" using True by (intro mult_le_mono1) simp
  with \<open>p < W\<close> True show ?thesis by simp
next
  case False
  assume "p < W"
  show ?thesis
  proof (cases "l = v")
    case l: False
    with False have "Suc v * W \<le> l * W" by (intro mult_le_mono1) simp
    with \<open>p < W\<close> False l show ?thesis by simp
  qed simp
qed

lemma frame_shift:
  "0 < W \<Longrightarrow> (W * L + k) div W mod L = k div W mod (L :: nat)" "0 < W \<Longrightarrow> (W * L + k) mod W = k mod (W :: nat)"
  by simp_all

lemma frame_radix:
  assumes "0 < (W :: nat)"
  shows "k mod (W * L) div W = k div W mod L" "k mod (W * L) mod W = k mod W" "k div W mod L * W + k mod W = k mod (W * L)"
  using assms by (simp_all add: mod_mult2_eq)

lemma frame_found:
  assumes "timing_ok g"
  shows "\<exists>n. \<forall>inps. n \<le> length inps \<longrightarrow>
    same_timing g (hdmi_run inps g) \<and>
    at_pos False False ((length inps - n) div Suc (unat (dePixelEnd g)) mod Suc (unat (deLineEnd g)))
      ((length inps - n) mod Suc (unat (dePixelEnd g))) (hdmi_run inps g)"
proof -
  let ?W = "Suc (unat (dePixelEnd g))" and ?L = "Suc (unat (deLineEnd g))"
  obtain n where n: "\<And>inps. length inps = n \<Longrightarrow> \<exists>hs vs. at_pos hs vs 0 0 (hdmi_run inps g)"
    using finds_frame [of g "lineCount g" "pixelCount g"] same_timing_refl [of g] by blast
  have "same_timing g (hdmi_run inps g) \<and>
      at_pos False False ((length inps - (n + ?W * ?L)) div ?W mod ?L) ((length inps - (n + ?W * ?L)) mod ?W) (hdmi_run inps g)"
    if len: "n + ?W * ?L \<le> length inps" for inps
  proof -
    let ?h = "hdmi_run (take n inps) g" and ?rest = "drop n inps" and ?k = "length inps - (n + ?W * ?L)"
    have run: "hdmi_run inps g = hdmi_run ?rest ?h"
      by (metis append_take_drop_id hdmi_run_def fold_append comp_apply)
    obtain hs vs where pos: "at_pos hs vs 0 0 ?h" using n [of "take n inps"] len by auto
    have st: "same_timing g ?h" by (rule hdmi_run_same_timing)
    then have ok: "timing_ok ?h" and e: "dePixelEnd ?h = dePixelEnd g" "deLineEnd ?h = deLineEnd g"
      using assms by (simp_all add: same_timing_def timing_ok_def)
    have k: "length ?rest = ?W * ?L + ?k" using len by simp
    have "(?W * ?L + ?k) div ?W mod ?L = ?k div ?W mod ?L" "(?W * ?L + ?k) mod ?W = ?k mod ?W"
      by (rule frame_shift [OF zero_less_Suc])+
    with hdmi_run_pos [OF ok pos, of ?rest] same_timing_trans [OF st] show ?thesis
      unfolding run e k by (auto simp del: mult_Suc mult_Suc_right)
  qed
  then show ?thesis by blast
qed

lemma frame_signals:
  assumes "edid_sane t" and "same_timing (set_timing t g) h" and "at_pos False False l p h"
    and "p < unat (bpixels t) + unat (npixels t)"
  shows "dataEnable h = (unat (blines t) < l \<and> unat (bpixels t) \<le> p)"
    and "hg_hsync h = (unat (hsyncoff t) < p \<and> p \<le> unat (hsyncoff t) + unat (hsyncwidth t))"
    and "hg_vsync h = (unat (vsyncoff t) * (unat (bpixels t) + unat (npixels t)) < l * (unat (bpixels t) + unat (npixels t)) + p \<and>
      l * (unat (bpixels t) + unat (npixels t)) + p \<le>
        (unat (vsyncoff t) + unat (vsyncwidth t)) * (unat (bpixels t) + unat (npixels t)))"
proof -
  note f = set_timing_fields [OF assms(1), of g]
  have e: "unat (dePixelWidth h) = unat (hsyncoff t) + unat (hsyncwidth t)" "unat (dePixelPorch h) = unat (hsyncoff t)"
    "unat (dePixelVisible h) = unat (bpixels t) - 1" "unat (deLineWidth h) = unat (vsyncoff t) + unat (vsyncwidth t)"
    "unat (deLinePorch h) = unat (vsyncoff t)" "unat (deLineVisible h) = unat (blines t)"
    using assms(2) f by (simp_all add: same_timing_def)
  note d = at_posD [OF assms(3), unfolded e]
  show "dataEnable h = (unat (blines t) < l \<and> unat (bpixels t) \<le> p)" using d(4) assms(1) by (auto simp: edid_sane_def)
  show "hg_hsync h = (unat (hsyncoff t) < p \<and> p \<le> unat (hsyncoff t) + unat (hsyncwidth t))" using d(5) by auto
  have "hg_vsync h = (\<not> (l < unat (vsyncoff t) \<or> l = unat (vsyncoff t) \<and> p = 0) \<and>
      (l < unat (vsyncoff t) + unat (vsyncwidth t) \<or> l = unat (vsyncoff t) + unat (vsyncwidth t) \<and> p = 0))"
    using d(6) by auto
  then show "hg_vsync h = (unat (vsyncoff t) * (unat (bpixels t) + unat (npixels t)) < l * (unat (bpixels t) + unat (npixels t)) + p \<and>
      l * (unat (bpixels t) + unat (npixels t)) + p \<le>
        (unat (vsyncoff t) + unat (vsyncwidth t)) * (unat (bpixels t) + unat (npixels t)))"
    unfolding lex_linear [OF assms(4), symmetric] not_le .
qed

section \<open>Properties\<close>



end
