(* ===== verification/Image_Capture.thy ===== *)
theory Image_Capture
  imports Hdmi_Gen Portal_Core
begin

text \<open>
  The camera example \<^verbatim>\<open>examples/imageon/testimagecapture.cpp\<close>: the sensor is set up over a serial
  bus of registers (SPI), the deserialiser is aligned, and the monitor's timing is set.
\<close>

section \<open>The devices\<close>

text \<open>
  Requests without an answer.  The sensor and the deserialiser answer the other two kinds: a
  program that sent one waits for the semaphore that the indication posts, so a transfer is one
  step of the device.
\<close>

datatype cam_req =
    Set_serdes_training u32
  | Set_serdes_manual_tap u32
  | Set_iserdes_control u32
  | Set_decoder_control u32
  | Set_trigger_cnt_trigger u32
  | Set_host_oe u32
  | Set_i2c_mux_reset_n u32

record 'd cam_dev =
  cam_send :: "cam_req \<Rightarrow> 'd \<Rightarrow> 'd"
  cam_spi :: "u32 \<Rightarrow> 'd \<Rightarrow> u32 \<times> 'd"
  cam_iserdes :: "'d \<Rightarrow> u32 \<times> 'd"

definition spi_transfer :: "'d cam_dev \<Rightarrow> u32 \<Rightarrow> 'd \<Rightarrow> u32 \<times> 'd" where
  "spi_transfer dev v d = cam_spi dev v d"

definition read_iserdes_control :: "'d cam_dev \<Rightarrow> 'd \<Rightarrow> u32 \<times> 'd" where
  "read_iserdes_control dev d = cam_iserdes dev d"

definition vita_spi_read_internal :: "'d cam_dev \<Rightarrow> u32 \<Rightarrow> 'd \<Rightarrow> u32 \<times> 'd" where
  "vita_spi_read_internal dev uAddr d = spi_transfer dev (push_bit 17 uAddr) d"

text \<open>Tracing is off (\<^verbatim>\<open>trace_spi\<close> is 0 and never set).\<close>

definition spi_write_word :: "u32 \<Rightarrow> u16 \<Rightarrow> u32" where
  "spi_write_word uAddr uData = push_bit 17 uAddr OR push_bit 16 1 OR ucast uData"

definition vita_spi_write :: "'d cam_dev \<Rightarrow> u32 \<Rightarrow> u16 \<Rightarrow> 'd \<Rightarrow> 'd" where
  "vita_spi_write dev uAddr uData d =
     snd (spi_transfer dev (spi_write_word uAddr uData) d)"

definition vita_spi_read :: "'d cam_dev \<Rightarrow> u32 \<Rightarrow> 'd \<Rightarrow> u16 \<times> 'd" where
  "vita_spi_read dev uAddr d = (case vita_spi_read_internal dev uAddr d of (ret, d') \<Rightarrow> (ucast ret, d'))"

section \<open>Register tables\<close>

type_synonym spi_config = "(u16 \<times> u16 \<times> u16) list"

definition vita_spi_seq1 :: spi_config where
  "vita_spi_seq1 = [
   (2, 0xFFFF, 0),
   (32, 0xFFFF, 0x2004),
   (20, 0xFFFF, 0),
   (17, 0xFFFF, 0x2113),
   (26, 0xFFFF, 0x2280),
   (27, 0xFFFF, 0x3D2D),
   (8, 0xFFFF, 0),
   (16, 0xFFFF, 0x0003)]"

definition vita_spi_seq3 :: spi_config where
  "vita_spi_seq3 = [
   (9, 0xFFFF, 0),
   (32, 0xFFFF, 0x2006),
   (34, 0xFFFF, 0x0001)]"

definition vita_spi_seq4 :: spi_config where
  "vita_spi_seq4 = [
   (41, 0xFFFF, 0),
   (129, 0x2000, 0),
   (65, 0xFFFF, 0x288B),
   (66, 0xFFFF, 0x53C6),
   (67, 0xFFFF, 0x0344),
   (68, 0xFFFF, 0x0085),
   (70, 0xFFFF, 0x4888),
   (81, 0xFFFF, 0x86A1),
   (128, 0xFFFF, 0x460F),
   (176, 0xFFFF, 0x00F5),
   (180, 0xFFFF, 0x00FD),
   (181, 0xFFFF, 0x0144),
   (194, 0xFFFF, 0x0404),
   (218, 0xFFFF, 0x160B),
   (224, 0xFFFF, 0x3E13),
   (391, 0xFFFF, 0x1010),
   (456, 0xFFFF, 0x0386)]"

definition vita_spi_seq5 :: spi_config where
  "vita_spi_seq5 = [
   (32, 0xFFFF, 0x2007),
   (10, 0xFFFF, 0),
   (64, 0xFFFF, 0x0001),
   (72, 0xFFFF, 0x0203),
   (40, 0xFFFF, 0x0003),
   (48, 0xFFFF, 0x0001),
   (112, 0xFFFF, 0x0007)]"

text \<open>The table of the default build.\<close>

definition vita_spi_seq6 :: spi_config where
  "vita_spi_seq6 = [(192, 0x0001, 0x0001), (193, 0xFF00, 0)]"

definition vita_autoexp_on_seq :: spi_config where
  "vita_autoexp_on_seq = [(160, 0x0001, 0x0001)]"

definition vita_roi0_crop_1080p_seq :: spi_config where
  "vita_roi0_crop_1080p_seq = [(257, 0xFFFF, 0x003C), (258, 0xFFFF, 0x0474)]"

definition vita_mult_timer_line_resolution_seq :: spi_config where
  "vita_mult_timer_line_resolution_seq = [(199, 0xFFFF, 0x0222)]"

text \<open>The first pass reads the registers that are changed in part; what it reads is not used.\<close>

fun read_masked :: "'d cam_dev \<Rightarrow> spi_config \<Rightarrow> 'd \<Rightarrow> 'd" where
  "read_masked dev [] d = d"
| "read_masked dev ((a, m, v) # cs) d =
     read_masked dev cs (if m \<noteq> 0xFFFF then snd (vita_spi_read dev (ucast a) d) else d)"

fun write_masked :: "'d cam_dev \<Rightarrow> spi_config \<Rightarrow> 'd \<Rightarrow> 'd" where
  "write_masked dev [] d = d"
| "write_masked dev ((a, m, v) # cs) d =
     write_masked dev cs
       (if m = 0xFFFF then vita_spi_write dev (ucast a) v d
        else case vita_spi_read dev (ucast a) d of (r, d') \<Rightarrow>
               vita_spi_write dev (ucast a) ((r AND NOT m) OR v) d')"

definition vita_spi_write_sequence :: "'d cam_dev \<Rightarrow> spi_config \<Rightarrow> 'd \<Rightarrow> 'd" where
  "vita_spi_write_sequence dev pConfig d = write_masked dev pConfig (read_masked dev pConfig d)"

section \<open>Starting the sensor\<close>

text \<open>\<^verbatim>\<open>while (!done(v) && --timeout) v = read()\<close>: the timeout left, the last value.\<close>

function poll_loop :: "('d \<Rightarrow> 'v \<times> 'd) \<Rightarrow> ('v \<Rightarrow> bool) \<Rightarrow> nat \<Rightarrow> 'v \<Rightarrow> 'd \<Rightarrow> nat \<times> 'v \<times> 'd" where
  "poll_loop rd fin timeout v d =
     (if fin v then (timeout, v, d)
      else if timeout \<le> 1 then (0, v, d)
      else case rd d of (v', d') \<Rightarrow> poll_loop rd fin (timeout - 1) v' d')"
  by pat_completeness auto
termination
  by (relation "measure (\<lambda>(rd, fin, timeout, v, d). timeout)") auto

declare poll_loop.simps [simp del]

datatype ipipe_result = Unsupported_sensor u16 | No_pll_lock | No_align_busy | Started bool

definition reset_serdes :: "'d cam_dev \<Rightarrow> 'd \<Rightarrow> 'd" where
  "reset_serdes dev d =
     fold (cam_send dev)
       [Set_serdes_training 0x03A6, Set_serdes_manual_tap 25,
        Set_iserdes_control 0x01, Set_decoder_control 0x01,
        Set_iserdes_control 0, Set_decoder_control 0] d"

text \<open>From the alignment of the deserialiser on; the second wait may run out without stopping.\<close>

definition configure_stream :: "'d cam_dev \<Rightarrow> 'd \<Rightarrow> 'd" where
  "configure_stream dev d =
     (let d1 = snd (read_iserdes_control dev d);
          d2 = vita_spi_write_sequence dev vita_roi0_crop_1080p_seq d1;
          d3 = vita_spi_write_sequence dev vita_mult_timer_line_resolution_seq d2;
          d4 = vita_spi_write_sequence dev vita_autoexp_on_seq d3;
          d5 = vita_spi_write_sequence dev vita_spi_seq6 d4;
          d6 = cam_send dev (Set_decoder_control 0x02) (cam_send dev (Set_iserdes_control 0x08) d5);
          d7 = fold (\<lambda>(a, v). vita_spi_write dev a v)
                 [(192, 0), (193, 0x0400), (192, 0x40), (199, 1), (200, 0), (194, 0), (257, 0x3C), (258, 0x0474), (160, 0x10)] d6;
          freq = drop_bit 2 ((1920 + 88 + 44 + 148) * (1080 + 4 + 5 + 36)) - 2 :: u32;
          d8 = cam_send dev (Set_trigger_cnt_trigger ((freq * (100 - 90)) div 100 + 1)) d7;
          d9 = vita_spi_write dev 0x29 0x0700 (vita_spi_write dev 194 0x0400 d8)
      in case vita_spi_read dev 192 d9 of (r, d10) \<Rightarrow>
           vita_spi_write dev 192 ((r OR 0x71) OR push_bit 11 4) d10)"

definition align_stream :: "'d cam_dev \<Rightarrow> 'd \<Rightarrow> ipipe_result \<times> 'd" where
  "align_stream dev d =
     (let rd = read_iserdes_control dev;
          d1 = snd (rd (snd (rd (snd (rd d)))));
          d2 = cam_send dev (Set_iserdes_control 0x04) d1
      in case rd d2 of (s, d3) \<Rightarrow>
         case poll_loop rd (\<lambda>u. u AND 0x0200 \<noteq> 0) 9 s d3 of (timeout, s', d4) \<Rightarrow>
         if timeout = 0 then (No_align_busy, d4)
         else case rd (cam_send dev (Set_iserdes_control 0) d4) of (s2, d5) \<Rightarrow>
              case poll_loop rd (\<lambda>u. u AND 0x0200 = 0) 9 s2 d5 of (timeout2, s3, d6) \<Rightarrow>
                (Started (timeout2 \<noteq> 0), configure_stream dev d6))"

definition fmc_imageon_demo_enable_ipipe :: "'d cam_dev \<Rightarrow> 'd \<Rightarrow> ipipe_result \<times> 'd" where
  "fmc_imageon_demo_enable_ipipe dev d =
     (case vita_spi_read dev 0 (reset_serdes dev d) of (uData, d1) \<Rightarrow>
      if uData \<noteq> 0x5614 then (Unsupported_sensor uData, d1)
      else case poll_loop (vita_spi_read dev 24) (\<lambda>uLock. uLock \<noteq> 0) 10 0 (vita_spi_write_sequence dev vita_spi_seq1 d1) of
             (timeout, uLock, d2) \<Rightarrow>
               if timeout = 0 then (No_pll_lock, d2)
               else align_stream dev
                      (vita_spi_write_sequence dev vita_spi_seq5
                        (vita_spi_write_sequence dev vita_spi_seq4
                          (vita_spi_write_sequence dev vita_spi_seq3 d2))))"

section \<open>The program\<close>

text \<open>The monitor's EDID is read byte by byte from the transmitter.\<close>

definition read_edid :: "'b i2c_io \<Rightarrow> 'b \<Rightarrow> u8 list \<times> 'b" where
  "read_edid io b =
     (case i2c_open io ''/dev/i2c-0'' b of (i2cfd, b0) \<Rightarrow>
        fold (\<lambda>i (raw, b). case i2c_read_reg io i2cfd 0x3f (of_nat i) b of (v, b') \<Rightarrow> (raw @ [v], b')) [0..<256] ([], b0))"

definition fmc_imageon_demo_init ::
    "bool \<Rightarrow> 'b i2c_io \<Rightarrow> 'd cam_dev \<Rightarrow> 'b \<times> hdmi_gen \<times> 'd \<Rightarrow> (ipipe_result \<times> 'b \<times> hdmi_gen \<times> 'd) kresult" where
  "fmc_imageon_demo_init zedboard io dev = (\<lambda>(b, g, c).
     (let c1 = cam_send dev (Set_host_oe 1) c in
      case init_i2c_camera io b of
        Inl f \<Rightarrow> Inl f
      | Inr (_, _, _, b1) \<Rightarrow>
          (case init_i2c_hdmi zedboard io b1 of
             Inl f \<Rightarrow> Inl f
           | Inr (_, _, _, b2) \<Rightarrow>
               (case fmc_imageon_demo_enable_ipipe dev c1 of (r, c2) \<Rightarrow> Inr (r, b2, setTestPattern False g, c2)))))"

text \<open>
  \<^verbatim>\<open>main\<close> up to its endless printing loop: the clock rates asked for, the outcome of the camera, and
  the devices.  The lines and pixels stay 1080 and 1920 without a suitable timing.
\<close>

definition capture_main ::
    "bool \<Rightarrow> 'b i2c_io \<Rightarrow> 'd cam_dev \<Rightarrow> 'b \<times> hdmi_gen \<times> 'd \<Rightarrow>
     ((int \<times> int) list \<times> ipipe_result \<times> 'b \<times> hdmi_gen \<times> 'd) kresult" where
  "capture_main zedboard io dev = (\<lambda>(b, g, c).
     (case init_i2c_hdmi zedboard io b of
        Inl f \<Rightarrow> Inl f
      | Inr (_, _, _, b1) \<Rightarrow>
          (case read_edid io b1 of (raw, b2) \<Rightarrow>
             (let timing = fst (parseEdid raw);
                  clocks = [(0, 100000000), (1, 160000000), (3, 200000000)];
                  c1 = cam_send dev (Set_i2c_mux_reset_n 1) c;
                  (clocks', g1) = (case select_timing 148000000 timing of
                                     None \<Rightarrow> (clocks, g)
                                   | Some t \<Rightarrow> (clocks @ [(1, pixel_clock t)], set_timing t g));
                  g2 = setTestPattern True g1
              in case fmc_imageon_demo_init zedboard io dev (b2, g2, c1) of
                   Inl f \<Rightarrow> Inl f
                 | Inr (r, b3, g3, c2) \<Rightarrow> Inr (clocks', r, b3, waitForVsync g3, c2)))))"

text \<open>The handler of the generator's vsync indication asks for the next one.\<close>

definition capture_vsync :: "hdmi_gen \<Rightarrow> hdmi_gen" where
  "capture_vsync g = waitForVsync g"

section \<open>A sensor of registers\<close>

text \<open>
  What the sensor's documentation promises: a word on the bus has the register in its upper 15
  bits, then the write bit, then 16 bits of data.  Registers 0 (chip id) and 24 (lock) are the
  sensor's own; the others change by writes only, and reading gives their contents.
\<close>

definition spi_sensor :: "'d cam_dev \<Rightarrow> ('d \<Rightarrow> u32 \<Rightarrow> u16) \<Rightarrow> bool" where
  "spi_sensor dev regs \<longleftrightarrow>
     (\<forall>w d b. b \<noteq> 0 \<and> b \<noteq> 24 \<longrightarrow>
        regs (snd (cam_spi dev w d)) b = (if bit w 16 \<and> b = drop_bit 17 w then ucast w else regs d b)) \<and>
     (\<forall>w d. \<not> bit w 16 \<and> drop_bit 17 w \<noteq> 0 \<and> drop_bit 17 w \<noteq> 24 \<longrightarrow>
        ucast (fst (cam_spi dev w d)) = regs d (drop_bit 17 w)) \<and>
     (\<forall>r d b. regs (cam_send dev r d) b = regs d b) \<and>
     (\<forall>d b. regs (snd (cam_iserdes dev d)) b = regs d b)"

text \<open>The contents that matter: those of the configuration registers.\<close>

definition cfg :: "('d \<Rightarrow> u32 \<Rightarrow> u16) \<Rightarrow> 'd \<Rightarrow> u32 \<Rightarrow> u16" where
  "cfg regs d b = (if b = 0 \<or> b = 24 then 0 else regs d b)"

lemma spi_word:
  fixes a :: u32 and v :: u16
  assumes "unat a < 32768"
  shows "drop_bit 17 (spi_write_word a v) = a" and "bit (spi_write_word a v) 16" and "ucast (spi_write_word a v) = v"
    and "drop_bit 17 (push_bit 17 a) = a" and "\<not> bit (push_bit 17 a) 16"
proof -
  have "take_bit 15 a = a" using assms by (simp add: take_bit_word_id)
  then have hi: "bit a n \<Longrightarrow> n < 15" for n by (metis bit_take_bit_iff)
  have v: "bit v n \<Longrightarrow> n < 16" for n using bit_imp_le_length [of v n] by simp
  have w: "bit (spi_write_word a v) n = bit v n" if "n < 16" for n
    using that unfolding spi_write_word_def bit_or_iff bit_push_bit_iff by (simp add: bit_simps)
  show "drop_bit 17 (spi_write_word a v) = a" "drop_bit 17 (push_bit 17 a) = a"
    unfolding spi_write_word_def by (rule bit_word_eqI; auto simp: bit_simps dest: hi v)+
  show "bit (spi_write_word a v) 16" "\<not> bit (push_bit 17 a) 16"
    unfolding spi_write_word_def by (simp_all add: bit_simps)
  show "ucast (spi_write_word a v) = v"
    by (rule bit_word_eqI) (simp add: bit_ucast_iff w)
qed

lemma sensor_write:
  assumes "spi_sensor dev regs" and "unat a < 32768" and "a \<noteq> 0" and "a \<noteq> 24"
  shows "cfg regs (vita_spi_write dev a v d) = (cfg regs d)(a := v)"
  using assms(1,3,4) unfolding spi_sensor_def
  by (auto simp: fun_eq_iff cfg_def vita_spi_write_def spi_transfer_def spi_word [OF assms(2)])

lemma sensor_read:
  assumes "spi_sensor dev regs" and "unat a < 32768"
  shows "cfg regs (snd (vita_spi_read dev a d)) = cfg regs d"
    and "a \<noteq> 0 \<Longrightarrow> a \<noteq> 24 \<Longrightarrow> fst (vita_spi_read dev a d) = cfg regs d a"
  using assms(1) unfolding spi_sensor_def
  by (auto simp: fun_eq_iff cfg_def vita_spi_read_def vita_spi_read_internal_def spi_transfer_def split_beta
      spi_word [OF assms(2)])

lemma sensor_other:
  assumes "spi_sensor dev regs"
  shows "cfg regs (cam_send dev r d) = cfg regs d" and "cfg regs (snd (read_iserdes_control dev d)) = cfg regs d"
  using assms by (simp_all add: spi_sensor_def cfg_def read_iserdes_control_def fun_eq_iff)

text \<open>A table as a function on register contents.\<close>

definition apply_config :: "spi_config \<Rightarrow> (u32 \<Rightarrow> u16) \<Rightarrow> u32 \<Rightarrow> u16" where
  "apply_config = fold (\<lambda>(a, m, v) r. r(ucast a := if m = 0xFFFF then v else (r (ucast a) AND NOT m) OR v))"

definition config_ok :: "spi_config \<Rightarrow> bool" where
  "config_ok cs \<longleftrightarrow> (\<forall>(a, m, v) \<in> set cs. unat a < 32768 \<and> a \<noteq> 0 \<and> a \<noteq> 24)"

lemma config_ok_simps [simp]:
  "config_ok []" "config_ok ((a, m, v) # cs) \<longleftrightarrow> unat a < 32768 \<and> a \<noteq> 0 \<and> a \<noteq> 24 \<and> config_ok cs"
  by (auto simp: config_ok_def)

lemma apply_config_simps [simp]:
  "apply_config [] r = r"
  "apply_config ((a, m, v) # cs) r = apply_config cs (r(ucast a := if m = 0xFFFF then v else (r (ucast a) AND NOT m) OR v))"
  by (simp_all add: apply_config_def)

lemma addr16:
  fixes a :: u16
  assumes "unat a < 32768" and "a \<noteq> 0" and "a \<noteq> 24"
  shows "unat (ucast a :: u32) < 32768" and "ucast a \<noteq> (0 :: u32)" and "ucast a \<noteq> (24 :: u32)"
proof -
  have u: "unat (ucast a :: u32) = unat a" using assms(1) by (simp add: unat_ucast_down)
  then show "unat (ucast a :: u32) < 32768" using assms(1) by simp
  have "unat (24 :: u16) = 24" "unat (24 :: u32) = 24" by simp_all
  with u assms(2,3) show "ucast a \<noteq> (0 :: u32)" "ucast a \<noteq> (24 :: u32)" by (metis unat_0 word_unat_eq_iff)+
qed

lemma read_masked_cfg: "spi_sensor dev regs \<Longrightarrow> config_ok cs \<Longrightarrow> cfg regs (read_masked dev cs d) = cfg regs d"
  by (induction dev cs d rule: read_masked.induct) (auto simp: sensor_read addr16)

lemma write_masked_cfg:
  "spi_sensor dev regs \<Longrightarrow> config_ok cs \<Longrightarrow> cfg regs (write_masked dev cs d) = apply_config cs (cfg regs d)"
proof (induction dev cs d rule: write_masked.induct)
  case (2 dev a m v cs d)
  have a: "unat (ucast a :: u32) < 32768" "ucast a \<noteq> (0 :: u32)" "ucast a \<noteq> (24 :: u32)"
    using 2(3) addr16 [of a] by auto
  obtain r d' where r: "vita_spi_read dev (ucast a) d = (r, d')" by (rule prod.exhaust)
  with sensor_read [OF 2(2) a(1), of d] a have "cfg regs d' = cfg regs d" "r = cfg regs d (ucast a)" by auto
  with 2 r a show ?case by (auto simp: sensor_write)
qed simp

lemma write_sequence_cfg:
  "spi_sensor dev regs \<Longrightarrow> config_ok cs \<Longrightarrow> cfg regs (vita_spi_write_sequence dev cs d) = apply_config cs (cfg regs d)"
  by (simp add: vita_spi_write_sequence_def write_masked_cfg read_masked_cfg)

lemma configs_ok [simp]:
  "config_ok vita_spi_seq1" "config_ok vita_spi_seq3" "config_ok vita_spi_seq4" "config_ok vita_spi_seq5" "config_ok vita_spi_seq6"
  "config_ok vita_autoexp_on_seq" "config_ok vita_roi0_crop_1080p_seq" "config_ok vita_mult_timer_line_resolution_seq"
  by (simp_all add: vita_spi_seq1_def vita_spi_seq3_def vita_spi_seq4_def vita_spi_seq5_def vita_spi_seq6_def
      vita_autoexp_on_seq_def vita_roi0_crop_1080p_seq_def vita_mult_timer_line_resolution_seq_def)

lemma poll_loop_keeps:
  "(\<And>d. P (snd (rd d)) = P d) \<Longrightarrow> P (snd (snd (poll_loop rd fin timeout v d))) = P d"
proof (induction rd fin timeout v d rule: poll_loop.induct)
  case (1 rd fin timeout v d)
  obtain v' d' where r: "rd d = (v', d')" by (rule prod.exhaust)
  then have "P d' = P d" using 1(2) [of d] by simp
  with 1 r show ?case by (subst poll_loop.simps) simp
qed

text \<open>A poll ends with some time left exactly when the awaited value was seen, after at most one read less than the timeout.\<close>

lemma poll_loop_result:
  assumes "0 < timeout"
  shows "\<exists>n < timeout. (snd (poll_loop rd fin timeout v d)) = ((\<lambda>(v, d). rd d) ^^ n) (v, d) \<and>
    (\<forall>m < n. \<not> fin (fst (((\<lambda>(v, d). rd d) ^^ m) (v, d)))) \<and>
    (if fst (poll_loop rd fin timeout v d) = 0 then n = timeout - 1 \<and> \<not> fin (fst (snd (poll_loop rd fin timeout v d)))
     else fin (fst (snd (poll_loop rd fin timeout v d))))"
  using assms
proof (induction rd fin timeout v d rule: poll_loop.induct)
  case (1 rd fin timeout v d)
  let ?step = "\<lambda>(v, d). rd d"
  consider "fin v" | "\<not> fin v" "timeout = 1" | "\<not> fin v" "1 < timeout" using 1(2) by linarith
  then show ?case
  proof cases
    case 3
    obtain v' d' where r: "rd d = (v', d')" by (rule prod.exhaust)
    have p: "poll_loop rd fin timeout v d = poll_loop rd fin (timeout - 1) v' d'"
      using 3 r by (subst poll_loop.simps) simp
    have s: "(?step ^^ Suc m) (v, d) = (?step ^^ m) (v', d')" for m
      using r by (simp add: funpow_Suc_right del: funpow.simps)
    from 1(1) [OF 3(1) _ r [symmetric]] 3(2) obtain n where n: "n < timeout - 1"
      "snd (poll_loop rd fin (timeout - 1) v' d') = (?step ^^ n) (v', d')"
      "\<forall>m < n. \<not> fin (fst ((?step ^^ m) (v', d')))"
      "if fst (poll_loop rd fin (timeout - 1) v' d') = 0
       then n = timeout - 1 - 1 \<and> \<not> fin (fst (snd (poll_loop rd fin (timeout - 1) v' d')))
       else fin (fst (snd (poll_loop rd fin (timeout - 1) v' d')))" by auto
    have "\<not> fin (fst ((?step ^^ m) (v, d)))" if "m < Suc n" for m
      using that n(3) s 3(1) by (cases m) auto
    with n s [of n] p 3(2) show ?thesis by (intro exI [of _ "Suc n"]) auto
  qed (use 1(2) in \<open>auto simp: poll_loop.simps intro!: exI [of _ 0]\<close>)
qed

lemma configure_stream_cfg:
  assumes s: "spi_sensor dev regs"
  shows "cfg regs (configure_stream dev d) =
    (apply_config (vita_roi0_crop_1080p_seq @ vita_mult_timer_line_resolution_seq @ vita_autoexp_on_seq @ vita_spi_seq6) (cfg regs d))
      (193 := 0x0400, 199 := 1, 200 := 0, 257 := 0x3C, 258 := 0x0474, 160 := 0x10, 194 := 0x0400, 41 := 0x0700, 192 := 0x2071)"
proof -
  have app: "apply_config (a @ b) x = apply_config b (apply_config a x)" for a b x by (simp add: apply_config_def)
  have rd192: "cfg regs (snd (vita_spi_read dev 192 d0)) = cfg regs d0" "fst (vita_spi_read dev 192 d0) = cfg regs d0 192" for d0
    using sensor_read [OF s, of 192 d0] by simp_all
  show ?thesis
    unfolding configure_stream_def Let_def split_beta
    by (simp add: sensor_write [OF s] rd192 sensor_other [OF s] write_sequence_cfg [OF s] app)
qed

section \<open>The program sets the monitor's timing\<close>

lemma set_timing_commute:
  "waitForVsync (setTestPattern x (setTestPattern y (set_timing t g))) =
   set_timing t (waitForVsync (setTestPattern x (setTestPattern y g)))"
  by (simp add: waitForVsync_def setTestPattern_def set_timing_def setDePixel_def setDeLine_def Let_def)

lemma demo_init_returns: "\<exists>r b' c'. fmc_imageon_demo_init zed io dev (b, g, c) = Inr (r, b', setTestPattern False g, c')"
proof -
  obtain x1 x2 x3 b1 where 1: "init_i2c_camera io b = Inr (x1, x2, x3, b1)"
    using init_i2c_returns(3) [of io b] by (metis prod.exhaust)
  obtain y1 y2 y3 b2 where 2: "init_i2c_hdmi zed io b1 = Inr (y1, y2, y3, b2)"
    using init_i2c_returns(1) [of zed io b1] by (metis prod.exhaust)
  with 1 show ?thesis by (auto simp: fmc_imageon_demo_init_def Let_def split: prod.split)
qed

text \<open>
  Whatever the bus and the camera do, the program gets to its loop, and the generator has the
  timing of the first suitable record of the bytes that were read.
\<close>

lemma capture_main_returns:
  "\<exists>clocks r b' raw c' b1. capture_main zed io dev (b, g, c) =
     Inr (clocks, r, b', (let g' = waitForVsync (setTestPattern False (setTestPattern True g)) in
       case select_timing 148000000 (fst (parseEdid raw)) of None \<Rightarrow> g' | Some t \<Rightarrow> set_timing t g'), c') \<and>
     raw = fst (read_edid io b1)"
proof -
  obtain y1 y2 y3 b1 where 1: "init_i2c_hdmi zed io b = Inr (y1, y2, y3, b1)"
    using init_i2c_returns(1) [of zed io b] by (metis prod.exhaust)
  obtain raw b2 where 2: "read_edid io b1 = (raw, b2)" by (rule prod.exhaust)
  let ?t = "select_timing 148000000 (fst (parseEdid raw))" and ?c = "cam_send dev (Set_i2c_mux_reset_n 1) c"
  let ?g = "setTestPattern True (case ?t of None \<Rightarrow> g | Some t \<Rightarrow> set_timing t g)"
  obtain r b' c' where "fmc_imageon_demo_init zed io dev (b2, ?g, ?c) = Inr (r, b', setTestPattern False ?g, c')"
    using demo_init_returns [of zed io dev b2 ?g ?c] by blast
  then show ?thesis
    using 1 2 set_timing_commute
    by (cases ?t) (auto simp: capture_main_def Let_def intro!: exI [of _ raw] exI [of _ b1])
qed

section \<open>Properties\<close>


text \<open>A camera with register contents and the control word of its deserialiser.\<close>

definition sample_cam :: "((u32 \<Rightarrow> u16) \<times> u32) cam_dev" where
  "sample_cam = \<lparr>
     cam_send = (\<lambda>r (m, c). case r of Set_iserdes_control v \<Rightarrow> (m, v) | _ \<Rightarrow> (m, c)),
     cam_spi = (\<lambda>w (m, c). if bit w 16 then (0, m(drop_bit 17 w := ucast w), c) else (ucast (m (drop_bit 17 w)), m, c)),
     cam_iserdes = (\<lambda>(m, c). (if c = 4 then 0x0200 else 0, m, c))\<rparr>"

definition sample_chip :: "(u32 \<Rightarrow> u16) \<times> u32" where
  "sample_chip = ((\<lambda>_. 0)(0 := 0x5614, 24 := 1), 0)"

lemma sample_cam_sensor: "spi_sensor sample_cam fst"
proof -
  have "ucast (ucast v :: u32) = v" for v :: u16 by (rule bit_word_eqI) (simp add: bit_simps)
  then show ?thesis by (auto simp: spi_sensor_def sample_cam_def split: cam_req.splits)
qed

lemma sample_cam_starts: "fst (fmc_imageon_demo_enable_ipipe sample_cam sample_chip) = Started True"
  by code_simp


end
