(* ===== verification/Yuv.thy ===== *)
theory Yuv
  imports Prelude
begin

text \<open>
  Colour conversion in hardware and software: the pipelines of \<^verbatim>\<open>lib/bsv/HDMI.bsv\<close>,
  \<^verbatim>\<open>lib/bsv/YUV.bsv\<close> and \<^verbatim>\<open>examples/yuv/YuvRequest.bsv\<close>, and the program \<^verbatim>\<open>examples/yuv/testyuv.cpp\<close> that
  compares them with its own arithmetic.
\<close>

section \<open>Pixels\<close>

datatype rgb888 = Rgb888 (red: u8) (green: u8) (blue: u8)

datatype yuv444 = Yuv444 (luma: u8) (chroma_u: u8) (chroma_v: u8)

text \<open>The fields of \<^verbatim>\<open>Rgb888\<close> are declared in the order red, blue, green, the first in the highest bits.\<close>

definition unpack_rgb :: "24 word \<Rightarrow> rgb888" where
  "unpack_rgb w = Rgb888 (ucast (drop_bit 16 w)) (ucast w) (ucast (drop_bit 8 w))"

text \<open>The program's version, in \<^verbatim>\<open>int\<close> arithmetic with an arithmetic shift, cut to bytes.\<close>

definition sw_rgbtoyuv :: "rgb888 \<Rightarrow> yuv444" where
  "sw_rgbtoyuv p =
     (let r = uint (red p); g = uint (green p); b = uint (blue p) in
      Yuv444 (of_int (drop_bit 8 (77 * r + 150 * g + 29 * b + 0)))
             (of_int (drop_bit 8 (- 43 * r - 85 * g + 128 * b + 128)))
             (of_int (drop_bit 8 (128 * r - 107 * g - 21 * b + 128))))"

text \<open>The function of \<^verbatim>\<open>YUV.bsv\<close>, in 16 bits.\<close>

definition hw_rgbtoyuv :: "rgb888 \<Rightarrow> yuv444" where
  "hw_rgbtoyuv p =
     (let r = ucast (red p) :: u16; g = ucast (green p) :: u16; b = ucast (blue p) :: u16;
          y = 77 * r + 150 * g + 29 * b + 0;
          u = - 43 * r - 85 * g + 128 * b + 128;
          v = 128 * r - 107 * g - 21 * b + 128
      in Yuv444 (ucast (drop_bit 8 y)) (ucast (drop_bit 8 u)) (ucast (drop_bit 8 v)))"

section \<open>The conversion in steps\<close>

type_synonym vec16 = "u16 list"

definition vadd :: "vec16 \<Rightarrow> vec16 \<Rightarrow> vec16" where
  "vadd = map2 (+)"

definition vmul :: "vec16 \<Rightarrow> vec16 \<Rightarrow> vec16" where
  "vmul = map2 (*)"

definition vrshift :: "vec16 \<Rightarrow> nat \<Rightarrow> vec16" where
  "vrshift xs i = map (drop_bit i) xs"

definition rgbToVector :: "rgb888 \<Rightarrow> vec16" where
  "rgbToVector p = [ucast (red p), ucast (green p), ucast (blue p)]"

definition yuv444FromVector :: "vec16 \<Rightarrow> yuv444" where
  "yuv444FromVector vec = Yuv444 (ucast (vec ! 0)) (ucast (vec ! 1)) (ucast (vec ! 2))"

definition yuv_coeffs :: "vec16 list" where
  "yuv_coeffs = [[77, 150, 29, 0], [- 43, - 85, 128, 128], [128, - 107, - 21, 128]]"

definition rgbToYuvIntermediates :: "rgb888 \<Rightarrow> vec16 list" where
  "rgbToYuvIntermediates p = transpose (map2 vmul (replicate 3 (rgbToVector p @ [1])) yuv_coeffs)"

definition yuvIntermediatesToYuv444 :: "vec16 list \<Rightarrow> yuv444" where
  "yuvIntermediatesToYuv444 w = yuv444FromVector (vrshift (vadd (vadd (w ! 0) (w ! 1)) (vadd (w ! 2) (w ! 3))) 8)"

text \<open>Halving the colour resolution; the second component takes the first pixel's \<^verbatim>\<open>u\<close>.\<close>

definition yuv444toyuv422 :: "yuv444 \<Rightarrow> yuv444 \<Rightarrow> u8 \<times> u8 \<times> u8 \<times> u8" where
  "yuv444toyuv422 p0 p1 =
     (let u = drop_bit 1 (ucast (chroma_u p0) + ucast (chroma_u p1)) :: 9 word;
          v = drop_bit 1 (ucast (chroma_u p0) + ucast (chroma_v p1)) :: 9 word
      in (luma p0, ucast u, luma p1, ucast v))"

section \<open>Pipelines\<close>

text \<open>A value with its data enable and sync signals.\<close>

datatype 'p vid = Vid (vde: bool) (vvs: bool) (vhs: bool) (vpx: 'p)

definition stage1 :: "rgb888 vid \<Rightarrow> vec16 list vid" where
  "stage1 p = Vid (vde p) (vvs p) (vhs p) (if vde p then rgbToYuvIntermediates (vpx p) else replicate 4 (replicate 3 0))"

definition stage2 :: "vec16 list vid \<Rightarrow> vec16 list vid" where
  "stage2 p = Vid (vde p) (vvs p) (vhs p)
     (if vde p then [vadd (vpx p ! 0) (vpx p ! 1), vadd (vpx p ! 2) (vpx p ! 3)] else replicate 2 (replicate 3 0))"

definition stage3 :: "vec16 list vid \<Rightarrow> yuv444 vid" where
  "stage3 p = Vid (vde p) (vvs p) (vhs p)
     (if vde p then yuv444FromVector (vrshift (vadd (vpx p ! 0) (vpx p ! 1)) 8) else Yuv444 0 0 0)"

text \<open>Two pixels share their chroma: every other one carries \<^verbatim>\<open>u\<close>.  The value is (uv, yy).\<close>

definition stage4 :: "bool \<Rightarrow> yuv444 vid \<Rightarrow> (u8 \<times> u8) vid" where
  "stage4 evenOdd p = Vid (vde p) (vvs p) (vhs p) (if evenOdd then chroma_u (vpx p) else chroma_v (vpx p), luma (vpx p))"

record yyuv_pipe =
  stage0Reg :: "rgb888 vid"
  stage1Reg :: "vec16 list vid"
  stage2Reg :: "vec16 list vid"
  stage3Reg :: "yuv444 vid"
  stage4Reg :: "(u8 \<times> u8) vid"
  evenOddPixelReg :: bool

definition yyuv_reset :: yyuv_pipe where
  "yyuv_reset = \<lparr>stage0Reg = Vid False False False (Rgb888 0 0 0), stage1Reg = Vid False False False (replicate 4 (replicate 3 0)),
     stage2Reg = Vid False False False (replicate 2 (replicate 3 0)), stage3Reg = Vid False False False (Yuv444 0 0 0),
     stage4Reg = Vid False False False (0, 0), evenOddPixelReg = False\<rparr>"

text \<open>One clock of \<^verbatim>\<open>mkRgb888ToYyuv\<close>: every stage takes what the one before it held.\<close>

definition yyuv_tick :: "rgb888 vid \<Rightarrow> yyuv_pipe \<Rightarrow> yyuv_pipe" where
  "yyuv_tick inp s =
     \<lparr>stage0Reg = inp, stage1Reg = stage1 (stage0Reg s), stage2Reg = stage2 (stage1Reg s), stage3Reg = stage3 (stage2Reg s),
      stage4Reg = stage4 (evenOddPixelReg s) (stage3Reg s),
      evenOddPixelReg = (if vde (stage3Reg s) then \<not> evenOddPixelReg s else evenOddPixelReg s)\<rparr>"

text \<open>The indications of the test design, and one clock of it with the requests of that clock.\<close>

datatype yuv_ind = Ind_rgb u8 u8 u8 | Ind_yuv u8 u8 u8 | Ind_yyuv u8 u8

datatype yuv_req = ToRgb rgb888 | ToYuv rgb888 | ToYyuv rgb888

record yuv_request =
  yr_stage1 :: "vec16 list vid"
  yr_stage2 :: "vec16 list vid"
  yr_stage3 :: "yuv444 vid"
  yr_conv :: yyuv_pipe

definition yuv_request_reset :: yuv_request where
  "yuv_request_reset = \<lparr>yr_stage1 = Vid False False False (replicate 4 (replicate 3 0)),
     yr_stage2 = Vid False False False (replicate 2 (replicate 3 0)), yr_stage3 = Vid False False False (Yuv444 0 0 0),
     yr_conv = yyuv_reset\<rparr>"

definition wire :: "rgb888 option \<Rightarrow> rgb888 vid" where
  "wire x = (case x of None \<Rightarrow> Vid False False False (Rgb888 0 0 0) | Some p \<Rightarrow> Vid True False False p)"

definition yuv_rule :: "yuv444 vid \<Rightarrow> yuv_ind list" where
  "yuv_rule v = (if vde v then [Ind_yuv (luma (vpx v)) (chroma_u (vpx v)) (chroma_v (vpx v))] else [])"

definition yyuv_rule :: "(u8 \<times> u8) vid \<Rightarrow> yuv_ind list" where
  "yyuv_rule v = (if vde v then [Ind_yyuv (snd (vpx v)) (fst (vpx v))] else [])"

definition to_rgb :: "yuv_req \<Rightarrow> rgb888 option" where "to_rgb r = (case r of ToRgb p \<Rightarrow> Some p | _ \<Rightarrow> None)"
definition to_yuv :: "yuv_req \<Rightarrow> rgb888 option" where "to_yuv r = (case r of ToYuv p \<Rightarrow> Some p | _ \<Rightarrow> None)"
definition to_yyuv :: "yuv_req \<Rightarrow> rgb888 option" where "to_yyuv r = (case r of ToYyuv p \<Rightarrow> Some p | _ \<Rightarrow> None)"

definition yuv_clock :: "yuv_req option \<Rightarrow> yuv_request \<Rightarrow> yuv_ind list \<times> yuv_request" where
  "yuv_clock req s =
     (let toYuv = Option.bind req to_yuv; toYyuv = Option.bind req to_yyuv;
          direct = (case Option.bind req to_rgb of Some p \<Rightarrow> [Ind_rgb (red p) (green p) (blue p)] | None \<Rightarrow> [])
      in (direct @ yuv_rule (yr_stage3 s) @ yyuv_rule (stage4Reg (yr_conv s)),
          \<lparr>yr_stage1 = stage1 (wire toYuv), yr_stage2 = stage2 (yr_stage1 s), yr_stage3 = stage3 (yr_stage2 s),
           yr_conv = yyuv_tick (wire toYyuv) (yr_conv s)\<rparr>))"

fun yuv_run :: "yuv_req option list \<Rightarrow> yuv_request \<Rightarrow> yuv_ind list \<times> yuv_request" where
  "yuv_run [] s = ([], s)"
| "yuv_run (r # rs) s =
     (case yuv_clock r s of (is1, s1) \<Rightarrow> case yuv_run rs s1 of (is2, s2) \<Rightarrow> (is1 @ is2, s2))"

section \<open>The test program\<close>

record yuv_test =
  yt_expected_rgb :: rgb888
  yt_expected_yuv :: yuv444
  yt_numTests :: nat
  yt_cnt :: nat

datatype yuv_outcome = Assertion_failed | Exit0 | Running yuv_test

definition incr_cnt :: "yuv_test \<Rightarrow> yuv_outcome" where
  "incr_cnt t = (let cnt = yt_cnt t + 1 in if yt_numTests t \<le> cnt then Exit0 else Running (t\<lparr>yt_cnt := cnt\<rparr>))"

fun yuv_indication :: "yuv_ind \<Rightarrow> yuv_test \<Rightarrow> yuv_outcome" where
  "yuv_indication (Ind_rgb r g b) t = (if yt_expected_rgb t = Rgb888 r g b then incr_cnt t else Assertion_failed)"
| "yuv_indication (Ind_yuv y u v) t = (if yt_expected_yuv t = Yuv444 y u v then incr_cnt t else Assertion_failed)"
| "yuv_indication (Ind_yyuv yy uv) t = incr_cnt t"

fun yuv_indications :: "yuv_ind list \<Rightarrow> yuv_outcome \<Rightarrow> yuv_outcome" where
  "yuv_indications (i # is) (Running t) = yuv_indications is (yuv_indication i t)"
| "yuv_indications is out = out"

text \<open>
  One round of \<^verbatim>\<open>main\<close>: three requests, with any number of idle clocks after each, and a second of
  sleep in which the pipelines drain and the indications are delivered.  The three increments of \<^verbatim>\<open>numTests\<close>, each ahead of
  its request, are taken together.
\<close>

definition send_requests :: "(yuv_req \<times> nat) list \<Rightarrow> yuv_outcome \<times> yuv_request \<Rightarrow> yuv_outcome \<times> yuv_request" where
  "send_requests rs = (\<lambda>(out, hw).
     case yuv_run (concat (map (\<lambda>(r, idle). Some r # replicate idle None) rs) @ replicate 6 None) hw of
       (is, hw') \<Rightarrow> (yuv_indications is out, hw'))"

definition expect :: "rgb888 \<Rightarrow> yuv_outcome \<Rightarrow> yuv_outcome" where
  "expect p out =
     (case out of
        Running t \<Rightarrow> Running (t\<lparr>yt_expected_rgb := p, yt_expected_yuv := sw_rgbtoyuv p, yt_numTests := yt_numTests t + 3\<rparr>)
      | _ \<Rightarrow> out)"

definition yuv_tests :: "rgb888 list" where
  "yuv_tests = [Rgb888 0 0 0, Rgb888 1 2 3, Rgb888 128 0 0, Rgb888 0 128 0, Rgb888 0 0 128,
     Rgb888 255 0 0, Rgb888 0 255 0, Rgb888 0 0 255, Rgb888 255 255 255]"

definition yuv_colour :: "nat \<times> nat \<times> nat \<Rightarrow> rgb888 \<Rightarrow> yuv_outcome \<times> yuv_request \<Rightarrow> yuv_outcome \<times> yuv_request" where
  "yuv_colour idle p st =
     send_requests [(ToRgb p, fst idle), (ToYuv p, fst (snd idle)), (ToYyuv p, snd (snd idle))] (apfst (expect p) st)"

definition yuv_main :: "nat \<times> nat \<times> nat \<Rightarrow> rgb888 list \<Rightarrow> yuv_request \<Rightarrow> yuv_outcome" where
  "yuv_main idle tests hw =
     (let start = Running \<lparr>yt_expected_rgb = Rgb888 0 0 0, yt_expected_yuv = Yuv444 0 0 0, yt_numTests = 1, yt_cnt = 0\<rparr>;
          (out, hw') = fold (yuv_colour idle) tests (start, hw);
          out' = (case out of Running t \<Rightarrow> Running (t\<lparr>yt_expected_rgb := tests ! 0\<rparr>) | _ \<Rightarrow> out)
      in fst (send_requests [(ToRgb (tests ! 0), 0)] (out', hw')))"

section \<open>Sixteen bits are enough\<close>

lemma shift_byte: "(ucast (drop_bit 8 (of_int x :: u16)) :: u8) = of_int (drop_bit 8 x)"
  by (rule bit_word_eqI) (simp add: bit_simps)

lemma ucast_of_int_uint: "(ucast (x :: u8) :: u16) = of_int (uint x)"
  by simp

lemma rgbtoyuv_agree: "hw_rgbtoyuv p = sw_rgbtoyuv p"
proof -
  have "77 * r + 150 * g + 29 * b + 0 = (of_int (77 * uint (red p) + 150 * uint (green p) + 29 * uint (blue p) + 0) :: u16)"
    "- 43 * r - 85 * g + 128 * b + 128 = (of_int (- 43 * uint (red p) - 85 * uint (green p) + 128 * uint (blue p) + 128) :: u16)"
    "128 * r - 107 * g - 21 * b + 128 = (of_int (128 * uint (red p) - 107 * uint (green p) - 21 * uint (blue p) + 128) :: u16)"
    if "r = ucast (red p)" "g = ucast (green p)" "b = ucast (blue p)" for r g b :: u16
    unfolding that ucast_of_int_uint by simp_all
  then show ?thesis unfolding hw_rgbtoyuv_def sw_rgbtoyuv_def Let_def by (simp only: shift_byte)
qed

lemma intermediates_eq:
  "rgbToYuvIntermediates p =
     (let r = ucast (red p); g = ucast (green p); b = ucast (blue p) in
      [[77 * r, - 43 * r, 128 * r], [150 * g, - 85 * g, - 107 * g], [29 * b, 128 * b, - 21 * b], [0, 128, 128]])"
  by (simp add: rgbToYuvIntermediates_def rgbToVector_def yuv_coeffs_def vmul_def numeral_3_eq_3 Let_def mult.commute)

lemma stages_agree: "yuvIntermediatesToYuv444 (rgbToYuvIntermediates p) = sw_rgbtoyuv p"
  unfolding rgbtoyuv_agree [symmetric]
  by (simp add: intermediates_eq yuvIntermediatesToYuv444_def hw_rgbtoyuv_def yuv444FromVector_def vadd_def vrshift_def Let_def
      algebra_simps)

section \<open>What leaves the pipelines\<close>

lemma stages_through:
  "stage3 (stage2 (stage1 x)) = Vid (vde x) (vvs x) (vhs x) (if vde x then sw_rgbtoyuv (vpx x) else Yuv444 0 0 0)"
  using stages_agree [of "vpx x"] by (simp add: stage1_def stage2_def stage3_def yuvIntermediatesToYuv444_def)

fun is_rgb :: "yuv_ind \<Rightarrow> bool" where
  "is_rgb (Ind_rgb r g b) = True" | "is_rgb _ = False"

fun is_yuv :: "yuv_ind \<Rightarrow> bool" where
  "is_yuv (Ind_yuv y u v) = True" | "is_yuv _ = False"

fun is_yyuv :: "yuv_ind \<Rightarrow> bool" where
  "is_yyuv (Ind_yyuv yy uv) = True" | "is_yyuv _ = False"

text \<open>The colours of one kind of request, and the chroma components in turn.\<close>

definition asked :: "(yuv_req \<Rightarrow> rgb888 option) \<Rightarrow> yuv_req option list \<Rightarrow> rgb888 list" where
  "asked f rs = List.map_filter (\<lambda>r. Option.bind r f) rs"

fun alternate :: "bool \<Rightarrow> yuv444 list \<Rightarrow> yuv_ind list" where
  "alternate e [] = []"
| "alternate e (p # ps) = Ind_yyuv (luma p) (if e then chroma_u p else chroma_v p) # alternate (\<not> e) ps"

lemma asked_simps [simp]:
  "asked f [] = []" "asked f (r # rs) = (case Option.bind r f of None \<Rightarrow> [] | Some p \<Rightarrow> [p]) @ asked f rs"
  by (simp_all add: asked_def map_filter_simps split: option.split)

lemma asked_append [simp]: "asked f (rs @ qs) = asked f rs @ asked f qs" "asked f (replicate n None) = []"
  by (induction rs) (auto, induction n, auto)

lemma clock_outputs:
  "filter is_rgb (fst (yuv_clock r s)) = map (\<lambda>p. Ind_rgb (red p) (green p) (blue p)) (asked to_rgb [r])"
  "filter is_yuv (fst (yuv_clock r s)) = yuv_rule (yr_stage3 s)"
  "filter is_yyuv (fst (yuv_clock r s)) = yyuv_rule (stage4Reg (yr_conv s))"
  by (simp_all add: yuv_clock_def Let_def yuv_rule_def yyuv_rule_def split: option.split)

lemma clock_state:
  "yr_stage1 (snd (yuv_clock r s)) = stage1 (wire (Option.bind r to_yuv))" "yr_stage2 (snd (yuv_clock r s)) = stage2 (yr_stage1 s)"
  "yr_stage3 (snd (yuv_clock r s)) = stage3 (yr_stage2 s)" "yr_conv (snd (yuv_clock r s)) = yyuv_tick (wire (Option.bind r to_yyuv)) (yr_conv s)"
  by (simp_all add: yuv_clock_def Let_def)

lemma yuv_run_Cons [simp]:
  "fst (yuv_run (r # rs) s) = fst (yuv_clock r s) @ fst (yuv_run rs (snd (yuv_clock r s)))"
  "snd (yuv_run (r # rs) s) = snd (yuv_run rs (snd (yuv_clock r s)))"
  by (simp_all split: prod.split)

declare yuv_run.simps(2) [simp del]

lemma run_rgb: "filter is_rgb (fst (yuv_run rs s)) = map (\<lambda>p. Ind_rgb (red p) (green p) (blue p)) (asked to_rgb rs)"
  by (induction rs arbitrary: s) (simp_all add: clock_outputs)

definition pend_yuv :: "yuv_request \<Rightarrow> yuv_ind list" where
  "pend_yuv s = yuv_rule (yr_stage3 s) @ yuv_rule (stage3 (yr_stage2 s)) @ yuv_rule (stage3 (stage2 (yr_stage1 s)))"

definition yuv_answer :: "rgb888 \<Rightarrow> yuv_ind" where
  "yuv_answer p = (case sw_rgbtoyuv p of Yuv444 y u v \<Rightarrow> Ind_yuv y u v)"

lemma run_yuv:
  "filter is_yuv (fst (yuv_run rs s)) @ pend_yuv (snd (yuv_run rs s)) = pend_yuv s @ map yuv_answer (asked to_yuv rs)"
proof (induction rs arbitrary: s)
  case (Cons r rs)
  have "yuv_rule (stage3 (stage2 (stage1 (wire x)))) = (case x of None \<Rightarrow> [] | Some p \<Rightarrow> [yuv_answer p])" for x
    by (simp add: stages_through yuv_rule_def wire_def yuv_answer_def split: option.split yuv444.split)
  then have "yuv_rule (yr_stage3 s) @ pend_yuv (snd (yuv_clock r s)) = pend_yuv s @ map yuv_answer (asked to_yuv [r])"
    by (simp add: pend_yuv_def clock_state split: option.split)
  with Cons [of "snd (yuv_clock r s)"] show ?case by (simp add: clock_outputs)
qed simp

text \<open>The pixels still inside the converter, oldest first.\<close>

definition pipe_pixels :: "yyuv_pipe \<Rightarrow> yuv444 list" where
  "pipe_pixels s = map vpx (filter vde [stage3Reg s, stage3 (stage2Reg s), stage3 (stage2 (stage1Reg s)), stage3 (stage2 (stage1 (stage0Reg s)))])"

definition pend_yyuv :: "yyuv_pipe \<Rightarrow> yuv444 list \<Rightarrow> yuv_ind list" where
  "pend_yyuv s ps = yyuv_rule (stage4Reg s) @ alternate (evenOddPixelReg s) (pipe_pixels s @ ps)"

lemma run_yyuv:
  "filter is_yyuv (fst (yuv_run rs s)) @ pend_yyuv (yr_conv (snd (yuv_run rs s))) ps =
   pend_yyuv (yr_conv s) (map sw_rgbtoyuv (asked to_yyuv rs) @ ps)"
proof (induction rs arbitrary: s)
  case (Cons r rs)
  let ?s = "yr_conv s" and ?t = "yyuv_tick (wire (Option.bind r to_yyuv)) (yr_conv s)"
  have w: "map vpx (filter vde [stage3 (stage2 (stage1 (wire x)))]) = (case x of None \<Rightarrow> [] | Some p \<Rightarrow> [sw_rgbtoyuv p])" for x
    by (simp add: stages_through wire_def split: option.split)
  have "yyuv_rule (stage4Reg ?s) @ pend_yyuv ?t qs = pend_yyuv ?s (map sw_rgbtoyuv (asked to_yyuv [r]) @ qs)" for qs
    using w [of "Option.bind r to_yyuv"]
    by (cases "vde (stage3Reg ?s)")
      (simp_all add: pend_yyuv_def pipe_pixels_def yyuv_tick_def stage4_def yyuv_rule_def split: option.splits if_splits)
  with Cons [of "snd (yuv_clock r s)"] show ?case by (simp add: clock_outputs clock_state)
qed simp

lemma yuv_run_append:
  "fst (yuv_run (rs @ qs) s) = fst (yuv_run rs s) @ fst (yuv_run qs (snd (yuv_run rs s)))"
  "snd (yuv_run (rs @ qs) s) = snd (yuv_run qs (snd (yuv_run rs s)))"
  by (induction rs arbitrary: s) simp_all

text \<open>Six idle clocks empty both pipelines.\<close>

definition drained :: "yuv_request \<Rightarrow> bool" where
  "drained s \<longleftrightarrow> pend_yuv s = [] \<and> pend_yyuv (yr_conv s) [] = []"

lemma vde_stages [simp]: "vde (stage1 x) = vde x" "vde (stage2 y) = vde y" "vde (stage3 z) = vde z" "vde (stage4 e w) = vde w"
  by (simp_all add: stage1_def stage2_def stage3_def stage4_def)

lemma idle_drains: "drained (snd (yuv_run (rs @ replicate 6 None) s))"
  by (simp add: yuv_run_append drained_def pend_yuv_def pend_yyuv_def pipe_pixels_def yuv_rule_def yyuv_rule_def clock_state
      yyuv_tick_def wire_def numeral_eq_Suc)

lemma reset_drained: "drained yuv_request_reset"
  by (simp add: drained_def pend_yuv_def pend_yyuv_def pipe_pixels_def yuv_rule_def yyuv_rule_def yuv_request_reset_def yyuv_reset_def)

lemma drained_pend: "drained s \<Longrightarrow> pend_yyuv (yr_conv s) ps = alternate (evenOddPixelReg (yr_conv s)) ps"
  by (auto simp: drained_def pend_yyuv_def)
    (metis alternate.simps(2) list.distinct(1) list.exhaust append_Nil)

lemma drained_outputs:
  fixes rs s
  defines "outs \<equiv> fst (yuv_run (rs @ replicate 6 None) s)"
  assumes "drained s"
  shows "filter is_rgb outs = map (\<lambda>p. Ind_rgb (red p) (green p) (blue p)) (asked to_rgb rs)"
    and "filter is_yuv outs = map yuv_answer (asked to_yuv rs)"
    and "filter is_yyuv outs = alternate (evenOddPixelReg (yr_conv s)) (map sw_rgbtoyuv (asked to_yyuv rs))"
  using run_rgb [of "rs @ replicate 6 None" s] run_yuv [of "rs @ replicate 6 None" s]
    run_yyuv [of "rs @ replicate 6 None" s "[]"] idle_drains [of rs s] drained_pend [OF assms(2)] assms(2)
  unfolding outs_def drained_def by (simp_all)

section \<open>The test passes\<close>

text \<open>The indications of a round are three, and each is what the program expects.\<close>

lemma filter_partition_length:
  "length is = length (filter is_rgb is) + length (filter is_yuv is) + length (filter is_yyuv is)"
proof (induction "is")
  case (Cons i "is")
  then show ?case by (cases i) simp_all
qed simp

lemma expected_set:
  assumes "filter is_rgb is = [Ind_rgb (red p) (green p) (blue p)]" and "filter is_yuv is = [yuv_answer p]" and "i \<in> set is"
    and "yt_expected_rgb t = p" and "yt_expected_yuv t = sw_rgbtoyuv p"
  shows "yuv_indication i t = incr_cnt t"
proof (cases i)
  case (Ind_rgb r g b)
  then have "i \<in> set (filter is_rgb is)" using assms(3) by simp
  then show ?thesis using assms(1,4) Ind_rgb by (cases p) simp
next
  case (Ind_yuv y u v)
  then have "i \<in> set (filter is_yuv is)" using assms(3) by simp
  then show ?thesis using assms(2,5) Ind_yuv by (auto simp: yuv_answer_def split: yuv444.splits)
qed simp

lemma indications_counted:
  "\<forall>i \<in> set is. \<forall>t'. yt_expected_rgb t' = yt_expected_rgb t \<and> yt_expected_yuv t' = yt_expected_yuv t \<longrightarrow> yuv_indication i t' = incr_cnt t' \<Longrightarrow>
   yt_cnt t + length is < yt_numTests t \<Longrightarrow>
   yuv_indications is (Running t) = Running (t\<lparr>yt_cnt := yt_cnt t + length is\<rparr>)"
proof (induction "is" arbitrary: t)
  case (Cons i "is")
  have "yuv_indication i t = Running (t\<lparr>yt_cnt := yt_cnt t + 1\<rparr>)" using Cons.prems by (simp add: incr_cnt_def Let_def)
  with Cons.IH [of "t\<lparr>yt_cnt := yt_cnt t + 1\<rparr>"] Cons.prems show ?case by simp
qed simp

lemma yuv_round:
  assumes "drained hw" and "yt_cnt t + 1 = yt_numTests t"
  shows "\<exists>t' hw'. yuv_colour idle p (Running t, hw) = (Running t', hw') \<and> drained hw' \<and> yt_cnt t' + 1 = yt_numTests t'"
proof -
  define rs where "rs = concat (map (\<lambda>(r, idle). Some r # replicate idle None) [(ToRgb p, fst idle), (ToYuv p, fst (snd idle)), (ToYyuv p, snd (snd idle))])"
  obtain outs hw' where run: "yuv_run (rs @ replicate 6 None) hw = (outs, hw')" by (cases "yuv_run (rs @ replicate 6 None) hw")
  let ?t = "t\<lparr>yt_expected_rgb := p, yt_expected_yuv := sw_rgbtoyuv p, yt_numTests := yt_numTests t + 3\<rparr>"
  have o: "filter is_rgb outs = [Ind_rgb (red p) (green p) (blue p)]" "filter is_yuv outs = [yuv_answer p]" "length (filter is_yyuv outs) = 1"
    using drained_outputs [OF assms(1), of rs] unfolding run by (simp_all add: rs_def to_rgb_def to_yuv_def to_yyuv_def)
  have "length outs = 3" using filter_partition_length [of outs] o by simp
  moreover have "\<forall>i \<in> set outs. \<forall>t'. yt_expected_rgb t' = p \<and> yt_expected_yuv t' = sw_rgbtoyuv p \<longrightarrow> yuv_indication i t' = incr_cnt t'"
    using expected_set [OF o(1,2)] by blast
  ultimately have "yuv_indications outs (Running ?t) = Running (?t\<lparr>yt_cnt := yt_cnt t + 3\<rparr>)"
    using indications_counted [of outs ?t] assms(2) by simp
  then have "yuv_colour idle p (Running t, hw) = (Running (?t\<lparr>yt_cnt := yt_cnt t + 3\<rparr>), hw')"
    using run unfolding yuv_colour_def send_requests_def expect_def rs_def
    by (simp add: split_beta del: yuv_run_Cons list.map concat.simps append.simps append_assoc)
  moreover have "drained hw'" using idle_drains [of rs hw] run by simp
  ultimately show ?thesis using assms(2) by (intro exI conjI) (assumption | simp)+
qed

lemma yuv_rounds:
  "drained hw \<Longrightarrow> yt_cnt t + 1 = yt_numTests t \<Longrightarrow>
   \<exists>t' hw'. fold (yuv_colour idle) ps (Running t, hw) = (Running t', hw') \<and> drained hw' \<and> yt_cnt t' + 1 = yt_numTests t'"
proof (induction ps arbitrary: t hw)
  case (Cons p ps)
  from yuv_round [OF Cons.prems] obtain t' hw' where
    "yuv_colour idle p (Running t, hw) = (Running t', hw')" "drained hw'" "yt_cnt t' + 1 = yt_numTests t'" by blast
  with Cons.IH [of hw' t'] show ?case by simp
qed simp

text \<open>After every round one indication is still owed, the one the last request of \<^verbatim>\<open>main\<close> brings.\<close>

lemma yuv_main_passes: "yuv_main idle tests yuv_request_reset = Exit0"
proof -
  define t0 where "t0 = \<lparr>yt_expected_rgb = Rgb888 0 0 0, yt_expected_yuv = Yuv444 0 0 0, yt_numTests = 1, yt_cnt = 0\<rparr>"
  from yuv_rounds [OF reset_drained, of t0 idle tests] obtain t hw where
    r: "fold (yuv_colour idle) tests (Running t0, yuv_request_reset) = (Running t, hw)" "drained hw" "yt_cnt t + 1 = yt_numTests t"
    by (auto simp: t0_def)
  define p where "p = tests ! 0"
  define rs where "rs = [Some (ToRgb p)]"
  obtain outs hw' where run: "yuv_run (rs @ replicate 6 None) hw = (outs, hw')" by (cases "yuv_run (rs @ replicate 6 None) hw")
  have o: "filter is_rgb outs = [Ind_rgb (red p) (green p) (blue p)]" "filter is_yuv outs = []" "filter is_yyuv outs = []"
    using drained_outputs [OF r(2), of rs] unfolding run by (simp_all add: rs_def to_rgb_def to_yuv_def to_yyuv_def)
  then have "outs = [Ind_rgb (red p) (green p) (blue p)]"
    using filter_partition_length [of outs] by (metis add.right_neutral filter_True filter_id_conv length_filter_less less_irrefl list.size(3))
  then show ?thesis
    using r(1,3) run unfolding yuv_main_def send_requests_def t0_def [symmetric] p_def [symmetric] rs_def
    by (cases p) (simp add: incr_cnt_def Let_def del: yuv_run_Cons)
qed


end
