(* ===== verification/Hdmi_Display.thy ===== *)
theory Hdmi_Display
  imports Hdmi_Gen Yuv
begin

text \<open>
  A frame buffer on a screen: the display device of \<^verbatim>\<open>lib/bsv/HdmiDisplay.bsv\<close> reads the frame buffer
  and puts its pixels into the generator, \<^verbatim>\<open>examples/hdmidisplay/testhdmidisplay.cpp\<close> draws into two frame
  buffers in turn, and \<^verbatim>\<open>BsimHdmi.cpp\<close> with \<^verbatim>\<open>qtmain.cpp\<close> is the monitor of the simulator.
\<close>

section \<open>The display device\<close>

text \<open>
  The words of a transfer that have not been used yet, and the second pixel of the last one.  The
  memory is taken to keep up with the screen.
\<close>

record hdmi_display =
  hd_gen :: hdmi_gen
  hd_words :: "u64 list"
  hd_evenOdd :: bool
  hd_saved :: u32
  hd_reference :: "u32 option"
  hd_byteCount :: "24 word"

definition doPut :: "hdmi_display \<Rightarrow> u32 option \<times> hdmi_display" where
  "doPut d =
     (if hd_evenOdd d then
        (case hd_words d of
           [] \<Rightarrow> (None, d)
         | w # ws \<Rightarrow> (Some (lo32 w), d\<lparr>hd_words := ws, hd_saved := hi32 w, hd_evenOdd := False\<rparr>))
      else (Some (hd_saved d), d\<lparr>hd_evenOdd := True\<rparr>))"

text \<open>The words of an object that a transfer of the frame buffer reads.\<close>

definition transfer_words :: "(u32 \<Rightarrow> nat \<Rightarrow> u32) \<Rightarrow> u32 \<Rightarrow> 24 word \<Rightarrow> u64 list" where
  "transfer_words mem ref byteCount = map (\<lambda>i. join32 (mem ref (2 * i + 1)) (mem ref (2 * i))) [0..<unat byteCount div 8]"

text \<open>At the start of a transfer the fifo is reset first.\<close>

definition startTransfer :: "(u32 \<Rightarrow> nat \<Rightarrow> u32) \<Rightarrow> hdmi_display \<Rightarrow> hdmi_display" where
  "startTransfer mem d =
     d\<lparr>hd_evenOdd := True, hd_saved := 0,
       hd_words := (case hd_reference d of None \<Rightarrow> [] | Some ref \<Rightarrow> transfer_words mem ref (hd_byteCount d))\<rparr>"

text \<open>The pulse of a clock (\<^verbatim>\<open>startDMA.pulse\<close>).\<close>

definition starts_dma :: "hdmi_gen \<Rightarrow> bool" where
  "starts_dma g \<longleftrightarrow> StartDMA \<in> set (snd (inc_counters g))"

definition hd_tick :: "(u32 \<Rightarrow> nat \<Rightarrow> u32) \<Rightarrow> hdmi_display \<Rightarrow> hdmi_display" where
  "hd_tick mem d =
     (let (inp, d1) = (if dataEnable (hd_gen d) \<and> \<not> testPatternEnabled (hd_gen d) then doPut d else (None, d));
          d2 = d1\<lparr>hd_gen := fst (hdmi_tick inp (hd_gen d))\<rparr>
      in if starts_dma (hd_gen d) then startTransfer mem d2 else d2)"

definition startFrameBuffer :: "u32 \<Rightarrow> u32 \<Rightarrow> hdmi_display \<Rightarrow> hdmi_display" where
  "startFrameBuffer base byteCount d = d\<lparr>hd_byteCount := ucast byteCount, hd_reference := Some base\<rparr>"

definition stopFrameBuffer :: "hdmi_display \<Rightarrow> hdmi_display" where
  "stopFrameBuffer d = d\<lparr>hd_reference := None\<rparr>"

section \<open>The monitor of the simulator\<close>

record monitor =
  mon_vpos :: nat
  mon_hpos :: nat
  mon_image :: "nat \<Rightarrow> nat \<Rightarrow> u32"

definition SCREEN_SIZE :: nat where "SCREEN_SIZE = 300"

text \<open>
  The image library's operation sets one pixel; it defines nothing outside the image, and the
  properties are about frames that fit.
\<close>

definition setPixel :: "nat \<Rightarrow> nat \<Rightarrow> u32 \<Rightarrow> (nat \<Rightarrow> nat \<Rightarrow> u32) \<Rightarrow> nat \<Rightarrow> nat \<Rightarrow> u32" where
  "setPixel h v c img = (if h < SCREEN_SIZE \<and> v < SCREEN_SIZE then img(h := (img h)(v := c)) else img)"

definition show_data :: "bool \<Rightarrow> bool \<Rightarrow> bool \<Rightarrow> u32 \<Rightarrow> monitor \<Rightarrow> monitor" where
  "show_data vsync hsync de data m =
     (let m1 = (if de then m\<lparr>mon_image := setPixel (mon_hpos m) (mon_vpos m) data (mon_image m), mon_hpos := mon_hpos m + 1\<rparr> else m);
          m2 = (if vsync then m1\<lparr>mon_vpos := 0\<rparr> else m1)
      in if hsync then m2\<lparr>mon_vpos := (if mon_hpos m2 \<noteq> 0 then mon_vpos m2 + 1 else mon_vpos m2), mon_hpos := 0\<rparr> else m2)"

text \<open>The pins: the chroma component is in the upper byte of the data.\<close>

definition pin_data :: "u8 \<times> u8 \<Rightarrow> u32" where
  "pin_data c = push_bit 8 (ucast (fst c)) OR ucast (snd c)"

definition bdpi_hdmi_data :: "(u8 \<times> u8) vid \<Rightarrow> monitor \<Rightarrow> monitor" where
  "bdpi_hdmi_data v = show_data (vvs v) (vhs v) (vde v) (pin_data (vpx v))"

text \<open>
  Device, colour converter and monitor, for a number of clocks.  The converter takes what the
  generator held, the monitor what the converter held; the reset at the start of a transfer
  resets the converter too.
\<close>

definition vid_of :: "video_data \<Rightarrow> rgb888 vid" where
  "vid_of v = Vid (vd_de v) (vd_vsync v) (vd_hsync v) (unpack_rgb (vd_pixel v))"

definition hd_clock :: "(u32 \<Rightarrow> nat \<Rightarrow> u32) \<Rightarrow> hdmi_display \<times> yyuv_pipe \<times> monitor \<Rightarrow> hdmi_display \<times> yyuv_pipe \<times> monitor" where
  "hd_clock mem = (\<lambda>(d, c, m).
     (hd_tick mem d, if starts_dma (hd_gen d) then yyuv_reset else yyuv_tick (vid_of (rgb888StageReg (hd_gen d))) c,
      bdpi_hdmi_data (stage4Reg c) m))"

fun hd_show :: "(u32 \<Rightarrow> nat \<Rightarrow> u32) \<Rightarrow> nat \<Rightarrow> hdmi_display \<times> yyuv_pipe \<times> monitor \<Rightarrow> hdmi_display \<times> yyuv_pipe \<times> monitor" where
  "hd_show mem 0 st = st"
| "hd_show mem (Suc n) st = hd_clock mem (hd_show mem n st)"

section \<open>A frame on the monitor\<close>

text \<open>The signals of a frame: position \<open>p\<close> of line \<open>l\<close>, with a value for every pixel and one for blanking.\<close>

definition frame_sig :: "edid_detailed_timing \<Rightarrow> (nat option \<Rightarrow> 'p) \<Rightarrow> nat \<Rightarrow> nat \<Rightarrow> 'p vid" where
  "frame_sig t buf l p =
     (if unat (blines t) < l \<and> unat (bpixels t) \<le> p
      then Vid True False False (buf (Some ((l - unat (blines t) - 1) * unat (npixels t) + (p - unat (bpixels t)))))
      else Vid False
            (\<not> (l < unat (vsyncoff t) \<or> l = unat (vsyncoff t) \<and> p = 0) \<and>
              (l < unat (vsyncoff t) + unat (vsyncwidth t) \<or> l = unat (vsyncoff t) + unat (vsyncwidth t) \<and> p = 0))
            (unat (hsyncoff t) < p \<and> p \<le> unat (hsyncoff t) + unat (hsyncwidth t)) (buf None))"

definition show_line :: "edid_detailed_timing \<Rightarrow> (nat option \<Rightarrow> u8 \<times> u8) \<Rightarrow> nat \<Rightarrow> monitor \<Rightarrow> monitor" where
  "show_line t buf l = fold (\<lambda>p. bdpi_hdmi_data (frame_sig t buf l p)) [0..<unat (bpixels t) + unat (npixels t)]"

lemma show_blank:
  "\<not> vde v \<Longrightarrow> mon_image (bdpi_hdmi_data v m) = mon_image m"
  "\<not> vde v \<Longrightarrow> mon_hpos (bdpi_hdmi_data v m) = (if vhs v then 0 else mon_hpos m)"
  by (simp_all add: bdpi_hdmi_data_def show_data_def Let_def)

lemma show_quiet: "\<not> vde v \<Longrightarrow> \<not> vvs v \<Longrightarrow> \<not> vhs v \<or> mon_hpos m = 0 \<Longrightarrow> bdpi_hdmi_data v m = m"
  by (auto simp: bdpi_hdmi_data_def show_data_def Let_def)

lemma fold_quiet:
  "(\<And>p. p \<in> set ps \<Longrightarrow> \<not> vde (f p) \<and> \<not> vvs (f p) \<and> (\<not> vhs (f p) \<or> mon_hpos m = 0)) \<Longrightarrow>
   fold (\<lambda>p. bdpi_hdmi_data (f p)) ps m = m"
proof (induction ps)
  case (Cons a ps)
  have "bdpi_hdmi_data (f a) m = m" using Cons.prems [of a] by (intro show_quiet) auto
  moreover have "fold (\<lambda>p. bdpi_hdmi_data (f p)) ps m = m" by (rule Cons.IH, rule Cons.prems) simp
  ultimately show ?case by simp
qed simp

lemma fold_blank:
  "(\<And>p. p \<in> set ps \<Longrightarrow> \<not> vde (f p)) \<Longrightarrow>
   mon_image (fold (\<lambda>p. bdpi_hdmi_data (f p)) ps m) = mon_image m \<and>
   ((\<exists>p \<in> set ps. vhs (f p)) \<longrightarrow> mon_hpos (fold (\<lambda>p. bdpi_hdmi_data (f p)) ps m) = 0) \<and>
   (mon_hpos m = 0 \<longrightarrow> mon_hpos (fold (\<lambda>p. bdpi_hdmi_data (f p)) ps m) = 0)"
  by (induction ps arbitrary: m) (auto simp: show_blank)

lemma blank_line:
  assumes "edid_sane t" "l \<le> unat (blines t)"
  shows "mon_image (show_line t buf l m) = mon_image m" "mon_hpos (show_line t buf l m) = 0"
proof -
  have "Suc (unat (hsyncoff t)) \<in> set [0..<unat (bpixels t) + unat (npixels t)]"
    "vhs (frame_sig t buf l (Suc (unat (hsyncoff t))))"
    using assms by (auto simp: edid_sane_def frame_sig_def)
  moreover have "\<not> vde (frame_sig t buf l p)" for p using assms(2) by (simp add: frame_sig_def)
  ultimately show "mon_image (show_line t buf l m) = mon_image m" "mon_hpos (show_line t buf l m) = 0"
    unfolding show_line_def using fold_blank [of _ "frame_sig t buf l" m] by blast+
qed

text \<open>The last line of the vertical sync leaves the monitor at the top; the blank lines after it keep it there.\<close>

lemma sync_line:
  assumes "edid_sane t" "l = unat (vsyncoff t) + unat (vsyncwidth t)" "mon_hpos m = 0"
  shows "show_line t buf l m = m\<lparr>mon_vpos := 0\<rparr>"
proof -
  let ?W = "unat (bpixels t) + unat (npixels t)"
  have d: "\<not> vde (frame_sig t buf l p)" for p using assms(1,2) by (auto simp: frame_sig_def edid_sane_def)
  have "[0..<?W] = 0 # [1..<?W]" using assms(1) by (simp add: edid_sane_def upt_rec)
  then have "show_line t buf l m = fold (\<lambda>p. bdpi_hdmi_data (frame_sig t buf l p)) [1..<?W] (bdpi_hdmi_data (frame_sig t buf l 0) m)"
    by (simp add: show_line_def)
  also have "bdpi_hdmi_data (frame_sig t buf l 0) m = m\<lparr>mon_vpos := 0\<rparr>"
    using assms d [of 0] by (simp add: bdpi_hdmi_data_def show_data_def Let_def frame_sig_def edid_sane_def)
  also have "fold (\<lambda>p. bdpi_hdmi_data (frame_sig t buf l p)) [1..<?W] (m\<lparr>mon_vpos := 0\<rparr>) = m\<lparr>mon_vpos := 0\<rparr>"
    using assms d by (intro fold_quiet) (auto simp: frame_sig_def)
  finally show ?thesis .
qed

lemma quiet_line:
  assumes "unat (vsyncoff t) + unat (vsyncwidth t) < l" "l \<le> unat (blines t)" "mon_hpos m = 0"
  shows "show_line t buf l m = m"
  unfolding show_line_def using assms by (intro fold_quiet) (auto simp: frame_sig_def)

lemma blank_lines:
  assumes "edid_sane t"
  shows "fold (show_line t buf) [0..<unat (blines t) + 1] m = m\<lparr>mon_vpos := 0, mon_hpos := 0\<rparr>"
proof -
  let ?s = "unat (vsyncoff t) + unat (vsyncwidth t)" and ?b = "unat (blines t)"
  have s: "0 < ?s" "?s \<le> ?b" using assms by (auto simp: edid_sane_def)
  have before: "mon_image (fold (show_line t buf) [0..<n] m) = mon_image m \<and> (0 < n \<longrightarrow> mon_hpos (fold (show_line t buf) [0..<n] m) = 0)"
    if "n \<le> ?b" for n
    using that by (induction n) (use blank_line [OF assms] in auto)
  let ?m1 = "fold (show_line t buf) [0..<?s] m"
  have m1: "mon_image ?m1 = mon_image m" "mon_hpos ?m1 = 0" using before [of ?s] s by auto
  have "[0..<?b + 1] = [0..<?s] @ ?s # [?s + 1..<?b + 1]"
    using s by (metis Suc_eq_plus1 le_imp_less_Suc upt_conv_Cons upt_add_eq_append zero_le le_add_diff_inverse less_imp_le)
  then have "fold (show_line t buf) [0..<?b + 1] m = fold (show_line t buf) [?s + 1..<?b + 1] (show_line t buf ?s ?m1)" by simp
  also have "show_line t buf ?s ?m1 = m\<lparr>mon_vpos := 0, mon_hpos := 0\<rparr>"
    using sync_line [OF assms refl m1(2)] m1 by simp
  finally have e: "fold (show_line t buf) [0..<?b + 1] m = fold (show_line t buf) [?s + 1..<?b + 1] (m\<lparr>mon_vpos := 0, mon_hpos := 0\<rparr>)" .
  have quiet: "fold (show_line t buf) ls m' = m'" if "set ls \<subseteq> {?s + 1..?b}" "mon_hpos m' = 0" for ls m'
    using that by (induction ls) (auto simp: quiet_line)
  have "fold (show_line t buf) [?s + 1..<?b + 1] (m\<lparr>mon_vpos := 0, mon_hpos := 0\<rparr>) = m\<lparr>mon_vpos := 0, mon_hpos := 0\<rparr>"
    by (rule quiet) auto
  with e show ?thesis by simp
qed

text \<open>A visible line: the horizontal sync moves the monitor down if it has drawn a line before.\<close>

definition draw_row :: "edid_detailed_timing \<Rightarrow> (nat option \<Rightarrow> u8 \<times> u8) \<Rightarrow> nat \<Rightarrow> nat \<Rightarrow> (nat \<Rightarrow> nat \<Rightarrow> u32) \<Rightarrow> nat \<Rightarrow> nat \<Rightarrow> u32" where
  "draw_row t buf v n img = (\<lambda>h w. if h < n \<and> w = v \<and> h < SCREEN_SIZE \<and> v < SCREEN_SIZE
     then pin_data (buf (Some (v * unat (npixels t) + h))) else img h w)"

lemma draw_row_Suc:
  "setPixel n v (pin_data (buf (Some (v * unat (npixels t) + n)))) (draw_row t buf v n img) = draw_row t buf v (Suc n) img"
  by (intro ext) (auto simp: setPixel_def draw_row_def less_Suc_eq)

lemma visible_pixels:
  "n \<le> unat (npixels t) \<Longrightarrow> mon_hpos m = 0 \<Longrightarrow> mon_vpos m = v \<Longrightarrow>
   fold (\<lambda>p. bdpi_hdmi_data (frame_sig t buf (unat (blines t) + 1 + v) p)) [unat (bpixels t)..<unat (bpixels t) + n] m =
   m\<lparr>mon_hpos := n, mon_image := draw_row t buf v n (mon_image m)\<rparr>"
proof (induction n)
  case 0
  then show ?case by (cases m) (simp add: draw_row_def)
next
  case (Suc n)
  then show ?case
    by (simp add: bdpi_hdmi_data_def show_data_def Let_def frame_sig_def draw_row_Suc)
qed

lemma visible_blank:
  assumes "edid_sane t" "unat (blines t) < l"
  shows "fold (\<lambda>p. bdpi_hdmi_data (frame_sig t buf l p)) [0..<unat (bpixels t)] m =
    m\<lparr>mon_vpos := (if mon_hpos m \<noteq> 0 then mon_vpos m + 1 else mon_vpos m), mon_hpos := 0\<rparr>"
proof -
  let ?h = "Suc (unat (hsyncoff t))" and ?b = "unat (bpixels t)" and ?f = "\<lambda>p. bdpi_hdmi_data (frame_sig t buf l p)"
  have h: "?h < ?b" "0 < unat (hsyncwidth t)" using assms(1) by (auto simp: edid_sane_def)
  have v: "\<not> vvs (frame_sig t buf l p)" for p using assms by (auto simp: frame_sig_def edid_sane_def)
  have d: "\<not> vde (frame_sig t buf l p)" if "p < ?b" for p using that by (simp add: frame_sig_def)
  have "[0..<?b] = [0..<?h] @ ?h # [?h + 1..<?b]"
    using h(1) by (metis Suc_eq_plus1 less_imp_le upt_conv_Cons upt_add_eq_append zero_le le_add_diff_inverse)
  then have "fold ?f [0..<?b] m = fold ?f [?h + 1..<?b] (?f ?h (fold ?f [0..<?h] m))" by simp
  also have "fold ?f [0..<?h] m = m" using h(1) v d by (intro fold_quiet) (auto simp: frame_sig_def)
  also have "?f ?h m = m\<lparr>mon_vpos := (if mon_hpos m \<noteq> 0 then mon_vpos m + 1 else mon_vpos m), mon_hpos := 0\<rparr>"
    using v [of ?h] d [OF h(1)] h by (auto simp: bdpi_hdmi_data_def show_data_def Let_def frame_sig_def)
  also have "fold ?f [?h + 1..<?b] (m\<lparr>mon_vpos := (if mon_hpos m \<noteq> 0 then mon_vpos m + 1 else mon_vpos m), mon_hpos := 0\<rparr>) =
      m\<lparr>mon_vpos := (if mon_hpos m \<noteq> 0 then mon_vpos m + 1 else mon_vpos m), mon_hpos := 0\<rparr>"
    using v d by (intro fold_quiet) auto
  finally show ?thesis .
qed

lemma visible_line:
  assumes "edid_sane t" "(if mon_hpos m \<noteq> 0 then mon_vpos m + 1 else mon_vpos m) = v"
  shows "show_line t buf (unat (blines t) + 1 + v) m =
    m\<lparr>mon_vpos := v, mon_hpos := unat (npixels t), mon_image := draw_row t buf v (unat (npixels t)) (mon_image m)\<rparr>"
proof -
  let ?b = "unat (bpixels t)" and ?n = "unat (npixels t)" and ?l = "unat (blines t) + 1 + v"
  have "[0..<?b + ?n] = [0..<?b] @ [?b..<?b + ?n]" by (rule upt_add_eq_append) simp
  then have "show_line t buf ?l m =
      fold (\<lambda>p. bdpi_hdmi_data (frame_sig t buf ?l p)) [?b..<?b + ?n] (m\<lparr>mon_vpos := v, mon_hpos := 0\<rparr>)"
    using visible_blank [OF assms(1), of ?l buf m] assms(2) by (simp add: show_line_def)
  then show ?thesis using visible_pixels [of ?n t "m\<lparr>mon_vpos := v, mon_hpos := 0\<rparr>" v buf] by simp
qed

text \<open>The image of a frame buffer on the screen, where the screen was not written before.\<close>

definition frame_image :: "edid_detailed_timing \<Rightarrow> (nat option \<Rightarrow> u8 \<times> u8) \<Rightarrow> nat \<Rightarrow> (nat \<Rightarrow> nat \<Rightarrow> u32) \<Rightarrow> nat \<Rightarrow> nat \<Rightarrow> u32" where
  "frame_image t buf n img = (\<lambda>h v. if h < unat (npixels t) \<and> v < n \<and> h < SCREEN_SIZE \<and> v < SCREEN_SIZE
     then pin_data (buf (Some (v * unat (npixels t) + h))) else img h v)"

lemma visible_lines:
  assumes "edid_sane t" "0 < n"
  shows "fold (show_line t buf) [unat (blines t) + 1..<unat (blines t) + 1 + n] (m\<lparr>mon_vpos := 0, mon_hpos := 0\<rparr>) =
    m\<lparr>mon_vpos := n - 1, mon_hpos := unat (npixels t), mon_image := frame_image t buf n (mon_image m)\<rparr>"
  using assms(2)
proof (induction n rule: nat_induct_non_zero)
  case 1
  have "draw_row t buf 0 (unat (npixels t)) (mon_image m) = frame_image t buf 1 (mon_image m)"
    by (intro ext) (auto simp: draw_row_def frame_image_def)
  then show ?case using visible_line [OF assms(1), of "m\<lparr>mon_vpos := 0, mon_hpos := 0\<rparr>" 0 buf] by simp
next
  case (Suc n)
  have "draw_row t buf n (unat (npixels t)) (frame_image t buf n (mon_image m)) = frame_image t buf (Suc n) (mon_image m)"
    by (intro ext) (auto simp: draw_row_def frame_image_def less_Suc_eq)
  moreover have "unat (npixels t) \<noteq> 0" using assms(1) by (auto simp: edid_sane_def)
  ultimately show ?case
    using Suc visible_line [OF assms(1), of "m\<lparr>mon_vpos := n - 1, mon_hpos := unat (npixels t), mon_image := frame_image t buf n (mon_image m)\<rparr>" n buf]
    by simp
qed

lemma frame_shown:
  assumes "edid_sane t" "0 < unat (nlines t)"
  shows "mon_image (fold (show_line t buf) [0..<unat (blines t) + unat (nlines t) + 1] m) = frame_image t buf (unat (nlines t)) (mon_image m)"
proof -
  have "[0..<unat (blines t) + unat (nlines t) + 1] = [0..<unat (blines t) + 1] @ [unat (blines t) + 1..<unat (blines t) + 1 + unat (nlines t)]"
    using upt_add_eq_append [of 0 "unat (blines t) + 1" "unat (nlines t)"] by (simp add: algebra_simps)
  then show ?thesis using blank_lines [OF assms(1)] visible_lines [OF assms] by (simp del: upt_Suc)
qed

section \<open>The device puts out the frame buffer\<close>

text \<open>The pixels still to come, in order.\<close>

definition stream :: "hdmi_display \<Rightarrow> u32 list" where
  "stream d = (if hd_evenOdd d then [] else [hd_saved d]) @ concat (map (\<lambda>w. [lo32 w, hi32 w]) (hd_words d))"

lemma doPut_stream:
  assumes "stream d = x # xs"
  shows "fst (doPut d) = Some x" "stream (snd (doPut d)) = xs" "hd_gen (snd (doPut d)) = hd_gen d"
    "hd_reference (snd (doPut d)) = hd_reference d" "hd_byteCount (snd (doPut d)) = hd_byteCount d"
  using assms by (auto simp: stream_def doPut_def split: if_splits list.splits)

lemma transfer_stream:
  "concat (map (\<lambda>w. [lo32 w, hi32 w]) (transfer_words mem ref byteCount)) = map (mem ref) [0..<2 * (unat byteCount div 8)]"
proof -
  have "concat (map (\<lambda>i. [f (2 * i), f (2 * i + 1)]) [0..<n]) = map f [0..<2 * n]" for f :: "nat \<Rightarrow> u32" and n
    by (induction n) auto
  then show ?thesis by (simp add: transfer_words_def comp_def)
qed

text \<open>
  The device at position \<open>p\<close> of line \<open>l\<close> of a frame that shows an object: from the first clock after the
  start of the transfer on, the pixels to come are those not put out yet.
\<close>

definition used :: "edid_detailed_timing \<Rightarrow> nat \<Rightarrow> nat \<Rightarrow> nat" where
  "used t l p = (if l \<le> unat (blines t) then 0 else (l - unat (blines t) - 1) * unat (npixels t) + (p - unat (bpixels t)))"

definition showing :: "edid_detailed_timing \<Rightarrow> (u32 \<Rightarrow> nat \<Rightarrow> u32) \<Rightarrow> u32 \<Rightarrow> nat \<Rightarrow> nat \<Rightarrow> hdmi_display \<Rightarrow> bool" where
  "showing t mem ref l p d \<longleftrightarrow>
     same_timing (set_timing t hdmi_reset) (hd_gen d) \<and> at_pos False False l p (hd_gen d) \<and>
     \<not> testPatternEnabled (hd_gen d) \<and> \<not> shadowTestPatternEnabled (hd_gen d) \<and>
     hd_reference d = Some ref \<and> unat (hd_byteCount d) = 4 * (unat (npixels t) * unat (nlines t)) \<and>
     (unat (vsyncoff t) < l \<or> l = unat (vsyncoff t) \<and> 0 < p \<longrightarrow>
        stream d = map (mem ref) [used t l p..<unat (npixels t) * unat (nlines t)])"

lemma showing_fields:
  assumes "edid_sane t" "showing t mem ref l p d"
  shows "timing_ok (hd_gen d)" "unat (dePixelEnd (hd_gen d)) = unat (bpixels t) + unat (npixels t) - 1"
    "unat (deLineEnd (hd_gen d)) = unat (blines t) + unat (nlines t)" "unat (deLinePorch (hd_gen d)) = unat (vsyncoff t)"
    "unat (dePixelVisible (hd_gen d)) = unat (bpixels t) - 1" "unat (deLineVisible (hd_gen d)) = unat (blines t)"
    "unat (deLineWidth (hd_gen d)) = unat (vsyncoff t) + unat (vsyncwidth t)"
    "unat (dePixelPorch (hd_gen d)) = unat (hsyncoff t)" "unat (dePixelWidth (hd_gen d)) = unat (hsyncoff t) + unat (hsyncwidth t)"
proof -
  have "same_timing (set_timing t hdmi_reset) (hd_gen d)" using assms(2) by (simp add: showing_def)
  with set_timing_fields [OF assms(1), of hdmi_reset] show "unat (dePixelEnd (hd_gen d)) = unat (bpixels t) + unat (npixels t) - 1"
    "unat (deLineEnd (hd_gen d)) = unat (blines t) + unat (nlines t)" "unat (deLinePorch (hd_gen d)) = unat (vsyncoff t)"
    "unat (dePixelVisible (hd_gen d)) = unat (bpixels t) - 1" "unat (deLineVisible (hd_gen d)) = unat (blines t)"
    "unat (deLineWidth (hd_gen d)) = unat (vsyncoff t) + unat (vsyncwidth t)"
    "unat (dePixelPorch (hd_gen d)) = unat (hsyncoff t)" "unat (dePixelWidth (hd_gen d)) = unat (hsyncoff t) + unat (hsyncwidth t)"
    by (simp_all add: same_timing_def)
  then show "timing_ok (hd_gen d)"
    using assms(1) by (auto simp: timing_ok_def word_less_nat_alt word_le_nat_alt edid_sane_def)
qed

text \<open>The colours of a frame buffer, as the generator puts them out and as the converter does.\<close>

definition rgb_pixels :: "(nat \<Rightarrow> u32) \<Rightarrow> nat option \<Rightarrow> rgb888" where
  "rgb_pixels buf x = (case x of None \<Rightarrow> Rgb888 0 0 0 | Some i \<Rightarrow> unpack_rgb (ucast (buf i)))"

definition yyuv_pixel :: "bool \<Rightarrow> u32 \<Rightarrow> u8 \<times> u8" where
  "yyuv_pixel odd_pixel x = (let c = sw_rgbtoyuv (unpack_rgb (ucast x)) in (if odd_pixel then chroma_u c else chroma_v c, luma c))"

definition yyuv_pixels :: "(nat \<Rightarrow> u32) \<Rightarrow> nat option \<Rightarrow> u8 \<times> u8" where
  "yyuv_pixels buf x = (case x of None \<Rightarrow> (0, 0) | Some i \<Rightarrow> yyuv_pixel (odd i) (buf i))"

lemma showing_stage:
  assumes "edid_sane t" "showing t mem ref l p d" "unat (blines t) < l \<and> unat (bpixels t) \<le> p \<longrightarrow> inp = Some (mem ref (used t l p))"
  shows "vid_of (next_stage inp (hd_gen d)) = frame_sig t (rgb_pixels (mem ref)) l p"
    "dataEnable (hd_gen d) = (unat (blines t) < l \<and> unat (bpixels t) \<le> p)"
proof -
  have "at_pos False False l p (hd_gen d)" using assms(2) by (simp add: showing_def)
  note d = at_posD(4,5,6) [OF this, unfolded showing_fields [OF assms(1,2)]]
  show de: "dataEnable (hd_gen d) = (unat (blines t) < l \<and> unat (bpixels t) \<le> p)" using d(1) assms(1) by (auto simp: edid_sane_def)
  have "hg_vsync (hd_gen d) = (\<not> (l < unat (vsyncoff t) \<or> l = unat (vsyncoff t) \<and> p = 0) \<and>
      (l < unat (vsyncoff t) + unat (vsyncwidth t) \<or> l = unat (vsyncoff t) + unat (vsyncwidth t) \<and> p = 0))"
    "hg_hsync (hd_gen d) = (unat (hsyncoff t) < p \<and> p \<le> unat (hsyncoff t) + unat (hsyncwidth t))"
    using d(2,3) by auto
  then show "vid_of (next_stage inp (hd_gen d)) = frame_sig t (rgb_pixels (mem ref)) l p"
    using assms(2,3) unfolding next_stage_def frame_sig_def de by (simp add: showing_def used_def vid_of_def rgb_pixels_def unpack_rgb_def)
qed

text \<open>The next position, and how many pixels have been used there.\<close>

definition next_pos :: "edid_detailed_timing \<Rightarrow> nat \<times> nat \<Rightarrow> nat \<times> nat" where
  "next_pos t = (\<lambda>(l, p). if Suc p < unat (bpixels t) + unat (npixels t) then (l, Suc p)
     else if l < unat (blines t) + unat (nlines t) then (Suc l, 0) else (0, 0))"

definition in_frame :: "edid_detailed_timing \<Rightarrow> nat \<Rightarrow> nat \<Rightarrow> bool" where
  "in_frame t l p \<longleftrightarrow> p < unat (bpixels t) + unat (npixels t) \<and> l \<le> unat (blines t) + unat (nlines t)"

lemma used_next:
  assumes "in_frame t l p" "next_pos t (l, p) = (l', p')" "(l', p') \<noteq> (0, 0)"
  shows "used t l' p' = (if unat (blines t) < l \<and> unat (bpixels t) \<le> p then Suc (used t l p) else used t l p)"
proof (cases "Suc p < unat (bpixels t) + unat (npixels t)")
  case True
  with assms show ?thesis by (auto simp: next_pos_def used_def)
next
  case False
  with assms have e: "l' = Suc l" "p' = 0" "Suc p = unat (bpixels t) + unat (npixels t)"
    by (auto simp: next_pos_def in_frame_def split: if_splits)
  show ?thesis
  proof (cases "unat (blines t) < l")
    case l: True
    then obtain k where k: "l = Suc (unat (blines t) + k)" using less_iff_Suc_add by auto
    show ?thesis
    proof (cases "npixels t = 0")
      case False
      then obtain q where q: "unat (npixels t) = Suc q" by (metis nat.exhaust unat_eq_0)
      with e(3) have "p = unat (bpixels t) + q" "unat (npixels t) = Suc q" by simp_all
      with e(1,2) k show ?thesis by (simp add: used_def)
    qed (use e k in \<open>simp add: used_def\<close>)
  qed (use e in \<open>simp add: used_def\<close>)
qed

lemma used_bound:
  assumes "in_frame t l p" "unat (blines t) < l" "unat (bpixels t) \<le> p"
  shows "used t l p < unat (npixels t) * unat (nlines t)"
proof -
  obtain k where k: "l = Suc (unat (blines t) + k)" using assms(2) less_iff_Suc_add by auto
  then have "Suc k \<le> unat (nlines t)" using assms(1) by (simp add: in_frame_def)
  then have "Suc k * unat (npixels t) \<le> unat (nlines t) * unat (npixels t)" by (rule mult_le_mono1)
  moreover have "p - unat (bpixels t) < unat (npixels t)" using assms(1,3) by (auto simp: in_frame_def)
  ultimately show ?thesis using k by (simp add: used_def mult.commute)
qed

lemma inc_counters_pos:
  assumes "edid_sane t" "showing t mem ref l p d" "in_frame t l p"
  shows "case next_pos t (l, p) of (l', p') \<Rightarrow> at_pos False False l' p' (fst (inc_counters (hd_gen d)))"
    and "starts_dma (hd_gen d) \<longleftrightarrow> (l, p) = (unat (vsyncoff t), 0)"
    and "\<not> testPatternEnabled (fst (inc_counters (hd_gen d)))"
    and "shadowTestPatternEnabled (fst (inc_counters (hd_gen d))) = shadowTestPatternEnabled (hd_gen d)"
proof -
  let ?g = "hd_gen d"
  note f = showing_fields [OF assms(1,2)]
  have pos: "at_pos False False l p ?g" and tp: "\<not> testPatternEnabled ?g" "\<not> shadowTestPatternEnabled ?g"
    using assms(2) by (simp_all add: showing_def)
  note d = at_posD [OF pos]
  have W: "Suc (unat (dePixelEnd ?g)) = unat (bpixels t) + unat (npixels t)" using f(2) assms(1) by (auto simp: edid_sane_def)
  then have W': "p = unat (dePixelEnd ?g) \<longleftrightarrow> \<not> Suc p < unat (bpixels t) + unat (npixels t)" "p \<le> unat (dePixelEnd ?g)"
    using assms(3) by (auto simp: in_frame_def)
  have lb: "l \<le> unat (deLineEnd ?g)" using assms(3) f(3) by (simp add: in_frame_def)
  show "case next_pos t (l, p) of (l', p') \<Rightarrow> at_pos False False l' p' (fst (inc_counters ?g))"
    using within_line_pos [OF f(1) pos] end_of_line_pos [OF f(1) pos _ lb] W' lb
    by (auto simp: next_pos_def inc_counters_def d(8) f(3) split: if_splits)
  show "starts_dma ?g \<longleftrightarrow> (l, p) = (unat (vsyncoff t), 0)"
    using W' assms(1) tp(1) by (auto simp: starts_dma_def inc_counters_def end_of_line_def within_line_def Let_def d(7,8) f(4) edid_sane_def)
  show "\<not> testPatternEnabled (fst (inc_counters ?g))"
    "shadowTestPatternEnabled (fst (inc_counters ?g)) = shadowTestPatternEnabled ?g"
    using tp by (simp_all add: inc_counters_def end_of_line_def within_line_def Let_def)
qed

lemma hd_tick_fields:
  "hd_gen (hd_tick mem d) = fst (hdmi_tick (if dataEnable (hd_gen d) \<and> \<not> testPatternEnabled (hd_gen d) then fst (doPut d) else None) (hd_gen d))"
  "hd_reference (hd_tick mem d) = hd_reference d" "hd_byteCount (hd_tick mem d) = hd_byteCount d"
  "stream (hd_tick mem d) =
     (if starts_dma (hd_gen d)
      then (case hd_reference d of None \<Rightarrow> [] | Some ref \<Rightarrow> map (mem ref) [0..<2 * (unat (hd_byteCount d) div 8)])
      else if dataEnable (hd_gen d) \<and> \<not> testPatternEnabled (hd_gen d) then stream (snd (doPut d)) else stream d)"
  by (auto simp: hd_tick_def Let_def startTransfer_def doPut_def stream_def transfer_stream split: option.split list.split prod.split)

lemma hdmi_tick_fields:
  "rgb888StageReg (fst (hdmi_tick inp g)) = next_stage inp g"
  "testPatternEnabled (fst (hdmi_tick inp g)) = testPatternEnabled (fst (inc_counters g))"
  "shadowTestPatternEnabled (fst (hdmi_tick inp g)) = shadowTestPatternEnabled (fst (inc_counters g))"
  by (simp_all add: hdmi_tick_def split: prod.split)

lemma showing_step:
  assumes "edid_sane t" "even (unat (npixels t) * unat (nlines t))" "showing t mem ref l p d" "in_frame t l p"
  shows "vid_of (rgb888StageReg (hd_gen (hd_tick mem d))) = frame_sig t (rgb_pixels (mem ref)) l p"
    and "case next_pos t (l, p) of (l', p') \<Rightarrow> showing t mem ref l' p' (hd_tick mem d)"
proof -
  let ?N = "unat (npixels t) * unat (nlines t)" and ?g = "hd_gen d"
  let ?de = "unat (blines t) < l \<and> unat (bpixels t) \<le> p"
  let ?inp = "if dataEnable ?g \<and> \<not> testPatternEnabled ?g then fst (doPut d) else None"
  have sh: "same_timing (set_timing t hdmi_reset) ?g" "\<not> testPatternEnabled ?g" "\<not> shadowTestPatternEnabled ?g"
    "hd_reference d = Some ref" "unat (hd_byteCount d) = 4 * ?N"
    "unat (vsyncoff t) < l \<or> l = unat (vsyncoff t) \<and> 0 < p \<Longrightarrow> stream d = map (mem ref) [used t l p..<?N]"
    using assms(3) by (simp_all add: showing_def)
  have v: "unat (vsyncoff t) < l" if ?de using that assms(1) by (auto simp: edid_sane_def)
  have de: "dataEnable ?g = ?de"
    by (rule showing_stage(2) [OF assms(1,3), of "Some (mem ref (used t l p))"]) simp
  have put: "stream d = mem ref (used t l p) # map (mem ref) [Suc (used t l p)..<?N]" if ?de
    using sh(6) v [OF that] used_bound [OF assms(4)] that by (simp add: upt_conv_Cons)
  have inp: "?de \<longrightarrow> ?inp = Some (mem ref (used t l p))" using doPut_stream(1) [OF put] sh(2) de by simp
  show "vid_of (rgb888StageReg (hd_gen (hd_tick mem d))) = frame_sig t (rgb_pixels (mem ref)) l p"
    using showing_stage(1) [OF assms(1,3) inp] by (simp only: hd_tick_fields hdmi_tick_fields)
  obtain l' p' where n: "next_pos t (l, p) = (l', p')" by (cases "next_pos t (l, p)")
  note inc = inc_counters_pos [OF assms(1,3,4), unfolded n prod.case]
  have "stream (hd_tick mem d) = map (mem ref) [used t l' p'..<?N]" if "unat (vsyncoff t) < l' \<or> l' = unat (vsyncoff t) \<and> 0 < p'"
  proof (cases "(l, p) = (unat (vsyncoff t), 0)")
    case True
    then have "used t l' p' = 0" using n assms(1) by (auto simp: next_pos_def used_def edid_sane_def split: if_splits)
    moreover obtain k where "?N = 2 * k" using assms(2) by (rule evenE)
    then have "2 * (unat (hd_byteCount d) div 8) = ?N" unfolding sh(5) by simp
    ultimately show ?thesis using True inc(2) sh(4) by (simp only: hd_tick_fields) simp
  next
    case False
    have "(l', p') \<noteq> (0, 0)" using that by auto
    then have "unat (vsyncoff t) < l \<or> l = unat (vsyncoff t) \<and> 0 < p"
      using that False n by (auto simp: next_pos_def split: if_splits)
    with sh(2,6) used_next [OF assms(4) n \<open>(l', p') \<noteq> (0, 0)\<close>] put doPut_stream(2) [OF put] False inc(2) de show ?thesis
      by (auto simp: hd_tick_fields)
  qed
  with inc(1,3,4) sh(1,3,4,5) same_timing_trans [OF sh(1) tick_same_timing]
  show "case next_pos t (l, p) of (l', p') \<Rightarrow> showing t mem ref l' p' (hd_tick mem d)"
    by (simp add: n showing_def hd_tick_fields hdmi_tick_fields at_pos_tick)
qed

section \<open>Through the converter\<close>

definition frame_pos :: "edid_detailed_timing \<Rightarrow> nat \<Rightarrow> nat \<times> nat" where
  "frame_pos t k =
     (k div (unat (bpixels t) + unat (npixels t)) mod (unat (blines t) + unat (nlines t) + 1), k mod (unat (bpixels t) + unat (npixels t)))"

definition sig_at :: "edid_detailed_timing \<Rightarrow> (nat option \<Rightarrow> 'p) \<Rightarrow> nat \<Rightarrow> 'p vid" where
  "sig_at t buf k = case_prod (frame_sig t buf) (frame_pos t k)"

text \<open>A timing whose vertical front porch is not empty, with an even number of pixels, for a buffer the byte counter can hold.\<close>

definition displayable :: "edid_detailed_timing \<Rightarrow> bool" where
  "displayable t \<longleftrightarrow> edid_sane t \<and> 0 < unat (vsyncoff t) \<and> 5 \<le> unat (npixels t) \<and> 0 < unat (nlines t) \<and>
     even (unat (npixels t) * unat (nlines t)) \<and> 4 * (unat (npixels t) * unat (nlines t)) < 2 ^ 24"

lemma displayableD:
  assumes "displayable t"
  shows "edid_sane t" "0 < unat (vsyncoff t)" "even (unat (npixels t) * unat (nlines t))" "0 < unat (nlines t)"
    "7 \<le> unat (bpixels t) + unat (npixels t)" "unat (vsyncoff t) < unat (blines t)"
  using assms by (auto simp: displayable_def edid_sane_def)

lemma frame_pos_next:
  assumes "displayable t"
  shows "next_pos t (frame_pos t k) = frame_pos t (Suc k)" "case_prod (in_frame t) (frame_pos t k)"
proof -
  obtain H where H: "unat (bpixels t) + unat (npixels t) = Suc H" using displayableD(5) [OF assms] by (cases "unat (bpixels t) + unat (npixels t)") auto
  have "k mod Suc H < H \<or> k mod Suc H = H" by (metis less_Suc_eq mod_less_divisor zero_less_Suc)
  moreover have "k div Suc H mod Suc (unat (blines t) + unat (nlines t)) < unat (blines t) + unat (nlines t) \<or>
      k div Suc H mod Suc (unat (blines t) + unat (nlines t)) = unat (blines t) + unat (nlines t)"
    by (metis less_Suc_eq mod_less_divisor zero_less_Suc)
  ultimately show "case_prod (in_frame t) (frame_pos t k)" "next_pos t (frame_pos t k) = frame_pos t (Suc k)"
    using mixed_radix_Suc [of k H] unfolding frame_pos_def next_pos_def in_frame_def H
    by (auto simp: mod_Suc)
qed

lemma row_col: "i < W \<Longrightarrow> (v * W + i) div W = v" "i < W \<Longrightarrow> (v * W + i) mod W = (i :: nat)"
  by simp_all

text \<open>The clock in which the transfer starts, and the clocks before it, in which nothing is shown.\<close>

lemma frame_pos_start:
  assumes "displayable t" "k < (unat (bpixels t) + unat (npixels t)) * (unat (blines t) + unat (nlines t) + 1) + 6"
  shows "frame_pos t k = (unat (vsyncoff t), 0) \<longleftrightarrow> k = unat (vsyncoff t) * (unat (bpixels t) + unat (npixels t))"
proof -
  let ?W = "unat (bpixels t) + unat (npixels t)" and ?L = "unat (blines t) + unat (nlines t) + 1"
  note d = displayableD [OF assms(1)]
  show ?thesis
  proof (cases "k < ?W * ?L")
    case True
    then have "k div ?W < ?L" by (simp add: less_mult_imp_div_less mult.commute)
    then have "frame_pos t k = (k div ?W, k mod ?W)" by (simp add: frame_pos_def)
    moreover have "k = k div ?W * ?W + k mod ?W" by (rule div_mult_mod_eq [symmetric])
    ultimately show ?thesis using row_col [of 0 ?W "unat (vsyncoff t)"] d(5) by (metis add.right_neutral Pair_inject gr0I not_numeral_le_zero)
  next
    case False
    then obtain i where i: "k = ?W * ?L + i" "i < 6" using assms(2) by (metis add_less_cancel_left le_add_diff_inverse not_less)
    have "i div ?W = 0" using i(2) d(5) by simp
    moreover have W: "0 < ?W" using d(5) by linarith
    ultimately have "frame_pos t k = (0, i mod ?W)" unfolding frame_pos_def i(1) frame_shift [OF W] by simp
    moreover have "unat (vsyncoff t) * ?W < ?L * ?W" using d(5,6) by (intro mult_strict_right_mono) auto
    ultimately show ?thesis using d(2) i(1) by (auto simp: mult.commute)
  qed
qed

lemma sig_before_start:
  assumes "displayable t" "k < unat (vsyncoff t) * (unat (bpixels t) + unat (npixels t))" "unat (vsyncoff t) * (unat (bpixels t) + unat (npixels t)) \<le> k + 5"
  shows "sig_at t buf k = Vid False False False (buf None)"
proof -
  let ?W = "unat (bpixels t) + unat (npixels t)"
  note d = displayableD [OF assms(1)]
  obtain v where v: "unat (vsyncoff t) = Suc v" using d(2) by (cases "unat (vsyncoff t)") auto
  define i where "i = ?W - (Suc v * ?W - k)"
  have "Suc v * ?W - k \<le> 5" "0 < Suc v * ?W - k" using assms(2,3) v by auto
  then have i: "k = v * ?W + i" "i < ?W" "unat (bpixels t) \<le> i"
    using d(5) assms(1) by (auto simp: i_def displayable_def)
  then have "k div ?W = v" "k mod ?W = i" using row_col by blast+
  moreover have "v mod (unat (blines t) + unat (nlines t) + 1) = v" using d(6) v by simp
  ultimately have "frame_pos t k = (v, i)" by (simp add: frame_pos_def)
  then show ?thesis using d(1,6) v i by (simp add: sig_at_def frame_sig_def edid_sane_def)
qed

lemma blank_before_start:
  assumes "displayable t" "k \<le> unat (vsyncoff t) * (unat (bpixels t) + unat (npixels t))"
  shows "\<not> vde (sig_at t buf k)" "case_prod (used t) (frame_pos t k) = 0"
proof -
  let ?W = "unat (bpixels t) + unat (npixels t)"
  note d = displayableD [OF assms(1)]
  have "k div ?W \<le> unat (vsyncoff t)" using div_le_mono [OF assms(2), of ?W] row_col(1) [of 0 ?W "unat (vsyncoff t)"] d(5)
    by (metis add.right_neutral gr0I not_numeral_le_zero)
  then have "fst (frame_pos t k) \<le> unat (blines t)" using d(6) by (simp add: frame_pos_def)
  then show "\<not> vde (sig_at t buf k)" "case_prod (used t) (frame_pos t k) = 0"
    by (auto simp: sig_at_def frame_sig_def used_def split: prod.split)
qed

text \<open>What the converter holds after \<open>k\<close> clocks of a frame; the register of the generator is the first of six stages.\<close>

definition frame_pipe :: "edid_detailed_timing \<Rightarrow> (nat \<Rightarrow> u32) \<Rightarrow> nat \<Rightarrow> hdmi_display \<Rightarrow> yyuv_pipe \<Rightarrow> bool" where
  "frame_pipe t buf k d c \<longleftrightarrow>
     (\<forall>j. k = j + 1 \<longrightarrow> vid_of (rgb888StageReg (hd_gen d)) = sig_at t (rgb_pixels buf) j) \<and>
     (\<forall>j. k = j + 2 \<longrightarrow> stage0Reg c = sig_at t (rgb_pixels buf) j) \<and>
     (\<forall>j. k = j + 3 \<longrightarrow> stage1Reg c = stage1 (sig_at t (rgb_pixels buf) j)) \<and>
     (\<forall>j. k = j + 4 \<longrightarrow> stage2Reg c = stage2 (stage1 (sig_at t (rgb_pixels buf) j))) \<and>
     (\<forall>j. k = j + 5 \<longrightarrow> stage3Reg c = stage3 (stage2 (stage1 (sig_at t (rgb_pixels buf) j)))) \<and>
     (\<forall>j. k = j + 6 \<longrightarrow> stage4Reg c = sig_at t (yyuv_pixels buf) j)"

definition frame_parity :: "edid_detailed_timing \<Rightarrow> nat \<Rightarrow> yyuv_pipe \<Rightarrow> bool" where
  "frame_parity t k c \<longleftrightarrow>
     (\<forall>j. k = j + 5 \<and> unat (vsyncoff t) * (unat (bpixels t) + unat (npixels t)) < k \<and> j < (unat (bpixels t) + unat (npixels t)) * (unat (blines t) + unat (nlines t) + 1) \<longrightarrow>
        evenOddPixelReg c = odd (case_prod (used t) (frame_pos t j)))"

lemma converted:
  "vde (sig_at t (rgb_pixels buf) j) \<longrightarrow> e = odd (case_prod (used t) (frame_pos t j)) \<Longrightarrow>
   stage4 e (stage3 (stage2 (stage1 (sig_at t (rgb_pixels buf) j)))) = sig_at t (yyuv_pixels buf) j"
  unfolding stages_through
  by (auto simp: stage4_def sig_at_def frame_sig_def rgb_pixels_def yyuv_pixels_def yyuv_pixel_def used_def Let_def split: prod.splits)

lemma pipe_tick:
  assumes "frame_pipe t buf k d c" "frame_parity t k c" "displayable t" "k < (unat (bpixels t) + unat (npixels t)) * (unat (blines t) + unat (nlines t) + 1) + 5"
    and "vid_of (rgb888StageReg (hd_gen d')) = sig_at t (rgb_pixels buf) k"
  shows "frame_pipe t buf (Suc k) d' (yyuv_tick (vid_of (rgb888StageReg (hd_gen d))) c)"
proof -
  have "stage4 (evenOddPixelReg c) (stage3Reg c) = sig_at t (yyuv_pixels buf) j" if k: "k = j + 5" for j
  proof -
    have "stage3Reg c = stage3 (stage2 (stage1 (sig_at t (rgb_pixels buf) j)))" using assms(1) k by (simp add: frame_pipe_def)
    moreover have "vde (sig_at t (rgb_pixels buf) j) \<longrightarrow> evenOddPixelReg c = odd (case_prod (used t) (frame_pos t j))"
      using assms(2,4) k blank_before_start(1) [OF assms(3), of j "rgb_pixels buf"] by (auto simp: frame_parity_def not_le)
    ultimately show ?thesis using converted by metis
  qed
  with assms(1,5) show ?thesis by (simp add: frame_pipe_def yyuv_tick_def)
qed

lemma parity_tick:
  assumes "frame_pipe t buf k d c" "frame_parity t k c" "displayable t"
    and "k \<noteq> unat (vsyncoff t) * (unat (bpixels t) + unat (npixels t))"
  shows "frame_parity t (Suc k) (yyuv_tick x c)"
proof -
  let ?W = "unat (bpixels t) + unat (npixels t)" and ?L = "unat (blines t) + unat (nlines t) + 1"
  have "evenOddPixelReg (yyuv_tick x c) = odd (case_prod (used t) (frame_pos t j))"
    if k: "k = j + 4" "unat (vsyncoff t) * ?W < Suc k" and j: "j < ?W * ?L" for j
  proof -
    have r: "unat (vsyncoff t) * ?W < k" using k(2) assms(4) by simp
    obtain i where i: "k = i + 5" "j = Suc i"
    proof -
      have "7 \<le> unat (vsyncoff t) * ?W" using displayableD(2,5) [OF assms(3)] by (cases "unat (vsyncoff t)") auto
      with r k(1) that [of "j - 1"] show thesis by simp
    qed
    have e: "evenOddPixelReg c = odd (case_prod (used t) (frame_pos t i))" and s: "vde (stage3Reg c) = vde (sig_at t (rgb_pixels buf) i)"
      using assms(1,2) i r j by (auto simp: frame_parity_def frame_pipe_def)
    obtain l p where lp: "frame_pos t i = (l, p)" by (cases "frame_pos t i")
    obtain l' p' where lp': "frame_pos t j = (l', p')" by (cases "frame_pos t j")
    have "next_pos t (l, p) = (l', p')" "in_frame t l p" using frame_pos_next [OF assms(3), of i] lp lp' i by simp_all
    moreover have "(l', p') \<noteq> (0, 0)"
    proof
      assume z: "(l', p') = (0, 0)"
      from j have "j div ?W < ?L" by (simp add: less_mult_imp_div_less mult.commute)
      then have "j div ?W = 0" "j mod ?W = 0" using z lp' by (simp_all add: frame_pos_def)
      then have "j = 0" by (metis div_mult_mod_eq add.right_neutral mult_0)
      with i show False by simp
    qed
    ultimately have "used t l' p' = (if unat (blines t) < l \<and> unat (bpixels t) \<le> p then Suc (used t l p) else used t l p)"
      by (intro used_next)
    with e s lp lp' show ?thesis by (auto simp: yyuv_tick_def sig_at_def frame_sig_def)
  qed
  then show ?thesis by (simp add: frame_parity_def)
qed

text \<open>The reset finds the converter empty.\<close>

lemma pipe_reset:
  assumes "frame_pipe t buf k d c" "displayable t" "k = unat (vsyncoff t) * (unat (bpixels t) + unat (npixels t))"
    and "vid_of (rgb888StageReg (hd_gen d')) = sig_at t (rgb_pixels buf) k"
  shows "frame_pipe t buf (Suc k) d' yyuv_reset" "frame_parity t (Suc k) yyuv_reset"
proof -
  have q: "sig_at t (rgb_pixels buf) j = Vid False False False (Rgb888 0 0 0)" "sig_at t (yyuv_pixels buf) j = Vid False False False (0, 0)"
    if "j < k" "k \<le> j + 5" for j
    using that unfolding assms(3) by (simp_all add: sig_before_start [OF assms(2)] rgb_pixels_def yyuv_pixels_def)
  then show "frame_pipe t buf (Suc k) d' yyuv_reset"
    using assms(4) by (auto simp: frame_pipe_def yyuv_reset_def q stage1_def stage2_def stage3_def)
  show "frame_parity t (Suc k) yyuv_reset"
    using blank_before_start(2) [OF assms(2)] assms(3) by (auto simp: frame_parity_def yyuv_reset_def)
qed

lemma frame_run:
  assumes "displayable t" "showing t mem ref 0 0 d" "k \<le> (unat (bpixels t) + unat (npixels t)) * (unat (blines t) + unat (nlines t) + 1) + 5"
  shows "case hd_show mem k (d, c, m) of (d', c', m') \<Rightarrow>
    case_prod (showing t mem ref) (frame_pos t k) d' \<and> frame_pipe t (mem ref) k d' c' \<and> frame_parity t k c'"
  using assms(3)
proof (induction k)
  case 0
  show ?case using assms(2) by (simp add: frame_pos_def frame_pipe_def frame_parity_def)
next
  case (Suc k)
  let ?R = "unat (vsyncoff t) * (unat (bpixels t) + unat (npixels t))"
  note D = displayableD [OF assms(1)]
  obtain d' c' m' where st: "hd_show mem k (d, c, m) = (d', c', m')" by (metis prod_cases3)
  obtain l p where lp: "frame_pos t k = (l, p)" by (cases "frame_pos t k")
  have IH: "showing t mem ref l p d'" "frame_pipe t (mem ref) k d' c'" "frame_parity t k c'"
    using Suc st lp by simp_all
  have inf: "in_frame t l p" and nx: "next_pos t (l, p) = frame_pos t (Suc k)" using frame_pos_next [OF assms(1), of k] lp by simp_all
  note step = showing_step [OF D(1,3) IH(1) inf]
  have v: "vid_of (rgb888StageReg (hd_gen (hd_tick mem d'))) = sig_at t (rgb_pixels (mem ref)) k" using step(1) lp by (simp add: sig_at_def)
  have r: "starts_dma (hd_gen d') \<longleftrightarrow> k = ?R"
    using inc_counters_pos(2) [OF D(1) IH(1) inf] frame_pos_start [OF assms(1), of k] Suc.prems lp by simp
  have "frame_pipe t (mem ref) (Suc k) (hd_tick mem d') c'' \<and> frame_parity t (Suc k) c''"
    if "c'' = (if starts_dma (hd_gen d') then yyuv_reset else yyuv_tick (vid_of (rgb888StageReg (hd_gen d'))) c')" for c''
    using that r v pipe_reset [OF IH(2) assms(1)] pipe_tick [OF IH(2,3) assms(1)] parity_tick [OF IH(2,3) assms(1)] Suc.prems
    by (cases "starts_dma (hd_gen d')") simp_all
  with step(2) st nx show ?case by (auto simp: hd_clock_def)
qed

lemma hd_show_add: "hd_show mem (a + b) st = hd_show mem b (hd_show mem a st)"
  by (induction b) simp_all

lemma fold_lines:
  assumes "0 < (W :: nat)"
  shows "fold (\<lambda>j. f (j div W) (j mod W)) [0..<W * n] x = fold (\<lambda>l. fold (f l) [0..<W]) [0..<n] x"
proof (induction n)
  case (Suc n)
  have "fold (\<lambda>j. f (j div W) (j mod W)) [W * n..<W * n + k] y = fold (f n) [0..<k] y" if "k \<le> W" for k y
    using that by (induction k) simp_all
  moreover have "[0..<W * Suc n] = [0..<W * n] @ [W * n..<W * n + W]" by (metis mult_Suc_right add.commute upt_add_eq_append zero_le)
  ultimately show ?case using Suc by simp
qed simp

lemma frame_on_monitor:
  fixes t
  defines "WL \<equiv> (unat (bpixels t) + unat (npixels t)) * (unat (blines t) + unat (nlines t) + 1)"
  assumes "displayable t" "showing t mem ref 0 0 d"
  shows "mon_image (snd (snd (hd_show mem (WL + 6) (d, c, m)))) =
    frame_image t (yyuv_pixels (mem ref)) (unat (nlines t)) (mon_image (snd (snd (hd_show mem 6 (d, c, m)))))"
proof -
  let ?W = "unat (bpixels t) + unat (npixels t)" and ?L = "unat (blines t) + unat (nlines t) + 1"
  let ?Y = "yyuv_pixels (mem ref)" and ?m6 = "snd (snd (hd_show mem 6 (d, c, m)))"
  have "snd (snd (hd_show mem (n + 6) (d, c, m))) = fold (\<lambda>j. bdpi_hdmi_data (sig_at t ?Y j)) [0..<n] ?m6" if "n \<le> WL" for n
    using that
  proof (induction n)
    case (Suc n)
    obtain d' c' m' where st: "hd_show mem (n + 6) (d, c, m) = (d', c', m')" by (metis prod_cases3)
    have "frame_pipe t (mem ref) (n + 6) d' c'"
      using frame_run [OF assms(2,3), of "n + 6" c m] Suc.prems st by (simp add: WL_def)
    then have "stage4Reg c' = sig_at t ?Y n" by (simp add: frame_pipe_def)
    moreover have "hd_show mem (Suc n + 6) (d, c, m) = hd_clock mem (hd_show mem (n + 6) (d, c, m))" by (simp only: add_Suc hd_show.simps)
    ultimately show ?case using Suc st by (simp add: hd_clock_def)
  qed simp
  then have "snd (snd (hd_show mem (WL + 6) (d, c, m))) = fold (\<lambda>j. bdpi_hdmi_data (sig_at t ?Y j)) [0..<?W * ?L] ?m6"
    by (simp add: WL_def)
  also have "\<dots> = fold (\<lambda>j. bdpi_hdmi_data (frame_sig t ?Y (j div ?W) (j mod ?W))) [0..<?W * ?L] ?m6"
  proof (rule fold_cong [OF refl refl])
    fix j
    assume "j \<in> set [0..<?W * ?L]"
    then have "j div ?W < ?L" by (simp add: less_mult_imp_div_less mult.commute)
    then show "bdpi_hdmi_data (sig_at t ?Y j) = bdpi_hdmi_data (frame_sig t ?Y (j div ?W) (j mod ?W))"
      by (simp add: sig_at_def frame_pos_def)
  qed
  also have "\<dots> = fold (show_line t ?Y) [0..<?L] ?m6"
    using fold_lines [of ?W "\<lambda>l p. bdpi_hdmi_data (frame_sig t ?Y l p)" ?L ?m6] displayableD(5) [OF assms(2)]
    unfolding show_line_def by linarith
  finally show ?thesis using frame_shown [OF displayableD(1,4) [OF assms(2)]] by simp
qed

text \<open>Any frame start becomes one that shows a buffer after one frame, if the request to show it was made before.\<close>

lemma hd_show_run:
  "\<exists>inps. length inps = n \<and> hd_gen (fst (hd_show mem n (d, c, m))) = hdmi_run inps (hd_gen d)"
  "hd_reference (fst (hd_show mem n (d, c, m))) = hd_reference d" "hd_byteCount (fst (hd_show mem n (d, c, m))) = hd_byteCount d"
  "shadowTestPatternEnabled (hd_gen (fst (hd_show mem n (d, c, m)))) = shadowTestPatternEnabled (hd_gen d)"
proof (induction n)
  case (Suc n)
  { case 1
    from Suc(1) obtain inps where "length inps = n" "hd_gen (fst (hd_show mem n (d, c, m))) = hdmi_run inps (hd_gen d)" by blast
    then show ?case
      by (intro exI [of _ "inps @ [if dataEnable (hdmi_run inps (hd_gen d)) \<and> \<not> testPatternEnabled (hdmi_run inps (hd_gen d))
          then fst (doPut (fst (hd_show mem n (d, c, m)))) else None]"])
        (simp add: hd_clock_def split_beta hd_tick_fields) }
  { case 2 then show ?case using Suc(2) by (simp add: hd_clock_def split_beta hd_tick_fields) }
  { case 3 then show ?case using Suc(3) by (simp add: hd_clock_def split_beta hd_tick_fields) }
  { case 4 then show ?case using Suc(4)
      by (simp add: hd_clock_def split_beta hd_tick_fields hdmi_tick_fields inc_counters_def end_of_line_def within_line_def Let_def) }
qed (auto intro: exI [of _ "[]"])

lemma frame_end_pos:
  assumes "displayable t" "same_timing (set_timing t hdmi_reset) g" "at_pos hs vs 0 0 g"
    and "Suc (length inps) = (unat (bpixels t) + unat (npixels t)) * (unat (blines t) + unat (nlines t) + 1)"
  shows "at_pos False False 0 0 (fst (hdmi_tick inp (hdmi_run inps g)))"
    and "testPatternEnabled (fst (hdmi_tick inp (hdmi_run inps g))) = shadowTestPatternEnabled (hdmi_run inps g)"
proof -
  let ?h = "hdmi_run inps g"
  note D = displayableD [OF assms(1)]
  have st: "same_timing (set_timing t hdmi_reset) ?h" by (rule same_timing_trans [OF assms(2) hdmi_run_same_timing])
  have f: "timing_ok (set_timing t hdmi_reset)"
    "Suc (unat (dePixelEnd (set_timing t hdmi_reset))) = unat (bpixels t) + unat (npixels t)"
    "Suc (unat (deLineEnd (set_timing t hdmi_reset))) = unat (blines t) + unat (nlines t) + 1"
    using set_timing_fields [OF D(1), of hdmi_reset] D(1) by (auto simp: timing_ok_def word_less_nat_alt word_le_nat_alt edid_sane_def)
  have ok: "timing_ok g" "timing_ok ?h" using f(1) assms(2) st by (simp_all add: timing_ok_def same_timing_def)
  have e: "dePixelEnd ?h = dePixelEnd g" "deLineEnd ?h = deLineEnd g" using assms(2) st by (simp_all add: same_timing_def)
  let ?H = "unat (dePixelEnd g)" and ?V = "unat (deLineEnd g)"
  have "Suc ?H = unat (bpixels t) + unat (npixels t)" "Suc ?V = unat (blines t) + unat (nlines t) + 1"
    using f(2,3) assms(2) by (simp_all add: same_timing_def)
  then have "length inps = ?V * Suc ?H + ?H" using assms(4) by (simp add: mult.commute)
  then have "length inps div Suc ?H = ?V" "length inps mod Suc ?H = ?H" using row_col [of ?H "Suc ?H" ?V] by simp_all
  then obtain hs' vs' where pos: "at_pos hs' vs' ?V ?H ?h" using hdmi_run_pos [OF ok(1) assms(3), of inps] by auto
  from end_of_line_pos [OF ok(2) pos] e at_posD(7,8) [OF pos]
  show "at_pos False False 0 0 (fst (hdmi_tick inp ?h))"
    "testPatternEnabled (fst (hdmi_tick inp ?h)) = shadowTestPatternEnabled ?h"
    by (simp_all add: at_pos_tick hdmi_tick_fields inc_counters_def end_of_line_def Let_def)
qed

lemma frame_then_showing:
  assumes "displayable t" "same_timing (set_timing t hdmi_reset) (hd_gen d)" "at_pos hs vs 0 0 (hd_gen d)"
    and "\<not> shadowTestPatternEnabled (hd_gen d)" "hd_reference d = Some ref"
    and "unat (hd_byteCount d) = 4 * (unat (npixels t) * unat (nlines t))"
  shows "showing t mem ref 0 0 (fst (hd_show mem ((unat (bpixels t) + unat (npixels t)) * (unat (blines t) + unat (nlines t) + 1)) (d, c, m)))"
proof -
  let ?WL = "(unat (bpixels t) + unat (npixels t)) * (unat (blines t) + unat (nlines t) + 1)"
  let ?d = "fst (hd_show mem ?WL (d, c, m))"
  obtain inps where i: "length inps = ?WL" "hd_gen ?d = hdmi_run inps (hd_gen d)" using hd_show_run(1) by blast
  have "inps \<noteq> []" using i(1) displayableD(5) [OF assms(1)] by auto
  then obtain js inp where js: "inps = js @ [inp]" by (metis append_butlast_last_id)
  note e = frame_end_pos [OF assms(1,2,3), of js inp]
  have g: "hd_gen ?d = fst (hdmi_tick inp (hdmi_run js (hd_gen d)))" using i(2) js by simp
  have sh: "shadowTestPatternEnabled (hdmi_run js (hd_gen d)) = shadowTestPatternEnabled (hd_gen ?d)"
    unfolding g by (simp add: hdmi_tick_fields inc_counters_def end_of_line_def within_line_def Let_def)
  have "same_timing (set_timing t hdmi_reset) (hd_gen ?d)" unfolding i(2) by (rule same_timing_trans [OF assms(2) hdmi_run_same_timing])
  moreover have "at_pos False False 0 0 (hd_gen ?d)" "\<not> testPatternEnabled (hd_gen ?d)"
    using e i(1) js sh hd_show_run(4) [of mem ?WL d c m] assms(4) unfolding g [symmetric] by simp_all
  ultimately show ?thesis
    using hd_show_run(2-4) [of mem ?WL d c m] assms(4-6) displayableD(2) [OF assms(1)] by (simp add: showing_def)
qed

end
