(* ===== verification/Hdmi_Demo.thy ===== *)
theory Hdmi_Demo
  imports Hdmi_Display
begin

text \<open>
  The display program \<^verbatim>\<open>examples/hdmidisplay/testhdmidisplay.cpp\<close>: it sets a timing, allocates two frame
  buffers and draws a moving picture into them in turn, one for every vertical sync the device
  reports.
\<close>

section \<open>The program\<close>

definition MAX_PIXEL :: nat where "MAX_PIXEL = 256"

definition INCREMENT_PIXEL :: nat where "INCREMENT_PIXEL = 2"

definition corner :: "u32 list" where "corner = [0, - 1, 0xf00f, 0x0fff]"

record display_prog =
  dp_nlines :: nat
  dp_npixels :: nat
  dp_fbsize :: nat
  frame_index :: nat
  corner_index :: nat
  ref_srcAlloc :: "u32 list"
  dataptr :: "(nat \<Rightarrow> u32) list"
  sync_base :: nat
  synccount :: nat
  totalcount :: u64
  sync_number :: u32

text \<open>The value of a pixel: two ramps, with coloured corners and marks along two edges.\<close>

definition pixel_value :: "nat \<Rightarrow> nat \<Rightarrow> nat \<Rightarrow> nat \<Rightarrow> nat \<Rightarrow> nat \<Rightarrow> u32" where
  "pixel_value nl np ci offset line pixel =
     (let v0 = push_bit 16 (of_nat ((MAX_PIXEL * line div nl + offset) mod MAX_PIXEL))
                 OR of_nat ((MAX_PIXEL * pixel div np + offset) mod MAX_PIXEL);
          v1 = (if v0 = 0 then 1 else v0);
          v2 = (if line < 20 \<and> pixel < 20 then corner ! ((ci + 0) mod 4) else v1);
          v3 = (if line < 30 \<and> int pixel > int np - 40 then corner ! ((ci + 1) mod 4) else v2);
          v4 = (if int line > int nl - 20 \<and> pixel < 20 then corner ! ((ci + 2) mod 4) else v3);
          v5 = (if int line > int nl - 30 \<and> int pixel > int np - 40 then corner ! ((ci + 3) mod 4) else v4);
          v6 = (if line < 20 \<and> pixel mod 20 < 2 then corner ! ((ci + 0) mod 4) else v5)
      in if line mod 30 < 2 \<and> int pixel > int np - 40 then corner ! ((ci + 1) mod 4) else v6)"

definition fill_line :: "nat \<Rightarrow> nat \<Rightarrow> nat \<Rightarrow> nat \<Rightarrow> nat \<Rightarrow> (nat \<Rightarrow> u32) \<Rightarrow> nat \<Rightarrow> u32" where
  "fill_line nl np ci offset line = fold (\<lambda>pixel ptr. ptr(line * np + pixel := pixel_value nl np ci offset line pixel)) [0..<np]"

definition fill_frame :: "nat \<Rightarrow> nat \<Rightarrow> nat \<Rightarrow> nat \<Rightarrow> (nat \<Rightarrow> u32) \<Rightarrow> nat \<Rightarrow> u32" where
  "fill_frame nl np ci offset = fold (fill_line nl np ci offset) [0..<nl]"

definition fill_pixels :: "nat \<Rightarrow> display_prog \<times> hdmi_display \<Rightarrow> display_prog \<times> hdmi_display" where
  "fill_pixels offset = (\<lambda>(s, d).
     (let i = frame_index s;
          ptr = fill_frame (dp_nlines s) (dp_npixels s) (corner_index s) offset (dataptr s ! i);
          d1 = startFrameBuffer (ref_srcAlloc s ! i) (of_nat (dp_fbsize s)) d;
          d2 = d1\<lparr>hd_gen := waitForVsync (setTestPattern False (hd_gen d1))\<rparr>
      in (s\<lparr>dataptr := (dataptr s)[i := ptr], corner_index := offset div 16, frame_index := 1 - i\<rparr>, d2)))"

text \<open>
  The handler of the vertical sync, after the device has noted that the indication was sent.  Its
  offset is a C \<^verbatim>\<open>int\<close> that grows by two; it has no defined value after $2^{30}$ calls.
\<close>

definition display_vsync :: "u64 \<Rightarrow> u32 \<Rightarrow> display_prog \<times> hdmi_display \<Rightarrow> display_prog \<times> hdmi_display" where
  "display_vsync v w = (\<lambda>(s, d).
     (let s1 = s\<lparr>totalcount := totalcount s + v, sync_number := sync_number s + w\<rparr>;
          (s2, d2) = fill_pixels (sync_base s1) (s1, d\<lparr>hd_gen := vsyncReceived (hd_gen d)\<rparr>)
      in (s2\<lparr>sync_base := sync_base s2 + INCREMENT_PIXEL,
            synccount := (if 20 \<le> synccount s2 then 0 else synccount s2 + 1)\<rparr>, d2)))"

text \<open>The timing of the simulator, which has no monitor to ask.\<close>

definition bluesim_timing :: edid_detailed_timing where
  "bluesim_timing = zero_timing\<lparr>nlines := 100, npixels := 200, blines := 10, bpixels := 10, vsyncoff := 2, hsyncoff := 2,
     vsyncwidth := 3, hsyncwidth := 3\<rparr>"

text \<open>
  The set-up in \<^verbatim>\<open>main\<close>, with the timing chosen (of a board: the first usable one of the EDID) and the
  references of the two buffers.  Without a timing the sizes keep their initial values.
\<close>

definition board_timing :: "edid_detailed_timing list \<Rightarrow> edid_detailed_timing option" where
  "board_timing ts = select_timing 170000000 (take 4 ts)"

definition display_main :: "edid_detailed_timing option \<Rightarrow> u32 \<Rightarrow> u32 \<Rightarrow> hdmi_display \<Rightarrow> display_prog \<times> hdmi_display" where
  "display_main sel r0 r1 d =
     (let d1 = stopFrameBuffer d;
          (nl, np, d2) = (case sel of None \<Rightarrow> (1080, 1920, d1)
             | Some t \<Rightarrow> (unat (nlines t), unat (npixels t), d1\<lparr>hd_gen := set_timing t (hd_gen d1)\<rparr>))
      in fill_pixels 0
           (\<lparr>dp_nlines = nl, dp_npixels = np, dp_fbsize = nl * np * 4, frame_index = 0, corner_index = 0, ref_srcAlloc = [r0, r1],
             dataptr = [\<lambda>_. 0, \<lambda>_. - 1], sync_base = 0, synccount = 0, totalcount = 0, sync_number = 0\<rparr>, d2))"

section \<open>Program, device and monitor together\<close>

text \<open>The memory the device reads: the two buffers under their references.\<close>

definition buffers :: "display_prog \<Rightarrow> u32 \<Rightarrow> nat \<Rightarrow> u32" where
  "buffers s ref =
     (if ref = ref_srcAlloc s ! 0 then dataptr s ! 0 else if ref = ref_srcAlloc s ! 1 then dataptr s ! 1 else (\<lambda>_. 0))"

datatype display_event = Video_clock | Vsync_ind u64 u32

type_synonym display_state = "display_prog \<times> hdmi_display \<times> yyuv_pipe \<times> monitor"

fun display_step :: "display_event \<Rightarrow> display_state \<Rightarrow> display_state" where
  "display_step Video_clock (s, d, cm) = (s, hd_clock (buffers s) (d, cm))"
| "display_step (Vsync_ind v w) (s, d, cm) = (case display_vsync v w (s, d) of (s', d') \<Rightarrow> (s', d', cm))"

definition vsyncs :: "display_event list \<Rightarrow> nat" where
  "vsyncs evs = length (filter (\<lambda>e. e \<noteq> Video_clock) evs)"

section \<open>What is drawn\<close>

lemma fill_line_at:
  "fill_line nl np ci offset line ptr i =
     (if line * np \<le> i \<and> i < line * np + np then pixel_value nl np ci offset line (i - line * np) else ptr i)"
proof -
  have "fold (\<lambda>pixel ptr. ptr(line * np + pixel := pixel_value nl np ci offset line pixel)) [0..<n] ptr i =
      (if line * np \<le> i \<and> i < line * np + n then pixel_value nl np ci offset line (i - line * np) else ptr i)" for n
    by (induction n) auto
  then show ?thesis by (simp add: fill_line_def)
qed

lemma fill_frame_at:
  assumes "line < nl" "pixel < np"
  shows "fill_frame nl np ci offset ptr (line * np + pixel) = pixel_value nl np ci offset line pixel"
proof -
  have "fold (fill_line nl np ci offset) [0..<n] ptr (line * np + pixel) =
      (if line < n then pixel_value nl np ci offset line pixel else ptr (line * np + pixel))" for n
  proof (induction n)
    case (Suc n)
    have "n * np \<le> line * np + pixel \<and> line * np + pixel < n * np + np \<longleftrightarrow> line = n"
      using row_col(1) [OF assms(2), of line] row_col(1) [of "line * np + pixel - n * np" np n] assms(2)
      by (metis add.commute add_diff_cancel_left' add_less_cancel_left le_add1 le_add_diff_inverse2 linorder_neqE_nat)
    with Suc show ?case by (auto simp: fill_line_at less_Suc_eq)
  qed simp
  then show ?thesis using assms(1) by (simp add: fill_frame_def)
qed

section \<open>The state after any number of syncs\<close>

text \<open>
  The buffer the device was told to show is never the one to be drawn next, and it holds the picture
  drawn last.
\<close>

definition prog_sizes :: "edid_detailed_timing \<Rightarrow> u32 \<Rightarrow> u32 \<Rightarrow> display_prog \<Rightarrow> bool" where
  "prog_sizes t r0 r1 s \<longleftrightarrow>
     dp_nlines s = unat (nlines t) \<and> dp_npixels s = unat (npixels t) \<and> dp_fbsize s = unat (nlines t) * unat (npixels t) * 4 \<and>
     ref_srcAlloc s = [r0, r1] \<and> length (dataptr s) = 2 \<and> frame_index s < 2"

definition holds_picture :: "edid_detailed_timing \<Rightarrow> nat \<Rightarrow> nat \<Rightarrow> (nat \<Rightarrow> u32) \<Rightarrow> bool" where
  "holds_picture t ci offset buf \<longleftrightarrow>
     (\<forall>line < unat (nlines t). \<forall>pixel < unat (npixels t).
        buf (line * unat (npixels t) + pixel) = pixel_value (unat (nlines t)) (unat (npixels t)) ci offset line pixel)"

definition shows_buffer :: "edid_detailed_timing \<Rightarrow> display_prog \<Rightarrow> hdmi_display \<Rightarrow> bool" where
  "shows_buffer t s d \<longleftrightarrow>
     hd_reference d = Some (ref_srcAlloc s ! (1 - frame_index s)) \<and> unat (hd_byteCount d) = 4 * (unat (npixels t) * unat (nlines t)) \<and>
     \<not> shadowTestPatternEnabled (hd_gen d) \<and> same_timing (set_timing t hdmi_reset) (hd_gen d)"

definition display_inv :: "edid_detailed_timing \<Rightarrow> u32 \<Rightarrow> u32 \<Rightarrow> nat \<Rightarrow> display_prog \<times> hdmi_display \<Rightarrow> bool" where
  "display_inv t r0 r1 n = (\<lambda>(s, d).
     prog_sizes t r0 r1 s \<and> shows_buffer t s d \<and> sync_base s = 2 * n \<and> corner_index s = 2 * (n - 1) div 16 \<and>
     holds_picture t (2 * (n - 2) div 16) (2 * (n - 1)) (dataptr s ! (1 - frame_index s)))"

lemma byte_count:
  "4 * (np * nl) < 2 ^ 24 \<Longrightarrow> unat (ucast (of_nat (nl * np * 4) :: u32) :: 24 word) = 4 * (np * nl)"
  using unat_of_nat_less [of "nl * np * 4", where ?'a = 32]
  by (simp add: unat_ucast_down mult.commute mult.left_commute del: of_nat_mult)

lemma fill_pixels_inv:
  assumes "displayable t" "prog_sizes t r0 r1 s" "same_timing (set_timing t hdmi_reset) (hd_gen d)" "fill_pixels offset (s, d) = (s', d')"
  shows "prog_sizes t r0 r1 s'" "shows_buffer t s' d'" "corner_index s' = offset div 16"
    "holds_picture t (corner_index s) offset (dataptr s' ! (1 - frame_index s'))"
    "dataptr s' ! (1 - frame_index s) = dataptr s ! (1 - frame_index s)"
    "frame_index s' = 1 - frame_index s" "sync_base s' = sync_base s"
proof -
  have f: "frame_index s = 0 \<or> frame_index s = 1" using assms(2) by (auto simp: prog_sizes_def)
  have b: "unat (ucast (of_nat (unat (nlines t) * unat (npixels t) * 4) :: u32) :: 24 word) = 4 * (unat (npixels t) * unat (nlines t))"
    by (rule byte_count) (use assms(1) in \<open>simp add: displayable_def\<close>)
  show "prog_sizes t r0 r1 s'" "corner_index s' = offset div 16" "frame_index s' = 1 - frame_index s" "sync_base s' = sync_base s"
    "dataptr s' ! (1 - frame_index s) = dataptr s ! (1 - frame_index s)"
    using assms(2,4) f by (auto simp: fill_pixels_def Let_def prog_sizes_def)
  show "shows_buffer t s' d'"
    using assms(2,3,4) f b
    by (auto simp: fill_pixels_def Let_def prog_sizes_def shows_buffer_def startFrameBuffer_def waitForVsync_def setTestPattern_def same_timing_def)
  show "holds_picture t (corner_index s) offset (dataptr s' ! (1 - frame_index s'))"
    using assms(2,4) f by (auto simp: fill_pixels_def Let_def prog_sizes_def holds_picture_def fill_frame_at)
qed

lemma same_timing_set: "same_timing (set_timing t g) (set_timing t h)"
  by (simp add: same_timing_def set_timing_def setDePixel_def setDeLine_def Let_def)

lemma main_inv:
  assumes "displayable t"
  shows "display_inv t r0 r1 0 (display_main (Some t) r0 r1 d)"
proof -
  define s0 where "s0 = \<lparr>dp_nlines = unat (nlines t), dp_npixels = unat (npixels t), dp_fbsize = unat (nlines t) * unat (npixels t) * 4,
    frame_index = 0, corner_index = 0, ref_srcAlloc = [r0, r1], dataptr = [\<lambda>_. 0, \<lambda>_. - 1], sync_base = 0, synccount = 0,
    totalcount = 0, sync_number = 0\<rparr>"
  define d0 where "d0 = (stopFrameBuffer d)\<lparr>hd_gen := set_timing t (hd_gen (stopFrameBuffer d))\<rparr>"
  obtain s' d' where f: "fill_pixels 0 (s0, d0) = (s', d')" by (cases "fill_pixels 0 (s0, d0)")
  have "prog_sizes t r0 r1 s0" by (simp add: prog_sizes_def s0_def)
  moreover have "same_timing (set_timing t hdmi_reset) (hd_gen d0)" using same_timing_set by (simp add: d0_def)
  moreover have "display_main (Some t) r0 r1 d = (s', d')" using f by (simp add: display_main_def Let_def s0_def d0_def)
  ultimately show ?thesis using fill_pixels_inv [OF assms _ _ f] by (simp add: display_inv_def s0_def)
qed

lemma vsync_inv:
  assumes "displayable t" "display_inv t r0 r1 n (s, d)"
  shows "display_inv t r0 r1 (Suc n) (display_vsync v w (s, d))"
    and "dataptr (fst (display_vsync v w (s, d))) ! (1 - frame_index s) = dataptr s ! (1 - frame_index s)"
proof -
  let ?s = "s\<lparr>totalcount := totalcount s + v, sync_number := sync_number s + w\<rparr>"
  let ?d = "d\<lparr>hd_gen := vsyncReceived (hd_gen d)\<rparr>"
  have i: "prog_sizes t r0 r1 ?s" "same_timing (set_timing t hdmi_reset) (hd_gen ?d)" "sync_base s = 2 * n"
    "corner_index s = 2 * (n - 1) div 16"
    using assms(2) by (simp_all add: display_inv_def prog_sizes_def shows_buffer_def same_timing_def vsyncReceived_def)
  obtain s' d' where f: "fill_pixels (2 * n) (?s, ?d) = (s', d')" by (cases "fill_pixels (2 * n) (?s, ?d)")
  note fi = fill_pixels_inv [OF assms(1) i(1,2) f]
  have v: "display_vsync v w (s, d) = (s'\<lparr>sync_base := sync_base s' + INCREMENT_PIXEL,
      synccount := (if 20 \<le> synccount s' then 0 else synccount s' + 1)\<rparr>, d')"
    using f i(3) by (simp add: display_vsync_def Let_def)
  show "display_inv t r0 r1 (Suc n) (display_vsync v w (s, d))"
    using fi i unfolding v by (simp add: display_inv_def prog_sizes_def shows_buffer_def INCREMENT_PIXEL_def numeral_2_eq_2)
  show "dataptr (fst (display_vsync v w (s, d))) ! (1 - frame_index s) = dataptr s ! (1 - frame_index s)"
    using fi unfolding v by simp
qed

lemma clock_inv:
  assumes "display_inv t r0 r1 n (s, d)"
  shows "display_inv t r0 r1 n (s, hd_tick mem d)"
  using assms same_timing_trans [OF _ tick_same_timing]
  by (auto simp: display_inv_def shows_buffer_def hd_tick_fields hdmi_tick_fields inc_counters_def end_of_line_def within_line_def Let_def)

lemma events_inv:
  assumes "displayable t" "display_inv t r0 r1 n (s, d)" "fold display_step evs (s, d, cm) = (s', d', cm')"
  shows "display_inv t r0 r1 (n + vsyncs evs) (s', d')"
  using assms(2,3)
proof (induction evs arbitrary: s d cm n)
  case Nil
  then show ?case by (simp add: vsyncs_def)
next
  case (Cons e evs)
  obtain s1 d1 cm1 where e: "display_step e (s, d, cm) = (s1, d1, cm1)" by (metis prod_cases3)
  have "display_inv t r0 r1 (n + (if e = Video_clock then 0 else 1)) (s1, d1)"
    using e clock_inv [OF Cons.prems(1)] vsync_inv(1) [OF assms(1) Cons.prems(1)]
    by (cases e) (auto simp: hd_clock_def split: prod.splits, metis)
  moreover have "fold display_step evs (s1, d1, cm1) = (s', d', cm')" using Cons.prems(2) e by simp
  ultimately show ?case using Cons.IH [of "n + (if e = Video_clock then 0 else 1)" s1 d1 cm1]
    by (cases "e = Video_clock") (simp_all add: vsyncs_def)
qed

lemma clocks_show:
  "fold display_step (replicate n Video_clock) (s, st) = (s, hd_show (buffers s) n st)"
proof (induction n)
  case (Suc n)
  have "fold display_step (replicate (Suc n) Video_clock) (s, st) = display_step Video_clock (fold display_step (replicate n Video_clock) (s, st))"
    by (simp flip: replicate_append_same)
  then show ?case using Suc by (cases "hd_show (buffers s) n st") simp
qed simp

section \<open>Properties\<close>

text \<open>
  C34.  The picture the program draws is the picture on the screen.  The program starts with a
  displayable timing that fits the monitor's image and two buffers of different references; after any clocks and any vertical syncs,
  handled at any time, the buffer the device was told to show is not the one drawn next, and drawing
  it leaves the other alone; and when the generator is at the start of a frame, two frames
  and the six stages of the pipeline later every point of the monitor inside the frame has the
  colour the program computed for it at the last sync, converted to 16 bits as the reference
  arithmetic does, with the chroma components v and u in turn.
\<close>

theorem picture_on_screen:
  assumes "displayable t" "unat (npixels t) \<le> SCREEN_SIZE" "unat (nlines t) \<le> SCREEN_SIZE"
    and "r0 \<noteq> r1" "display_main (Some t) r0 r1 d0 = (s0, d1)"
    and "fold display_step evs (s0, d1, c1, m1) = (s, d, c, m)" "at_pos hs vs 0 0 (hd_gen d)"
    and "frames = 2 * ((unat (bpixels t) + unat (npixels t)) * (unat (blines t) + unat (nlines t) + 1))"
    and "fold display_step (replicate (frames + 6) Video_clock) (s, d, c, m) = (s', d', c', m')"
  shows "hd_reference d = Some (ref_srcAlloc s ! (1 - frame_index s)) \<and>
    buffers (fst (display_vsync v w (s, d))) (ref_srcAlloc s ! (1 - frame_index s)) = buffers s (ref_srcAlloc s ! (1 - frame_index s)) \<and>
    (\<forall>x y. x < unat (npixels t) \<and> y < unat (nlines t) \<longrightarrow>
       mon_image m' x y = pin_data (yyuv_pixel (odd (y * unat (npixels t) + x))
         (pixel_value (unat (nlines t)) (unat (npixels t)) (2 * (vsyncs evs - 2) div 16) (2 * (vsyncs evs - 1)) y x)))"
proof -
  let ?F = "(unat (bpixels t) + unat (npixels t)) * (unat (blines t) + unat (nlines t) + 1)"
  let ?r = "ref_srcAlloc s ! (1 - frame_index s)" and ?n = "vsyncs evs"
  have inv: "display_inv t r0 r1 ?n (s, d)"
    using events_inv [OF assms(1) _ assms(6), of r0 r1 0] main_inv [OF assms(1), of r0 r1 d0] assms(5) by simp
  then have sz: "prog_sizes t r0 r1 s" and sb: "shows_buffer t s d"
    and pic: "holds_picture t (2 * (?n - 2) div 16) (2 * (?n - 1)) (dataptr s ! (1 - frame_index s))"
    by (simp_all add: display_inv_def)
  have bufs: "buffers s' (ref_srcAlloc s' ! i) = dataptr s' ! i" if "prog_sizes t r0 r1 s'" "i < 2" for s' i
    using that assms(4) by (auto simp: buffers_def prog_sizes_def less_2_cases_iff)
  have fi: "1 - frame_index s < 2" by simp
  have "prog_sizes t r0 r1 (fst (display_vsync v w (s, d)))" using vsync_inv(1) [OF assms(1) inv, of v w]
    by (simp add: display_inv_def split_beta)
  moreover from this have "?r = ref_srcAlloc (fst (display_vsync v w (s, d))) ! (1 - frame_index s)" using sz by (simp add: prog_sizes_def)
  ultimately have keep: "buffers (fst (display_vsync v w (s, d))) ?r = buffers s ?r"
    using bufs [OF _ fi] sz vsync_inv(2) [OF assms(1) inv, of v w] by metis
  obtain d2 c2 m2 where d2: "hd_show (buffers s) ?F (d, c, m) = (d2, c2, m2)" by (metis prod_cases3)
  have "showing t (buffers s) ?r 0 0 d2"
    using frame_then_showing [OF assms(1) _ assms(7), of ?r "buffers s" c m] sb d2 by (simp add: shows_buffer_def)
  from frame_on_monitor [OF assms(1) this, of c2 m2]
  have "mon_image (snd (snd (hd_show (buffers s) (?F + 6) (d2, c2, m2)))) =
      frame_image t (yyuv_pixels (buffers s ?r)) (unat (nlines t)) (mon_image (snd (snd (hd_show (buffers s) 6 (d2, c2, m2)))))" .
  moreover have "m' = snd (snd (hd_show (buffers s) (?F + 6) (d2, c2, m2)))"
  proof -
    have "frames + 6 = ?F + (?F + 6)" unfolding assms(8) by (rule trans [OF _ add.assoc]) (simp only: mult_2)
    then have "hd_show (buffers s) (frames + 6) (d, c, m) = hd_show (buffers s) (?F + 6) (d2, c2, m2)" by (simp only: hd_show_add d2)
    then show ?thesis using assms(9) unfolding clocks_show by (metis prod.inject snd_conv)
  qed
  ultimately show ?thesis
    using sb keep pic bufs [OF sz fi] assms(2,3) by (auto simp: shows_buffer_def frame_image_def yyuv_pixels_def holds_picture_def)
qed

definition sample_display :: hdmi_display where
  "sample_display = \<lparr>hd_gen = hdmi_reset, hd_words = [], hd_evenOdd = True, hd_saved = 0, hd_reference = None, hd_byteCount = 0\<rparr>"

definition sample_monitor :: monitor where
  "sample_monitor = \<lparr>mon_vpos = 0, mon_hpos = 0, mon_image = \<lambda>_ _. 0\<rparr>"

theorem picture_on_screen_witness:
  "\<exists>s d. display_main (Some bluesim_timing) 1 2 sample_display = (s, d) \<and> hd_reference d = Some 1 \<and> frame_index s = 1 \<and>
     mon_image (snd (snd (snd (fold display_step (replicate (46620 + 6) Video_clock) (s, d, yyuv_reset, sample_monitor))))) 100 50 = 0x0b71"
proof -
  obtain s d where m: "display_main (Some bluesim_timing) 1 2 sample_display = (s, d)"
    by (cases "display_main (Some bluesim_timing) 1 2 sample_display")
  obtain s' d' c' m' where e: "fold display_step (replicate (46620 + 6) Video_clock) (s, d, yyuv_reset, sample_monitor) = (s', d', c', m')"
    by (metis prod_cases4)
  have t: "unat (bpixels bluesim_timing) = 10" "unat (npixels bluesim_timing) = 200" "unat (blines bluesim_timing) = 10"
    "unat (nlines bluesim_timing) = 100"
    by (simp_all add: bluesim_timing_def zero_timing_def)
  have ok: "displayable bluesim_timing" by (simp add: displayable_def edid_sane_def bluesim_timing_def zero_timing_def)
  have f: "frame_index s = 1" "ref_srcAlloc s = [1, 2]" and g: "hd_gen d = waitForVsync (setTestPattern False (set_timing bluesim_timing hdmi_reset))"
    using m by (auto simp: display_main_def Let_def fill_pixels_def sample_display_def stopFrameBuffer_def startFrameBuffer_def)
  have pos: "at_pos False False 0 0 (hd_gen d)"
    unfolding g by (simp add: at_pos_def waitForVsync_def setTestPattern_def set_timing_def setDePixel_def setDeLine_def Let_def hdmi_reset_def
        bluesim_timing_def zero_timing_def)
  have ev: "fold display_step [] (s, d, yyuv_reset, sample_monitor) = (s, d, yyuv_reset, sample_monitor)" and neq: "(1 :: u32) \<noteq> 2"
    and fr: "46620 = 2 * ((unat (bpixels bluesim_timing) + unat (npixels bluesim_timing)) * (unat (blines bluesim_timing) + unat (nlines bluesim_timing) + 1))"
    by (simp_all add: t)
  have fits: "unat (npixels bluesim_timing) \<le> SCREEN_SIZE" "unat (nlines bluesim_timing) \<le> SCREEN_SIZE"
    by (simp_all add: t SCREEN_SIZE_def)
  note r = picture_on_screen [OF ok fits neq m ev pos fr e, of 0 0, unfolded t]
  have "mon_image m' 100 50 = pin_data (yyuv_pixel (odd (50 * 200 + 100 :: nat)) (pixel_value 100 200 (2 * (vsyncs [] - 2) div 16) (2 * (vsyncs [] - 1)) 50 100))"
    using r by (simp add: SCREEN_SIZE_def)
  moreover have "pin_data (yyuv_pixel (odd (50 * 200 + 100 :: nat)) (pixel_value 100 200 (2 * (vsyncs [] - 2) div 16) (2 * (vsyncs [] - 1)) 50 100)) = 0x0b71"
    by (simp add: pin_data_def yyuv_pixel_def pixel_value_def vsyncs_def MAX_PIXEL_def sw_rgbtoyuv_def unpack_rgb_def Let_def)
  ultimately have "mon_image m' 100 50 = 0x0b71" by simp
  moreover have "hd_reference d = Some 1" using r f by simp
  ultimately show ?thesis using m f(1) by (intro exI [of _ s] exI [of _ d]) (simp only: snd_conv e simp_thms)
qed

end
