(* ===== verification/Hirschberg.thy ===== *)
theory Hirschberg
  imports Prelude "HOL-Library.Sublist"
begin

text \<open>
  The units of \<^verbatim>\<open>examples/maxcommonsubseq\<close> that compute with two strings in block memories:
  \<^verbatim>\<open>HirschA.bsv\<close> fills the table of the lengths of common subsequences and \<^verbatim>\<open>HirschB.bsv\<close> its last row
  in a single vector, forwards or backwards.
\<close>

section \<open>Longest common subsequences\<close>

fun lcs :: "'a list \<Rightarrow> 'a list \<Rightarrow> nat" where
  "lcs [] ys = 0"
| "lcs xs [] = 0"
| "lcs (x # xs) (y # ys) = (if x = y then lcs xs ys + 1 else max (lcs xs (y # ys)) (lcs (x # xs) ys))"

definition common :: "'a list \<Rightarrow> 'a list \<Rightarrow> 'a list \<Rightarrow> bool" where
  "common cs xs ys \<longleftrightarrow> subseq cs xs \<and> subseq cs ys"

definition is_lcs :: "'a list \<Rightarrow> 'a list \<Rightarrow> 'a list \<Rightarrow> bool" where
  "is_lcs cs xs ys \<longleftrightarrow> common cs xs ys \<and> (\<forall>ds. common ds xs ys \<longrightarrow> length ds \<le> length cs)"

lemma common_le_lcs: "common cs xs ys \<Longrightarrow> length cs \<le> lcs xs ys"
proof (induction xs ys arbitrary: cs rule: lcs.induct)
  case (3 x xs y ys)
  show ?case
  proof (cases cs)
    case (Cons c ds)
    consider "x = y" "c = x" | "c \<noteq> x" | "c \<noteq> y" "x \<noteq> y" by blast
    then show ?thesis
    proof cases
      case 1
      then have "common ds xs ys" using 3(4) Cons by (simp add: common_def)
      then show ?thesis using 3(1) 1 Cons by simp
    next
      case 2
      then have c: "common cs xs (y # ys)" using 3(4) Cons by (simp add: common_def subseq_Cons2_neq)
      show ?thesis
      proof (cases "x = y")
        case True
        then have "common cs xs ys" using c 2 Cons by (simp add: common_def subseq_Cons2_neq)
        then show ?thesis using 3(1) True by fastforce
      next
        case False
        then show ?thesis using 3(2) c by fastforce
      qed
    next
      case 3
      then have "common cs (x # xs) ys" using \<open>common cs (x # xs) (y # ys)\<close> Cons by (simp add: common_def subseq_Cons2_neq)
      then show ?thesis using \<open>x \<noteq> y\<close> "3.IH"(3) by fastforce
    qed
  qed simp
qed (auto simp: common_def)

lemma lcs_attained: "\<exists>cs. common cs xs ys \<and> length cs = lcs xs ys"
proof (induction xs ys rule: lcs.induct)
  case (3 x xs y ys)
  show ?case
  proof (cases "x = y")
    case True
    with 3(1) obtain cs where "common cs xs ys" "length cs = lcs xs ys" by blast
    then show ?thesis using True by (intro exI [of _ "x # cs"]) (simp add: common_def)
  next
    case False
    with 3(2,3) obtain cs ds where c: "common cs xs (y # ys)" "length cs = lcs xs (y # ys)"
      and d: "common ds (x # xs) ys" "length ds = lcs (x # xs) ys" by blast
    have "common cs (x # xs) (y # ys)" "common ds (x # xs) (y # ys)" using c(1) d(1) by (auto simp: common_def)
    then show ?thesis using False c(2) d(2) by (auto simp: max_def)
  qed
qed (auto simp: common_def)

lemma is_lcs_iff: "is_lcs cs xs ys \<longleftrightarrow> common cs xs ys \<and> length cs = lcs xs ys"
  using common_le_lcs lcs_attained [of xs ys] unfolding is_lcs_def by (metis le_antisym)

lemma lcs_Nil [simp]: "lcs xs [] = 0"
  by (cases xs) simp_all

lemma lcs_le: "lcs xs ys \<le> length xs" "lcs xs ys \<le> length ys"
  using lcs_attained [of xs ys] by (auto simp: common_def dest: list_emb_length)

lemma subseq_rev: "subseq xs ys \<Longrightarrow> subseq (rev xs) (rev ys)"
  by (induction rule: list_emb.induct) (auto intro: subseq_rev_drop_many)

lemma common_rev: "common (rev cs) (rev xs) (rev ys) \<longleftrightarrow> common cs xs ys"
  using subseq_rev [of cs xs] subseq_rev [of cs ys] subseq_rev [of "rev cs" "rev xs"] subseq_rev [of "rev cs" "rev ys"]
  by (auto simp: common_def)

lemma lcs_rev [simp]: "lcs (rev xs) (rev ys) = lcs xs ys"
  using lcs_attained [of xs ys] lcs_attained [of "rev xs" "rev ys"] common_rev [of _ xs ys]
  by (metis common_le_lcs le_antisym length_rev rev_rev_ident)

lemma lcs_snoc:
  "lcs (xs @ [x]) (ys @ [y]) = (if x = y then lcs xs ys + 1 else max (lcs xs (ys @ [y])) (lcs (xs @ [x]) ys))"
proof -
  have "lcs (xs @ [x]) (ys @ [y]) = lcs (x # rev xs) (y # rev ys)" using lcs_rev [of "xs @ [x]" "ys @ [y]"] by simp
  moreover have "lcs (rev xs) (y # rev ys) = lcs xs (ys @ [y])" using lcs_rev [of xs "ys @ [y]"] by simp
  moreover have "lcs (x # rev xs) (rev ys) = lcs (xs @ [x]) ys" using lcs_rev [of "xs @ [x]" ys] by simp
  ultimately show ?thesis by simp
qed

lemma lcs_split_le: "lcs xs (take j zs) + lcs ys (drop j zs) \<le> lcs (xs @ ys) zs"
proof -
  obtain cs ds where "common cs xs (take j zs)" "length cs = lcs xs (take j zs)"
    and "common ds ys (drop j zs)" "length ds = lcs ys (drop j zs)" using lcs_attained by metis
  moreover from this have "common (cs @ ds) (xs @ ys) zs"
    unfolding common_def using list_emb_append_mono by (metis append_take_drop_id)
  ultimately show ?thesis using common_le_lcs [of "cs @ ds" "xs @ ys" zs] by simp
qed

lemma lcs_split: "\<exists>j \<le> length zs. lcs xs (take j zs) + lcs ys (drop j zs) = lcs (xs @ ys) zs"
proof -
  obtain cs where cs: "common cs (xs @ ys) zs" "length cs = lcs (xs @ ys) zs" using lcs_attained by blast
  then obtain c1 c2 where c: "cs = c1 @ c2" "subseq c1 xs" "subseq c2 ys" unfolding common_def subseq_append_iff by blast
  with cs(1) obtain z1 z2 where z: "zs = z1 @ z2" "subseq c1 z1" "subseq c2 z2"
    unfolding common_def by (metis list_emb_appendD)
  then have "length c1 \<le> lcs xs z1" "length c2 \<le> lcs ys z2" using c by (auto intro: common_le_lcs simp: common_def)
  then have "lcs (xs @ ys) zs \<le> lcs xs (take (length z1) zs) + lcs ys (drop (length z1) zs)" using c(1) cs(2) z(1) by simp
  then show ?thesis using lcs_split_le [of xs "length z1" zs ys] z(1) by (intro exI [of _ "length z1"]) simp
qed

section \<open>Algorithm A: the whole table\<close>

type_synonym idx = "14 word"
type_synonym bstring = "idx \<Rightarrow> u8"
type_synonym matrix = "idx \<Rightarrow> u16"

text \<open>
  A loop counter has 14 bits like the lengths, and does not wrap below a length of 16383, for which a
  loop up to and with the length would not end; the loops are folds over the counter's values.  A table address has
  7 bits for the row and 7 for the column.
\<close>

definition hirschA_init :: "idx \<Rightarrow> matrix \<Rightarrow> matrix" where
  "hirschA_init aLen matL =
     fold (\<lambda>ii m. m(word_cat (0 :: 7 word) (of_nat ii :: 7 word) := 0)) [0..<unat aLen]
       (fold (\<lambda>ii m. m(word_cat (of_nat ii :: 7 word) (0 :: 7 word) := 0)) [0..<unat aLen] matL)"

definition hirschA_cell :: "bstring \<Rightarrow> bstring \<Rightarrow> idx \<Rightarrow> idx \<Rightarrow> idx \<Rightarrow> idx \<Rightarrow> matrix \<Rightarrow> matrix" where
  "hirschA_cell strA strB aStart bStart ii jj matL =
     (let i = ucast ii :: 7 word; j = ucast jj :: 7 word;
          aData = strA (aStart + ii - 1); bData = strB (bStart + jj - 1)
      in if aData = bData then matL(word_cat i j := matL (word_cat (i - 1) (j - 1)) + 1)
         else matL(word_cat i j := max (matL (word_cat i (j - 1))) (matL (word_cat (i - 1) j))))"

definition hirschA :: "bstring \<Rightarrow> bstring \<Rightarrow> idx \<times> idx \<Rightarrow> idx \<times> idx \<Rightarrow> matrix \<Rightarrow> matrix" where
  "hirschA strA strB = (\<lambda>(aStart, aLen) (bStart, bLen) matL.
     fold (\<lambda>ii. fold (\<lambda>jj. hirschA_cell strA strB aStart bStart (of_nat ii) (of_nat jj)) [1..<unat bLen + 1])
       [1..<unat aLen + 1] (hirschA_init aLen matL))"

text \<open>The part of a block memory that holds a string.\<close>

definition holds :: "bstring \<Rightarrow> idx \<Rightarrow> u8 list \<Rightarrow> bool" where
  "holds mem start xs \<longleftrightarrow> length xs < 2 ^ 14 - 1 \<and> (\<forall>i < length xs. mem (start + of_nat i) = xs ! i)"

definition cell :: "nat \<Rightarrow> nat \<Rightarrow> idx" where
  "cell i j = word_cat (of_nat i :: 7 word) (of_nat j :: 7 word)"

lemma unat_cell:
  assumes "i < 128" "j < 128"
  shows "unat (cell i j) = 128 * i + j"
proof -
  have "cell i j = of_nat (push_bit 7 i) + of_nat j"
    using assms by (simp add: cell_def word_cat_eq push_bit_of_nat unsigned_of_nat take_bit_nat_eq_self)
  then have "cell i j = of_nat (128 * i + j)" by (simp add: push_bit_eq_mult mult.commute)
  moreover have "128 * i + j < 2 ^ LENGTH(14)" using assms by simp
  ultimately show ?thesis by (metis unat_of_nat_less)
qed

lemma cell_eq_iff:
  assumes "i < 128" "j < 128" "p < 128" "q < 128"
  shows "cell i j = cell p q \<longleftrightarrow> i = p \<and> j = q"
proof
  assume "cell i j = cell p q"
  then have e: "128 * i + j = 128 * p + q" using unat_cell assms by metis
  then have "i = p" using assms by arith
  with e show "i = p \<and> j = q" by simp
qed simp

lemma max_of_nat: "x < 2 ^ LENGTH('a) \<Longrightarrow> y < 2 ^ LENGTH('a) \<Longrightarrow> max (of_nat x) (of_nat y) = (of_nat (max x y) :: 'a::len word)"
  by (auto simp: max_def word_le_nat_alt unat_of_nat_less)

lemma fold_zero: "fold (\<lambda>ii m. m(f ii := 0)) is m a = (if a \<in> f ` set is then 0 else m a :: u16)"
  by (induction "is" arbitrary: m) auto

lemma new_entry:
  "y < 2 ^ 16 \<Longrightarrow> z < 2 ^ 16 \<Longrightarrow>
   (if c then of_nat x + 1 else max (of_nat y) (of_nat z)) = (of_nat (if c then x + 1 else max y z) :: u16)"
  by (simp add: max_of_nat)

lemma hirschA_init_eq:
  "hirschA_init aLen matL a = (if a \<in> (\<lambda>i. cell i 0) ` {0..<unat aLen} \<union> cell 0 ` {0..<unat aLen} then 0 else matL a)"
proof -
  have "hirschA_init aLen matL =
      fold (\<lambda>ii m. m(cell 0 ii := 0)) [0..<unat aLen] (fold (\<lambda>ii m. m(cell ii 0 := 0)) [0..<unat aLen] matL)"
    by (simp add: hirschA_init_def cell_def)
  then show ?thesis by (simp only: fold_zero) auto
qed

text \<open>The entries that are final before the cell in row i and column j is computed.\<close>

definition table_upto :: "u8 list \<Rightarrow> u8 list \<Rightarrow> nat \<Rightarrow> nat \<Rightarrow> matrix \<Rightarrow> bool" where
  "table_upto as bs i j m \<longleftrightarrow>
     (\<forall>p \<le> length as. \<forall>q \<le> length bs. p < i \<or> p = i \<and> q < j \<or> q = 0 \<longrightarrow> m (cell p q) = of_nat (lcs (take p as) (take q bs)))"

lemma cell_words:
  "word_cat (ucast (of_nat i :: idx) :: 7 word) (ucast (of_nat j :: idx) :: 7 word) = cell i j"
  "0 < i \<Longrightarrow> word_cat (ucast (of_nat i :: idx) - 1 :: 7 word) (ucast (of_nat j :: idx) :: 7 word) = cell (i - 1) j"
  "0 < j \<Longrightarrow> word_cat (ucast (of_nat i :: idx) :: 7 word) (ucast (of_nat j :: idx) - 1 :: 7 word) = cell i (j - 1)"
  "0 < i \<Longrightarrow> 0 < j \<Longrightarrow> word_cat (ucast (of_nat i :: idx) - 1 :: 7 word) (ucast (of_nat j :: idx) - 1 :: 7 word) = cell (i - 1) (j - 1)"
proof -
  have "(ucast (of_nat k :: idx) :: 7 word) = of_nat k" for k by (rule bit_word_eqI) (auto simp: bit_simps)
  then show "word_cat (ucast (of_nat i :: idx) :: 7 word) (ucast (of_nat j :: idx) :: 7 word) = cell i j"
    "0 < i \<Longrightarrow> word_cat (ucast (of_nat i :: idx) - 1 :: 7 word) (ucast (of_nat j :: idx) :: 7 word) = cell (i - 1) j"
    "0 < j \<Longrightarrow> word_cat (ucast (of_nat i :: idx) :: 7 word) (ucast (of_nat j :: idx) - 1 :: 7 word) = cell i (j - 1)"
    "0 < i \<Longrightarrow> 0 < j \<Longrightarrow> word_cat (ucast (of_nat i :: idx) - 1 :: 7 word) (ucast (of_nat j :: idx) - 1 :: 7 word) = cell (i - 1) (j - 1)"
    by (simp_all add: cell_def of_nat_diff)
qed

lemma holdsD: "holds mem start xs \<Longrightarrow> 0 < i \<Longrightarrow> i \<le> length xs \<Longrightarrow> mem (start + of_nat i - 1) = xs ! (i - 1)"
  unfolding holds_def by (drule conjunct2, drule spec [of _ "i - 1"]) (simp add: of_nat_diff algebra_simps)

lemma lcs_take_Suc:
  assumes "0 < i" "i \<le> length xs" "0 < j" "j \<le> length ys"
  shows "lcs (take i xs) (take j ys) =
    (if xs ! (i - 1) = ys ! (j - 1) then lcs (take (i - 1) xs) (take (j - 1) ys) + 1
     else max (lcs (take (i - 1) xs) (take j ys)) (lcs (take i xs) (take (j - 1) ys)))"
proof -
  have "take k zs = take (k - 1) zs @ [zs ! (k - 1)]" if "0 < k" "k \<le> length zs" for k and zs :: "'a list"
    using that take_Suc_conv_app_nth [of "k - 1" zs] by simp
  then show ?thesis using assms lcs_snoc by metis
qed

lemma hirschA_init_table:
  assumes "length as < 128" "length bs < 128" "unat aLen = length as"
    and "\<forall>j \<le> length bs. length as \<le> j \<longrightarrow> matL (cell 0 j) = 0" and "matL (cell (length as) 0) = 0"
  shows "table_upto as bs 1 1 (hirschA_init aLen matL)"
  unfolding table_upto_def
proof (intro allI impI)
  fix p q
  assume l: "p \<le> length as" "q \<le> length bs" "p < 1 \<or> p = 1 \<and> q < 1 \<or> q = 0"
  show "hirschA_init aLen matL (cell p q) = of_nat (lcs (take p as) (take q bs))"
  proof (cases "cell p q \<in> (\<lambda>i. cell i 0) ` {0..<unat aLen} \<union> cell 0 ` {0..<unat aLen}")
    case True
    then show ?thesis using l by (auto simp: hirschA_init_eq)
  next
    case False
    with assms l have "matL (cell p q) = 0" by (cases "p = 0"; cases "q = 0") force+
    then show ?thesis using False l by (auto simp: hirschA_init_eq)
  qed
qed

lemma hirschA_cell_table:
  assumes "length as < 128" "length bs < 128" "holds strA aStart as" "holds strB bStart bs"
    and "0 < i" "i \<le> length as" "0 < j" "j \<le> length bs" and t: "table_upto as bs i j m"
  shows "table_upto as bs i (j + 1) (hirschA_cell strA strB aStart bStart (of_nat i) (of_nat j) m)"
proof -
  let ?v = "\<lambda>p q. lcs (take p as) (take q bs)"
  have v: "?v p q < 2 ^ 16" for p q using lcs_le(1) [of "take p as" "take q bs"] assms(1) by simp
  have m: "m (cell (i - 1) (j - 1)) = of_nat (?v (i - 1) (j - 1))" "m (cell (i - 1) j) = of_nat (?v (i - 1) j)"
    "m (cell i (j - 1)) = of_nat (?v i (j - 1))"
    using t assms(5-8) unfolding table_upto_def by auto
  have e: "(if as ! (i - 1) = bs ! (j - 1) then m (cell (i - 1) (j - 1)) + 1
      else max (m (cell i (j - 1))) (m (cell (i - 1) j))) = of_nat (?v i j)"
    unfolding m max.commute [of "of_nat (?v i (j - 1))"] lcs_take_Suc [OF assms(5-8)] by (rule new_entry [OF v v])
  have "hirschA_cell strA strB aStart bStart (of_nat i) (of_nat j) m = m(cell i j := of_nat (?v i j))"
    unfolding e [symmetric] hirschA_cell_def Let_def cell_words(1) cell_words(2) [OF assms(5)] cell_words(3) [OF assms(7)]
      cell_words(4) [OF assms(5,7)] holdsD [OF assms(3,5,6)] holdsD [OF assms(4,7,8)] by simp
  then show ?thesis using t assms(1,2,6,8) unfolding table_upto_def by (auto simp: cell_eq_iff less_Suc_eq)
qed

lemma table_next_row: "table_upto as bs i (length bs + 1) m \<Longrightarrow> table_upto as bs (i + 1) 1 m"
  unfolding table_upto_def by (metis One_nat_def Suc_eq_plus1 le_imp_less_Suc less_Suc0 less_Suc_eq)

lemma fold_range:
  assumes "P 1 s" and "\<And>k s. 1 \<le> k \<Longrightarrow> k \<le> n \<Longrightarrow> P k s \<Longrightarrow> P (k + 1) (f k s)"
  shows "P (n + 1) (fold f [1..<n + 1] s)"
  using assms(2)
proof (induction n)
  case (Suc n)
  then show ?case by (cases "n = 0") (use assms(1) in auto)
qed (use assms(1) in simp)

lemma hirschA_table:
  assumes "length as < 128" "length bs < 128" "holds strA aStart as" "holds strB bStart bs"
    and "unat aLen = length as" "unat bLen = length bs"
    and "\<forall>j \<le> length bs. length as \<le> j \<longrightarrow> matL (cell 0 j) = 0" and "matL (cell (length as) 0) = 0"
    and "i \<le> length as" "j \<le> length bs"
  shows "hirschA strA strB (aStart, aLen) (bStart, bLen) matL (cell i j) = of_nat (lcs (take i as) (take j bs))"
proof -
  let ?cell = "\<lambda>i j. hirschA_cell strA strB aStart bStart (of_nat i) (of_nat j)"
  let ?row = "\<lambda>i. fold (?cell i) [1..<length bs + 1]"
  have row: "table_upto as bs (i + 1) 1 (?row i m)" if "1 \<le> i" "i \<le> length as" "table_upto as bs i 1 m" for i m
  proof -
    have "table_upto as bs i (length bs + 1) (?row i m)"
      by (rule fold_range [of "table_upto as bs i"]) (use that hirschA_cell_table [OF assms(1-4)] in auto)
    then show ?thesis by (rule table_next_row)
  qed
  have "table_upto as bs (length as + 1) 1 (fold ?row [1..<length as + 1] (hirschA_init aLen matL))"
    by (rule fold_range [of "\<lambda>i. table_upto as bs i 1"]) (use hirschA_init_table [OF assms(1,2,5,7,8)] row in auto)
  then show ?thesis
    unfolding hirschA_def table_upto_def prod.case assms(5,6) using assms(9,10) by (simp del: upt_Suc)
qed

section \<open>Algorithm B: the last row\<close>

text \<open>
  The registers of the pipeline; \<^verbatim>\<open>tb\<close> and \<^verbatim>\<open>tk\<close> are the responses of the two memories to the
  requests already made, which hold what was stored when the request was made.
\<close>

record hirsch_b =
  k0j :: u16
  k1j :: u16
  tb :: u8
  tk :: u16
  krow :: matrix

definition b_index :: "bool \<Rightarrow> idx \<Rightarrow> idx \<Rightarrow> idx \<Rightarrow> idx" where
  "b_index fwd start len jj = (if fwd then start + jj else start + len - jj - 1)"

definition hirschB_step :: "bstring \<Rightarrow> bool \<Rightarrow> idx \<Rightarrow> idx \<Rightarrow> idx \<Rightarrow> u8 \<Rightarrow> idx \<Rightarrow> hirsch_b \<Rightarrow> hirsch_b" where
  "hirschB_step strB fwd bStart bLen rStart aData jj s =
     (let k0jm1 = k0j s; k1jm1 = k1j s; bData = tb s; k0 = tk s;
          matL = (krow s)(rStart + (jj - 1) := k1j s);
          tmp = (if aData = bData then k0jm1 + 1 else max k0 k1jm1)
      in \<lparr>k0j = k0, k1j = tmp, tb = strB (b_index fwd bStart bLen jj), tk = matL (rStart + (jj + 1)), krow = matL\<rparr>)"

definition hirschB_row :: "bstring \<Rightarrow> bstring \<Rightarrow> bool \<Rightarrow> idx \<times> idx \<Rightarrow> idx \<times> idx \<Rightarrow> idx \<Rightarrow> idx \<Rightarrow> matrix \<Rightarrow> matrix" where
  "hirschB_row strA strB fwd = (\<lambda>(aStart, aLen) (bStart, bLen) rStart ii matL.
     (let aData = strA (if fwd then aStart + ii - 1 else aStart + aLen - ii);
          s = \<lparr>k0j = 0, k1j = 0, tb = strB (if fwd then bStart else bStart + bLen - 1), tk = matL (rStart + 1), krow = matL\<rparr>;
          t = fold (\<lambda>jj. hirschB_step strB fwd bStart bLen rStart aData (of_nat jj)) [1..<unat bLen + 1] s
      in (krow t)(rStart + bLen := k1j t)))"

definition hirschB :: "bstring \<Rightarrow> bstring \<Rightarrow> bool \<Rightarrow> idx \<times> idx \<Rightarrow> idx \<times> idx \<Rightarrow> idx \<Rightarrow> matrix \<Rightarrow> matrix" where
  "hirschB strA strB fwd a b rStart matL =
     (let m = fold (\<lambda>jj m. m(rStart + of_nat jj := 0)) [0..<unat (snd b) + 1] matL
      in fold (\<lambda>ii. hirschB_row strA strB fwd a b rStart (of_nat ii)) [1..<unat (snd a) + 1] m)"

text \<open>The strings in the order in which the unit reads them.\<close>

definition dir_list :: "bool \<Rightarrow> 'a list \<Rightarrow> 'a list" where
  "dir_list fwd xs = (if fwd then xs else rev xs)"

lemma length_dir_list [simp]: "length (dir_list fwd xs) = length xs"
  by (simp add: dir_list_def)

lemma lcs_dir_list: "lcs (dir_list fwd xs) (dir_list fwd ys) = lcs xs ys"
  by (simp add: dir_list_def)

lemma holds_nth: "holds mem start xs \<Longrightarrow> i < length xs \<Longrightarrow> mem (start + of_nat i) = xs ! i"
  by (simp add: holds_def)

lemma dir_a:
  assumes "holds mem start xs" "unat len = length xs" "0 < i" "i \<le> length xs"
  shows "mem (if fwd then start + of_nat i - 1 else start + len - of_nat i) = dir_list fwd xs ! (i - 1)"
proof (cases fwd)
  case True
  then show ?thesis using holdsD [OF assms(1,3,4)] by (simp add: dir_list_def)
next
  case False
  have "len = of_nat (length xs)" using assms(2) by (metis word_eq_of_unat)
  then have e: "start + len - of_nat i = start + of_nat (length xs - i)" using assms(4) by (simp add: of_nat_diff)
  have "mem (start + of_nat (length xs - i)) = xs ! (length xs - i)" using assms(3,4) by (intro holds_nth [OF assms(1)]) simp
  then show ?thesis unfolding e [symmetric] using False assms(3,4) by (simp add: dir_list_def rev_nth)
qed

lemma dir_b:
  assumes "holds mem start xs" "unat len = length xs" "j < length xs"
  shows "mem (b_index fwd start len (of_nat j)) = dir_list fwd xs ! j"
proof -
  have "start + len - of_nat j - 1 = start + len - of_nat (j + 1)" by (simp add: algebra_simps)
  then show ?thesis
    using dir_a [OF assms(1,2), of "j + 1" fwd] assms(3) by (cases fwd) (simp_all add: b_index_def algebra_simps)
qed

text \<open>Within a row: the new entries are stored one step behind, the old ones are read one step ahead.\<close>

definition row_upto :: "u8 list \<Rightarrow> u8 list \<Rightarrow> matrix \<Rightarrow> nat \<Rightarrow> nat \<Rightarrow> hirsch_b \<Rightarrow> bool" where
  "row_upto as bs m0 i j s \<longleftrightarrow>
     (let v = \<lambda>p q. of_nat (lcs (take p as) (take q bs)) in
      k1j s = v i (j - 1) \<and> k0j s = v (i - 1) (j - 1)
      \<and> (j \<le> length bs \<longrightarrow> tk s = v (i - 1) j \<and> tb s = bs ! (j - 1))
      \<and> (\<forall>q \<le> length bs. krow s (of_nat q) = (if q < j - 1 then v i q else v (i - 1) q))
      \<and> (\<forall>a. length bs < unat a \<longrightarrow> krow s a = m0 a))"

lemma of_nat_idx_eq:
  assumes "p < 2 ^ 14" "q < 2 ^ 14"
  shows "(of_nat p :: idx) = of_nat q \<longleftrightarrow> p = q"
proof -
  have "unat (of_nat p :: idx) = p" "unat (of_nat q :: idx) = q" using assms by (intro unat_of_nat_less; simp)+
  then show ?thesis by metis
qed

lemma hirschB_step_row:
  assumes "length as < 2 ^ 14 - 1" "length bs < 2 ^ 14 - 1" "0 < i" "i \<le> length as" "0 < j" "j \<le> length bs"
    and b: "\<And>j. j < length bs \<Longrightarrow> strB (b_index fwd bStart bLen (of_nat j)) = bs ! j"
    and r: "row_upto as bs m0 i j s"
  shows "row_upto as bs m0 i (j + 1) (hirschB_step strB fwd bStart bLen 0 (as ! (i - 1)) (of_nat j) s)"
proof -
  let ?v = "\<lambda>p q. lcs (take p as) (take q bs)"
  have v: "?v p q < 2 ^ 16" for p q using lcs_le(1) [of "take p as" "take q bs"] assms(1) by simp
  have k: "k1j s = of_nat (?v i (j - 1))" "k0j s = of_nat (?v (i - 1) (j - 1))" "tk s = of_nat (?v (i - 1) j)" "tb s = bs ! (j - 1)"
    and m: "\<forall>q \<le> length bs. krow s (of_nat q) = (if q < j - 1 then of_nat (?v i q) else of_nat (?v (i - 1) q))"
    and o: "\<forall>a. length bs < unat a \<longrightarrow> krow s a = m0 a"
    using r assms(6) unfolding row_upto_def Let_def by auto
  let ?t = "hirschB_step strB fwd bStart bLen 0 (as ! (i - 1)) (of_nat j) s"
  let ?m = "(krow s)(of_nat (j - 1) := k1j s)"
  have t: "krow ?t = ?m" "k0j ?t = tk s" "tk ?t = ?m (of_nat (j + 1))" "tb ?t = strB (b_index fwd bStart bLen (of_nat j))"
    "k1j ?t = (if as ! (i - 1) = tb s then k0j s + 1 else max (tk s) (k1j s))"
    using assms(5) by (simp_all add: hirschB_step_def Let_def of_nat_diff algebra_simps)
  have "k1j ?t = of_nat (?v i j)"
    unfolding t k lcs_take_Suc [OF assms(3-6)] by (rule new_entry [OF v v])
  moreover have "(of_nat q :: idx) = of_nat (j - 1) \<longleftrightarrow> q = j - 1" if "q \<le> length bs" for q
    using that assms(2,6) by (intro of_nat_idx_eq) simp_all
  then have m': "?m (of_nat q) = (if q < j then of_nat (?v i q) else of_nat (?v (i - 1) q))" if "q \<le> length bs" for q
    using m k(1) that assms(5,6) by (auto simp del: of_nat_diff)
  moreover have "?m a = m0 a" if "length bs < unat a" for a
    using o that assms(2,6) unat_of_nat_less [of "j - 1", where 'a = 14] by (auto simp del: of_nat_diff)
  ultimately show ?thesis
    unfolding row_upto_def Let_def t(1,2,3,4) using k(3) b [of j] m' [of "j + 1"] by simp
qed

definition row_at :: "u8 list \<Rightarrow> u8 list \<Rightarrow> matrix \<Rightarrow> nat \<Rightarrow> matrix \<Rightarrow> bool" where
  "row_at as bs m0 i m \<longleftrightarrow>
     (\<forall>q \<le> length bs. m (of_nat q) = of_nat (lcs (take i as) (take q bs))) \<and> (\<forall>a. length bs < unat a \<longrightarrow> m a = m0 a)"

lemma hirschB_row_at:
  assumes "holds strA aStart as" "holds strB bStart bs" "unat aLen = length as" "unat bLen = length bs"
    and "0 < i" "i \<le> length as" and "row_at (dir_list fwd as) (dir_list fwd bs) m0 (i - 1) m"
  shows "row_at (dir_list fwd as) (dir_list fwd bs) m0 i (hirschB_row strA strB fwd (aStart, aLen) (bStart, bLen) 0 (of_nat i) m)"
proof -
  let ?as = "dir_list fwd as" and ?bs = "dir_list fwd bs"
  have l: "length ?as < 2 ^ 14 - 1" "length ?bs < 2 ^ 14 - 1" using assms(1,2) by (simp_all add: holds_def)
  have b: "strB (b_index fwd bStart bLen (of_nat j)) = ?bs ! j" if "j < length ?bs" for j
    using dir_b [OF assms(2,4)] that by simp
  define aData where "aData = strA (if fwd then aStart + of_nat i - 1 else aStart + aLen - of_nat i)"
  define s0 where "s0 = \<lparr>k0j = 0, k1j = 0, tb = strB (if fwd then bStart else bStart + bLen - 1), tk = m (0 + 1), krow = m\<rparr>"
  define t where "t = fold (\<lambda>jj. hirschB_step strB fwd bStart bLen 0 aData (of_nat jj)) [1..<unat bLen + 1] s0"
  have a: "aData = ?as ! (i - 1)" unfolding aData_def by (rule dir_a [OF assms(1,3,5,6)])
  have "bs \<noteq> [] \<longrightarrow> tb s0 = ?bs ! 0" using b [of 0] by (auto simp: s0_def b_index_def split: if_splits)
  moreover have "bs \<noteq> [] \<longrightarrow> m 1 = of_nat (lcs (take (i - 1) ?as) (take 1 ?bs))"
    using assms(7) unfolding row_at_def by (auto simp: Suc_le_eq dest: spec [of _ 1])
  ultimately have "row_upto ?as ?bs m0 i 1 s0"
    using assms(7) unfolding row_upto_def row_at_def by (auto simp: Let_def s0_def Suc_le_eq)
  then have "row_upto ?as ?bs m0 i (length ?bs + 1) t"
    unfolding t_def a assms(4) length_dir_list [of fwd bs, symmetric]
    by (rule fold_range [of "row_upto ?as ?bs m0 i"]) (use hirschB_step_row [OF l _ _ _ _ b] assms(5,6) in auto)
  moreover have "bLen = of_nat (length ?bs)" using assms(4) by (simp add: word_eq_of_unat)
  moreover have "(of_nat q :: idx) = of_nat (length ?bs) \<longleftrightarrow> q = length ?bs" if "q \<le> length ?bs" for q
    using that l(2) by (intro of_nat_idx_eq) simp_all
  ultimately have "row_at ?as ?bs m0 i ((krow t)(0 + bLen := k1j t))"
    using l(2) unfolding row_at_def row_upto_def by (auto simp: Let_def unat_of_nat_less)
  then show ?thesis unfolding hirschB_row_def aData_def s0_def t_def by (simp add: Let_def)
qed

lemma hirschB_result:
  assumes "holds strA aStart as" "holds strB bStart bs" "unat aLen = length as" "unat bLen = length bs"
  shows "row_at (dir_list fwd as) (dir_list fwd bs) matL (length as) (hirschB strA strB fwd (aStart, aLen) (bStart, bLen) 0 matL)"
proof -
  let ?as = "dir_list fwd as" and ?bs = "dir_list fwd bs"
  define m where "m = fold (\<lambda>jj m. m(0 + of_nat jj := 0 :: u16)) [0..<length bs + 1] matL"
  have l: "length bs < 2 ^ 14 - 1" using assms(2) by (simp add: holds_def)
  have "row_at ?as ?bs matL 0 m"
    unfolding m_def row_at_def fold_zero using l by (auto simp: unat_of_nat_less le_less)
  then have "row_at ?as ?bs matL (length as + 1 - 1)
      (fold (\<lambda>ii. hirschB_row strA strB fwd (aStart, aLen) (bStart, bLen) 0 (of_nat ii)) [1..<length as + 1] m)"
    by (intro fold_range [of "\<lambda>i. row_at ?as ?bs matL (i - 1)"]) (use hirschB_row_at [OF assms] in auto)
  then show ?thesis unfolding hirschB_def m_def by (simp add: Let_def assms(3,4) del: upt_Suc)
qed

end
