(* ===== verification/Stack_Reg.thy ===== *)
theory Stack_Reg
  imports Prelude
begin

text \<open>
  The call stack of \<^verbatim>\<open>lib/bsv/StackReg.bsv\<close>: a frame of program counter, arguments and variables in
  registers, the caller's frame in a second set of registers, and the older frames in block memories
  that answer a read one clock later.  It is shown to be a stack of frames, whatever calls and returns
  follow each other in consecutive clocks.
\<close>

type_synonym ('p, 'a, 'v) frame = "'p \<times> 'a \<times> 'v"

record ('p, 'a, 'v) stack_reg =
  sr_top :: "('p, 'a, 'v) frame"
  sr_next :: "('p, 'a, 'v) frame"
  sr_fp :: "7 word"
  sr_mem :: "7 word \<Rightarrow> ('p, 'a, 'v) frame"
  sr_returningd1 :: bool
  sr_response :: "('p, 'a, 'v) frame"

text \<open>What the owner does in one clock.\<close>

datatype ('p, 'a, 'v) stack_op =
    Keep
  | Nextpc 'p 'v
  | Docall 'p 'p 'a 'v
  | Doreturn

definition stack_reset :: "'p \<Rightarrow> ('p, 'a, 'v) frame \<Rightarrow> (7 word \<Rightarrow> ('p, 'a, 'v) frame) \<Rightarrow> ('p, 'a, 'v) stack_reg" where
  "stack_reset initialpc any mem =
     \<lparr>sr_top = (initialpc, snd any), sr_next = any, sr_fp = 0, sr_mem = mem, sr_returningd1 = False, sr_response = any\<rparr>"

text \<open>The rules that take a response of the memories fire exactly when a return was made the clock before.\<close>

definition pop_next :: "('p, 'a, 'v) stack_reg \<Rightarrow> ('p, 'a, 'v) frame" where
  "pop_next s = (if sr_returningd1 s then sr_response s else sr_next s)"

fun stack_clock :: "('p, 'a, 'v) stack_op \<Rightarrow> ('p, 'a, 'v) stack_reg \<Rightarrow> ('p, 'a, 'v) stack_reg" where
  "stack_clock Keep s = s\<lparr>sr_next := pop_next s, sr_returningd1 := False\<rparr>"
| "stack_clock (Nextpc jumpto vars) s =
     s\<lparr>sr_top := (jumpto, fst (snd (sr_top s)), vars), sr_next := pop_next s, sr_returningd1 := False\<rparr>"
| "stack_clock (Docall jumpto returnto args vars) s =
     s\<lparr>sr_fp := min (sr_fp s + 1) (- 1),
       sr_mem := (if sr_returningd1 s then sr_mem s else (sr_mem s)(sr_fp s := sr_next s)),
       sr_next := (returnto, fst (snd (sr_top s)), vars), sr_top := (jumpto, args, vars), sr_returningd1 := False\<rparr>"
| "stack_clock Doreturn s =
     s\<lparr>sr_fp := max (sr_fp s - 1) 0, sr_response := sr_mem s (sr_fp s - 1), sr_top := pop_next s,
       sr_next := pop_next s, sr_returningd1 := True\<rparr>"

section \<open>It is a stack\<close>

definition stack_frames :: "('p, 'a, 'v) stack_reg \<Rightarrow> ('p, 'a, 'v) frame list" where
  "stack_frames s = (if sr_fp s = 0 then [] else pop_next s # map (\<lambda>k. sr_mem s (of_nat k)) (rev [1..<unat (sr_fp s)]))"

definition stack_ok :: "('p, 'a, 'v) stack_reg \<Rightarrow> bool" where
  "stack_ok s \<longleftrightarrow> (sr_returningd1 s \<longrightarrow> sr_fp s \<noteq> 0 \<longrightarrow> sr_response s = sr_mem s (sr_fp s))"

lemma stack_frames_length: "length (stack_frames s) = unat (sr_fp s)"
  by (simp add: stack_frames_def unat_eq_0 Suc_leI word_greater_zero_iff flip: unat_gt_0)

lemma stack_keep:
  "stack_ok s \<Longrightarrow> stack_ok (stack_clock Keep s)" "stack_frames (stack_clock Keep s) = stack_frames s"
  "sr_top (stack_clock Keep s) = sr_top s"
  by (simp_all add: stack_ok_def stack_frames_def pop_next_def)

lemma stack_nextpc:
  "stack_ok s \<Longrightarrow> stack_ok (stack_clock (Nextpc p v) s)" "stack_frames (stack_clock (Nextpc p v) s) = stack_frames s"
  "sr_top (stack_clock (Nextpc p v) s) = (p, fst (snd (sr_top s)), v)"
  by (simp_all add: stack_ok_def stack_frames_def pop_next_def)

lemma stack_docall:
  assumes "stack_ok s" "length (stack_frames s) < 127"
  shows "stack_ok (stack_clock (Docall p r a v) s)"
    "stack_frames (stack_clock (Docall p r a v) s) = (r, fst (snd (sr_top s)), v) # stack_frames s"
    "sr_top (stack_clock (Docall p r a v) s) = (p, a, v)"
proof -
  show "stack_ok (stack_clock (Docall p r a v) s)" "sr_top (stack_clock (Docall p r a v) s) = (p, a, v)"
    by (simp_all add: stack_ok_def)
  have l: "unat (sr_fp s) < 127" using assms(2) by (simp add: stack_frames_length)
  then have f: "unat (sr_fp s + 1) = unat (sr_fp s) + 1" by (simp add: unat_word_ariths)
  then have n: "sr_fp s + 1 \<noteq> 0" by (metis add_is_0 one_neq_zero unat_0)
  have "(of_nat k :: 7 word) \<noteq> sr_fp s" if "k < unat (sr_fp s)" for k
    using that l unat_of_nat_less [of k, where 'a = 7] by auto
  then have "map (\<lambda>k. ((sr_mem s)(sr_fp s := sr_next s)) (of_nat k)) (rev [1..<unat (sr_fp s)]) =
      map (\<lambda>k. sr_mem s (of_nat k)) (rev [1..<unat (sr_fp s)])" by auto
  then show "stack_frames (stack_clock (Docall p r a v) s) = (r, fst (snd (sr_top s)), v) # stack_frames s"
    using assms(1) n f unfolding stack_frames_def stack_ok_def
    by (cases "sr_fp s = 0") (auto simp: pop_next_def min_def unat_eq_0 Suc_le_eq unat_gt_0)
qed

lemma stack_doreturn:
  assumes "stack_frames s = f # fs"
  shows "stack_ok (stack_clock Doreturn s)" "stack_frames (stack_clock Doreturn s) = fs" "sr_top (stack_clock Doreturn s) = f"
proof -
  have fp: "sr_fp s \<noteq> 0" and f: "f = pop_next s" "fs = map (\<lambda>k. sr_mem s (of_nat k)) (rev [1..<unat (sr_fp s)])"
    using assms by (auto simp: stack_frames_def split: if_splits)
  show "stack_ok (stack_clock Doreturn s)" "sr_top (stack_clock Doreturn s) = f" by (simp_all add: stack_ok_def f max_def)
  have u: "unat (sr_fp s - 1) = unat (sr_fp s) - 1" using fp by (metis unat_minus_one)
  show "stack_frames (stack_clock Doreturn s) = fs"
  proof (cases "sr_fp s = 1")
    case False
    then have "sr_fp s - 1 \<noteq> 0" by (metis diff_eq_diff_eq diff_self)
    then have "0 < unat (sr_fp s) - 1" using u by (metis unat_gt_0)
    then have "[1..<unat (sr_fp s)] = [1..<unat (sr_fp s) - 1] @ [unat (sr_fp s) - 1]"
      by (metis One_nat_def Suc_diff_1 Suc_leI less_imp_diff_less upt_Suc_append zero_less_diff diff_is_0_eq nat_less_le not_less)
    moreover have "of_nat (unat (sr_fp s) - 1) = sr_fp s - 1" using u by (metis word_eq_of_unat)
    ultimately show ?thesis using \<open>sr_fp s - 1 \<noteq> 0\<close> u unfolding f(2) stack_frames_def by (simp add: max_def pop_next_def)
  qed (simp add: stack_frames_def f)
qed

declare stack_clock.simps [simp del]

end
