(* ===== verification/Hirschberg_C.thy ===== *)
theory Hirschberg_C
  imports Hirschberg Stack_Reg
begin

text \<open>
  \<^verbatim>\<open>HirschC.bsv\<close>: the recursive algorithm that writes out a longest common subsequence, as a state
  machine over a call stack and two units of algorithm B, one for each direction.
\<close>

section \<open>The machine\<close>

record c_args =
  c_aStart :: idx
  c_bStart :: idx
  c_aLen :: idx
  c_bLen :: idx

record c_vars =
  c_midi :: idx
  c_maxj :: idx

datatype hc_state = HCSIdle | HCS1 | HCS2 | HCS3 | HCS4 | HCS5 | HCS6 | HCSComplete

record hirsch_c =
  hc_fr :: "(hc_state, c_args, c_vars) stack_reg"
  hc_out :: matrix
  outcounter :: idx
  hc_l0 :: matrix
  hc_l1 :: matrix

abbreviation hc_pc :: "hirsch_c \<Rightarrow> hc_state" where "hc_pc s \<equiv> fst (sr_top (hc_fr s))"
abbreviation hc_args :: "hirsch_c \<Rightarrow> c_args" where "hc_args s \<equiv> fst (snd (sr_top (hc_fr s)))"
abbreviation hc_vars :: "hirsch_c \<Rightarrow> c_vars" where "hc_vars s \<equiv> snd (snd (sr_top (hc_fr s)))"

text \<open>The search of string B for the first character of string A, which ends at the first hit.\<close>

fun hirschC2_loop :: "bstring \<Rightarrow> u8 \<Rightarrow> idx \<Rightarrow> nat list \<Rightarrow> matrix \<times> idx \<Rightarrow> matrix \<times> idx" where
  "hirschC2_loop strB aData bStart [] st = st"
| "hirschC2_loop strB aData bStart (jj # jjs) (matL, oc) =
     (if aData = strB (bStart + of_nat jj) then (matL(oc := ucast aData), oc + 1)
      else hirschC2_loop strB aData bStart jjs (matL, oc))"

definition hirschC2 :: "bstring \<Rightarrow> bstring \<Rightarrow> c_args \<Rightarrow> matrix \<times> idx \<Rightarrow> matrix \<times> idx" where
  "hirschC2 strA strB args = hirschC2_loop strB (strA (c_aStart args)) (c_bStart args) [0..<unat (c_bLen args)]"

text \<open>The search of the two rows for the best place to cut string B: the largest sum and its column.\<close>

definition hirschC4 :: "matrix \<Rightarrow> matrix \<Rightarrow> idx \<Rightarrow> u16 \<times> idx" where
  "hirschC4 l0 l1 bLen =
     fold (\<lambda>jj (maxjvalue, maxj).
         (let t1 = l0 (of_nat jj); t2 = l1 (bLen - of_nat jj)
          in if maxjvalue < t1 + t2 then (t1 + t2, of_nat jj) else (maxjvalue, maxj)))
       [0..<unat bLen + 1] (0, 0)"

text \<open>
  One step: a rule, or the state machine it started up to its last action.  The units of algorithm B
  that \<^verbatim>\<open>hc1\<close> starts have written their rows when both are done, which \<^verbatim>\<open>hc3\<close> waits for.
\<close>

definition hc1 :: "bstring \<Rightarrow> bstring \<Rightarrow> hirsch_c \<Rightarrow> hirsch_c" where
  "hc1 strA strB s =
     (let args = hc_args s; fr = hc_fr s in
      if c_bLen args = 0 then s\<lparr>hc_fr := stack_clock Doreturn fr\<rparr>
      else if c_aLen args = 1 then s\<lparr>hc_fr := stack_clock (Nextpc HCS2 (hc_vars s)) fr\<rparr>
      else (let midi = drop_bit 1 (c_aLen args);
                b = (c_bStart args, c_bLen args)
            in s\<lparr>hc_l0 := hirschB strA strB True (c_aStart args, midi) b 0 (hc_l0 s),
                 hc_l1 := hirschB strA strB False (c_aStart args + midi, c_aLen args - midi) b 0 (hc_l1 s),
                 hc_fr := stack_clock (Nextpc HCS3 ((hc_vars s)\<lparr>c_midi := midi\<rparr>)) fr\<rparr>))"

definition hc2 :: "bstring \<Rightarrow> bstring \<Rightarrow> hirsch_c \<Rightarrow> hirsch_c" where
  "hc2 strA strB s =
     (case hirschC2 strA strB (hc_args s) (hc_out s, outcounter s) of
        (matL, oc) \<Rightarrow> s\<lparr>hc_out := matL, outcounter := oc, hc_fr := stack_clock Doreturn (stack_clock Keep (hc_fr s))\<rparr>)"

definition hc4 :: "hirsch_c \<Rightarrow> hirsch_c" where
  "hc4 s =
     (let args = hc_args s;
          maxj = snd (hirschC4 (hc_l0 s) (hc_l1 s) (c_bLen args));
          vars = (hc_vars s)\<lparr>c_maxj := maxj\<rparr>;
          fr = stack_clock (Nextpc HCS4 vars) (hc_fr s);
          sub = \<lparr>c_aStart = c_aStart args, c_bStart = c_bStart args, c_aLen = c_midi vars, c_bLen = maxj\<rparr>
      in s\<lparr>hc_fr := stack_clock (Docall HCS1 HCS5 sub vars) fr\<rparr>)"

definition hc5 :: "hirsch_c \<Rightarrow> hirsch_c" where
  "hc5 s =
     (let args = hc_args s; vars = hc_vars s;
          sub = \<lparr>c_aStart = c_aStart args + c_midi vars, c_bStart = c_bStart args + c_maxj vars,
                 c_aLen = c_aLen args - c_midi vars, c_bLen = c_bLen args - c_maxj vars\<rparr>
      in s\<lparr>hc_fr := stack_clock (Docall HCS1 HCS6 sub vars) (hc_fr s)\<rparr>)"

definition hc_step :: "bstring \<Rightarrow> bstring \<Rightarrow> hirsch_c \<Rightarrow> hirsch_c" where
  "hc_step strA strB s =
     (case hc_pc s of
        HCSIdle \<Rightarrow> s
      | HCS1 \<Rightarrow> hc1 strA strB s
      | HCS2 \<Rightarrow> hc2 strA strB s
      | HCS3 \<Rightarrow> s\<lparr>hc_fr := stack_clock (Nextpc HCS4 (hc_vars s)) (hc_fr s)\<rparr>
      | HCS4 \<Rightarrow> hc4 s
      | HCS5 \<Rightarrow> hc5 s
      | HCS6 \<Rightarrow> s\<lparr>hc_fr := stack_clock Doreturn (hc_fr s)\<rparr>
      | HCSComplete \<Rightarrow> s\<lparr>hc_fr := stack_clock (Nextpc HCSIdle (hc_vars s)) (hc_fr s)\<rparr>)"

definition hc_start :: "idx \<Rightarrow> idx \<Rightarrow> hirsch_c \<Rightarrow> hirsch_c" where
  "hc_start aLen bLen s =
     s\<lparr>hc_fr := stack_clock (Docall HCS1 HCSComplete \<lparr>c_aStart = 0, c_bStart = 0, c_aLen = aLen, c_bLen = bLen\<rparr>
                               \<lparr>c_midi = 0, c_maxj = 0\<rparr>) (hc_fr s)\<rparr>"

text \<open>Running until the machine is idle.\<close>

partial_function (option) hc_run :: "bstring \<Rightarrow> bstring \<Rightarrow> hirsch_c \<Rightarrow> hirsch_c option" where
  "hc_run strA strB s = (if hc_pc s = HCSIdle then Some s else hc_run strA strB (hc_step strA strB s))"

section \<open>The best cut\<close>

lemma hirschC4_best:
  assumes "\<And>j. j \<le> n \<Longrightarrow> l0 (of_nat j) + l1 (bLen - of_nat j) = of_nat (f j)" and "\<And>j. f j < 2 ^ 16" and "unat bLen = n"
  shows "\<exists>j \<le> n. snd (hirschC4 l0 l1 bLen) = of_nat j \<and> (\<forall>i \<le> n. f i \<le> f j)"
proof -
  define g where "g jj = (\<lambda>(mv, mj). let t1 = l0 (of_nat jj); t2 = l1 (bLen - of_nat jj)
      in if mv < t1 + t2 then (t1 + t2, of_nat jj) else (mv :: u16, mj :: idx))" for jj
  have "\<exists>v j. fold g [0..<k] (0, 0) = (of_nat v, of_nat j) \<and> v < 2 ^ 16 \<and> (\<forall>i < k. f i \<le> v) \<and> (0 < k \<longrightarrow> f j = v \<and> j < k) \<and> (k = 0 \<longrightarrow> v = 0 \<and> j = 0)"
    if "k \<le> n + 1" for k
    using that
  proof (induction k)
    case 0
    show ?case by (intro exI [of _ 0]) simp
  next
    case (Suc k)
    then obtain v j where r: "fold g [0..<k] (0, 0) = (of_nat v, of_nat j)" "v < 2 ^ 16" "\<forall>i < k. f i \<le> v"
      "0 < k \<longrightarrow> f j = v \<and> j < k" "k = 0 \<longrightarrow> v = 0 \<and> j = 0" by auto
    have "unat (of_nat v :: u16) = v" "unat (of_nat (f k) :: u16) = f k" using r(2) assms(2) by (intro unat_of_nat_less; simp)+
    then have lt: "(of_nat v :: u16) < of_nat (f k) \<longleftrightarrow> v < f k" by (simp add: word_less_nat_alt)
    have "fold g [0..<Suc k] (0, 0) = (if v < f k then (of_nat (f k), of_nat k) else (of_nat v, of_nat j))"
      using r(1) assms(1) [of k] Suc.prems lt by (simp add: g_def Let_def)
    moreover have "\<forall>i < Suc k. f i \<le> max v (f k)" using r(3) by (auto simp: less_Suc_eq)
    moreover have "f (if v < f k then k else j) = max v (f k)" using r(4,5) by (cases "k = 0") auto
    moreover have "(if v < f k then k else j) < Suc k" using r(4,5) by (cases "k = 0") auto
    ultimately show ?case
      using r(2) assms(2) [of k] by (intro exI [of _ "max v (f k)"] exI [of _ "if v < f k then k else j"]) (auto simp: max_def)
  qed
  from this [of "n + 1"] show ?thesis
    unfolding hirschC4_def assms(3) g_def by (auto simp: less_Suc_eq_le simp del: upt_Suc)
qed

lemma holds_take: "holds mem start xs \<Longrightarrow> holds mem start (take k xs)"
  by (auto simp: holds_def)

lemma holds_drop: "holds mem start xs \<Longrightarrow> holds mem (start + of_nat k) (drop k xs)"
proof -
  assume h: "holds mem start xs"
  then have "mem (start + of_nat (k + i)) = xs ! (k + i)" if "k + i < length xs" for i using that holds_nth by blast
  then show ?thesis using h unfolding holds_def by (auto simp: algebra_simps)
qed

text \<open>The two rows of a cut after k characters, and where the machine cuts string B.\<close>

lemma cut_found:
  fixes m0 m1 :: matrix
  assumes "holds strA aStart as" "holds strB bStart bs" "unat aLen = length as" "unat bLen = length bs" "k \<le> length as"
  defines "l0 \<equiv> hirschB strA strB True (aStart, of_nat k) (bStart, bLen) 0 m0"
    and "l1 \<equiv> hirschB strA strB False (aStart + of_nat k, aLen - of_nat k) (bStart, bLen) 0 m1"
  shows "\<exists>j \<le> length bs. snd (hirschC4 l0 l1 bLen) = of_nat j \<and>
    lcs (take k as) (take j bs) + lcs (drop k as) (drop j bs) = lcs as bs"
proof -
  define f where "f j = lcs (take k as) (take j bs) + lcs (drop k as) (drop j bs)" for j
  have l: "length as < 2 ^ 14 - 1" "length bs < 2 ^ 14 - 1" using assms(1,2) by (simp_all add: holds_def)
  have al: "aLen = of_nat (length as)" "bLen = of_nat (length bs)" using assms(3,4) by (metis word_eq_of_unat)+
  have k: "unat (of_nat k :: idx) = length (take k as)" "unat (aLen - of_nat k) = length (drop k as)"
    using assms(5) l(1) al(1) unat_of_nat_less [of k, where 'a = 14] unat_of_nat_less [of "length as - k", where 'a = 14] by simp_all
  have 0: "row_at (take k as) bs m0 (length (take k as)) l0"
    unfolding l0_def using hirschB_result [OF holds_take [OF assms(1)] assms(2) k(1) assms(4), of True m0] by (simp add: dir_list_def)
  have 1: "row_at (rev (drop k as)) (rev bs) m1 (length (drop k as)) l1"
    unfolding l1_def using hirschB_result [OF holds_drop [OF assms(1)] assms(2) k(2) assms(4), of False m1] by (simp add: dir_list_def)
  have "l0 (of_nat j) + l1 (bLen - of_nat j) = of_nat (f j)" if "j \<le> length bs" for j
  proof -
    have "bLen - of_nat j = of_nat (length bs - j)" using that al(2) by (simp add: of_nat_diff)
    then have "l1 (bLen - of_nat j) = of_nat (lcs (rev (drop k as)) (take (length bs - j) (rev bs)))"
      using 1 unfolding row_at_def by simp
    also have "\<dots> = of_nat (lcs (drop k as) (drop j bs))" using that by (simp add: take_rev)
    finally show ?thesis using 0 that assms(5) unfolding row_at_def f_def by (simp add: min_absorb2)
  qed
  moreover have "f j < 2 ^ 16" for j
    using lcs_le(1) [of "take k as" "take j bs"] lcs_le(1) [of "drop k as" "drop j bs"] l(1) unfolding f_def by auto
  ultimately obtain j where j: "j \<le> length bs" "snd (hirschC4 l0 l1 bLen) = of_nat j" "\<forall>i \<le> length bs. f i \<le> f j"
    using hirschC4_best [of "length bs" l0 l1 bLen f] assms(4) by blast
  moreover have "f j = lcs as bs"
    using lcs_split [of bs "take k as" "drop k as"] lcs_split_le [of "take k as" j bs "drop k as"] j(3)
    unfolding f_def by (metis append_take_drop_id le_antisym)
  ultimately show ?thesis unfolding f_def by blast
qed

section \<open>The search of a single character\<close>

definition hc_written :: "matrix \<Rightarrow> idx \<Rightarrow> u16 list" where
  "hc_written matL oc = map (\<lambda>i. matL (of_nat i)) [0..<unat oc]"

lemma hc_written_Suc:
  assumes "unat oc + 1 < 2 ^ 14"
  shows "hc_written (matL(oc := x)) (oc + 1) = hc_written matL oc @ [x]"
proof -
  have u: "unat (oc + 1) = unat oc + 1" using assms by (simp add: unat_word_ariths)
  have "(of_nat i :: idx) \<noteq> oc" if "i < unat oc" for i
    using that assms unat_of_nat_less [of i, where 'a = 14] by auto
  then show ?thesis unfolding hc_written_def u by (simp add: word_eq_of_unat)
qed

lemma hirschC2_loop_result:
  "hirschC2_loop strB c bStart jjs (m, oc) =
     (if c \<in> (\<lambda>j. strB (bStart + of_nat j)) ` set jjs then (m(oc := ucast c), oc + 1) else (m, oc))"
  by (induction jjs) auto

lemma hirschC2_result:
  assumes "holds strA (c_aStart args) [c]" "holds strB (c_bStart args) bs" "unat (c_bLen args) = length bs"
  shows "hirschC2 strA strB args (m, oc) = (if c \<in> set bs then (m(oc := ucast c), oc + 1) else (m, oc))"
proof -
  have "strA (c_aStart args) = c" using holds_nth [OF assms(1), of 0] by simp
  moreover have "(\<lambda>j. strB (c_bStart args + of_nat j)) ` set [0..<length bs] = set bs"
    using holds_nth [OF assms(2)] by (force simp: in_set_conv_nth image_iff)
  ultimately show ?thesis by (simp add: hirschC2_def hirschC2_loop_result assms(3))
qed

lemma is_lcs_single: "is_lcs (if c \<in> set bs then [c] else []) [c] bs"
proof -
  have "common ds [c] bs \<Longrightarrow> length ds \<le> (if c \<in> set bs then 1 else 0)" for ds
    using list_emb_length [of "(=)" ds "[c]"] list_emb_set [of "(=)" ds bs] list_emb_set [of "(=)" ds "[c]"]
    by (cases ds) (auto simp: common_def)
  then show ?thesis by (auto simp: is_lcs_def common_def subseq_singleton_left)
qed

section \<open>A call returns with a longest common subsequence\<close>

definition hc_reach :: "bstring \<Rightarrow> bstring \<Rightarrow> hirsch_c \<Rightarrow> hirsch_c \<Rightarrow> bool" where
  "hc_reach strA strB s t \<longleftrightarrow> (\<exists>n. (hc_step strA strB ^^ n) s = t)"

lemma hc_reach_refl: "hc_reach strA strB s s"
  unfolding hc_reach_def by (rule exI [of _ 0]) simp

lemma hc_reach_trans: "hc_reach strA strB s t \<Longrightarrow> hc_reach strA strB t u \<Longrightarrow> hc_reach strA strB s u"
  unfolding hc_reach_def by (metis comp_apply funpow_add)

lemma hc_reach_step: "hc_reach strA strB (hc_step strA strB s) t \<Longrightarrow> hc_reach strA strB s t"
  by (rule hc_reach_trans) (auto simp: hc_reach_def intro: exI [of _ 1])

text \<open>A state in which a frame is in control, with the callers' frames below it and a text written.\<close>

definition hc_at :: "(hc_state, c_args, c_vars) frame \<Rightarrow> (hc_state, c_args, c_vars) frame list \<Rightarrow> u16 list \<Rightarrow> hirsch_c \<Rightarrow> bool" where
  "hc_at f fs w s \<longleftrightarrow> stack_ok (hc_fr s) \<and> sr_top (hc_fr s) = f \<and> stack_frames (hc_fr s) = fs \<and> hc_written (hc_out s) (outcounter s) = w"

lemma hc_at_length: "hc_at f fs w s \<Longrightarrow> unat (outcounter s) = length w"
  by (auto simp: hc_at_def hc_written_def)

lemma hc_at_return: "hc_at g (f # fs) w s \<Longrightarrow> hc_at f fs w (s\<lparr>hc_fr := stack_clock Doreturn (hc_fr s)\<rparr>)"
  using stack_doreturn [of "hc_fr s" f fs] by (simp add: hc_at_def)

lemma hc_at_nextpc: "hc_at (p, a, v) fs w s \<Longrightarrow> hc_at (p', a, v') fs w (s\<lparr>hc_fr := stack_clock (Nextpc p' v') (hc_fr s)\<rparr>)"
  using stack_nextpc [where s = "hc_fr s" and p = p' and v = v'] by (auto simp: hc_at_def)

lemma hc_at_call:
  "hc_at (p, a, v) fs w s \<Longrightarrow> length fs < 127 \<Longrightarrow>
   hc_at (p', a', v') ((r, a, v') # fs) w (s\<lparr>hc_fr := stack_clock (Docall p' r a' v') (hc_fr s)\<rparr>)"
  using stack_docall [where s = "hc_fr s" and p = p' and r = r and a = a' and v = v'] by (auto simp: hc_at_def)

lemma hc_step_return: "hc_at (HCS6, a, v) (f # fs) w s \<Longrightarrow> hc_at f fs w (hc_step strA strB s)"
  using hc_at_return [of "(HCS6, a, v)" f fs w s] by (simp add: hc_step_def hc_at_def)

lemma hc_step_empty: "hc_at (HCS1, args, v) (f # fs) w s \<Longrightarrow> c_bLen args = 0 \<Longrightarrow> hc_at f fs w (hc_step strA strB s)"
  using hc_at_return [of "(HCS1, args, v)" f fs w s] by (simp add: hc_step_def hc_at_def hc1_def Let_def)

lemma hc_step_single:
  assumes "hc_at (HCS1, args, v) (f # fs) w s" "c_bLen args \<noteq> 0" "c_aLen args = 1"
    and "holds strA (c_aStart args) [c]" "holds strB (c_bStart args) bs" "unat (c_bLen args) = length bs" "length w + 1 < 2 ^ 14"
  shows "hc_at f fs (w @ map ucast (if c \<in> set bs then [c] else [])) (hc_step strA strB (hc_step strA strB s))"
proof -
  define t where "t = s\<lparr>hc_fr := stack_clock (Nextpc HCS2 v) (hc_fr s)\<rparr>"
  have t: "hc_at (HCS2, args, v) (f # fs) w t" unfolding t_def by (rule hc_at_nextpc [OF assms(1)])
  have "hc_step strA strB s = t" using assms(1-3) by (simp add: hc_step_def hc_at_def hc1_def Let_def t_def)
  moreover have "hc_written (if c \<in> set bs then (hc_out t)(outcounter t := ucast c) else hc_out t)
      (if c \<in> set bs then outcounter t + 1 else outcounter t) = w @ map ucast (if c \<in> set bs then [c] else [])"
    using t hc_at_length [OF t] assms(7) by (simp add: hc_at_def hc_written_Suc)
  ultimately show ?thesis
    using t hirschC2_result [OF assms(4-6), of "hc_out t" "outcounter t"] stack_keep [of "hc_fr t"]
      stack_doreturn [of "stack_clock Keep (hc_fr t)" f fs]
    by (simp add: hc_step_def hc2_def hc_at_def split: if_splits)
qed

text \<open>From the entry of a call that cuts string A to the entry of its first recursive call.\<close>

lemma hc_step_cut:
  assumes "hc_at (HCS1, args, v) fs w s" "length fs < 127" "holds strA (c_aStart args) as" "holds strB (c_bStart args) bs"
    and "unat (c_aLen args) = length as" "unat (c_bLen args) = length bs" "bs \<noteq> []" "1 < length as"
  defines "k \<equiv> length as div 2"
  shows "\<exists>j t. j \<le> length bs \<and> lcs (take k as) (take j bs) + lcs (drop k as) (drop j bs) = lcs as bs \<and>
    hc_reach strA strB s t \<and>
    (let v' = \<lparr>c_midi = of_nat k, c_maxj = of_nat j\<rparr> in
     hc_at (HCS1, \<lparr>c_aStart = c_aStart args, c_bStart = c_bStart args, c_aLen = of_nat k, c_bLen = of_nat j\<rparr>, v')
       ((HCS5, args, v') # fs) w t)"
proof -
  have "c_bLen args \<noteq> 0" "c_aLen args \<noteq> 1" using assms(5-8) by auto
  have m: "drop_bit 1 (c_aLen args) = of_nat k"
    using assms(5) unat_drop_bit_div [of 1 "c_aLen args"] unfolding k_def by (metis power_one_right word_eq_of_unat)
  define l0 where "l0 = hirschB strA strB True (c_aStart args, of_nat k) (c_bStart args, c_bLen args) 0 (hc_l0 s)"
  define l1 where "l1 = hirschB strA strB False (c_aStart args + of_nat k, c_aLen args - of_nat k) (c_bStart args, c_bLen args) 0 (hc_l1 s)"
  from cut_found [OF assms(3-6), of k "hc_l0 s" "hc_l1 s"] obtain j where
    j: "j \<le> length bs" "snd (hirschC4 l0 l1 (c_bLen args)) = of_nat j"
      "lcs (take k as) (take j bs) + lcs (drop k as) (drop j bs) = lcs as bs"
    unfolding l0_def l1_def k_def by auto
  define v1 where "v1 = v\<lparr>c_midi := of_nat k\<rparr>"
  define v' where "v' = \<lparr>c_midi = of_nat k :: idx, c_maxj = of_nat j\<rparr>"
  define sub where "sub = \<lparr>c_aStart = c_aStart args, c_bStart = c_bStart args, c_aLen = of_nat k, c_bLen = of_nat j\<rparr>"
  define s0 where "s0 = s\<lparr>hc_l0 := l0, hc_l1 := l1\<rparr>"
  define s1 where "s1 = s0\<lparr>hc_fr := stack_clock (Nextpc HCS3 v1) (hc_fr s0)\<rparr>"
  define s2 where "s2 = s1\<lparr>hc_fr := stack_clock (Nextpc HCS4 v1) (hc_fr s1)\<rparr>"
  define s3 where "s3 = s2\<lparr>hc_fr := stack_clock (Nextpc HCS4 v') (hc_fr s2)\<rparr>"
  define t where "t = s3\<lparr>hc_fr := stack_clock (Docall HCS1 HCS5 sub v') (hc_fr s3)\<rparr>"
  have 0: "hc_at (HCS1, args, v) fs w s0" using assms(1) by (simp add: hc_at_def s0_def)
  have 1: "hc_at (HCS3, args, v1) fs w s1" unfolding s1_def by (rule hc_at_nextpc [OF 0])
  have 2: "hc_at (HCS4, args, v1) fs w s2" unfolding s2_def by (rule hc_at_nextpc [OF 1])
  have 3: "hc_at (HCS4, args, v') fs w s3" unfolding s3_def by (rule hc_at_nextpc [OF 2])
  have 4: "hc_at (HCS1, sub, v') ((HCS5, args, v') # fs) w t" unfolding t_def by (rule hc_at_call [OF 3 assms(2)])
  have "hc_step strA strB s = s1"
    using assms(1) \<open>c_bLen args \<noteq> 0\<close> \<open>c_aLen args \<noteq> 1\<close>
    by (simp add: hc_step_def hc_at_def hc1_def Let_def m [unfolded One_nat_def] s1_def s0_def v1_def l0_def l1_def)
  moreover have "hc_step strA strB s1 = s2" using 1 by (simp add: hc_step_def hc_at_def s2_def)
  moreover have "hc_step strA strB s2 = t"
    using 2 j(2) by (cases v) (simp add: hc_step_def hc_at_def hc4_def Let_def t_def s3_def s2_def s1_def s0_def sub_def v'_def v1_def)
  ultimately have "hc_reach strA strB s t" by (metis hc_reach_step hc_reach_refl)
  then show ?thesis using j(1,3) 4 unfolding sub_def v'_def Let_def by blast
qed

lemma hc_step_second:
  assumes "hc_at (HCS5, args, v) fs w s" "length fs < 127"
  shows "hc_at (HCS1, \<lparr>c_aStart = c_aStart args + c_midi v, c_bStart = c_bStart args + c_maxj v,
      c_aLen = c_aLen args - c_midi v, c_bLen = c_bLen args - c_maxj v\<rparr>, v) ((HCS6, args, v) # fs) w (hc_step strA strB s)"
  using hc_at_call [OF assms, of HCS1] assms(1) by (auto simp: hc_step_def hc_at_def hc5_def Let_def)

lemma is_lcs_append:
  assumes "is_lcs cs (take k as) (take j bs)" "is_lcs ds (drop k as) (drop j bs)"
    and "lcs (take k as) (take j bs) + lcs (drop k as) (drop j bs) = lcs as bs"
  shows "is_lcs (cs @ ds) as bs"
proof -
  have "common (cs @ ds) (take k as @ drop k as) (take j bs @ drop j bs)"
    using assms(1,2) unfolding is_lcs_def common_def by (metis list_emb_append_mono)
  then show ?thesis using assms unfolding is_lcs_iff by simp
qed

text \<open>
  What a call relies on: its arguments describe two strings, the first not empty, there is room for
  its text, and the frames of its recursive calls fit the stack, at most one for every halving.
\<close>

definition call_pre :: "bstring \<Rightarrow> bstring \<Rightarrow> c_args \<Rightarrow> u8 list \<Rightarrow> u8 list \<Rightarrow> nat \<Rightarrow> nat \<Rightarrow> bool" where
  "call_pre strA strB args as bs depth written \<longleftrightarrow>
     holds strA (c_aStart args) as \<and> holds strB (c_bStart args) bs \<and> unat (c_aLen args) = length as \<and> unat (c_bLen args) = length bs
     \<and> as \<noteq> [] \<and> length as \<le> 2 ^ (127 - depth) \<and> written + length as < 2 ^ 14"

lemma call_pre_depth:
  assumes "call_pre strA strB args as bs d w" "1 < length as"
  shows "d < 127" "length as \<le> 2 * 2 ^ (127 - Suc d)"
proof -
  show "d < 127" using assms by (cases "d < 127") (auto simp: call_pre_def)
  then have "127 - d = Suc (127 - Suc d)" by simp
  then show "length as \<le> 2 * 2 ^ (127 - Suc d)" using assms(1) unfolding call_pre_def by (metis power_Suc)
qed

lemma call_pre_first:
  assumes "call_pre strA strB args as bs d w" "1 < length as" "j \<le> length bs"
  shows "call_pre strA strB \<lparr>c_aStart = c_aStart args, c_bStart = c_bStart args, c_aLen = of_nat (length as div 2), c_bLen = of_nat j\<rparr>
    (take (length as div 2) as) (take j bs) (Suc d) w"
proof -
  have "length as < 2 ^ 14 - 1" "length bs < 2 ^ 14 - 1" using assms(1) by (simp_all add: call_pre_def holds_def)
  then have "unat (of_nat (length as div 2) :: idx) = length as div 2" "unat (of_nat j :: idx) = j"
    using assms(3) by (intro unat_of_nat_less; simp)+
  then show ?thesis
    using assms call_pre_depth [OF assms(1,2)] by (auto simp: call_pre_def min_absorb2 intro: holds_take)
qed

lemma call_pre_second:
  assumes "call_pre strA strB args as bs d w" "1 < length as" "j \<le> length bs" "n \<le> length as div 2"
  shows "call_pre strA strB \<lparr>c_aStart = c_aStart args + of_nat (length as div 2), c_bStart = c_bStart args + of_nat j,
      c_aLen = c_aLen args - of_nat (length as div 2), c_bLen = c_bLen args - of_nat j\<rparr>
    (drop (length as div 2) as) (drop j bs) (Suc d) (w + n)"
proof -
  let ?k = "length as div 2"
  have l: "length as < 2 ^ 14 - 1" "length bs < 2 ^ 14 - 1" using assms(1) by (simp_all add: call_pre_def holds_def)
  have "c_aLen args = of_nat (length as)" "c_bLen args = of_nat (length bs)"
    using assms(1) unfolding call_pre_def by (metis word_eq_of_unat)+
  then have "c_aLen args - of_nat ?k = of_nat (length as - ?k)" "c_bLen args - of_nat j = of_nat (length bs - j)"
    using assms(3) by (simp_all add: of_nat_diff)
  moreover have "unat (of_nat (length as - ?k) :: idx) = length as - ?k" "unat (of_nat (length bs - j) :: idx) = length bs - j"
    using l by (intro unat_of_nat_less; simp)+
  ultimately have "unat (c_aLen args - of_nat ?k) = length as - ?k" "unat (c_bLen args - of_nat j) = length bs - j" by metis+
  moreover have "x \<le> 2 * p \<Longrightarrow> x - x div 2 \<le> p" for x p :: nat by linarith
  then have "length as - ?k \<le> 2 ^ (127 - Suc d)" using call_pre_depth(2) [OF assms(1,2)] by blast
  moreover have "w + n + (length as - ?k) < 2 ^ 14" using assms(1,4) unfolding call_pre_def by linarith
  ultimately show ?thesis
    using assms by (auto simp: call_pre_def intro: holds_drop)
qed

lemma call_returns:
  assumes "call_pre strA strB args as bs (Suc (length fs)) (length w)" "hc_at (HCS1, args, v) (f # fs) w s"
  shows "\<exists>t cs. hc_reach strA strB s t \<and> is_lcs cs as bs \<and> hc_at f fs (w @ map ucast cs) t"
  using assms
proof (induction "length as" arbitrary: as bs args v f fs w s rule: less_induct)
  case less
  have pre: "holds strA (c_aStart args) as" "holds strB (c_bStart args) bs" "unat (c_aLen args) = length as"
    "unat (c_bLen args) = length bs" "as \<noteq> []" "length w + length as < 2 ^ 14" using less.prems(1) by (simp_all add: call_pre_def)
  consider "bs = []" | "bs \<noteq> []" "length as = 1" | "bs \<noteq> []" "1 < length as"
    using pre(5) by (cases as; cases "tl as") auto
  then show ?case
  proof cases
    case 1
    then have "c_bLen args = 0" using pre(4) by (simp add: unat_eq_0)
    then have "hc_at f fs (w @ map ucast []) (hc_step strA strB s)" using hc_step_empty [OF less.prems(2)] by simp
    then show ?thesis using 1 hc_reach_step [OF hc_reach_refl] by (metis is_lcs_iff common_def lcs_Nil list.size(3) list_emb_Nil)
  next
    case 2
    then obtain c where c: "as = [c]" by (metis One_nat_def length_0_conv length_Suc_conv)
    have "c_bLen args \<noteq> 0" "c_aLen args = 1" using 2 pre(3,4) word_eq_of_unat [of "c_aLen args"] by auto
    then show ?thesis
      using hc_step_single [OF less.prems(2) _ _ pre(1) [unfolded c] pre(2,4)] pre(6) c is_lcs_single [of c bs]
        hc_reach_step [OF hc_reach_step [OF hc_reach_refl]] by (metis One_nat_def length_Cons list.size(3))
  next
    case 3
    let ?k = "length as div 2"
    note d = call_pre_depth(1) [OF less.prems(1) 3(2)]
    have k: "?k < length as" "length (drop ?k as) < length as" using 3(2) by simp_all
    from hc_step_cut [OF less.prems(2) _ pre(1-4) 3] d obtain j t v' where
      j: "j \<le> length bs" "lcs (take ?k as) (take j bs) + lcs (drop ?k as) (drop j bs) = lcs as bs"
      and t: "hc_reach strA strB s t" and v': "v' = \<lparr>c_midi = of_nat ?k, c_maxj = of_nat j\<rparr>"
      and at: "hc_at (HCS1, \<lparr>c_aStart = c_aStart args, c_bStart = c_bStart args, c_aLen = of_nat ?k, c_bLen = of_nat j\<rparr>, v')
        ((HCS5, args, v') # f # fs) w t"
      unfolding Let_def by auto
    have pre1: "call_pre strA strB \<lparr>c_aStart = c_aStart args, c_bStart = c_bStart args, c_aLen = of_nat ?k, c_bLen = of_nat j\<rparr>
        (take ?k as) (take j bs) (Suc (length (f # fs))) (length w)" using call_pre_first [OF less.prems(1) 3(2) j(1)] by simp
    from less.hyps [OF _ pre1 at] k(1) obtain t1 cs where
      t1: "hc_reach strA strB t t1" "is_lcs cs (take ?k as) (take j bs)" "hc_at (HCS5, args, v') (f # fs) (w @ map ucast cs) t1"
      by (auto simp: min_absorb2)
    have cs: "length cs \<le> ?k" using t1(2) lcs_le(1) [of "take ?k as" "take j bs"] by (simp add: is_lcs_iff)
    have pre2: "call_pre strA strB \<lparr>c_aStart = c_aStart args + c_midi v', c_bStart = c_bStart args + c_maxj v',
          c_aLen = c_aLen args - c_midi v', c_bLen = c_bLen args - c_maxj v'\<rparr>
        (drop ?k as) (drop j bs) (Suc (length (f # fs))) (length (w @ map ucast cs :: u16 list))"
      using call_pre_second [OF less.prems(1) 3(2) j(1) cs] by (simp add: v')
    from less.hyps [OF k(2) pre2 hc_step_second [OF t1(3), of strA strB]] d obtain t2 ds where
      t2: "hc_reach strA strB (hc_step strA strB t1) t2" "is_lcs ds (drop ?k as) (drop j bs)"
      "hc_at (HCS6, args, v') (f # fs) ((w @ map ucast cs) @ map ucast ds) t2" by auto
    have "hc_reach strA strB s (hc_step strA strB t2)"
      by (rule hc_reach_trans [OF t], rule hc_reach_trans [OF t1(1)], rule hc_reach_step, rule hc_reach_trans [OF t2(1)])
        (rule hc_reach_step [OF hc_reach_refl])
    moreover have "hc_at f fs (w @ map ucast (cs @ ds)) (hc_step strA strB t2)" using hc_step_return [OF t2(3)] by simp
    ultimately show ?thesis using is_lcs_append [OF t1(2) t2(2) j(2)] by blast
  qed
qed

text \<open>The whole run: a machine that is idle and has not written anything yet.\<close>

lemma hc_reach_run:
  assumes "hc_reach strA strB s t" "hc_pc t = HCSIdle"
  shows "\<exists>u. hc_run strA strB s = Some u \<and> u = t"
proof -
  from assms(1) obtain n where "(hc_step strA strB ^^ n) s = t" unfolding hc_reach_def by blast
  then show ?thesis
  proof (induction n arbitrary: s)
    case (Suc n)
    show ?case
    proof (cases "hc_pc s = HCSIdle")
      case True
      then have "(hc_step strA strB ^^ Suc n) s = s"
        by (induction n) (auto simp: hc_step_def)
      then show ?thesis using Suc.prems True by (simp add: hc_run.simps)
    next
      case False
      then show ?thesis using Suc.IH [of "hc_step strA strB s"] Suc.prems
        by (subst hc_run.simps) (simp add: funpow_swap1)
    qed
  qed (use assms(2) in \<open>simp add: hc_run.simps\<close>)
qed

lemma hc_run_lcs:
  assumes "holds strA 0 as" "holds strB 0 bs" "unat aLen = length as" "unat bLen = length bs" "as \<noteq> []"
    and "stack_ok (hc_fr s)" "stack_frames (hc_fr s) = []" "outcounter s = 0"
  shows "\<exists>cs t. hc_run strA strB (hc_start aLen bLen s) = Some t \<and> is_lcs cs as bs \<and>
    stack_ok (hc_fr t) \<and> stack_frames (hc_fr t) = [] \<and> unat (outcounter t) = length cs \<and>
    hc_written (hc_out t) (outcounter t) = map ucast cs"
proof -
  let ?args = "\<lparr>c_aStart = 0, c_bStart = 0, c_aLen = aLen, c_bLen = bLen\<rparr>" and ?v = "\<lparr>c_midi = 0, c_maxj = 0\<rparr> :: c_vars"
  obtain p a v where top: "sr_top (hc_fr s) = (p, a, v)" by (cases "sr_top (hc_fr s)")
  have "hc_at (p, a, v) [] [] s" using assms(6-8) top by (simp add: hc_at_def hc_written_def)
  from hc_at_call [OF this, of HCS1 ?args ?v HCSComplete]
  have at: "hc_at (HCS1, ?args, ?v) [(HCSComplete, a, ?v)] [] (hc_start aLen bLen s)" by (simp add: hc_start_def)
  have "length as < 2 ^ 14 - 1" using assms(1) by (simp add: holds_def)
  then have "length as \<le> 2 ^ (127 - Suc 0)" by (simp add: less_imp_le)
  then have "call_pre strA strB ?args as bs (Suc (length ([] :: (hc_state, c_args, c_vars) frame list))) (length ([] :: u16 list))"
    using assms(1-5) by (simp add: call_pre_def holds_def)
  from call_returns [OF this at] obtain t cs where
    t: "hc_reach strA strB (hc_start aLen bLen s) t" "is_lcs cs as bs" "hc_at (HCSComplete, a, ?v) [] (map ucast cs) t" by auto
  let ?u = "t\<lparr>hc_fr := stack_clock (Nextpc HCSIdle ?v) (hc_fr t)\<rparr>"
  have u: "hc_at (HCSIdle, a, ?v) [] (map ucast cs) ?u" by (rule hc_at_nextpc [OF t(3)])
  have "hc_step strA strB t = ?u" using t(3) by (simp add: hc_step_def hc_at_def)
  then have "hc_reach strA strB (hc_start aLen bLen s) ?u"
    using hc_reach_trans [OF t(1) hc_reach_step [OF hc_reach_refl]] by simp
  moreover have "hc_pc ?u = HCSIdle" using u by (simp add: hc_at_def)
  ultimately have "hc_run strA strB (hc_start aLen bLen s) = Some ?u" using hc_reach_run by blast
  moreover have "unat (outcounter ?u) = length cs" using hc_at_length [OF u] by simp
  ultimately show ?thesis using t(2) u unfolding hc_at_def by blast
qed

end
