(* ===== verification/Max_Common.thy ===== *)
theory Max_Common
  imports Hirschberg_C
begin

text \<open>
  The longest common subsequence of two strings, computed by an accelerator: the requests of
  \<^verbatim>\<open>examples/maxcommonsubseq/Maxcommonsubseq.bsv\<close> and the program \<^verbatim>\<open>testmaxcommonsubseq.cpp\<close>, which runs
  the three algorithms on two strings and prints what they compute.
\<close>

section \<open>The accelerator\<close>

text \<open>The lengths and offsets that every unit is given, the two strings, and the memories with the state of algorithm C.\<close>

record mcs_hw =
  mcs_strA :: bstring
  mcs_strB :: bstring
  mcs_a :: "idx \<times> idx"
  mcs_b :: "idx \<times> idx"
  mcs_c :: hirsch_c

abbreviation mcs_matL :: "mcs_hw \<Rightarrow> matrix" where "mcs_matL hw \<equiv> hc_out (mcs_c hw)"

text \<open>
  A string is loaded from the start of an object in shared memory; the table is stored to an object
  of 16-bit values at a byte offset.
\<close>

definition bram_load :: "(nat \<Rightarrow> u8) \<Rightarrow> idx \<Rightarrow> idx \<Rightarrow> bstring \<Rightarrow> bstring" where
  "bram_load mem start finish br = fold (\<lambda>j m. m(of_nat j := mem (j - unat start))) [unat start..<unat finish + 1] br"

definition bram_store :: "matrix \<Rightarrow> nat \<Rightarrow> idx \<Rightarrow> idx \<Rightarrow> (nat \<Rightarrow> u16) \<Rightarrow> nat \<Rightarrow> u16" where
  "bram_store br base start finish mem =
     fold (\<lambda>j m. m(base div 2 + (j - unat start) := br (of_nat j))) [unat start..<unat finish + 1] mem"

definition mcs_setupA :: "(nat \<Rightarrow> u8) \<Rightarrow> u32 \<Rightarrow> u32 \<Rightarrow> mcs_hw \<Rightarrow> mcs_hw" where
  "mcs_setupA mem strOffset strLen hw =
     hw\<lparr>mcs_a := (ucast strOffset, ucast strLen),
        mcs_strA := bram_load mem (ucast strOffset) (ucast (strOffset + strLen - 1)) (mcs_strA hw)\<rparr>"

definition mcs_setupB :: "(nat \<Rightarrow> u8) \<Rightarrow> u32 \<Rightarrow> u32 \<Rightarrow> mcs_hw \<Rightarrow> mcs_hw" where
  "mcs_setupB mem strOffset strLen hw =
     hw\<lparr>mcs_b := (ucast strOffset, ucast strLen),
        mcs_strB := bram_load mem (ucast strOffset) (ucast (strOffset + strLen - 1)) (mcs_strB hw)\<rparr>"

definition mcs_fetch :: "u32 \<Rightarrow> u32 \<Rightarrow> u32 \<Rightarrow> mcs_hw \<Rightarrow> (nat \<Rightarrow> u16) \<Rightarrow> nat \<Rightarrow> u16" where
  "mcs_fetch dest src strLen hw mem =
     (let start = ucast src :: idx in bram_store (mcs_matL hw) (unat dest) start (start + ucast (strLen - 1)) mem)"

text \<open>The value of \<^verbatim>\<open>searchResult\<close> and the state then; no answer comes for other numbers.\<close>

definition mcs_start :: "u32 \<Rightarrow> mcs_hw \<Rightarrow> (u32 \<times> mcs_hw) option" where
  "mcs_start alg hw =
     (let a = mcs_a hw; b = mcs_b hw; put = (\<lambda>m. hw\<lparr>mcs_c := (mcs_c hw)\<lparr>hc_out := m\<rparr>\<rparr>) in
      if alg = 0 then Some (ucast (snd a * snd b), put (hirschA (mcs_strA hw) (mcs_strB hw) a b (mcs_matL hw)))
      else if alg = 1 then Some (ucast (snd b), put (hirschB (mcs_strA hw) (mcs_strB hw) True a b 0 (mcs_matL hw)))
      else if alg = 2 then Some (ucast (snd b), put (hirschB (mcs_strA hw) (mcs_strB hw) False a b 0 (mcs_matL hw)))
      else if alg = 3 then
        map_option (\<lambda>c. (ucast (outcounter c), hw\<lparr>mcs_c := c\<rparr>))
          (hc_run (mcs_strA hw) (mcs_strB hw) (hc_start (snd a) (snd b) (mcs_c hw)))
      else None)"

section \<open>The program\<close>

datatype mcs_stop = Assertion | No_answer

record mcs_report =
  rep_table :: "u16 list list"
  rep_forward :: "u16 list"
  rep_backward :: "u16 list"
  rep_result :: "u8 list"

definition alloc_len :: nat where "alloc_len = 128"
definition fetch_len :: nat where "fetch_len = alloc_len * alloc_len"

definition c_strncpy :: "u8 list \<Rightarrow> nat \<Rightarrow> u8" where
  "c_strncpy text = (\<lambda>i. if i < length text then text ! i else 0)"

definition c_strlen :: "(nat \<Rightarrow> u8) \<Rightarrow> nat" where
  "c_strlen buf = length (takeWhile (\<lambda>c. c \<noteq> 0) (map buf [0..<alloc_len]))"

text \<open>Overwriting the first characters of a buffer, forwards or reversed.\<close>

definition put_text :: "u8 list \<Rightarrow> (nat \<Rightarrow> u8) \<Rightarrow> nat \<Rightarrow> u8" where
  "put_text text buf = (\<lambda>i. if i < length text then text ! i else buf i)"

definition both_setups :: "(nat \<Rightarrow> u8) \<Rightarrow> nat \<Rightarrow> (nat \<Rightarrow> u8) \<Rightarrow> nat \<Rightarrow> mcs_hw \<Rightarrow> mcs_hw" where
  "both_setups strA strA_len strB strB_len hw = mcs_setupB strB 0 (of_nat strB_len) (mcs_setupA strA 0 (of_nat strA_len) hw)"

definition fetch_half :: "nat \<Rightarrow> mcs_hw \<Rightarrow> (nat \<Rightarrow> u16) \<Rightarrow> nat \<Rightarrow> u16" where
  "fetch_half half = mcs_fetch (of_nat (half * fetch_len)) (of_nat (half * (fetch_len div 2))) (of_nat (fetch_len div 2))"

definition printed_row :: "(nat \<Rightarrow> u16) \<Rightarrow> nat \<Rightarrow> nat \<Rightarrow> u16 list" where
  "printed_row swFetch strB_len i = map (\<lambda>j. swFetch (push_bit 7 i + j) AND 0xff) [0..<strB_len + 1]"

text \<open>
  The four experiments: algorithm A, algorithm B forwards, B backwards on the reversed strings, and
  algorithm C on the strings put back.  Every request is followed by a wait for its answer; each gives what it prints, the fetched
  values and the device then.
\<close>

type_synonym 'r mcs_trial = "('r \<times> (nat \<Rightarrow> u16) \<times> mcs_hw) option"

definition run_algorithm_A :: "nat \<Rightarrow> nat \<Rightarrow> (nat \<Rightarrow> u16) \<Rightarrow> mcs_hw \<Rightarrow> u16 list list mcs_trial" where
  "run_algorithm_A strA_len strB_len fetch hw =
     (case mcs_start 0 hw of
        None \<Rightarrow> None
      | Some (_, hw') \<Rightarrow>
          (let swFetch = fetch_half 1 hw' (fetch_half 0 hw' fetch)
           in Some (map (printed_row swFetch strB_len) [0..<strA_len + 1], swFetch, hw')))"

definition run_algorithm_B :: "u32 \<Rightarrow> nat \<Rightarrow> (nat \<Rightarrow> u16) \<Rightarrow> mcs_hw \<Rightarrow> u16 list mcs_trial" where
  "run_algorithm_B alg strB_len fetch hw =
     (case mcs_start alg hw of
        None \<Rightarrow> None
      | Some (_, hw') \<Rightarrow> (let swFetch = fetch_half 0 hw' fetch in Some (printed_row swFetch strB_len 0, swFetch, hw')))"

definition run_backward :: "(nat \<Rightarrow> u8) \<Rightarrow> nat \<Rightarrow> (nat \<Rightarrow> u8) \<Rightarrow> nat \<Rightarrow> (nat \<Rightarrow> u16) \<Rightarrow> mcs_hw \<Rightarrow> u16 list mcs_trial" where
  "run_backward revA strA_len revB strB_len fetch hw =
     run_algorithm_B 2 strB_len fetch (both_setups revA strA_len revB strB_len hw)"

definition run_algorithm_C :: "nat \<Rightarrow> (nat \<Rightarrow> u16) \<Rightarrow> mcs_hw \<Rightarrow> u8 list mcs_trial" where
  "run_algorithm_C strB_len fetch hw =
     (case mcs_start 3 hw of
        None \<Rightarrow> None
      | Some (result, hw') \<Rightarrow>
          (let swFetch = fetch_half 0 hw' fetch; result_length = min (unat result) strB_len
           in Some (map (\<lambda>j. ucast (swFetch j AND 0xff)) [0..<result_length], swFetch, hw')))"

definition reverse_strings :: "u8 list \<Rightarrow> nat \<Rightarrow> (nat \<Rightarrow> u8) \<Rightarrow> nat \<Rightarrow> u8" where
  "reverse_strings text len str = put_text (map (\<lambda>i. text ! (len - i - 1)) [0..<len]) str"

definition forward_strings :: "u8 list \<Rightarrow> nat \<Rightarrow> (nat \<Rightarrow> u8) \<Rightarrow> nat \<Rightarrow> u8" where
  "forward_strings text len str = put_text (map (\<lambda>i. text ! i) [0..<len]) str"

text \<open>\<^verbatim>\<open>main\<close> after the buffers were mapped, or not (\<^verbatim>\<open>mapped\<close>).\<close>

definition mcs_main :: "bool \<Rightarrow> u8 list \<Rightarrow> u8 list \<Rightarrow> (nat \<Rightarrow> u16) \<Rightarrow> mcs_hw \<Rightarrow> mcs_stop + mcs_report \<times> mcs_hw" where
  "mcs_main mapped strA_text strB_text fetch hw =
     (if \<not> mapped \<or> alloc_len \<le> length strA_text \<or> alloc_len \<le> length strB_text then Inl Assertion
      else
       (let strA = c_strncpy strA_text; strB = c_strncpy strB_text;
            strA_len = c_strlen strA; strB_len = c_strlen strB;
            revA = reverse_strings strA_text strA_len strA; revB = reverse_strings strB_text strB_len strB;
            fwdA = forward_strings strA_text strA_len revA; fwdB = forward_strings strB_text strB_len revB
        in case run_algorithm_A strA_len strB_len fetch (both_setups strA strA_len strB strB_len hw) of
             None \<Rightarrow> Inl No_answer
           | Some (table, fetch1, hw1) \<Rightarrow>
           case run_algorithm_B 1 strB_len fetch1 hw1 of
             None \<Rightarrow> Inl No_answer
           | Some (forward, fetch2, hw2) \<Rightarrow>
           case run_backward revA strA_len revB strB_len fetch2 hw2 of
             None \<Rightarrow> Inl No_answer
           | Some (backward, fetch3, hw3) \<Rightarrow>
           case run_algorithm_C strB_len fetch3 (both_setups fwdA strA_len fwdB strB_len hw3) of
             None \<Rightarrow> Inl No_answer
           | Some (text, fetch4, hw4) \<Rightarrow>
               Inr (\<lparr>rep_table = table, rep_forward = forward, rep_backward = backward, rep_result = text\<rparr>, hw4)))"

section \<open>Moving the strings and the table\<close>

lemma text_buffer: "length text \<le> n \<Longrightarrow> map (c_strncpy text) [0..<n] = text @ replicate (n - length text) 0"
  by (rule nth_equalityI) (auto simp: c_strncpy_def nth_append)

lemma strlen_strncpy:
  assumes "0 \<notin> set text" "length text < alloc_len"
  shows "c_strlen (c_strncpy text) = length text"
proof -
  have "takeWhile (\<lambda>c. c \<noteq> 0) (text @ replicate n 0) = text" for n
    using assms(1) by (subst takeWhile_append2) (auto simp: takeWhile_replicate)
  then show ?thesis using assms(2) by (simp add: c_strlen_def text_buffer)
qed

lemma reverse_strings_eq: "reverse_strings text (length text) (c_strncpy text) = c_strncpy (rev text)"
  by (auto simp: reverse_strings_def put_text_def c_strncpy_def rev_nth)

lemma forward_strings_eq: "forward_strings text (length text) (c_strncpy (rev text)) = c_strncpy text"
  by (auto simp: forward_strings_def put_text_def c_strncpy_def)

lemma fold_store:
  "fold (\<lambda>j m. m(b + (j - s) := f j)) [s..<t] mem i = (if b \<le> i \<and> i < b + (t - s) then f (s + (i - b)) else mem i)"
  by (induction t) auto

lemma bram_load_holds:
  assumes "text \<noteq> []" "length text < 128"
  shows "holds (bram_load (c_strncpy text) 0 (of_nat (length text) - 1) br) 0 text"
proof -
  have u: "unat (of_nat (length text) - 1 :: idx) + 1 = length text"
  proof -
    have "of_nat (length text) - 1 = (of_nat (length text - 1) :: idx)" using assms(1) by (simp add: Suc_leI of_nat_diff)
    then show ?thesis using assms unat_of_nat_less [of "length text - 1", where 'a = 14] by simp
  qed
  have f: "fold (\<lambda>j m. m(of_nat j := g j)) [0..<n] br (of_nat i) = (if i < n then g i else br (of_nat i))"
    if "n \<le> 2 ^ 14" "i < 2 ^ 14" for n i and g :: "nat \<Rightarrow> u8"
    using that(1) by (induction n) (use that(2) of_nat_idx_eq in \<open>auto simp: less_Suc_eq\<close>)
  show ?thesis unfolding holds_def bram_load_def u using assms f by (auto simp: c_strncpy_def)
qed

text \<open>What the units find after both strings were set up.\<close>

definition loaded :: "u8 list \<Rightarrow> u8 list \<Rightarrow> mcs_hw \<Rightarrow> bool" where
  "loaded as bs hw \<longleftrightarrow> holds (mcs_strA hw) 0 as \<and> holds (mcs_strB hw) 0 bs \<and>
     mcs_a hw = (0, of_nat (length as)) \<and> mcs_b hw = (0, of_nat (length bs))"

lemma setups_c [simp]: "mcs_c (both_setups strA n strB m hw) = mcs_c hw"
  by (simp add: both_setups_def mcs_setupA_def mcs_setupB_def)

lemma both_setups_loaded:
  assumes "as \<noteq> []" "length as < 128" "bs \<noteq> []" "length bs < 128"
  shows "loaded as bs (both_setups (c_strncpy as) (length as) (c_strncpy bs) (length bs) hw)"
proof -
  have c: "(ucast (of_nat n :: u32) :: idx) = of_nat n" "(ucast (of_nat n - 1 :: u32) :: idx) = of_nat n - 1" if "0 < n" for n
  proof -
    have "(of_nat n :: u32) - 1 = of_nat (n - 1)" "(of_nat n :: idx) - 1 = of_nat (n - 1)" using that by (simp_all add: of_nat_diff)
    moreover have "(ucast (of_nat k :: u32) :: idx) = of_nat k" for k by (rule bit_word_eqI) (auto simp: bit_simps)
    ultimately show "(ucast (of_nat n :: u32) :: idx) = of_nat n" "(ucast (of_nat n - 1 :: u32) :: idx) = of_nat n - 1" by metis+
  qed
  show "loaded as bs (both_setups (c_strncpy as) (length as) (c_strncpy bs) (length bs) hw)"
    using assms bram_load_holds unfolding loaded_def both_setups_def mcs_setupA_def mcs_setupB_def
    by (simp add: c)
qed

lemma bram_store_eq:
  "bram_store br base start finish mem i =
     (if base div 2 \<le> i \<and> i < base div 2 + (unat finish + 1 - unat start) then br (of_nat (unat start + (i - base div 2))) else mem i)"
  unfolding bram_store_def by (rule fold_store)

lemma fetch_half_eq:
  assumes "half < 2"
  shows "fetch_half half hw mem i =
    (if half * 8192 \<le> i \<and> i < half * 8192 + 8192 then mcs_matL hw (of_nat i) else mem i)"
proof -
  have "half = 0 \<or> half = 1" using assms by auto
  then show ?thesis
    unfolding fetch_half_def mcs_fetch_def Let_def bram_store_eq fetch_len_def alloc_len_def by (elim disjE) simp_all
qed

lemma fetch_half_first: "i < 8192 \<Longrightarrow> fetch_half 0 hw mem i = mcs_matL hw (of_nat i)"
  by (simp add: fetch_half_eq)

lemma fetch_both: "i < 16384 \<Longrightarrow> fetch_half 1 hw (fetch_half 0 hw mem) i = mcs_matL hw (of_nat i)"
  by (simp add: fetch_half_eq)

lemma byte_mask: "v < 256 \<Longrightarrow> (of_nat v :: u16) AND 0xff = of_nat v"
proof -
  assume "v < 256"
  have "(of_nat v :: u16) AND 0xff = take_bit 8 (of_nat v)" by (simp add: take_bit_eq_mask mask_eq_exp_minus_1)
  also have "\<dots> = of_nat (take_bit 8 v)" by (simp add: take_bit_of_nat)
  also have "take_bit 8 v = v" using \<open>v < 256\<close> by (simp add: take_bit_nat_eq_self)
  finally show ?thesis .
qed

lemma char_mask: "ucast (ucast (c :: u8) AND (0xff :: u16)) = c"
proof -
  have "ucast (ucast c AND (mask 8 :: u16)) = c"
    by (rule bit_word_eqI) (auto simp only: bit_simps, auto dest: bit_imp_le_length)
  moreover have "(mask 8 :: u16) = 0xff" by (simp add: mask_eq_exp_minus_1)
  ultimately show ?thesis by metis
qed

section \<open>What the program prints\<close>

text \<open>Algorithms A and B leave the machine of algorithm C alone.\<close>

definition same_c :: "mcs_hw \<Rightarrow> mcs_hw \<Rightarrow> bool" where
  "same_c hw hw' \<longleftrightarrow> hc_fr (mcs_c hw') = hc_fr (mcs_c hw) \<and> outcounter (mcs_c hw') = outcounter (mcs_c hw)"

lemma start_A:
  assumes "loaded as bs hw" "length as < 128" "length bs < 128" "mcs_matL hw = (\<lambda>_. 0)"
  shows "\<exists>r hw'. mcs_start 0 hw = Some (r, hw') \<and> same_c hw hw' \<and> loaded as bs hw' \<and>
    (\<forall>i \<le> length as. \<forall>j \<le> length bs. mcs_matL hw' (cell i j) = of_nat (lcs (take i as) (take j bs)))"
proof -
  have "unat (of_nat (length as) :: idx) = length as" "unat (of_nat (length bs) :: idx) = length bs"
    using assms(2,3) by (intro unat_of_nat_less; simp)+
  then show ?thesis
    using assms hirschA_table [of as bs "mcs_strA hw" 0 "mcs_strB hw" 0]
    by (simp add: mcs_start_def Let_def loaded_def same_c_def)
qed

lemma start_B:
  assumes "loaded as bs hw" "alg = (if fwd then 1 else 2)"
  shows "\<exists>r hw'. mcs_start alg hw = Some (r, hw') \<and> same_c hw hw' \<and> loaded as bs hw' \<and>
    (\<forall>j \<le> length bs. mcs_matL hw' (of_nat j) = of_nat (lcs (dir_list fwd as) (take j (dir_list fwd bs))))"
proof -
  have h: "holds (mcs_strA hw) 0 as" "holds (mcs_strB hw) 0 bs" using assms(1) by (simp_all add: loaded_def)
  then have u: "unat (of_nat (length as) :: idx) = length as" "unat (of_nat (length bs) :: idx) = length bs"
    unfolding holds_def by (intro unat_of_nat_less; simp)+
  show ?thesis
    using assms hirschB_result [OF h u, of fwd "mcs_matL hw"]
    by (cases fwd) (simp_all add: mcs_start_def Let_def loaded_def row_at_def same_c_def)
qed

lemma start_C:
  assumes "loaded as bs hw" "as \<noteq> []" "stack_ok (hc_fr (mcs_c hw))" "stack_frames (hc_fr (mcs_c hw)) = []" "outcounter (mcs_c hw) = 0"
  shows "\<exists>r hw' cs. mcs_start 3 hw = Some (r, hw') \<and> is_lcs cs as bs \<and> unat r = length cs \<and>
    (\<forall>j < length cs. mcs_matL hw' (of_nat j) = ucast (cs ! j))"
proof -
  have h: "holds (mcs_strA hw) 0 as" "holds (mcs_strB hw) 0 bs" using assms(1) by (simp_all add: loaded_def)
  then have u: "unat (of_nat (length as) :: idx) = length as" "unat (of_nat (length bs) :: idx) = length bs"
    unfolding holds_def by (intro unat_of_nat_less; simp)+
  from hc_run_lcs [OF h u assms(2-5)] obtain cs t where
    t: "hc_run (mcs_strA hw) (mcs_strB hw) (hc_start (of_nat (length as)) (of_nat (length bs)) (mcs_c hw)) = Some t"
      "is_lcs cs as bs" "unat (outcounter t) = length cs" "hc_written (hc_out t) (outcounter t) = map ucast cs" by blast
  have "hc_out t (of_nat j) = ucast (cs ! j)" if "j < length cs" for j
    using arg_cong [OF t(4), of "\<lambda>xs. xs ! j"] that t(3) by (simp add: hc_written_def)
  moreover have "unat (ucast (outcounter t) :: u32) = length cs" using t(3) unsigned_less [of "outcounter t", where 'a = nat]
    by (simp add: unsigned_ucast_eq take_bit_nat_eq_self)
  ultimately show ?thesis
    using t(1-3) assms(1) by (intro exI [of _ "ucast (outcounter t)"] exI [of _ "hw\<lparr>mcs_c := t\<rparr>"] exI [of _ cs])
      (simp add: mcs_start_def Let_def loaded_def)
qed

lemma printed_row_eq:
  assumes "\<And>j. j \<le> n \<Longrightarrow> sw (128 * i + j) = of_nat (v j)" "\<And>j. v j < 256"
  shows "printed_row sw n i = map (\<lambda>j. of_nat (v j)) [0..<n + 1]"
  using assms byte_mask by (simp add: printed_row_def push_bit_eq_mult mult.commute del: upt_Suc)

lemma printed_fetch:
  assumes "\<And>j. j \<le> n \<Longrightarrow> mcs_matL hw (of_nat j) = of_nat (v j)" "n < 128" "\<And>j. v j < 256"
  shows "printed_row (fetch_half 0 hw mem) n 0 = map (\<lambda>j. of_nat (v j)) [0..<n + 1]"
  using assms by (intro printed_row_eq) (simp_all add: fetch_half_first)

lemma idx_cell: "i < 128 \<Longrightarrow> j < 128 \<Longrightarrow> (of_nat (128 * i + j) :: idx) = cell i j"
  using unat_cell word_eq_of_unat by metis

lemma main_answers:
  assumes "length as < 128" "0 \<notin> set as" "length bs < 128" "0 \<notin> set bs"
    and "mcs_start 0 (both_setups (c_strncpy as) (length as) (c_strncpy bs) (length bs) hw) = Some (r1, hw1)"
    and "mcs_start 1 hw1 = Some (r2, hw2)"
    and "mcs_start 2 (both_setups (c_strncpy (rev as)) (length as) (c_strncpy (rev bs)) (length bs) hw2) = Some (r3, hw3)"
    and "mcs_start 3 (both_setups (c_strncpy as) (length as) (c_strncpy bs) (length bs) hw3) = Some (r4, hw4)"
  shows "mcs_main True as bs fetch hw =
    (let f1 = fetch_half 1 hw1 (fetch_half 0 hw1 fetch); f2 = fetch_half 0 hw2 f1; f3 = fetch_half 0 hw3 f2; f4 = fetch_half 0 hw4 f3 in
     Inr (\<lparr>rep_table = map (printed_row f1 (length bs)) [0..<length as + 1],
       rep_forward = printed_row f2 (length bs) 0, rep_backward = printed_row f3 (length bs) 0,
       rep_result = map (\<lambda>j. ucast (f4 j AND 0xff)) [0..<min (unat r4) (length bs)]\<rparr>, hw4))"
  using assms unfolding mcs_main_def run_backward_def run_algorithm_A_def run_algorithm_B_def run_algorithm_C_def Let_def
  by (simp add: strlen_strncpy alloc_len_def reverse_strings_eq forward_strings_eq del: upt_Suc)

text \<open>
  C28.  The accelerator finds longest common subsequences.  For two texts of 1 to 127 characters, an idle
  accelerator and table memory that powered up zero, the program \<^verbatim>\<open>main\<close> runs to its end: the table it
  prints for algorithm A holds in row i and column j the length of the longest common subsequence of the
  first i and the first j characters, algorithm B prints the last row of that table, the run on the reversed strings in
  the backward direction prints the same row, and the text that algorithm C prints is a longest common
  subsequence of the two texts, each call of the recursive algorithm having returned on a stack of at
  most 128 frames.
\<close>

theorem max_common_subsequence:
  assumes a: "as \<noteq> []" "length as < 128" "0 \<notin> set as" and b: "bs \<noteq> []" "length bs < 128" "0 \<notin> set bs"
    and hw: "mcs_matL hw = (\<lambda>_. 0)" "stack_ok (hc_fr (mcs_c hw))" "stack_frames (hc_fr (mcs_c hw)) = []" "outcounter (mcs_c hw) = 0"
  shows "\<exists>cs hw'. is_lcs cs as bs \<and>
    mcs_main True as bs fetch hw =
      Inr (\<lparr>rep_table = map (\<lambda>i. map (\<lambda>j. of_nat (lcs (take i as) (take j bs))) [0..<length bs + 1]) [0..<length as + 1],
            rep_forward = map (\<lambda>j. of_nat (lcs as (take j bs))) [0..<length bs + 1],
            rep_backward = map (\<lambda>j. of_nat (lcs as (take j bs))) [0..<length bs + 1],
            rep_result = cs\<rparr>, hw')"
proof -
  let ?set = "\<lambda>as bs. both_setups (c_strncpy as) (length as) (c_strncpy bs) (length bs)"
  have small: "lcs xs ys < 256" if "length xs \<le> length as" for xs ys :: "u8 list" using lcs_le(1) [of xs ys] a(2) that by simp
  from start_A [OF both_setups_loaded [OF a(1,2) b(1,2)] a(2) b(2), of hw] hw(1) obtain r1 hw1 where
    1: "mcs_start 0 (?set as bs hw) = Some (r1, hw1)" "same_c hw hw1" "loaded as bs hw1"
      "\<forall>i \<le> length as. \<forall>j \<le> length bs. mcs_matL hw1 (cell i j) = of_nat (lcs (take i as) (take j bs))"
    by (auto simp: same_c_def)
  from start_B [OF 1(3), of 1 True] obtain r2 hw2 where
    2: "mcs_start 1 hw1 = Some (r2, hw2)" "same_c hw hw2"
      "\<forall>j \<le> length bs. mcs_matL hw2 (of_nat j) = of_nat (lcs as (take j bs))" using 1(2) by (auto simp: dir_list_def same_c_def)
  have r: "rev as \<noteq> []" "length (rev as) < 128" "rev bs \<noteq> []" "length (rev bs) < 128" using a b by simp_all
  from start_B [OF both_setups_loaded [OF r], of 2 False hw2] obtain r3 hw3 where
    3: "mcs_start 2 (?set (rev as) (rev bs) hw2) = Some (r3, hw3)" "same_c hw hw3"
      "\<forall>j \<le> length bs. mcs_matL hw3 (of_nat j) = of_nat (lcs as (take j bs))"
    using 2(2) by (auto simp: dir_list_def same_c_def)
  from start_C [OF both_setups_loaded [OF a(1,2) b(1,2)] a(1), of hw3] obtain r4 hw4 cs where
    4: "mcs_start 3 (?set as bs hw3) = Some (r4, hw4)" "is_lcs cs as bs" "unat r4 = length cs"
      "\<forall>j < length cs. mcs_matL hw4 (of_nat j) = ucast (cs ! j)"
    using 3(2) hw(2-4) by (auto simp: same_c_def)
  define f1 where "f1 = fetch_half 1 hw1 (fetch_half 0 hw1 fetch)"
  define f2 where "f2 = fetch_half 0 hw2 f1"
  define f3 where "f3 = fetch_half 0 hw3 f2"
  define f4 where "f4 = fetch_half 0 hw4 f3"
  have l: "length cs \<le> length bs" using 4(2) lcs_le(2) [of as bs] by (simp add: is_lcs_iff)
  have t: "printed_row f1 (length bs) i = map (\<lambda>j. of_nat (lcs (take i as) (take j bs))) [0..<length bs + 1]" if "i \<le> length as" for i
  proof (rule printed_row_eq)
    show "f1 (128 * i + j) = of_nat (lcs (take i as) (take j bs))" if "j \<le> length bs" for j
      using that \<open>i \<le> length as\<close> 1(4) a(2) b(2) fetch_both [of "128 * i + j" hw1 fetch] unfolding f1_def
      by (simp add: idx_cell del: of_nat_add of_nat_mult)
  qed (simp add: small)
  have rows: "printed_row f2 (length bs) 0 = map (\<lambda>j. of_nat (lcs as (take j bs))) [0..<length bs + 1]"
    "printed_row f3 (length bs) 0 = map (\<lambda>j. of_nat (lcs as (take j bs))) [0..<length bs + 1]"
    unfolding f2_def f3_def by (rule printed_fetch; use 2(3) 3(3) b(2) small in auto)+
  have res: "map (\<lambda>j. ucast (f4 j AND 0xff)) [0..<min (unat r4) (length bs)] = cs"
    using 4(3,4) l b(2) by (intro nth_equalityI) (simp_all add: f4_def fetch_half_first char_mask)
  have "mcs_main True as bs fetch hw = Inr (\<lparr>rep_table = map (printed_row f1 (length bs)) [0..<length as + 1],
      rep_forward = printed_row f2 (length bs) 0, rep_backward = printed_row f3 (length bs) 0,
      rep_result = map (\<lambda>j. ucast (f4 j AND 0xff)) [0..<min (unat r4) (length bs)]\<rparr>, hw4)"
    unfolding f4_def f3_def f2_def f1_def using main_answers [OF a(2,3) b(2,3) 1(1) 2(1) _ 4(1)] 3(1)
    by (simp add: Let_def del: upt_Suc)
  moreover have "map (printed_row f1 (length bs)) [0..<length as + 1] =
      map (\<lambda>i. map (\<lambda>j. of_nat (lcs (take i as) (take j bs))) [0..<length bs + 1]) [0..<length as + 1]"
    by (intro map_cong refl t) auto
  ultimately show ?thesis unfolding rows res using 4(2) by metis
qed

text \<open>An accelerator after power-up.\<close>

definition fresh_mcs :: mcs_hw where
  "fresh_mcs = \<lparr>mcs_strA = (\<lambda>_. 0), mcs_strB = (\<lambda>_. 0), mcs_a = (0, 0), mcs_b = (0, 0),
     mcs_c = \<lparr>hc_fr = (let f = (HCSIdle, \<lparr>c_aStart = 0, c_bStart = 0, c_aLen = 0, c_bLen = 0\<rparr>, \<lparr>c_midi = 0, c_maxj = 0\<rparr>)
                       in stack_reset HCSIdle f (\<lambda>_. f)),
              hc_out = (\<lambda>_. 0), outcounter = 0, hc_l0 = (\<lambda>_. 0), hc_l1 = (\<lambda>_. 0)\<rparr>\<rparr>"

theorem max_common_subsequence_witness:
  "\<exists>cs hw'. is_lcs cs [0x61, 0x62, 0x63] [0x78, 0x61, 0x63 :: u8] \<and> length cs = 2 \<and>
     (\<exists>rep. mcs_main True [0x61, 0x62, 0x63] [0x78, 0x61, 0x63] (\<lambda>_. 7) fresh_mcs = Inr (rep, hw') \<and>
        rep_forward rep = [0, 0, 1, 2] \<and> rep_result rep = cs)"
proof -
  let ?as = "[0x61, 0x62, 0x63] :: u8 list" and ?bs = "[0x78, 0x61, 0x63] :: u8 list"
  from max_common_subsequence [of ?as ?bs fresh_mcs "\<lambda>_. 7"] obtain cs hw' where
    "is_lcs cs ?as ?bs" "mcs_main True ?as ?bs (\<lambda>_. 7) fresh_mcs = Inr (\<lparr>rep_table = map (\<lambda>i. map (\<lambda>j. of_nat (lcs (take i ?as) (take j ?bs))) [0..<length ?bs + 1]) [0..<length ?as + 1],
            rep_forward = map (\<lambda>j. of_nat (lcs ?as (take j ?bs))) [0..<length ?bs + 1],
            rep_backward = map (\<lambda>j. of_nat (lcs ?as (take j ?bs))) [0..<length ?bs + 1],
            rep_result = cs\<rparr>, hw')"
    by (auto simp: fresh_mcs_def stack_reset_def stack_ok_def stack_frames_def Let_def)
  moreover have "lcs ?as ?bs = 2" "map (\<lambda>j. (of_nat (lcs ?as (take j ?bs)) :: u16)) [0..<length ?bs + 1] = [0, 0, 1, 2]"
    by (simp_all add: upt_rec)
  ultimately show ?thesis by (intro exI [of _ cs] exI [of _ hw']) (simp add: is_lcs_iff)
qed

text \<open>
  The table memory has to be zero where algorithm A does not initialise it: the first column of the last row, and the part of
  row 0 beyond the length of string A.
\<close>

lemma hirschA_uninitialised:
  "hirschA (\<lambda>_. 1) (\<lambda>_. 2) (0, 1) (0, 1) (\<lambda>_. 5) (cell 1 1) = 5" "lcs [1 :: u8] [2] = 0"
  by (simp_all add: hirschA_def hirschA_cell_def hirschA_init_def cell_def Let_def)

end
