(* ===== verification/Morris_Pratt.thy ===== *)
theory Morris_Pratt
  imports Prelude
begin

text \<open>
  \<^verbatim>\<open>lib/cpp/mp.h\<close>, the string search whose tables the \<^verbatim>\<open>strstr\<close> accelerator is given: the two table
  computations and the matcher.  The arrays are functions (an entry that was never written holds
  anything), a C string of length \<open>m\<close> reads as NUL at index \<open>m\<close>, and the loops that only end when
  the table is right are partial functions.

  The table is computed on \<open>x[1], ..., x[m]\<close> where the matcher reads \<open>x[0], ..., x[m-1]\<close>.  The
  theorems say what the pair does: every reported position is an occurrence, but the fallback
  never keeps more than one matched character, so that occurrences can be missed unless the first
  character of the pattern does not come back in it.
\<close>

section \<open>The source\<close>

definition cstr :: "string \<Rightarrow> nat \<Rightarrow> char" where
  "cstr x i = (if i < length x then x ! i else CHR 0x00)"

partial_function (option) border_inner :: "string \<Rightarrow> (nat \<Rightarrow> int) \<Rightarrow> nat \<Rightarrow> int \<Rightarrow> int option" where
  "border_inner x border i j =
     (if 0 \<le> j \<and> cstr x i \<noteq> cstr x (nat (j + 1)) then border_inner x border i (border (nat j)) else Some j)"

fun border_outer :: "string \<Rightarrow> nat \<Rightarrow> nat \<Rightarrow> (nat \<Rightarrow> int) \<Rightarrow> (nat \<Rightarrow> int) option" where
  "border_outer x 0 i border = Some border"
| "border_outer x (Suc k) i border =
     (case border_inner x border i (border (i - 1)) of
        None \<Rightarrow> None
      | Some j \<Rightarrow> border_outer x k (i + 1) (border(i := j + 1)))"

definition compute_borders :: "string \<Rightarrow> (nat \<Rightarrow> int) \<Rightarrow> nat \<Rightarrow> (nat \<Rightarrow> int) option" where
  "compute_borders x border m = border_outer x m 1 (border(0 := -1))"

partial_function (option) next_inner :: "string \<Rightarrow> (nat \<Rightarrow> nat) \<Rightarrow> nat \<Rightarrow> nat \<Rightarrow> nat option" where
  "next_inner x MP_next i j =
     (if 0 < j \<and> cstr x i \<noteq> cstr x j then next_inner x MP_next i (MP_next j) else Some j)"

fun next_outer :: "string \<Rightarrow> nat \<Rightarrow> nat \<Rightarrow> nat \<Rightarrow> (nat \<Rightarrow> nat) \<Rightarrow> (nat \<Rightarrow> nat) option" where
  "next_outer x 0 i j MP_next = Some MP_next"
| "next_outer x (Suc k) i j MP_next =
     (case next_inner x MP_next i j of
        None \<Rightarrow> None
      | Some j' \<Rightarrow> next_outer x k (i + 1) (j' + 1) (MP_next(i + 1 := j' + 1)))"

definition compute_MP_next :: "string \<Rightarrow> (nat \<Rightarrow> nat) \<Rightarrow> nat \<Rightarrow> (nat \<Rightarrow> nat) option" where
  "compute_MP_next x MP_next m = next_outer x m 1 0 (MP_next(1 := 0))"

partial_function (option) mp_inner :: "string \<Rightarrow> (nat \<Rightarrow> nat) \<Rightarrow> nat \<Rightarrow> char \<Rightarrow> nat \<Rightarrow> nat option" where
  "mp_inner x MP_next m c i =
     (if i = m + 1 \<or> 0 < i \<and> cstr x (i - 1) \<noteq> c then mp_inner x MP_next m c (MP_next i) else Some i)"

text \<open>One pass over the text from position \<open>j\<close>; the result are the positions it prints.\<close>

fun mp_pass :: "string \<Rightarrow> (nat \<Rightarrow> nat) \<Rightarrow> nat \<Rightarrow> string \<Rightarrow> nat \<Rightarrow> nat \<Rightarrow> nat list option" where
  "mp_pass x MP_next m [] i j = Some []"
| "mp_pass x MP_next m (c # t) i j =
     (case mp_inner x MP_next m c i of
        None \<Rightarrow> None
      | Some i' \<Rightarrow>
          if i' + 1 = m + 1
          then map_option ((#) (j + 1 - (i' + 1))) (mp_pass x MP_next m t 1 (j + 1))
          else mp_pass x MP_next m t (i' + 1) (j + 1))"

text \<open>\<^verbatim>\<open>MP\<close>: \<open>iter_cnt\<close> passes over the whole text; the positions printed and the new count.\<close>

fun MP :: "string \<Rightarrow> string \<Rightarrow> (nat \<Rightarrow> nat) \<Rightarrow> nat \<Rightarrow> nat \<Rightarrow> nat \<Rightarrow> nat \<Rightarrow> (nat list \<times> nat) option" where
  "MP x t MP_next m n 0 match_cnt = Some ([], match_cnt)"
| "MP x t MP_next m n (Suc iter_cnt) match_cnt =
     (case mp_pass x MP_next m (take n t) 1 1 of
        None \<Rightarrow> None
      | Some ps \<Rightarrow>
          map_option (\<lambda>(qs, k). (ps @ qs, k)) (MP x t MP_next m n iter_cnt (match_cnt + length ps)))"

section \<open>The tables\<close>

text \<open>What the matcher can rely on: falling back goes down, and to a place with the same character.\<close>

definition table_upto :: "string \<Rightarrow> (nat \<Rightarrow> nat) \<Rightarrow> nat \<Rightarrow> bool" where
  "table_upto x nx i \<longleftrightarrow>
     nx 1 = 0 \<and> (\<forall>k. 2 \<le> k \<and> k \<le> i \<longrightarrow> 1 \<le> nx k \<and> nx k < k \<and> (nx k \<noteq> 1 \<longrightarrow> cstr x (nx k - 1) = cstr x (k - 1)))"

lemma table_less: "table_upto x nx i \<Longrightarrow> 1 \<le> k \<Longrightarrow> k \<le> i \<Longrightarrow> nx k < k"
  by (cases "k = 1") (auto simp: table_upto_def)

lemma next_inner_returns:
  assumes "table_upto x nx i" "j \<le> i"
  shows "\<exists>j'. next_inner x nx i j = Some j' \<and> j' \<le> j \<and> (j' = 0 \<or> cstr x i = cstr x j')"
  using assms(2)
proof (induction j rule: less_induct)
  case (less j)
  show ?case
  proof (cases "0 < j \<and> cstr x i \<noteq> cstr x j")
    case True
    then have "nx j < j" using table_less [OF assms(1)] less.prems by simp
    with less.IH [of "nx j"] less.prems obtain j' where
      "next_inner x nx i (nx j) = Some j'" "j' \<le> nx j" "j' = 0 \<or> cstr x i = cstr x j'" by auto
    with True \<open>nx j < j\<close> show ?thesis by (subst next_inner.simps) auto
  next
    case False
    then show ?thesis by (subst next_inner.simps) auto
  qed
qed

lemma next_outer_table:
  assumes "table_upto x nx i" "1 \<le> i" "j < i" "j = nx i"
  shows "\<exists>nx'. next_outer x k i j nx = Some nx' \<and> table_upto x nx' (i + k)"
  using assms
proof (induction k arbitrary: i j nx)
  case (Suc k)
  obtain j' where j': "next_inner x nx i j = Some j'" "j' \<le> j" "j' = 0 \<or> cstr x i = cstr x j'"
    using next_inner_returns [OF Suc.prems(1), of j] Suc.prems(3) by auto
  let ?nx = "nx(i + 1 := j' + 1)"
  have "table_upto x ?nx (i + 1)"
    using Suc.prems j' by (auto simp: table_upto_def le_Suc_eq)
  from Suc.IH [OF this, of "j' + 1"] j'(2) Suc.prems(3) obtain nx' where
    "next_outer x k (i + 1) (j' + 1) ?nx = Some nx'" "table_upto x nx' (i + 1 + k)" by (auto simp: fun_upd_def)
  with j'(1) show ?case by auto
qed auto

lemma compute_MP_next_table:
  "\<exists>nx'. compute_MP_next x nx m = Some nx' \<and> table_upto x nx' (m + 1)"
  using next_outer_table [of x "nx(1 := 0)" 1 0 m] by (simp add: compute_MP_next_def table_upto_def)

text \<open>The two tables agree entry by entry, which is what \<^verbatim>\<open>teststrstr.cpp\<close> asserts of them.\<close>

definition same_tables :: "(nat \<Rightarrow> nat) \<Rightarrow> (nat \<Rightarrow> int) \<Rightarrow> nat \<Rightarrow> bool" where
  "same_tables nx border i \<longleftrightarrow> (\<forall>k. 1 \<le> k \<and> k \<le> i \<longrightarrow> int (nx k) = border (k - 1) + 1)"

lemma border_inner_same:
  assumes "table_upto x nx i" "same_tables nx border i" "j \<le> i"
  shows "border_inner x border i (int j - 1) = map_option (\<lambda>j. int j - 1) (next_inner x nx i j)"
  using assms(3)
proof (induction j rule: less_induct)
  case (less j)
  show ?case
  proof (cases "0 < j \<and> cstr x i \<noteq> cstr x j")
    case True
    then have "nx j < j" using table_less [OF assms(1)] less.prems by simp
    moreover have "border (nat (int j - 1)) = int (nx j) - 1"
      using assms(2) True less.prems by (simp add: same_tables_def nat_diff_distrib)
    ultimately show ?thesis using less.IH [of "nx j"] less.prems True
      by (subst border_inner.simps, subst next_inner.simps) simp
  next
    case False
    then show ?thesis by (subst border_inner.simps, subst next_inner.simps) auto
  qed
qed

lemma border_outer_same:
  assumes "table_upto x nx i" "same_tables nx border i" "1 \<le> i" "nx i < i"
  shows "\<exists>nx' border'. next_outer x k i (nx i) nx = Some nx' \<and> border_outer x k i border = Some border' \<and>
    same_tables nx' border' (i + k)"
  using assms
proof (induction k arbitrary: i nx border)
  case (Suc k)
  let ?j = "nx i"
  obtain j' where j': "next_inner x nx i ?j = Some j'" "j' \<le> ?j" "j' = 0 \<or> cstr x i = cstr x j'"
    using next_inner_returns [OF Suc.prems(1), of ?j] Suc.prems(4) by auto
  let ?nx = "nx(i + 1 := j' + 1)"
  let ?b = "border(i := int j')"
  have "border (i - 1) = int ?j - 1" using Suc.prems(2,3) by (simp add: same_tables_def)
  then have b: "border_inner x border i (border (i - 1)) = Some (int j' - 1)"
    using border_inner_same [OF Suc.prems(1,2), of ?j] Suc.prems(4) j'(1) by simp
  have t: "table_upto x ?nx (i + 1)"
    using Suc.prems j' by (auto simp: table_upto_def le_Suc_eq)
  have s: "same_tables ?nx ?b (i + 1)"
    using Suc.prems(2) by (auto simp: same_tables_def le_Suc_eq)
  have "?nx (i + 1) < i + 1" using j'(2) Suc.prems(4) by simp
  from Suc.IH [OF t s _ this] obtain nx' border' where
    "next_outer x k (i + 1) (j' + 1) ?nx = Some nx'" "border_outer x k (i + 1) ?b = Some border'"
    "same_tables nx' border' (i + 1 + k)" by (auto simp: fun_upd_def)
  with j'(1) b show ?case by auto
qed auto

lemma tables_agree:
  "\<exists>nx' border'. compute_MP_next x nx m = Some nx' \<and> compute_borders x border m = Some border' \<and>
     same_tables nx' border' (m + 1)"
  using border_outer_same [of x "nx(1 := 0)" 1 "border(0 := -1)" m]
  by (simp add: compute_MP_next_def compute_borders_def table_upto_def same_tables_def)

section \<open>The matcher\<close>

text \<open>The reference: on a mismatch the pattern is started again at the current character.\<close>

fun restart :: "string \<Rightarrow> string \<Rightarrow> nat \<Rightarrow> nat \<Rightarrow> nat list" where
  "restart x [] i j = []"
| "restart x (c # t) i j =
     (let i' = (if cstr x (i - 1) = c then i + 1 else if cstr x 0 = c then 2 else 1)
      in if i' = length x + 1 then (j + 1 - i') # restart x t 1 (j + 1) else restart x t i' (j + 1))"

text \<open>What the matcher needs of a table: it falls back, and to a place that expects the same character.\<close>

locale fallback_table =
  fixes x :: string and nx :: "nat \<Rightarrow> nat"
  assumes first_entry: "nx 1 = 0"
    and falls_back: "2 \<le> k \<Longrightarrow> k \<le> length x + 1 \<Longrightarrow> 1 \<le> nx k \<and> nx k < k"
    and same_char: "2 \<le> k \<Longrightarrow> k \<le> length x + 1 \<Longrightarrow> nx k \<noteq> 1 \<Longrightarrow> cstr x (nx k - 1) = cstr x (k - 1)"
begin

lemma mp_inner_restart:
  assumes "1 \<le> i" "i \<le> length x"
  shows "mp_inner x nx (length x) c i = Some (if cstr x (i - 1) = c then i else if cstr x 0 = c then 1 else 0)"
  using assms
proof (induction i rule: less_induct)
  case (less i)
  show ?case
  proof (cases "cstr x (i - 1) = c")
    case True
    then show ?thesis using less.prems by (subst mp_inner.simps) simp
  next
    case mis: False
    then have step: "mp_inner x nx (length x) c i = mp_inner x nx (length x) c (nx i)"
      using less.prems by (subst mp_inner.simps) simp
    show ?thesis
    proof (cases "i = 1")
      case True
      then have "nx i = 0" using first_entry by simp
      then show ?thesis using step mis True by (simp add: mp_inner.simps [of x nx "length x" c 0])
    next
      case False
      then have "1 \<le> nx i" "nx i < i" "nx i \<noteq> 1 \<longrightarrow> cstr x (nx i - 1) = cstr x (i - 1)"
        using falls_back [of i] same_char [of i] less.prems by auto
      then show ?thesis using less.IH [of "nx i"] less.prems step mis by (cases "nx i = 1") auto
    qed
  qed
qed

lemma mp_pass_restart:
  assumes "1 \<le> i" "i \<le> length x"
  shows "mp_pass x nx (length x) t i j = Some (restart x t i j)"
  using assms
proof (induction t arbitrary: i j)
  case (Cons c t)
  let ?i = "if cstr x (i - 1) = c then i + 1 else if cstr x 0 = c then 2 else 1"
  have "length x \<ge> 1" using Cons.prems by simp
  show ?case
  proof (cases "?i = length x + 1")
    case True
    then show ?thesis
      using Cons.IH [of 1 "j + 1"] mp_inner_restart [OF Cons.prems, of c] \<open>length x \<ge> 1\<close>
      by (auto simp: Let_def split: if_splits)
  next
    case False
    then have "1 \<le> ?i" "?i \<le> length x" using Cons.prems by auto
    with False show ?thesis
      using Cons.IH [of ?i "j + 1"] mp_inner_restart [OF Cons.prems, of c]
      by (auto simp: Let_def numeral_2_eq_2 split: if_splits)
  qed
qed simp

lemma MP_passes:
  assumes "x \<noteq> []"
  shows "MP x t nx (length x) (length t) k n =
    Some (concat (replicate k (restart x t 1 1)), n + k * length (restart x t 1 1))"
proof -
  have "1 \<le> length x" using assms by (cases x) auto
  then have "mp_pass x nx (length x) t 1 1 = Some (restart x t 1 1)"
    by (intro mp_pass_restart) simp_all
  then show ?thesis by (induction k arbitrary: n) simp_all
qed

end

interpretation mp_table: fallback_table x "the (compute_MP_next x tab (length x))"
proof unfold_locales
  obtain nx where nx: "the (compute_MP_next x tab (length x)) = nx" "table_upto x nx (length x + 1)"
    using compute_MP_next_table [of x tab "length x"] by auto
  show "the (compute_MP_next x tab (length x)) 1 = 0" unfolding nx(1) using nx(2) by (simp add: table_upto_def)
  fix k assume k: "2 \<le> k" "k \<le> length x + 1"
  show "1 \<le> the (compute_MP_next x tab (length x)) k \<and> the (compute_MP_next x tab (length x)) k < k"
    unfolding nx(1) using nx(2) k by (simp add: table_upto_def)
  show "cstr x (the (compute_MP_next x tab (length x)) k - 1) = cstr x (k - 1)"
    if "the (compute_MP_next x tab (length x)) k \<noteq> 1"
    using nx(2) k that unfolding nx(1) by (auto simp: table_upto_def)
qed

section \<open>What the matcher reports\<close>

definition occurs_at :: "string \<Rightarrow> string \<Rightarrow> nat \<Rightarrow> bool" where
  "occurs_at x t p \<longleftrightarrow> p + length x \<le> length t \<and> (\<forall>k < length x. t ! (p + k) = x ! k)"

lemma occurs_atD: "occurs_at x t p \<Longrightarrow> k < length x \<Longrightarrow> t ! (p + k) = x ! k"
  by (simp add: occurs_at_def)

text \<open>While the pass is at state \<open>i\<close>, the last \<open>i - 1\<close> characters read are the start of the pattern.\<close>

lemma restart_sound:
  assumes "1 \<le> i" "i \<le> length x" "i \<le> length u + 1" "\<forall>k < i - 1. u ! (length u - (i - 1) + k) = x ! k"
    and "p \<in> set (restart x t i (length u + 1))"
  shows "occurs_at x (u @ t) p"
  using assms
proof (induction t arbitrary: u i)
  case (Cons c t)
  let ?u = "u @ [c]"
  let ?i = "if cstr x (i - 1) = c then i + 1 else if cstr x 0 = c then 2 else 1"
  have x: "1 \<le> length x" using Cons.prems by simp
  have pre: "\<forall>k < ?i - 1. ?u ! (length ?u - (?i - 1) + k) = x ! k"
  proof (intro allI impI)
    fix k assume k: "k < ?i - 1"
    show "?u ! (length ?u - (?i - 1) + k) = x ! k"
    proof (cases "cstr x (i - 1) = c")
      case True
      have "length ?u - (?i - 1) + k = length u - (i - 1) + k" using True Cons.prems(1,3) by simp
      moreover have "k < i - 1 \<or> k = i - 1" using k True by auto
      ultimately show ?thesis using True Cons.prems(1-4) by (auto simp: nth_append cstr_def)
    next
      case False
      then have "k = 0" "cstr x 0 = c" "?i = 2" using k by (auto split: if_splits)
      then show ?thesis using x by (auto simp: nth_append cstr_def split: if_splits)
    qed
  qed
  show ?case
  proof (cases "?i = length x + 1")
    case False
    then have "p \<in> set (restart x t ?i (length ?u + 1))"
      using Cons.prems(5) by (simp add: Let_def split: if_splits)
    then have "occurs_at x (?u @ t) p"
      by (intro Cons.IH [of ?i ?u] pre) (use False Cons.prems(1-3) x in auto)
    then show ?thesis by simp
  next
    case True
    then have "p = length u + 1 + 1 - ?i \<or> p \<in> set (restart x t 1 (length ?u + 1))"
      using Cons.prems(5) by (simp add: Let_def split: if_splits)
    then show ?thesis
    proof
      assume p: "p = length u + 1 + 1 - ?i"
      have "?i \<le> length u + 2" using Cons.prems(3) by auto
      then have "p = length ?u - length x" "length x \<le> length ?u" using True p by auto
      moreover have "\<forall>k < length x. ?u ! (length ?u - length x + k) = x ! k" using pre True by simp
      ultimately show ?thesis by (auto simp: occurs_at_def nth_append)
    next
      assume "p \<in> set (restart x t 1 (length ?u + 1))"
      then have "occurs_at x (?u @ t) p" by (intro Cons.IH [of 1 ?u]) (use x in auto)
      then show ?thesis by simp
    qed
  qed
qed simp

text \<open>The positions come in order and do not overlap.\<close>

lemma restart_spaced:
  assumes "1 \<le> i" "i \<le> length x" "i \<le> j"
  shows "sorted_wrt (\<lambda>p q. p + length x \<le> q) (restart x t i j) \<and> (\<forall>p\<in>set (restart x t i j). j \<le> p + i)"
  using assms
proof (induction t arbitrary: i j)
  case (Cons c t)
  let ?i = "if cstr x (i - 1) = c then i + 1 else if cstr x 0 = c then 2 else 1"
  show ?case
  proof (cases "?i = length x + 1")
    case True
    have e: "restart x (c # t) i j = (j + 1 - ?i) # restart x t 1 (j + 1)" using True by (simp add: Let_def)
    have "?i \<le> i + 1" "?i \<le> j + 1" using Cons.prems by auto
    moreover have "sorted_wrt (\<lambda>p q. p + length x \<le> q) (restart x t 1 (j + 1)) \<and>
        (\<forall>p\<in>set (restart x t 1 (j + 1)). j + 1 \<le> p + 1)"
      by (rule Cons.IH) (use Cons.prems in auto)
    ultimately show ?thesis unfolding e using True by (auto split: if_splits)
  next
    case False
    have e: "restart x (c # t) i j = restart x t ?i (j + 1)" using False by (simp add: Let_def)
    have i: "1 \<le> ?i" "?i \<le> length x" "?i \<le> j + 1" "?i \<le> i + 1" using False Cons.prems by auto
    from Cons.IH [OF i(1-3)] i(4) show ?thesis unfolding e by force
  qed
qed simp

text \<open>An occurrence that the pass is in the middle of is reported.\<close>

lemma restart_continues:
  assumes "1 \<le> i" "i \<le> length x" "p + (i - 1) = length u" "occurs_at x (u @ t) p"
  shows "p \<in> set (restart x t i (length u + 1))"
  using assms
proof (induction t arbitrary: u i)
  case Nil
  have "p + length x \<le> length u" using Nil.prems(4) by (simp add: occurs_at_def)
  then show ?case using Nil.prems(1-3) by linarith
next
  case (Cons c t)
  have "(u @ c # t) ! (p + (i - 1)) = x ! (i - 1)"
    by (rule occurs_atD [OF Cons.prems(4)]) (use Cons.prems(1,2) in simp)
  moreover have "i - 1 < length x" using Cons.prems(1,2) by linarith
  ultimately have c: "cstr x (i - 1) = c"
    unfolding Cons.prems(3) by (simp add: cstr_def)
  show ?case
  proof (cases "i = length x")
    case True
    then show ?thesis using c Cons.prems(1,3) by (auto simp: Let_def)
  next
    case False
    then have "p \<in> set (restart x t (i + 1) (length (u @ [c]) + 1))"
      by (intro Cons.IH) (use Cons.prems in auto)
    then show ?thesis using c False by (simp add: Let_def)
  qed
qed

text \<open>Every later occurrence is reported when the first character does not come back.\<close>

lemma restart_complete:
  assumes "1 \<le> i" "i \<le> length x" "x ! 0 \<notin> set (tl x)" "length u \<le> p" "occurs_at x (u @ t) p"
  shows "p \<in> set (restart x t i (length u + 1))"
  using assms
proof (induction t arbitrary: u i)
  case Nil
  then show ?case by (auto simp: occurs_at_def)
next
  case (Cons c t)
  let ?i = "if cstr x (i - 1) = c then i + 1 else if cstr x 0 = c then 2 else 1"
  have x: "1 \<le> length x" using Cons.prems by simp
  show ?case
  proof (cases "p = length u")
    case True
    have "(u @ c # t) ! (p + 0) = x ! 0" by (rule occurs_atD [OF Cons.prems(5)]) (use x in linarith)
    then have c: "c = x ! 0" using True by simp
    show ?thesis
    proof (cases "i = 1")
      case False
      then have "x ! (i - 1) \<in> set (tl x)"
        using Cons.prems(1,2) nth_tl [of "i - 2" x] nth_mem [of "i - 2" "tl x"] by (simp add: numeral_2_eq_2 Suc_diff_Suc)
      then have "cstr x (i - 1) \<noteq> c" using Cons.prems(1-3) c by (auto simp: cstr_def)
      moreover have "cstr x 0 = c" using c x by (auto simp: cstr_def)
      ultimately have i2: "?i = 2" by simp
      show ?thesis
      proof (cases "length x = 1")
        case True
        then show ?thesis using False Cons.prems(1,2) by simp
      next
        case False
        then have "p \<in> set (restart x t 2 (length (u @ [c]) + 1))"
          by (intro restart_continues) (use Cons.prems(5) x True in auto)
        then show ?thesis using i2 False by (auto simp: Let_def split: if_splits)
      qed
    next
      case 1: True
      show ?thesis by (rule restart_continues) (use 1 True x Cons.prems(5) in auto)
    qed
  next
    case False
    then have later: "p \<in> set (restart x t k (length (u @ [c]) + 1))" if "1 \<le> k" "k \<le> length x" for k
      using that Cons.prems(3-5) by (intro Cons.IH) auto
    show ?thesis
    proof (cases "?i = length x + 1")
      case True
      then show ?thesis using later [of 1] x by (simp add: Let_def split: if_splits)
    next
      case False
      then have "1 \<le> ?i" "?i \<le> length x" using Cons.prems(1,2) by auto
      from later [OF this] show ?thesis using False by (simp add: Let_def split: if_splits)
    qed
  qed
qed

section \<open>Properties\<close>

text \<open>
  C39.  For a pattern that is not empty, computing the table and searching ends.  Each pass
  reports the same positions, which are occurrences, in increasing order and without overlap, and
  the count grows by their number for each pass.  When the first character of the pattern does not
  come back in it, all occurrences are reported.
\<close>

theorem mp_reports_occurrences:
  assumes "x \<noteq> []"
  shows "\<exists>nx ps. compute_MP_next x nx0 (length x) = Some nx \<and>
    MP x t nx (length x) (length t) k n = Some (concat (replicate k ps), n + k * length ps) \<and>
    (\<forall>p\<in>set ps. occurs_at x t p) \<and> sorted_wrt (\<lambda>p q. p + length x \<le> q) ps \<and>
    (x ! 0 \<notin> set (tl x) \<longrightarrow> set ps = {p. occurs_at x t p})"
proof -
  let ?ps = "restart x t 1 1"
  have x: "1 \<le> length x" using assms by (cases x) auto
  obtain nx where nx: "compute_MP_next x nx0 (length x) = Some nx" using compute_MP_next_table by blast
  have sound: "\<forall>p\<in>set ?ps. occurs_at x t p"
    using restart_sound [of 1 x "[]" _ t] x by simp
  moreover have "set ?ps = {p. occurs_at x t p}" if "x ! 0 \<notin> set (tl x)"
    using sound restart_complete [of 1 x "[]" _ t] that x by auto
  moreover have "sorted_wrt (\<lambda>p q. p + length x \<le> q) ?ps" using restart_spaced [of 1 x 1 t] x by simp
  moreover have "MP x t nx (length x) (length t) k n = Some (concat (replicate k ?ps), n + k * length ?ps)"
    using mp_table.MP_passes [OF assms, where tab = nx0 and t = t and k = k and n = n] by (simp only: nx option.sel)
  ultimately show ?thesis using nx by blast
qed

theorem mp_reports_occurrences_witness:
  "\<exists>nx ps. compute_MP_next ''ab'' (\<lambda>_. 0) (length ''ab'') = Some nx \<and>
    MP ''ab'' ''abcab'' nx (length ''ab'') (length ''abcab'') 2 0 = Some (concat (replicate 2 ps), 0 + 2 * length ps) \<and>
    (\<forall>p\<in>set ps. occurs_at ''ab'' ''abcab'' p) \<and> sorted_wrt (\<lambda>p q. p + length ''ab'' \<le> q) ps \<and>
    (''ab'' ! 0 \<notin> set (tl ''ab'') \<longrightarrow> set ps = {p. occurs_at ''ab'' ''abcab'' p})"
  by (rule mp_reports_occurrences) simp

text \<open>In general occurrences are missed: \<^verbatim>\<open>aab\<close> occurs in \<^verbatim>\<open>aaab\<close> and is not reported.\<close>

lemma mp_misses:
  "occurs_at ''aab'' ''aaab'' 1 \<and>
   (\<exists>nx. compute_MP_next ''aab'' nx0 (length ''aab'') = Some nx \<and>
         MP ''aab'' ''aaab'' nx (length ''aab'') (length ''aaab'') 1 0 = Some ([], 0))"
proof -
  obtain nx where nx: "compute_MP_next ''aab'' nx0 (length ''aab'') = Some nx"
    using compute_MP_next_table by blast
  have "occurs_at ''aab'' ''aaab'' 1" by (simp add: occurs_at_def nth_Cons' numeral_3_eq_3 less_Suc_eq)
  moreover have "restart ''aab'' ''aaab'' 1 1 = []" by (simp add: Let_def cstr_def)
  ultimately show ?thesis using nx mp_table.MP_passes [where x = "''aab''" and tab = nx0 and t = "''aaab''" and k = 1 and n = 0] by auto
qed

end
