(* ===== verification/Rule_System.thy ===== *)
theory Rule_System
  imports Main
begin

text \<open>
  Hardware whose atomic rules fire in any order.  The locale \<^verbatim>\<open>rule_system\<close> is the contract of a design
  that finishes its work under every schedule: an invariant that the rules keep, an order in which
  every rule descends, and a rule that can fire wherever the work is not finished.
\<close>

locale rule_system =
  fixes step :: "'s \<Rightarrow> 's \<Rightarrow> bool" and inv :: "'s \<Rightarrow> bool" and final :: "'s \<Rightarrow> bool" and order :: "('s \<times> 's) set"
  assumes wf_order: "wf order"
    and inv_step: "inv s \<Longrightarrow> step s s' \<Longrightarrow> inv s'"
    and descends: "inv s \<Longrightarrow> step s s' \<Longrightarrow> (s', s) \<in> order"
    and progress: "inv s \<Longrightarrow> \<not> final s \<Longrightarrow> \<exists>s'. step s s'"
begin

lemma inv_reach: "step\<^sup>*\<^sup>* s s' \<Longrightarrow> inv s \<Longrightarrow> inv s'"
  by (induction rule: rtranclp_induct) (auto intro: inv_step)

lemma finishes: "inv s \<Longrightarrow> \<exists>s'. step\<^sup>*\<^sup>* s s' \<and> final s'"
proof (induction s rule: wf_induct_rule [OF wf_order])
  case (1 s)
  show ?case
  proof (cases "final s")
    case False
    then obtain s1 where s1: "step s s1" using progress 1(2) by blast
    then have "(s1, s) \<in> order" "inv s1" using descends inv_step 1(2) by blast+
    then obtain s' where "step\<^sup>*\<^sup>* s1 s'" "final s'" using 1(1) by blast
    with s1 show ?thesis by (meson converse_rtranclp_into_rtranclp)
  qed blast
qed

lemma no_infinite_run:
  assumes "inv (f 0)"
  shows "\<exists>n. \<not> step (f n) (f (Suc n))"
proof (rule ccontr)
  assume "\<nexists>n. \<not> step (f n) (f (Suc n))"
  then have st: "step (f n) (f (Suc n))" for n by blast
  have "inv (f n)" for n by (induction n) (use assms st inv_step in blast)+
  then have "(f (Suc n), f n) \<in> order" for n using st descends by blast
  then show False using wf_order unfolding wf_iff_no_infinite_down_chain by blast
qed

lemma reaches_end: "inv s \<Longrightarrow> \<exists>s'. step\<^sup>*\<^sup>* s s' \<and> (\<nexists>s''. step s' s'')"
proof (induction s rule: wf_induct_rule [OF wf_order])
  case (1 s)
  show ?case
  proof (cases "\<exists>s1. step s s1")
    case True
    then obtain s1 where s1: "step s s1" by blast
    then have "(s1, s) \<in> order" "inv s1" using descends inv_step 1(2) by blast+
    then obtain s' where "step\<^sup>*\<^sup>* s1 s'" "\<nexists>s''. step s' s''" using 1(1) by blast
    with s1 show ?thesis by (meson converse_rtranclp_into_rtranclp)
  qed blast
qed

text \<open>A run that cannot go on has finished.\<close>

lemma stuck_final: "step\<^sup>*\<^sup>* s s' \<Longrightarrow> inv s \<Longrightarrow> (\<nexists>s''. step s' s'') \<Longrightarrow> final s'"
  using inv_reach progress by blast

end

end
