(* ===== verification/Mp_Engine.thy ===== *)
theory Mp_Engine
  imports Morris_Pratt Rule_System
begin

text \<open>
  The string search engine of \<^verbatim>\<open>lib/bsv/MPEngine.bsv\<close>.  It asks its block memories for the next character of
  the pattern ahead of time, guessing a match, and discards what it asked for under an epoch that
  has passed; the text arrives from memory in words of eight characters.  A step fires one rule.
\<close>

section \<open>The engine\<close>

datatype mp_stage = Mp_Idle | Mp_Ready | Mp_Run

record mp_engine =
  me_stage :: mp_stage
  needleLenReg :: u32
  haystackLenReg :: u32
  haystackBase :: u32
  jReg :: u32
  iReg :: u32
  epochReg :: "2 word"
  mpTag :: "6 word"
  haystackOff :: u32
  me_needle :: "10 word \<Rightarrow> char"
  me_next :: "10 word \<Rightarrow> u32"
  efifo :: "(2 word \<times> u32 \<times> char \<times> u32) list"
  hbuf :: "char list"
  hreqs :: "(u32 \<times> 6 word) list"
  locf :: "u32 list"
  compf :: nat
  located :: "u32 list"

text \<open>An entry of the fifo with the answers of the two memories.\<close>

definition needle_entry :: "mp_engine \<Rightarrow> 2 word \<Rightarrow> u32 \<Rightarrow> 2 word \<times> u32 \<times> char \<times> u32" where
  "needle_entry s e i = (e, i, me_needle s (ucast (i - 1)), me_next s (ucast i))"

text \<open>
  Setting up copies the pattern and the table, with one element more than the length, into the block
  memories.
\<close>

definition mp_fill :: "(nat \<Rightarrow> 'a) \<Rightarrow> 10 word \<Rightarrow> (10 word \<Rightarrow> 'a) \<Rightarrow> 10 word \<Rightarrow> 'a" where
  "mp_fill mem finish br = fold (\<lambda>j m. m(of_nat j := mem j)) [0..<unat finish + 1] br"

definition mp_setup :: "(nat \<Rightarrow> char) \<Rightarrow> (nat \<Rightarrow> u32) \<Rightarrow> u32 \<Rightarrow> mp_engine \<Rightarrow> mp_engine" where
  "mp_setup needle_mem next_mem needle_len s =
     s\<lparr>needleLenReg := needle_len, me_needle := mp_fill needle_mem (ucast needle_len) (me_needle s),
       me_next := mp_fill next_mem (ucast needle_len) (me_next s), jReg := 0, iReg := 0, me_stage := Mp_Ready\<rparr>"

definition search_ready :: "mp_engine \<Rightarrow> bool" where
  "search_ready s \<longleftrightarrow> me_stage s = Mp_Ready \<and> efifo s = [] \<and> hbuf s = []"

definition mp_search :: "u32 \<Rightarrow> u32 \<Rightarrow> mp_engine \<Rightarrow> mp_engine" where
  "mp_search haystack_len haystack_base s =
     s\<lparr>haystackLenReg := haystack_len, haystackBase := haystack_base, mpTag := mpTag s + 1, haystackOff := 0,
       me_stage := Mp_Run, iReg := 1, jReg := 1, efifo := [], epochReg := 0\<rparr>"

text \<open>
  The decision on an answer of the current epoch: end of the text, end of the pattern, mismatch,
  match.  The first needs no character; a location needs room in its fifo.
\<close>

datatype mp_action = Search_done | Located | Rewind u32 | Advance

definition mp_decide :: "mp_engine \<Rightarrow> u32 \<times> char \<times> u32 \<Rightarrow> mp_action option" where
  "mp_decide s = (\<lambda>(i, nv, mp).
     if jReg s > haystackLenReg s then Some Search_done
     else if i = needleLenReg s + 1 then (if length (locf s) < 2 then Some Located else None)
     else case hbuf s of
            [] \<Rightarrow> None
          | hv # _ \<Rightarrow> if 0 < i \<and> nv \<noteq> hv then Some (Rewind mp) else Some Advance)"

fun mp_act :: "u32 \<Rightarrow> mp_action \<Rightarrow> mp_engine \<Rightarrow> mp_engine" where
  "mp_act i Search_done s = s\<lparr>compf := compf s + 1, me_stage := Mp_Ready\<rparr>"
| "mp_act i Located s = s\<lparr>locf := locf s @ [haystackBase s + jReg s - i], epochReg := epochReg s + 1, iReg := 1\<rparr>"
| "mp_act i (Rewind mp) s = s\<lparr>epochReg := epochReg s + 1, iReg := mp\<rparr>"
| "mp_act i Advance s = s\<lparr>jReg := jReg s + 1, hbuf := tl (hbuf s)\<rparr>"

text \<open>
  The rules, over the bytes of the text object, the number of reads the memory takes at a time and the
  number of characters with which the gearbox still takes a word.
\<close>

inductive mp_rule :: "(nat \<Rightarrow> char) \<Rightarrow> nat \<Rightarrow> nat \<Rightarrow> mp_engine \<Rightarrow> mp_engine \<Rightarrow> bool"
  for mem :: "nat \<Rightarrow> char" and cap :: nat and room :: nat where
  haystackReq: "\<lbrakk>me_stage s = Mp_Run; haystackOff s < haystackLenReg s; length (hreqs s) < cap\<rbrakk> \<Longrightarrow>
    mp_rule mem cap room s (s\<lparr>hreqs := hreqs s @ [(haystackBase s + haystackOff s, mpTag s)], haystackOff := haystackOff s + 8\<rparr>)"
| haystackResp: "\<lbrakk>hreqs s = (off, tag) # rs; tag = mpTag s; length (hbuf s) \<le> room\<rbrakk> \<Longrightarrow>
    mp_rule mem cap room s (s\<lparr>hreqs := rs, hbuf := hbuf s @ map (\<lambda>k. mem (unat off + k)) [0..<8]\<rparr>)"
| haystackOld: "\<lbrakk>hreqs s = (off, tag) # rs; tag \<noteq> mpTag s\<rbrakk> \<Longrightarrow> mp_rule mem cap room s (s\<lparr>hreqs := rs\<rparr>)"
| haystackDrain: "\<lbrakk>me_stage s \<noteq> Mp_Run; hbuf s \<noteq> []\<rbrakk> \<Longrightarrow> mp_rule mem cap room s (s\<lparr>hbuf := tl (hbuf s)\<rparr>)"
| bramDrain: "\<lbrakk>me_stage s \<noteq> Mp_Run; efifo s \<noteq> []\<rbrakk> \<Longrightarrow> mp_rule mem cap room s (s\<lparr>efifo := tl (efifo s)\<rparr>)"
| matchNeedleReq: "\<lbrakk>me_stage s = Mp_Run; length (efifo s) < 2\<rbrakk> \<Longrightarrow>
    mp_rule mem cap room s (s\<lparr>efifo := efifo s @ [needle_entry s (epochReg s) (iReg s)], iReg := iReg s + 1\<rparr>)"
| matchNeedleResp: "\<lbrakk>me_stage s = Mp_Run; efifo s = (epoch, i, ans) # es; epoch = epochReg s; mp_decide s (i, ans) = Some act\<rbrakk> \<Longrightarrow>
    mp_rule mem cap room s (mp_act i act (s\<lparr>efifo := es\<rparr>))"
| matchNeedleOld: "\<lbrakk>me_stage s = Mp_Run; efifo s = (epoch, i, ans) # es; epoch \<noteq> epochReg s\<rbrakk> \<Longrightarrow>
    mp_rule mem cap room s (s\<lparr>efifo := es\<rparr>)"
| resr: "locf s = loc # ls \<Longrightarrow> mp_rule mem cap room s (s\<lparr>locf := ls, located := located s @ [loc]\<rparr>)"

section \<open>The reference\<close>

text \<open>
  The pass of \<^verbatim>\<open>mp.h\<close> as the engine does it: it looks for the end of the text first, so that a match
  with the last character is not reported.
\<close>

fun hw_restart :: "string \<Rightarrow> string \<Rightarrow> nat \<Rightarrow> nat \<Rightarrow> nat list" where
  "hw_restart x [] i j = []"
| "hw_restart x (c # t) i j =
     (let i' = (if cstr x (i - 1) = c then i + 1 else if cstr x 0 = c then 2 else 1)
      in if i' = length x + 1 then (if t = [] then [] else (j + 1 - i') # hw_restart x t 1 (j + 1)) else hw_restart x t i' (j + 1))"

text \<open>What is still to come at place \<open>i\<close> of the pattern, also behind its end and in front of it.\<close>

definition to_come :: "string \<Rightarrow> string \<Rightarrow> nat \<Rightarrow> nat \<Rightarrow> nat list" where
  "to_come x ts i j =
     (if ts = [] then []
      else if i = length x + 1 then (j - i) # hw_restart x ts 1 j
      else if i = 0 then hw_restart x (tl ts) 1 (j + 1)
      else hw_restart x ts i j)"

lemma to_come_advance:
  assumes "x \<noteq> []" "i \<le> length x" "0 < i \<longrightarrow> cstr x (i - 1) = c"
  shows "to_come x (c # ts) i j = to_come x ts (i + 1) (j + 1)"
  using assms by (cases "i = 0") (auto simp: to_come_def Let_def)

lemma to_come_located:
  "x \<noteq> [] \<Longrightarrow> ts \<noteq> [] \<Longrightarrow> to_come x ts (length x + 1) j = (j - (length x + 1)) # to_come x ts 1 j"
  by (simp add: to_come_def)

context fallback_table
begin

lemma to_come_rewind:
  assumes "1 \<le> i" "i \<le> length x" "cstr x (i - 1) \<noteq> c"
  shows "to_come x (c # ts) (nx i) j = to_come x (c # ts) i j"
proof (cases "i = 1")
  case True
  with assms first_entry show ?thesis by (auto simp: to_come_def Let_def)
next
  case False
  then have "1 \<le> nx i" "nx i < i" "nx i \<noteq> 1 \<longrightarrow> cstr x (nx i - 1) = cstr x (i - 1)"
    using falls_back [of i] same_char [of i] assms by auto
  with assms False show ?thesis by (cases "nx i = 1") (auto simp: to_come_def Let_def numeral_2_eq_2)
qed

lemma entry_less: "1 \<le> i \<Longrightarrow> i \<le> length x \<Longrightarrow> nx i < i"
  using first_entry falls_back [of i] by (cases "i = 1") auto

end

lemma hw_restart_filter:
  assumes "1 \<le> i" "i \<le> length x" "i \<le> j"
  shows "hw_restart x t i j = filter (\<lambda>p. p + length x + 1 < j + length t) (restart x t i j)"
  using assms
proof (induction t arbitrary: i j)
  case (Cons c t)
  let ?i = "if cstr x (i - 1) = c then i + 1 else if cstr x 0 = c then 2 else 1"
  have x: "1 \<le> length x" using Cons.prems by simp
  show ?case
  proof (cases "?i = length x + 1")
    case True
    have "?i \<le> j + 1" using Cons.prems by auto
    then have "j + 1 - ?i + length x + 1 < j + length (c # t) \<longleftrightarrow> t \<noteq> []" using True by (cases t) auto
    then show ?thesis using True Cons.IH [of 1 "j + 1"] x by (simp add: Let_def)
  next
    case False
    then have "1 \<le> ?i" "?i \<le> length x" "?i \<le> j + 1" using Cons.prems by auto
    from Cons.IH [OF this] False show ?thesis by (simp add: Let_def)
  qed
qed simp

section \<open>The invariant\<close>

text \<open>
  What the engine is given: a pattern that fits the block memories, a table to fall back with, and a
  text of \<open>n\<close> characters at an offset of its object.
\<close>

definition mp_params :: "string \<Rightarrow> (nat \<Rightarrow> nat) \<Rightarrow> nat \<Rightarrow> u32 \<Rightarrow> nat \<Rightarrow> bool" where
  "mp_params x nx n base cap \<longleftrightarrow>
     x \<noteq> [] \<and> length x < 1024 \<and> fallback_table x nx \<and> 1 \<le> n \<and> unat base + n + 8 < 2 ^ 32 \<and> 1 \<le> cap"

definition mp_loaded :: "string \<Rightarrow> (nat \<Rightarrow> nat) \<Rightarrow> mp_engine \<Rightarrow> bool" where
  "mp_loaded x nx s \<longleftrightarrow>
     needleLenReg s = of_nat (length x) \<and> (\<forall>k < length x. me_needle s (of_nat k) = x ! k) \<and>
     (\<forall>k. 1 \<le> k \<and> k \<le> length x \<longrightarrow> me_next s (of_nat k) = of_nat (nx k))"

text \<open>The characters of the text as the engine sees them.\<close>

definition hay :: "(nat \<Rightarrow> char) \<Rightarrow> u32 \<Rightarrow> nat \<Rightarrow> char" where
  "hay mem base k = mem (unat base + k)"

text \<open>The entries of the current epoch ask for the places from \<open>a\<close> on; those before them are of the last epoch.\<close>

definition mp_asked :: "nat \<Rightarrow> nat \<Rightarrow> mp_engine \<Rightarrow> bool" where
  "mp_asked a c s \<longleftrightarrow>
     (\<exists>olds. efifo s = olds @ map (\<lambda>k. needle_entry s (epochReg s) (of_nat (a + k))) [0..<c] \<and>
        (\<forall>en \<in> set olds. fst en = epochReg s - 1) \<and> length (efifo s) \<le> 2) \<and> iReg s = of_nat (a + c)"

text \<open>The characters from \<open>b\<close> on are in the gearbox or asked for, behind requests of the last search.\<close>

definition mp_fed :: "(nat \<Rightarrow> char) \<Rightarrow> nat \<Rightarrow> u32 \<Rightarrow> nat \<Rightarrow> mp_engine \<Rightarrow> bool" where
  "mp_fed mem n base b s \<longleftrightarrow>
     (\<exists>olds w r. hreqs s = olds @ map (\<lambda>q. (base + of_nat (8 * q), mpTag s)) [w..<r] \<and> (\<forall>rq \<in> set olds. snd rq \<noteq> mpTag s) \<and>
        (olds \<noteq> [] \<longrightarrow> w = 0) \<and> haystackOff s = of_nat (8 * r) \<and> w \<le> r \<and> 8 * r < n + 8 \<and>
        b \<le> 8 * w + 1 \<and> hbuf s = map (hay mem base) [b - 1..<8 * w])"

definition mp_running :: "(nat \<Rightarrow> char) \<Rightarrow> string \<Rightarrow> nat \<Rightarrow> u32 \<Rightarrow> u32 list \<Rightarrow> nat \<Rightarrow> nat \<Rightarrow> nat \<Rightarrow> mp_engine \<Rightarrow> bool" where
  "mp_running mem x n base outs a b c s \<longleftrightarrow>
     me_stage s = Mp_Run \<and> a \<le> length x + 1 \<and> 1 \<le> b \<and> b \<le> n + 1 \<and> a \<le> b \<and> jReg s = of_nat b \<and>
     mp_asked a c s \<and> mp_fed mem n base b s \<and>
     located s @ locf s @ map (\<lambda>p. base + of_nat p) (to_come x (map (hay mem base) [b - 1..<n]) a b) = outs"

definition mp_finished :: "u32 list \<Rightarrow> mp_engine \<Rightarrow> bool" where
  "mp_finished outs s \<longleftrightarrow> me_stage s = Mp_Ready \<and> located s @ locf s = outs \<and> (\<forall>rq \<in> set (hreqs s). snd rq = mpTag s)"

definition mp_inv :: "(nat \<Rightarrow> char) \<Rightarrow> nat \<Rightarrow> string \<Rightarrow> (nat \<Rightarrow> nat) \<Rightarrow> nat \<Rightarrow> u32 \<Rightarrow> u32 list \<Rightarrow> mp_engine \<Rightarrow> bool" where
  "mp_inv mem cap x nx n base outs s \<longleftrightarrow>
     mp_params x nx n base cap \<and> mp_loaded x nx s \<and> haystackLenReg s = of_nat n \<and> haystackBase s = base \<and>
     ((\<exists>a b c. mp_running mem x n base outs a b c s) \<or> mp_finished outs s)"

lemma small_of_nat [simp]: "k < 2 ^ 32 \<Longrightarrow> unat (of_nat k :: u32) = k"
  using unat_of_nat_less [of k, where ?'a = 32] by simp

lemma mp_asked_bound: "mp_asked a c s \<Longrightarrow> c \<le> 2"
  by (auto simp: mp_asked_def)

lemma mp_asked_cong:
  assumes "mp_asked a c s" "efifo s' = efifo s" "epochReg s' = epochReg s" "iReg s' = iReg s"
    "me_needle s' = me_needle s" "me_next s' = me_next s"
  shows "mp_asked a c s'"
  using assms by (simp add: mp_asked_def needle_entry_def)

lemma mp_asked_req:
  assumes "mp_asked a c s" "length (efifo s) < 2"
  shows "mp_asked a (c + 1) (s\<lparr>efifo := efifo s @ [needle_entry s (epochReg s) (iReg s)], iReg := iReg s + 1\<rparr>)"
  using assms by (auto simp: mp_asked_def needle_entry_def add_ac)

text \<open>An entry of the current epoch at the head is the one for \<open>a\<close>, and no older one is left.\<close>

lemma mp_asked_head:
  assumes "mp_asked a c s" "efifo s = (epochReg s, i, ans) # es"
  shows "0 < c" "(epochReg s, i, ans) = needle_entry s (epochReg s) (of_nat a)"
    "es = map (\<lambda>k. needle_entry s (epochReg s) (of_nat (a + 1 + k))) [0..<c - 1]"
proof -
  obtain olds where o: "efifo s = olds @ map (\<lambda>k. needle_entry s (epochReg s) (of_nat (a + k))) [0..<c]"
    "\<forall>en \<in> set olds. fst en = epochReg s - 1" using assms(1) by (auto simp: mp_asked_def)
  have "olds = []"
  proof (cases olds)
    case (Cons en rest)
    then have "fst en = epochReg s" "fst en = epochReg s - 1" using o assms(2) by auto
    then show ?thesis by simp
  qed simp
  with o assms(2) have e: "(epochReg s, i, ans) # es = map (\<lambda>k. needle_entry s (epochReg s) (of_nat (a + k))) [0..<c]" by simp
  then show c: "0 < c" by (cases c) auto
  then have "[0..<c] = 0 # map Suc [0..<c - 1]" by (metis Suc_diff_1 upt_conv_Cons map_Suc_upt)
  with e show "(epochReg s, i, ans) = needle_entry s (epochReg s) (of_nat a)"
    "es = map (\<lambda>k. needle_entry s (epochReg s) (of_nat (a + 1 + k))) [0..<c - 1]"
    by (simp_all add: comp_def add_ac)
qed

lemma mp_asked_old:
  assumes "mp_asked a c s" "efifo s = (epoch, i, ans) # es" "epoch \<noteq> epochReg s"
  shows "mp_asked a c (s\<lparr>efifo := es\<rparr>)"
proof -
  obtain olds where o: "efifo s = olds @ map (\<lambda>k. needle_entry s (epochReg s) (of_nat (a + k))) [0..<c]"
    "\<forall>en \<in> set olds. fst en = epochReg s - 1" "length (efifo s) \<le> 2" "iReg s = of_nat (a + c)"
    using assms(1) by (auto simp: mp_asked_def)
  have "olds \<noteq> []"
  proof
    assume "olds = []"
    then show False using o(1) assms(2,3) by (cases c) (auto simp: needle_entry_def upt_rec)
  qed
  then obtain rest where "olds = (epoch, i, ans) # rest" using o(1) assms(2) by (cases olds) auto
  with o assms(2) show ?thesis by (auto simp: mp_asked_def needle_entry_def intro!: exI [of _ rest])
qed

text \<open>After a new epoch has begun at place \<open>k\<close> everything in the fifo is old.\<close>

lemma mp_asked_epoch:
  assumes "mp_asked a c s" "efifo s = (epochReg s, i, ans) # es"
    and "efifo s' = es" "epochReg s' = epochReg s + 1" "iReg s' = of_nat k"
  shows "mp_asked k 0 s'"
  using mp_asked_head [OF assms(1,2)] assms mp_asked_bound [OF assms(1)]
  by (auto simp: mp_asked_def needle_entry_def)

lemma mp_asked_advance:
  assumes "mp_asked a c s" "efifo s = (epochReg s, i, ans) # es"
    and "efifo s' = es" "epochReg s' = epochReg s" "iReg s' = iReg s" "me_needle s' = me_needle s" "me_next s' = me_next s"
  shows "mp_asked (a + 1) (c - 1) s'"
  using mp_asked_head [OF assms(1,2)] assms mp_asked_bound [OF assms(1)]
  by (auto simp: mp_asked_def needle_entry_def)

lemma mp_fedE:
  assumes "mp_fed mem n base b s"
  obtains olds w r where "hreqs s = olds @ map (\<lambda>q. (base + of_nat (8 * q), mpTag s)) [w..<r]" "\<forall>rq \<in> set olds. snd rq \<noteq> mpTag s"
    "olds \<noteq> [] \<longrightarrow> w = 0" "haystackOff s = of_nat (8 * r)" "w \<le> r" "8 * r < n + 8" "b \<le> 8 * w + 1" "hbuf s = map (hay mem base) [b - 1..<8 * w]"
  using assms unfolding mp_fed_def by blast

lemma mp_fed_cong:
  assumes "mp_fed mem n base b s" "hreqs s' = hreqs s" "mpTag s' = mpTag s" "haystackOff s' = haystackOff s" "hbuf s' = hbuf s"
  shows "mp_fed mem n base b s'"
  using assms by (simp add: mp_fed_def)

lemma mp_fed_req:
  assumes "mp_fed mem n base b s" "haystackOff s < of_nat n" "n + 8 < 2 ^ 32"
  shows "mp_fed mem n base b (s\<lparr>hreqs := hreqs s @ [(base + haystackOff s, mpTag s)], haystackOff := haystackOff s + 8\<rparr>)"
proof -
  obtain olds w r where f: "hreqs s = olds @ map (\<lambda>q. (base + of_nat (8 * q), mpTag s)) [w..<r]" "\<forall>rq \<in> set olds. snd rq \<noteq> mpTag s"
    "olds \<noteq> [] \<longrightarrow> w = 0" "haystackOff s = of_nat (8 * r)" "w \<le> r" "8 * r < n + 8" "b \<le> 8 * w + 1" "hbuf s = map (hay mem base) [b - 1..<8 * w]"
    using assms(1) by (rule mp_fedE)
  have "unat (haystackOff s) = 8 * r" using f(4,6) assms(3) by (simp del: of_nat_mult)
  moreover have "unat (of_nat n :: u32) = n" using assms(3) by simp
  ultimately have "8 * r < n" using assms(2) by (simp add: word_less_nat_alt)
  moreover have "haystackOff s + 8 = of_nat (8 * Suc r)" using f(4) by simp
  ultimately show ?thesis
    unfolding mp_fed_def using f by (intro exI [of _ olds] exI [of _ w] exI [of _ "Suc r"]) simp
qed

lemma eight_more: "[w..<8 * Suc k] = [w..<8 * k] @ map ((+) (8 * k)) [0..<8]" if "w \<le> 8 * k"
proof -
  have "[w..<8 * Suc k] = [w..<8 * k] @ [8 * k..<8 * k + 8]" using upt_add_eq_append [OF that, of 8] by (simp add: add.commute)
  moreover have "map ((+) m) [0..<j] = [m..<m + j]" for m j :: nat by (induction j) auto
  ultimately show ?thesis by simp
qed

lemma mp_fed_resp:
  assumes "mp_fed mem n base b s" "hreqs s = (off, mpTag s) # rs" "unat base + n + 8 < 2 ^ 32"
  shows "mp_fed mem n base b (s\<lparr>hreqs := rs, hbuf := hbuf s @ map (\<lambda>k. mem (unat off + k)) [0..<8]\<rparr>)"
proof -
  obtain olds w r where f: "hreqs s = olds @ map (\<lambda>q. (base + of_nat (8 * q), mpTag s)) [w..<r]" "\<forall>rq \<in> set olds. snd rq \<noteq> mpTag s"
    "olds \<noteq> [] \<longrightarrow> w = 0" "haystackOff s = of_nat (8 * r)" "w \<le> r" "8 * r < n + 8" "b \<le> 8 * w + 1" "hbuf s = map (hay mem base) [b - 1..<8 * w]"
    using assms(1) by (rule mp_fedE)
  have o: "olds = []" using f(1,2) assms(2) by (cases olds) auto
  then have w: "w < r" using f(1,5) assms(2) by (cases "w = r") auto
  then have "[w..<r] = w # [Suc w..<r]" by (simp add: upt_conv_Cons)
  then have h: "off = base + of_nat (8 * w)" "rs = map (\<lambda>q. (base + of_nat (8 * q), mpTag s)) [Suc w..<r]" using f(1) o assms(2) by auto
  have "unat base + 8 * w < 2 ^ 32" using w f(6) assms(3) by linarith
  then have "unat off = unat base + 8 * w" unfolding h(1)
    using unat_of_nat_less [of "unat base + 8 * w", where ?'a = 32] by simp
  then have "map (\<lambda>k. mem (unat off + k)) [0..<8] = map (hay mem base) (map ((+) (8 * w)) [0..<8])" by (simp add: hay_def add.assoc)
  then have "hbuf s @ map (\<lambda>k. mem (unat off + k)) [0..<8] = map (hay mem base) [b - 1..<8 * Suc w]"
    using f(7,8) eight_more [of "b - 1" w] by simp
  then show ?thesis
    unfolding mp_fed_def using f w h by (intro exI [of _ "[]"] exI [of _ "Suc w"] exI [of _ r]) simp
qed

lemma mp_fed_old:
  assumes "mp_fed mem n base b s" "hreqs s = (off, tag) # rs" "tag \<noteq> mpTag s"
  shows "mp_fed mem n base b (s\<lparr>hreqs := rs\<rparr>)"
proof -
  obtain olds w r where f: "hreqs s = olds @ map (\<lambda>q. (base + of_nat (8 * q), mpTag s)) [w..<r]" "\<forall>rq \<in> set olds. snd rq \<noteq> mpTag s"
    "olds \<noteq> [] \<longrightarrow> w = 0" "haystackOff s = of_nat (8 * r)" "w \<le> r" "8 * r < n + 8" "b \<le> 8 * w + 1" "hbuf s = map (hay mem base) [b - 1..<8 * w]"
    using assms(1) by (rule mp_fedE)
  have "olds \<noteq> []"
  proof
    assume "olds = []"
    then show False using f(1,5) assms(2,3) by (cases "w = r") (auto simp: upt_conv_Cons)
  qed
  then obtain rest where "olds = (off, tag) # rest" using f(1) assms(2) by (cases olds) auto
  with f assms(2) show ?thesis unfolding mp_fed_def by (intro exI [of _ rest] exI [of _ w] exI [of _ r]) auto
qed

lemma mp_fed_advance:
  assumes "mp_fed mem n base b s" "hbuf s \<noteq> []" "1 \<le> b"
    and "hreqs s' = hreqs s" "mpTag s' = mpTag s" "haystackOff s' = haystackOff s" "hbuf s' = tl (hbuf s)"
  shows "hd (hbuf s) = hay mem base (b - 1)" "mp_fed mem n base (b + 1) s'"
proof -
  obtain olds w r where f: "hreqs s = olds @ map (\<lambda>q. (base + of_nat (8 * q), mpTag s)) [w..<r]" "\<forall>rq \<in> set olds. snd rq \<noteq> mpTag s"
    "olds \<noteq> [] \<longrightarrow> w = 0" "haystackOff s = of_nat (8 * r)" "w \<le> r" "8 * r < n + 8" "b \<le> 8 * w + 1" "hbuf s = map (hay mem base) [b - 1..<8 * w]"
    using assms(1) by (rule mp_fedE)
  have lt: "b - 1 < 8 * w" using f(8) assms(2) by (cases "b - 1 < 8 * w") auto
  then have u: "[b - 1..<8 * w] = (b - 1) # [b..<8 * w]" using assms(3) by (simp add: upt_conv_Cons)
  show "hd (hbuf s) = hay mem base (b - 1)" unfolding f(8) u by simp
  show "mp_fed mem n base (b + 1) s'"
    unfolding mp_fed_def using f assms(3-) lt u by (intro exI [of _ olds] exI [of _ w] exI [of _ r]) auto
qed

text \<open>When the last character has been used no request of an earlier search is left.\<close>

lemma mp_fed_end: "mp_fed mem n base b s \<Longrightarrow> 2 \<le> b \<Longrightarrow> rq \<in> set (hreqs s) \<Longrightarrow> snd rq = mpTag s"
  unfolding mp_fed_def by fastforce

section \<open>Every rule keeps the invariant\<close>

lemma mp_act_static:
  "needleLenReg (mp_act i act s) = needleLenReg s" "me_needle (mp_act i act s) = me_needle s" "me_next (mp_act i act s) = me_next s"
  "haystackLenReg (mp_act i act s) = haystackLenReg s" "haystackBase (mp_act i act s) = haystackBase s"
  by (cases act; simp)+

lemma mp_rule_static:
  assumes "mp_rule mem cap room s s'"
  shows "needleLenReg s' = needleLenReg s" "me_needle s' = me_needle s" "me_next s' = me_next s"
    "haystackLenReg s' = haystackLenReg s" "haystackBase s' = haystackBase s"
  using assms by (cases rule: mp_rule.cases; simp add: mp_act_static)+

text \<open>The answer for place \<open>a\<close>.\<close>

lemma mp_answer:
  assumes "mp_params x nx n base cap" "mp_loaded x nx s" "(e, i, nv, mp) = needle_entry s e (of_nat a)" "1 \<le> a" "a \<le> length x"
  shows "nv = cstr x (a - 1)" "mp = of_nat (nx a)"
proof -
  have "(of_nat a :: u32) - 1 = of_nat (a - 1)" using assms(4) by (simp add: of_nat_diff)
  then have "nv = me_needle s (of_nat (a - 1))" using assms(3) ucast_of_nat_down [of "a - 1", where ?'a = 32 and ?'b = 10]
    by (simp add: needle_entry_def del: of_nat_diff)
  moreover have "a - 1 < length x" using assms(4,5) by simp
  ultimately show "nv = cstr x (a - 1)" using assms(2) by (simp add: mp_loaded_def cstr_def del: of_nat_diff)
  have "mp = me_next s (of_nat a)" using assms(3) ucast_of_nat_down [of a, where ?'a = 32 and ?'b = 10] by (simp add: needle_entry_def)
  then show "mp = of_nat (nx a)" using assms(2,4,5) by (simp add: mp_loaded_def)
qed

lemma mp_text_left: "1 \<le> b \<Longrightarrow> b \<le> n \<Longrightarrow> map f [b - 1..<n] = f (b - 1) # map f [b..<n]"
  by (simp add: upt_conv_Cons)

lemma mp_decision:
  assumes "mp_params x nx n base cap" "mp_loaded x nx s" "haystackLenReg s = of_nat n" "haystackBase s = base"
    and "mp_running mem x n base outs a b c s" "efifo s = (epochReg s, i, ans) # es" "mp_decide s (i, ans) = Some act"
  shows "mp_finished outs (mp_act i act (s\<lparr>efifo := es\<rparr>)) \<or>
    (\<exists>a' b' c'. mp_running mem x n base outs a' b' c' (mp_act i act (s\<lparr>efifo := es\<rparr>)) \<and> 2 * (n + 1 - b') + a' < 2 * (n + 1 - b) + a)"
proof -
  have P: "x \<noteq> []" "length x < 1024" "fallback_table x nx" "1 \<le> n" "unat base + n + 8 < 2 ^ 32" using assms(1) by (auto simp: mp_params_def)
  have R: "me_stage s = Mp_Run" "a \<le> length x + 1" "1 \<le> b" "b \<le> n + 1" "a \<le> b" "jReg s = of_nat b" "mp_asked a c s" "mp_fed mem n base b s"
    "located s @ locf s @ map (\<lambda>p. base + of_nat p) (to_come x (map (hay mem base) [b - 1..<n]) a b) = outs"
    using assms(5) by (auto simp: mp_running_def)
  note h = mp_asked_head [OF R(7) assms(6)]
  obtain nv mp where ans: "ans = (nv, mp)" by (cases ans)
  have i: "i = of_nat a" using h(2) by (simp add: needle_entry_def)
  have j: "jReg s > haystackLenReg s \<longleftrightarrow> n < b" using R(4,6) P(5) assms(3) by (simp add: word_less_nat_alt)
  have m: "i = needleLenReg s + 1 \<longleftrightarrow> a = length x + 1"
  proof -
    have "needleLenReg s + 1 = of_nat (length x + 1)" using assms(2) by (simp add: mp_loaded_def)
    moreover have "unat i = a" "unat (of_nat (length x + 1) :: u32) = length x + 1" using i R(2) P(2) small_of_nat [of a] small_of_nat [of "length x + 1"] by auto
    ultimately show ?thesis by (metis word_unat_eq_iff)
  qed
  show ?thesis
  proof (cases "n < b")
    case True
    then have "b = n + 1" "act = Search_done" using R(4) assms(7) j ans by (auto simp: mp_decide_def)
    then have "mp_finished outs (mp_act i act (s\<lparr>efifo := es\<rparr>))"
      using R(9) mp_fed_end [OF R(8)] P(4) by (auto simp: mp_finished_def to_come_def)
    then show ?thesis ..
  next
    case False
    then have b: "b \<le> n" by simp
    note ts = mp_text_left [OF R(3) b, of "hay mem base"]
    show ?thesis
    proof (cases "a = length x + 1")
      case True
      then have act: "act = Located" using assms(7) j m b ans by (auto simp: mp_decide_def split: if_splits)
      have loc: "base + jReg s - i = base + of_nat (b - (length x + 1))" using True R(5,6) i by (simp add: of_nat_diff)
      have "to_come x (map (hay mem base) [b - 1..<n]) a b = (b - (length x + 1)) # to_come x (map (hay mem base) [b - 1..<n]) 1 b"
        unfolding True by (rule to_come_located) (use P(1) ts in auto)
      then have "mp_running mem x n base outs 1 b 0 (mp_act i act (s\<lparr>efifo := es\<rparr>))"
        using R act loc assms(4) P(1) mp_asked_epoch [OF R(7) assms(6), of "mp_act i act (s\<lparr>efifo := es\<rparr>)" 1]
        by (auto simp: mp_running_def intro: mp_fed_cong)
      moreover have "1 < a" using True P(1) by simp
      ultimately show ?thesis by force
    next
      case False
      then have a: "a \<le> length x" using R(2) by simp
      obtain hv hs where hb: "hbuf s = hv # hs" using assms(7) j m b False ans by (auto simp: mp_decide_def split: list.splits)
      have hv: "hv = hay mem base (b - 1)"
        using mp_fed_advance(1) [OF R(8) _ R(3), of "s\<lparr>hbuf := tl (hbuf s)\<rparr>"] hb by simp
      have "unat i = a" using i a P(2) small_of_nat [of a] by simp
      then have pos: "0 < i \<longleftrightarrow> 1 \<le> a" by (auto simp: word_less_nat_alt)
      show ?thesis
      proof (cases "1 \<le> a \<and> cstr x (a - 1) \<noteq> hv")
        case True
        then have an: "nv = cstr x (a - 1)" "mp = of_nat (nx a)" using mp_answer [OF assms(1,2)] h(2) ans a by blast+
        then have act: "act = Rewind (of_nat (nx a))" using assms(7) j m b False ans hb pos True by (auto simp: mp_decide_def)
        have nx: "nx a < a" using fallback_table.entry_less [OF P(3)] True a by blast
        have "to_come x (map (hay mem base) [b - 1..<n]) (nx a) b = to_come x (map (hay mem base) [b - 1..<n]) a b"
          unfolding ts using fallback_table.to_come_rewind [OF P(3)] True a hv by auto
        then have "mp_running mem x n base outs (nx a) b 0 (mp_act i act (s\<lparr>efifo := es\<rparr>))"
          using R act nx mp_asked_epoch [OF R(7) assms(6), of "mp_act i act (s\<lparr>efifo := es\<rparr>)" "nx a"]
          by (auto simp: mp_running_def intro: mp_fed_cong)
        with nx show ?thesis by force
      next
        case F: False
        have act: "act = Advance"
        proof (cases "1 \<le> a")
          case True
          then have "nv = hv" using mp_answer(1) [OF assms(1,2)] h(2) ans a F by blast
          then show ?thesis using assms(7) j m b False ans hb by (auto simp: mp_decide_def)
        next
          case False
          then show ?thesis using assms(7) j m b \<open>a \<noteq> length x + 1\<close> ans hb pos by (auto simp: mp_decide_def)
        qed
        let ?s = "mp_act i act (s\<lparr>efifo := es\<rparr>)"
        have "mp_fed mem n base (b + 1) ?s" by (rule mp_fed_advance(2) [OF R(8) _ R(3)]) (use act hb in auto)
        moreover have "mp_asked (a + 1) (c - 1) ?s" by (rule mp_asked_advance [OF R(7) assms(6)]) (use act in auto)
        moreover have "to_come x (map (hay mem base) [b - 1..<n]) a b = to_come x (map (hay mem base) [b..<n]) (a + 1) (b + 1)"
          unfolding ts by (rule to_come_advance [OF P(1) a]) (use F hv in auto)
        ultimately have "mp_running mem x n base outs (a + 1) (b + 1) (c - 1) ?s" using R act a b by (auto simp: mp_running_def)
        moreover have "2 * (n + 1 - (b + 1)) + (a + 1) < 2 * (n + 1 - b) + a" using b by simp
        ultimately show ?thesis by blast
      qed
    qed
  qed
qed

text \<open>A step of a running search: the work left shrinks, or the place stays and only the fifos move.\<close>

lemma mp_running_step:
  assumes "mp_params x nx n base cap" "mp_loaded x nx s" "haystackLenReg s = of_nat n" "haystackBase s = base"
    and "mp_running mem x n base outs a b c s" "mp_rule mem cap room s s'"
  shows "mp_finished outs s' \<or> (\<exists>a' b' c'. mp_running mem x n base outs a' b' c' s' \<and> 2 * (n + 1 - b') + a' < 2 * (n + 1 - b) + a) \<or>
    (\<exists>c'. mp_running mem x n base outs a b c' s')"
  using assms(6)
proof (cases rule: mp_rule.cases)
  case haystackReq
  have "n + 8 < 2 ^ 32" using assms(1) by (simp add: mp_params_def)
  with haystackReq assms(3-5) mp_fed_req [of mem n base b s]
  have "mp_running mem x n base outs a b c s'" by (auto simp: mp_running_def intro: mp_asked_cong)
  then show ?thesis by blast
next
  case (haystackResp off tag rs)
  with assms(1,5) mp_fed_resp [of mem n base b s off rs]
  have "mp_running mem x n base outs a b c s'" by (auto simp: mp_running_def mp_params_def intro: mp_asked_cong)
  then show ?thesis by blast
next
  case (haystackOld off tag rs)
  with assms(5) mp_fed_old [of mem n base b s off tag rs]
  have "mp_running mem x n base outs a b c s'" by (auto simp: mp_running_def intro: mp_asked_cong)
  then show ?thesis by blast
next
  case matchNeedleReq
  with assms(5) mp_asked_req [of a c s]
  have "mp_running mem x n base outs a b (c + 1) s'" by (auto simp: mp_running_def intro: mp_fed_cong)
  then show ?thesis by blast
next
  case (matchNeedleResp epoch i ans es act)
  then show ?thesis using mp_decision [OF assms(1-5), of i ans es act] by blast
next
  case (matchNeedleOld epoch i ans es)
  with assms(5) mp_asked_old [of a c s epoch i ans es]
  have "mp_running mem x n base outs a b c s'" by (auto simp: mp_running_def intro: mp_fed_cong)
  then show ?thesis by blast
next
  case (resr loc ls)
  with assms(5) have "mp_running mem x n base outs a b c s'" by (auto simp: mp_running_def intro: mp_fed_cong mp_asked_cong)
  then show ?thesis by blast
qed (use assms(5) in \<open>auto simp: mp_running_def\<close>)

lemma mp_finished_step:
  assumes "mp_finished outs s" "mp_rule mem cap room s s'"
  shows "mp_finished outs s'"
  using assms(2,1) by (cases rule: mp_rule.cases) (auto simp: mp_finished_def)

lemma mp_inv_step:
  assumes "mp_inv mem cap x nx n base outs s" "mp_rule mem cap room s s'"
  shows "mp_inv mem cap x nx n base outs s'"
proof -
  have i: "mp_params x nx n base cap" "mp_loaded x nx s" "haystackLenReg s = of_nat n" "haystackBase s = base"
    "(\<exists>a b c. mp_running mem x n base outs a b c s) \<or> mp_finished outs s" using assms(1) by (auto simp: mp_inv_def)
  then have "(\<exists>a b c. mp_running mem x n base outs a b c s') \<or> mp_finished outs s'"
    using mp_running_step [OF i(1-4) _ assms(2)] mp_finished_step [OF _ assms(2)] by blast
  moreover have "mp_loaded x nx s'" using i(2) mp_rule_static [OF assms(2)] by (simp add: mp_loaded_def)
  ultimately show ?thesis using i mp_rule_static [OF assms(2)] by (simp add: mp_inv_def)
qed

section \<open>Every schedule ends\<close>

text \<open>The place the engine is at: the first entry of the current epoch, or the next one to ask for.\<close>

definition asked_now :: "mp_engine \<Rightarrow> (2 word \<times> u32 \<times> char \<times> u32) list" where
  "asked_now s = filter (\<lambda>en. fst en = epochReg s) (efifo s)"

definition mp_place :: "mp_engine \<Rightarrow> nat" where
  "mp_place s = unat (case asked_now s of [] \<Rightarrow> iReg s | en # _ \<Rightarrow> fst (snd en))"

definition mp_order :: "nat \<Rightarrow> (mp_engine \<times> mp_engine) set" where
  "mp_order n = measures [\<lambda>s. if me_stage s = Mp_Run then 1 else 0,
     \<lambda>s. if me_stage s = Mp_Run then 2 * (n + 1 - unat (jReg s)) + mp_place s else 0,
     \<lambda>s. if me_stage s = Mp_Run then n + 7 - unat (haystackOff s) else 0,
     \<lambda>s. length (hreqs s), \<lambda>s. length (hbuf s),
     \<lambda>s. if me_stage s = Mp_Run then length (efifo s) - length (asked_now s) else length (efifo s),
     \<lambda>s. if me_stage s = Mp_Run then 2 - length (asked_now s) else 0, \<lambda>s. length (locf s)]"

lemma mp_place_running:
  assumes "mp_params x nx n base cap" "mp_running mem x n base outs a b c s"
  shows "mp_place s = a" "unat (jReg s) = b"
proof -
  have k: "mp_asked a c s" "jReg s = of_nat b" "b \<le> n + 1" "a \<le> length x + 1" using assms(2) by (auto simp: mp_running_def)
  have u: "unat (of_nat a :: u32) = a" using assms(1) k(4) small_of_nat [of a] by (simp add: mp_params_def)
  obtain olds where o: "efifo s = olds @ map (\<lambda>k. needle_entry s (epochReg s) (of_nat (a + k))) [0..<c]"
    "\<forall>en \<in> set olds. fst en = epochReg s - 1" "iReg s = of_nat (a + c)" using k(1) by (auto simp: mp_asked_def)
  have "asked_now s = map (\<lambda>k. needle_entry s (epochReg s) (of_nat (a + k))) [0..<c]"
    using o(2) by (auto simp: asked_now_def o(1) filter_map comp_def needle_entry_def)
  then show "mp_place s = a" using o(3) u by (cases c) (auto simp: mp_place_def needle_entry_def upt_rec)
  show "unat (jReg s) = b" using k(2,3) assms(1) by (simp add: mp_params_def)
qed

lemma mp_descends:
  assumes "mp_inv mem cap x nx n base outs s" "mp_rule mem cap room s s'"
  shows "(s', s) \<in> mp_order n"
proof (cases "me_stage s = Mp_Run")
  case False
  with assms(2) show ?thesis by (cases rule: mp_rule.cases) (auto simp: mp_order_def)
next
  case True
  have i: "mp_params x nx n base cap" "mp_loaded x nx s" "haystackLenReg s = of_nat n" "haystackBase s = base"
    using assms(1) by (auto simp: mp_inv_def)
  obtain a b c where r: "mp_running mem x n base outs a b c s" using assms(1) True by (auto simp: mp_inv_def mp_finished_def)
  note pl = mp_place_running [OF i(1) r]
  have fin: "(s', s) \<in> mp_order n" if "mp_finished outs s'" using that True by (auto simp: mp_order_def mp_finished_def)
  have smaller: "(s', s) \<in> mp_order n"
    if "mp_running mem x n base outs a' b' c' s'" "2 * (n + 1 - b') + a' < 2 * (n + 1 - b) + a" for a' b' c'
    using that True mp_place_running [OF i(1) that(1)] pl by (auto simp: mp_order_def mp_running_def)
  from mp_running_step [OF i r assms(2)] consider "mp_finished outs s'"
    | a' b' c' where "mp_running mem x n base outs a' b' c' s'" "2 * (n + 1 - b') + a' < 2 * (n + 1 - b) + a"
    | c' where "mp_running mem x n base outs a b c' s'" by blast
  then show ?thesis
  proof cases
    case 1
    then show ?thesis by (rule fin)
  next
    case 2
    then show ?thesis by (rule smaller)
  next
    case 3
    note pl' = mp_place_running [OF i(1) 3]
    have run: "me_stage s' = Mp_Run" using 3 by (simp add: mp_running_def)
    from assms(2) show ?thesis
    proof (cases rule: mp_rule.cases)
      case haystackReq
      have "mp_fed mem n base b s" using r by (simp add: mp_running_def)
      then obtain q where "haystackOff s = of_nat (8 * q)" "8 * q < n + 8" by (rule mp_fedE)
      moreover have n: "n + 8 < 2 ^ 32" using i(1) by (simp add: mp_params_def)
      ultimately have o1: "unat (haystackOff s) = 8 * q" "haystackOff s + 8 = of_nat (8 * Suc q)" using small_of_nat [of "8 * q"] by simp_all
      have q: "8 * q < n" using haystackReq(3) o1(1) i(3) n by (simp add: word_less_nat_alt)
      then have "unat (haystackOff s + 8) = 8 * Suc q" unfolding o1(2) using n by (intro small_of_nat) simp
      with haystackReq q o1(1) pl pl' run show ?thesis by (auto simp: mp_order_def)
    next
      case matchNeedleReq
      have "length (filter (\<lambda>en. fst en = epochReg s) (efifo s)) \<le> length (efifo s)" by (rule length_filter_le)
      with matchNeedleReq(3) have "length (filter (\<lambda>en. fst en = epochReg s) (efifo s)) < 2" by linarith
      with matchNeedleReq pl pl' run show ?thesis by (auto simp: mp_order_def asked_now_def needle_entry_def)
    next
      case (matchNeedleResp epoch j ans es act)
      then show ?thesis using mp_decision [OF i r, of j ans es act] smaller fin by blast
    next
      case (matchNeedleOld epoch j ans es)
      have "length es - length (filter (\<lambda>en. fst en = epochReg s) es) < Suc (length es) - length (filter (\<lambda>en. fst en = epochReg s) es)"
        using length_filter_le [of "\<lambda>en. fst en = epochReg s" es] by linarith
      with matchNeedleOld pl pl' run show ?thesis by (auto simp: mp_order_def asked_now_def)
    qed (use pl pl' run True in \<open>auto simp: mp_order_def asked_now_def\<close>)
  qed
qed

text \<open>Some rule can fire until the search has ended and the fifos are drained.\<close>

definition mp_drained :: "mp_engine \<Rightarrow> bool" where
  "mp_drained s \<longleftrightarrow> search_ready s \<and> hreqs s = [] \<and> locf s = []"

lemma mp_progress_running:
  assumes "mp_params x nx n base cap" "mp_loaded x nx s" "haystackLenReg s = of_nat n" "mp_running mem x n base outs a b c s"
  shows "\<exists>s'. mp_rule mem cap room s s'"
proof (cases "locf s")
  case (Cons loc ls)
  then show ?thesis by (blast intro: mp_rule.resr)
next
  case loc: Nil
  have run: "me_stage s = Mp_Run" "b \<le> n + 1" "jReg s = of_nat b" "1 \<le> b" and fed: "mp_fed mem n base b s" using assms(4) by (auto simp: mp_running_def)
  have cap: "1 \<le> cap" "n + 8 < 2 ^ 32" using assms(1) by (auto simp: mp_params_def)
  show ?thesis
  proof (cases "efifo s")
    case Nil
    then show ?thesis using mp_rule.matchNeedleReq [OF run(1), of mem cap room] by (simp; blast)
  next
    case (Cons en es)
    obtain e i ans where en: "en = (e, i, ans)" by (cases en)
    show ?thesis
    proof (cases "e = epochReg s")
      case False
      then show ?thesis using mp_rule.matchNeedleOld [OF run(1)] Cons en by blast
    next
      case True
      show ?thesis
      proof (cases "mp_decide s (i, ans)")
        case (Some act)
        then show ?thesis using mp_rule.matchNeedleResp [OF run(1)] Cons en True by blast
      next
        case None
        then have hb: "hbuf s = []" and j: "\<not> jReg s > haystackLenReg s"
          using loc by (auto simp: mp_decide_def split: if_splits list.splits prod.splits)
        then have b: "b \<le> n" using run assms(3) cap(2) by (simp add: word_less_nat_alt)
        from fed obtain olds w q where f: "hreqs s = olds @ map (\<lambda>q. (base + of_nat (8 * q), mpTag s)) [w..<q]"
          "haystackOff s = of_nat (8 * q)" "w \<le> q" "8 * q < n + 8" "b \<le> 8 * w + 1" "hbuf s = map (hay mem base) [b - 1..<8 * w]" by (rule mp_fedE)
        show ?thesis
        proof (cases "hreqs s")
          case (Cons rq rs)
          then show ?thesis using mp_rule.haystackResp mp_rule.haystackOld hb by (cases rq) (metis list.size(3) zero_le)
        next
          case Nil
          then have "w = q" "8 * w \<le> b - 1" using f(1,3,6) hb by auto
          then have "8 * q < n" using b run(4) by linarith
          then have "haystackOff s < haystackLenReg s" using f(2,4) assms(3) cap(2) small_of_nat [of "8 * q"]
            by (simp add: word_less_nat_alt del: of_nat_mult)
          then show ?thesis using mp_rule.haystackReq [OF run(1), of cap mem room] Nil cap(1) by auto
        qed
      qed
    qed
  qed
qed

lemma mp_progress:
  assumes "mp_inv mem cap x nx n base outs s" "\<not> mp_drained s"
  shows "\<exists>s'. mp_rule mem cap room s s'"
proof (cases "me_stage s = Mp_Run")
  case True
  then show ?thesis using assms(1) mp_progress_running by (auto simp: mp_inv_def mp_finished_def)
next
  case False
  then have st: "me_stage s = Mp_Ready" "\<forall>rq \<in> set (hreqs s). snd rq = mpTag s"
    using assms(1) by (auto simp: mp_inv_def mp_running_def mp_finished_def)
  then consider "efifo s \<noteq> []" | "hbuf s \<noteq> []" | rq rs where "hreqs s = rq # rs" "hbuf s = []" | loc ls where "locf s = loc # ls"
    using assms(2) by (cases "hbuf s = []"; cases "hreqs s"; cases "locf s") (auto simp: mp_drained_def search_ready_def)
  then show ?thesis
  proof cases
    case 3
    then have "hreqs s = (fst rq, snd rq) # rs" "snd rq = mpTag s" "length (hbuf s) \<le> room" using st(2) by (cases rq; simp)+
    then show ?thesis by (blast intro: mp_rule.haystackResp)
  qed (use False mp_rule.bramDrain mp_rule.haystackDrain mp_rule.resr in blast)+
qed

interpretation mp_sched: rule_system "mp_rule mem cap room" "mp_inv mem cap x nx n base outs" mp_drained "mp_order n"
proof unfold_locales
  show "wf (mp_order n)" by (simp add: mp_order_def)
qed (fact mp_inv_step mp_descends mp_progress)+

section \<open>A search\<close>

text \<open>An engine that was set up and can take a search; what it still has asked for carries its last tag.\<close>

definition mp_ready :: "string \<Rightarrow> (nat \<Rightarrow> nat) \<Rightarrow> mp_engine \<Rightarrow> bool" where
  "mp_ready x nx s \<longleftrightarrow> mp_loaded x nx s \<and> me_stage s = Mp_Ready \<and> (\<forall>rq \<in> set (hreqs s). snd rq = mpTag s)"

definition mp_results :: "(nat \<Rightarrow> char) \<Rightarrow> string \<Rightarrow> nat \<Rightarrow> u32 \<Rightarrow> u32 list" where
  "mp_results mem x n base =
     map (\<lambda>p. base + of_nat p) (filter (\<lambda>p. p + length x < n) (restart x (map (hay mem base) [0..<n]) 1 1))"

lemma mp_fill_at:
  assumes "k \<le> unat finish"
  shows "mp_fill mem finish br (of_nat k) = mem k"
proof -
  have eq: "(of_nat i :: 10 word) = of_nat j \<longleftrightarrow> i = j" if "i < 1024" "j < 1024" for i j
    using that unat_of_nat_less [of i, where ?'a = 10] unat_of_nat_less [of j, where ?'a = 10] by (auto simp: word_unat_eq_iff)
  have "fold (\<lambda>j m. m(of_nat j := mem j)) [0..<j] br (of_nat k) = (if k < j then mem k else br (of_nat k))" if "j \<le> 1024" "k < 1024" for j
    using that by (induction j) (auto simp: eq less_Suc_eq)
  moreover have "unat finish < 1024" using unat_less [of finish] by simp
  ultimately show ?thesis using assms by (simp add: mp_fill_def del: upt_Suc)
qed

lemma mp_setup_ready:
  assumes "length x < 1024" "\<forall>k < length x. nm k = x ! k" "\<forall>k. 1 \<le> k \<and> k \<le> length x \<longrightarrow> tm k = of_nat (nx k)"
    and "\<forall>rq \<in> set (hreqs s). snd rq = mpTag s"
  shows "mp_ready x nx (mp_setup nm tm (of_nat (length x)) s)"
proof -
  have "unat (ucast (of_nat (length x) :: u32) :: 10 word) = length x"
    using assms(1) by (simp add: unat_ucast_down)
  then show ?thesis using assms by (simp add: mp_ready_def mp_loaded_def mp_setup_def mp_fill_at)
qed

lemma mp_search_inv:
  assumes "mp_params x nx n base cap" "mp_ready x nx s" "search_ready s"
  shows "mp_inv mem cap x nx n base (located s @ locf s @ mp_results mem x n base) (mp_search (of_nat n) base s)"
proof -
  let ?s = "mp_search (of_nat n) base s" and ?ts = "map (hay mem base) [0..<n]"
  have P: "x \<noteq> []" "1 \<le> n" using assms(1) by (auto simp: mp_params_def)
  have "to_come x ?ts 1 1 = hw_restart x ?ts 1 1" using P by (cases x) (auto simp: to_come_def)
  also have "\<dots> = filter (\<lambda>p. p + length x < n) (restart x ?ts 1 1)"
    using P by (subst hw_restart_filter) (cases x; simp)+
  finally have "map (\<lambda>p. base + of_nat p) (to_come x ?ts 1 1) = mp_results mem x n base" by (simp add: mp_results_def)
  moreover have "mp_asked 1 0 ?s" by (auto simp: mp_asked_def mp_search_def)
  moreover have "mp_fed mem n base 1 ?s"
    unfolding mp_fed_def using assms(2,3)
    by (intro exI [of _ "hreqs s"] exI [of _ 0]) (auto simp: mp_search_def mp_ready_def search_ready_def)
  ultimately have "mp_running mem x n base (located s @ locf s @ mp_results mem x n base) 1 1 0 ?s"
    using P by (auto simp: mp_running_def mp_search_def)
  moreover have "mp_loaded x nx ?s" using assms(2) by (simp add: mp_loaded_def mp_ready_def mp_search_def)
  ultimately show ?thesis using assms(1) by (auto simp: mp_inv_def mp_search_def)
qed

lemma mp_results_occur:
  assumes "x \<noteq> []" "r \<in> set (mp_results mem x n base)"
  shows "\<exists>p. r = base + of_nat p \<and> p + length x < n \<and> occurs_at x (map (hay mem base) [0..<n]) p"
  using assms restart_sound [of 1 x "[]" _ "map (hay mem base) [0..<n]"] by (cases x) (auto simp: mp_results_def)

text \<open>
  C12.  A search of the engine ends under every schedule of its rules, however late the memory
  answers and the results are taken: there is no infinite run, and a run that cannot go on has
  delivered exactly the positions at which the reference pass over the text finds the pattern, in order, without the one
  whose last character is the last of the text, and the engine is ready for the next search.
  What it asked for ahead of time and what belongs to an earlier search is discarded.
\<close>

theorem engine_search_ends:
  assumes "mp_params x nx n base cap" "mp_ready x nx s0" "search_ready s0" "s = mp_search (of_nat n) base s0"
  shows "(\<forall>f. f 0 = s \<longrightarrow> (\<exists>k. \<not> mp_rule mem cap room (f k) (f (Suc k)))) \<and>
    (\<exists>s'. (mp_rule mem cap room)\<^sup>*\<^sup>* s s' \<and> search_ready s') \<and>
    (\<forall>s'. (mp_rule mem cap room)\<^sup>*\<^sup>* s s' \<and> (\<nexists>s''. mp_rule mem cap room s' s'') \<longrightarrow>
       search_ready s' \<and> mp_ready x nx s' \<and> located s' = located s0 @ locf s0 @ mp_results mem x n base) \<and>
    (\<forall>r \<in> set (mp_results mem x n base). \<exists>p. r = base + of_nat p \<and> p + length x < n \<and> occurs_at x (map (hay mem base) [0..<n]) p)"
proof (intro conjI allI impI ballI)
  let ?outs = "located s0 @ locf s0 @ mp_results mem x n base"
  have inv: "mp_inv mem cap x nx n base ?outs s" using mp_search_inv [OF assms(1-3)] assms(4) by simp
  show "\<exists>k. \<not> mp_rule mem cap room (f k) (f (Suc k))" if "f 0 = s" for f
    using mp_sched.no_infinite_run [of mem cap x nx n base ?outs f room] inv that by blast
  show "\<exists>s'. (mp_rule mem cap room)\<^sup>*\<^sup>* s s' \<and> search_ready s'"
    using mp_sched.finishes [OF inv, of room] by (auto simp: mp_drained_def)
  fix s' assume r: "(mp_rule mem cap room)\<^sup>*\<^sup>* s s' \<and> (\<nexists>s''. mp_rule mem cap room s' s'')"
  then have d: "mp_drained s'" and i: "mp_inv mem cap x nx n base ?outs s'"
    using mp_sched.stuck_final [OF _ inv, of room s'] mp_sched.inv_reach [OF _ inv, of room s'] by blast+
  then show "search_ready s'" "mp_ready x nx s'" "located s' = ?outs"
    by (auto simp: mp_drained_def search_ready_def mp_ready_def mp_inv_def mp_finished_def mp_running_def)
next
  fix r assume "r \<in> set (mp_results mem x n base)"
  then show "\<exists>p. r = base + of_nat p \<and> p + length x < n \<and> occurs_at x (map (hay mem base) [0..<n]) p"
    using mp_results_occur assms(1) by (auto simp: mp_params_def)
qed

definition sample_engine :: mp_engine where
  "sample_engine = \<lparr>me_stage = Mp_Idle, needleLenReg = 0, haystackLenReg = 0, haystackBase = 0, jReg = 0, iReg = 0, epochReg = 0, mpTag = 0,
     haystackOff = 0, me_needle = \<lambda>_. CHR 0x00, me_next = \<lambda>_. 0, efifo = [], hbuf = [], hreqs = [], locf = [], compf = 0, located = []\<rparr>"

theorem engine_search_ends_witness:
  "\<exists>s'. (mp_rule (cstr ''abcab'') 1 0)\<^sup>*\<^sup>*
      (mp_search 5 0 (mp_setup (cstr ''ab'') (\<lambda>k. of_nat (the (compute_MP_next ''ab'' (\<lambda>_. 0) 2) k)) 2 sample_engine)) s' \<and>
      search_ready s' \<and> mp_results (cstr ''abcab'') ''ab'' 5 0 = [0]"
proof -
  define nx where "nx = the (compute_MP_next ''ab'' (\<lambda>_. 0) 2)"
  define s0 where "s0 = mp_setup (cstr ''ab'') (\<lambda>k. of_nat (nx k)) 2 sample_engine"
  have "fallback_table ''ab'' nx" using mp_table.fallback_table_axioms [of "''ab''" "\<lambda>_. 0"] by (simp add: nx_def numeral_2_eq_2)
  then have p: "mp_params ''ab'' nx 5 0 1" by (simp add: mp_params_def)
  have r: "mp_ready ''ab'' nx s0"
    using mp_setup_ready [of "''ab''" "cstr ''ab''" "\<lambda>k. of_nat (nx k)" nx sample_engine] by (simp add: s0_def sample_engine_def cstr_def numeral_2_eq_2)
  have sr: "search_ready s0" by (simp add: search_ready_def s0_def mp_setup_def sample_engine_def)
  have "map (hay (cstr ''abcab'') 0) [0..<5] = ''abcab''" by (simp add: hay_def cstr_def upt_conv_Cons numeral_eq_Suc)
  then have "mp_results (cstr ''abcab'') ''ab'' 5 0 = [0]" by (simp add: mp_results_def Let_def cstr_def)
  then show ?thesis
    using engine_search_ends [OF p r sr refl, of "cstr ''abcab''" 0] by (auto simp: s0_def nx_def)
qed

end
