(* ===== verification/Strstr.thy ===== *)
theory Strstr
  imports Mp_Engine
begin

text \<open>
  The string search accelerator: \<^verbatim>\<open>examples/strstr/Strstr.bsv\<close>, two engines that share the text between them,
  and the program \<^verbatim>\<open>examples/strstr/teststrstr.cpp\<close> that compares its results with those of \<^verbatim>\<open>mp.h\<close>.
\<close>

section \<open>The accelerator\<close>

text \<open>
  The searches of one engine.  A search is asked for when the engine can take it, and the next one
  when this one is over; results may be taken later.
\<close>

inductive mp_searches :: "(nat \<Rightarrow> char) \<Rightarrow> nat \<Rightarrow> nat \<Rightarrow> u32 \<Rightarrow> u32 \<Rightarrow> nat \<Rightarrow> mp_engine \<Rightarrow> mp_engine \<Rightarrow> bool"
  for mem cap room len base where
  no_more: "(mp_rule mem cap room)\<^sup>*\<^sup>* e e' \<Longrightarrow> mp_searches mem cap room len base 0 e e'"
| one_more: "\<lbrakk>(mp_rule mem cap room)\<^sup>*\<^sup>* e e1; search_ready e1; (mp_rule mem cap room)\<^sup>*\<^sup>* (mp_search len base e1) e2;
    me_stage e2 = Mp_Ready; mp_searches mem cap room len base k e2 e'\<rbrakk> \<Longrightarrow> mp_searches mem cap room len base (Suc k) e e'"

record strstr_hw =
  ss_needleLen :: u32
  ss_engine0 :: mp_engine
  ss_engine1 :: mp_engine

definition strstr_setup :: "(nat \<Rightarrow> char) \<Rightarrow> (nat \<Rightarrow> u32) \<Rightarrow> u32 \<Rightarrow> strstr_hw \<Rightarrow> strstr_hw" where
  "strstr_setup needle_mem next_mem needle_len d =
     d\<lparr>ss_needleLen := needle_len, ss_engine0 := mp_setup needle_mem next_mem needle_len (ss_engine0 d),
       ss_engine1 := mp_setup needle_mem next_mem needle_len (ss_engine1 d)\<rparr>"

text \<open>
  A request to search: each engine gets one half of the text, the first one the length of the pattern
  more, as often as asked for.  The results come in any interleaving; the end is reported when none is
  left.  Without an iteration nothing is ever reported.
\<close>

definition new_results :: "mp_engine \<Rightarrow> mp_engine \<Rightarrow> u32 list" where
  "new_results e e' = drop (length (located e)) (located e')"

inductive strstr_search :: "(nat \<Rightarrow> char) \<Rightarrow> nat \<Rightarrow> nat \<Rightarrow> u32 \<Rightarrow> nat \<Rightarrow> strstr_hw \<Rightarrow> u32 list \<Rightarrow> strstr_hw \<Rightarrow> bool"
  for mem cap room haystack_len where
  search_both: "\<lbrakk>0 < iter_cnt; half = drop_bit 1 haystack_len;
    mp_searches mem cap room (half + ss_needleLen d) 0 iter_cnt (ss_engine0 d) e0; locf e0 = [];
    mp_searches mem cap room half half iter_cnt (ss_engine1 d) e1; locf e1 = [];
    rs \<in> shuffles (new_results (ss_engine0 d) e0) (new_results (ss_engine1 d) e1)\<rbrakk> \<Longrightarrow>
    strstr_search mem cap room haystack_len iter_cnt d (rs @ [- 1]) (d\<lparr>ss_engine0 := e0, ss_engine1 := e1\<rparr>)"

section \<open>The program\<close>

text \<open>The handler of a result: the number of matches and of posts of \<^verbatim>\<open>test_sem\<close>.\<close>

definition searchResult :: "u32 \<Rightarrow> nat \<times> nat \<Rightarrow> nat \<times> nat" where
  "searchResult v = (\<lambda>(hw_match_cnt, posts). if v = - 1 then (hw_match_cnt, posts + 1) else (hw_match_cnt + 1, posts))"

definition assert_tables :: "(nat \<Rightarrow> nat) \<Rightarrow> (nat \<Rightarrow> int) \<Rightarrow> nat \<Rightarrow> bool" where
  "assert_tables mpNext border needle_len \<longleftrightarrow>
     mpNext 1 = 0 \<and> border 1 = 0 \<and> list_all (\<lambda>i. int (mpNext i) = border (i - 1) + 1) [2..<needle_len + 1]"

text \<open>The text in its buffer, with what lies behind it.\<close>

definition text_buffer :: "string \<Rightarrow> (nat \<Rightarrow> char) \<Rightarrow> nat \<Rightarrow> char" where
  "text_buffer t rest k = (if k < length t then t ! k else rest k)"

text \<open>One of the two tests: tables, search in software, search in hardware.  The arrays start with any contents.\<close>

inductive strstr_test :: "nat \<Rightarrow> nat \<Rightarrow> string \<Rightarrow> string \<Rightarrow> nat \<Rightarrow> nat \<times> nat \<times> strstr_hw \<Rightarrow> nat \<times> nat \<times> strstr_hw \<Rightarrow> bool"
  for cap room x t iter_cnt where
  test_passes: "\<lbrakk>compute_borders x bord (length x) = Some border; compute_MP_next x tab (length x) = Some mpNext;
    assert_tables mpNext border (length x); MP x t mpNext (length x) (length t) iter_cnt sw = Some (ps, sw');
    strstr_search (text_buffer t rest) cap room (of_nat (length t)) iter_cnt
      (strstr_setup (cstr x) (\<lambda>k. of_nat (mpNext k)) (of_nat (length x)) d) results d';
    fold searchResult results (hw, 0) = (hw', posts); 0 < posts\<rbrakk> \<Longrightarrow>
    strstr_test cap room x t iter_cnt (sw, hw, d) (sw', hw', d')"

definition simple_needle :: string where "simple_needle = ''ababab''"

definition simple_haystack :: string where
  "simple_haystack = ''acabcabacababacababababababcacabcabacababacabababc''"

definition benchmark_needle :: string where "benchmark_needle = ''I have control'' @ [CHR 0x0A]"

definition BENCHMARK_INPUT_SIZE :: nat where "BENCHMARK_INPUT_SIZE = 16 * 2 ^ 18"

text \<open>\<^verbatim>\<open>main\<close> with the bytes read from \<^verbatim>\<open>/dev/urandom\<close>; its value is the exit status.\<close>

inductive strstr_main :: "nat \<Rightarrow> nat \<Rightarrow> string \<Rightarrow> strstr_hw \<Rightarrow> nat \<Rightarrow> bool" for cap room random where
  main_runs: "\<lbrakk>strstr_test cap room simple_needle simple_haystack 2 (0, 0, d) st; length random = BENCHMARK_INPUT_SIZE;
    strstr_test cap room benchmark_needle random 8 st (sw_match_cnt, hw_match_cnt, d')\<rbrakk> \<Longrightarrow>
    strstr_main cap room random d (of_bool (sw_match_cnt \<noteq> hw_match_cnt))"

section \<open>What the engines deliver\<close>

lemma mp_ready_rule:
  assumes "mp_rule mem cap room e e'" "mp_ready x nx e"
  shows "mp_ready x nx e' \<and> located e' @ locf e' = located e @ locf e"
proof -
  have "mp_finished (located e @ locf e) e" using assms(2) by (simp add: mp_finished_def mp_ready_def)
  from mp_finished_step [OF this assms(1)] mp_rule_static [OF assms(1)] assms(2) show ?thesis
    by (auto simp: mp_ready_def mp_finished_def mp_loaded_def)
qed

lemma mp_ready_rules:
  "(mp_rule mem cap room)\<^sup>*\<^sup>* e e' \<Longrightarrow> mp_ready x nx e \<Longrightarrow> mp_ready x nx e' \<and> located e' @ locf e' = located e @ locf e"
  by (induction rule: rtranclp_induct) (auto dest: mp_ready_rule)

lemma mp_search_done:
  assumes "mp_params x nx n base cap" "mp_ready x nx e" "search_ready e" "(mp_rule mem cap room)\<^sup>*\<^sup>* (mp_search (of_nat n) base e) e'"
    "me_stage e' = Mp_Ready"
  shows "mp_ready x nx e' \<and> located e' @ locf e' = located e @ locf e @ mp_results mem x n base"
  using mp_sched.inv_reach [OF assms(4) mp_search_inv [OF assms(1-3)]] assms(5)
  by (auto simp: mp_inv_def mp_running_def mp_finished_def mp_ready_def)

lemma mp_searches_results:
  assumes "mp_searches mem cap room (of_nat n) base k e e'" "mp_params x nx n base cap" "mp_ready x nx e"
  shows "mp_ready x nx e' \<and> located e' @ locf e' = located e @ locf e @ concat (replicate k (mp_results mem x n base))"
  using assms(1,3)
proof (induction rule: mp_searches.induct)
  case (no_more e e')
  then show ?case using mp_ready_rules by simp
next
  case (one_more e e1 e2 k e')
  have e1: "mp_ready x nx e1" "located e1 @ locf e1 = located e @ locf e" using mp_ready_rules one_more.hyps(1) one_more.prems by blast+
  have e2: "mp_ready x nx e2" "located e2 @ locf e2 = located e1 @ locf e1 @ mp_results mem x n base"
    using mp_search_done [OF assms(2) e1(1) one_more.hyps(2-4)] by blast+
  show ?case using one_more.IH [OF e2(1)] e2(2) e1(2) by (simp add: append_assoc [symmetric] del: append_assoc)
qed

text \<open>From a ready engine every number of searches can be done.\<close>

lemma mp_drain:
  assumes "mp_params x nx n base cap" "mp_inv mem cap x nx n base outs e"
  shows "\<exists>e'. (mp_rule mem cap room)\<^sup>*\<^sup>* e e' \<and> mp_drained e' \<and> mp_ready x nx e' \<and> located e' = outs"
proof -
  obtain e' where e': "(mp_rule mem cap room)\<^sup>*\<^sup>* e e'" "mp_drained e'" using mp_sched.finishes [OF assms(2), of room] by blast
  with mp_sched.inv_reach [OF e'(1) assms(2)] show ?thesis
    by (auto simp: mp_inv_def mp_running_def mp_finished_def mp_ready_def mp_drained_def search_ready_def)
qed

lemma mp_searches_exist:
  assumes "mp_params x nx n base cap" "mp_ready x nx e" "search_ready e"
  shows "\<exists>e'. mp_searches mem cap room (of_nat n) base (Suc k) e e' \<and> mp_drained e'"
  using assms(2,3)
proof (induction k arbitrary: e)
  case 0
  obtain e2 where "(mp_rule mem cap room)\<^sup>*\<^sup>* (mp_search (of_nat n) base e) e2" "mp_drained e2"
    using mp_drain [OF assms(1) mp_search_inv [OF assms(1) 0]] by blast
  then show ?case using 0 by (auto simp: mp_drained_def search_ready_def intro!: mp_searches.intros)
next
  case (Suc k)
  obtain e2 where e2: "(mp_rule mem cap room)\<^sup>*\<^sup>* (mp_search (of_nat n) base e) e2" "mp_drained e2" "mp_ready x nx e2"
    using mp_drain [OF assms(1) mp_search_inv [OF assms(1) Suc.prems]] by blast
  then obtain e' where "mp_searches mem cap room (of_nat n) base (Suc k) e2 e'" "mp_drained e'"
    using Suc.IH [of e2] by (auto simp: mp_drained_def)
  moreover have "me_stage e2 = Mp_Ready" using e2(2) by (simp add: mp_drained_def search_ready_def)
  ultimately show ?case using mp_searches.one_more [OF rtranclp.rtrancl_refl Suc.prems(2) e2(1)] by blast
qed

section \<open>Counting occurrences\<close>

definition occurrences :: "string \<Rightarrow> string \<Rightarrow> nat set" where
  "occurrences x t = {p. occurs_at x t p}"

lemma occurrences_finite: "finite (occurrences x t)"
  by (rule finite_subset [of _ "{..length t}"]) (auto simp: occurrences_def occurs_at_def)

lemma restart_distinct:
  assumes "x \<noteq> []"
  shows "distinct (restart x t 1 1)"
proof -
  have "sorted_wrt (\<lambda>p q. p + length x \<le> q) (restart x t 1 1)" using restart_spaced [of 1 x 1 t] assms by (cases x) auto
  then have "sorted_wrt (<) (restart x t 1 1)" by (rule sorted_wrt_mono_rel [rotated]) (use assms in \<open>cases x; auto\<close>)
  then show ?thesis by (simp add: strict_sorted_iff)
qed

text \<open>When the first character of the pattern does not come back in it, a pass finds everything.\<close>

lemma restart_all:
  assumes "x \<noteq> []" "x ! 0 \<notin> set (tl x)"
  shows "set (restart x t 1 1) = occurrences x t"
  using assms restart_sound [of 1 x "[]" _ t] restart_complete [of 1 x "[]" _ t] by (cases x) (auto simp: occurrences_def)

lemma restart_count:
  assumes "x \<noteq> []" "x ! 0 \<notin> set (tl x)"
  shows "length (filter P (restart x t 1 1)) = card {p \<in> occurrences x t. P p}"
proof -
  have "distinct (filter P (restart x t 1 1))" using restart_distinct [OF assms(1)] by simp
  then show ?thesis using distinct_card [of "filter P (restart x t 1 1)"] restart_all [OF assms, of t] by simp
qed

lemma occurs_take: "occurs_at x (take k t) p \<longleftrightarrow> occurs_at x t p \<and> p + length x \<le> k"
  by (auto simp: occurs_at_def)

lemma occurs_drop: "k \<le> length t \<Longrightarrow> occurs_at x (drop k t) p \<longleftrightarrow> occurs_at x t (k + p)"
  by (auto simp: occurs_at_def add.assoc)

text \<open>The two halves together miss only an occurrence at the very end.\<close>

lemma halves_count:
  assumes "x \<noteq> []" "x ! 0 \<notin> set (tl x)" "length t = 2 * h" "length x \<le> h"
  shows "length (filter (\<lambda>p. p + length x < h + length x) (restart x (take (h + length x) t) 1 1)) +
    length (filter (\<lambda>p. p + length x < h) (restart x (drop h t) 1 1)) = card {p \<in> occurrences x t. p + length x < length t}"
proof -
  have a: "{p \<in> occurrences x (take (h + length x) t). p + length x < h + length x} = {p \<in> occurrences x t. p < h}"
    by (auto simp: occurrences_def occurs_take)
  have b: "(\<lambda>p. h + p) ` {p \<in> occurrences x (drop h t). p + length x < h} = {p \<in> occurrences x t. h \<le> p \<and> p + length x < length t}"
    using assms(3) by (auto simp: occurrences_def occurs_drop image_iff) (metis add_less_cancel_left add.assoc le_add_diff_inverse mult_2)
  have "inj_on (\<lambda>p. h + p) A" for A by simp
  then have "card {p \<in> occurrences x (drop h t). p + length x < h} = card {p \<in> occurrences x t. h \<le> p \<and> p + length x < length t}"
    unfolding b [symmetric] by (simp add: card_image)
  moreover have "{p \<in> occurrences x t. p + length x < length t} =
      {p \<in> occurrences x t. p < h} \<union> {p \<in> occurrences x t. h \<le> p \<and> p + length x < length t}"
    using assms(3,4) by auto
  moreover have "card ({p \<in> occurrences x t. p < h} \<union> {p \<in> occurrences x t. h \<le> p \<and> p + length x < length t}) =
      card {p \<in> occurrences x t. p < h} + card {p \<in> occurrences x t. h \<le> p \<and> p + length x < length t}"
    using occurrences_finite [of x t] by (intro card_Un_disjoint) auto
  ultimately show ?thesis unfolding restart_count [OF assms(1,2)] a by simp
qed

lemma count_without_end:
  assumes "length x \<le> length t"
  shows "card (occurrences x t) =
    card {p \<in> occurrences x t. p + length x < length t} + of_bool (drop (length t - length x) t = x)"
proof -
  let ?A = "{p \<in> occurrences x t. p + length x < length t}" and ?e = "length t - length x"
  have e: "drop ?e t = x \<longleftrightarrow> occurs_at x t ?e"
    using assms by (auto simp: occurs_at_def list_eq_iff_nth_eq)
  have "p + length x < length t \<or> p = ?e" if "occurs_at x t p" for p using that by (auto simp: occurs_at_def)
  then have u: "occurrences x t = (if occurs_at x t ?e then insert ?e ?A else ?A)" by (auto simp: occurrences_def)
  have "?e \<notin> ?A" using assms by auto
  moreover have "finite ?A" using occurrences_finite [of x t] by simp
  ultimately have "card (if occurs_at x t ?e then insert ?e ?A else ?A) = card ?A + of_bool (occurs_at x t ?e)" by simp
  then show ?thesis unfolding e u [symmetric] .
qed

section \<open>The tests\<close>

text \<open>Engines whose results were all taken, and engines with nothing left in their fifos.\<close>

definition engines_quiet :: "strstr_hw \<Rightarrow> bool" where
  "engines_quiet d \<longleftrightarrow> (\<forall>e \<in> {ss_engine0 d, ss_engine1 d}. locf e = [] \<and> (\<forall>rq \<in> set (hreqs e). snd rq = mpTag e))"

definition engines_empty :: "strstr_hw \<Rightarrow> bool" where
  "engines_empty d \<longleftrightarrow> (\<forall>e \<in> {ss_engine0 d, ss_engine1 d}. efifo e = [] \<and> hbuf e = [] \<and> hreqs e = [] \<and> locf e = [])"

text \<open>The texts of the two engines.\<close>

lemma first_text:
  assumes "n \<le> length t"
  shows "map (hay (text_buffer t rest) 0) [0..<n] = take n t"
  using assms by (intro nth_equalityI) (auto simp: hay_def text_buffer_def)

lemma second_text:
  assumes "length t = 2 * h" "2 * h < 2 ^ 32"
  shows "map (hay (text_buffer t rest) (of_nat h)) [0..<h] = drop h t"
  using assms by (intro nth_equalityI) (auto simp: hay_def text_buffer_def)

definition hw_count :: "string \<Rightarrow> string \<Rightarrow> nat \<Rightarrow> nat" where
  "hw_count x t h = length (filter (\<lambda>p. p + length x < h + length x) (restart x (take (h + length x) t) 1 1)) +
     length (filter (\<lambda>p. p + length x < h) (restart x (drop h t) 1 1))"

text \<open>The tables agree, whatever the arrays held.\<close>

lemma tables_computed:
  assumes "x \<noteq> []"
  shows "\<exists>mpNext border. compute_MP_next x tab (length x) = Some mpNext \<and> compute_borders x bord (length x) = Some border \<and>
    assert_tables mpNext border (length x) \<and> fallback_table x mpNext"
proof -
  obtain nx border where t: "compute_MP_next x tab (length x) = Some nx" "compute_borders x bord (length x) = Some border"
    "same_tables nx border (length x + 1)" using tables_agree [of x tab "length x" bord] by blast
  have f: "fallback_table x nx" using mp_table.fallback_table_axioms [of x tab] t(1) by simp
  have "nx 1 = 0" "nx 2 = 1" using fallback_table.first_entry [OF f] fallback_table.falls_back [OF f, of 2] assms by (cases x; auto)+
  moreover have "border 1 = int (nx 2) - 1" using t(3) assms by (cases x) (auto simp: same_tables_def)
  ultimately have "assert_tables nx border (length x)"
    using t(3) by (auto simp: assert_tables_def same_tables_def list_all_iff)
  with t f show ?thesis by blast
qed

lemma results_counted:
  assumes "\<forall>r \<in> set rs. r \<noteq> - 1"
  shows "fold searchResult (rs @ [- 1]) (hw, 0) = (hw + length rs, 1)"
proof -
  have "fold searchResult rs (hw, p) = (hw + length rs, p)" for p
    using assms by (induction rs arbitrary: hw) (auto simp: searchResult_def)
  then show ?thesis by (simp add: searchResult_def)
qed

lemma mp_results_small:
  assumes "x \<noteq> []" "unat base + n < 2 ^ 32 - 1" "r \<in> set (mp_results mem x n base)"
  shows "r \<noteq> - 1"
proof -
  obtain p where p: "r = base + of_nat p" "p + length x < n" using mp_results_occur [OF assms(1,3)] by blast
  then have "r = of_nat (unat base + p)" by simp
  then have "unat r = unat base + p" using assms(2) p(2) small_of_nat [of "unat base + p"] by simp
  moreover have "unat (- 1 :: u32) = 2 ^ 32 - 1" by (simp add: unsigned_minus_1_eq_mask mask_eq_exp_minus_1)
  ultimately show ?thesis using assms(2) p(2) by auto
qed

lemma half_word: "2 * h < 2 ^ 32 \<Longrightarrow> drop_bit 1 (of_nat (2 * h) :: u32) = of_nat h"
proof (rule word_eq_of_unat)
  assume "2 * h < 2 ^ 32"
  then show "unat (drop_bit 1 (of_nat (2 * h) :: u32)) = h"
    using small_of_nat [of "2 * h"] unfolding unat_drop_bit_div by (simp del: of_nat_mult)
qed

lemma append_shuffles: "xs @ ys \<in> shuffles xs ys"
  by (induction xs) (auto intro: Cons_in_shuffles_leftI)

text \<open>What the two engines deliver in a test.\<close>

lemma both_deliver:
  assumes "x \<noteq> []" "length x < 1024" "length x \<le> h" "length t = 2 * h" "2 * h + length x + 8 < 2 ^ 31" "1 \<le> cap"
    and "fallback_table x nx" "mp_ready x nx (ss_engine0 d)" "mp_ready x nx (ss_engine1 d)" "ss_needleLen d = of_nat (length x)"
    and "locf (ss_engine0 d) = []" "locf (ss_engine1 d) = []"
    and "strstr_search (text_buffer t rest) cap room (of_nat (length t)) k d results d'"
  shows "fold searchResult results (hw, 0) = (hw + k * hw_count x t h, 1)"
    "mp_ready x nx (ss_engine0 d')" "mp_ready x nx (ss_engine1 d')" "locf (ss_engine0 d') = []" "locf (ss_engine1 d') = []"
proof -
  let ?mem = "text_buffer t rest" and ?m = "length x"
  have half: "drop_bit 1 (of_nat (length t) :: u32) = of_nat h" using assms(4,5) half_word [of h] by (simp del: of_nat_mult)
  from assms(13) obtain e0 e1 rs where s: "results = rs @ [- 1]" "d' = d\<lparr>ss_engine0 := e0, ss_engine1 := e1\<rparr>"
    "mp_searches ?mem cap room (of_nat (h + ?m)) 0 k (ss_engine0 d) e0" "locf e0 = []"
    "mp_searches ?mem cap room (of_nat h) (of_nat h) k (ss_engine1 d) e1" "locf e1 = []"
    "rs \<in> shuffles (new_results (ss_engine0 d) e0) (new_results (ss_engine1 d) e1)"
    by (cases rule: strstr_search.cases) (simp add: half [unfolded One_nat_def] assms(10))
  have h: "unat (of_nat h :: u32) = h" using assms(4,5) by simp
  have p: "mp_params x nx (h + ?m) 0 cap" "mp_params x nx h (of_nat h) cap"
    using assms(1-7) h by (cases x; simp add: mp_params_def)+
  note r0 = mp_searches_results [OF s(3) p(1) assms(8)] and r1 = mp_searches_results [OF s(5) p(2) assms(9)]
  let ?l0 = "mp_results ?mem x (h + ?m) 0" and ?l1 = "mp_results ?mem x h (of_nat h)"
  have n: "new_results (ss_engine0 d) e0 = concat (replicate k ?l0)" "new_results (ss_engine1 d) e1 = concat (replicate k ?l1)"
    using r0 r1 s(4,6) assms(11,12) by (simp_all add: new_results_def)
  have "length ?l0 + length ?l1 = hw_count x t h"
    using first_text [of "h + ?m" t rest] second_text [OF assms(4), of rest] assms(3,4,5)
    by (simp add: mp_results_def hw_count_def)
  moreover have "length (concat (replicate k l)) = k * length l" for l :: "u32 list" by (induction k) simp_all
  ultimately have len: "length rs = k * hw_count x t h"
    using length_shuffles [OF s(7)] n by (simp add: add_mult_distrib2 [symmetric])
  have "set rs \<subseteq> set ?l0 \<union> set ?l1" using set_shuffles [OF s(7)] n by auto
  then have "\<forall>r \<in> set rs. r \<noteq> - 1"
    using mp_results_small [OF assms(1), of 0 "h + ?m"] mp_results_small [OF assms(1), of "of_nat h" h] h assms(3,5) by fastforce
  then show "fold searchResult results (hw, 0) = (hw + k * hw_count x t h, 1)" unfolding s(1) using results_counted len by simp
  show "mp_ready x nx (ss_engine0 d')" "mp_ready x nx (ss_engine1 d')" "locf (ss_engine0 d') = []" "locf (ss_engine1 d') = []"
    using r0 r1 s(2,4,6) by simp_all
qed

text \<open>A text a test can be made with: two halves that hold the pattern.\<close>

definition test_fits :: "nat \<Rightarrow> string \<Rightarrow> string \<Rightarrow> nat \<Rightarrow> bool" where
  "test_fits cap x t h \<longleftrightarrow> x \<noteq> [] \<and> length x < 1024 \<and> length x \<le> h \<and> length t = 2 * h \<and> 2 * h + length x + 8 < 2 ^ 31 \<and> 1 \<le> cap"

lemma setup_ready:
  assumes "test_fits cap x t h" "engines_quiet d"
  shows "mp_ready x nx (ss_engine0 (strstr_setup (cstr x) (\<lambda>k. of_nat (nx k)) (of_nat (length x)) d))"
    "mp_ready x nx (ss_engine1 (strstr_setup (cstr x) (\<lambda>k. of_nat (nx k)) (of_nat (length x)) d))"
  using assms mp_setup_ready [of x "cstr x" "\<lambda>k. of_nat (nx k)" nx "ss_engine0 d"]
    mp_setup_ready [of x "cstr x" "\<lambda>k. of_nat (nx k)" nx "ss_engine1 d"]
  by (auto simp: strstr_setup_def test_fits_def engines_quiet_def cstr_def)

lemma setup_fields:
  "locf (ss_engine0 (strstr_setup nm tm l d)) = locf (ss_engine0 d)" "locf (ss_engine1 (strstr_setup nm tm l d)) = locf (ss_engine1 d)"
  "ss_needleLen (strstr_setup nm tm l d) = l"
  by (simp_all add: strstr_setup_def mp_setup_def)

lemma test_counts:
  assumes "test_fits cap x t h" "engines_quiet d" "strstr_test cap room x t k (sw, hw, d) (sw', hw', d')"
  shows "sw' = sw + k * length (restart x t 1 1)" "hw' = hw + k * hw_count x t h" "engines_quiet d'"
proof -
  from assms(3) obtain bord border tab mpNext ps rest results posts where t:
    "compute_MP_next x tab (length x) = Some mpNext" "MP x t mpNext (length x) (length t) k sw = Some (ps, sw')"
    "strstr_search (text_buffer t rest) cap room (of_nat (length t)) k
       (strstr_setup (cstr x) (\<lambda>k. of_nat (mpNext k)) (of_nat (length x)) d) results d'"
    "fold searchResult results (hw, 0) = (hw', posts)"
    by (cases rule: strstr_test.cases) blast
  have x: "x \<noteq> []" "length x < 1024" "length x \<le> h" "length t = 2 * h" "2 * h + length x + 8 < 2 ^ 31" "1 \<le> cap"
    using assms(1) by (simp_all add: test_fits_def)
  have f: "fallback_table x mpNext" using mp_table.fallback_table_axioms [of x tab] t(1) by simp
  show "sw' = sw + k * length (restart x t 1 1)"
    using mp_table.MP_passes [OF x(1), where tab = tab and t = t and k = k and n = sw] t(1,2) by simp
  have l: "locf (ss_engine0 d) = []" "locf (ss_engine1 d) = []" using assms(2) by (simp_all add: engines_quiet_def)
  note b = both_deliver [OF x f setup_ready [OF assms(1,2)] setup_fields(3) _ _ t(3), unfolded setup_fields, OF l]
  show "hw' = hw + k * hw_count x t h" using b(1) [of hw] t(4) by simp
  show "engines_quiet d'" using b(2-) by (auto simp: engines_quiet_def mp_ready_def)
qed

lemma test_exists:
  assumes "test_fits cap x t h" "engines_empty d" "0 < k"
  shows "\<exists>sw' hw' d'. strstr_test cap room x t k (sw, hw, d) (sw', hw', d') \<and> engines_empty d'"
proof -
  have x: "x \<noteq> []" "length x < 1024" "length x \<le> h" "length t = 2 * h" "2 * h + length x + 8 < 2 ^ 31" "1 \<le> cap"
    using assms(1) by (simp_all add: test_fits_def)
  have q: "engines_quiet d" using assms(2) by (auto simp: engines_empty_def engines_quiet_def)
  obtain mpNext border where t: "compute_MP_next x (\<lambda>_. 0) (length x) = Some mpNext" "compute_borders x (\<lambda>_. 0) (length x) = Some border"
    "assert_tables mpNext border (length x)" "fallback_table x mpNext" using tables_computed [OF x(1)] by blast
  let ?d = "strstr_setup (cstr x) (\<lambda>k. of_nat (mpNext k)) (of_nat (length x)) d" and ?mem = "text_buffer t (\<lambda>_. CHR 0x00)"
  note rd = setup_ready [OF assms(1) q, of mpNext]
  have sr: "search_ready (ss_engine0 ?d)" "search_ready (ss_engine1 ?d)"
    using assms(2) by (simp_all add: search_ready_def strstr_setup_def mp_setup_def engines_empty_def)
  have h: "unat (of_nat h :: u32) = h" "drop_bit 1 (of_nat (length t) :: u32) = of_nat h"
    using x(4,5) half_word [of h] by (simp, simp del: of_nat_mult)
  have p: "mp_params x mpNext (h + length x) 0 cap" "mp_params x mpNext h (of_nat h) cap"
    using x t(4) h by (cases x; simp add: mp_params_def)+
  obtain k' where k: "k = Suc k'" using assms(3) by (cases k) auto
  obtain e0 where e0: "mp_searches ?mem cap room (of_nat (h + length x)) 0 k (ss_engine0 ?d) e0" "mp_drained e0"
    using mp_searches_exist [OF p(1) rd(1) sr(1)] k by blast
  obtain e1 where e1: "mp_searches ?mem cap room (of_nat h) (of_nat h) k (ss_engine1 ?d) e1" "mp_drained e1"
    using mp_searches_exist [OF p(2) rd(2) sr(2)] k by blast
  let ?rs = "new_results (ss_engine0 ?d) e0 @ new_results (ss_engine1 ?d) e1"
  have "?rs \<in> shuffles (new_results (ss_engine0 ?d) e0) (new_results (ss_engine1 ?d) e1)" by (rule append_shuffles)
  then have s: "strstr_search ?mem cap room (of_nat (length t)) k ?d (?rs @ [- 1]) (?d\<lparr>ss_engine0 := e0, ss_engine1 := e1\<rparr>)"
    using e0 e1 assms(3) h(2) by (intro strstr_search.search_both [where half = "of_nat h"]) (auto simp: mp_drained_def setup_fields)
  obtain ps sw' where "MP x t mpNext (length x) (length t) k sw = Some (ps, sw')"
    using mp_table.MP_passes [OF x(1), where tab = "\<lambda>_. 0" and t = t and k = k and n = sw] t(1) by simp
  moreover have "locf (ss_engine0 d) = []" "locf (ss_engine1 d) = []" using assms(2) by (simp_all add: engines_empty_def)
  note both_deliver(1) [OF x t(4) rd setup_fields(3) _ _ s, unfolded setup_fields, OF this]
  ultimately have "strstr_test cap room x t k (sw, hw, d) (sw', hw + k * hw_count x t h, ?d\<lparr>ss_engine0 := e0, ss_engine1 := e1\<rparr>)"
    using t s by (intro strstr_test.test_passes) auto
  moreover have "engines_empty (?d\<lparr>ss_engine0 := e0, ss_engine1 := e1\<rparr>)"
    using e0(2) e1(2) by (auto simp: engines_empty_def mp_drained_def search_ready_def)
  ultimately show ?thesis by blast
qed

section \<open>Properties\<close>

lemma simple_counts:
  "length (restart simple_needle simple_haystack 1 1) = 3" "hw_count simple_needle simple_haystack 25 = 3"
  by (simp_all add: simple_needle_def simple_haystack_def hw_count_def Let_def cstr_def)

lemma benchmark_counts:
  assumes "length t = 2 * h" "15 \<le> h"
  shows "length (restart benchmark_needle t 1 1) =
    hw_count benchmark_needle t h + of_bool (drop (length t - 15) t = benchmark_needle)"
proof -
  have n: "benchmark_needle \<noteq> []" "benchmark_needle ! 0 \<notin> set (tl benchmark_needle)" "length benchmark_needle = 15"
    by (simp_all add: benchmark_needle_def)
  have "length (restart benchmark_needle t 1 1) = card (occurrences benchmark_needle t)"
    using restart_count [OF n(1,2), of "\<lambda>_. True" t] by simp
  then show ?thesis
    using count_without_end [of benchmark_needle t] halves_count [OF n(1,2) assms(1)] assms n(3) by (simp add: hw_count_def)
qed



end
