(* ===== verification/Mem_Engine.thy ===== *)
theory Mem_Engine
  imports Prelude
begin

text \<open>
  The engines with which a design reads and writes buffers: \<^verbatim>\<open>lib/bsv/MemreadEngine.bsv\<close> and
  \<^verbatim>\<open>lib/bsv/MemwriteEngine.bsv\<close> with one server and a bus of 64 bits.  A command asks for a part of an object; the
  engine cuts it into bursts, which it asks the memory for one after the other when its buffer has
  room or data for a whole burst, and reports the end of each command.

  Fifos that follow each other are one, since each only delays: \<^verbatim>\<open>cmds_in\<close> and \<^verbatim>\<open>cmdBuf\<close>, \<^verbatim>\<open>read_data\<close> and the
  buffer behind it, the buffer of data to write and \<^verbatim>\<open>mkBurstFunnel\<close>, which for one server keeps the order.  The rules
  \<^verbatim>\<open>load_ctxt_a\<close> to \<^verbatim>\<open>load_ctxt_c\<close> are one, since only the last has an effect and the counter it was decided on can only
  have risen.
\<close>

section \<open>Commands, words and the part both engines have\<close>

text \<open>A beat of 64 bits is two words, the lower one first; an address is an object and an offset in bytes.\<close>

type_synonym beat = "u32 \<times> u32"
type_synonym obj_addr = "u32 \<times> nat"

record mem_cmd =
  cmd_pointer :: u32
  cmd_base :: "40 word"
  cmd_burstLen :: u8
  cmd_len :: u32

record loader =
  ld_outs0 :: nat
  ld_cmds :: "mem_cmd list"
  ld_buffCap :: nat
  ld_loadf :: "mem_cmd list"
  ld_workf :: "(u8 \<times> bool) list"
  ld_respCnt :: u8
  ld_asked :: "obj_addr list"
  ld_outf :: nat

definition last_burst :: "mem_cmd \<Rightarrow> bool" where
  "last_burst c \<longleftrightarrow> cmd_len c \<le> ucast (cmd_burstLen c)"

text \<open>A command is accepted while fewer than the depth of the queue are unanswered.\<close>

definition ld_put :: "nat \<Rightarrow> mem_cmd \<Rightarrow> loader \<Rightarrow> loader option" where
  "ld_put depth c l =
     (if ld_outs0 l < depth then Some (l\<lparr>ld_outs0 := ld_outs0 l + 1, ld_cmds := ld_cmds l @ [c]\<rparr>) else None)"

definition load_ctxt :: "loader \<Rightarrow> loader option" where
  "load_ctxt l =
     (case ld_cmds l of
        [] \<Rightarrow> None
      | c # cs \<Rightarrow>
          if ld_buffCap l \<ge> unat (drop_bit 3 (cmd_burstLen c)) \<and> ld_loadf l = []
          then Some (l\<lparr>ld_buffCap := ld_buffCap l - unat (drop_bit 3 (cmd_burstLen c)), ld_loadf := [c],
                 ld_cmds := (if last_burst c then cs
                   else c\<lparr>cmd_base := cmd_base c + ucast (cmd_burstLen c), cmd_len := cmd_len c - ucast (cmd_burstLen c)\<rparr> # cs)\<rparr>)
          else None)"

text \<open>The memory takes a request for a burst, for which it will want or give beat after beat.\<close>

definition object_request :: "loader \<Rightarrow> loader option" where
  "object_request l =
     (case ld_loadf l of
        [] \<Rightarrow> None
      | c # cs \<Rightarrow>
          if length (ld_workf l) < 32
          then let bl = (if last_burst c then ucast (cmd_len c) else cmd_burstLen c)
               in Some (l\<lparr>ld_loadf := cs, ld_workf := ld_workf l @ [(drop_bit 3 bl, last_burst c)],
                      ld_asked := ld_asked l @ map (\<lambda>k. (cmd_pointer c, unat (cmd_base c) + 8 * k)) [0..<unat bl div 8]\<rparr>)
          else None)"

text \<open>
  One beat passes between memory and engine: its address, and for the last one of a burst whether the
  burst is the last of its command.
\<close>

definition ld_beat :: "loader \<Rightarrow> (obj_addr \<times> bool option \<times> loader) option" where
  "ld_beat l =
     (case (ld_asked l, ld_workf l) of
        (a # as, (rc, lst) # ws) \<Rightarrow>
          let new_respCnt = ld_respCnt l + 1
          in if new_respCnt = rc then Some (a, Some lst, l\<lparr>ld_asked := as, ld_workf := ws, ld_respCnt := 0\<rparr>)
             else Some (a, None, l\<lparr>ld_asked := as, ld_respCnt := new_respCnt\<rparr>)
      | _ \<Rightarrow> None)"

definition ld_response :: "loader \<Rightarrow> loader option" where
  "ld_response l =
     (if 0 < ld_outf l then Some (l\<lparr>ld_outf := ld_outf l - 1, ld_outs0 := ld_outs0 l - 1\<rparr>) else None)"

section \<open>The read engine\<close>

record read_engine =
  re_loader :: loader
  re_data :: "(beat \<times> bool) list"

text \<open>\<^verbatim>\<open>readData.put\<close>, with the beat the memory has at the address.\<close>

definition re_readData :: "(obj_addr \<Rightarrow> beat) \<Rightarrow> read_engine \<Rightarrow> read_engine option" where
  "re_readData mem e =
     (case ld_beat (re_loader e) of
        None \<Rightarrow> None
      | Some (a, fl, l) \<Rightarrow> Some (e\<lparr>re_loader := l, re_data := re_data e @ [(mem a, fl = Some True)]\<rparr>))"

text \<open>The design takes a beat; the last one of a command needs room for the response.\<close>

definition re_deq :: "read_engine \<Rightarrow> (beat \<times> read_engine) option" where
  "re_deq e =
     (case re_data e of
        [] \<Rightarrow> None
      | (v, lst) # ds \<Rightarrow>
          let l = re_loader e
          in if lst \<and> ld_outf l \<noteq> 0 then None
             else Some (v, e\<lparr>re_data := ds, re_loader := l\<lparr>ld_buffCap := ld_buffCap l + 1, ld_outf := ld_outf l + of_bool lst\<rparr>\<rparr>))"

inductive re_rule :: "(obj_addr \<Rightarrow> beat) \<Rightarrow> read_engine \<Rightarrow> read_engine \<Rightarrow> bool" for mem where
  re_load: "load_ctxt (re_loader e) = Some l \<Longrightarrow> re_rule mem e (e\<lparr>re_loader := l\<rparr>)"
| re_request: "object_request (re_loader e) = Some l \<Longrightarrow> re_rule mem e (e\<lparr>re_loader := l\<rparr>)"
| re_answer: "re_readData mem e = Some e' \<Longrightarrow> re_rule mem e e'"

definition re_put :: "nat \<Rightarrow> mem_cmd \<Rightarrow> read_engine \<Rightarrow> read_engine option" where
  "re_put depth c e = map_option (\<lambda>l. e\<lparr>re_loader := l\<rparr>) (ld_put depth c (re_loader e))"

definition re_response :: "read_engine \<Rightarrow> read_engine option" where
  "re_response e = map_option (\<lambda>l. e\<lparr>re_loader := l\<rparr>) (ld_response (re_loader e))"

text \<open>The engine after reset, with a buffer of 256 bytes.\<close>

definition read_engine_reset :: read_engine where
  "read_engine_reset = \<lparr>re_loader = \<lparr>ld_outs0 = 0, ld_cmds = [], ld_buffCap = 256 div 8, ld_loadf = [], ld_workf = [], ld_respCnt = 0,
     ld_asked = [], ld_outf = 0\<rparr>, re_data = []\<rparr>"

section \<open>The write engine\<close>

text \<open>
  The beats on their way into memory; the memory acknowledges a burst when it has stored it, and
  \<^verbatim>\<open>donef\<close> tells what the acknowledgement is for.
\<close>

datatype mem_item = Store obj_addr beat | Ack

record write_engine =
  we_loader :: loader
  we_data :: "beat list"
  we_items :: "mem_item list"
  we_donef :: "bool list"

definition we_enq :: "nat \<Rightarrow> beat \<Rightarrow> write_engine \<Rightarrow> write_engine option" where
  "we_enq wcap v e =
     (if length (we_data e) < wcap
      then Some (e\<lparr>we_data := we_data e @ [v], we_loader := (we_loader e)\<lparr>ld_buffCap := ld_buffCap (we_loader e) + 1\<rparr>\<rparr>)
      else None)"

definition we_writeData :: "write_engine \<Rightarrow> write_engine option" where
  "we_writeData e =
     (case (we_data e, ld_beat (we_loader e)) of
        (v # vs, Some (a, fl, l)) \<Rightarrow>
          if fl \<noteq> None \<and> length (we_donef e) \<ge> 32 then None
          else Some (e\<lparr>we_loader := l, we_data := vs, we_items := we_items e @ Store a v # (if fl = None then [] else [Ack]),
                 we_donef := we_donef e @ (case fl of None \<Rightarrow> [] | Some lst \<Rightarrow> [lst])\<rparr>)
      | _ \<Rightarrow> None)"

text \<open>\<^verbatim>\<open>writeDone.put\<close>: the end of the last burst of a command needs room for the response.\<close>

definition we_writeDone :: "write_engine \<Rightarrow> write_engine option" where
  "we_writeDone e =
     (case (we_items e, we_donef e) of
        (Ack # its, lst # ds) \<Rightarrow>
          let l = we_loader e
          in if lst \<and> ld_outf l \<noteq> 0 then None
             else Some (e\<lparr>we_items := its, we_donef := ds, we_loader := l\<lparr>ld_outf := ld_outf l + of_bool lst\<rparr>\<rparr>)
      | _ \<Rightarrow> None)"

inductive we_rule :: "write_engine \<times> (obj_addr \<Rightarrow> beat) \<Rightarrow> write_engine \<times> (obj_addr \<Rightarrow> beat) \<Rightarrow> bool" where
  we_load: "load_ctxt (we_loader e) = Some l \<Longrightarrow> we_rule (e, mem) (e\<lparr>we_loader := l\<rparr>, mem)"
| we_request: "object_request (we_loader e) = Some l \<Longrightarrow> we_rule (e, mem) (e\<lparr>we_loader := l\<rparr>, mem)"
| we_data_get: "we_writeData e = Some e' \<Longrightarrow> we_rule (e, mem) (e', mem)"
| we_stored: "we_items e = Store a v # its \<Longrightarrow> we_rule (e, mem) (e\<lparr>we_items := its\<rparr>, mem(a := v))"
| we_acked: "we_writeDone e = Some e' \<Longrightarrow> we_rule (e, mem) (e', mem)"

definition we_put :: "nat \<Rightarrow> mem_cmd \<Rightarrow> write_engine \<Rightarrow> write_engine option" where
  "we_put depth c e = map_option (\<lambda>l. e\<lparr>we_loader := l\<rparr>) (ld_put depth c (we_loader e))"

definition we_response :: "write_engine \<Rightarrow> write_engine option" where
  "we_response e = map_option (\<lambda>l. e\<lparr>we_loader := l\<rparr>) (ld_response (we_loader e))"

definition write_engine_reset :: write_engine where
  "write_engine_reset = \<lparr>we_loader = \<lparr>ld_outs0 = 0, ld_cmds = [], ld_buffCap = 0, ld_loadf = [], ld_workf = [], ld_respCnt = 0,
     ld_asked = [], ld_outf = 0\<rparr>, we_data = [], we_items = [], we_donef = []\<rparr>"

section \<open>What the loader has still to do\<close>

text \<open>
  A command that is a whole number of bursts of whole beats, within the offsets of an object; the beats it
  stands for, the last one of each burst marked with whether it ends the command.
\<close>

definition cmd_ok :: "mem_cmd \<Rightarrow> bool" where
  "cmd_ok c \<longleftrightarrow> 8 dvd unat (cmd_burstLen c) \<and> 0 < unat (cmd_burstLen c) \<and> unat (cmd_burstLen c) dvd unat (cmd_len c) \<and>
     0 < unat (cmd_len c) \<and> unat (cmd_base c) + unat (cmd_len c) < 2 ^ 40"

definition burst_beats :: "mem_cmd \<Rightarrow> nat" where "burst_beats c = unat (cmd_burstLen c) div 8"

definition cmd_beats :: "mem_cmd \<Rightarrow> nat" where "cmd_beats c = unat (cmd_len c) div 8"

definition beats_from :: "u32 \<Rightarrow> nat \<Rightarrow> nat \<Rightarrow> nat \<Rightarrow> (obj_addr \<times> bool option) list" where
  "beats_from p base b n = map (\<lambda>k. ((p, base + 8 * k), if b dvd Suc k then Some (Suc k = n) else None)) [0..<n]"

definition cmd_todo :: "mem_cmd \<Rightarrow> (obj_addr \<times> bool option) list" where
  "cmd_todo c = beats_from (cmd_pointer c) (unat (cmd_base c)) (burst_beats c) (cmd_beats c)"

definition load_todo :: "mem_cmd \<Rightarrow> (obj_addr \<times> bool option) list" where
  "load_todo c = take (burst_beats c) (cmd_todo c)"

definition work_flags :: "(u8 \<times> bool) list \<Rightarrow> bool option list" where
  "work_flags ws = concat (map (\<lambda>(rc, lst). replicate (unat rc - 1) None @ [Some lst]) ws)"

definition ld_todo :: "loader \<Rightarrow> (obj_addr \<times> bool option) list" where
  "ld_todo l = zip (ld_asked l) (drop (unat (ld_respCnt l)) (work_flags (ld_workf l))) @
     concat (map load_todo (ld_loadf l)) @ concat (map cmd_todo (ld_cmds l))"

definition ld_inv :: "loader \<Rightarrow> bool" where
  "ld_inv l \<longleftrightarrow> (\<forall>c \<in> set (ld_cmds l) \<union> set (ld_loadf l). cmd_ok c) \<and> length (ld_loadf l) \<le> 1 \<and>
     length (ld_asked l) = length (drop (unat (ld_respCnt l)) (work_flags (ld_workf l))) \<and>
     (\<forall>w \<in> set (ld_workf l). 0 < fst w) \<and> (case ld_workf l of [] \<Rightarrow> ld_respCnt l = 0 | w # _ \<Rightarrow> ld_respCnt l < fst w)"

text \<open>The beats that were taken from the capacity of the buffer, and the work left.\<close>

definition ld_promised :: "loader \<Rightarrow> nat" where
  "ld_promised l = length (ld_asked l) + sum_list (map burst_beats (ld_loadf l))"

definition ld_work :: "loader \<Rightarrow> nat" where
  "ld_work l = length (ld_asked l) + 2 * length (concat (map load_todo (ld_loadf l))) + 3 * length (concat (map cmd_todo (ld_cmds l)))"

lemma unat_ucast_u8_up: "8 \<le> LENGTH('b::len) \<Longrightarrow> unat (ucast (x :: u8) :: 'b word) = unat x"
proof -
  assume "8 \<le> LENGTH('b)"
  then have "(2 :: nat) ^ 8 \<le> 2 ^ LENGTH('b)" by (intro power_increasing) simp_all
  then show ?thesis using unat_u8_less [of x] by (simp add: unat_ucast_down)
qed

lemma cmd_ok_beats:
  assumes "cmd_ok c"
  shows "unat (cmd_burstLen c) = 8 * burst_beats c" "unat (cmd_len c) = 8 * cmd_beats c" "0 < burst_beats c" "burst_beats c dvd cmd_beats c"
    "burst_beats c \<le> cmd_beats c" "burst_beats c < 32" "unat (drop_bit 3 (cmd_burstLen c)) = burst_beats c"
    "last_burst c \<longleftrightarrow> cmd_beats c = burst_beats c"
proof -
  have d: "8 dvd unat (cmd_burstLen c)" "unat (cmd_burstLen c) dvd unat (cmd_len c)" "0 < unat (cmd_burstLen c)" "0 < unat (cmd_len c)"
    using assms by (auto simp: cmd_ok_def)
  then show b: "unat (cmd_burstLen c) = 8 * burst_beats c" and n: "unat (cmd_len c) = 8 * cmd_beats c"
    using dvd_trans [OF d(1,2)] by (auto simp: burst_beats_def cmd_beats_def)
  show p: "0 < burst_beats c" using b d(3) by simp
  show dv: "burst_beats c dvd cmd_beats c" using d(2) b n by simp
  have "0 < cmd_beats c" using d(4) n by simp
  then show le: "burst_beats c \<le> cmd_beats c" using dvd_imp_le [OF dv] by blast
  show "burst_beats c < 32" using unat_u8_less [of "cmd_burstLen c"] b by simp
  show "unat (drop_bit 3 (cmd_burstLen c)) = burst_beats c" by (simp add: burst_beats_def unat_drop_bit_div)
  show "last_burst c \<longleftrightarrow> cmd_beats c = burst_beats c"
    using le b n by (auto simp: last_burst_def word_le_nat_alt unat_ucast_u8_up)
qed

lemma length_beats_from [simp]: "length (beats_from p base b n) = n"
  by (simp add: beats_from_def)

lemma beats_from_append:
  assumes "b dvd m" "0 < k"
  shows "beats_from p base b (m + k) = map (\<lambda>(a, fl). (a, map_option (\<lambda>_. False) fl)) (beats_from p base b m) @ beats_from p (base + 8 * m) b k"
proof -
  have u: "[0..<m + k] = [0..<m] @ map (\<lambda>j. j + m) [0..<k]" using upt_add_eq_append [of 0 m k] by (simp add: map_add_upt add.commute [of m k])
  have "b dvd Suc (j + m) \<longleftrightarrow> b dvd Suc j" for j using dvd_add_left_iff [OF assms(1), of "Suc j"] by simp
  then show ?thesis using assms(2) unfolding beats_from_def u by (auto simp: algebra_simps)
qed

lemma beats_from_burst: "0 < b \<Longrightarrow> map snd (beats_from p base b b) = replicate (b - 1) None @ [Some True]"
proof -
  assume b: "0 < b"
  then have e: "[0..<b] = [0..<b - 1] @ [b - 1]" by (metis Suc_diff_1 upt_Suc_append zero_le)
  have "\<not> b dvd Suc k" if "k < b - 1" for k using that nat_dvd_not_less [of "Suc k" b] by simp
  then have "map (\<lambda>k. if b dvd Suc k then Some (Suc k = b) else None) [0..<b - 1] = replicate (b - 1) None"
    by (intro nth_equalityI) auto
  with b show ?thesis unfolding beats_from_def e by (simp add: comp_def)
qed

lemma length_cmd_todo [simp]: "length (cmd_todo c) = cmd_beats c"
  by (simp add: cmd_todo_def)

lemma length_load_todo: "cmd_ok c \<Longrightarrow> length (load_todo c) = burst_beats c"
  using cmd_ok_beats(5) by (simp add: load_todo_def)

text \<open>The rest of a command whose first burst is taken off.\<close>

abbreviation next_burst :: "mem_cmd \<Rightarrow> mem_cmd" where
  "next_burst c \<equiv> c\<lparr>cmd_base := cmd_base c + ucast (cmd_burstLen c), cmd_len := cmd_len c - ucast (cmd_burstLen c)\<rparr>"

lemma next_burst_fields:
  assumes "cmd_ok c" "\<not> last_burst c"
  shows "burst_beats (next_burst c) = burst_beats c" "cmd_beats (next_burst c) = cmd_beats c - burst_beats c"
    "unat (cmd_base (next_burst c)) = unat (cmd_base c) + 8 * burst_beats c" "cmd_ok (next_burst c)"
proof -
  note b = cmd_ok_beats [OF assms(1)]
  have lt: "burst_beats c < cmd_beats c" using b(5,8) assms(2) by simp
  have u: "unat (ucast (cmd_burstLen c) :: u32) = 8 * burst_beats c" "unat (ucast (cmd_burstLen c) :: 40 word) = 8 * burst_beats c"
    using b(1) by (simp_all add: unat_ucast_u8_up)
  show bb: "burst_beats (next_burst c) = burst_beats c" by (simp add: burst_beats_def)
  have le: "ucast (cmd_burstLen c) \<le> cmd_len c" using u(1) b(2,5) by (simp add: word_le_nat_alt)
  have ln: "unat (cmd_len c - ucast (cmd_burstLen c)) = 8 * (cmd_beats c - burst_beats c)"
    using unat_sub [OF le] u(1) b(2) by (simp add: right_diff_distrib')
  then show n: "cmd_beats (next_burst c) = cmd_beats c - burst_beats c" by (simp add: cmd_beats_def)
  have lim: "unat (cmd_base c) + 8 * cmd_beats c < 2 ^ 40" using assms(1) b(2) by (auto simp: cmd_ok_def)
  then have "unat (cmd_base c) + unat (ucast (cmd_burstLen c) :: 40 word) < 2 ^ 40" using u(2) b(5) by linarith
  then show ba: "unat (cmd_base (next_burst c)) = unat (cmd_base c) + 8 * burst_beats c"
    using u(2) by (simp add: unat_word_ariths(1))
  have "burst_beats c dvd cmd_beats c - burst_beats c" using b(4) by simp
  moreover have "unat (cmd_base (next_burst c)) + unat (cmd_len (next_burst c)) < 2 ^ 40"
    using ba ln lim lt by simp
  ultimately show "cmd_ok (next_burst c)" using b(1,3) ln lt unfolding cmd_ok_def by simp
qed

lemma load_todo_next:
  assumes "cmd_ok c"
  shows "cmd_todo c = load_todo c @ (if last_burst c then [] else cmd_todo (next_burst c))"
proof (cases "last_burst c")
  case True
  then show ?thesis using cmd_ok_beats [OF assms] by (simp add: load_todo_def)
next
  case False
  let ?b = "burst_beats c" and ?n = "cmd_beats c"
  note b = cmd_ok_beats [OF assms] and nb = next_burst_fields [OF assms False]
  have n: "?n = ?b + (?n - ?b)" "0 < ?n - ?b" using b(5,8) False by auto
  have "cmd_todo c = map (\<lambda>(a, fl). (a, map_option (\<lambda>_. False) fl)) (beats_from (cmd_pointer c) (unat (cmd_base c)) ?b ?b) @ cmd_todo (next_burst c)"
    using beats_from_append [OF _ n(2), of ?b ?b "cmd_pointer c" "unat (cmd_base c)"] n(1) nb by (simp add: cmd_todo_def)
  then show ?thesis using False by (simp add: load_todo_def)
qed

lemma load_todo_work:
  assumes "cmd_ok c"
  shows "load_todo c = zip (map (\<lambda>k. (cmd_pointer c, unat (cmd_base c) + 8 * k)) [0..<burst_beats c])
    (work_flags [(drop_bit 3 (cmd_burstLen c), last_burst c)])"
proof -
  let ?b = "burst_beats c"
  note b = cmd_ok_beats [OF assms]
  have tk: "load_todo c = map (\<lambda>k. ((cmd_pointer c, unat (cmd_base c) + 8 * k), if ?b dvd Suc k then Some (Suc k = cmd_beats c) else None)) [0..<?b]"
    using b(5) by (simp add: load_todo_def cmd_todo_def beats_from_def take_map)
  have fl: "map (\<lambda>k. if ?b dvd Suc k then Some (Suc k = cmd_beats c) else None) [0..<?b] = replicate (?b - 1) None @ [Some (last_burst c)]"
  proof (rule nth_equalityI)
    fix k assume k: "k < length (map (\<lambda>k. if ?b dvd Suc k then Some (Suc k = cmd_beats c) else None) [0..<?b])"
    have "?b dvd Suc k \<longleftrightarrow> k = ?b - 1" using k b(3) dvd_imp_le [of ?b "Suc k"] by auto
    then show "map (\<lambda>k. if ?b dvd Suc k then Some (Suc k = cmd_beats c) else None) [0..<?b] ! k = (replicate (?b - 1) None @ [Some (last_burst c)]) ! k"
      using k b(3,8) by (auto simp: nth_append)
  qed (use b(3) in simp)
  have "load_todo c = zip (map (\<lambda>k. (cmd_pointer c, unat (cmd_base c) + 8 * k)) [0..<?b]) (map (\<lambda>k. if ?b dvd Suc k then Some (Suc k = cmd_beats c) else None) [0..<?b])"
    unfolding tk by (simp add: zip_map_map zip_same_conv_map)
  then show ?thesis unfolding fl using b(7) by (simp add: work_flags_def)
qed

section \<open>The laws of the loader\<close>

text \<open>The counters have no influence on what is to be done.\<close>

lemma ld_counters [simp]:
  "ld_inv (l\<lparr>ld_outs0 := k\<rparr>) = ld_inv l" "ld_inv (l\<lparr>ld_outf := k\<rparr>) = ld_inv l" "ld_inv (l\<lparr>ld_buffCap := k\<rparr>) = ld_inv l"
  "ld_todo (l\<lparr>ld_outs0 := k\<rparr>) = ld_todo l" "ld_todo (l\<lparr>ld_outf := k\<rparr>) = ld_todo l" "ld_todo (l\<lparr>ld_buffCap := k\<rparr>) = ld_todo l"
  "ld_promised (l\<lparr>ld_outs0 := k\<rparr>) = ld_promised l" "ld_promised (l\<lparr>ld_outf := k\<rparr>) = ld_promised l" "ld_promised (l\<lparr>ld_buffCap := k\<rparr>) = ld_promised l"
  "ld_work (l\<lparr>ld_outs0 := k\<rparr>) = ld_work l" "ld_work (l\<lparr>ld_outf := k\<rparr>) = ld_work l" "ld_work (l\<lparr>ld_buffCap := k\<rparr>) = ld_work l"
  by (cases "ld_workf l"; simp add: ld_inv_def ld_todo_def ld_promised_def ld_work_def)+

lemma work_flags_append: "work_flags (ws @ vs) = work_flags ws @ work_flags vs"
  by (simp add: work_flags_def)

lemma ld_put_laws:
  assumes "ld_put depth c l = Some l'" "ld_inv l" "cmd_ok c"
  shows "ld_inv l'" "ld_todo l' = ld_todo l @ cmd_todo c" "ld_promised l' = ld_promised l" "ld_buffCap l' = ld_buffCap l"
    "ld_outs0 l' = ld_outs0 l + 1" "ld_outf l' = ld_outf l" "ld_outs0 l < depth" "ld_work l' = ld_work l + 3 * cmd_beats c"
  using assms by (auto simp: ld_put_def ld_inv_def ld_todo_def ld_promised_def ld_work_def split: if_splits list.splits)

lemma load_ctxt_laws:
  assumes "load_ctxt l = Some l'" "ld_inv l"
  shows "ld_inv l'" "ld_todo l' = ld_todo l" "ld_buffCap l' + ld_promised l' = ld_buffCap l + ld_promised l"
    "ld_outs0 l' = ld_outs0 l" "ld_outf l' = ld_outf l" "ld_work l' < ld_work l"
proof -
  obtain c cs where c: "ld_cmds l = c # cs" using assms(1) by (auto simp: load_ctxt_def split: list.splits)
  then have ok: "cmd_ok c" and rest: "\<forall>d \<in> set cs. cmd_ok d" using assms(2) by (auto simp: ld_inv_def)
  note b = cmd_ok_beats [OF ok]
  have l': "burst_beats c \<le> ld_buffCap l" "ld_loadf l = []"
    "l' = l\<lparr>ld_buffCap := ld_buffCap l - burst_beats c, ld_loadf := [c], ld_cmds := (if last_burst c then cs else next_burst c # cs)\<rparr>"
    using assms(1) c b(7) by (auto simp: load_ctxt_def split: if_splits)
  show "ld_inv l'" using assms(2) l' ok rest next_burst_fields(4) [OF ok] by (auto simp: ld_inv_def split: list.splits)
  have e: "cmd_todo c @ concat (map cmd_todo cs) = load_todo c @ concat (map cmd_todo (if last_burst c then cs else next_burst c # cs))"
    by (subst load_todo_next [OF ok]) simp
  show "ld_todo l' = ld_todo l" using l' e c by (simp add: ld_todo_def)
  show "ld_buffCap l' + ld_promised l' = ld_buffCap l + ld_promised l" using l' by (simp add: ld_promised_def)
  show "ld_outs0 l' = ld_outs0 l" "ld_outf l' = ld_outf l" using l' by simp_all
  show "ld_work l' < ld_work l"
    using l'(2) arg_cong [OF e, of length] length_load_todo [OF ok] b(3) by (simp add: ld_work_def c l'(3) split del: if_split)
qed

lemma object_request_laws:
  assumes "object_request l = Some l'" "ld_inv l"
  shows "ld_inv l'" "ld_todo l' = ld_todo l" "ld_promised l' = ld_promised l" "ld_buffCap l' = ld_buffCap l"
    "ld_outs0 l' = ld_outs0 l" "ld_outf l' = ld_outf l" "ld_work l' < ld_work l"
proof -
  obtain c where c: "ld_loadf l = [c]" using assms by (auto simp: object_request_def ld_inv_def length_Suc_conv le_Suc_eq split: list.splits)
  then have ok: "cmd_ok c" using assms(2) by (auto simp: ld_inv_def)
  note b = cmd_ok_beats [OF ok]
  let ?w = "(drop_bit 3 (cmd_burstLen c), last_burst c)" and ?as = "map (\<lambda>k. (cmd_pointer c, unat (cmd_base c) + 8 * k)) [0..<burst_beats c]"
  have "(if last_burst c then ucast (cmd_len c) else cmd_burstLen c) = cmd_burstLen c"
  proof (cases "last_burst c")
    case True
    then have "unat (cmd_len c) = unat (cmd_burstLen c)" using b by simp
    then have "ucast (cmd_len c) = cmd_burstLen c" using unat_u8_less [of "cmd_burstLen c"] by (simp add: word_unat_eq_iff unat_ucast_down)
    then show ?thesis using True by simp
  qed simp
  then have l': "l' = l\<lparr>ld_loadf := [], ld_workf := ld_workf l @ [?w], ld_asked := ld_asked l @ ?as\<rparr>"
    using assms(1) c b(1) by (auto simp: object_request_def Let_def split: if_splits)
  have w: "length (work_flags [?w]) = burst_beats c" "0 < fst ?w" using b(3,7) by (auto simp: work_flags_def word_gt_0 unat_eq_0)
  have rc: "unat (ld_respCnt l) \<le> length (work_flags (ld_workf l))"
    using assms(2) by (auto simp: ld_inv_def work_flags_def word_less_nat_alt split: list.splits)
  then show "ld_inv l'" using assms(2) l' w c by (auto simp: ld_inv_def work_flags_append split: list.splits)
  have "length (ld_asked l) = length (drop (unat (ld_respCnt l)) (work_flags (ld_workf l)))" using assms(2) by (simp add: ld_inv_def)
  then show "ld_todo l' = ld_todo l" using l' c rc load_todo_work [OF ok] by (simp add: ld_todo_def work_flags_append)
  show "ld_promised l' = ld_promised l" "ld_buffCap l' = ld_buffCap l" "ld_outs0 l' = ld_outs0 l" "ld_outf l' = ld_outf l"
    using l' c by (simp_all add: ld_promised_def)
  show "ld_work l' < ld_work l" using l' c length_load_todo [OF ok] b(3) by (simp add: ld_work_def)
qed

lemma ld_beat_laws:
  assumes "ld_beat l = Some (a, fl, l')" "ld_inv l"
  shows "ld_inv l'" "ld_todo l = (a, fl) # ld_todo l'" "ld_promised l = Suc (ld_promised l')" "ld_buffCap l' = ld_buffCap l"
    "ld_outs0 l' = ld_outs0 l" "ld_outf l' = ld_outf l" "ld_work l = Suc (ld_work l')"
proof -
  obtain as rc lst ws where e: "ld_asked l = a # as" "ld_workf l = (rc, lst) # ws"
    using assms(1) by (auto simp: ld_beat_def Let_def split: list.splits if_splits)
  let ?n = "unat (ld_respCnt l)"
  have lt: "?n < unat rc" using assms(2) e by (simp add: ld_inv_def word_less_nat_alt)
  have suc: "unat (ld_respCnt l + 1) = Suc ?n" using lt unat_u8_less [of rc] by (simp add: unat_word_ariths(1))
  have flags: "work_flags ((rc, lst) # ws) = replicate (unat rc - 1) None @ Some lst # work_flags ws" by (simp add: work_flags_def)
  have d: "drop ?n (work_flags ((rc, lst) # ws)) = (if Suc ?n = unat rc then Some lst else None) # drop (Suc ?n) (work_flags ((rc, lst) # ws))"
    unfolding flags using lt by (subst Cons_nth_drop_Suc [symmetric]) (auto simp: nth_append)
  have l': "fl = (if Suc ?n = unat rc then Some lst else None)"
    "l' = (if Suc ?n = unat rc then l\<lparr>ld_asked := as, ld_workf := ws, ld_respCnt := 0\<rparr> else l\<lparr>ld_asked := as, ld_respCnt := ld_respCnt l + 1\<rparr>)"
    using assms(1) e suc by (auto simp: ld_beat_def Let_def word_unat_eq_iff split: if_splits)
  have en: "Suc ?n = unat rc \<Longrightarrow> drop (Suc ?n) (work_flags ((rc, lst) # ws)) = work_flags ws" unfolding flags by simp
  have len: "length as = length (drop (Suc ?n) (work_flags ((rc, lst) # ws)))" using assms(2) e d by (simp add: ld_inv_def)
  have len': "Suc ?n = unat rc \<Longrightarrow> length as = length (work_flags ws)" using len arg_cong [OF en, of length] by simp
  have ws: "ws = [] \<or> 0 < fst (hd ws)" using assms(2) e by (cases ws) (auto simp: ld_inv_def)
  show "ld_inv l'"
    using assms(2) e l'(2) len len' suc lt ws by (auto simp: ld_inv_def word_less_nat_alt split: list.splits)
  show "ld_todo l = (a, fl) # ld_todo l'"
    using e l' d en suc by (auto simp: ld_todo_def)
  show "ld_promised l = Suc (ld_promised l')" "ld_buffCap l' = ld_buffCap l" "ld_outs0 l' = ld_outs0 l" "ld_outf l' = ld_outf l" "ld_work l = Suc (ld_work l')"
    using e l' by (auto simp: ld_promised_def ld_work_def)
qed

lemma ld_idle_work: "ld_inv l \<Longrightarrow> ld_asked l = [] \<Longrightarrow> ld_workf l = []"
proof (cases "ld_workf l")
  case (Cons w ws)
  assume i: "ld_inv l" "ld_asked l = []"
  obtain rc lst where w: "w = (rc, lst)" by (cases w)
  have "unat (ld_respCnt l) < unat rc" using i(1) Cons w by (simp add: ld_inv_def word_less_nat_alt)
  then have "unat (ld_respCnt l) < length (work_flags (ld_workf l))" using Cons w by (simp add: work_flags_def)
  then show ?thesis using i by (simp add: ld_inv_def)
qed simp

text \<open>While there is something to do, a beat can pass, or the memory can be asked for a burst, or a burst can be taken up if the buffer allows it.\<close>

lemma ld_progress:
  assumes "ld_inv l" "ld_todo l \<noteq> []"
  shows "(\<exists>a fl l'. ld_beat l = Some (a, fl, l')) \<or> (\<exists>l'. object_request l = Some l') \<or>
    (\<exists>c. c \<in> set (ld_cmds l) \<and> ld_promised l = 0 \<and> (burst_beats c \<le> ld_buffCap l \<longrightarrow> (\<exists>l'. load_ctxt l = Some l')))"
proof (cases "ld_asked l")
  case (Cons a as)
  then have "work_flags (ld_workf l) \<noteq> []" using assms(1) by (auto simp: ld_inv_def)
  then obtain w ws where "ld_workf l = w # ws" by (cases "ld_workf l") (auto simp: work_flags_def)
  then show ?thesis using Cons by (cases w) (auto simp: ld_beat_def Let_def)
next
  case Nil
  then have w: "ld_workf l = []" using ld_idle_work assms(1) by blast
  show ?thesis
  proof (cases "ld_loadf l")
    case (Cons c cs)
    then show ?thesis using w by (simp add: object_request_def Let_def)
  next
    case l: Nil
    then obtain c cs where c: "ld_cmds l = c # cs" using assms(2) Nil by (cases "ld_cmds l") (auto simp: ld_todo_def)
    then have "cmd_ok c" using assms(1) by (simp add: ld_inv_def)
    then show ?thesis using c l Nil cmd_ok_beats(7) by (auto simp: ld_promised_def load_ctxt_def)
  qed
qed

lemma cmd_todo_addresses:
  assumes "unat (cmd_base c) = 8 * s"
  shows "map fst (cmd_todo c) = map (\<lambda>j. (cmd_pointer c, 8 * j)) [s..<s + cmd_beats c]"
proof -
  have "map fst (cmd_todo c) = map (\<lambda>k. (cmd_pointer c, 8 * (k + s))) [0..<cmd_beats c]"
    using assms by (simp add: cmd_todo_def beats_from_def comp_def algebra_simps)
  also have "\<dots> = map (\<lambda>j. (cmd_pointer c, 8 * j)) (map (\<lambda>k. k + s) [0..<cmd_beats c])" by simp
  finally show ?thesis by (simp add: map_add_upt add.commute)
qed

lemma cmd_todo_last: "cmd_ok c \<Longrightarrow> cmd_todo c \<noteq> [] \<and> snd (last (cmd_todo c)) = Some True"
proof -
  assume c: "cmd_ok c"
  note b = cmd_ok_beats [OF c]
  have n: "0 < cmd_beats c" using b(3,5) by linarith
  then have "[0..<cmd_beats c] = [0..<cmd_beats c - 1] @ [cmd_beats c - 1]" by (metis Suc_diff_1 upt_Suc_append zero_le)
  then have "last [0..<cmd_beats c] = cmd_beats c - 1" by simp
  then show ?thesis using n b(4) by (simp add: cmd_todo_def beats_from_def last_map)
qed

text \<open>The number of commands that end in a list of beats.\<close>

abbreviation ends :: "(obj_addr \<times> bool option) list \<Rightarrow> nat" where
  "ends ts \<equiv> length (filter (\<lambda>t. snd t = Some True) ts)"

lemma cmd_todo_ends: "cmd_ok c \<Longrightarrow> ends (cmd_todo c) = 1"
proof -
  assume c: "cmd_ok c"
  note b = cmd_ok_beats [OF c]
  have n: "0 < cmd_beats c" using b(3,5) by linarith
  then have "[0..<cmd_beats c] = [0..<cmd_beats c - 1] @ [cmd_beats c - 1]" by (metis Suc_diff_1 upt_Suc_append zero_le)
  then have "filter (\<lambda>k. (burst_beats c dvd Suc k \<longrightarrow> Suc k = cmd_beats c) \<and> burst_beats c dvd Suc k) [0..<cmd_beats c] = [cmd_beats c - 1]"
    using n b(4) by (simp only: filter_append) (auto simp: filter_empty_conv)
  then have "length (filter (\<lambda>k. (burst_beats c dvd Suc k \<longrightarrow> Suc k = cmd_beats c) \<and> burst_beats c dvd Suc k) [0..<cmd_beats c]) = 1" by simp
  then show ?thesis by (simp add: cmd_todo_def beats_from_def filter_map comp_def)
qed

section \<open>What a design relies on when it reads\<close>

text \<open>
  A source of beats: the beats still to come, of all commands accepted and in their order, the commands
  not yet answered, and the work left inside.
\<close>

locale beat_source =
  fixes put :: "'c \<Rightarrow> 'e \<Rightarrow> 'e option" and rule :: "'e \<Rightarrow> 'e \<Rightarrow> bool" and deq :: "'e \<Rightarrow> ('v \<times> 'e) option" and response :: "'e \<Rightarrow> 'e option"
    and ok :: "'c \<Rightarrow> bool" and beats :: "'c \<Rightarrow> 'v list" and inv :: "'e \<Rightarrow> bool" and stream :: "'e \<Rightarrow> 'v list"
    and outs :: "'e \<Rightarrow> nat" and work :: "'e \<Rightarrow> nat"
  assumes put_laws: "inv e \<Longrightarrow> ok c \<Longrightarrow> put c e = Some e' \<Longrightarrow>
      inv e' \<and> stream e' = stream e @ beats c \<and> outs e' = outs e + 1 \<and> work e' = work e + 3 * length (beats c)"
    and rule_laws: "inv e \<Longrightarrow> rule e e' \<Longrightarrow> inv e' \<and> stream e' = stream e \<and> outs e' = outs e \<and> work e' < work e"
    and deq_laws: "inv e \<Longrightarrow> deq e = Some (v, e') \<Longrightarrow> inv e' \<and> stream e = v # stream e' \<and> outs e' = outs e \<and> work e' = work e"
    and response_laws: "inv e \<Longrightarrow> response e = Some e' \<Longrightarrow> inv e' \<and> stream e' = stream e \<and> outs e = outs e' + 1 \<and> work e' = work e"
    and put_enabled: "inv e \<Longrightarrow> outs e = 0 \<Longrightarrow> put c e \<noteq> None"
    and progress: "inv e \<Longrightarrow> stream e \<noteq> [] \<Longrightarrow> (\<exists>e'. rule e e') \<or> deq e \<noteq> None \<or> response e \<noteq> None"
    and answered: "inv e \<Longrightarrow> stream e = [] \<Longrightarrow> 0 < outs e \<Longrightarrow> response e \<noteq> None"
begin

text \<open>Rules alone come to an end with a beat to take or a command to answer.\<close>

lemma delivers:
  assumes "inv e" "stream e \<noteq> [] \<or> 0 < outs e"
  shows "\<exists>e'. rule\<^sup>*\<^sup>* e e' \<and> inv e' \<and> stream e' = stream e \<and> outs e' = outs e \<and> (deq e' \<noteq> None \<or> response e' \<noteq> None)"
  using assms
proof (induction "work e" arbitrary: e rule: less_induct)
  case less
  show ?case
  proof (cases "deq e \<noteq> None \<or> response e \<noteq> None")
    case False
    then obtain e1 where r: "rule e e1" using progress answered less(2,3) by blast
    note l = rule_laws [OF less(2) r]
    then obtain e' where "rule\<^sup>*\<^sup>* e1 e'" "inv e'" "stream e' = stream e1" "outs e' = outs e1" "deq e' \<noteq> None \<or> response e' \<noteq> None"
      using less(1) [of e1] less(3) by auto
    then show ?thesis using r l by (metis converse_rtranclp_into_rtranclp)
  qed (use less in auto)
qed

end

definition re_stream :: "(obj_addr \<Rightarrow> beat) \<Rightarrow> read_engine \<Rightarrow> beat list" where
  "re_stream mem e = map fst (re_data e) @ map (mem \<circ> fst) (ld_todo (re_loader e))"

definition re_inv :: "nat \<Rightarrow> read_engine \<Rightarrow> bool" where
  "re_inv depth e \<longleftrightarrow> ld_inv (re_loader e) \<and> ld_buffCap (re_loader e) + ld_promised (re_loader e) + length (re_data e) = 32 \<and>
     ld_outs0 (re_loader e) = length (filter snd (re_data e)) + ends (ld_todo (re_loader e)) + ld_outf (re_loader e) \<and>
     ld_outf (re_loader e) \<le> 1 \<and> 0 < depth"

lemma re_put_laws:
  assumes "re_inv depth e" "cmd_ok c" "re_put depth c e = Some e'"
  shows "re_inv depth e' \<and> re_stream mem e' = re_stream mem e @ map (mem \<circ> fst) (cmd_todo c) \<and>
    ld_outs0 (re_loader e') = ld_outs0 (re_loader e) + 1 \<and> ld_work (re_loader e') = ld_work (re_loader e) + 3 * length (map (mem \<circ> fst) (cmd_todo c))"
proof -
  obtain l where l: "ld_put depth c (re_loader e) = Some l" "e' = e\<lparr>re_loader := l\<rparr>" using assms(3) by (auto simp: re_put_def)
  have "ld_inv (re_loader e)" using assms(1) by (simp add: re_inv_def)
  note p = ld_put_laws [OF l(1) this assms(2)]
  show ?thesis using assms(1) l(2) p cmd_todo_ends [OF assms(2)] by (simp add: re_inv_def re_stream_def)
qed

lemma re_rule_laws:
  assumes "re_inv depth e" "re_rule mem e e'"
  shows "re_inv depth e' \<and> re_stream mem e' = re_stream mem e \<and> ld_outs0 (re_loader e') = ld_outs0 (re_loader e) \<and>
    ld_work (re_loader e') < ld_work (re_loader e)"
  using assms(2)
proof cases
  case (re_load l)
  show ?thesis using assms(1) re_load(1) load_ctxt_laws [OF re_load(2)] by (simp add: re_inv_def re_stream_def)
next
  case (re_request l)
  show ?thesis using assms(1) re_request(1) object_request_laws [OF re_request(2)] by (simp add: re_inv_def re_stream_def)
next
  case re_answer
  then obtain a fl l where l: "ld_beat (re_loader e) = Some (a, fl, l)" "e' = e\<lparr>re_loader := l, re_data := re_data e @ [(mem a, fl = Some True)]\<rparr>"
    by (auto simp: re_readData_def split: option.splits prod.splits)
  show ?thesis using assms(1) l(2) ld_beat_laws [OF l(1)] by (auto simp: re_inv_def re_stream_def)
qed

lemma re_deq_laws:
  assumes "re_inv depth e" "re_deq e = Some (v, e')"
  shows "re_inv depth e' \<and> re_stream mem e = v # re_stream mem e' \<and> ld_outs0 (re_loader e') = ld_outs0 (re_loader e) \<and>
    ld_work (re_loader e') = ld_work (re_loader e)"
  using assms
  by (auto simp: re_deq_def re_inv_def re_stream_def Let_def split: list.splits if_splits)

lemma re_response_laws:
  assumes "re_inv depth e" "re_response e = Some e'"
  shows "re_inv depth e' \<and> re_stream mem e' = re_stream mem e \<and> ld_outs0 (re_loader e) = ld_outs0 (re_loader e') + 1 \<and>
    ld_work (re_loader e') = ld_work (re_loader e)"
  using assms
  by (auto simp: re_response_def ld_response_def re_inv_def re_stream_def split: if_splits)

lemma re_progress:
  assumes "re_inv depth e" "re_stream mem e \<noteq> []"
  shows "(\<exists>e'. re_rule mem e e') \<or> re_deq e \<noteq> None \<or> re_response e \<noteq> None"
proof (cases "re_data e")
  case (Cons d ds)
  then show ?thesis by (cases d) (auto simp: re_deq_def re_response_def ld_response_def Let_def)
next
  case Nil
  have i: "ld_inv (re_loader e)" and cap: "ld_buffCap (re_loader e) + ld_promised (re_loader e) = 32"
    using assms(1) Nil by (auto simp: re_inv_def)
  from assms(2) Nil have "ld_todo (re_loader e) \<noteq> []" by (simp add: re_stream_def)
  from ld_progress [OF i this] consider a fl l where "ld_beat (re_loader e) = Some (a, fl, l)" | l where "object_request (re_loader e) = Some l"
    | c where "c \<in> set (ld_cmds (re_loader e))" "ld_promised (re_loader e) = 0"
      "burst_beats c \<le> ld_buffCap (re_loader e) \<longrightarrow> (\<exists>l'. load_ctxt (re_loader e) = Some l')" by blast
  then show ?thesis
  proof cases
    case 1
    then have "re_readData mem e \<noteq> None" by (simp add: re_readData_def)
    then show ?thesis by (blast intro: re_rule.re_answer)
  next
    case 3
    then have "burst_beats c < 32" using i cmd_ok_beats(6) by (auto simp: ld_inv_def)
    then show ?thesis using 3 cap by (auto intro: re_rule.re_load)
  qed (blast intro: re_rule.re_request)
qed

interpretation rd: beat_source "re_put depth" "re_rule mem" re_deq re_response cmd_ok "\<lambda>c. map (mem \<circ> fst) (cmd_todo c)" "re_inv depth"
    "re_stream mem" "\<lambda>e. ld_outs0 (re_loader e)" "\<lambda>e. ld_work (re_loader e)"
proof unfold_locales
  show "re_put depth c e \<noteq> None" if "re_inv depth e" "ld_outs0 (re_loader e) = 0" for e c
    using that by (simp add: re_put_def ld_put_def re_inv_def)
  show "re_response e \<noteq> None" if "re_inv depth e" "re_stream mem e = []" "0 < ld_outs0 (re_loader e)" for e
    using that by (auto simp: re_inv_def re_stream_def re_response_def ld_response_def)
qed (fact re_put_laws re_rule_laws re_deq_laws re_response_laws re_progress)+

text \<open>The buffer never holds more than its 32 beats.\<close>

lemma re_data_fits: "re_inv depth e \<Longrightarrow> length (re_data e) \<le> 32"
  by (simp add: re_inv_def)

lemma read_engine_reset: "0 < depth \<Longrightarrow> re_inv depth read_engine_reset" "re_stream mem read_engine_reset = []"
  by (auto simp: re_inv_def read_engine_reset_def ld_inv_def ld_todo_def ld_promised_def work_flags_def re_stream_def)

section \<open>What a design relies on when it writes\<close>

text \<open>
  A sink of beats: the addresses of the beats still to be written, the beats it was given, and the
  writes on their way into memory.
\<close>

definition we_left :: "write_engine \<Rightarrow> obj_addr list" where
  "we_left e = map fst (ld_todo (we_loader e))"

definition we_stores :: "write_engine \<Rightarrow> (obj_addr \<times> beat) list" where
  "we_stores e = concat (map (\<lambda>it. case it of Store a v \<Rightarrow> [(a, v)] | Ack \<Rightarrow> []) (we_items e))"

definition we_work :: "write_engine \<Rightarrow> nat" where
  "we_work e = 3 * ld_work (we_loader e) + length (we_items e)"

definition we_inv :: "nat \<Rightarrow> nat \<Rightarrow> write_engine \<Rightarrow> bool" where
  "we_inv depth burst e \<longleftrightarrow> (\<forall>c \<in> set (ld_cmds (we_loader e)). burst_beats c \<le> burst) \<and> ld_inv (we_loader e) \<and> ld_buffCap (we_loader e) + ld_promised (we_loader e) = length (we_data e) \<and>
     ld_outs0 (we_loader e) = length (filter id (we_donef e)) + ends (ld_todo (we_loader e)) + ld_outf (we_loader e) \<and>
     ld_outf (we_loader e) \<le> 1 \<and> 0 < depth \<and> length (filter ((=) Ack) (we_items e)) = length (we_donef e) \<and>
     (we_items e \<noteq> [] \<longrightarrow> last (we_items e) = Ack \<or> ld_todo (we_loader e) \<noteq> []) \<and>
     (let fs = map Some (we_donef e) @ map snd (ld_todo (we_loader e)) in fs \<noteq> [] \<longrightarrow> last fs = Some True)"

text \<open>
  What the rules of a sink do: nothing to see, or the next beat goes to the next address, or the memory stores a beat.
\<close>

definition sink_step :: "obj_addr list \<times> beat list \<times> (obj_addr \<times> beat) list \<times> (obj_addr \<Rightarrow> beat) \<Rightarrow>
    obj_addr list \<times> beat list \<times> (obj_addr \<times> beat) list \<times> (obj_addr \<Rightarrow> beat) \<Rightarrow> bool" where
  "sink_step = (\<lambda>(left, data, stores, mem) (left', data', stores', mem').
     (left' = left \<and> data' = data \<and> stores' = stores \<and> mem' = mem) \<or>
     (\<exists>a v. left = a # left' \<and> data = v # data' \<and> stores' = stores @ [(a, v)] \<and> mem' = mem) \<or>
     (\<exists>a v. left' = left \<and> data' = data \<and> stores = (a, v) # stores' \<and> mem' = mem(a := v)))"

locale beat_sink =
  fixes ok :: "mem_cmd \<Rightarrow> bool" and put :: "mem_cmd \<Rightarrow> 'e \<Rightarrow> 'e option" and enq :: "beat \<Rightarrow> 'e \<Rightarrow> 'e option"
    and rule :: "'e \<times> (obj_addr \<Rightarrow> beat) \<Rightarrow> 'e \<times> (obj_addr \<Rightarrow> beat) \<Rightarrow> bool" and response :: "'e \<Rightarrow> 'e option"
    and inv :: "'e \<Rightarrow> bool" and left :: "'e \<Rightarrow> obj_addr list" and data :: "'e \<Rightarrow> beat list" and stores :: "'e \<Rightarrow> (obj_addr \<times> beat) list"
    and outs :: "'e \<Rightarrow> nat" and work :: "'e \<Rightarrow> nat" and room :: nat and burst :: nat
  assumes put_laws: "inv e \<Longrightarrow> ok c \<Longrightarrow> put c e = Some e' \<Longrightarrow>
      inv e' \<and> left e' = left e @ map fst (cmd_todo c) \<and> data e' = data e \<and> stores e' = stores e \<and> outs e' = outs e + 1 \<and>
      work e' = work e + 9 * cmd_beats c"
    and enq_laws: "inv e \<Longrightarrow> enq v e = Some e' \<Longrightarrow>
      inv e' \<and> left e' = left e \<and> data e' = data e @ [v] \<and> stores e' = stores e \<and> outs e' = outs e \<and> work e' = work e"
    and rule_laws: "inv e \<Longrightarrow> rule (e, mem) (e', mem') \<Longrightarrow>
      inv e' \<and> sink_step (left e, data e, stores e, mem) (left e', data e', stores e', mem') \<and> outs e' = outs e \<and> work e' < work e"
    and response_laws: "inv e \<Longrightarrow> response e = Some e' \<Longrightarrow>
      inv e' \<and> left e' = left e \<and> data e' = data e \<and> stores e' = stores e \<and> outs e = outs e' + 1 \<and> work e' = work e"
    and put_enabled: "inv e \<Longrightarrow> outs e = 0 \<Longrightarrow> put c e \<noteq> None"
    and enq_enabled: "inv e \<Longrightarrow> length (data e) < room \<Longrightarrow> enq v e \<noteq> None"
    and progress: "inv e \<Longrightarrow> 0 < outs e \<Longrightarrow> burst \<le> length (data e) \<or> length (left e) \<le> length (data e) \<Longrightarrow> (\<exists>e' mem'. rule (e, mem) (e', mem')) \<or> response e \<noteq> None"
    and quiet: "inv e \<Longrightarrow> outs e = 0 \<Longrightarrow> left e = [] \<and> stores e = []"
begin

text \<open>
  The beats given to a sink end up at the addresses asked for, in their order: what is stored, on its way
  and still paired is the same before and after a rule.
\<close>

lemma rule_outcome:
  assumes "inv e" "rule (e, mem) (e', mem')"
  shows "fold (\<lambda>(a, v) m. m(a := v)) (stores e' @ zip (left e') (data e')) mem' =
    fold (\<lambda>(a, v) m. m(a := v)) (stores e @ zip (left e) (data e)) mem"
  using rule_laws [OF assms] by (auto simp: sink_step_def)

end

lemma we_put_laws:
  assumes "we_inv depth burst e" "cmd_ok c \<and> burst_beats c \<le> burst" "we_put depth c e = Some e'"
  shows "we_inv depth burst e' \<and> we_left e' = we_left e @ map fst (cmd_todo c) \<and> we_data e' = we_data e \<and> we_stores e' = we_stores e \<and>
    ld_outs0 (we_loader e') = ld_outs0 (we_loader e) + 1 \<and> we_work e' = we_work e + 9 * cmd_beats c"
proof -
  obtain l where l: "ld_put depth c (we_loader e) = Some l" "e' = e\<lparr>we_loader := l\<rparr>" using assms(3) by (auto simp: we_put_def)
  have i: "ld_inv (we_loader e)" and ok: "cmd_ok c" using assms(1,2) by (auto simp: we_inv_def)
  note p = ld_put_laws [OF l(1) i ok]
  have "\<forall>d \<in> set (ld_cmds l). burst_beats d \<le> burst" using l(1) assms(1,2) by (auto simp: ld_put_def we_inv_def split: if_splits)
  then have "we_inv depth burst e'"
    using assms(1) l(2) p cmd_todo_ends [OF ok] cmd_todo_last [OF ok] by (auto simp: we_inv_def Let_def last_map)
  then show ?thesis using l(2) p by (simp add: we_left_def we_stores_def we_work_def)
qed

lemma we_enq_laws:
  assumes "we_inv depth burst e" "we_enq wcap v e = Some e'"
  shows "we_inv depth burst e' \<and> we_left e' = we_left e \<and> we_data e' = we_data e @ [v] \<and> we_stores e' = we_stores e \<and>
    ld_outs0 (we_loader e') = ld_outs0 (we_loader e) \<and> we_work e' = we_work e"
  using assms by (auto simp: we_enq_def we_inv_def we_left_def we_stores_def we_work_def Let_def split: if_splits)

lemma we_response_laws:
  assumes "we_inv depth burst e" "we_response e = Some e'"
  shows "we_inv depth burst e' \<and> we_left e' = we_left e \<and> we_data e' = we_data e \<and> we_stores e' = we_stores e \<and>
    ld_outs0 (we_loader e) = ld_outs0 (we_loader e') + 1 \<and> we_work e' = we_work e"
  using assms by (auto simp: we_response_def ld_response_def we_inv_def we_left_def we_stores_def we_work_def Let_def split: if_splits)

lemma last_drop_None: "last (xs @ None # ys) = Some True \<Longrightarrow> ys \<noteq> [] \<and> last (xs @ ys) = Some True"
  by (auto split: if_splits)

lemma we_rule_laws:
  assumes "we_inv depth burst e" "we_rule (e, mem) (e', mem')"
  shows "we_inv depth burst e' \<and> sink_step (we_left e, we_data e, we_stores e, mem) (we_left e', we_data e', we_stores e', mem') \<and>
    ld_outs0 (we_loader e') = ld_outs0 (we_loader e) \<and> we_work e' < we_work e"
  using assms(2)
proof cases
  case (we_load l)
  have i: "ld_inv (we_loader e)" using assms(1) by (simp add: we_inv_def)
  have "\<forall>d \<in> set (ld_cmds l). burst_beats d \<le> burst"
    using we_load(3) assms(1) by (auto simp: load_ctxt_def we_inv_def burst_beats_def split: if_splits list.splits)
  then show ?thesis using assms(1) we_load(1,2) load_ctxt_laws [OF we_load(3) i]
    by (simp add: we_inv_def we_left_def we_stores_def we_work_def sink_step_def)
next
  case (we_request l)
  have i: "ld_inv (we_loader e)" using assms(1) by (simp add: we_inv_def)
  have "ld_cmds l = ld_cmds (we_loader e)" using we_request(3) by (auto simp: object_request_def Let_def split: if_splits list.splits)
  then show ?thesis using assms(1) we_request(1,2) object_request_laws [OF we_request(3) i]
    by (simp add: we_inv_def we_left_def we_stores_def we_work_def sink_step_def)
next
  case we_data_get
  then obtain v vs a fl l where l: "we_data e = v # vs" "ld_beat (we_loader e) = Some (a, fl, l)" "mem' = mem"
    "e' = e\<lparr>we_loader := l, we_data := vs, we_items := we_items e @ Store a v # (if fl = None then [] else [Ack]),
       we_donef := we_donef e @ (case fl of None \<Rightarrow> [] | Some lst \<Rightarrow> [lst])\<rparr>"
    by (auto simp: we_writeData_def split: list.splits option.splits prod.splits if_splits)
  have i: "ld_inv (we_loader e)" using assms(1) by (simp add: we_inv_def)
  note b = ld_beat_laws [OF l(2) i]
  have cm: "ld_cmds l = ld_cmds (we_loader e)" using l(2) by (auto simp: ld_beat_def Let_def split: if_splits list.splits)
  have fl: "fl = None \<Longrightarrow> ld_todo l \<noteq> [] \<and> last (map Some (we_donef e) @ map snd (ld_todo l)) = Some True"
    using assms(1) b(2) last_drop_None [of "map Some (we_donef e)" "map snd (ld_todo l)"] by (auto simp: we_inv_def Let_def)
  have "we_inv depth burst e'"
    using assms(1) l b cm fl by (cases fl) (auto simp: we_inv_def Let_def)
  then show ?thesis using l b by (cases a; cases v; auto simp: we_left_def we_stores_def we_work_def sink_step_def)
next
  case (we_stored a v its)
  then show ?thesis using assms(1) by (cases a; cases v; auto simp: we_inv_def we_left_def we_stores_def we_work_def sink_step_def split: if_splits)
next
  case we_acked
  then obtain its lst ds where l: "we_items e = Ack # its" "we_donef e = lst # ds" "mem' = mem"  "\<not> (lst \<and> ld_outf (we_loader e) \<noteq> 0)"
    "e' = e\<lparr>we_items := its, we_donef := ds, we_loader := (we_loader e)\<lparr>ld_outf := ld_outf (we_loader e) + of_bool lst\<rparr>\<rparr>"
    by (auto simp: we_writeDone_def Let_def split: list.splits mem_item.splits if_splits)
  have "we_inv depth burst e'" using assms(1) l by (auto simp: we_inv_def Let_def split: if_splits)
  then show ?thesis using l by (auto simp: we_left_def we_stores_def we_work_def sink_step_def)
qed

lemma we_progress:
  assumes "we_inv depth burst e" "0 < ld_outs0 (we_loader e)" "burst \<le> length (we_data e) \<or> length (we_left e) \<le> length (we_data e)"
  shows "(\<exists>e' mem'. we_rule (e, mem) (e', mem')) \<or> we_response e \<noteq> None"
proof (cases "we_items e")
  case (Cons it its)
  show ?thesis
  proof (cases it)
    case (Store a v)
    then show ?thesis using Cons by (blast intro: we_rule.we_stored)
  next
    case Ack
    then obtain lst ds where "we_donef e = lst # ds" using assms(1) Cons by (cases "we_donef e") (auto simp: we_inv_def)
    then have "we_writeDone e \<noteq> None \<or> we_response e \<noteq> None"
      using Cons Ack by (auto simp: we_writeDone_def we_response_def ld_response_def Let_def)
    then show ?thesis by (blast intro: we_rule.we_acked)
  qed
next
  case Nil
  then have d: "we_donef e = []" using assms(1) by (simp add: we_inv_def)
  have i: "ld_inv (we_loader e)" and cap: "ld_buffCap (we_loader e) + ld_promised (we_loader e) = length (we_data e)"
    and small: "\<forall>c \<in> set (ld_cmds (we_loader e)). burst_beats c \<le> burst" using assms(1) by (auto simp: we_inv_def)
  show ?thesis
  proof (cases "ld_todo (we_loader e) = []")
    case True
    then show ?thesis using assms(1,2) d by (auto simp: we_inv_def we_response_def ld_response_def)
  next
    case False
    from ld_progress [OF i this] consider a fl l where "ld_beat (we_loader e) = Some (a, fl, l)" | l where "object_request (we_loader e) = Some l"
      | c where "c \<in> set (ld_cmds (we_loader e))" "ld_promised (we_loader e) = 0"
        "burst_beats c \<le> ld_buffCap (we_loader e) \<longrightarrow> (\<exists>l'. load_ctxt (we_loader e) = Some l')" by blast
    then show ?thesis
    proof cases
      case 1
      then have "we_data e \<noteq> []" using cap ld_beat_laws(3) [OF 1 i] by auto
      then have "we_writeData e \<noteq> None" using 1 d by (cases "we_data e") (auto simp: we_writeData_def)
      then show ?thesis by (blast intro: we_rule.we_data_get)
    next
      case 3
      have "cmd_beats c \<le> length (we_left e)"
        using split_list [OF 3(1)] by (auto simp: we_left_def ld_todo_def)
      moreover have "burst_beats c \<le> cmd_beats c" using 3(1) i cmd_ok_beats(5) by (auto simp: ld_inv_def)
      moreover have "burst_beats c \<le> burst" using small 3(1) by blast
      ultimately have "burst_beats c \<le> ld_buffCap (we_loader e)" using 3(2) cap assms(3) by linarith
      then show ?thesis using 3 by (blast intro: we_rule.we_load)
    qed (blast intro: we_rule.we_request)
  qed
qed

lemma we_quiet:
  assumes "we_inv depth burst e" "ld_outs0 (we_loader e) = 0"
  shows "we_left e = [] \<and> we_stores e = []"
proof -
  let ?fs = "map Some (we_donef e) @ map snd (ld_todo (we_loader e))"
  have "Some True \<notin> set ?fs" using assms by (auto simp: we_inv_def filter_empty_conv)
  then have "?fs = []" using assms(1) last_in_set [of ?fs] unfolding we_inv_def Let_def by metis
  then have t: "ld_todo (we_loader e) = []" and "we_donef e = []" by simp_all
  then have "we_items e = []" using assms(1) last_in_set [of "we_items e"] by (auto simp: we_inv_def filter_empty_conv)
  then show ?thesis using t by (simp add: we_left_def we_stores_def)
qed

interpretation wr: beat_sink "\<lambda>c. cmd_ok c \<and> burst_beats c \<le> burst" "we_put depth" "we_enq wcap" we_rule we_response "we_inv depth burst"
    we_left we_data we_stores "\<lambda>e. ld_outs0 (we_loader e)" we_work wcap burst
proof unfold_locales
  show "we_put depth c e \<noteq> None" if "we_inv depth burst e" "ld_outs0 (we_loader e) = 0" for e c
    using that by (simp add: we_put_def ld_put_def we_inv_def)
  show "we_enq wcap v e \<noteq> None" if "we_inv depth burst e" "length (we_data e) < wcap" for e v
    using that by (simp add: we_enq_def)
qed (fact we_put_laws we_enq_laws we_rule_laws we_response_laws we_progress we_quiet)+

lemma write_engine_reset: "0 < depth \<Longrightarrow> we_inv depth burst write_engine_reset" "we_left write_engine_reset = []"
  by (auto simp: we_inv_def write_engine_reset_def ld_inv_def ld_todo_def ld_promised_def work_flags_def we_left_def)

section \<open>Copies on their way\<close>

text \<open>
  The beats on their way are, in their order, those wanted at the offsets still to be written;
  what was given to the memory is right; every beat
  of the destination is right, on its way into the memory, or still to be written.
\<close>

definition copied :: "nat \<Rightarrow> u32 \<Rightarrow> (nat \<Rightarrow> beat) \<Rightarrow> (obj_addr \<Rightarrow> beat) \<Rightarrow> (obj_addr \<times> beat) list \<Rightarrow> beat list \<Rightarrow> obj_addr list \<Rightarrow> bool" where
  "copied n dst m0 mem stores data left \<longleftrightarrow>
     data = map (m0 \<circ> snd) left \<and> (\<forall>a \<in> set left. fst a = dst) \<and> (\<forall>(a, v) \<in> set stores. fst a = dst \<and> v = m0 (snd a)) \<and>
     (\<forall>j < n. mem (dst, 8 * j) = m0 (8 * j) \<or> (dst, 8 * j) \<in> set left \<union> fst ` set stores)"

lemma sink_step_mem:
  assumes "sink_step (left, data, stores, mem) (left', data', stores', mem')" "\<forall>(a, v) \<in> set stores. fst a = dst" "fst a \<noteq> dst"
  shows "mem' a = mem a"
  using assms by (auto simp: sink_step_def)

text \<open>A step of the sink keeps every beat of the destination right, on its way or to be written.\<close>

lemma copied_step:
  assumes "sink_step (left, data, stores, mem) (left', data', stores', mem')"
    "copied n dst m0 mem stores (data @ ds) (left @ ls)"
  shows "copied n dst m0 mem' stores' (data' @ ds) (left' @ ls)"
proof -
  consider "left' = left" "data' = data" "stores' = stores" "mem' = mem"
    | a v where "left = a # left'" "data = v # data'" "stores' = stores @ [(a, v)]" "mem' = mem"
    | a v where "left' = left" "data' = data" "stores = (a, v) # stores'" "mem' = mem(a := v)"
    using assms(1) by (auto simp: sink_step_def)
  then show ?thesis
  proof cases
    case 2
    then show ?thesis using assms(2) by (auto simp: copied_def)
  next
    case 3
    have *: "fst a = dst" "v = m0 (snd a)" using assms(2) 3(3) by (auto simp: copied_def)
    have "mem' (dst, 8 * j) = m0 (8 * j) \<or> (dst, 8 * j) \<in> set (left' @ ls) \<union> fst ` set stores'" if "j < n" for j
      using assms(2) that 3 * by (cases a) (auto simp: copied_def)
    then show ?thesis using assms(2) 3(1-3) by (auto simp: copied_def)
  qed (use assms(2) in simp)
qed

section \<open>Words of an object\<close>

text \<open>Word \<open>i\<close> of an object.\<close>

definition obj_word :: "(obj_addr \<Rightarrow> beat) \<Rightarrow> u32 \<Rightarrow> nat \<Rightarrow> u32" where
  "obj_word mem p i = (let v = mem (p, 8 * (i div 2)) in if even i then fst v else snd v)"

definition obj_store :: "u32 \<Rightarrow> nat \<Rightarrow> u32 \<Rightarrow> (obj_addr \<Rightarrow> beat) \<Rightarrow> obj_addr \<Rightarrow> beat" where
  "obj_store p i w mem = (let a = (p, 8 * (i div 2)) in mem(a := (if even i then (w, snd (mem a)) else (fst (mem a), w))))"

lemma obj_word_store: "obj_word (obj_store p i w mem) p' i' = (if p' = p \<and> i' = i then w else obj_word mem p' i')"
proof -
  have "i' div 2 = i div 2 \<Longrightarrow> even i' = even i \<Longrightarrow> i' = i" by presburger
  then show ?thesis by (auto simp: obj_word_def obj_store_def Let_def)
qed

lemma u32_of_nat: "k < 2 ^ 32 \<Longrightarrow> unat (of_nat k :: u32) = k"
  using unat_of_nat_less [of k, where ?'a = 32] by simp

section \<open>Commands for a whole buffer\<close>

text \<open>
  \<^verbatim>\<open>Memread.bsv\<close> and \<^verbatim>\<open>Memwrite.bsv\<close> ask for a buffer of \<open>h\<close> beats with one command, in bursts of 16 words.
\<close>

definition rd_sizes :: "nat \<Rightarrow> bool" where
  "rd_sizes h \<longleftrightarrow> 0 < h \<and> 8 dvd h \<and> 8 * h < 2 ^ 32"

lemma unat_u32_double: "rd_sizes h \<Longrightarrow> unat (of_nat (2 * h) :: u32) = 2 * h"
  by (rule u32_of_nat) (simp add: rd_sizes_def)

lemma chunk_words:
  fixes nw :: u32
  assumes "rd_sizes h" "nw = of_nat (2 * h)"
  defines "c \<equiv> ucast nw * 4 :: 40 word"
  shows "ucast (c div 4) = (of_nat (2 * h) :: u32)" "ucast c = (of_nat (8 * h) :: u32)" "unat (ucast c div 4 :: u32) = 2 * h"
proof -
  have lim: "8 * h < 2 ^ 32" using assms(1) by (simp add: rd_sizes_def)
  have lim40: "8 * h < 2 ^ 40" using lim by simp
  have nw: "unat (ucast nw :: 40 word) = 2 * h"
    using assms(1,2) lim40 by (simp add: unat_ucast_down unat_u32_double del: of_nat_mult)
  have c: "unat c = 8 * h" using nw lim40 by (simp add: c_def unat_word_ariths(2))
  have "unat (c div 4) = 2 * h" using c by (simp add: unat_div_distrib)
  then show "ucast (c div 4) = (of_nat (2 * h) :: u32)"
    using lim unat_u32_double [OF assms(1)] by (simp add: word_unat_eq_iff unat_ucast_down del: of_nat_mult)
  show e: "ucast c = (of_nat (8 * h) :: u32)"
    using c lim u32_of_nat [OF lim] by (simp add: word_unat_eq_iff unat_ucast_down del: of_nat_mult)
  show "unat (ucast c div 4 :: u32) = 2 * h" unfolding e using u32_of_nat [OF lim] by (simp add: unat_div_distrib del: of_nat_mult)
qed

lemma chunk_cmd_laws:
  assumes "rd_sizes h" "cmd_base c = 0" "cmd_burstLen c = 64" "cmd_len c = of_nat (8 * h)"
  shows "cmd_ok c" "cmd_beats c = h" "burst_beats c = 8" "map fst (cmd_todo c) = map (\<lambda>j. (cmd_pointer c, 8 * j)) [0..<h]"
proof -
  have lim: "8 * h < 2 ^ 32" "0 < h" "8 dvd h" using assms(1) by (auto simp: rd_sizes_def)
  have l: "unat (cmd_len c) = 8 * h" "unat (cmd_burstLen c) = 64" "unat (cmd_base c) = 8 * 0"
    using u32_of_nat [OF lim(1)] assms(2-4) by (simp_all del: of_nat_mult)
  have "64 dvd 8 * h" using mult_dvd_mono [OF dvd_refl lim(3), of 8] by simp
  then show "cmd_ok c" using l lim by (simp add: cmd_ok_def)
  show b: "cmd_beats c = h" "burst_beats c = 8" using l(1,2) by (simp_all add: cmd_beats_def burst_beats_def)
  show "map fst (cmd_todo c) = map (\<lambda>j. (cmd_pointer c, 8 * j)) [0..<h]" unfolding cmd_todo_addresses [OF l(3)] b by simp
qed

text \<open>The words that the examples expect in a beat: their indices.\<close>

definition index_beat :: "nat \<Rightarrow> beat" where
  "index_beat j = (of_nat (2 * j), of_nat (2 * j + 1))"

lemma index_beat_iff: "mem (p, 8 * j) = index_beat j \<longleftrightarrow> obj_word mem p (2 * j) = of_nat (2 * j) \<and> obj_word mem p (2 * j + 1) = of_nat (2 * j + 1)"
  by (cases "mem (p, 8 * j)") (auto simp: obj_word_def index_beat_def)

end
