(* ===== verification/Memcpy.thy ===== *)
theory Memcpy
  imports Mem_Engine Rule_System
begin

text \<open>
  The copying example: \<^verbatim>\<open>examples/memcpy/Memcpy.bsv\<close>, which moves the words of one buffer into another through both
  engines and a fifo of 16 beats, and the program \<^verbatim>\<open>lib/cpp/testmemcpy.h\<close> that starts it and compares the buffers.
\<close>

section \<open>The design\<close>

record memcpy_hw =
  rdIterCnt :: u32
  wrIterCnt :: u32
  rdCnt :: u32
  wrCnt :: u32
  rdPointer :: u32
  wrPointer :: u32
  mc_burstLen :: u32
  mc_numWords :: u32
  mc_buffer :: "beat list"
  rdBuffer :: u32
  wrBuffer :: u32
  mc_re :: read_engine
  mc_we :: write_engine

definition mkMemcpy :: memcpy_hw where
  "mkMemcpy = \<lparr>rdIterCnt = 0, wrIterCnt = 0, rdCnt = 0, wrCnt = 0, rdPointer = 0, wrPointer = 0, mc_burstLen = 0, mc_numWords = 0,
     mc_buffer = [], rdBuffer = 32, wrBuffer = 0, mc_re = read_engine_reset, mc_we = write_engine_reset\<rparr>"

definition startCopy :: "u32 \<Rightarrow> u32 \<Rightarrow> u32 \<Rightarrow> u32 \<Rightarrow> u32 \<Rightarrow> memcpy_hw \<Rightarrow> memcpy_hw" where
  "startCopy wp rp nw bl ic s =
     s\<lparr>wrPointer := wp, rdPointer := rp, mc_numWords := nw, wrIterCnt := ic, rdIterCnt := ic, mc_burstLen := bl\<rparr>"

definition burst_cmd :: "u32 \<Rightarrow> u32 \<Rightarrow> u32 \<Rightarrow> mem_cmd" where
  "burst_cmd p cnt bl = \<lparr>cmd_pointer = p, cmd_base = ucast (cnt * 4), cmd_burstLen = ucast (bl * 4), cmd_len = bl * 4\<rparr>"

text \<open>The counter of words and that of iterations after a burst was asked for.\<close>

definition burst_advance :: "memcpy_hw \<Rightarrow> u32 \<Rightarrow> u32 \<Rightarrow> u32 \<times> u32" where
  "burst_advance s cnt it = (if cnt + mc_burstLen s \<ge> mc_numWords s then (0, it - 1) else (cnt + mc_burstLen s, it))"

text \<open>
  The rules, on the state, the memory and the number of \<^verbatim>\<open>done\<close> indications; \<open>wcap\<close> is the number of beats that
  the write engine and its funnel hold.
\<close>

inductive memcpy_rule :: "nat \<Rightarrow> memcpy_hw \<times> (obj_addr \<Rightarrow> beat) \<times> nat \<Rightarrow> memcpy_hw \<times> (obj_addr \<Rightarrow> beat) \<times> nat \<Rightarrow> bool" for wcap where
  start_read: "\<lbrakk>rdIterCnt s > 0; rdBuffer s \<ge> mc_burstLen s; re_put 1 (burst_cmd (rdPointer s) (rdCnt s) (mc_burstLen s)) (mc_re s) = Some e;
    burst_advance s (rdCnt s) (rdIterCnt s) = (cnt, it)\<rbrakk> \<Longrightarrow>
    memcpy_rule wcap (s, mem, d) (s\<lparr>mc_re := e, rdBuffer := rdBuffer s - mc_burstLen s, rdCnt := cnt, rdIterCnt := it\<rparr>, mem, d)"
| start_write: "\<lbrakk>wrIterCnt s > 0; wrBuffer s \<ge> mc_burstLen s; we_put 1 (burst_cmd (wrPointer s) (wrCnt s) (mc_burstLen s)) (mc_we s) = Some e;
    burst_advance s (wrCnt s) (wrIterCnt s) = (cnt, it)\<rbrakk> \<Longrightarrow>
    memcpy_rule wcap (s, mem, d) (s\<lparr>mc_we := e, wrBuffer := wrBuffer s - mc_burstLen s, wrCnt := cnt, wrIterCnt := it\<rparr>, mem, d)"
| read_finish: "re_response (mc_re s) = Some e \<Longrightarrow> memcpy_rule wcap (s, mem, d) (s\<lparr>mc_re := e\<rparr>, mem, d)"
| write_finish: "we_response (mc_we s) = Some e \<Longrightarrow>
    memcpy_rule wcap (s, mem, d) (s\<lparr>mc_we := e\<rparr>, mem, if wrIterCnt s = 0 then d + 1 else d)"
| fill_buffer: "\<lbrakk>re_deq (mc_re s) = Some (v, e); length (mc_buffer s) < 16\<rbrakk> \<Longrightarrow>
    memcpy_rule wcap (s, mem, d) (s\<lparr>mc_re := e, mc_buffer := mc_buffer s @ [v], wrBuffer := wrBuffer s + 2\<rparr>, mem, d)"
| drain_buffer: "\<lbrakk>mc_buffer s = v # vs; we_enq wcap v (mc_we s) = Some e\<rbrakk> \<Longrightarrow>
    memcpy_rule wcap (s, mem, d) (s\<lparr>mc_we := e, mc_buffer := vs, rdBuffer := rdBuffer s + 2\<rparr>, mem, d)"
| in_reader: "re_rule mem (mc_re s) e \<Longrightarrow> memcpy_rule wcap (s, mem, d) (s\<lparr>mc_re := e\<rparr>, mem, d)"
| in_writer: "we_rule (mc_we s, mem) (e, mem') \<Longrightarrow> memcpy_rule wcap (s, mem, d) (s\<lparr>mc_we := e\<rparr>, mem', d)"

section \<open>The program\<close>

definition memcpy_words :: nat where "memcpy_words = 16 * 2 ^ 18"

definition memcmp_words :: "u32 \<Rightarrow> u32 \<Rightarrow> (obj_addr \<Rightarrow> beat) \<Rightarrow> bool" where
  "memcmp_words src dst mem \<longleftrightarrow> \<not> list_all (\<lambda>i. obj_word mem src i = obj_word mem dst i) [0..<memcpy_words]"

definition fill_buffers :: "u32 \<Rightarrow> u32 \<Rightarrow> (obj_addr \<Rightarrow> beat) \<Rightarrow> obj_addr \<Rightarrow> beat" where
  "fill_buffers src dst mem = fold (\<lambda>i m. obj_store dst i 0x5a5abeef (obj_store src i (of_nat i) m)) [0..<memcpy_words] mem"

text \<open>
  \<^verbatim>\<open>runtest\<close> has asked for the copy and waits; the thread that handles \<^verbatim>\<open>done\<close> posts the semaphore before it compares, so that
  \<^verbatim>\<open>main\<close> can leave with \<^verbatim>\<open>memcmp_fail\<close> before it is set.
\<close>

record memcpy_sys =
  cp_hw :: "memcpy_hw \<times> (obj_addr \<Rightarrow> beat) \<times> nat"
  cp_handled :: nat
  cp_sem :: nat
  cp_comparing :: bool
  memcmp_fail :: bool
  cp_exit :: "bool option"

inductive memcpy_step :: "nat \<Rightarrow> u32 \<Rightarrow> u32 \<Rightarrow> memcpy_sys \<Rightarrow> memcpy_sys \<Rightarrow> bool" for wcap src dst where
  hardware: "memcpy_rule wcap (cp_hw s) h \<Longrightarrow> memcpy_step wcap src dst s (s\<lparr>cp_hw := h\<rparr>)"
| done_post: "\<lbrakk>cp_exit s = None; \<not> cp_comparing s; cp_handled s < snd (snd (cp_hw s))\<rbrakk> \<Longrightarrow>
    memcpy_step wcap src dst s (s\<lparr>cp_handled := cp_handled s + 1, cp_sem := cp_sem s + 1, cp_comparing := True\<rparr>)"
| done_compare: "\<lbrakk>cp_exit s = None; cp_comparing s\<rbrakk> \<Longrightarrow>
    memcpy_step wcap src dst s (s\<lparr>cp_comparing := False, memcmp_fail := memcmp_words src dst (fst (snd (cp_hw s)))\<rparr>)"
| main_exit: "\<lbrakk>cp_exit s = None; 0 < cp_sem s\<rbrakk> \<Longrightarrow>
    memcpy_step wcap src dst s (s\<lparr>cp_sem := cp_sem s - 1, cp_exit := Some (memcmp_fail s)\<rparr>)"

definition memcpy_runtest :: "u32 \<Rightarrow> u32 \<Rightarrow> (obj_addr \<Rightarrow> beat) \<Rightarrow> memcpy_sys" where
  "memcpy_runtest ref_srcAlloc ref_dstAlloc mem =
     \<lparr>cp_hw = (startCopy ref_dstAlloc ref_srcAlloc (of_nat memcpy_words) 16 64 mkMemcpy, fill_buffers ref_srcAlloc ref_dstAlloc mem, 0),
      cp_handled = 0, cp_sem = 0, cp_comparing = False, memcmp_fail = False, cp_exit = None\<rparr>"

section \<open>What is still to be copied\<close>

text \<open>
  Bursts of \<open>b\<close> beats, \<open>q\<close> of them in an iteration: the beats from burst \<open>a\<close> on, for \<open>it\<close> iterations.
\<close>

definition rest :: "nat \<Rightarrow> nat \<Rightarrow> nat \<Rightarrow> nat \<Rightarrow> nat list" where
  "rest b q a it = (if it = 0 then [] else [a * b..<q * b] @ concat (replicate (it - 1) [0..<q * b]))"

text \<open>The position after a burst.\<close>

definition after_burst :: "nat \<Rightarrow> nat \<times> nat \<Rightarrow> nat \<times> nat" where
  "after_burst q = (\<lambda>(a, it). if Suc a = q then (0, it - 1) else (Suc a, it))"

lemma rest_burst:
  assumes "a < q" "0 < it"
  shows "rest b q a it = [a * b..<a * b + b] @ (case after_burst q (a, it) of (a', it') \<Rightarrow> rest b q a' it')"
proof -
  have le: "a * b + b \<le> q * b" using mult_le_mono1 [of "Suc a" q b] assms(1) by simp
  have sp: "[a * b..<q * b] = [a * b..<a * b + b] @ [a * b + b..<q * b]"
    using upt_add_eq_append [of "a * b" "a * b + b" "q * b - (a * b + b)"] le by simp
  show ?thesis
  proof (cases "Suc a = q")
    case True
    then have q: "q * b = a * b + b" by auto
    have "concat (replicate (it - 1) [0..<q * b]) = rest b q 0 (it - 1)"
      by (cases "it - 1") (simp_all add: rest_def)
    then show ?thesis using True assms(2) q by (simp add: rest_def after_burst_def)
  next
    case False
    then show ?thesis using assms(2) sp by (simp add: rest_def after_burst_def add.commute [of b "a * b"])
  qed
qed

lemma rest_length: "a < q \<Longrightarrow> 0 < it \<Longrightarrow> b \<le> length (rest b q a it)"
  by (subst rest_burst) simp_all

lemma after_burst_less: "0 < q \<Longrightarrow> a < q \<Longrightarrow> after_burst q (a, it) = (a', it') \<Longrightarrow> a' < q \<and> it' \<le> it"
  by (auto simp: after_burst_def split: if_splits)

text \<open>The sizes: an even number of words in a burst, at most the 32 for which there is room.\<close>

definition copy_sizes :: "nat \<Rightarrow> nat \<Rightarrow> bool" where
  "copy_sizes b q \<longleftrightarrow> 0 < b \<and> b \<le> 16 \<and> 0 < q \<and> 8 * (b * q) < 2 ^ 32"

lemma copy_sizes_less: "copy_sizes b q \<Longrightarrow> a < q \<Longrightarrow> 8 * (a * b) + 8 * b < 2 ^ 32"
proof -
  assume c: "copy_sizes b q" "a < q"
  then have "Suc a * b \<le> q * b" by (intro mult_le_mono1) simp
  then show ?thesis using c by (simp add: copy_sizes_def mult.commute)
qed

lemma burst_cmd_laws:
  fixes p :: u32
  assumes "copy_sizes b q" "a < q"
  defines "c \<equiv> burst_cmd p (of_nat (2 * (a * b))) (of_nat (2 * b))"
  shows "cmd_ok c" "burst_beats c = b" "cmd_beats c = b" "map fst (cmd_todo c) = map (\<lambda>j. (p, 8 * j)) [a * b..<a * b + b]"
proof -
  have b: "0 < b" "b \<le> 16" using assms(1) by (auto simp: copy_sizes_def)
  have lim: "8 * (a * b) + 8 * b < 2 ^ 32" using copy_sizes_less [OF assms(1,2)] .
  have w: "of_nat (2 * (a * b)) * 4 = (of_nat (8 * (a * b)) :: u32)" "of_nat (2 * b) * 4 = (of_nat (8 * b) :: u32)" by simp_all
  have base: "unat (cmd_base c) = 8 * (a * b)"
  proof -
    have "(2::nat) ^ 32 < 2 ^ 40" by simp
    then have "8 * (a * b) < 2 ^ 40" using lim by linarith
    then show ?thesis using lim u32_of_nat [of "8 * (a * b)"] unfolding c_def burst_cmd_def w by (simp add: unat_ucast_down)
  qed
  have len: "unat (cmd_len c) = 8 * b" using u32_of_nat [of "8 * b"] b unfolding c_def burst_cmd_def w by simp
  have bl: "unat (cmd_burstLen c) = 8 * b" using u32_of_nat [of "8 * b"] b unfolding c_def burst_cmd_def w by (simp add: unat_ucast_down)
  show ok: "cmd_ok c" using base len bl b lim by (simp add: cmd_ok_def)
  show "burst_beats c = b" "cmd_beats c = b" using bl len by (simp_all add: burst_beats_def cmd_beats_def)
  then show "map fst (cmd_todo c) = map (\<lambda>j. (p, 8 * j)) [a * b..<a * b + b]"
    using cmd_todo_addresses [OF base] by (simp add: c_def burst_cmd_def)
qed

section \<open>The invariant of a copy\<close>

text \<open>The registers, as the counts of bursts and iterations they stand for.\<close>

definition copy_regs :: "nat \<Rightarrow> nat \<Rightarrow> u32 \<Rightarrow> u32 \<Rightarrow> nat \<times> nat \<Rightarrow> nat \<times> nat \<Rightarrow> memcpy_hw \<Rightarrow> bool" where
  "copy_regs b q src dst = (\<lambda>(ra, ri) (wa, wi) s.
     copy_sizes b q \<and> src \<noteq> dst \<and> mc_burstLen s = of_nat (2 * b) \<and> mc_numWords s = of_nat (2 * (q * b)) \<and> rdPointer s = src \<and> wrPointer s = dst \<and>
     ra < q \<and> ri < 2 ^ 32 \<and> rdCnt s = of_nat (2 * (ra * b)) \<and> rdIterCnt s = of_nat ri \<and>
     wa < q \<and> wi < 2 ^ 32 \<and> wrCnt s = of_nat (2 * (wa * b)) \<and> wrIterCnt s = of_nat wi)"

text \<open>The reader asks for the source only, and what is on its way are the beats of the source.\<close>

definition copy_data :: "nat \<Rightarrow> nat \<Rightarrow> u32 \<Rightarrow> u32 \<Rightarrow> (nat \<Rightarrow> beat) \<Rightarrow> nat \<times> nat \<Rightarrow> nat \<times> nat \<Rightarrow> memcpy_hw \<Rightarrow> (obj_addr \<Rightarrow> beat) \<Rightarrow> bool" where
  "copy_data b q src dst m0 = (\<lambda>(ra, ri) (wa, wi) s mem.
     (\<forall>off. mem (src, off) = m0 off) \<and> (\<forall>t \<in> set (ld_todo (re_loader (mc_re s))). fst (fst t) = src) \<and>
     copied (q * b) dst m0 mem (we_stores (mc_we s))
       (we_data (mc_we s) @ mc_buffer s @ re_stream mem (mc_re s) @ map (\<lambda>j. m0 (8 * j)) (rest b q ra ri))
       (we_left (mc_we s) @ map (\<lambda>j. (dst, 8 * j)) (rest b q wa wi)))"

text \<open>The credits: words for which the fifo has room, and words in it or behind it that no burst was asked for.\<close>

definition copy_credits :: "memcpy_hw \<Rightarrow> (obj_addr \<Rightarrow> beat) \<Rightarrow> bool" where
  "copy_credits s mem \<longleftrightarrow>
     length (re_stream mem (mc_re s)) + length (mc_buffer s) \<le> 16 \<and>
     rdBuffer s = of_nat (32 - 2 * (length (re_stream mem (mc_re s)) + length (mc_buffer s))) \<and>
     (\<exists>w. w < 2 ^ 31 \<and> wrBuffer s = of_nat (2 * w) \<and> length (we_data (mc_we s)) + length (mc_buffer s) = w + length (we_left (mc_we s)))"

definition copy_inv :: "nat \<Rightarrow> nat \<Rightarrow> nat \<Rightarrow> u32 \<Rightarrow> u32 \<Rightarrow> (nat \<Rightarrow> beat) \<Rightarrow> nat \<times> nat \<Rightarrow> nat \<times> nat \<Rightarrow> memcpy_hw \<times> (obj_addr \<Rightarrow> beat) \<times> nat \<Rightarrow> bool" where
  "copy_inv wcap b q src dst m0 r w = (\<lambda>(s, mem, d).
     16 \<le> wcap \<and> wcap < 2 ^ 30 \<and> length (we_data (mc_we s)) \<le> wcap \<and> re_inv 1 (mc_re s) \<and> we_inv 1 b (mc_we s) \<and> ld_outs0 (re_loader (mc_re s)) \<le> 1 \<and> ld_outs0 (we_loader (mc_we s)) \<le> 1 \<and>
     copy_regs b q src dst r w s \<and> copy_data b q src dst m0 r w s mem \<and> copy_credits s mem \<and>
     d = of_bool (snd w = 0 \<and> ld_outs0 (we_loader (mc_we s)) = 0))"

lemma re_stream_other:
  assumes "\<forall>t \<in> set (ld_todo (re_loader e)). mem' (fst t) = mem (fst t)"
  shows "re_stream mem' e = re_stream mem e"
  using assms by (simp add: re_stream_def)

lemma burst_advance_laws:
  assumes "copy_sizes b q" "mc_burstLen s = of_nat (2 * b)" "mc_numWords s = of_nat (2 * (q * b))" "a < q" "0 < it" "it < 2 ^ 32"
    "after_burst q (a, it) = (a', it')" "burst_advance s (of_nat (2 * (a * b))) (of_nat it) = (cnt, n)"
  shows "cnt = of_nat (2 * (a' * b))" "n = of_nat it'"
proof -
  have lim: "2 * (Suc a * b) < 2 ^ 32" "2 * (q * b) < 2 ^ 32"
    using copy_sizes_less [OF assms(1,4)] assms(1) by (auto simp: copy_sizes_def mult.commute)
  have e: "of_nat (2 * (a * b)) + of_nat (2 * b) = (of_nat (2 * (Suc a * b)) :: u32)" by (simp add: algebra_simps)
  have "of_nat (2 * (a * b)) + mc_burstLen s \<ge> mc_numWords s \<longleftrightarrow> q * b \<le> Suc a * b"
    unfolding assms(2,3) e by (simp add: word_le_nat_alt u32_of_nat [OF lim(1)] u32_of_nat [OF lim(2)] del: of_nat_mult mult_Suc)
  also have "\<dots> \<longleftrightarrow> Suc a = q" using assms(1,4) mult_le_cancel2 [of q b "Suc a"] by (auto simp: copy_sizes_def simp del: mult_Suc)
  finally have c: "of_nat (2 * (a * b)) + mc_burstLen s \<ge> mc_numWords s \<longleftrightarrow> Suc a = q" .
  have "(of_nat it :: u32) - 1 = of_nat (it - 1)" using assms(5) by (cases it) simp_all
  then show "cnt = of_nat (2 * (a' * b))" "n = of_nat it'"
    using assms(7,8) c e unfolding burst_advance_def assms(2) by (auto simp: after_burst_def algebra_simps split: if_splits)
qed

text \<open>The credits as numbers.\<close>

lemma copy_credits_read:
  assumes "copy_credits s mem" "mc_burstLen s = of_nat (2 * b)" "b \<le> 16"
  defines "x \<equiv> length (re_stream mem (mc_re s)) + length (mc_buffer s)"
  shows "rdBuffer s \<ge> mc_burstLen s \<longleftrightarrow> x + b \<le> 16" "x + b \<le> 16 \<Longrightarrow> rdBuffer s - mc_burstLen s = of_nat (32 - 2 * (x + b))"
    "0 < x \<Longrightarrow> rdBuffer s + 2 = of_nat (32 - 2 * (x - 1))"
proof -
  have r: "rdBuffer s = of_nat (32 - 2 * x)" "x \<le> 16" using assms(1) by (auto simp: copy_credits_def x_def)
  have u: "unat (of_nat (32 - 2 * x) :: u32) = 32 - 2 * x" "unat (of_nat (2 * b) :: u32) = 2 * b" using assms(3) by - (rule u32_of_nat, simp)+
  show "rdBuffer s \<ge> mc_burstLen s \<longleftrightarrow> x + b \<le> 16"
    unfolding r(1) assms(2) using r(2) by (simp add: word_le_nat_alt u del: of_nat_mult of_nat_diff) linarith
  show "rdBuffer s - mc_burstLen s = of_nat (32 - 2 * (x + b))" if "x + b \<le> 16"
  proof -
    have "32 - 2 * x = 32 - 2 * (x + b) + 2 * b" using that by simp
    then have "(of_nat (32 - 2 * x) :: u32) = of_nat (32 - 2 * (x + b)) + of_nat (2 * b)" by (metis of_nat_add)
    then show ?thesis unfolding r(1) assms(2) by simp
  qed
  show "rdBuffer s + 2 = of_nat (32 - 2 * (x - 1))" if "0 < x"
  proof -
    have "32 - 2 * (x - 1) = 32 - 2 * x + 2" using that r(2) by simp
    then show ?thesis unfolding r(1) by (simp del: of_nat_diff)
  qed
qed

lemma copy_credits_write:
  assumes "mc_burstLen s = of_nat (2 * b)" "b \<le> 16" "w < 2 ^ 31" "wrBuffer s = of_nat (2 * w)"
  shows "wrBuffer s \<ge> mc_burstLen s \<longleftrightarrow> b \<le> w" "b \<le> w \<Longrightarrow> wrBuffer s - mc_burstLen s = of_nat (2 * (w - b))"
proof -
  have u: "unat (of_nat (2 * w) :: u32) = 2 * w" "unat (of_nat (2 * b) :: u32) = 2 * b" using assms(2,3) by - (rule u32_of_nat, simp)+
  show "wrBuffer s \<ge> mc_burstLen s \<longleftrightarrow> b \<le> w" unfolding assms(1,4) by (simp add: word_le_nat_alt u del: of_nat_mult)
  show "wrBuffer s - mc_burstLen s = of_nat (2 * (w - b))" if "b \<le> w"
    unfolding assms(1,4) using that by simp
qed

lemma start_read_inv:
  assumes "copy_inv wcap b q src dst m0 (ra, ri) w (s, mem, d)" "rdIterCnt s > 0" "rdBuffer s \<ge> mc_burstLen s"
    "re_put 1 (burst_cmd (rdPointer s) (rdCnt s) (mc_burstLen s)) (mc_re s) = Some e" "burst_advance s (rdCnt s) (rdIterCnt s) = (cnt, it)"
  defines "s' \<equiv> s\<lparr>mc_re := e, rdBuffer := rdBuffer s - mc_burstLen s, rdCnt := cnt, rdIterCnt := it\<rparr>"
  shows "copy_inv wcap b q src dst m0 (after_burst q (ra, ri)) w (s', mem, d)"
proof -
  obtain wa wi where w: "w = (wa, wi)" by (cases w)
  obtain ra' ri' where ab: "after_burst q (ra, ri) = (ra', ri')" by (cases "after_burst q (ra, ri)")
  have regs: "copy_regs b q src dst (ra, ri) (wa, wi) s" and dat: "copy_data b q src dst m0 (ra, ri) (wa, wi) s mem"
    and cr: "copy_credits s mem" and re: "re_inv 1 (mc_re s)" and o: "ld_outs0 (re_loader (mc_re s)) \<le> 1" using assms(1) w by (auto simp: copy_inv_def)
  have rg: "copy_sizes b q" "mc_burstLen s = of_nat (2 * b)" "mc_numWords s = of_nat (2 * (q * b))" "rdPointer s = src" "ra < q" "ri < 2 ^ 32"
    "rdCnt s = of_nat (2 * (ra * b))" "rdIterCnt s = of_nat ri" using regs by (auto simp: copy_regs_def)
  have b: "b \<le> 16" "0 < q" using rg(1) by (auto simp: copy_sizes_def)
  have ri: "0 < ri" using assms(2) rg(8) by (cases ri) auto
  define c where "c = burst_cmd src (of_nat (2 * (ra * b))) (of_nat (2 * b))"
  note cl = burst_cmd_laws [OF rg(1,5), of src, folded c_def]
  have put: "re_put 1 c (mc_re s) = Some e" using assms(4) rg by (simp add: c_def)
  note pl = rd.put_laws [OF re cl(1) put, of mem]
  have src: "map (mem \<circ> fst) (cmd_todo c) = map (\<lambda>j. m0 (8 * j)) [ra * b..<ra * b + b]"
  proof -
    have "map (mem \<circ> fst) (cmd_todo c) = map mem (map fst (cmd_todo c))" by simp
    then show ?thesis unfolding cl(4) using dat by (simp add: copy_data_def comp_def)
  qed
  have todo: "ld_todo (re_loader e) = ld_todo (re_loader (mc_re s)) @ cmd_todo c"
    using put re cl(1) ld_put_laws(2) by (auto simp: re_put_def re_inv_def)
  have cf: "\<forall>t \<in> set (cmd_todo c). fst (fst t) = src"
  proof -
    have "\<forall>a \<in> set (map fst (cmd_todo c)). fst a = src" unfolding cl(4) by auto
    then show ?thesis by simp
  qed
  have adv: "cnt = of_nat (2 * (ra' * b))" "it = of_nat ri'"
    using burst_advance_laws [OF rg(1-3,5) ri rg(6) ab] assms(5) rg(7,8) by auto
  have "copy_regs b q src dst (ra', ri') (wa, wi) s'"
    using regs adv after_burst_less [OF b(2) rg(5) ab] by (auto simp: copy_regs_def s'_def)
  moreover have "copy_data b q src dst m0 (ra', ri') (wa, wi) s' mem"
    using dat todo cf pl src rest_burst [OF rg(5) ri, of b] ab by (simp add: copy_data_def s'_def ball_Un)
  moreover have "copy_credits s' mem"
  proof -
    note c = copy_credits_read [OF cr rg(2) b(1)]
    have len: "length (re_stream mem e) = length (re_stream mem (mc_re s)) + b" using pl cl(3) by simp
    have x: "length (re_stream mem (mc_re s)) + length (mc_buffer s) + b \<le> 16" using c(1) assms(3) by blast
    show ?thesis using cr c(2) [OF x] x len by (auto simp: copy_credits_def s'_def add_ac)
  qed
  moreover have "ld_outs0 (re_loader e) \<le> 1" using put by (auto simp: re_put_def ld_put_def split: if_splits)
  ultimately show ?thesis using assms(1) pl w ab by (auto simp: copy_inv_def s'_def)
qed

lemma start_write_inv:
  assumes "copy_inv wcap b q src dst m0 r (wa, wi) (s, mem, d)" "wrIterCnt s > 0" "wrBuffer s \<ge> mc_burstLen s"
    "we_put 1 (burst_cmd (wrPointer s) (wrCnt s) (mc_burstLen s)) (mc_we s) = Some e" "burst_advance s (wrCnt s) (wrIterCnt s) = (cnt, it)"
  defines "s' \<equiv> s\<lparr>mc_we := e, wrBuffer := wrBuffer s - mc_burstLen s, wrCnt := cnt, wrIterCnt := it\<rparr>"
  shows "copy_inv wcap b q src dst m0 r (after_burst q (wa, wi)) (s', mem, d)"
proof -
  obtain ra ri where r: "r = (ra, ri)" by (cases r)
  obtain wa' wi' where ab: "after_burst q (wa, wi) = (wa', wi')" by (cases "after_burst q (wa, wi)")
  have regs: "copy_regs b q src dst (ra, ri) (wa, wi) s" and dat: "copy_data b q src dst m0 (ra, ri) (wa, wi) s mem"
    and cr: "copy_credits s mem" and we: "we_inv 1 b (mc_we s)" using assms(1) r by (auto simp: copy_inv_def)
  have rg: "copy_sizes b q" "mc_burstLen s = of_nat (2 * b)" "mc_numWords s = of_nat (2 * (q * b))" "wrPointer s = dst" "wa < q" "wi < 2 ^ 32"
    "wrCnt s = of_nat (2 * (wa * b))" "wrIterCnt s = of_nat wi" using regs by (auto simp: copy_regs_def)
  have b: "b \<le> 16" "0 < q" using rg(1) by (auto simp: copy_sizes_def)
  have wi: "0 < wi" using assms(2) rg(8) by (cases wi) auto
  define c where "c = burst_cmd dst (of_nat (2 * (wa * b))) (of_nat (2 * b))"
  note cl = burst_cmd_laws [OF rg(1,5), of dst, folded c_def]
  have put: "we_put 1 c (mc_we s) = Some e" using assms(4) rg by (simp add: c_def)
  have "cmd_ok c \<and> burst_beats c \<le> b" using cl(1,2) by simp
  note pl = wr.put_laws [OF we this put]
  have adv: "cnt = of_nat (2 * (wa' * b))" "it = of_nat wi'"
    using burst_advance_laws [OF rg(1-3,5) wi rg(6) ab] assms(5) rg(7,8) by auto
  have "copy_regs b q src dst (ra, ri) (wa', wi') s'"
    using regs adv after_burst_less [OF b(2) rg(5) ab] by (auto simp: copy_regs_def s'_def)
  moreover have "copy_data b q src dst m0 (ra, ri) (wa', wi') s' mem"
  proof -
    have "we_left e @ map (\<lambda>j. (dst, 8 * j)) (rest b q wa' wi') = we_left (mc_we s) @ map (\<lambda>j. (dst, 8 * j)) (rest b q wa wi)"
      using pl cl(4) rest_burst [OF rg(5) wi, of b] ab by simp
    then show ?thesis using dat pl by (simp add: copy_data_def s'_def)
  qed
  moreover have "copy_credits s' mem"
  proof -
    obtain k where k: "k < 2 ^ 31" "wrBuffer s = of_nat (2 * k)" "length (we_data (mc_we s)) + length (mc_buffer s) = k + length (we_left (mc_we s))"
      using cr by (auto simp: copy_credits_def)
    note c = copy_credits_write [OF rg(2) b(1) k(1,2)]
    have le: "b \<le> k" using c(1) assms(3) by blast
    have "length (we_left e) = length (we_left (mc_we s)) + b" using pl cl(3) by simp
    then show ?thesis using cr c(2) [OF le] k le pl unfolding copy_credits_def s'_def by (auto intro!: exI [of _ "k - b"])
  qed
  moreover have "ld_outs0 (we_loader e) = 1" using put by (auto simp: we_put_def ld_put_def split: if_splits)
  ultimately show ?thesis using assms(1) pl r ab wi by (auto simp: copy_inv_def s'_def)
qed

lemma read_finish_inv:
  assumes "copy_inv wcap b q src dst m0 r w (s, mem, d)" "re_response (mc_re s) = Some e"
  shows "copy_inv wcap b q src dst m0 r w (s\<lparr>mc_re := e\<rparr>, mem, d)"
proof -
  have re: "re_inv 1 (mc_re s)" using assms(1) by (simp add: copy_inv_def)
  have "ld_todo (re_loader e) = ld_todo (re_loader (mc_re s))" using assms(2) by (auto simp: re_response_def ld_response_def split: if_splits)
  then show ?thesis using assms(1) rd.response_laws [OF re assms(2), of mem]
    by (auto simp: copy_inv_def copy_regs_def copy_data_def copy_credits_def split: prod.splits)
qed

lemma write_finish_inv:
  assumes "copy_inv wcap b q src dst m0 r w (s, mem, d)" "we_response (mc_we s) = Some e"
  shows "copy_inv wcap b q src dst m0 r w (s\<lparr>mc_we := e\<rparr>, mem, if wrIterCnt s = 0 then d + 1 else d)"
proof -
  obtain wa wi where w: "w = (wa, wi)" by (cases w)
  have we: "we_inv 1 b (mc_we s)" using assms(1) by (simp add: copy_inv_def)
  note rl = wr.response_laws [OF we assms(2)]
  have "wrIterCnt s = of_nat wi" "wi < 2 ^ 32" using assms(1) w by (simp_all add: copy_inv_def copy_regs_def split: prod.splits)
  then have z: "wrIterCnt s = 0 \<longleftrightarrow> wi = 0" using u32_of_nat [of wi] unat_eq_0 [of "wrIterCnt s"] by simp
  have "copy_regs b q src dst r w (s\<lparr>mc_we := e\<rparr>)" "copy_data b q src dst m0 r w (s\<lparr>mc_we := e\<rparr>) mem" "copy_credits (s\<lparr>mc_we := e\<rparr>) mem"
    using assms(1) rl by (simp_all add: copy_inv_def copy_regs_def copy_data_def copy_credits_def split: prod.splits)
  moreover have "d = of_bool (wi = 0 \<and> ld_outs0 (we_loader (mc_we s)) = 0)" "ld_outs0 (we_loader (mc_we s)) \<le> 1" using assms(1) w by (simp_all add: copy_inv_def)
  ultimately show ?thesis using assms(1) rl w z by (simp add: copy_inv_def)
qed

lemma fill_buffer_inv:
  assumes "copy_inv wcap b q src dst m0 r w (s, mem, d)" "re_deq (mc_re s) = Some (v, e)"
  shows "copy_inv wcap b q src dst m0 r w (s\<lparr>mc_re := e, mc_buffer := mc_buffer s @ [v], wrBuffer := wrBuffer s + 2\<rparr>, mem, d)"
proof -
  have re: "re_inv 1 (mc_re s)" and cr: "copy_credits s mem" and cap: "length (we_data (mc_we s)) \<le> wcap" "wcap < 2 ^ 30" using assms(1) by (auto simp: copy_inv_def)
  note dl = rd.deq_laws [OF re assms(2), of mem]
  have td: "ld_todo (re_loader e) = ld_todo (re_loader (mc_re s))" using assms(2) by (auto simp: re_deq_def Let_def split: if_splits list.splits)
  obtain k where k: "k < 2 ^ 31" "wrBuffer s = of_nat (2 * k)" "length (we_data (mc_we s)) + length (mc_buffer s) = k + length (we_left (mc_we s))"
    using cr by (auto simp: copy_credits_def)
  have "length (mc_buffer s) \<le> 16" using cr by (simp add: copy_credits_def)
  then have "Suc k < 2 ^ 31" using k(3) cap by simp
  moreover have "wrBuffer s + 2 = of_nat (2 * Suc k)" using k(2) by simp
  ultimately have "copy_credits (s\<lparr>mc_re := e, mc_buffer := mc_buffer s @ [v], wrBuffer := wrBuffer s + 2\<rparr>) mem"
    using cr dl k(3) unfolding copy_credits_def by (auto intro!: exI [of _ "Suc k"])
  then show ?thesis using assms(1) dl td by (auto simp: copy_inv_def copy_regs_def copy_data_def split: prod.splits)
qed

lemma drain_buffer_inv:
  assumes "copy_inv wcap b q src dst m0 r w (s, mem, d)" "mc_buffer s = v # vs" "we_enq wcap v (mc_we s) = Some e"
  shows "copy_inv wcap b q src dst m0 r w (s\<lparr>mc_we := e, mc_buffer := vs, rdBuffer := rdBuffer s + 2\<rparr>, mem, d)"
proof -
  have we: "we_inv 1 b (mc_we s)" and cr: "copy_credits s mem" using assms(1) by (auto simp: copy_inv_def)
  have bl: "mc_burstLen s = of_nat (2 * b)" "b \<le> 16" using assms(1) by (auto simp: copy_inv_def copy_regs_def copy_sizes_def split: prod.splits)
  note el = wr.enq_laws [OF we assms(3)]
  have lt: "length (we_data (mc_we s)) < wcap" using assms(3) by (auto simp: we_enq_def split: if_splits)
  have "rdBuffer s + 2 = of_nat (32 - 2 * (length (re_stream mem (mc_re s)) + length vs))"
    using copy_credits_read(3) [OF cr bl] assms(2) by simp
  then have "copy_credits (s\<lparr>mc_we := e, mc_buffer := vs, rdBuffer := rdBuffer s + 2\<rparr>) mem"
    using cr el assms(2) by (auto simp: copy_credits_def simp del: of_nat_diff)
  then show ?thesis using assms(1,2) el lt by (auto simp: copy_inv_def copy_regs_def copy_data_def split: prod.splits)
qed

lemma re_rule_src: "re_rule mem e e' \<Longrightarrow> ld_inv (re_loader e) \<Longrightarrow> set (ld_todo (re_loader e')) \<subseteq> set (ld_todo (re_loader e))"
  by (cases rule: re_rule.cases)
     (auto simp: re_readData_def load_ctxt_laws(2) object_request_laws(2) dest!: ld_beat_laws(2) split: option.splits prod.splits)

lemma in_reader_inv:
  assumes "copy_inv wcap b q src dst m0 r w (s, mem, d)" "re_rule mem (mc_re s) e"
  shows "copy_inv wcap b q src dst m0 r w (s\<lparr>mc_re := e\<rparr>, mem, d)"
proof -
  have re: "re_inv 1 (mc_re s)" using assms(1) by (simp add: copy_inv_def)
  note rl = rd.rule_laws [OF re assms(2)]
  have sub: "set (ld_todo (re_loader e)) \<subseteq> set (ld_todo (re_loader (mc_re s)))" using re_rule_src [OF assms(2)] re by (simp add: re_inv_def)
  have "copy_regs b q src dst r w (s\<lparr>mc_re := e\<rparr>)" "copy_credits (s\<lparr>mc_re := e\<rparr>) mem"
    using assms(1) rl by (simp_all add: copy_inv_def copy_regs_def copy_credits_def split: prod.splits)
  moreover have "copy_data b q src dst m0 r w (s\<lparr>mc_re := e\<rparr>) mem"
    using assms(1) rl sub by (auto simp: copy_inv_def copy_data_def split: prod.splits)
  ultimately show ?thesis using assms(1) rl by (simp add: copy_inv_def)
qed

lemma in_writer_inv:
  assumes "copy_inv wcap b q src dst m0 r w (s, mem, d)" "we_rule (mc_we s, mem) (e, mem')"
  shows "copy_inv wcap b q src dst m0 r w (s\<lparr>mc_we := e\<rparr>, mem', d)"
proof -
  obtain ra ri wa wi where r: "r = (ra, ri)" "w = (wa, wi)" by (cases r; cases w)
  have we: "we_inv 1 b (mc_we s)" and dat: "copy_data b q src dst m0 (ra, ri) (wa, wi) s mem" and cr: "copy_credits s mem"
    and ne: "src \<noteq> dst" using assms(1) r by (auto simp: copy_inv_def copy_regs_def)
  note rl = wr.rule_laws [OF we assms(2)]
  then have st: "sink_step (we_left (mc_we s), we_data (mc_we s), we_stores (mc_we s), mem) (we_left e, we_data e, we_stores e, mem')" by blast
  have "\<forall>(a, v) \<in> set (we_stores (mc_we s)). fst a = dst" using dat by (fastforce simp: copy_data_def copied_def)
  then have same: "mem' a = mem a" if "fst a \<noteq> dst" for a using sink_step_mem [OF st _ that] by blast
  then have str: "re_stream mem' (mc_re s) = re_stream mem (mc_re s)" using dat ne by (intro re_stream_other) (auto simp: copy_data_def)
  have "copy_data b q src dst m0 r w (s\<lparr>mc_we := e\<rparr>) mem'"
    using dat copied_step [OF st] same ne unfolding copy_data_def r by (simp add: str)
  moreover have "copy_credits (s\<lparr>mc_we := e\<rparr>) mem'"
  proof -
    have "length (we_data e) + length (we_left (mc_we s)) = length (we_data (mc_we s)) + length (we_left e)" using st by (auto simp: sink_step_def)
    then show ?thesis using cr by (auto simp: copy_credits_def str)
  qed
  moreover have "copy_regs b q src dst r w (s\<lparr>mc_we := e\<rparr>)" using assms(1) r by (simp add: copy_inv_def copy_regs_def)
  moreover have "length (we_data e) \<le> wcap" using st assms(1) by (auto simp: sink_step_def copy_inv_def)
  ultimately show ?thesis using assms(1) rl by (simp add: copy_inv_def)
qed

definition copying :: "nat \<Rightarrow> nat \<Rightarrow> nat \<Rightarrow> u32 \<Rightarrow> u32 \<Rightarrow> (nat \<Rightarrow> beat) \<Rightarrow> memcpy_hw \<times> (obj_addr \<Rightarrow> beat) \<times> nat \<Rightarrow> bool" where
  "copying wcap b q src dst m0 h \<longleftrightarrow> (\<exists>r w. copy_inv wcap b q src dst m0 r w h)"

lemma copyingI: "copy_inv wcap b q src dst m0 r w h \<Longrightarrow> copying wcap b q src dst m0 h"
  unfolding copying_def by blast

lemma copying_rule:
  assumes "copying wcap b q src dst m0 h" "memcpy_rule wcap h h'"
  shows "copying wcap b q src dst m0 h'"
proof -
  obtain ra ri wa wi where i: "copy_inv wcap b q src dst m0 (ra, ri) (wa, wi) h" using assms(1) by (auto simp: copying_def)
  show ?thesis using assms(2)
  proof cases
    case (start_read s e cnt it mem d)
    show ?thesis unfolding start_read(2) by (rule copyingI [OF start_read_inv [OF i [unfolded start_read(1)] start_read(3-6)]])
  next
    case (start_write s e cnt it mem d)
    show ?thesis unfolding start_write(2) by (rule copyingI [OF start_write_inv [OF i [unfolded start_write(1)] start_write(3-6)]])
  next
    case (read_finish s e mem d)
    show ?thesis unfolding read_finish(2) by (rule copyingI [OF read_finish_inv [OF i [unfolded read_finish(1)] read_finish(3)]])
  next
    case (write_finish s e mem d)
    show ?thesis unfolding write_finish(2) by (rule copyingI [OF write_finish_inv [OF i [unfolded write_finish(1)] write_finish(3)]])
  next
    case (fill_buffer s v e mem d)
    show ?thesis unfolding fill_buffer(2) by (rule copyingI [OF fill_buffer_inv [OF i [unfolded fill_buffer(1)] fill_buffer(3)]])
  next
    case (drain_buffer s v vs e mem d)
    show ?thesis unfolding drain_buffer(2) by (rule copyingI [OF drain_buffer_inv [OF i [unfolded drain_buffer(1)] drain_buffer(3,4)]])
  next
    case (in_reader mem s e d)
    show ?thesis unfolding in_reader(2) by (rule copyingI [OF in_reader_inv [OF i [unfolded in_reader(1)] in_reader(3)]])
  next
    case (in_writer s mem e mem' d)
    show ?thesis unfolding in_writer(2) by (rule copyingI [OF in_writer_inv [OF i [unfolded in_writer(1)] in_writer(3)]])
  qed
qed

section \<open>Every copy ends\<close>

text \<open>The work left: beats to ask for, to read, to move and to write, and commands to answer.\<close>

definition copy_left :: "nat \<Rightarrow> nat \<Rightarrow> u32 \<Rightarrow> u32 \<Rightarrow> nat" where
  "copy_left b q cnt it = length (rest b q (unat cnt div (2 * b)) (unat it))"

definition copy_work :: "nat \<Rightarrow> nat \<Rightarrow> memcpy_hw \<times> (obj_addr \<Rightarrow> beat) \<times> nat \<Rightarrow> nat" where
  "copy_work b q = (\<lambda>(s, mem, d).
     7 * copy_left b q (rdCnt s) (rdIterCnt s) + ld_work (re_loader (mc_re s)) + 2 * length (re_stream mem (mc_re s)) + length (mc_buffer s) +
     ld_outs0 (re_loader (mc_re s)) + 14 * copy_left b q (wrCnt s) (wrIterCnt s) + we_work (mc_we s) + 4 * ld_outs0 (we_loader (mc_we s)))"

lemma copy_left_regs:
  assumes "copy_sizes b q" "a < q" "it < 2 ^ 32"
  shows "copy_left b q (of_nat (2 * (a * b))) (of_nat it) = length (rest b q a it)"
proof -
  have "2 * (a * b) < 2 ^ 32" "0 < b" using copy_sizes_less [OF assms(1,2)] assms(1) by (simp_all add: copy_sizes_def)
  then have "unat (of_nat (2 * (a * b)) :: u32) div (2 * b) = a" by (simp add: u32_of_nat del: of_nat_mult)
  then show ?thesis using assms(3) by (simp add: copy_left_def u32_of_nat)
qed

lemma copy_left_burst:
  assumes "copy_sizes b q" "mc_burstLen s = of_nat (2 * b)" "mc_numWords s = of_nat (2 * (q * b))" "a < q" "0 < it" "it < 2 ^ 32"
    "burst_advance s (of_nat (2 * (a * b))) (of_nat it) = (cnt, n)"
  shows "copy_left b q (of_nat (2 * (a * b))) (of_nat it) = copy_left b q cnt n + b"
proof -
  obtain a' it' where ab: "after_burst q (a, it) = (a', it')" by (cases "after_burst q (a, it)")
  note adv = burst_advance_laws [OF assms(1-6) ab assms(7)]
  have "0 < q" using assms(4) by simp
  then have "a' < q" "it' < 2 ^ 32" using after_burst_less [OF _ assms(4) ab] assms(6) by auto
  then have "copy_left b q cnt n = length (rest b q a' it')" unfolding adv using copy_left_regs assms(1) by blast
  then show ?thesis using copy_left_regs [OF assms(1,4,6)] rest_burst [OF assms(4,5), of b] ab by simp
qed

lemma copying_descends:
  assumes "copying wcap b q src dst m0 h" "memcpy_rule wcap h h'"
  shows "copy_work b q h' + 3 * snd (snd h') < copy_work b q h + 3 * snd (snd h)"
proof -
  obtain ra ri wa wi where i: "copy_inv wcap b q src dst m0 (ra, ri) (wa, wi) h" using assms(1) by (auto simp: copying_def)
  have inv: "re_inv 1 (mc_re (fst h))" "we_inv 1 b (mc_we (fst h))" and rg: "copy_regs b q src dst (ra, ri) (wa, wi) (fst h)"
    using i by (auto simp: copy_inv_def)
  have sz: "copy_sizes b q" "0 < b" using rg by (auto simp: copy_regs_def copy_sizes_def)
  show ?thesis using assms(2)
  proof cases
    case (start_read s e cnt it mem d)
    have r: "mc_burstLen s = of_nat (2 * b)" "mc_numWords s = of_nat (2 * (q * b))" "ra < q" "ri < 2 ^ 32" "rdCnt s = of_nat (2 * (ra * b))"
      "rdIterCnt s = of_nat ri" using rg start_read(1) by (auto simp: copy_regs_def)
    have ri: "0 < ri" using start_read(3) r(6) by (cases ri) auto
    have cl: "copy_left b q (rdCnt s) (rdIterCnt s) = copy_left b q cnt it + b"
      using copy_left_burst [OF sz(1) r(1-3) ri r(4)] start_read(6) r(5,6) by simp
    note c = burst_cmd_laws [OF sz(1) r(3), of "rdPointer s"]
    have re: "re_inv 1 (mc_re s)" using inv(1) start_read(1) by simp
    show ?thesis using rd.put_laws [OF re c(1), of e mem] start_read r c(3) cl sz(2) by (simp add: copy_work_def)
  next
    case (start_write s e cnt it mem d)
    have r: "mc_burstLen s = of_nat (2 * b)" "mc_numWords s = of_nat (2 * (q * b))" "wa < q" "wi < 2 ^ 32" "wrCnt s = of_nat (2 * (wa * b))"
      "wrIterCnt s = of_nat wi" using rg start_write(1) by (auto simp: copy_regs_def)
    have wi: "0 < wi" using start_write(3) r(6) by (cases wi) auto
    have cl: "copy_left b q (wrCnt s) (wrIterCnt s) = copy_left b q cnt it + b"
      using copy_left_burst [OF sz(1) r(1-3) wi r(4)] start_write(6) r(5,6) by simp
    note c = burst_cmd_laws [OF sz(1) r(3), of "wrPointer s"]
    have we: "we_inv 1 b (mc_we s)" using inv(2) start_write(1) by simp
    have "cmd_ok (burst_cmd (wrPointer s) (wrCnt s) (mc_burstLen s)) \<and> burst_beats (burst_cmd (wrPointer s) (wrCnt s) (mc_burstLen s)) \<le> b"
      "cmd_beats (burst_cmd (wrPointer s) (wrCnt s) (mc_burstLen s)) = b" using c(1-3) r by simp_all
    then show ?thesis using wr.put_laws [OF we _ start_write(5)] start_write(1,2) cl sz(2) by (simp add: copy_work_def)
  next
    case (read_finish s e mem d)
    show ?thesis using rd.response_laws [OF inv(1), of e mem] read_finish by (simp add: copy_work_def)
  next
    case (write_finish s e mem d)
    show ?thesis using wr.response_laws [OF inv(2), of e] write_finish by (simp add: copy_work_def)
  next
    case (fill_buffer s v e mem d)
    show ?thesis using rd.deq_laws [OF inv(1), of v e mem] fill_buffer by (simp add: copy_work_def)
  next
    case (drain_buffer s v vs e mem d)
    show ?thesis using wr.enq_laws [OF inv(2), of wcap v e] drain_buffer by (simp add: copy_work_def)
  next
    case (in_reader mem s e d)
    show ?thesis using rd.rule_laws [OF inv(1), of mem e] in_reader by (simp add: copy_work_def)
  next
    case (in_writer s mem e mem' d)
    have "length (re_stream mem' (mc_re s)) = length (re_stream mem (mc_re s))" by (simp add: re_stream_def)
    then show ?thesis using wr.rule_laws [OF inv(2), of mem e mem'] in_writer by (simp add: copy_work_def)
  qed
qed

text \<open>The copy is over: nothing is left anywhere.\<close>

definition copy_over :: "memcpy_hw \<times> (obj_addr \<Rightarrow> beat) \<times> nat \<Rightarrow> bool" where
  "copy_over = (\<lambda>(s, mem, d). rdIterCnt s = 0 \<and> wrIterCnt s = 0 \<and> re_stream mem (mc_re s) = [] \<and> mc_buffer s = [] \<and>
     ld_outs0 (re_loader (mc_re s)) = 0 \<and> ld_outs0 (we_loader (mc_we s)) = 0)"

lemma reader_progress:
  assumes "copying wcap b q src dst m0 (s, mem, d)" "re_stream mem (mc_re s) \<noteq> [] \<or> 0 < ld_outs0 (re_loader (mc_re s))"
  shows "\<exists>h. memcpy_rule wcap (s, mem, d) h"
proof -
  have re: "re_inv 1 (mc_re s)" and cr: "copy_credits s mem" using assms(1) by (auto simp: copying_def copy_inv_def)
  consider e where "re_rule mem (mc_re s) e" | v e where "re_deq (mc_re s) = Some (v, e)" | e where "re_response (mc_re s) = Some e"
    using rd.progress [OF re, of mem] rd.answered [OF re, of mem] assms(2) by fastforce
  then show ?thesis
  proof cases
    case 2
    then have "re_stream mem (mc_re s) \<noteq> []" using rd.deq_laws [OF re 2, of mem] by simp
    then have "length (mc_buffer s) < 16" using cr by (cases "re_stream mem (mc_re s)") (auto simp: copy_credits_def)
    then show ?thesis using 2 memcpy_rule.fill_buffer by blast
  qed (blast intro: memcpy_rule.in_reader memcpy_rule.read_finish)+
qed

lemma writer_progress:
  assumes "copying wcap b q src dst m0 (s, mem, d)" "0 < ld_outs0 (we_loader (mc_we s))"
    "b \<le> length (we_data (mc_we s)) \<or> length (we_left (mc_we s)) \<le> length (we_data (mc_we s))"
  shows "\<exists>h. memcpy_rule wcap (s, mem, d) h"
proof -
  have we: "we_inv 1 b (mc_we s)" using assms(1) by (auto simp: copying_def copy_inv_def)
  from wr.progress [OF we assms(2,3), of mem] consider e m where "we_rule (mc_we s, mem) (e, m)" | e where "we_response (mc_we s) = Some e" by blast
  then show ?thesis by cases (blast intro: memcpy_rule.in_writer memcpy_rule.write_finish)+
qed

lemma start_write_progress:
  assumes "copy_inv wcap b q src dst m0 r (wa, wi) (s, mem, d)" "ld_outs0 (we_loader (mc_we s)) = 0" "0 < wi"
    "b \<le> length (we_data (mc_we s)) + length (mc_buffer s)"
  shows "\<exists>h. memcpy_rule wcap (s, mem, d) h"
proof -
  have we: "we_inv 1 b (mc_we s)" and cr: "copy_credits s mem" using assms(1) by (auto simp: copy_inv_def)
  have rg: "mc_burstLen s = of_nat (2 * b)" "b \<le> 16" "wrIterCnt s = of_nat wi" "wi < 2 ^ 32"
    using assms(1) by (auto simp: copy_inv_def copy_regs_def copy_sizes_def split: prod.splits)
  obtain k where k: "k < 2 ^ 31" "wrBuffer s = of_nat (2 * k)" "length (we_data (mc_we s)) + length (mc_buffer s) = k + length (we_left (mc_we s))"
    using cr by (auto simp: copy_credits_def)
  have "we_left (mc_we s) = []" using wr.quiet [OF we assms(2)] by blast
  then have "wrBuffer s \<ge> mc_burstLen s" using copy_credits_write(1) [OF rg(1,2) k(1,2)] k(3) assms(4) by simp
  moreover have "wrIterCnt s > 0" using rg(3,4) assms(3) u32_of_nat [of wi] by (simp add: word_less_nat_alt)
  moreover obtain e where "we_put 1 (burst_cmd (wrPointer s) (wrCnt s) (mc_burstLen s)) (mc_we s) = Some e" using wr.put_enabled [OF we assms(2)] by blast
  moreover obtain cnt it where "burst_advance s (wrCnt s) (wrIterCnt s) = (cnt, it)" by (cases "burst_advance s (wrCnt s) (wrIterCnt s)")
  ultimately show ?thesis by (blast intro: memcpy_rule.start_write)
qed

lemma start_read_progress:
  assumes "copy_inv wcap b q src dst m0 (ra, ri) w (s, mem, d)" "ld_outs0 (re_loader (mc_re s)) = 0" "0 < ri"
    "re_stream mem (mc_re s) = []" "mc_buffer s = []"
  shows "\<exists>h. memcpy_rule wcap (s, mem, d) h"
proof -
  have re: "re_inv 1 (mc_re s)" and cr: "copy_credits s mem" using assms(1) by (auto simp: copy_inv_def)
  have rg: "mc_burstLen s = of_nat (2 * b)" "b \<le> 16" "rdIterCnt s = of_nat ri" "ri < 2 ^ 32"
    using assms(1) by (auto simp: copy_inv_def copy_regs_def copy_sizes_def split: prod.splits)
  have "rdBuffer s \<ge> mc_burstLen s" using copy_credits_read(1) [OF cr rg(1,2)] assms(4,5) rg(2) by simp
  moreover have "rdIterCnt s > 0" using rg(3,4) assms(3) u32_of_nat [of ri] by (simp add: word_less_nat_alt)
  moreover obtain e where "re_put 1 (burst_cmd (rdPointer s) (rdCnt s) (mc_burstLen s)) (mc_re s) = Some e" using rd.put_enabled [OF re assms(2)] by blast
  moreover obtain cnt it where "burst_advance s (rdCnt s) (rdIterCnt s) = (cnt, it)" by (cases "burst_advance s (rdCnt s) (rdIterCnt s)")
  ultimately show ?thesis by (blast intro: memcpy_rule.start_read)
qed

lemma copying_progress:
  assumes "copying wcap b q src dst m0 h" "\<not> copy_over h"
  shows "\<exists>h'. memcpy_rule wcap h h'"
proof -
  obtain s mem d where h: "h = (s, mem, d)" by (cases h)
  obtain ra ri wa wi where i: "copy_inv wcap b q src dst m0 (ra, ri) (wa, wi) (s, mem, d)" using assms(1) h by (auto simp: copying_def)
  have cp: "copying wcap b q src dst m0 (s, mem, d)" using assms(1) h by simp
  have we: "we_inv 1 b (mc_we s)" and cap: "16 \<le> wcap" and dat: "copy_data b q src dst m0 (ra, ri) (wa, wi) s mem" using i by (auto simp: copy_inv_def)
  have rg: "wa < q" "b \<le> 16" "rdIterCnt s = of_nat ri" "wrIterCnt s = of_nat wi" using i by (auto simp: copy_inv_def copy_regs_def copy_sizes_def)
  have len: "length (we_data (mc_we s)) + length (mc_buffer s) + length (re_stream mem (mc_re s)) + length (rest b q ra ri) =
      length (we_left (mc_we s)) + length (rest b q wa wi)"
  proof -
    have "we_data (mc_we s) @ mc_buffer s @ re_stream mem (mc_re s) @ map (\<lambda>j. m0 (8 * j)) (rest b q ra ri) =
        map (m0 \<circ> snd) (we_left (mc_we s) @ map (\<lambda>j. (dst, 8 * j)) (rest b q wa wi))" using dat by (simp add: copy_data_def copied_def)
    from arg_cong [OF this, of length] show ?thesis by simp
  qed
  let ?o = "ld_outs0 (we_loader (mc_we s))"
  show ?thesis
  proof (cases "re_stream mem (mc_re s) \<noteq> [] \<or> 0 < ld_outs0 (re_loader (mc_re s))")
    case True
    then show ?thesis using reader_progress [OF cp] h by blast
  next
    case r: False
    then have s0: "re_stream mem (mc_re s) = []" by blast
    show ?thesis
    proof (cases "mc_buffer s")
      case (Cons v vs)
      show ?thesis
      proof (cases "length (we_data (mc_we s)) < wcap")
        case True
        then obtain e where "we_enq wcap v (mc_we s) = Some e" using wr.enq_enabled [OF we] by blast
        then show ?thesis using memcpy_rule.drain_buffer [OF Cons] h by blast
      next
        case False
        then have b: "b \<le> length (we_data (mc_we s))" using cap rg(2) by linarith
        show ?thesis
        proof (cases "?o = 0")
          case True
          then have "0 < wi" using wr.quiet [OF we True] len Cons by (cases wi) (auto simp: rest_def)
          then show ?thesis using start_write_progress [OF i True] b h by auto
        qed (use writer_progress [OF cp] b h in blast)
      qed
    next
      case b: Nil
      consider "0 < ri" | "ri = 0" "0 < ?o" | "ri = 0" "?o = 0" by linarith
      then show ?thesis
      proof cases
        case 1
        then show ?thesis using start_read_progress [OF i _ 1 s0 b] r h by auto
      next
        case 2
        then have "length (we_left (mc_we s)) \<le> length (we_data (mc_we s))" using len b s0 by (simp add: rest_def)
        then show ?thesis using writer_progress [OF cp 2(2)] h by blast
      next
        case 3
        then have wi: "0 < wi" using assms(2) h r b rg(3,4) by (cases wi) (auto simp: copy_over_def)
        have "b \<le> length (we_data (mc_we s)) + length (mc_buffer s)"
          using rest_length [OF rg(1) wi, of b] len 3(1) b s0 by (simp add: rest_def)
        then show ?thesis using start_write_progress [OF i 3(2) wi] h by blast
      qed
    qed
  qed
qed

text \<open>When it is over, one end was reported and the destination is a copy of the source.\<close>

lemma copy_over_result:
  assumes "copying wcap b q src dst m0 (s, mem, d)" "wrIterCnt s = 0" "ld_outs0 (we_loader (mc_we s)) = 0"
  shows "d = 1" "\<forall>off. mem (src, off) = m0 off" "\<forall>j < q * b. mem (dst, 8 * j) = m0 (8 * j)"
proof -
  obtain ra ri wa wi where i: "copy_inv wcap b q src dst m0 (ra, ri) (wa, wi) (s, mem, d)" using assms(1) by (auto simp: copying_def)
  have "wrIterCnt s = of_nat wi" "wi < 2 ^ 32" using i by (auto simp: copy_inv_def copy_regs_def)
  then have wi: "wi = 0" using assms(2) u32_of_nat [of wi] by simp
  have we: "we_inv 1 b (mc_we s)" using i by (simp add: copy_inv_def)
  note q = wr.quiet [OF we assms(3)]
  show "d = 1" using i wi assms(3) by (simp add: copy_inv_def)
  show "\<forall>off. mem (src, off) = m0 off" using i by (auto simp: copy_inv_def copy_data_def)
  show "\<forall>j < q * b. mem (dst, 8 * j) = m0 (8 * j)" using i q wi by (auto simp: copy_inv_def copy_data_def copied_def rest_def)
qed

section \<open>The program\<close>

lemma fill_buffers_src: "src \<noteq> dst \<Longrightarrow> i < memcpy_words \<Longrightarrow> obj_word (fill_buffers src dst mem) src i = of_nat i"
proof -
  assume ne: "src \<noteq> dst"
  have "\<forall>i < n. obj_word (fold (\<lambda>i m. obj_store dst i 0x5a5abeef (obj_store src i (of_nat i) m)) [0..<n] mem) src i = of_nat i" for n
    by (induction n) (auto simp: obj_word_store ne less_Suc_eq)
  then show "i < memcpy_words \<Longrightarrow> ?thesis" by (simp add: fill_buffers_def)
qed

definition memcpy_inv :: "nat \<Rightarrow> u32 \<Rightarrow> u32 \<Rightarrow> (nat \<Rightarrow> beat) \<Rightarrow> memcpy_sys \<Rightarrow> bool" where
  "memcpy_inv wcap src dst m0 s \<longleftrightarrow> copying wcap 8 (2 ^ 18) src dst m0 (cp_hw s) \<and> cp_handled s \<le> snd (snd (cp_hw s)) \<and>
     \<not> memcmp_fail s \<and> (cp_comparing s \<longrightarrow> 0 < cp_handled s) \<and>
     (case cp_exit s of None \<Rightarrow> cp_sem s = cp_handled s | Some c \<Rightarrow> \<not> c \<and> 0 < cp_handled s)"

definition memcpy_order :: "(memcpy_sys \<times> memcpy_sys) set" where
  "memcpy_order = measure (\<lambda>s. copy_work 8 (2 ^ 18) (cp_hw s) + 3 * (snd (snd (cp_hw s)) - cp_handled s) + cp_sem s + of_bool (cp_comparing s))"

lemma copy_done:
  assumes "copying wcap b q src dst m0 (s, mem, d)" "0 < d"
  shows "d = 1" "\<forall>off. mem (src, off) = m0 off" "\<forall>j < q * b. mem (dst, 8 * j) = m0 (8 * j)"
proof -
  obtain ra ri wa wi where i: "copy_inv wcap b q src dst m0 (ra, ri) (wa, wi) (s, mem, d)" using assms(1) by (auto simp: copying_def)
  then have "wi = 0" "ld_outs0 (we_loader (mc_we s)) = 0" using assms(2) by (auto simp: copy_inv_def split: if_splits)
  moreover have "wrIterCnt s = of_nat wi" using i by (simp add: copy_inv_def copy_regs_def)
  ultimately show "d = 1" "\<forall>off. mem (src, off) = m0 off" "\<forall>j < q * b. mem (dst, 8 * j) = m0 (8 * j)"
    using copy_over_result [OF assms(1)] by simp_all
qed

lemma copied_words:
  assumes "copying wcap 8 (2 ^ 18) src dst m0 (s, mem, d)" "0 < d" "i < memcpy_words"
  shows "obj_word mem dst i = obj_word mem src i" "obj_word mem src i = obj_word (\<lambda>a. m0 (snd a)) src i"
proof -
  have "i div 2 < 2 ^ 18 * 8" using assms(3) by (simp add: memcpy_words_def)
  then have "mem (dst, 8 * (i div 2)) = m0 (8 * (i div 2))" using copy_done(3) [OF assms(1,2)] by blast
  moreover have "mem (src, 8 * (i div 2)) = m0 (8 * (i div 2))" using copy_done(2) [OF assms(1,2)] by blast
  ultimately show "obj_word mem dst i = obj_word mem src i" "obj_word mem src i = obj_word (\<lambda>a. m0 (snd a)) src i"
    by (simp_all add: obj_word_def)
qed

lemma memcpy_rule_dones: "memcpy_rule wcap h h' \<Longrightarrow> snd (snd h) \<le> snd (snd h')"
  by (cases rule: memcpy_rule.cases) auto

lemma memcpy_inv_step:
  assumes "memcpy_inv wcap src dst m0 s" "memcpy_step wcap src dst s s'"
  shows "memcpy_inv wcap src dst m0 s'"
  using assms(2)
proof cases
  case (hardware h)
  then show ?thesis using assms(1) copying_rule [OF _ hardware(2)] memcpy_rule_dones [OF hardware(2)]
    by (auto simp: memcpy_inv_def split: option.splits)
next
  case done_compare
  obtain hw mem d where h: "cp_hw s = (hw, mem, d)" by (cases "cp_hw s")
  have c: "copying wcap 8 (2 ^ 18) src dst m0 (hw, mem, d)" and d: "0 < d" using assms(1) done_compare h by (auto simp: memcpy_inv_def)
  have "list_all (\<lambda>i. obj_word mem src i = obj_word mem dst i) [0..<memcpy_words]"
    using copied_words(1) [OF c d] by (simp add: list_all_iff)
  then have "\<not> memcmp_words src dst mem" unfolding memcmp_words_def by blast
  then show ?thesis using assms(1) done_compare h by (auto simp: memcpy_inv_def)
qed (use assms(1) in \<open>auto simp: memcpy_inv_def\<close>)

lemma memcpy_descends:
  assumes "memcpy_inv wcap src dst m0 s" "memcpy_step wcap src dst s s'"
  shows "(s', s) \<in> memcpy_order"
  using assms(2)
proof cases
  case (hardware h)
  then show ?thesis using assms(1) copying_descends [OF _ hardware(2), of 8 "2 ^ 18" src dst m0] memcpy_rule_dones [OF hardware(2)]
    by (auto simp: memcpy_inv_def memcpy_order_def)
qed (auto simp: memcpy_order_def)

lemma memcpy_progress:
  assumes "memcpy_inv wcap src dst m0 s" "\<not> (cp_exit s \<noteq> None \<and> copy_over (cp_hw s))"
  shows "\<exists>s'. memcpy_step wcap src dst s s'"
proof (cases "copy_over (cp_hw s)")
  case False
  have "copying wcap 8 (2 ^ 18) src dst m0 (cp_hw s)" using assms(1) unfolding memcpy_inv_def by blast
  then obtain h where "memcpy_rule wcap (cp_hw s) h" using copying_progress False by blast
  then show ?thesis by (blast intro: memcpy_step.hardware)
next
  case True
  obtain hw mem d where h: "cp_hw s = (hw, mem, d)" by (cases "cp_hw s")
  have e: "cp_exit s = None" using assms(2) True by blast
  have "copying wcap 8 (2 ^ 18) src dst m0 (hw, mem, d)" using assms(1) h by (simp add: memcpy_inv_def)
  then have "d = 1" using copy_over_result(1) True h by (auto simp: copy_over_def)
  then show ?thesis using assms(1) e h memcpy_step.done_post [OF e, of wcap src dst] memcpy_step.main_exit [OF e, of wcap src dst]
    by (cases "cp_handled s = 0") (auto simp: memcpy_inv_def)
qed

interpretation memcpy_sched: rule_system "memcpy_step wcap src dst" "memcpy_inv wcap src dst m0" "\<lambda>s. cp_exit s \<noteq> None \<and> copy_over (cp_hw s)" memcpy_order
proof unfold_locales
  show "wf memcpy_order" by (simp add: memcpy_order_def)
qed (fact memcpy_inv_step memcpy_descends memcpy_progress)+

lemma memcpy_runtest_inv:
  assumes "src \<noteq> dst" "32 \<le> wcap" "wcap < 2 ^ 30"
  shows "memcpy_inv wcap src dst (\<lambda>off. fill_buffers src dst mem (src, off)) (memcpy_runtest src dst mem)"
proof -
  let ?s = "startCopy dst src (of_nat memcpy_words) 16 64 mkMemcpy" and ?filled = "fill_buffers src dst mem"
  let ?init = "\<lambda>off. ?filled (src, off)"
  have "copy_sizes 8 (2 ^ 18)" by (simp add: copy_sizes_def)
  then have "copy_regs 8 (2 ^ 18) src dst (0, 64) (0, 64) ?s"
    using assms(1) by (simp add: copy_regs_def startCopy_def mkMemcpy_def memcpy_words_def)
  moreover have st: "re_stream ?filled (mc_re ?s) = []" "we_left (mc_we ?s) = []" "we_stores (mc_we ?s) = []"
    "ld_todo (re_loader (mc_re ?s)) = []" "we_data (mc_we ?s) = []" "mc_buffer ?s = []" "rdBuffer ?s = 32" "wrBuffer ?s = 0"
    using read_engine_reset(2) write_engine_reset(2)
    by (simp_all add: startCopy_def mkMemcpy_def we_stores_def write_engine_reset_def read_engine_reset_def ld_todo_def work_flags_def)
  have "copy_credits ?s ?filled" unfolding copy_credits_def st by (auto intro: exI [of _ 0])
  moreover have "copy_data 8 (2 ^ 18) src dst ?init (0, 64) (0, 64) ?s ?filled"
  proof -
    have "[0..<2 ^ 18 * 8] @ concat (replicate 63 [0..<2 ^ 18 * 8]) = rest 8 (2 ^ 18) 0 64" by (simp only: rest_def) simp
    then have "set [0..<2 ^ 18 * 8] \<subseteq> set (rest 8 (2 ^ 18) 0 64)" by (metis Un_upper1 set_append)
    then have "j \<in> set (rest 8 (2 ^ 18) 0 64)" if "j < 2 ^ 18 * 8" for j using that by auto
    then show ?thesis unfolding copy_data_def by (auto simp: st copied_def comp_def)
  qed
  moreover have "re_inv 1 (mc_re ?s)" "we_inv 1 8 (mc_we ?s)" "ld_outs0 (re_loader (mc_re ?s)) = 0" "ld_outs0 (we_loader (mc_we ?s)) = 0"
    using read_engine_reset(1) [of 1] write_engine_reset(1) [of 1 8]
    by (simp_all add: startCopy_def mkMemcpy_def) (simp_all add: read_engine_reset_def write_engine_reset_def)
  ultimately have "copy_inv wcap 8 (2 ^ 18) src dst ?init (0, 64) (0, 64) (?s, ?filled, 0)" using assms(2,3) st by (simp add: copy_inv_def)
  then show ?thesis by (auto simp: memcpy_inv_def memcpy_runtest_def copying_def)
qed

text \<open>
  C14.  The copying program ends under every schedule of the design's rules, of the memory's answers and of
  its own two threads.  The design reports the end once, when the memory has acknowledged the last burst;
  whenever the program has left, every word of the destination is the one the program put into the source,
  and the exit status is 0, also when \<^verbatim>\<open>main\<close> is faster than the comparison.
\<close>

theorem memcpy_exits:
  assumes "ref_srcAlloc \<noteq> ref_dstAlloc" "32 \<le> wcap" "wcap < 2 ^ 30" "s0 = memcpy_runtest ref_srcAlloc ref_dstAlloc mem"
  shows "(\<forall>f. f 0 = s0 \<longrightarrow> (\<exists>k. \<not> memcpy_step wcap ref_srcAlloc ref_dstAlloc (f k) (f (Suc k)))) \<and>
    (\<forall>s. (memcpy_step wcap ref_srcAlloc ref_dstAlloc)\<^sup>*\<^sup>* s0 s \<and> (\<nexists>s'. memcpy_step wcap ref_srcAlloc ref_dstAlloc s s') \<longrightarrow>
       cp_exit s = Some False \<and> snd (snd (cp_hw s)) = 1) \<and>
    (\<forall>s c. (memcpy_step wcap ref_srcAlloc ref_dstAlloc)\<^sup>*\<^sup>* s0 s \<and> cp_exit s = Some c \<longrightarrow>
       \<not> c \<and> (\<forall>i < memcpy_words. obj_word (fst (snd (cp_hw s))) ref_dstAlloc i = of_nat i))"
proof (intro conjI allI impI)
  let ?init = "\<lambda>off. fill_buffers ref_srcAlloc ref_dstAlloc mem (ref_srcAlloc, off)"
  have inv: "memcpy_inv wcap ref_srcAlloc ref_dstAlloc ?init s0" using memcpy_runtest_inv [OF assms(1-3)] assms(4) by blast
  show "\<exists>k. \<not> memcpy_step wcap ref_srcAlloc ref_dstAlloc (f k) (f (Suc k))" if "f 0 = s0" for f
    using memcpy_sched.no_infinite_run [of wcap ref_srcAlloc ref_dstAlloc ?init f] inv that by blast
  have result: "\<not> c \<and> 0 < snd (snd (cp_hw s)) \<and> copying wcap 8 (2 ^ 18) ref_srcAlloc ref_dstAlloc ?init (cp_hw s)"
    if "(memcpy_step wcap ref_srcAlloc ref_dstAlloc)\<^sup>*\<^sup>* s0 s" "cp_exit s = Some c" for s c
    using memcpy_sched.inv_reach [OF that(1) inv] that(2) unfolding memcpy_inv_def by auto
  fix s assume r: "(memcpy_step wcap ref_srcAlloc ref_dstAlloc)\<^sup>*\<^sup>* s0 s \<and> (\<nexists>s'. memcpy_step wcap ref_srcAlloc ref_dstAlloc s s')"
  then obtain c where c: "cp_exit s = Some c" using memcpy_sched.stuck_final [OF _ inv, of s] by auto
  show "cp_exit s = Some False" using result [of s c] r c by auto
  show "snd (snd (cp_hw s)) = 1" using result [of s c] r c copy_done(1) by (metis prod.collapse)
next
  let ?init = "\<lambda>off. fill_buffers ref_srcAlloc ref_dstAlloc mem (ref_srcAlloc, off)"
  have inv: "memcpy_inv wcap ref_srcAlloc ref_dstAlloc ?init s0" using memcpy_runtest_inv [OF assms(1-3)] assms(4) by blast
  fix s c assume r: "(memcpy_step wcap ref_srcAlloc ref_dstAlloc)\<^sup>*\<^sup>* s0 s \<and> cp_exit s = Some c"
  obtain hw m d where h: "cp_hw s = (hw, m, d)" by (cases "cp_hw s")
  have i: "\<not> c" "0 < d" "copying wcap 8 (2 ^ 18) ref_srcAlloc ref_dstAlloc ?init (hw, m, d)"
    using memcpy_sched.inv_reach [OF _ inv, of s] r h unfolding memcpy_inv_def by auto
  show "\<not> c" by (rule i(1))
  show "obj_word (fst (snd (cp_hw s))) ref_dstAlloc i = of_nat i" if "i < memcpy_words" for i
    using copied_words [OF i(3,2) that] fill_buffers_src [OF assms(1) that, of mem] h by (simp add: obj_word_def)
qed

theorem memcpy_exits_witness:
  "\<exists>s. (memcpy_step 32 1 2)\<^sup>*\<^sup>* (memcpy_runtest 1 2 (\<lambda>_. (0, 0))) s \<and> cp_exit s = Some False \<and> obj_word (fst (snd (cp_hw s))) 2 5 = 5"
proof -
  let ?s0 = "memcpy_runtest 1 2 (\<lambda>_. (0, 0))"
  have ne: "(1 :: u32) \<noteq> 2" and p: "32 \<le> (32 :: nat)" "(32 :: nat) < 2 ^ 30" by simp_all
  have "memcpy_inv 32 1 2 (\<lambda>off. fill_buffers 1 2 (\<lambda>_. (0, 0)) (1, off)) ?s0" by (rule memcpy_runtest_inv) simp_all
  from memcpy_sched.finishes [OF this] obtain s where s: "(memcpy_step 32 1 2)\<^sup>*\<^sup>* ?s0 s" "cp_exit s \<noteq> None" by blast
  then obtain c where "cp_exit s = Some c" by blast
  moreover have "\<forall>s c. (memcpy_step 32 1 2)\<^sup>*\<^sup>* ?s0 s \<and> cp_exit s = Some c \<longrightarrow>
      \<not> c \<and> (\<forall>i < memcpy_words. obj_word (fst (snd (cp_hw s))) 2 i = of_nat i)"
    using memcpy_exits [OF ne p refl, of "\<lambda>_. (0, 0)"] by blast
  ultimately have "\<not> c \<and> (\<forall>i < memcpy_words. obj_word (fst (snd (cp_hw s))) 2 i = of_nat i)" using s(1) by blast
  moreover have "5 < memcpy_words" by (simp add: memcpy_words_def)
  ultimately have "\<not> c" "obj_word (fst (snd (cp_hw s))) 2 5 = of_nat 5" by blast+
  then show ?thesis using s(1) \<open>cp_exit s = Some c\<close> by auto
qed

end
