(* ===== verification/Memread_Test.thy ===== *)
theory Memread_Test
  imports Mem_Engine Rule_System
begin

text \<open>
  The reading example: \<^verbatim>\<open>examples/memread/Memread.bsv\<close> with one server, which compares the words of a buffer with their
  indices, and the program \<^verbatim>\<open>lib/cpp/testmemread.h\<close>, which wants no mismatch first and then three in each iteration.
\<close>

section \<open>The design\<close>

text \<open>
  The fields of the pipes (\<^verbatim>\<open>lib/bsv/Pipe.bsv\<close>): the counter of \<^verbatim>\<open>mkRangePipeOut\<close>, the two places of \<^verbatim>\<open>mkUnfunnel\<close>, the fifos of
  \<^verbatim>\<open>mkMapPipe\<close> and \<^verbatim>\<open>mkJoinBuffered\<close>.
\<close>

record memread_hw =
  mr_pointer :: u32
  mr_numWords :: u32
  mr_burstLen :: u32
  mismatchCnt :: u32
  mr_cf :: bool
  mr_iterCnt :: u32
  mr_iterCnts :: u32
  valuesToRead :: u32
  mismatchCounts :: u32
  mr_re :: read_engine
  mr_x :: u32
  mr_xlimit :: u32
  mr_gen :: "u32 list"
  mr_read :: "beat list"
  mr_join :: "(bool \<times> bool) list"
  mismatchFifo :: "u32 list"

definition mkMemread :: memread_hw where
  "mkMemread = \<lparr>mr_pointer = 0, mr_numWords = 0, mr_burstLen = 0, mismatchCnt = 0, mr_cf = False, mr_iterCnt = 0, mr_iterCnts = 0,
     valuesToRead = 0, mismatchCounts = 0, mr_re = read_engine_reset, mr_x = 1, mr_xlimit = 0, mr_gen = [], mr_read = [], mr_join = [], mismatchFifo = []\<rparr>"

definition mr_chunk :: "memread_hw \<Rightarrow> 40 word" where
  "mr_chunk s = ucast (mr_numWords s) * 4"

text \<open>\<^verbatim>\<open>startRead\<close> takes \<^verbatim>\<open>chunk\<close> from the register it is about to write.\<close>

definition startRead :: "u32 \<Rightarrow> u32 \<Rightarrow> u32 \<Rightarrow> u32 \<Rightarrow> memread_hw \<Rightarrow> memread_hw option" where
  "startRead rp nw bl ic s =
     (if mr_cf s then None
      else Some (s\<lparr>mr_pointer := rp, mr_cf := True, mr_numWords := nw, mr_burstLen := bl, mr_iterCnt := ic, mr_iterCnts := ic, mismatchCounts := 0,
             valuesToRead := ucast (mr_chunk s div 4)\<rparr>))"

definition mr_cmd :: "memread_hw \<Rightarrow> mem_cmd" where
  "mr_cmd s = \<lparr>cmd_pointer = mr_pointer s, cmd_base = 0, cmd_burstLen = ucast (mr_burstLen s * 4), cmd_len = ucast (mr_chunk s)\<rparr>"

text \<open>The rules, on the state, the memory and the values of the \<^verbatim>\<open>readDone\<close> indications not yet handled.\<close>

inductive memread_rule :: "memread_hw \<times> (obj_addr \<Rightarrow> beat) \<times> u32 list \<Rightarrow> memread_hw \<times> (obj_addr \<Rightarrow> beat) \<times> u32 list \<Rightarrow> bool" where
  mr_start: "\<lbrakk>mr_iterCnts s > 0; re_put 2 (mr_cmd s) (mr_re s) = Some e; mr_x s > mr_xlimit s\<rbrakk> \<Longrightarrow>
    memread_rule (s, mem, ds) (s\<lparr>mr_re := e, mr_iterCnts := mr_iterCnts s - 1, mr_x := 0, mr_xlimit := 0 + ucast (mr_chunk s) div 4 - 1\<rparr>, mem, ds)"
| mr_finish: "re_response (mr_re s) = Some e \<Longrightarrow> memread_rule (s, mem, ds) (s\<lparr>mr_re := e\<rparr>, mem, ds)"
| mr_consumer: "\<lbrakk>mr_x s \<le> mr_xlimit s; length (mr_gen s) < 2\<rbrakk> \<Longrightarrow>
    memread_rule (s, mem, ds) (s\<lparr>mr_gen := mr_gen s @ [mr_x s], mr_x := mr_x s + 1\<rparr>, mem, ds)"
| mr_split: "\<lbrakk>re_deq (mr_re s) = Some (v, e); length (mr_read s) < 2\<rbrakk> \<Longrightarrow>
    memread_rule (s, mem, ds) (s\<lparr>mr_re := e, mr_read := mr_read s @ [v]\<rparr>, mem, ds)"
| mr_joinrule: "\<lbrakk>mr_read s = v # vs; mr_gen s = a # b # gs; length (mr_join s) < 2\<rbrakk> \<Longrightarrow>
    memread_rule (s, mem, ds) (s\<lparr>mr_read := vs, mr_gen := gs, mr_join := mr_join s @ [(fst v = a, snd v = b)]\<rparr>, mem, ds)"
| mr_check: "\<lbrakk>mr_join s = (b0, b1) # js; mc = mismatchCounts s + of_bool (\<not> b0 \<or> \<not> b1); valuesToRead s > 2\<rbrakk> \<Longrightarrow>
    memread_rule (s, mem, ds) (s\<lparr>mr_join := js, mismatchCounts := mc, valuesToRead := valuesToRead s - 2\<rparr>, mem, ds)"
| mr_check_last: "\<lbrakk>mr_join s = (b0, b1) # js; mc = mismatchCounts s + of_bool (\<not> b0 \<or> \<not> b1); valuesToRead s \<le> 2; length (mismatchFifo s) < 2\<rbrakk> \<Longrightarrow>
    memread_rule (s, mem, ds) (s\<lparr>mr_join := js, mismatchCounts := mc, mismatchFifo := mismatchFifo s @ [mc],
      valuesToRead := ucast (mr_chunk s div 4)\<rparr>, mem, ds)"
| indicate_count: "\<lbrakk>mismatchFifo s = mc # cs; mr_iterCnt s \<noteq> 1\<rbrakk> \<Longrightarrow>
    memread_rule (s, mem, ds) (s\<lparr>mismatchFifo := cs, mismatchCnt := mc + mismatchCnt s, mr_iterCnt := mr_iterCnt s - 1\<rparr>, mem, ds)"
| indicate_finish: "\<lbrakk>mismatchFifo s = mc # cs; mr_iterCnt s = 1; mr_cf s\<rbrakk> \<Longrightarrow>
    memread_rule (s, mem, ds) (s\<lparr>mismatchFifo := cs, mismatchCnt := 0, mr_iterCnt := mr_iterCnt s - 1, mr_cf := False\<rparr>, mem, ds @ [mc + mismatchCnt s])"
| mr_in_reader: "re_rule mem (mr_re s) e \<Longrightarrow> memread_rule (s, mem, ds) (s\<lparr>mr_re := e\<rparr>, mem, ds)"

section \<open>The program\<close>

definition memread_words :: nat where "memread_words = 0x1240000 div 4"

definition index_words :: "u32 \<Rightarrow> (obj_addr \<Rightarrow> beat) \<Rightarrow> obj_addr \<Rightarrow> beat" where
  "index_words p mem = fold (\<lambda>i. obj_store p i (of_nat i)) [0..<memread_words] mem"

text \<open>
  Where \<^verbatim>\<open>runtest\<close> is: it waits for the first result, puts in three wrong words, starts again, waits, has left
  with the number of tests that failed.  \<^verbatim>\<open>mismatchCount\<close> has the 32 bits of an \<^verbatim>\<open>int\<close>.
\<close>

datatype memread_pc = Rd_wait1 | Rd_store nat | Rd_again | Rd_wait2 | Rd_exit nat

record memread_sys =
  md_hw :: "memread_hw \<times> (obj_addr \<Rightarrow> beat) \<times> u32 list"
  md_pc :: memread_pc
  mismatchCount :: u32
  md_sem :: nat
  test_result :: nat

definition wrong_word :: "nat \<Rightarrow> nat" where
  "wrong_word k = (if k = 0 then 0 else if k = 1 then memread_words div 2 else memread_words - 1)"

inductive memread_step :: "u32 \<Rightarrow> memread_sys \<Rightarrow> memread_sys \<Rightarrow> bool" for ref_srcAlloc where
  md_hardware: "memread_rule (md_hw s) h \<Longrightarrow> memread_step ref_srcAlloc s (s\<lparr>md_hw := h\<rparr>)"
| md_readDone: "md_hw s = (hw, mem, v # ds) \<Longrightarrow>
    memread_step ref_srcAlloc s (s\<lparr>md_hw := (hw, mem, ds), mismatchCount := mismatchCount s + v, md_sem := md_sem s + 1\<rparr>)"
| md_result1: "\<lbrakk>md_pc s = Rd_wait1; 0 < md_sem s\<rbrakk> \<Longrightarrow>
    memread_step ref_srcAlloc s (s\<lparr>md_pc := Rd_store 0, md_sem := md_sem s - 1, test_result := test_result s + of_bool (mismatchCount s \<noteq> 0)\<rparr>)"
| md_store: "\<lbrakk>md_pc s = Rd_store k; md_hw s = (hw, mem, ds)\<rbrakk> \<Longrightarrow>
    memread_step ref_srcAlloc s (s\<lparr>md_hw := (hw, obj_store ref_srcAlloc (wrong_word k) (- 1) mem, ds), md_pc := (if k < 2 then Rd_store (k + 1) else Rd_again)\<rparr>)"
| md_again: "\<lbrakk>md_pc s = Rd_again; md_hw s = (hw, mem, ds); startRead ref_srcAlloc (of_nat memread_words) 16 64 hw = Some hw'\<rbrakk> \<Longrightarrow>
    memread_step ref_srcAlloc s (s\<lparr>md_hw := (hw', mem, ds), md_pc := Rd_wait2\<rparr>)"
| md_result2: "\<lbrakk>md_pc s = Rd_wait2; 0 < md_sem s\<rbrakk> \<Longrightarrow>
    memread_step ref_srcAlloc s (s\<lparr>md_pc := Rd_exit (test_result s + of_bool (mismatchCount s \<noteq> 3 * 64)), md_sem := md_sem s - 1\<rparr>)"

definition memread_runtest :: "u32 \<Rightarrow> (obj_addr \<Rightarrow> beat) \<Rightarrow> memread_sys" where
  "memread_runtest ref_srcAlloc mem =
     \<lparr>md_hw = (the (startRead ref_srcAlloc (of_nat memread_words) 16 64 mkMemread), index_words ref_srcAlloc mem, []),
      md_pc = Rd_wait1, mismatchCount = 0, md_sem = 0, test_result = 0\<rparr>"

text \<open>\<^verbatim>\<open>main\<close>'s exit status.\<close>

definition memread_status :: "memread_sys \<Rightarrow> nat option" where
  "memread_status s = (case md_pc s of Rd_exit r \<Rightarrow> Some (if r \<noteq> 0 then 1 else 0) | _ \<Rightarrow> None)"

section \<open>What is still to be counted\<close>

text \<open>The counts that flags of mismatch lead to.\<close>

fun counts :: "nat \<Rightarrow> u32 \<Rightarrow> nat \<Rightarrow> bool list \<Rightarrow> u32 list" where
  "counts h mc v [] = []"
| "counts h mc v (f # fs) = (let mc' = mc + of_bool f in if v \<le> 1 then mc' # counts h mc' h fs else counts h mc' (v - 1) fs)"

lemma counts_length:
  assumes "0 < h"
  shows "length (counts h mc v fs) = (if length fs < max 1 v then 0 else Suc ((length fs - max 1 v) div h))"
proof (induction fs arbitrary: mc v)
  case (Cons f fs)
  show ?case
  proof (cases "v \<le> 1")
    case True
    then have "length (counts h mc v (f # fs)) = Suc (length (counts h (mc + of_bool f) h fs))" by (simp add: Let_def)
    moreover have "length fs div h = (if length fs < max 1 h then 0 else Suc ((length fs - max 1 h) div h))"
      using assms by (auto simp: le_div_geq max_def)
    ultimately show ?thesis using True Cons.IH [of "mc + of_bool f" h] by (simp add: max_def)
  next
    case False
    then show ?thesis using Cons.IH [of "mc + of_bool f" "v - 1"] by (auto simp: Let_def max_def)
  qed
qed (simp add: max_def)

lemma counts_none: "\<forall>f \<in> set fs. \<not> f \<Longrightarrow> c \<in> set (counts h 0 v fs) \<Longrightarrow> c = 0"
  by (induction fs arbitrary: v) (auto simp: Let_def split: if_splits)

text \<open>The flags of the beats on their way, for the list \<open>js\<close> of their indices, and of the iterations to come.\<close>

definition beat_flags :: "memread_hw \<Rightarrow> (obj_addr \<Rightarrow> beat) \<Rightarrow> nat list \<Rightarrow> bool list" where
  "beat_flags s mem js = map2 (\<lambda>v j. v \<noteq> index_beat j) (mr_read s @ re_stream mem (mr_re s)) js"

definition iter_flags :: "nat \<Rightarrow> u32 \<Rightarrow> (obj_addr \<Rightarrow> beat) \<Rightarrow> bool list" where
  "iter_flags h p mem = map (\<lambda>j. mem (p, 8 * j) \<noteq> index_beat j) [0..<h]"

definition flags_to_come :: "nat \<Rightarrow> memread_hw \<Rightarrow> (obj_addr \<Rightarrow> beat) \<Rightarrow> nat list \<Rightarrow> bool list" where
  "flags_to_come h s mem js = map (\<lambda>(b0, b1). \<not> b0 \<or> \<not> b1) (mr_join s) @ beat_flags s mem js @
     concat (replicate (unat (mr_iterCnts s)) (iter_flags h (mr_pointer s) mem))"

definition counts_to_come :: "nat \<Rightarrow> memread_hw \<Rightarrow> (obj_addr \<Rightarrow> beat) \<Rightarrow> nat list \<Rightarrow> u32 list" where
  "counts_to_come h s mem js = mismatchFifo s @ counts h (mismatchCounts s) (unat (valuesToRead s) div 2) (flags_to_come h s mem js)"

text \<open>
  The expected words still in the pipes and in the range are those of the beats on their way; the counts to
  come are as many as the iterations still to be reported.
\<close>

definition read_pipes :: "nat \<Rightarrow> memread_hw \<Rightarrow> (obj_addr \<Rightarrow> beat) \<Rightarrow> nat list \<Rightarrow> bool" where
  "read_pipes h s mem js \<longleftrightarrow> re_inv 2 (mr_re s) \<and> length js = length (mr_read s @ re_stream mem (mr_re s)) \<and> unat (mr_xlimit s) < 2 ^ 31 \<and>
     mr_gen s @ map of_nat [unat (mr_x s)..<Suc (unat (mr_xlimit s))] = concat (map (\<lambda>j. [of_nat (2 * j), of_nat (2 * j + 1)]) js)"

definition read_inv :: "nat \<Rightarrow> u32 \<Rightarrow> memread_hw \<Rightarrow> (obj_addr \<Rightarrow> beat) \<Rightarrow> nat list \<Rightarrow> bool" where
  "read_inv h p s mem js \<longleftrightarrow> rd_sizes h \<and> mr_pointer s = p \<and> mr_numWords s = of_nat (2 * h) \<and> mr_burstLen s = 16 \<and>
     even (unat (valuesToRead s)) \<and> unat (valuesToRead s) \<le> 2 * h \<and> read_pipes h s mem js \<and>
     length (counts_to_come h s mem js) = unat (mr_iterCnt s) \<and> (mr_cf s \<longleftrightarrow> 0 < mr_iterCnt s) \<and>
     (mr_iterCnt s = 0 \<longrightarrow> mr_iterCnts s = 0 \<and> mismatchCnt s = 0)"

text \<open>What \<^verbatim>\<open>readDone\<close> will report.\<close>

definition report :: "nat \<Rightarrow> memread_hw \<Rightarrow> (obj_addr \<Rightarrow> beat) \<Rightarrow> nat list \<Rightarrow> u32" where
  "report h s mem js = mismatchCnt s + sum_list (counts_to_come h s mem js)"

section \<open>The rules keep the report\<close>

lemma mr_chunk_words:
  assumes "rd_sizes h" "mr_numWords s = of_nat (2 * h)"
  shows "ucast (mr_chunk s div 4) = (of_nat (2 * h) :: u32)" "ucast (mr_chunk s) = (of_nat (8 * h) :: u32)"
    "unat (ucast (mr_chunk s) div 4 :: u32) = 2 * h"
  unfolding mr_chunk_def by (fact chunk_words [OF assms])+

lemma mr_cmd_laws:
  assumes "rd_sizes h" "mr_numWords s = of_nat (2 * h)" "mr_burstLen s = 16"
  shows "cmd_ok (mr_cmd s)" "cmd_beats (mr_cmd s) = h" "map (mem \<circ> fst) (cmd_todo (mr_cmd s)) = map (\<lambda>j. mem (mr_pointer s, 8 * j)) [0..<h]"
proof -
  have f: "cmd_base (mr_cmd s) = 0" "cmd_burstLen (mr_cmd s) = 64" "cmd_len (mr_cmd s) = of_nat (8 * h)"
    using assms(3) mr_chunk_words(2) [OF assms(1,2)] by (simp_all add: mr_cmd_def del: of_nat_mult)
  note c = chunk_cmd_laws [OF assms(1) f]
  show "cmd_ok (mr_cmd s)" "cmd_beats (mr_cmd s) = h" by (fact c)+
  have "map (mem \<circ> fst) (cmd_todo (mr_cmd s)) = map mem (map fst (cmd_todo (mr_cmd s)))" by simp
  then show "map (mem \<circ> fst) (cmd_todo (mr_cmd s)) = map (\<lambda>j. mem (mr_pointer s, 8 * j)) [0..<h]"
    unfolding c(4) by (simp add: mr_cmd_def comp_def)
qed

lemma index_words_range: "map of_nat [0..<2 * h] = concat (map (\<lambda>j. [of_nat (2 * j), of_nat (2 * j + 1) :: u32]) [0..<h])"
  by (induction h) simp_all

text \<open>The flags to come do not change when commands are started, answered or read.\<close>

lemma mr_start_pipes:
  assumes "rd_sizes h" "mr_numWords s = of_nat (2 * h)" "mr_burstLen s = 16" "read_pipes h s mem js"
    "mr_iterCnts s > 0" "re_put 2 (mr_cmd s) (mr_re s) = Some e" "mr_x s > mr_xlimit s"
  defines "s' \<equiv> s\<lparr>mr_re := e, mr_iterCnts := mr_iterCnts s - 1, mr_x := 0, mr_xlimit := 0 + ucast (mr_chunk s) div 4 - 1\<rparr>"
  shows "read_pipes h s' mem (js @ [0..<h])" "flags_to_come h s' mem (js @ [0..<h]) = flags_to_come h s mem js"
proof -
  have re: "re_inv 2 (mr_re s)" and len: "length js = length (mr_read s @ re_stream mem (mr_re s))" using assms(4) by (auto simp: read_pipes_def)
  note c = mr_cmd_laws [OF assms(1-3)]
  note p = rd.put_laws [OF re c(1) assms(6), of mem]
  then have st: "re_stream mem e = re_stream mem (mr_re s) @ map (\<lambda>j. mem (mr_pointer s, 8 * j)) [0..<h]" using c(3) by simp
  have lim: "8 * h < 2 ^ 32" "0 < h" using assms(1) by (auto simp: rd_sizes_def)
  have le: "(1 :: u32) \<le> ucast (mr_chunk s) div 4" using mr_chunk_words(3) [OF assms(1,2)] lim(2) by (simp add: word_le_nat_alt)
  have xl: "unat (mr_xlimit s') = 2 * h - 1" using unat_sub [OF le] mr_chunk_words(3) [OF assms(1,2)] by (simp add: s'_def)
  have g: "mr_gen s = concat (map (\<lambda>j. [of_nat (2 * j), of_nat (2 * j + 1)]) js)"
    using assms(4,7) by (simp add: read_pipes_def word_less_nat_alt)
  have "Suc (unat (mr_xlimit s')) = 2 * h" using xl lim(2) by simp
  then have gen: "mr_gen s' @ map of_nat [unat (mr_x s')..<Suc (unat (mr_xlimit s'))] = concat (map (\<lambda>j. [of_nat (2 * j), of_nat (2 * j + 1)]) (js @ [0..<h]))"
    using g index_words_range [of h] by (simp add: s'_def del: upt_Suc)
  have "re_inv 2 (mr_re s')" "length (js @ [0..<h]) = length (mr_read s' @ re_stream mem (mr_re s'))" using p len st c(2) by (simp_all add: s'_def)
  moreover have "unat (mr_xlimit s') < 2 ^ 31" using xl lim by simp
  ultimately show "read_pipes h s' mem (js @ [0..<h])" unfolding read_pipes_def using gen by blast
  have "map2 (\<lambda>v j. v \<noteq> index_beat j) (map (\<lambda>j. mem (mr_pointer s, 8 * j)) [0..<h]) [0..<h] = iter_flags h (mr_pointer s) mem"
    by (simp add: iter_flags_def zip_map1 zip_same_conv_map comp_def)
  then have bf: "beat_flags s' mem (js @ [0..<h]) = beat_flags s mem js @ iter_flags h (mr_pointer s) mem"
    using zip_append [of "mr_read s @ re_stream mem (mr_re s)" js "map (\<lambda>j. mem (mr_pointer s, 8 * j)) [0..<h]" "[0..<h]"] len st
    by (simp add: beat_flags_def s'_def)
  have "unat (mr_iterCnts s) = Suc (unat (mr_iterCnts s - 1))"
  proof -
    have "1 \<le> mr_iterCnts s" using assms(5) by (simp add: word_less_nat_alt word_le_nat_alt)
    then show ?thesis using unat_sub [of 1 "mr_iterCnts s"] by (simp add: word_le_nat_alt)
  qed
  then show "flags_to_come h s' mem (js @ [0..<h]) = flags_to_come h s mem js"
    using bf by (simp add: flags_to_come_def s'_def)
qed

lemma mr_join_pipes:
  assumes "read_pipes h s mem js" "mr_read s = v # vs" "mr_gen s = a # b # gs"
  defines "s' \<equiv> s\<lparr>mr_read := vs, mr_gen := gs, mr_join := mr_join s @ [(fst v = a, snd v = b)]\<rparr>"
  shows "read_pipes h s' mem (tl js)" "flags_to_come h s' mem (tl js) = flags_to_come h s mem js"
proof -
  obtain j js' where j: "js = j # js'" using assms(1,2) by (cases js) (auto simp: read_pipes_def)
  have "a = of_nat (2 * j)" "b = of_nat (2 * j + 1)" and
    gs: "gs @ map of_nat [unat (mr_x s)..<Suc (unat (mr_xlimit s))] = concat (map (\<lambda>j. [of_nat (2 * j), of_nat (2 * j + 1)]) js')"
    using assms(1,3) j by (simp_all add: read_pipes_def del: upt_Suc)
  then have "(v \<noteq> index_beat j) = (\<not> fst v = a \<or> \<not> snd v = b)" by (cases v) (auto simp: index_beat_def)
  then show "flags_to_come h s' mem (tl js) = flags_to_come h s mem js"
    using j assms(2) by (simp add: flags_to_come_def beat_flags_def s'_def)
  show "read_pipes h s' mem (tl js)" using assms(1,2) j gs by (simp add: read_pipes_def s'_def del: upt_Suc)
qed

lemma mr_consumer_pipes:
  assumes "read_pipes h s mem js" "mr_x s \<le> mr_xlimit s"
  shows "read_pipes h (s\<lparr>mr_gen := mr_gen s @ [mr_x s], mr_x := mr_x s + 1\<rparr>) mem js"
proof -
  have le: "unat (mr_x s) < Suc (unat (mr_xlimit s))" and l: "unat (mr_xlimit s) < 2 ^ 31" using assms by (auto simp: word_le_nat_alt read_pipes_def)
  then have "unat (mr_x s + 1) = Suc (unat (mr_x s))" by (simp add: unat_word_ariths(1))
  moreover have "[unat (mr_x s)..<Suc (unat (mr_xlimit s))] = unat (mr_x s) # [Suc (unat (mr_x s))..<Suc (unat (mr_xlimit s))]"
    by (rule upt_conv_Cons [OF le])
  ultimately show ?thesis using assms(1) by (simp add: read_pipes_def del: upt_Suc)
qed

text \<open>Reading moves beats without changing them.\<close>

lemma mr_reader_pipes:
  assumes "read_pipes h s mem js" "re_inv 2 e" "vs @ re_stream mem e = mr_read s @ re_stream mem (mr_re s)"
  shows "read_pipes h (s\<lparr>mr_re := e, mr_read := vs\<rparr>) mem js" "flags_to_come h (s\<lparr>mr_re := e, mr_read := vs\<rparr>) mem js = flags_to_come h s mem js"
  using assms arg_cong [OF assms(3), of length] by (simp_all add: read_pipes_def flags_to_come_def beat_flags_def del: upt_Suc)

text \<open>
  A rule changes nothing of what will be reported, or reports it; a finished report leaves fewer flags than a
  whole iteration.
\<close>

lemma counts_nil:
  assumes "0 < h" "v \<le> h" "counts h mc v fs = []"
  shows "length fs < h"
proof -
  have "length (counts h mc v fs) = 0" using assms(3) by simp
  then have "length fs < max 1 v" unfolding counts_length [OF assms(1)] by (simp split: if_splits)
  then show ?thesis using assms(1,2) by (auto simp: max_def split: if_splits)
qed

lemma read_inv_finished:
  assumes "rd_sizes h" "unat (valuesToRead s) \<le> 2 * h" "counts_to_come h s mem js = []"
  shows "length (flags_to_come h s mem js) < h" "mr_iterCnts s = 0"
proof -
  have h: "0 < h" using assms(1) by (simp add: rd_sizes_def)
  show l: "length (flags_to_come h s mem js) < h"
    using counts_nil [OF h _, of "unat (valuesToRead s) div 2" "mismatchCounts s"] assms(2,3) by (auto simp: counts_to_come_def)
  show "mr_iterCnts s = 0"
  proof (rule ccontr)
    assume "mr_iterCnts s \<noteq> 0"
    then obtain k where "unat (mr_iterCnts s) = Suc k" by (metis not0_implies_Suc unat_eq_0)
    then show False using l by (simp add: flags_to_come_def iter_flags_def)
  qed
qed

definition report_kept :: "nat \<Rightarrow> u32 \<Rightarrow> (obj_addr \<Rightarrow> beat) \<Rightarrow> memread_hw \<times> nat list \<times> u32 list \<Rightarrow> memread_hw \<times> nat list \<times> u32 list \<Rightarrow> bool" where
  "report_kept h p mem = (\<lambda>(s, js, ds) (s', js', ds'). read_inv h p s' mem js' \<and>
     (if mr_cf s' = mr_cf s then ds' = ds \<and> report h s' mem js' = report h s mem js
      else mr_cf s \<and> \<not> mr_cf s' \<and> ds' = ds @ [report h s mem js]))"

text \<open>Rules that do not touch the counts.\<close>

lemma report_kept_pipes:
  assumes "read_inv h p s mem js" "read_pipes h s' mem js'" "flags_to_come h s' mem js' = flags_to_come h s mem js"
    "mr_pointer s' = mr_pointer s" "mr_numWords s' = mr_numWords s" "mr_burstLen s' = mr_burstLen s" "valuesToRead s' = valuesToRead s"
    "mismatchFifo s' = mismatchFifo s" "mismatchCounts s' = mismatchCounts s" "mr_iterCnt s' = mr_iterCnt s" "mr_cf s' = mr_cf s"
    "mismatchCnt s' = mismatchCnt s" "mr_iterCnts s = 0 \<Longrightarrow> mr_iterCnts s' = 0"
  shows "report_kept h p mem (s, js, ds) (s', js', ds)"
proof -
  have "counts_to_come h s' mem js' = counts_to_come h s mem js" using assms by (simp add: counts_to_come_def)
  then show ?thesis using assms by (simp add: report_kept_def read_inv_def report_def)
qed

lemma report_kept_check:
  assumes "read_inv h p s mem js" "mr_join s = (b0, b1) # jn" "mc = mismatchCounts s + of_bool (\<not> b0 \<or> \<not> b1)" "valuesToRead s > 2"
  shows "report_kept h p mem (s, js, ds) (s\<lparr>mr_join := jn, mismatchCounts := mc, valuesToRead := valuesToRead s - 2\<rparr>, js, ds)"
proof -
  let ?s = "s\<lparr>mr_join := jn, mismatchCounts := mc, valuesToRead := valuesToRead s - 2\<rparr>"
  have ev: "even (unat (valuesToRead s))" and v: "2 < unat (valuesToRead s)" using assms(1,4) by (auto simp: read_inv_def word_less_nat_alt)
  have u: "unat (valuesToRead s - 2) = unat (valuesToRead s) - 2" using v unat_sub [of 2 "valuesToRead s"] by (simp add: word_le_nat_alt)
  have d: "\<not> unat (valuesToRead s) div 2 \<le> 1" "(unat (valuesToRead s) - 2) div 2 = unat (valuesToRead s) div 2 - 1" using v ev by presburger+
  have "flags_to_come h s mem js = (\<not> b0 \<or> \<not> b1) # flags_to_come h ?s mem js" using assms(2) by (simp add: flags_to_come_def beat_flags_def)
  then have c: "counts_to_come h ?s mem js = counts_to_come h s mem js" using d assms(3) u by (simp add: counts_to_come_def Let_def)
  have "read_pipes h ?s mem js" using assms(1) by (simp add: read_inv_def read_pipes_def)
  moreover have "even (unat (valuesToRead s - 2))" "unat (valuesToRead s - 2) \<le> 2 * h" using u ev v assms(1) by (auto simp: read_inv_def)
  ultimately show ?thesis using assms(1) c by (simp add: report_kept_def read_inv_def report_def)
qed

lemma report_kept_last:
  assumes "read_inv h p s mem js" "mr_join s = (b0, b1) # jn" "mc = mismatchCounts s + of_bool (\<not> b0 \<or> \<not> b1)" "valuesToRead s \<le> 2"
  shows "report_kept h p mem (s, js, ds)
    (s\<lparr>mr_join := jn, mismatchCounts := mc, mismatchFifo := mismatchFifo s @ [mc], valuesToRead := ucast (mr_chunk s div 4)\<rparr>, js, ds)"
proof -
  let ?s = "s\<lparr>mr_join := jn, mismatchCounts := mc, mismatchFifo := mismatchFifo s @ [mc], valuesToRead := ucast (mr_chunk s div 4)\<rparr>"
  have sz: "rd_sizes h" "mr_numWords s = of_nat (2 * h)" using assms(1) by (auto simp: read_inv_def)
  have vw: "ucast (mr_chunk s div 4) = (of_nat (2 * h) :: u32)" using mr_chunk_words(1) [OF sz] .
  have v: "unat (ucast (mr_chunk s div 4) :: u32) = 2 * h" unfolding vw by (rule unat_u32_double [OF sz(1)])
  have d: "unat (valuesToRead s) div 2 \<le> 1" using assms(4) by (simp add: word_le_nat_alt)
  have "flags_to_come h s mem js = (\<not> b0 \<or> \<not> b1) # flags_to_come h ?s mem js" using assms(2) by (simp add: flags_to_come_def beat_flags_def)
  then have c: "counts_to_come h ?s mem js = counts_to_come h s mem js" using d assms(3) v by (simp add: counts_to_come_def Let_def)
  have "read_pipes h ?s mem js" using assms(1) by (simp add: read_inv_def read_pipes_def)
  then show ?thesis using assms(1) c v by (simp add: report_kept_def read_inv_def report_def)
qed

lemma mr_cf_irrelevant [simp]:
  "flags_to_come h (s\<lparr>mr_cf := c\<rparr>) mem js = flags_to_come h s mem js" "counts_to_come h (s\<lparr>mr_cf := c\<rparr>) mem js = counts_to_come h s mem js"
  "read_pipes h (s\<lparr>mr_cf := c\<rparr>) mem js = read_pipes h s mem js"
  by (simp_all add: flags_to_come_def beat_flags_def counts_to_come_def read_pipes_def)

lemma report_kept_indicate:
  assumes "read_inv h p s mem js" "mismatchFifo s = mc # cs"
  shows "mr_iterCnt s \<noteq> 1 \<Longrightarrow>
      report_kept h p mem (s, js, ds) (s\<lparr>mismatchFifo := cs, mismatchCnt := mc + mismatchCnt s, mr_iterCnt := mr_iterCnt s - 1\<rparr>, js, ds)"
    "mr_iterCnt s = 1 \<Longrightarrow>
      report_kept h p mem (s, js, ds) (s\<lparr>mismatchFifo := cs, mismatchCnt := 0, mr_iterCnt := mr_iterCnt s - 1, mr_cf := False\<rparr>, js, ds @ [mc + mismatchCnt s])"
proof -
  let ?s = "s\<lparr>mismatchFifo := cs, mismatchCnt := mc + mismatchCnt s, mr_iterCnt := mr_iterCnt s - 1\<rparr>"
  have f: "flags_to_come h (s\<lparr>mismatchFifo := cs, mismatchCnt := k, mr_iterCnt := n, mr_cf := c\<rparr>) mem js = flags_to_come h s mem js" for k n c
    by (simp add: flags_to_come_def beat_flags_def)
  have c: "counts_to_come h s mem js = mc # counts_to_come h (s\<lparr>mismatchFifo := cs, mismatchCnt := k, mr_iterCnt := n, mr_cf := c\<rparr>) mem js" for k n c
    using assms(2) f by (simp add: counts_to_come_def)
  have p: "read_pipes h (s\<lparr>mismatchFifo := cs, mismatchCnt := k, mr_iterCnt := n, mr_cf := c\<rparr>) mem js" for k n c
    using assms(1) by (simp add: read_inv_def read_pipes_def)
  have len: "length (counts_to_come h s mem js) = unat (mr_iterCnt s)" "mr_cf s \<longleftrightarrow> 0 < mr_iterCnt s" using assms(1) by (auto simp: read_inv_def)
  then have pos: "0 < unat (mr_iterCnt s)" using c by (metis length_greater_0_conv list.discI)
  have sub: "unat (mr_iterCnt s - 1) = unat (mr_iterCnt s) - 1" using pos unat_sub [of 1 "mr_iterCnt s"] by (simp add: word_le_nat_alt)
  show "report_kept h p mem (s, js, ds) (?s, js, ds)" if n: "mr_iterCnt s \<noteq> 1"
  proof -
    have "1 < unat (mr_iterCnt s)" using n pos by (metis One_nat_def Suc_lessI unat_1 word_unat_eq_iff)
    then have gt: "0 < mr_iterCnt s - 1" "0 < mr_iterCnt s" using sub pos by (auto simp: word_less_nat_alt)
    show ?thesis
      using assms(1) p [where k = "mc + mismatchCnt s" and n = "mr_iterCnt s - 1" and c = "mr_cf s"] c [where k = "mc + mismatchCnt s" and n = "mr_iterCnt s - 1" and c = "mr_cf s"] len sub gt n
      by (auto simp: report_kept_def read_inv_def report_def add_ac)
  qed
  show "report_kept h p mem (s, js, ds) (s\<lparr>mismatchFifo := cs, mismatchCnt := 0, mr_iterCnt := mr_iterCnt s - 1, mr_cf := False\<rparr>, js, ds @ [mc + mismatchCnt s])"
    if n: "mr_iterCnt s = 1"
  proof -
    let ?s' = "s\<lparr>mismatchFifo := cs, mismatchCnt := 0, mr_iterCnt := mr_iterCnt s - 1, mr_cf := False\<rparr>"
    note c' = c [where k = 0 and n = "mr_iterCnt s - 1" and c = False]
    have nil: "counts_to_come h ?s' mem js = []" using len(1) n c' by simp
    have "mr_iterCnts ?s' = 0" using read_inv_finished(2) [OF _ _ nil] assms(1) by (simp add: read_inv_def)
    then show ?thesis using assms(1) p c' nil len n by (simp add: report_kept_def read_inv_def report_def add_ac)
  qed
qed

lemma read_step:
  assumes "read_inv h p s mem js" "memread_rule (s, mem, ds) (s', mem', ds')"
  shows "mem' = mem \<and> (\<exists>js'. report_kept h p mem (s, js, ds) (s', js', ds'))"
proof -
  have pi: "read_pipes h s mem js" and re: "re_inv 2 (mr_re s)" using assms(1) by (auto simp: read_inv_def read_pipes_def)
  have sz: "rd_sizes h" "mr_numWords s = of_nat (2 * h)" "mr_burstLen s = 16" using assms(1) by (auto simp: read_inv_def)
  show ?thesis using assms(2)
  proof cases
    case (mr_start e)
    note p = mr_start_pipes [OF sz pi mr_start(4-6)]
    have "report_kept h p mem (s, js, ds) (s', js @ [0..<h], ds)" unfolding mr_start(1)
      by (rule report_kept_pipes [OF assms(1) p]) (use mr_start(4) in simp_all)
    then show ?thesis using mr_start(2,3) by blast
  next
    case (mr_finish e)
    have "mr_read s @ re_stream mem e = mr_read s @ re_stream mem (mr_re s)" "re_inv 2 e" using rd.response_laws [OF re mr_finish(4)] by simp_all
    note p = mr_reader_pipes [OF pi this(2,1)]
    have "report_kept h p mem (s, js, ds) (s', js, ds)" unfolding mr_finish(1)
      using report_kept_pipes [OF assms(1) p, of ds] by simp
    then show ?thesis using mr_finish(2,3) by blast
  next
    case mr_consumer
    have "report_kept h p mem (s, js, ds) (s', js, ds)" unfolding mr_consumer(1)
      by (rule report_kept_pipes [OF assms(1) mr_consumer_pipes [OF pi mr_consumer(4)]]) (simp_all add: flags_to_come_def beat_flags_def)
    then show ?thesis using mr_consumer(2,3) by blast
  next
    case (mr_split v e)
    have "(mr_read s @ [v]) @ re_stream mem e = mr_read s @ re_stream mem (mr_re s)" "re_inv 2 e" using rd.deq_laws [OF re mr_split(4)] by simp_all
    note p = mr_reader_pipes [OF pi this(2,1)]
    have "report_kept h p mem (s, js, ds) (s', js, ds)" unfolding mr_split(1)
      by (rule report_kept_pipes [OF assms(1) p]) simp_all
    then show ?thesis using mr_split(2,3) by blast
  next
    case (mr_joinrule v vs a b gs)
    note p = mr_join_pipes [OF pi mr_joinrule(4,5)]
    have "report_kept h p mem (s, js, ds) (s', tl js, ds)" unfolding mr_joinrule(1)
      by (rule report_kept_pipes [OF assms(1) p]) simp_all
    then show ?thesis using mr_joinrule(2,3) by blast
  next
    case (mr_in_reader e)
    have "mr_read s @ re_stream mem e = mr_read s @ re_stream mem (mr_re s)" "re_inv 2 e" using rd.rule_laws [OF re mr_in_reader(4)] by simp_all
    note p = mr_reader_pipes [OF pi this(2,1)]
    have "report_kept h p mem (s, js, ds) (s', js, ds)" unfolding mr_in_reader(1)
      using report_kept_pipes [OF assms(1) p, of ds] by simp
    then show ?thesis using mr_in_reader(2,3) by blast
  qed (use report_kept_check [OF assms(1)] report_kept_last [OF assms(1)] report_kept_indicate [OF assms(1)] in blast)+
qed

section \<open>Every run of the design ends\<close>

definition read_work :: "nat \<Rightarrow> memread_hw \<times> (obj_addr \<Rightarrow> beat) \<times> u32 list \<Rightarrow> nat" where
  "read_work h = (\<lambda>(s, mem, ds).
     16 * h * unat (mr_iterCnts s) + ld_work (re_loader (mr_re s)) + 7 * length (re_stream mem (mr_re s)) + ld_outs0 (re_loader (mr_re s)) +
     2 * (Suc (unat (mr_xlimit s)) - unat (mr_x s)) + length (mr_gen s) + 6 * length (mr_read s) + 5 * length (mr_join s) +
     3 * length (mismatchFifo s) + 2 * length ds)"

lemma read_descends:
  assumes "read_inv h p s mem js" "memread_rule (s, mem, ds) h'"
  shows "read_work h h' < read_work h (s, mem, ds)"
proof -
  have re: "re_inv 2 (mr_re s)" and xl: "unat (mr_xlimit s) < 2 ^ 31" using assms(1) by (auto simp: read_inv_def read_pipes_def)
  have sz: "rd_sizes h" "mr_numWords s = of_nat (2 * h)" "mr_burstLen s = 16" "0 < h" using assms(1) by (auto simp: read_inv_def rd_sizes_def)
  show ?thesis using assms(2)
  proof cases
    case (mr_start e)
    note c = mr_cmd_laws [OF sz(1-3)] and p = rd.put_laws [OF re mr_cmd_laws(1) [OF sz(1-3)] mr_start(3), of mem]
    have le: "(1 :: u32) \<le> ucast (mr_chunk s) div 4" using mr_chunk_words(3) [OF sz(1,2)] sz(4) by (simp add: word_le_nat_alt)
    have "unat (0 + ucast (mr_chunk s) div 4 - 1 :: u32) = 2 * h - 1" using unat_sub [OF le] mr_chunk_words(3) [OF sz(1,2)] by simp
    moreover have "unat (mr_iterCnts s) = Suc (unat (mr_iterCnts s - 1))"
      using mr_start(2) unat_sub [of 1 "mr_iterCnts s"] by (simp add: word_less_nat_alt word_le_nat_alt)
    ultimately show ?thesis using p c(2) mr_start(1) sz(4) by (simp add: read_work_def)
  next
    case mr_consumer
    then have "unat (mr_x s + 1) = Suc (unat (mr_x s))" "unat (mr_x s) \<le> unat (mr_xlimit s)"
      using xl by (auto simp: unat_word_ariths(1) word_le_nat_alt)
    then show ?thesis using mr_consumer(1) by (simp add: read_work_def)
  next
    case (mr_finish e)
    then show ?thesis using rd.response_laws [OF re, of e mem] by (simp add: read_work_def)
  next
    case (mr_split v e)
    then show ?thesis using rd.deq_laws [OF re, of v e mem] by (simp add: read_work_def)
  next
    case (mr_in_reader e)
    then show ?thesis using rd.rule_laws [OF re, of mem e] by (simp add: read_work_def)
  qed (simp_all add: read_work_def)
qed

text \<open>The design rests when all iterations are read and counted.\<close>

definition read_rests :: "memread_hw \<Rightarrow> bool" where
  "read_rests s \<longleftrightarrow> mr_iterCnts s = 0 \<and> mismatchFifo s = [] \<and> mr_join s = [] \<and> mr_read s = [] \<and> (\<forall>mem. re_stream mem (mr_re s) = []) \<and>
     ld_outs0 (re_loader (mr_re s)) = 0"

lemma read_progress:
  assumes "read_inv h p s mem js" "\<not> read_rests s"
  shows "\<exists>h'. memread_rule (s, mem, ds) h'"
proof (cases "mismatchFifo s")
  case (Cons mc cs)
  have "mr_cf s \<longleftrightarrow> 0 < mr_iterCnt s" using assms(1) by (auto simp: read_inv_def)
  then have "mr_iterCnt s = 1 \<Longrightarrow> mr_cf s" by simp
  then show ?thesis using memread_rule.indicate_count [OF Cons, of mem ds] memread_rule.indicate_finish [OF Cons, of mem ds] by blast
next
  case mf: Nil
  have pi: "read_pipes h s mem js" and re: "re_inv 2 (mr_re s)" using assms(1) by (auto simp: read_inv_def read_pipes_def)
  show ?thesis
  proof (cases "mr_join s")
    case (Cons b jn)
    obtain b0 b1 where b: "b = (b0, b1)" by (cases b)
    then show ?thesis
      using memread_rule.mr_check [OF Cons [unfolded b] refl, of mem ds] memread_rule.mr_check_last [OF Cons [unfolded b] refl, of mem ds] mf
      by (cases "valuesToRead s > 2") (auto simp: not_less)
  next
    case jn: Nil
    show ?thesis
    proof (cases "mr_read s")
      case (Cons v vs)
      then obtain j js' where j: "js = j # js'" using pi by (cases js) (auto simp: read_pipes_def)
      let ?range = "map of_nat [unat (mr_x s)..<Suc (unat (mr_xlimit s))] :: u32 list"
      have g: "length (mr_gen s @ ?range) = 2 + length (concat (map (\<lambda>j. [of_nat (2 * j), of_nat (2 * j + 1) :: u32]) js'))"
        using pi j by (simp only: read_pipes_def) simp
      show ?thesis
      proof (cases "length (mr_gen s) < 2")
        case True
        then have "unat (mr_x s) < Suc (unat (mr_xlimit s))" using g by (simp split: if_splits)
        then show ?thesis using memread_rule.mr_consumer [of s mem ds] True by (auto simp: word_le_nat_alt)
      next
        case False
        then obtain a b gs where "mr_gen s = a # b # gs" by (cases "mr_gen s" rule: remdups_adj.cases) auto
        then show ?thesis using memread_rule.mr_joinrule [OF Cons, of a b gs mem ds] jn by auto
      qed
    next
      case rd0: Nil
      show ?thesis
      proof (cases "re_stream mem (mr_re s) \<noteq> [] \<or> 0 < ld_outs0 (re_loader (mr_re s))")
        case True
        then consider e where "re_rule mem (mr_re s) e" | v e where "re_deq (mr_re s) = Some (v, e)" | e where "re_response (mr_re s) = Some e"
          using rd.progress [OF re, of mem] rd.answered [OF re, of mem] by fastforce
        then show ?thesis
        proof cases
          case 2
          then show ?thesis using memread_rule.mr_split [OF 2, of mem ds] rd0 by auto
        qed (blast intro: memread_rule.mr_in_reader memread_rule.mr_finish)+
      next
        case False
        then have "\<forall>mem. re_stream mem (mr_re s) = []" by (simp add: re_stream_def)
        then have it: "0 < mr_iterCnts s" using assms(2) mf jn rd0 False by (auto simp: read_rests_def word_gt_0)
        have "js = []" using pi rd0 False by (simp add: read_pipes_def)
        then have "mr_x s > mr_xlimit s" using pi by (simp add: read_pipes_def word_less_nat_alt split: if_splits)
        moreover obtain e where "re_put 2 (mr_cmd s) (mr_re s) = Some e" using rd.put_enabled [OF re, of "mr_cmd s"] False by auto
        ultimately show ?thesis using memread_rule.mr_start [OF it] by blast
      qed
    qed
  qed
qed

section \<open>What is reported\<close>

text \<open>Counted in natural numbers, the count after each iteration is that of all wrong beats since the start.\<close>

abbreviation trues :: "bool list \<Rightarrow> nat" where
  "trues fs \<equiv> length (filter (\<lambda>f. f) fs)"

fun counts_nat :: "nat \<Rightarrow> nat \<Rightarrow> nat \<Rightarrow> bool list \<Rightarrow> nat list" where
  "counts_nat h mc v [] = []"
| "counts_nat h mc v (f # fs) =
     (let mc' = mc + of_bool f in if v \<le> 1 then mc' # counts_nat h mc' h fs else counts_nat h mc' (v - 1) fs)"

lemma counts_of_nat: "counts h (of_nat mc) v fs = map of_nat (counts_nat h mc v fs)"
proof (induction fs arbitrary: mc v)
  case (Cons f fs)
  show ?case using Cons.IH [of mc] Cons.IH [of "Suc mc"] by (cases f) (simp_all add: Let_def add.commute)
qed simp

lemma counts_nat_bound: "c \<in> set (counts_nat h mc v fs) \<Longrightarrow> c \<le> mc + trues fs"
proof (induction fs arbitrary: mc v)
  case (Cons f fs)
  then consider "c = mc + of_bool f" | v' where "c \<in> set (counts_nat h (mc + of_bool f) v' fs)" by (auto simp: Let_def split: if_splits)
  then show ?case
  proof cases
    case 2
    then have "c \<le> mc + of_bool f + trues fs" by (rule Cons.IH)
    then show ?thesis by (cases f) simp_all
  qed simp
qed simp

lemma counts_nat_block:
  "0 < v \<Longrightarrow> length as = v \<Longrightarrow> counts_nat h mc v (as @ fs) = (mc + trues as) # counts_nat h (mc + trues as) h fs"
proof (induction as arbitrary: mc v)
  case (Cons a as)
  show ?case
  proof (cases "as = []")
    case False
    then have "0 < v - 1" "length as = v - 1" "\<not> v \<le> 1" using Cons.prems by (cases as; simp)+
    then show ?thesis using Cons.IH [of "v - 1" "mc + of_bool a"] by (cases a) (simp_all add: Let_def)
  qed (use Cons.prems in \<open>simp add: Let_def\<close>)
qed simp

lemma counts_nat_prefixes:
  assumes "0 < h" "n * h \<le> length fs" "length fs < Suc n * h"
  shows "counts_nat h mc h fs = map (\<lambda>k. mc + trues (take (Suc k * h) fs)) [0..<n]"
  using assms(2,3)
proof (induction n arbitrary: fs mc)
  case 0
  have "length (counts h (of_nat mc) h fs) = 0" using counts_length [OF assms(1)] 0(2) assms(1) by (simp add: max_def)
  then show ?case using counts_of_nat [of h mc h fs] by simp
next
  case (Suc n)
  let ?as = "take h fs" and ?fs = "drop h fs"
  have l: "length ?as = h" "n * h \<le> length ?fs" "length ?fs < Suc n * h" using Suc.prems by auto
  have "counts_nat h mc h fs = (mc + trues ?as) # counts_nat h (mc + trues ?as) h ?fs"
    using counts_nat_block [OF assms(1) l(1), of h mc ?fs] by simp
  also have "counts_nat h (mc + trues ?as) h ?fs = map (\<lambda>k. mc + trues ?as + trues (take (Suc k * h) ?fs)) [0..<n]"
    by (rule Suc.IH [OF l(2,3)])
  also have "\<dots> = map (\<lambda>k. mc + trues (take (Suc (Suc k) * h) fs)) [0..<n]"
    by (simp add: take_add add.commute)
  finally show ?case by (simp only: upt_conv_Cons [OF zero_less_Suc] map_Suc_upt [symmetric] list.map map_map comp_def) simp
qed

lemma trues_append [simp]: "trues (xs @ ys) = trues xs + trues ys"
  by simp

lemma trues_take_mono: "m \<le> n \<Longrightarrow> trues (take m fs) \<le> trues (take n fs)"
proof -
  assume "m \<le> n"
  then have "take n fs = take m fs @ take (n - m) (drop m fs)" by (metis le_add_diff_inverse take_add)
  then show ?thesis by simp
qed

text \<open>
  When fewer beats than an iteration come before \<open>n\<close> iterations with at least \<open>t\<close> wrong beats each, the sum of the counts
  is at least \<open>t\<close> times the sum of the numbers below \<open>n\<close>.
\<close>

lemma counts_sum:
  assumes "0 < h" "length res < h" "length pat = h" "t \<le> trues pat"
  shows "(\<Sum>k<n. t * k) \<le> sum_list (counts_nat h 0 h (res @ concat (replicate n pat)))"
proof -
  let ?fs = "res @ concat (replicate n pat)"
  have len: "length (concat (replicate k pat)) = k * h" for k using assms(3) by (induction k) simp_all
  have tk: "t * k \<le> trues (concat (replicate k pat))" for k using assms(4) by (induction k) simp_all
  have "t * k \<le> trues (take (Suc k * h) ?fs)" if "k < n" for k
  proof -
    have n: "concat (replicate n pat) = concat (replicate k pat) @ concat (replicate (n - k) pat)"
      using that by (metis concat_append le_add_diff_inverse less_imp_le replicate_add)
    have "take (length res + k * h) ?fs = res @ concat (replicate k pat)" using n len by simp
    then have "t * k \<le> trues (take (length res + k * h) ?fs)" using tk [of k] by simp
    also have "\<dots> \<le> trues (take (Suc k * h) ?fs)" using assms(2) by (intro trues_take_mono) simp
    finally show ?thesis .
  qed
  then have "(\<Sum>k<n. t * k) \<le> (\<Sum>k<n. 0 + trues (take (Suc k * h) ?fs))" by (intro sum_mono) simp
  also have "\<dots> = sum_list (map (\<lambda>k. 0 + trues (take (Suc k * h) ?fs)) [0..<n])"
    by (simp only: sum_list_distinct_conv_sum_set [OF distinct_upt] atLeast_upt lessThan_atLeast0 set_upt)
  also have "\<dots> = sum_list (counts_nat h 0 h ?fs)"
    using counts_nat_prefixes [OF assms(1), of n ?fs 0] len assms(2) by simp
  finally show ?thesis .
qed

section \<open>The program\<close>

abbreviation memread_beats :: nat where "memread_beats \<equiv> memread_words div 2"

lemma memread_sizes: "rd_sizes memread_beats" "2 * memread_beats = memread_words"
  by (simp_all add: rd_sizes_def memread_words_def)

lemma index_words_word: "i < memread_words \<Longrightarrow> obj_word (index_words p mem) p i = of_nat i"
proof -
  have "\<forall>i < n. obj_word (fold (\<lambda>i. obj_store p i (of_nat i)) [0..<n] mem) p i = of_nat i" for n
    by (induction n) (auto simp: obj_word_store less_Suc_eq)
  then show "i < memread_words \<Longrightarrow> ?thesis" by (simp add: index_words_def)
qed

lemma index_words_flags: "\<forall>f \<in> set (iter_flags memread_beats p (index_words p mem)). \<not> f"
proof -
  have "index_words p mem (p, 8 * j) = index_beat j" if "j < memread_beats" for j
    unfolding index_beat_iff using that memread_sizes(2) by (intro conjI index_words_word) linarith+
  then show ?thesis by (auto simp: iter_flags_def)
qed

text \<open>Three beats are wrong once the three words are.\<close>

definition wrong_words :: "u32 \<Rightarrow> nat \<Rightarrow> (obj_addr \<Rightarrow> beat) \<Rightarrow> obj_addr \<Rightarrow> beat" where
  "wrong_words p k mem = fold (\<lambda>k. obj_store p (wrong_word k) (- 1)) [0..<k] (index_words p mem)"

lemma wrong_words_word:
  assumes "i < memread_words"
  shows "obj_word (wrong_words p 3 mem) p i = of_nat i \<longleftrightarrow> i \<notin> {0, 2392064, 4784127}"
proof -
  have ws: "wrong_word 0 = 0" "wrong_word (Suc 0) = 2392064" "wrong_word 2 = 4784127" by (simp_all add: wrong_word_def memread_words_def)
  have u: "[0..<3] = [0, Suc 0, 2 :: nat]" by (simp add: upt_rec)
  have lt: "i < 2 ^ 31" using assms by (simp add: memread_words_def)
  have m: "(- 1 :: u32) = of_nat 4294967295" by simp
  have "unat (of_nat 4294967295 :: u32) = 4294967295" by (rule u32_of_nat) simp
  then have "unat (- 1 :: u32) = 4294967295" by (simp only: m)
  moreover have "unat (of_nat i :: u32) = i" using lt by (intro u32_of_nat) simp
  moreover have "i \<noteq> 4294967295" using lt by auto
  ultimately have "unat (- 1 :: u32) \<noteq> unat (of_nat i :: u32)" by (simp only:)
  then have "(- 1 :: u32) \<noteq> of_nat i" by metis
  then show ?thesis using index_words_word [OF assms, of p mem] unfolding wrong_words_def u by (auto simp: obj_word_store ws)
qed

lemma wrong_words_flags: "trues (iter_flags memread_beats p (wrong_words p 3 mem)) = 3"
proof -
  let ?m = "wrong_words p 3 mem"
  let ?w = "\<lambda>j. ?m (p, 8 * j) \<noteq> index_beat j"
  have w: "?w j \<longleftrightarrow> j \<in> {0, 1196032, 2392063}" if "j < memread_beats" for j
  proof -
    have l: "2 * j < memread_words" "2 * j + 1 < memread_words" using that memread_sizes(2) by linarith+
    show ?thesis unfolding index_beat_iff wrong_words_word [OF l(1)] wrong_words_word [OF l(2)] by auto
  qed
  have "trues (iter_flags memread_beats p ?m) = length (filter ?w [0..<memread_beats])" by (simp add: iter_flags_def filter_map comp_def)
  also have "\<dots> = card {j. j < memread_beats \<and> ?w j}"
    unfolding length_filter_conv_card by (rule arg_cong [of _ _ card]) auto
  also have "{j. j < memread_beats \<and> ?w j} = {j. j < memread_beats \<and> j \<in> {0, 1196032, 2392063}}" using w by blast
  also have "\<dots> = {0, 1196032, 2392063}" by (auto simp: memread_words_def)
  finally show ?thesis by simp
qed

lemma sum_list_of_nat_words: "sum_list (map of_nat cs) = (of_nat (sum_list cs) :: u32)"
  by (induction cs) simp_all

text \<open>The second report cannot be the expected one.\<close>

lemma second_report:
  assumes "length res < memread_beats" "trues pat = 3" "length pat = memread_beats"
  shows "3 * 64 < sum_list (counts memread_beats 0 memread_beats (res @ concat (replicate 64 pat)))"
proof -
  let ?fs = "res @ concat (replicate 64 pat)" and ?h = memread_beats
  have h: "0 < ?h" by (simp add: memread_words_def)
  have lc: "length (concat (replicate k pat)) = k * ?h" for k using assms(3) by (induction k) simp_all
  have tc: "trues (concat (replicate k pat)) = k * 3" for k using assms(2) by (induction k) simp_all
  let ?cs = "counts_nat ?h 0 ?h ?fs"
  have lo: "(\<Sum>k<64. 3 * k) \<le> sum_list ?cs" by (rule counts_sum [OF h assms(1,3)]) (simp add: assms(2))
  have six: "(\<Sum>k<64. 3 * k) = (6048 :: nat)" by (simp add: lessThan_nat_numeral lessThan_Suc)
  have n: "length ?cs = 64" using counts_nat_prefixes [OF h, of 64 ?fs 0] lc [of 64] assms(1) by simp
  have "trues ?fs \<le> length res + 64 * 3" using tc [of 64] length_filter_le [of "\<lambda>f. f" res] by simp
  then have "c \<le> ?h + 192" if "c \<in> set ?cs" for c using counts_nat_bound [OF that] assms(1) by simp
  then have "sum_list ?cs \<le> sum_list (map (\<lambda>_. ?h + 192) ?cs)" using sum_list_mono [of ?cs "\<lambda>c. c" "\<lambda>_. ?h + 192"] by simp
  then have "sum_list ?cs \<le> 64 * (?h + 192)" using n by (simp add: sum_list_triv)
  then have hi: "sum_list ?cs < 2 ^ 32" by (simp add: memread_words_def)
  have "sum_list (counts ?h 0 ?h ?fs) = of_nat (sum_list ?cs)"
    using counts_of_nat [of ?h 0 ?h ?fs] by (simp add: sum_list_of_nat_words)
  then have "unat (sum_list (counts ?h 0 ?h ?fs)) = sum_list ?cs" using u32_of_nat [OF hi] by simp
  then show ?thesis using lo six by (simp add: word_less_nat_alt)
qed

text \<open>The states of the program, with what the design will or did report.\<close>

definition awaits :: "memread_sys \<Rightarrow> nat list \<Rightarrow> (u32 \<Rightarrow> bool) \<Rightarrow> bool" where
  "awaits s js P = (case md_hw s of (hw, mem, ds) \<Rightarrow>
     (mr_cf hw \<and> ds = [] \<and> md_sem s = 0 \<and> mismatchCount s = 0 \<and> P (report memread_beats hw mem js)) \<or>
     (\<not> mr_cf hw \<and> md_sem s = 0 \<and> mismatchCount s = 0 \<and> (\<exists>v. ds = [v] \<and> P v)) \<or>
     (\<not> mr_cf hw \<and> ds = [] \<and> md_sem s = 1 \<and> P (mismatchCount s)))"

definition memread_at :: "u32 \<Rightarrow> (obj_addr \<Rightarrow> beat) \<Rightarrow> memread_sys \<Rightarrow> nat list \<Rightarrow> bool" where
  "memread_at p m0 s js = (case md_hw s of (hw, mem, ds) \<Rightarrow>
     (case md_pc s of
        Rd_wait1 \<Rightarrow> mem = wrong_words p 0 m0 \<and> test_result s = 0 \<and> awaits s js (\<lambda>v. v = 0)
      | Rd_store k \<Rightarrow> k \<le> 2 \<and> mem = wrong_words p k m0 \<and> test_result s = 0 \<and> \<not> mr_cf hw \<and> ds = [] \<and> md_sem s = 0 \<and> mismatchCount s = 0
      | Rd_again \<Rightarrow> mem = wrong_words p 3 m0 \<and> test_result s = 0 \<and> \<not> mr_cf hw \<and> ds = [] \<and> md_sem s = 0 \<and> mismatchCount s = 0
      | Rd_wait2 \<Rightarrow> test_result s = 0 \<and> awaits s js (\<lambda>v. v > 3 * 64)
      | Rd_exit r \<Rightarrow> r = 1 \<and> \<not> mr_cf hw \<and> ds = []))"

definition memread_inv :: "u32 \<Rightarrow> (obj_addr \<Rightarrow> beat) \<Rightarrow> memread_sys \<Rightarrow> bool" where
  "memread_inv p m0 s \<longleftrightarrow> (\<exists>js. read_inv memread_beats p (fst (md_hw s)) (fst (snd (md_hw s))) js \<and> memread_at p m0 s js)"

lemma awaits_hw:
  assumes "awaits s js P" "md_hw s = (hw, mem, ds)" "report_kept memread_beats p mem (hw, js, ds) (hw', js', ds')"
  shows "awaits (s\<lparr>md_hw := (hw', mem, ds')\<rparr>) js' P"
  using assms by (cases "mr_cf hw' = mr_cf hw") (auto simp: awaits_def report_kept_def)

lemma memread_inv_hw:
  assumes "memread_inv p m0 s" "memread_rule (md_hw s) h"
  shows "memread_inv p m0 (s\<lparr>md_hw := h\<rparr>)"
proof -
  obtain hw mem ds where h: "md_hw s = (hw, mem, ds)" by (cases "md_hw s")
  obtain hw' mem' ds' where h': "h = (hw', mem', ds')" by (cases h)
  obtain js where i: "read_inv memread_beats p hw mem js"
    "memread_at p m0 s js"
    using assms(1) h unfolding memread_inv_def by auto
  from read_step [OF i(1), of ds hw' mem' ds'] assms(2) h h' obtain js' where
    k: "mem' = mem" "report_kept memread_beats p mem (hw, js, ds) (hw', js', ds')" by auto
  have a: "awaits (s\<lparr>md_hw := (hw', mem', ds')\<rparr>) js' P" if "awaits s js P" for P
    using awaits_hw [OF that h k(2)] k(1) by simp
  have c: "\<not> mr_cf hw' \<and> ds' = ds" if "\<not> mr_cf hw" using k(2) that by (auto simp: report_kept_def split: if_splits)
  have "read_inv memread_beats p hw' mem' js'" using k by (simp add: report_kept_def)
  then show ?thesis using i(2) a c k(1) h unfolding memread_inv_def h'
    by (intro exI [of _ js']) (auto simp: memread_at_def split: memread_pc.splits)
qed

text \<open>Another memory does not disturb a design that has reported.\<close>

lemma read_inv_mem:
  assumes "read_inv h p hw mem js" "\<not> mr_cf hw"
  shows "read_inv h p hw mem' js"
proof -
  have h: "0 < h" using assms(1) by (simp add: read_inv_def rd_sizes_def)
  have l: "length (re_stream mem' (mr_re hw)) = length (re_stream mem (mr_re hw))" by (simp add: re_stream_def)
  moreover have "mr_iterCnts hw = 0" using assms by (auto simp: read_inv_def word_gt_0)
  ultimately have "length (flags_to_come h hw mem' js) = length (flags_to_come h hw mem js)"
    by (simp add: flags_to_come_def beat_flags_def)
  then have "length (counts_to_come h hw mem' js) = length (counts_to_come h hw mem js)"
    by (simp add: counts_to_come_def counts_length [OF h])
  moreover have "read_pipes h hw mem' js" using assms(1) l by (simp add: read_inv_def read_pipes_def del: upt_Suc)
  ultimately show ?thesis using assms(1) by (simp add: read_inv_def)
qed

lemma memread_again:
  assumes "read_inv memread_beats p hw mem js" "\<not> mr_cf hw" "startRead p (of_nat memread_words) 16 64 hw = Some hw'" "mem = wrong_words p 3 m0"
  shows "read_inv memread_beats p hw' mem js" "mr_cf hw'" "3 * 64 < report memread_beats hw' mem js"
proof -
  let ?h = memread_beats
  have sz: "rd_sizes ?h" "mr_numWords hw = of_nat (2 * ?h)" using assms(1) by (auto simp: read_inv_def)
  have h: "0 < ?h" using sz(1) by (simp add: rd_sizes_def)
  have hw': "hw' = hw\<lparr>mr_pointer := p, mr_cf := True, mr_numWords := of_nat (2 * ?h), mr_burstLen := 16, mr_iterCnt := 64, mr_iterCnts := 64, mismatchCounts := 0,
      valuesToRead := of_nat (2 * ?h)\<rparr>"
    using assms(2,3) mr_chunk_words(1) [OF sz] memread_sizes(2) by (simp add: startRead_def del: of_nat_mult)
  have z: "mr_iterCnt hw = 0" "mr_iterCnts hw = 0" "mismatchCnt hw = 0" using assms(1,2) by (auto simp: read_inv_def word_gt_0)
  then have c: "counts_to_come ?h hw mem js = []" using assms(1) by (simp add: read_inv_def)
  then have mf: "mismatchFifo hw = []" by (simp add: counts_to_come_def)
  let ?res = "flags_to_come ?h hw mem js" and ?pat = "iter_flags ?h p mem"
  have res: "length ?res < ?h" using read_inv_finished(1) [OF sz(1) _ c] assms(1) by (simp add: read_inv_def)
  have fl: "flags_to_come ?h hw' mem js = ?res @ concat (replicate 64 ?pat)"
    using z(2) by (simp add: hw' flags_to_come_def beat_flags_def)
  have v: "unat (of_nat (2 * ?h) :: u32) = 2 * ?h" by (rule unat_u32_double [OF sz(1)])
  have cs: "counts_to_come ?h hw' mem js = counts ?h 0 ?h (?res @ concat (replicate 64 ?pat))"
    using fl v mf by (simp add: counts_to_come_def hw' del: of_nat_mult)
  have lp: "length ?pat = ?h" by (simp add: iter_flags_def)
  have "length (counts_to_come ?h hw' mem js) = 64"
  proof -
    have "length (concat (replicate k ?pat)) = k * ?h" for k using lp by (induction k) simp_all
    then show ?thesis using counts_nat_prefixes [OF h, of 64 "?res @ concat (replicate 64 ?pat)" 0] counts_of_nat [of ?h 0 ?h] res cs by simp
  qed
  moreover have "read_pipes ?h hw' mem js" using assms(1) by (simp add: read_inv_def read_pipes_def hw')
  ultimately show "read_inv ?h p hw' mem js" "mr_cf hw'" using assms(1) v by (simp_all add: read_inv_def hw' del: of_nat_mult)
  have "trues ?pat = 3" using wrong_words_flags assms(4) by simp
  then show "3 * 64 < report ?h hw' mem js"
    using second_report [OF res _ lp] cs z(3) by (simp add: report_def hw')
qed

lemma memread_invI:
  assumes "md_hw s = (hw, mem, ds)" "read_inv memread_beats p hw mem js" "memread_at p m0 s js"
  shows "memread_inv p m0 s"
  using assms unfolding memread_inv_def by auto

lemma memread_inv_step:
  assumes "memread_inv p m0 s" "memread_step p s s'"
  shows "memread_inv p m0 s'"
proof -
  obtain hw mem ds where h: "md_hw s = (hw, mem, ds)" by (cases "md_hw s")
  obtain js where i: "read_inv memread_beats p hw mem js"
    "memread_at p m0 s js"
    using assms(1) h unfolding memread_inv_def by auto
  show ?thesis using assms(2)
  proof cases
    case (md_hardware h')
    then show ?thesis using memread_inv_hw [OF assms(1)] by simp
  next
    case (md_readDone hw1 mem1 v ds1)
    then show ?thesis using h i by (intro memread_invI [of _ hw mem ds1 p js]) (auto simp: memread_at_def awaits_def split: memread_pc.splits)
  next
    case md_result1
    then show ?thesis using h i by (intro memread_invI [of _ hw mem ds p js]) (auto simp: memread_at_def awaits_def)
  next
    case (md_store k hw1 mem1 ds1)
    have k: "k \<le> 2" "mem = wrong_words p k m0" "test_result s = 0" "\<not> mr_cf hw" "ds = []" "md_sem s = 0" "mismatchCount s = 0"
      using i(2) md_store(2) h by (auto simp: memread_at_def)
    have w: "obj_store p (wrong_word k) (- 1) mem = wrong_words p (Suc k) m0" using k(2) by (simp add: wrong_words_def)
    have n: "\<not> k < 2 \<Longrightarrow> Suc k = 3" using k(1) by simp
    have hw: "hw1 = hw" "mem1 = mem" "ds1 = ds" using md_store(3) h by simp_all
    show ?thesis
    proof (rule memread_invI [of _ hw "wrong_words p (Suc k) m0" ds p js])
      show "md_hw s' = (hw, wrong_words p (Suc k) m0, ds)" using md_store(1) hw w by simp
      show "read_inv memread_beats p hw (wrong_words p (Suc k) m0) js" by (rule read_inv_mem [OF i(1) k(4)])
    qed (use md_store(1) k n hw w in \<open>auto simp: memread_at_def\<close>)
  next
    case (md_again hw1 mem1 ds1 hw')
    have hw: "hw1 = hw" "mem1 = mem" "ds1 = ds" using md_again(3) h by simp_all
    have k: "mem = wrong_words p 3 m0" "test_result s = 0" "\<not> mr_cf hw" "ds = []" "md_sem s = 0" "mismatchCount s = 0" using i(2) md_again(2) h by (auto simp: memread_at_def)
    note a = memread_again [OF i(1) k(3) md_again(4) [unfolded hw] k(1)]
    show ?thesis using md_again(1) hw k a by (intro memread_invI [of _ hw' mem ds p js]) (auto simp: memread_at_def awaits_def)
  next
    case md_result2
    then show ?thesis using h i by (intro memread_invI [of _ hw mem ds p js]) (auto simp: memread_at_def awaits_def)
  qed
qed

definition memread_rank :: "memread_pc \<Rightarrow> nat" where
  "memread_rank pc = (case pc of Rd_wait1 \<Rightarrow> 6 | Rd_store k \<Rightarrow> 5 - k | Rd_again \<Rightarrow> 2 | Rd_wait2 \<Rightarrow> 1 | Rd_exit _ \<Rightarrow> 0)"

definition memread_order :: "(memread_sys \<times> memread_sys) set" where
  "memread_order = measures [\<lambda>s. memread_rank (md_pc s), \<lambda>s. read_work memread_beats (md_hw s) + md_sem s]"

lemma memread_descends:
  assumes "memread_inv p m0 s" "memread_step p s s'"
  shows "(s', s) \<in> memread_order"
proof -
  obtain hw mem ds where h: "md_hw s = (hw, mem, ds)" by (cases "md_hw s")
  obtain js where i: "read_inv memread_beats p hw mem js" using assms(1) h unfolding memread_inv_def by auto
  show ?thesis using assms(2)
  proof cases
    case (md_hardware h')
    then show ?thesis using read_descends [OF i, of ds h'] h by (simp add: memread_order_def)
  next
    case (md_store k hw1 mem1 ds1)
    have "k \<le> 2" using assms(1) md_store(2) h by (auto simp: memread_inv_def memread_at_def)
    then show ?thesis using md_store by (simp add: memread_order_def memread_rank_def) linarith
  qed (simp_all add: memread_order_def memread_rank_def read_work_def)
qed

lemma memread_progress:
  assumes "memread_inv p m0 s" "\<not> (memread_rank (md_pc s) = 0 \<and> read_rests (fst (md_hw s)))"
  shows "\<exists>s'. memread_step p s s'"
proof -
  obtain hw mem ds where h: "md_hw s = (hw, mem, ds)" by (cases "md_hw s")
  obtain js where i: "read_inv memread_beats p hw mem js" using assms(1) h unfolding memread_inv_def by auto
  show ?thesis
  proof (cases "read_rests hw")
    case False
    then obtain h' where "memread_rule (md_hw s) h'" using read_progress [OF i] h by metis
    then show ?thesis by (blast intro: memread_step.md_hardware)
  next
    case True
    then have "counts_to_come memread_beats hw mem js = []" by (simp add: read_rests_def counts_to_come_def flags_to_come_def beat_flags_def)
    then have cf: "\<not> mr_cf hw" using i by (auto simp: read_inv_def word_less_nat_alt)
    have ex: "md_pc s \<noteq> Rd_exit r" for r using assms(2) True h by (auto simp: memread_rank_def)
    show ?thesis
    proof (cases ds)
      case (Cons v vs)
      then show ?thesis using memread_step.md_readDone h by blast
    next
      case Nil
      show ?thesis
      proof (cases "md_pc s")
        case (Rd_store k)
        then show ?thesis using memread_step.md_store h by blast
      next
        case Rd_again
        moreover obtain hw' where "startRead p (of_nat memread_words) 16 64 hw = Some hw'" using cf by (simp add: startRead_def)
        ultimately show ?thesis using memread_step.md_again [OF _ h] by blast
      next
        case Rd_wait1
        then have "0 < md_sem s" using assms(1) h cf Nil by (auto simp: memread_inv_def memread_at_def awaits_def)
        then show ?thesis using memread_step.md_result1 Rd_wait1 by blast
      next
        case Rd_wait2
        then have "0 < md_sem s" using assms(1) h cf Nil by (auto simp: memread_inv_def memread_at_def awaits_def)
        then show ?thesis using memread_step.md_result2 Rd_wait2 by blast
      qed (use ex in blast)
    qed
  qed
qed

interpretation memread_sched: rule_system "memread_step p" "memread_inv p m0" "\<lambda>s. memread_rank (md_pc s) = 0 \<and> read_rests (fst (md_hw s))" memread_order
proof unfold_locales
  show "wf memread_order" by (simp add: memread_order_def)
qed (fact memread_inv_step memread_descends memread_progress)+

lemma sum_list_zeros: "\<forall>c \<in> set cs. c = 0 \<Longrightarrow> sum_list cs = (0 :: u32)"
  by (induction cs) simp_all

lemma memread_runtest_inv: "memread_inv p m0 (memread_runtest p m0)"
proof -
  let ?h = memread_beats and ?mem = "index_words p m0"
  define hw where "hw = mkMemread\<lparr>mr_pointer := p, mr_cf := True, mr_numWords := of_nat (2 * ?h), mr_burstLen := 16, mr_iterCnt := 64, mr_iterCnts := 64,
    mismatchCounts := 0, valuesToRead := 0\<rparr>"
  have st: "startRead p (of_nat memread_words) 16 64 mkMemread = Some hw"
    using memread_sizes(2) by (simp add: startRead_def mkMemread_def hw_def mr_chunk_def)
  have h: "0 < ?h" by (simp add: memread_words_def)
  let ?pat = "iter_flags ?h p ?mem"
  have lp: "length (concat (replicate k ?pat)) = k * ?h" for k by (induction k) (simp_all add: iter_flags_def)
  have fl: "flags_to_come ?h hw ?mem [] = concat (replicate 64 ?pat)"
    using read_engine_reset(2) [of ?mem] by (simp add: flags_to_come_def beat_flags_def hw_def mkMemread_def)
  have cs: "counts_to_come ?h hw ?mem [] = counts ?h 0 0 (concat (replicate 64 ?pat))"
    using fl by (simp add: counts_to_come_def hw_def mkMemread_def)
  have "length (counts_to_come ?h hw ?mem []) = 64"
    unfolding cs counts_length [OF h] lp by (simp add: memread_words_def)
  moreover have "read_pipes ?h hw ?mem []"
    using read_engine_reset(1) [of 2] read_engine_reset(2) [of ?mem] by (simp add: read_pipes_def hw_def mkMemread_def)
  ultimately have "read_inv ?h p hw ?mem []" using memread_sizes(1) by (simp add: read_inv_def hw_def mkMemread_def)
  moreover have "report ?h hw ?mem [] = 0"
  proof -
    have "\<forall>f \<in> set (concat (replicate 64 ?pat)). \<not> f" using index_words_flags [of p m0] by auto
    then have "\<forall>c \<in> set (counts ?h 0 0 (concat (replicate 64 ?pat))). c = 0" using counts_none by blast
    then have "sum_list (counts_to_come ?h hw ?mem []) = 0" unfolding cs by (rule sum_list_zeros)
    then show ?thesis by (simp add: report_def hw_def mkMemread_def)
  qed
  ultimately show ?thesis using st
    by (intro memread_invI [of _ hw ?mem "[]" p "[]"]) (simp_all add: memread_runtest_def memread_at_def awaits_def wrong_words_def hw_def)
qed

text \<open>
  C15.  The reading program ends under every schedule, and its exit status is always 1: the first test passes,
  and the second cannot, whatever beats of the first are still on their way when it starts.  The design
  reports the sum of running totals, not of the mismatches of each iteration, and the
  program compares it with three for each of the 64 iterations.
\<close>

theorem memread_always_fails:
  "(\<forall>f. f 0 = memread_runtest ref_srcAlloc mem \<longrightarrow> (\<exists>k. \<not> memread_step ref_srcAlloc (f k) (f (Suc k)))) \<and>
   (\<forall>s. (memread_step ref_srcAlloc)\<^sup>*\<^sup>* (memread_runtest ref_srcAlloc mem) s \<and> (\<nexists>s'. memread_step ref_srcAlloc s s') \<longrightarrow> memread_status s = Some 1) \<and>
   (\<forall>s. (memread_step ref_srcAlloc)\<^sup>*\<^sup>* (memread_runtest ref_srcAlloc mem) s \<and> md_pc s = Rd_again \<longrightarrow> test_result s = 0) \<and>
   (\<forall>s c. (memread_step ref_srcAlloc)\<^sup>*\<^sup>* (memread_runtest ref_srcAlloc mem) s \<and> memread_status s = Some c \<longrightarrow> c = 1)"
proof -
  let ?s0 = "memread_runtest ref_srcAlloc mem"
  have inv: "memread_inv ref_srcAlloc mem ?s0" by (rule memread_runtest_inv)
  have r: "memread_inv ref_srcAlloc mem s" if "(memread_step ref_srcAlloc)\<^sup>*\<^sup>* ?s0 s" for s
    using memread_sched.inv_reach [OF that inv] .
  have one: "n = 1" if "(memread_step ref_srcAlloc)\<^sup>*\<^sup>* ?s0 s" "md_pc s = Rd_exit n" for s n
    using r [OF that(1)] that(2) by (auto simp: memread_inv_def memread_at_def split: prod.splits)
  have ex: "\<exists>n. md_pc s = Rd_exit n" if "(memread_step ref_srcAlloc)\<^sup>*\<^sup>* ?s0 s" "\<nexists>s'. memread_step ref_srcAlloc s s'" for s
  proof -
    have "memread_rank (md_pc s) = 0" using memread_sched.stuck_final [OF that(1) inv that(2)] by blast
    moreover have "k \<le> 2" if "md_pc s = Rd_store k" for k
      using r [OF \<open>(memread_step ref_srcAlloc)\<^sup>*\<^sup>* ?s0 s\<close>] that by (auto simp: memread_inv_def memread_at_def split: prod.splits)
    ultimately show ?thesis by (cases "md_pc s") (auto simp: memread_rank_def)
  qed
  have "\<exists>k. \<not> memread_step ref_srcAlloc (f k) (f (Suc k))" if "f 0 = ?s0" for f
    using memread_sched.no_infinite_run [of ref_srcAlloc mem f] inv that by simp
  moreover have "memread_status s = Some 1" if "(memread_step ref_srcAlloc)\<^sup>*\<^sup>* ?s0 s" "\<nexists>s'. memread_step ref_srcAlloc s s'" for s
    using ex [OF that] one [OF that(1)] by (auto simp: memread_status_def)
  moreover have "test_result s = 0" if "(memread_step ref_srcAlloc)\<^sup>*\<^sup>* ?s0 s" "md_pc s = Rd_again" for s
    using r [OF that(1)] that(2) by (auto simp: memread_inv_def memread_at_def split: prod.splits)
  moreover have "c = 1" if "(memread_step ref_srcAlloc)\<^sup>*\<^sup>* ?s0 s" "memread_status s = Some c" for s c
    using one [OF that(1)] that(2) by (auto simp: memread_status_def split: memread_pc.splits)
  ultimately show ?thesis by blast
qed

theorem memread_always_fails_witness:
  "\<exists>s. (memread_step 1)\<^sup>*\<^sup>* (memread_runtest 1 (\<lambda>_. (0, 0))) s \<and> memread_status s = Some 1"
proof -
  let ?s0 = "memread_runtest 1 (\<lambda>_. (0, 0))"
  obtain s where s: "(memread_step 1)\<^sup>*\<^sup>* ?s0 s" "memread_rank (md_pc s) = 0"
    using memread_sched.finishes [OF memread_runtest_inv, of 1 "\<lambda>_. (0, 0)"] by blast
  have "memread_inv 1 (\<lambda>_. (0, 0)) s" using memread_sched.inv_reach [OF s(1) memread_runtest_inv] .
  then obtain n where "md_pc s = Rd_exit n" using s(2)
    by (cases "md_pc s") (auto simp: memread_rank_def memread_inv_def memread_at_def split: prod.splits)
  then obtain c where "memread_status s = Some c" by (simp add: memread_status_def)
  then show ?thesis using memread_always_fails [of 1 "\<lambda>_. (0, 0)"] s(1) by blast
qed

end
