(* ===== verification/Memwrite_Test.thy ===== *)
theory Memwrite_Test
  imports Mem_Engine Rule_System
begin

text \<open>
  The writing example: \<^verbatim>\<open>examples/memwrite/Memwrite.bsv\<close> with one server, which fills a buffer with the indices of its words,
  and the program \<^verbatim>\<open>lib/cpp/testmemwrite.h\<close> with its \<^verbatim>\<open>main\<close>, \<^verbatim>\<open>examples/memwrite/testmemwrite.cpp\<close>: a parent process that lets the
  design write, and a child that gets the buffer's descriptor and compares.
\<close>

section \<open>The design\<close>

record memwrite_hw =
  mw_pointer :: u32
  mw_numWords :: u32
  mw_burstLen :: u32
  mw_cf :: bool
  srcGens :: u32
  mw_iterCnt :: u32
  mw_iterCnts :: u32
  mw_cfs :: bool
  finishFifo :: nat
  mw_we :: write_engine

definition mkMemwrite :: memwrite_hw where
  "mkMemwrite = \<lparr>mw_pointer = 0, mw_numWords = 0, mw_burstLen = 0, mw_cf = False, srcGens = 0, mw_iterCnt = 0, mw_iterCnts = 0, mw_cfs = False,
     finishFifo = 0, mw_we = write_engine_reset\<rparr>"

definition mw_chunk :: "memwrite_hw \<Rightarrow> 40 word" where
  "mw_chunk s = ucast (mw_numWords s) * 4"

definition startWrite :: "u32 \<Rightarrow> u32 \<Rightarrow> u32 \<Rightarrow> u32 \<Rightarrow> memwrite_hw \<Rightarrow> memwrite_hw option" where
  "startWrite wp nw bl ic s =
     (if mw_cf s then None
      else Some (s\<lparr>mw_pointer := wp, mw_cf := True, mw_numWords := nw, mw_burstLen := bl, mw_iterCnt := ic, mw_iterCnts := ic\<rparr>))"

definition mw_cmd :: "memwrite_hw \<Rightarrow> mem_cmd" where
  "mw_cmd s = \<lparr>cmd_pointer = mw_pointer s, cmd_base = 0, cmd_burstLen = ucast (mw_burstLen s * 4), cmd_len = ucast (mw_chunk s)\<rparr>"

text \<open>The rules, on the state, the memory and the number of \<^verbatim>\<open>writeDone\<close> indications.\<close>

inductive memwrite_rule :: "nat \<Rightarrow> memwrite_hw \<times> (obj_addr \<Rightarrow> beat) \<times> nat \<Rightarrow> memwrite_hw \<times> (obj_addr \<Rightarrow> beat) \<times> nat \<Rightarrow> bool" for wcap where
  mw_start: "\<lbrakk>mw_iterCnts s > 0; we_put 1 (mw_cmd s) (mw_we s) = Some e; \<not> mw_cfs s\<rbrakk> \<Longrightarrow>
    memwrite_rule wcap (s, mem, d) (s\<lparr>mw_we := e, srcGens := 0 * ucast (mw_chunk s div 4), mw_cfs := True\<rparr>, mem, d)"
| mw_finish: "\<lbrakk>we_response (mw_we s) = Some e; finishFifo s < 2\<rbrakk> \<Longrightarrow>
    memwrite_rule wcap (s, mem, d) (s\<lparr>mw_we := e, mw_iterCnts := mw_iterCnts s - 1, finishFifo := finishFifo s + 1\<rparr>, mem, d)"
| mw_src: "\<lbrakk>mw_cfs s; we_enq wcap (srcGens s, srcGens s + 1) (mw_we s) = Some e; new_srcGen = srcGens s + 2\<rbrakk> \<Longrightarrow>
    memwrite_rule wcap (s, mem, d) (s\<lparr>mw_we := e, srcGens := new_srcGen, mw_cfs := (new_srcGen \<noteq> (0 + 1) * ucast (mw_chunk s div 4))\<rparr>, mem, d)"
| mw_count: "\<lbrakk>0 < finishFifo s; mw_iterCnt s \<noteq> 1\<rbrakk> \<Longrightarrow>
    memwrite_rule wcap (s, mem, d) (s\<lparr>finishFifo := finishFifo s - 1, mw_iterCnt := mw_iterCnt s - 1\<rparr>, mem, d)"
| mw_done: "\<lbrakk>0 < finishFifo s; mw_iterCnt s = 1; mw_cf s\<rbrakk> \<Longrightarrow>
    memwrite_rule wcap (s, mem, d) (s\<lparr>finishFifo := finishFifo s - 1, mw_iterCnt := mw_iterCnt s - 1, mw_cf := False\<rparr>, mem, d + 1)"
| mw_in_writer: "we_rule (mw_we s, mem) (e, mem') \<Longrightarrow> memwrite_rule wcap (s, mem, d) (s\<lparr>mw_we := e\<rparr>, mem', d)"

section \<open>The program\<close>

definition memwrite_words :: nat where "memwrite_words = 0x1240000 div 4"

definition clear_words :: "u32 \<Rightarrow> (obj_addr \<Rightarrow> beat) \<Rightarrow> obj_addr \<Rightarrow> beat" where
  "clear_words p mem = fold (\<lambda>i. obj_store p i 0xDEADBEEF) [0..<memwrite_words] mem"

text \<open>The child's loop with its own counter of expected words.\<close>

definition child_mismatch :: "u32 \<Rightarrow> (obj_addr \<Rightarrow> beat) \<Rightarrow> bool" where
  "child_mismatch p mem = fst (fold (\<lambda>i (mismatch, sg). (mismatch \<or> obj_word mem p i \<noteq> sg, sg + 1)) [0..<memwrite_words] (False, 0 :: u32))"

text \<open>
  The parent waits for \<^verbatim>\<open>writeDone\<close> and sends the descriptor; the child, which was forked before, reads it and
  leaves; \<^verbatim>\<open>main\<close> waits for the child and leaves with what \<^verbatim>\<open>waitpid\<close> gave.  \<open>wp_fd_sent\<close> is the descriptor in the socket.
\<close>

record memwrite_sys =
  wp_hw :: "memwrite_hw \<times> (obj_addr \<Rightarrow> beat) \<times> nat"
  wp_handled :: nat
  wp_sem :: nat
  wp_fd_sent :: bool
  wp_child :: "nat option"
  wp_exit :: "nat option"

text \<open>The status word of a process that left with a code, and the code of a process that leaves with a number.\<close>

definition wait_status :: "nat \<Rightarrow> nat" where "wait_status code = 256 * (code mod 256)"

definition exit_code :: "nat \<Rightarrow> nat" where "exit_code n = n mod 256"

inductive memwrite_step :: "nat \<Rightarrow> u32 \<Rightarrow> memwrite_sys \<Rightarrow> memwrite_sys \<Rightarrow> bool" for wcap dst where
  wp_hardware: "memwrite_rule wcap (wp_hw s) h \<Longrightarrow> memwrite_step wcap dst s (s\<lparr>wp_hw := h\<rparr>)"
| wp_writeDone: "wp_handled s < snd (snd (wp_hw s)) \<Longrightarrow>
    memwrite_step wcap dst s (s\<lparr>wp_handled := wp_handled s + 1, wp_sem := wp_sem s + 1\<rparr>)"
| wp_parent: "\<lbrakk>\<not> wp_fd_sent s; 0 < wp_sem s\<rbrakk> \<Longrightarrow> memwrite_step wcap dst s (s\<lparr>wp_sem := wp_sem s - 1, wp_fd_sent := True\<rparr>)"
| wp_child_runs: "\<lbrakk>wp_fd_sent s; wp_child s = None\<rbrakk> \<Longrightarrow>
    memwrite_step wcap dst s (s\<lparr>wp_child := Some (of_bool (child_mismatch dst (fst (snd (wp_hw s)))))\<rparr>)"
| wp_waitpid: "\<lbrakk>wp_exit s = None; wp_child s = Some code\<rbrakk> \<Longrightarrow> memwrite_step wcap dst s (s\<lparr>wp_exit := Some (exit_code (wait_status code))\<rparr>)"

definition memwrite_parent :: "u32 \<Rightarrow> (obj_addr \<Rightarrow> beat) \<Rightarrow> memwrite_sys" where
  "memwrite_parent ref_dstAlloc mem =
     \<lparr>wp_hw = (the (startWrite ref_dstAlloc (of_nat memwrite_words) 16 128 mkMemwrite), clear_words ref_dstAlloc mem, 0),
      wp_handled = 0, wp_sem = 0, wp_fd_sent = False, wp_child = None, wp_exit = None\<rparr>"

text \<open>\<^verbatim>\<open>main\<close>: the socket and the child first.\<close>

definition memwrite_main :: "int \<Rightarrow> int \<Rightarrow> u32 \<Rightarrow> (obj_addr \<Rightarrow> beat) \<Rightarrow> nat + memwrite_sys" where
  "memwrite_main socketpair_rc fork_rc ref_dstAlloc mem =
     (if socketpair_rc < 0 then Inl 1 else if fork_rc = -1 then Inl 1 else Inr (memwrite_parent ref_dstAlloc mem))"

section \<open>The invariant of a write\<close>

lemma mw_cmd_laws:
  assumes "rd_sizes h" "mw_numWords s = of_nat (2 * h)" "mw_burstLen s = 16"
  shows "cmd_ok (mw_cmd s) \<and> burst_beats (mw_cmd s) \<le> 8" "cmd_beats (mw_cmd s) = h" "map fst (cmd_todo (mw_cmd s)) = map (\<lambda>j. (mw_pointer s, 8 * j)) [0..<h]"
    "ucast (mw_chunk s div 4) = (of_nat (2 * h) :: u32)"
proof -
  note w = chunk_words [OF assms(1,2), folded mw_chunk_def]
  have f: "cmd_base (mw_cmd s) = 0" "cmd_burstLen (mw_cmd s) = 64" "cmd_len (mw_cmd s) = of_nat (8 * h)"
    using assms(3) w(2) by (simp_all add: mw_cmd_def del: of_nat_mult)
  note c = chunk_cmd_laws [OF assms(1) f]
  show "cmd_ok (mw_cmd s) \<and> burst_beats (mw_cmd s) \<le> 8" "cmd_beats (mw_cmd s) = h" using c(1-3) by simp_all
  show "map fst (cmd_todo (mw_cmd s)) = map (\<lambda>j. (mw_pointer s, 8 * j)) [0..<h]" using c(4) by (simp add: mw_cmd_def)
  show "ucast (mw_chunk s div 4) = (of_nat (2 * h) :: u32)" by (fact w(1))
qed

text \<open>
  The beats the source still has to generate for the started iteration, from beat \<open>g\<close> on, and the iterations not started: those
  not finished, less the one in the engine.
\<close>

definition gen_left :: "nat \<Rightarrow> memwrite_hw \<Rightarrow> nat list" where
  "gen_left h s = (if mw_cfs s then [unat (srcGens s) div 2..<h] else [])"

definition iters_left :: "memwrite_hw \<Rightarrow> nat" where
  "iters_left s = unat (mw_iterCnts s) - ld_outs0 (we_loader (mw_we s))"

definition write_inv :: "nat \<Rightarrow> nat \<Rightarrow> u32 \<Rightarrow> memwrite_hw \<times> (obj_addr \<Rightarrow> beat) \<times> nat \<Rightarrow> bool" where
  "write_inv wcap h p = (\<lambda>(s, mem, d). rd_sizes h \<and> 8 \<le> wcap \<and> mw_pointer s = p \<and> mw_numWords s = of_nat (2 * h) \<and> mw_burstLen s = 16 \<and>
     we_inv 1 8 (mw_we s) \<and> ld_outs0 (we_loader (mw_we s)) \<le> 1 \<and> ld_outs0 (we_loader (mw_we s)) \<le> unat (mw_iterCnts s) \<and>
     (mw_cfs s \<longrightarrow> (\<exists>g < h. srcGens s = of_nat (2 * g)) \<and> ld_outs0 (we_loader (mw_we s)) = 1) \<and>
     copied h p (\<lambda>off. index_beat (off div 8)) mem (we_stores (mw_we s))
       (we_data (mw_we s) @ map index_beat (gen_left h s) @ concat (replicate (iters_left s) (map index_beat [0..<h])))
       (we_left (mw_we s) @ concat (replicate (iters_left s) (map (\<lambda>j. (p, 8 * j)) [0..<h]))) \<and>
     unat (mw_iterCnt s) = unat (mw_iterCnts s) + finishFifo s \<and> (mw_cf s \<longleftrightarrow> 0 < mw_iterCnt s) \<and> d = of_bool (\<not> mw_cf s))"

lemma gen_left_regs:
  assumes "rd_sizes h" "g < h" "srcGens s = of_nat (2 * g)" "mw_cfs s"
  shows "gen_left h s = g # [Suc g..<h]" "(srcGens s, srcGens s + 1) = index_beat g" "srcGens s + 2 = of_nat (2 * Suc g)"
    "srcGens s + 2 = of_nat (2 * h) \<longleftrightarrow> Suc g = h"
proof -
  have lim: "2 * Suc g < 2 ^ 32" "2 * h < 2 ^ 32" using assms(1,2) by (auto simp: rd_sizes_def)
  have "unat (srcGens s) div 2 = g" unfolding assms(3) using u32_of_nat [of "2 * g"] lim by (simp del: of_nat_mult)
  then show "gen_left h s = g # [Suc g..<h]" using assms(2,4) by (simp add: gen_left_def upt_conv_Cons)
  show "(srcGens s, srcGens s + 1) = index_beat g" using assms(3) by (simp add: index_beat_def)
  show n: "srcGens s + 2 = of_nat (2 * Suc g)" using assms(3) by simp
  have "of_nat (2 * Suc g) = (of_nat (2 * h) :: u32) \<longleftrightarrow> 2 * Suc g = 2 * h" using u32_of_nat [OF lim(1)] u32_of_nat [OF lim(2)] by metis
  then show "srcGens s + 2 = of_nat (2 * h) \<longleftrightarrow> Suc g = h" unfolding n by presburger
qed

lemma mw_start_inv:
  assumes "write_inv wcap h p (s, mem, d)" "mw_iterCnts s > 0" "we_put 1 (mw_cmd s) (mw_we s) = Some e" "\<not> mw_cfs s"
  shows "write_inv wcap h p (s\<lparr>mw_we := e, srcGens := 0 * ucast (mw_chunk s div 4), mw_cfs := True\<rparr>, mem, d)"
proof -
  let ?s = "s\<lparr>mw_we := e, srcGens := 0 * ucast (mw_chunk s div 4), mw_cfs := True\<rparr>"
  have sz: "rd_sizes h" "mw_numWords s = of_nat (2 * h)" "mw_burstLen s = 16" and we: "we_inv 1 8 (mw_we s)" and p: "mw_pointer s = p"
    using assms(1) by (auto simp: write_inv_def)
  note c = mw_cmd_laws [OF sz] and pl = wr.put_laws [OF we mw_cmd_laws(1) [OF sz] assms(3)]
  have o: "ld_outs0 (we_loader (mw_we s)) = 0" using assms(3) by (auto simp: we_put_def ld_put_def split: if_splits)
  have it: "0 < unat (mw_iterCnts s)" using assms(2) by (simp add: word_less_nat_alt)
  then have il: "iters_left s = Suc (iters_left ?s)" using pl o by (simp add: iters_left_def)
  have h: "0 < h" using sz(1) by (simp add: rd_sizes_def)
  have data: "we_data (mw_we ?s) @ map index_beat (gen_left h ?s) @ concat (replicate (iters_left ?s) (map index_beat [0..<h])) =
      we_data (mw_we s) @ map index_beat (gen_left h s) @ concat (replicate (iters_left s) (map index_beat [0..<h]))"
    using pl assms(4) unfolding il by (simp add: gen_left_def)
  have left: "we_left (mw_we ?s) @ concat (replicate (iters_left ?s) (map (\<lambda>j. (p, 8 * j)) [0..<h])) =
      we_left (mw_we s) @ concat (replicate (iters_left s) (map (\<lambda>j. (p, 8 * j)) [0..<h]))"
    using pl c(3) p unfolding il by simp
  have "copied h p (\<lambda>off. index_beat (off div 8)) mem (we_stores (mw_we ?s))
       (we_data (mw_we ?s) @ map index_beat (gen_left h ?s) @ concat (replicate (iters_left ?s) (map index_beat [0..<h])))
       (we_left (mw_we ?s) @ concat (replicate (iters_left ?s) (map (\<lambda>j. (p, 8 * j)) [0..<h])))"
    unfolding data left using assms(1) pl by (simp add: write_inv_def)
  moreover have "\<exists>g < h. 0 * ucast (mw_chunk s div 4) = (of_nat (2 * g) :: u32)" using h by (intro exI [of _ 0]) simp
  ultimately show ?thesis using assms(1) pl o it by (simp add: write_inv_def)
qed

lemma write_lengths:
  assumes "write_inv wcap h p (s, mem, d)"
  shows "length (we_data (mw_we s)) + length (gen_left h s) = length (we_left (mw_we s))"
proof -
  have "length (we_data (mw_we s) @ map index_beat (gen_left h s) @ concat (replicate (iters_left s) (map index_beat [0..<h]))) =
      length (we_left (mw_we s) @ concat (replicate (iters_left s) (map (\<lambda>j. (p, 8 * j)) [0..<h])))"
    using assms unfolding write_inv_def copied_def by (simp only: prod.case) (metis length_map)
  moreover have "length (concat (replicate k (map index_beat [0..<h]))) = length (concat (replicate k (map (\<lambda>j. (p, 8 * j)) [0..<h])))" for k
    by (induction k) simp_all
  ultimately show ?thesis by simp
qed

lemma mw_finish_inv:
  assumes "write_inv wcap h p (s, mem, d)" "we_response (mw_we s) = Some e"
  shows "write_inv wcap h p (s\<lparr>mw_we := e, mw_iterCnts := mw_iterCnts s - 1, finishFifo := finishFifo s + 1\<rparr>, mem, d)"
proof -
  let ?s = "s\<lparr>mw_we := e, mw_iterCnts := mw_iterCnts s - 1, finishFifo := finishFifo s + 1\<rparr>"
  have we: "we_inv 1 8 (mw_we s)" using assms(1) by (simp add: write_inv_def)
  note rl = wr.response_laws [OF we assms(2)]
  have o: "ld_outs0 (we_loader (mw_we s)) = 1" "ld_outs0 (we_loader e) = 0" "0 < unat (mw_iterCnts s)" using assms(1) rl by (auto simp: write_inv_def)
  have u: "unat (mw_iterCnts s - 1) = unat (mw_iterCnts s) - 1" using o(3) unat_sub [of 1 "mw_iterCnts s"] by (simp add: word_le_nat_alt)
  have nc: "\<not> mw_cfs s"
  proof
    assume c: "mw_cfs s"
    have sz: "rd_sizes h" using assms(1) by (simp add: write_inv_def)
    obtain g where g: "g < h" "srcGens s = of_nat (2 * g)" using c assms(1) by (auto simp: write_inv_def)
    have "we_left e = []" using wr.quiet [of 1 8 e] rl o(2) by blast
    then have "we_left (mw_we s) = []" using rl by simp
    then have "length (we_data (mw_we s)) + length (gen_left h s) = 0" using write_lengths [OF assms(1)] by simp
    then show False using gen_left_regs(1) [OF sz g c] by simp
  qed
  have "iters_left ?s = iters_left s" using o u by (simp add: iters_left_def)
  moreover have "gen_left h ?s = gen_left h s" by (simp add: gen_left_def)
  ultimately show ?thesis using assms(1) rl o u nc by (simp add: write_inv_def)
qed

lemma mw_src_inv:
  assumes "write_inv wcap h p (s, mem, d)" "mw_cfs s" "we_enq wcap (srcGens s, srcGens s + 1) (mw_we s) = Some e" "new_srcGen = srcGens s + 2"
  shows "write_inv wcap h p (s\<lparr>mw_we := e, srcGens := new_srcGen, mw_cfs := (new_srcGen \<noteq> (0 + 1) * ucast (mw_chunk s div 4))\<rparr>, mem, d)"
    "length (gen_left h s) = Suc (length (gen_left h (s\<lparr>mw_we := e, srcGens := new_srcGen, mw_cfs := (new_srcGen \<noteq> (0 + 1) * ucast (mw_chunk s div 4))\<rparr>)))"
proof -
  let ?s = "s\<lparr>mw_we := e, srcGens := new_srcGen, mw_cfs := (new_srcGen \<noteq> (0 + 1) * ucast (mw_chunk s div 4))\<rparr>"
  have we: "we_inv 1 8 (mw_we s)" and sz: "rd_sizes h" "mw_numWords s = of_nat (2 * h)" "mw_burstLen s = 16" using assms(1) by (auto simp: write_inv_def)
  obtain g where g: "g < h" "srcGens s = of_nat (2 * g)" and o: "ld_outs0 (we_loader (mw_we s)) = 1" using assms(1,2) by (auto simp: write_inv_def)
  note el = wr.enq_laws [OF we assms(3)] and gl = gen_left_regs [OF sz(1) g assms(2)]
  have c: "mw_cfs ?s \<longleftrightarrow> Suc g \<noteq> h" using gl(4) mw_cmd_laws(4) [OF sz] assms(4) by simp
  have ng: "srcGens ?s = of_nat (2 * Suc g)" using gl(3) assms(4) by simp
  have gen: "gen_left h ?s = [Suc g..<h]"
  proof (cases "Suc g = h")
    case False
    then have "Suc g < h" using g(1) by simp
    then show ?thesis using gen_left_regs(1) [OF sz(1) _ ng, of] c False by (simp add: upt_conv_Cons)
  qed (use c in \<open>simp add: gen_left_def\<close>)
  then show "length (gen_left h s) = Suc (length (gen_left h ?s))" unfolding gl(1) by simp
  have il: "iters_left ?s = iters_left s" using el by (simp add: iters_left_def)
  have cp: "copied h p (\<lambda>off. index_beat (off div 8)) mem (we_stores (mw_we ?s))
       (we_data (mw_we ?s) @ map index_beat (gen_left h ?s) @ concat (replicate (iters_left ?s) (map index_beat [0..<h])))
       (we_left (mw_we ?s) @ concat (replicate (iters_left ?s) (map (\<lambda>j. (p, 8 * j)) [0..<h])))"
    using assms(1) el gl(1,2) unfolding il gen by (simp add: write_inv_def)
  have cf: "(mw_cfs ?s \<longrightarrow> (\<exists>g < h. srcGens ?s = of_nat (2 * g)) \<and> ld_outs0 (we_loader (mw_we ?s)) = 1)"
    using c ng g(1) o el by (auto intro!: exI [of _ "Suc g"])
  show "write_inv wcap h p (?s, mem, d)" using assms(1) el cp cf unfolding write_inv_def by simp
qed

lemma mw_end_inv:
  assumes "write_inv wcap h p (s, mem, d)" "0 < finishFifo s"
  shows "mw_iterCnt s \<noteq> 1 \<Longrightarrow> write_inv wcap h p (s\<lparr>finishFifo := finishFifo s - 1, mw_iterCnt := mw_iterCnt s - 1\<rparr>, mem, d)"
    "mw_iterCnt s = 1 \<Longrightarrow> write_inv wcap h p (s\<lparr>finishFifo := finishFifo s - 1, mw_iterCnt := mw_iterCnt s - 1, mw_cf := False\<rparr>, mem, d + 1)"
proof -
  have it: "unat (mw_iterCnt s) = unat (mw_iterCnts s) + finishFifo s" using assms(1) by (simp add: write_inv_def)
  have u: "unat (mw_iterCnt s - 1) = unat (mw_iterCnt s) - 1" using it assms(2) unat_sub [of 1 "mw_iterCnt s"] by (simp add: word_le_nat_alt)
  have pos: "0 < mw_iterCnt s" using it assms(2) by (simp add: word_less_nat_alt)
  have g: "gen_left h (s\<lparr>finishFifo := n, mw_iterCnt := i, mw_cf := b\<rparr>) = gen_left h s" "iters_left (s\<lparr>finishFifo := n, mw_iterCnt := i, mw_cf := b\<rparr>) = iters_left s"
    "gen_left h (s\<lparr>finishFifo := n, mw_iterCnt := i\<rparr>) = gen_left h s" "iters_left (s\<lparr>finishFifo := n, mw_iterCnt := i\<rparr>) = iters_left s" for n i b
    by (simp_all add: gen_left_def iters_left_def)
  show "write_inv wcap h p (s\<lparr>finishFifo := finishFifo s - 1, mw_iterCnt := mw_iterCnt s - 1\<rparr>, mem, d)" if "mw_iterCnt s \<noteq> 1"
  proof -
    have "unat (mw_iterCnt s) \<noteq> 1" using that by (simp add: word_unat_eq_iff)
    then have "0 < mw_iterCnt s - 1" using u it assms(2) by (simp add: word_less_nat_alt)
    then show ?thesis using assms u it pos by (simp add: write_inv_def g)
  qed
  show "write_inv wcap h p (s\<lparr>finishFifo := finishFifo s - 1, mw_iterCnt := mw_iterCnt s - 1, mw_cf := False\<rparr>, mem, d + 1)" if "mw_iterCnt s = 1"
  proof -
    have "unat (mw_iterCnts s) = 0" "finishFifo s = 1" using it that assms(2) by simp_all
    then show ?thesis using assms(1) that by (auto simp: write_inv_def g)
  qed
qed

lemma mw_in_writer_inv:
  assumes "write_inv wcap h p (s, mem, d)" "we_rule (mw_we s, mem) (e, mem')"
  shows "write_inv wcap h p (s\<lparr>mw_we := e\<rparr>, mem', d)"
proof -
  have we: "we_inv 1 8 (mw_we s)" using assms(1) by (simp add: write_inv_def)
  note rl = wr.rule_laws [OF we assms(2)]
  then have st: "sink_step (we_left (mw_we s), we_data (mw_we s), we_stores (mw_we s), mem) (we_left e, we_data e, we_stores e, mem')" by blast
  have "gen_left h (s\<lparr>mw_we := e\<rparr>) = gen_left h s" "iters_left (s\<lparr>mw_we := e\<rparr>) = iters_left s" using rl by (simp_all add: gen_left_def iters_left_def)
  then show ?thesis using assms(1) rl copied_step [OF st] by (simp add: write_inv_def)
qed

lemma write_inv_rule:
  assumes "write_inv wcap h p t" "memwrite_rule wcap t t'"
  shows "write_inv wcap h p t'"
  using assms(2)
proof cases
  case (mw_start s e mem d)
  show ?thesis unfolding mw_start(2) by (rule mw_start_inv [OF assms(1) [unfolded mw_start(1)] mw_start(3-5)])
next
  case (mw_finish s e mem d)
  show ?thesis unfolding mw_finish(2) by (rule mw_finish_inv [OF assms(1) [unfolded mw_finish(1)] mw_finish(3)])
next
  case (mw_src s e new_srcGen mem d)
  show ?thesis unfolding mw_src(2) by (rule mw_src_inv(1) [OF assms(1) [unfolded mw_src(1)] mw_src(3-5)])
next
  case (mw_count s mem d)
  show ?thesis unfolding mw_count(2) by (rule mw_end_inv(1) [OF assms(1) [unfolded mw_count(1)] mw_count(3,4)])
next
  case (mw_done s mem d)
  show ?thesis unfolding mw_done(2) by (rule mw_end_inv(2) [OF assms(1) [unfolded mw_done(1)] mw_done(3,4)])
next
  case (mw_in_writer s mem e mem' d)
  show ?thesis unfolding mw_in_writer(2) by (rule mw_in_writer_inv [OF assms(1) [unfolded mw_in_writer(1)] mw_in_writer(3)])
qed

section \<open>Every write ends\<close>

definition write_work :: "nat \<Rightarrow> memwrite_hw \<times> (obj_addr \<Rightarrow> beat) \<times> nat \<Rightarrow> nat" where
  "write_work h = (\<lambda>(s, mem, d). 16 * h * iters_left s + we_work (mw_we s) + 2 * length (gen_left h s) +
     4 * ld_outs0 (we_loader (mw_we s)) + 3 * finishFifo s)"

lemma mw_start_work:
  assumes "write_inv wcap h p (s, mem, d)" "mw_iterCnts s > 0" "we_put 1 (mw_cmd s) (mw_we s) = Some e" "\<not> mw_cfs s"
  shows "write_work h (s\<lparr>mw_we := e, srcGens := 0 * ucast (mw_chunk s div 4), mw_cfs := True\<rparr>, mem, d) < write_work h (s, mem, d)"
proof -
  let ?s = "s\<lparr>mw_we := e, srcGens := 0 * ucast (mw_chunk s div 4), mw_cfs := True\<rparr>"
  have sz: "rd_sizes h" "mw_numWords s = of_nat (2 * h)" "mw_burstLen s = 16" and we: "we_inv 1 8 (mw_we s)" using assms(1) by (auto simp: write_inv_def)
  note pl = wr.put_laws [OF we mw_cmd_laws(1) [OF sz] assms(3)]
  have o: "ld_outs0 (we_loader (mw_we s)) = 0" using assms(3) by (auto simp: we_put_def ld_put_def split: if_splits)
  have it: "0 < unat (mw_iterCnts s)" using assms(2) by (simp add: word_less_nat_alt)
  then have il: "iters_left s = Suc (iters_left ?s)" using pl o by (simp add: iters_left_def)
  have "length (gen_left h ?s) = h" "length (gen_left h s) = 0" using assms(4) by (simp_all add: gen_left_def)
  moreover have "0 < h" using sz(1) by (simp add: rd_sizes_def)
  ultimately show ?thesis using pl o mw_cmd_laws(2) [OF sz] unfolding write_work_def prod.case il by simp
qed

lemma write_descends:
  assumes "write_inv wcap h p t" "memwrite_rule wcap t t'"
  shows "write_work h t' + 2 * snd (snd t') < write_work h t + 2 * snd (snd t)"
proof -
  have we: "we_inv 1 8 (mw_we (fst t))" using assms(1) by (auto simp: write_inv_def)
  show ?thesis using assms(2)
  proof cases
    case (mw_start s e mem d)
    show ?thesis using mw_start_work [OF assms(1) [unfolded mw_start(1)] mw_start(3-5)] unfolding mw_start(1,2) by simp
  next
    case (mw_finish s e mem d)
    have "ld_outs0 (we_loader (mw_we s)) \<le> unat (mw_iterCnts s)" using assms(1) mw_finish(1) by (simp add: write_inv_def)
    moreover note rl = wr.response_laws [OF we, unfolded mw_finish(1) fst_conv, OF mw_finish(3)]
    ultimately have "unat (mw_iterCnts s - 1) = unat (mw_iterCnts s) - 1" using unat_sub [of 1 "mw_iterCnts s"] by (simp add: word_le_nat_alt)
    then show ?thesis using rl mw_finish(1,2) by (simp add: write_work_def gen_left_def iters_left_def)
  next
    case (mw_src s e new_srcGen mem d)
    note el = wr.enq_laws [OF we, unfolded mw_src(1) fst_conv, OF mw_src(4)]
    then show ?thesis using mw_src_inv(2) [OF assms(1) [unfolded mw_src(1)] mw_src(3-5)] mw_src(1,2)
      by (simp add: write_work_def iters_left_def)
  next
    case (mw_count s mem d)
    then show ?thesis by (simp add: write_work_def gen_left_def iters_left_def)
  next
    case (mw_done s mem d)
    then show ?thesis by (simp add: write_work_def gen_left_def iters_left_def)
  next
    case (mw_in_writer s mem e mem' d)
    show ?thesis using wr.rule_laws [OF we, unfolded mw_in_writer(1) fst_conv, OF mw_in_writer(3)] mw_in_writer(1,2)
      by (simp add: write_work_def gen_left_def iters_left_def)
  qed
qed

lemma write_progress:
  assumes "write_inv wcap h p (s, mem, d)" "mw_cf s"
  shows "\<exists>t. memwrite_rule wcap (s, mem, d) t"
proof -
  have we: "we_inv 1 8 (mw_we s)" and cap: "8 \<le> wcap" and it: "unat (mw_iterCnt s) = unat (mw_iterCnts s) + finishFifo s" and pos: "0 < mw_iterCnt s"
    using assms by (auto simp: write_inv_def)
  let ?o = "ld_outs0 (we_loader (mw_we s))"
  consider "0 < finishFifo s" | "finishFifo s = 0" "?o = 0" | "finishFifo s = 0" "0 < ?o" by linarith
  then show ?thesis
  proof cases
    case 1
    then show ?thesis using assms(2) by (cases "mw_iterCnt s = 1") (blast intro: memwrite_rule.mw_count memwrite_rule.mw_done)+
  next
    case 2
    then have "mw_iterCnts s > 0" using it pos by (simp add: word_less_nat_alt)
    moreover have "\<not> mw_cfs s" using assms(1) 2(2) by (auto simp: write_inv_def)
    moreover obtain e where "we_put 1 (mw_cmd s) (mw_we s) = Some e" using wr.put_enabled [OF we 2(2)] by blast
    ultimately show ?thesis by (blast intro: memwrite_rule.mw_start)
  next
    case 3
    show ?thesis
    proof (cases "mw_cfs s \<and> length (we_data (mw_we s)) < wcap")
      case True
      then obtain e where "we_enq wcap (srcGens s, srcGens s + 1) (mw_we s) = Some e" using wr.enq_enabled [OF we] by blast
      then show ?thesis using True by (blast intro: memwrite_rule.mw_src)
    next
      case False
      then have "8 \<le> length (we_data (mw_we s)) \<or> length (we_left (mw_we s)) \<le> length (we_data (mw_we s))"
        using write_lengths [OF assms(1)] cap by (auto simp: gen_left_def)
      from wr.progress [OF we 3(2) this, of mem] consider e m where "we_rule (mw_we s, mem) (e, m)" | e where "we_response (mw_we s) = Some e" by blast
      then show ?thesis
      proof cases
        case 2
        then show ?thesis using 3(1) memwrite_rule.mw_finish [OF 2, of wcap mem d] by auto
      qed (blast intro: memwrite_rule.mw_in_writer)
    qed
  qed
qed

text \<open>Once the end was reported, every beat of the buffer holds its indices.\<close>

lemma write_over:
  assumes "write_inv wcap h p (s, mem, d)" "0 < d"
  shows "d = 1" "j < h \<Longrightarrow> mem (p, 8 * j) = index_beat j"
proof -
  have d: "\<not> mw_cf s" "d = 1" using assms by (auto simp: write_inv_def split: if_splits)
  have "unat (mw_iterCnt s) = unat (mw_iterCnts s) + finishFifo s" "ld_outs0 (we_loader (mw_we s)) \<le> unat (mw_iterCnts s)" "\<not> 0 < mw_iterCnt s"
    using assms(1) d(1) by (auto simp: write_inv_def)
  then have o: "unat (mw_iterCnts s) = 0" "ld_outs0 (we_loader (mw_we s)) = 0" by (simp_all add: word_less_nat_alt)
  have we: "we_inv 1 8 (mw_we s)" using assms(1) by (simp add: write_inv_def)
  show "d = 1" by (fact d(2))
  have "copied h p (\<lambda>off. index_beat (off div 8)) mem (we_stores (mw_we s))
       (we_data (mw_we s) @ map index_beat (gen_left h s) @ concat (replicate (iters_left s) (map index_beat [0..<h])))
       (we_left (mw_we s) @ concat (replicate (iters_left s) (map (\<lambda>j. (p, 8 * j)) [0..<h])))" using assms(1) by (simp add: write_inv_def)
  then show "mem (p, 8 * j) = index_beat j" if "j < h" using that wr.quiet [OF we o(2)] o by (auto simp: copied_def iters_left_def)
qed

section \<open>The program ends\<close>

lemma child_match:
  assumes "\<forall>i < memwrite_words. obj_word mem p i = of_nat i"
  shows "\<not> child_mismatch p mem"
proof -
  have "n \<le> memwrite_words \<Longrightarrow>
      fold (\<lambda>i (mismatch, sg). (mismatch \<or> obj_word mem p i \<noteq> sg, sg + 1)) [0..<n] (False, 0 :: u32) = (False, of_nat n)" for n
    using assms by (induction n) simp_all
  then show ?thesis by (simp add: child_mismatch_def)
qed

abbreviation memwrite_beats :: nat where "memwrite_beats \<equiv> memwrite_words div 2"

lemma memwrite_sizes: "rd_sizes memwrite_beats" "of_nat memwrite_words = (of_nat (2 * memwrite_beats) :: u32)"
  by (simp_all add: rd_sizes_def memwrite_words_def)

definition memwrite_inv :: "nat \<Rightarrow> u32 \<Rightarrow> memwrite_sys \<Rightarrow> bool" where
  "memwrite_inv wcap dst s \<longleftrightarrow> write_inv wcap memwrite_beats dst (wp_hw s) \<and> wp_handled s \<le> snd (snd (wp_hw s)) \<and>
     wp_sem s + of_bool (wp_fd_sent s) = wp_handled s \<and> (\<forall>c. wp_child s = Some c \<longrightarrow> wp_fd_sent s \<and> c = 0) \<and>
     (\<forall>c. wp_exit s = Some c \<longrightarrow> wp_child s \<noteq> None \<and> c = 0)"

definition memwrite_order :: "(memwrite_sys \<times> memwrite_sys) set" where
  "memwrite_order = measure (\<lambda>s. write_work memwrite_beats (wp_hw s) + 2 * (snd (snd (wp_hw s)) - wp_handled s) + wp_sem s +
     of_bool (wp_child s = None) + of_bool (wp_exit s = None))"

lemma written_words:
  assumes "write_inv wcap memwrite_beats p (s, mem, d)" "0 < d" "i < memwrite_words"
  shows "obj_word mem p i = of_nat i"
proof -
  have "i div 2 < memwrite_beats" using assms(3) by (simp add: memwrite_words_def)
  then have "mem (p, 8 * (i div 2)) = index_beat (i div 2)" using write_over(2) [OF assms(1,2)] by blast
  then show ?thesis by (cases "even i") (auto simp: obj_word_def index_beat_def elim!: evenE oddE)
qed

lemma memwrite_rule_dones: "memwrite_rule wcap t t' \<Longrightarrow> snd (snd t) \<le> snd (snd t')"
  by (cases rule: memwrite_rule.cases) auto

lemma memwrite_inv_step:
  assumes "memwrite_inv wcap dst s" "memwrite_step wcap dst s s'"
  shows "memwrite_inv wcap dst s'"
  using assms(2)
proof cases
  case (wp_hardware t)
  then show ?thesis using assms(1) write_inv_rule [OF _ wp_hardware(2)] memwrite_rule_dones [OF wp_hardware(2)] by (auto simp: memwrite_inv_def)
next
  case wp_child_runs
  obtain hw mem d where h: "wp_hw s = (hw, mem, d)" by (cases "wp_hw s")
  have w: "write_inv wcap memwrite_beats dst (hw, mem, d)" and d: "0 < d" using assms(1) wp_child_runs h by (auto simp: memwrite_inv_def)
  have "\<not> child_mismatch dst mem" using child_match written_words [OF w d] by blast
  then show ?thesis using assms(1) wp_child_runs h by (auto simp: memwrite_inv_def)
qed (use assms(1) in \<open>auto simp: memwrite_inv_def exit_code_def wait_status_def\<close>)

lemma memwrite_descends:
  assumes "memwrite_inv wcap dst s" "memwrite_step wcap dst s s'"
  shows "(s', s) \<in> memwrite_order"
  using assms(2)
proof cases
  case (wp_hardware t)
  have "write_inv wcap memwrite_beats dst (wp_hw s)" "wp_handled s \<le> snd (snd (wp_hw s))" using assms(1) by (auto simp: memwrite_inv_def)
  then show ?thesis using write_descends [OF _ wp_hardware(2)] memwrite_rule_dones [OF wp_hardware(2)] unfolding wp_hardware(1)
    by (fastforce simp: memwrite_order_def)
qed (auto simp: memwrite_order_def)

lemma memwrite_progress:
  assumes "memwrite_inv wcap dst s" "wp_exit s = None"
  shows "\<exists>s'. memwrite_step wcap dst s s'"
proof -
  obtain hw mem d where h: "wp_hw s = (hw, mem, d)" by (cases "wp_hw s")
  have w: "write_inv wcap memwrite_beats dst (hw, mem, d)" using assms(1) h by (simp add: memwrite_inv_def)
  show ?thesis
  proof (cases "mw_cf hw")
    case True
    then obtain t where "memwrite_rule wcap (wp_hw s) t" using write_progress [OF w] h by auto
    then show ?thesis by (blast intro: memwrite_step.wp_hardware)
  next
    case False
    then have d: "d = 1" using w by (simp add: write_inv_def)
    consider "wp_handled s = 0" | "0 < wp_handled s" "\<not> wp_fd_sent s" | "wp_fd_sent s" "wp_child s = None" | c where "wp_child s = Some c" by fastforce
    then show ?thesis
    proof cases
      case 1
      then show ?thesis using d h memwrite_step.wp_writeDone [of s wcap dst] by auto
    next
      case 2
      then have "0 < wp_sem s" using assms(1) by (simp add: memwrite_inv_def)
      then show ?thesis using 2 by (blast intro: memwrite_step.wp_parent)
    qed (use assms(2) in \<open>blast intro: memwrite_step.wp_child_runs memwrite_step.wp_waitpid\<close>)+
  qed
qed

interpretation memwrite_sched: rule_system "memwrite_step wcap dst" "memwrite_inv wcap dst" "\<lambda>s. wp_exit s \<noteq> None" memwrite_order
proof unfold_locales
  show "wf memwrite_order" by (simp add: memwrite_order_def)
  show "\<exists>s'. memwrite_step wcap dst s s'" if "memwrite_inv wcap dst s" "\<not> wp_exit s \<noteq> None" for s using memwrite_progress that by blast
qed (fact memwrite_inv_step memwrite_descends)+

lemma memwrite_parent_inv:
  assumes "8 \<le> wcap"
  shows "memwrite_inv wcap p (memwrite_parent p mem)"
proof -
  let ?h = memwrite_beats and ?m = "clear_words p mem"
  define hw where "hw = mkMemwrite\<lparr>mw_pointer := p, mw_cf := True, mw_numWords := of_nat (2 * ?h), mw_burstLen := 16, mw_iterCnt := 128, mw_iterCnts := 128\<rparr>"
  have st: "startWrite p (of_nat memwrite_words) 16 128 mkMemwrite = Some hw"
    using memwrite_sizes(2) by (simp add: startWrite_def mkMemwrite_def hw_def)
  have e: "we_inv 1 8 (mw_we hw)" "we_left (mw_we hw) = []" "we_stores (mw_we hw) = []" "we_data (mw_we hw) = []" "ld_outs0 (we_loader (mw_we hw)) = 0"
    using write_engine_reset(1) [of 1 8] write_engine_reset(2) by (simp_all add: hw_def mkMemwrite_def we_stores_def) (simp_all add: write_engine_reset_def)
  have f: "gen_left ?h hw = []" "iters_left hw = 128" using e(5) by (simp_all add: gen_left_def iters_left_def hw_def mkMemwrite_def)
  let ?row = "map (\<lambda>j. (p, 8 * j)) [0..<?h]"
  have "copied ?h p (\<lambda>off. index_beat (off div 8)) ?m [] (concat (replicate k (map index_beat [0..<?h]))) (concat (replicate k ?row))" if "0 < k" for k
  proof -
    have "concat (replicate k (map index_beat [0..<?h])) = map ((\<lambda>off. index_beat (off div 8)) \<circ> snd) (concat (replicate k ?row))"
      by (induction k) (simp_all add: comp_def)
    moreover have "set (concat (replicate k ?row)) = set ?row" using that by (induction k) auto
    ultimately show ?thesis by (auto simp: copied_def)
  qed
  then have "write_inv wcap ?h p (hw, ?m, 0)" using assms memwrite_sizes(1) e f
    by (simp add: write_inv_def) (simp add: hw_def mkMemwrite_def)
  then show ?thesis by (simp add: memwrite_inv_def memwrite_parent_def st)
qed

text \<open>What \<^verbatim>\<open>main\<close> leaves with says nothing of the child: the status of \<^verbatim>\<open>waitpid\<close> has the child's code in its second byte.\<close>

lemma exit_of_wait_status: "exit_code (wait_status code) = 0"
  by (simp add: exit_code_def wait_status_def)

text \<open>
  C23.  The writing program ends under every schedule of the design's rules, the memory's answers and its two
  processes.  The design reports the end once; when the child gets the descriptor every word of the buffer
  is its index, so that the child leaves with 0 and so does the program.
\<close>

theorem memwrite_exits:
  assumes "8 \<le> wcap" "memwrite_main socketpair_rc fork_rc ref_dstAlloc mem = Inr s0"
  shows "(\<forall>f. f 0 = s0 \<longrightarrow> (\<exists>k. \<not> memwrite_step wcap ref_dstAlloc (f k) (f (Suc k)))) \<and>
    (\<forall>s. (memwrite_step wcap ref_dstAlloc)\<^sup>*\<^sup>* s0 s \<and> (\<nexists>s'. memwrite_step wcap ref_dstAlloc s s') \<longrightarrow>
       wp_child s = Some 0 \<and> wp_exit s = Some 0 \<and> snd (snd (wp_hw s)) = 1) \<and>
    (\<forall>s. (memwrite_step wcap ref_dstAlloc)\<^sup>*\<^sup>* s0 s \<and> wp_fd_sent s \<longrightarrow>
       (\<forall>i < memwrite_words. obj_word (fst (snd (wp_hw s))) ref_dstAlloc i = of_nat i))"
proof -
  have "s0 = memwrite_parent ref_dstAlloc mem" using assms(2) by (auto simp: memwrite_main_def split: if_splits)
  then have inv: "memwrite_inv wcap ref_dstAlloc s0" using memwrite_parent_inv [OF assms(1)] by simp
  have sent: "write_inv wcap memwrite_beats ref_dstAlloc (fst (wp_hw s), fst (snd (wp_hw s)), snd (snd (wp_hw s))) \<and> 0 < snd (snd (wp_hw s))"
    if "(memwrite_step wcap ref_dstAlloc)\<^sup>*\<^sup>* s0 s" "wp_fd_sent s" for s
    using memwrite_sched.inv_reach [OF that(1) inv] that(2) by (auto simp: memwrite_inv_def)
  have "\<exists>k. \<not> memwrite_step wcap ref_dstAlloc (f k) (f (Suc k))" if "f 0 = s0" for f
    using memwrite_sched.no_infinite_run [of wcap ref_dstAlloc f] inv that by simp
  moreover have "wp_child s = Some 0 \<and> wp_exit s = Some 0 \<and> snd (snd (wp_hw s)) = 1"
    if "(memwrite_step wcap ref_dstAlloc)\<^sup>*\<^sup>* s0 s" "\<nexists>s'. memwrite_step wcap ref_dstAlloc s s'" for s
  proof -
    have "wp_exit s \<noteq> None" using memwrite_sched.stuck_final [OF that(1) inv that(2)] .
    then have "wp_child s = Some 0 \<and> wp_exit s = Some 0 \<and> wp_fd_sent s" using memwrite_sched.inv_reach [OF that(1) inv] by (auto simp: memwrite_inv_def)
    then show ?thesis using sent [OF that(1)] write_over(1) by blast
  qed
  moreover have "\<forall>i < memwrite_words. obj_word (fst (snd (wp_hw s))) ref_dstAlloc i = of_nat i"
    if "(memwrite_step wcap ref_dstAlloc)\<^sup>*\<^sup>* s0 s" "wp_fd_sent s" for s
    using sent [OF that] written_words by blast
  ultimately show ?thesis by blast
qed

theorem memwrite_exits_witness:
  "\<exists>s. (memwrite_step 32 1)\<^sup>*\<^sup>* (memwrite_parent 1 (\<lambda>_. (0, 0))) s \<and> wp_exit s = Some 0 \<and> obj_word (fst (snd (wp_hw s))) 1 5 = 5"
proof -
  let ?s0 = "memwrite_parent 1 (\<lambda>_. (0, 0))"
  have p: "8 \<le> (32 :: nat)" "memwrite_main 0 1 1 (\<lambda>_. (0, 0)) = Inr ?s0" by (simp_all add: memwrite_main_def)
  note inv = memwrite_parent_inv [OF p(1), of 1 "\<lambda>_. (0, 0)"]
  obtain s where s: "(memwrite_step 32 1)\<^sup>*\<^sup>* ?s0 s" "wp_exit s \<noteq> None" using memwrite_sched.finishes [OF inv] by blast
  have i: "wp_fd_sent s" "wp_exit s = Some 0" using memwrite_sched.inv_reach [OF s(1) inv] s(2) by (auto simp: memwrite_inv_def)
  have "5 < memwrite_words" by (simp add: memwrite_words_def)
  then have "obj_word (fst (snd (wp_hw s))) 1 5 = of_nat 5" using memwrite_exits [OF p] s(1) i(1) by blast
  then show ?thesis using s(1) i(2) by auto
qed

end
