(* ===== verification/Serial_Fifo.thy ===== *)
theory Serial_Fifo
  imports Prelude
begin

text \<open>
  \<^verbatim>\<open>lib/bsv/SerialFIFO.bsv\<close>: a link that carries whole messages as single bits, through a gearbox at each end that holds
  the bits of two messages.  The locale \<^verbatim>\<open>msg_link\<close> is what a network relies on: the link is a queue of messages that
  does not get stuck.
\<close>

section \<open>Messages as bits\<close>

record DataMessage =
  address :: "4 word"
  payload :: u32

text \<open>The bits of the packed structure, the lowest first.\<close>

definition msg_bits :: "DataMessage \<Rightarrow> bool list" where
  "msg_bits m = map (bit (push_bit 32 (ucast (address m)) OR ucast (payload m) :: 36 word)) [0..<36]"

definition bits_msg :: "bool list \<Rightarrow> DataMessage" where
  "bits_msg bs = (let w = horner_sum of_bool 2 bs :: 36 word in \<lparr>address = ucast (drop_bit 32 w), payload = ucast w\<rparr>)"

lemma msg_bits_length [simp]: "length (msg_bits m) = 36"
  by (simp add: msg_bits_def)

lemma bits_msg_bits [simp]: "bits_msg (msg_bits m) = m"
proof -
  let ?w = "push_bit 32 (ucast (address m)) OR ucast (payload m) :: 36 word"
  have w: "horner_sum of_bool 2 (msg_bits m) = ?w"
    unfolding msg_bits_def horner_sum_bit_eq_take_bit by (rule take_bit_word_eq_self) simp
  have "ucast (drop_bit 32 ?w) = address m"
    by (rule bit_word_eqI) (auto simp: bit_simps dest: bit_imp_le_length)
  moreover have "ucast ?w = payload m"
    by (rule bit_word_eqI) (auto simp: bit_simps dest: bit_imp_le_length)
  ultimately show ?thesis unfolding bits_msg_def w Let_def by simp
qed

section \<open>The link\<close>

record SerialFIFO =
  tx_bits :: "bool list"
  rx_bits :: "bool list"

definition mkSerialFIFO :: SerialFIFO where
  "mkSerialFIFO = \<lparr>tx_bits = [], rx_bits = []\<rparr>"

text \<open>A gearbox takes a message while one of its two halves is empty.\<close>

definition ser_enq :: "DataMessage \<Rightarrow> SerialFIFO \<Rightarrow> SerialFIFO option" where
  "ser_enq m s = (if length (tx_bits s) \<le> 36 then Some (s\<lparr>tx_bits := tx_bits s @ msg_bits m\<rparr>) else None)"

definition movebits :: "SerialFIFO \<Rightarrow> SerialFIFO option" where
  "movebits s =
     (case tx_bits s of
        [] \<Rightarrow> None
      | b # bs \<Rightarrow> if length (rx_bits s) < 72 then Some (s\<lparr>tx_bits := bs, rx_bits := rx_bits s @ [b]\<rparr>) else None)"

definition ser_deq :: "SerialFIFO \<Rightarrow> (DataMessage \<times> SerialFIFO) option" where
  "ser_deq s =
     (if 36 \<le> length (rx_bits s) then Some (bits_msg (take 36 (rx_bits s)), s\<lparr>rx_bits := drop 36 (rx_bits s)\<rparr>) else None)"

section \<open>The link is a queue of messages\<close>

fun msgs_of :: "bool list \<Rightarrow> DataMessage list" where
  "msgs_of bs = (if length bs < 36 then [] else bits_msg (take 36 bs) # msgs_of (drop 36 bs))"

declare msgs_of.simps [simp del]

lemma msgs_of_Nil [simp]: "msgs_of [] = []"
  by (simp add: msgs_of.simps)

lemma msgs_of_Cons [simp]: "msgs_of (msg_bits m @ bs) = m # msgs_of bs"
  by (subst msgs_of.simps) simp

lemma msgs_of_concat [simp]: "msgs_of (concat (map msg_bits ms)) = ms"
  by (induction ms) simp_all

definition link_msgs :: "SerialFIFO \<Rightarrow> DataMessage list" where
  "link_msgs s = msgs_of (rx_bits s @ tx_bits s)"

definition link_inv :: "SerialFIFO \<Rightarrow> bool" where
  "link_inv s \<longleftrightarrow> rx_bits s @ tx_bits s = concat (map msg_bits (link_msgs s))"

lemma link_msgsI: "rx_bits s @ tx_bits s = concat (map msg_bits ms) \<Longrightarrow> link_inv s \<and> link_msgs s = ms"
  by (simp add: link_inv_def link_msgs_def)

locale msg_link =
  fixes enq :: "'m \<Rightarrow> 'l \<Rightarrow> 'l option" and deq :: "'l \<Rightarrow> ('m \<times> 'l) option" and move :: "'l \<Rightarrow> 'l option"
    and inv :: "'l \<Rightarrow> bool" and msgs :: "'l \<Rightarrow> 'm list" and work :: "'l \<Rightarrow> nat" and cost :: nat
  assumes enq_laws: "inv l \<Longrightarrow> enq m l = Some l' \<Longrightarrow> inv l' \<and> msgs l' = msgs l @ [m] \<and> work l' = work l + cost"
    and deq_laws: "inv l \<Longrightarrow> deq l = Some (m, l') \<Longrightarrow> inv l' \<and> msgs l = m # msgs l' \<and> work l' = work l"
    and move_laws: "inv l \<Longrightarrow> move l = Some l' \<Longrightarrow> inv l' \<and> msgs l' = msgs l \<and> work l' < work l"
    and enq_empty: "inv l \<Longrightarrow> msgs l = [] \<Longrightarrow> enq m l \<noteq> None"
    and alive: "inv l \<Longrightarrow> msgs l \<noteq> [] \<Longrightarrow> move l \<noteq> None \<or> deq l \<noteq> None"
begin

text \<open>A message given to an empty link comes out: every run of moves ends where the link can be read.\<close>

lemma delivers:
  assumes "inv l" "msgs l = m # ms"
  shows "\<exists>l1 l2. (\<lambda>a b. move a = Some b)\<^sup>*\<^sup>* l l1 \<and> deq l1 = Some (m, l2) \<and> inv l2 \<and> msgs l2 = ms"
  using assms
proof (induction "work l" arbitrary: l rule: less_induct)
  case less
  show ?case
  proof (cases "deq l")
    case None
    then obtain l' where l': "move l = Some l'" using alive [of l] less.prems by auto
    have "inv l'" "msgs l' = m # ms" "work l' < work l" using move_laws [OF less.prems(1) l'] less.prems(2) by simp_all
    then obtain l1 l2 where "(\<lambda>a b. move a = Some b)\<^sup>*\<^sup>* l' l1" "deq l1 = Some (m, l2) \<and> inv l2 \<and> msgs l2 = ms" using less.hyps by blast
    moreover have "(\<lambda>a b. move a = Some b)\<^sup>*\<^sup>* l l1"
      using l' \<open>(\<lambda>a b. move a = Some b)\<^sup>*\<^sup>* l' l1\<close> by (simp add: converse_rtranclp_into_rtranclp)
    ultimately show ?thesis by blast
  next
    case (Some r)
    then obtain m' l' where "deq l = Some (m', l')" by (cases r) simp
    then show ?thesis using deq_laws [OF less.prems(1)] less.prems(2) by fastforce
  qed
qed

end

interpretation serial: msg_link ser_enq ser_deq movebits link_inv link_msgs "\<lambda>s. length (tx_bits s)" 36
proof unfold_locales
  fix l m l'
  assume i: "link_inv l"
  then have b: "rx_bits l @ tx_bits l = concat (map msg_bits (link_msgs l))" by (simp add: link_inv_def)
  show "link_inv l' \<and> link_msgs l' = link_msgs l @ [m] \<and> length (tx_bits l') = length (tx_bits l) + 36" if "ser_enq m l = Some l'"
    using that b link_msgsI [of l' "link_msgs l @ [m]"] by (auto simp: ser_enq_def split: if_splits)
  show "link_inv l' \<and> link_msgs l = m # link_msgs l' \<and> length (tx_bits l') = length (tx_bits l)" if "ser_deq l = Some (m, l')"
  proof -
    have d: "36 \<le> length (rx_bits l)" "m = bits_msg (take 36 (rx_bits l))" "l' = l\<lparr>rx_bits := drop 36 (rx_bits l)\<rparr>"
      using that by (auto simp: ser_deq_def split: if_splits)
    obtain m' ms where ms: "link_msgs l = m' # ms" using b d(1) by (cases "link_msgs l") auto
    have "msg_bits m' = take 36 (rx_bits l @ tx_bits l)" unfolding b ms by simp
    then have m: "take 36 (rx_bits l) = msg_bits m'" using d(1) by simp
    have "drop 36 (rx_bits l @ tx_bits l) = concat (map msg_bits ms)" unfolding b ms by simp
    then have "rx_bits l' @ tx_bits l' = concat (map msg_bits ms)" using d(1,3) by simp
    then show ?thesis using link_msgsI [of l' ms] ms m d by simp
  qed
  show "link_inv l' \<and> link_msgs l' = link_msgs l \<and> length (tx_bits l') < length (tx_bits l)" if "movebits l = Some l'"
    using that b link_msgsI [of l' "link_msgs l"] by (auto simp: movebits_def split: list.splits if_splits)
  show "ser_enq m l \<noteq> None" if "link_msgs l = []" using that b by (simp add: ser_enq_def)
  show "movebits l \<noteq> None \<or> ser_deq l \<noteq> None" if ne: "link_msgs l \<noteq> []"
  proof (cases "36 \<le> length (rx_bits l)")
    case False
    obtain m ms where "link_msgs l = m # ms" using ne by (cases "link_msgs l") auto
    then have "36 \<le> length (rx_bits l @ tx_bits l)" unfolding b by simp
    then have "tx_bits l \<noteq> []" using False by auto
    then show ?thesis using False by (cases "tx_bits l") (simp_all add: movebits_def)
  qed (simp add: ser_deq_def)
qed

lemma mkSerialFIFO_empty: "link_inv mkSerialFIFO" "link_msgs mkSerialFIFO = []" "tx_bits mkSerialFIFO = []"
  by (simp_all add: mkSerialFIFO_def link_inv_def link_msgs_def)

end
