(* ===== verification/Noc_Mesh.thy ===== *)
theory Noc_Mesh
  imports Serial_Fifo Rule_System "HOL-Library.Multiset"
begin

text \<open>
  The network example \<^verbatim>\<open>examples/noc\<close>: four nodes in a row, joined by serial links in both directions, each with a switch of seven
  buffers (\<^verbatim>\<open>NocNode.bsv\<close>, \<^verbatim>\<open>Noc.bsv\<close>), and the program that sends a message from each node to each (\<^verbatim>\<open>testnoc.cpp\<close>).
\<close>

section \<open>The network\<close>

text \<open>The fifos of the nodes, named as in \<^verbatim>\<open>mkNocNode\<close>; each holds four messages.\<close>

datatype noc_fifo = Fromhost nat | Tohost nat | HE nat | HW nat | HH nat | EW nat | WE nat | EH nat | WH nat

record noc =
  noc_fifos :: "noc_fifo \<Rightarrow> DataMessage list"
  noc_we :: "nat \<Rightarrow> SerialFIFO"
  noc_ew :: "nat \<Rightarrow> SerialFIFO"

type_synonym noc_ack = "4 word \<times> 4 word \<times> u32"

definition mkNocRequest :: noc where
  "mkNocRequest = \<lparr>noc_fifos = \<lambda>_. [], noc_we = \<lambda>_. mkSerialFIFO, noc_ew = \<lambda>_. mkSerialFIFO\<rparr>"

definition noc_enq :: "noc_fifo \<Rightarrow> DataMessage \<Rightarrow> noc \<Rightarrow> noc option" where
  "noc_enq f m n =
     (if length (noc_fifos n f) < 4 then Some (n\<lparr>noc_fifos := (noc_fifos n)(f := noc_fifos n f @ [m])\<rparr>) else None)"

definition noc_send :: "4 word \<Rightarrow> 4 word \<Rightarrow> u32 \<Rightarrow> noc \<Rightarrow> noc option" where
  "noc_send sendnode to message = noc_enq (Fromhost (unat sendnode)) \<lparr>address = to, payload = message\<rparr>"

text \<open>The buffers that the three rules of a node put a message into.\<close>

definition from_host :: "nat \<Rightarrow> DataMessage \<Rightarrow> noc_fifo" where
  "from_host i m = (if unat (address m) < i then HW i else if unat (address m) = i then HH i else HE i)"

definition from_east :: "nat \<Rightarrow> DataMessage \<Rightarrow> noc_fifo" where
  "from_east i m = (if unat (address m) = i then EH i else EW i)"

definition from_west :: "nat \<Rightarrow> DataMessage \<Rightarrow> noc_fifo" where
  "from_west i m = (if unat (address m) = i then WH i else WE i)"

text \<open>
  The rules.  An arbiter grants one of the buffers that are not empty, here any; the machine that reads the host
  ports goes round them for ever, and a turn that finds nothing is left out.
\<close>

inductive noc_rule :: "noc \<times> noc_ack list \<Rightarrow> noc \<times> noc_ack list \<Rightarrow> bool" where
  fromhost: "\<lbrakk>i < 4; noc_fifos n (Fromhost i) = m # ms; noc_enq (from_host i m) m (n\<lparr>noc_fifos := (noc_fifos n)(Fromhost i := ms)\<rparr>) = Some n'\<rbrakk> \<Longrightarrow>
    noc_rule (n, acks) (n', acks)"
| fromeast: "\<lbrakk>i < 4; ser_deq (noc_ew n (i + 1)) = Some (m, l); noc_enq (from_east i m) m (n\<lparr>noc_ew := (noc_ew n)(i + 1 := l)\<rparr>) = Some n'\<rbrakk> \<Longrightarrow>
    noc_rule (n, acks) (n', acks)"
| fromwest: "\<lbrakk>i < 4; ser_deq (noc_we n i) = Some (m, l); noc_enq (from_west i m) m (n\<lparr>noc_we := (noc_we n)(i := l)\<rparr>) = Some n'\<rbrakk> \<Longrightarrow>
    noc_rule (n, acks) (n', acks)"
| toHost: "\<lbrakk>i < 4; f \<in> {HH i, EH i, WH i}; noc_fifos n f = m # ms; noc_enq (Tohost i) m (n\<lparr>noc_fifos := (noc_fifos n)(f := ms)\<rparr>) = Some n'\<rbrakk> \<Longrightarrow>
    noc_rule (n, acks) (n', acks)"
| toEast: "\<lbrakk>i < 4; f \<in> {HE i, WE i}; noc_fifos n f = m # ms; ser_enq m (noc_we n (i + 1)) = Some l\<rbrakk> \<Longrightarrow>
    noc_rule (n, acks) (n\<lparr>noc_fifos := (noc_fifos n)(f := ms), noc_we := (noc_we n)(i + 1 := l)\<rparr>, acks)"
| toWest: "\<lbrakk>i < 4; f \<in> {HW i, EW i}; noc_fifos n f = m # ms; ser_enq m (noc_ew n i) = Some l\<rbrakk> \<Longrightarrow>
    noc_rule (n, acks) (n\<lparr>noc_fifos := (noc_fifos n)(f := ms), noc_ew := (noc_ew n)(i := l)\<rparr>, acks)"
| movebits_we: "\<lbrakk>k < 5; movebits (noc_we n k) = Some l\<rbrakk> \<Longrightarrow> noc_rule (n, acks) (n\<lparr>noc_we := (noc_we n)(k := l)\<rparr>, acks)"
| movebits_ew: "\<lbrakk>k < 5; movebits (noc_ew n k) = Some l\<rbrakk> \<Longrightarrow> noc_rule (n, acks) (n\<lparr>noc_ew := (noc_ew n)(k := l)\<rparr>, acks)"
| discardeast: "ser_deq (noc_we n 4) = Some (m, l) \<Longrightarrow> noc_rule (n, acks) (n\<lparr>noc_we := (noc_we n)(4 := l)\<rparr>, acks)"
| discardwest: "ser_deq (noc_ew n 0) = Some (m, l) \<Longrightarrow> noc_rule (n, acks) (n\<lparr>noc_ew := (noc_ew n)(0 := l)\<rparr>, acks)"
| readindications: "\<lbrakk>i < 4; noc_fifos n (Tohost i) = m # ms\<rbrakk> \<Longrightarrow>
    noc_rule (n, acks) (n\<lparr>noc_fifos := (noc_fifos n)(Tohost i := ms)\<rparr>, acks @ [(of_nat i, address m, payload m)])"

section \<open>Where messages are\<close>

datatype noc_place = In_fifo noc_fifo | On_we nat | On_ew nat

definition noc_at :: "noc \<Rightarrow> noc_place \<Rightarrow> DataMessage list" where
  "noc_at n p = (case p of In_fifo f \<Rightarrow> noc_fifos n f | On_we k \<Rightarrow> link_msgs (noc_we n k) | On_ew k \<Rightarrow> link_msgs (noc_ew n k))"

definition node_fifos :: "nat \<Rightarrow> noc_fifo set" where
  "node_fifos i = {Fromhost i, Tohost i, HE i, HW i, HH i, EW i, WE i, EH i, WH i}"

definition noc_places :: "noc_place set" where
  "noc_places = In_fifo ` (\<Union>i<4. node_fifos i) \<union> On_we ` {..<5} \<union> On_ew ` {..<5}"

lemma noc_at_simps [simp]:
  "noc_at n (In_fifo f) = noc_fifos n f" "noc_at n (On_we k) = link_msgs (noc_we n k)" "noc_at n (On_ew k) = link_msgs (noc_ew n k)"
  "noc_at (n\<lparr>noc_fifos := (noc_fifos n)(f := ms)\<rparr>) = (noc_at n)(In_fifo f := ms)"
  "noc_at (n\<lparr>noc_we := (noc_we n)(k := l)\<rparr>) = (noc_at n)(On_we k := link_msgs l)"
  "noc_at (n\<lparr>noc_ew := (noc_ew n)(k := l)\<rparr>) = (noc_at n)(On_ew k := link_msgs l)"
  by (auto simp: noc_at_def fun_eq_iff split: noc_place.splits)

lemma noc_places_iff [simp]:
  "In_fifo f \<in> noc_places \<longleftrightarrow> (\<exists>i<4. f \<in> node_fifos i)" "On_we k \<in> noc_places \<longleftrightarrow> k < 5" "On_ew k \<in> noc_places \<longleftrightarrow> k < 5"
  by (auto simp: noc_places_def)

lemma finite_noc_places [simp]: "finite noc_places"
  by (simp add: noc_places_def node_fifos_def)

text \<open>A sum over the messages in all places, and what a message that moves, leaves or arrives does to it.\<close>

definition noc_total :: "(noc_place \<Rightarrow> DataMessage \<Rightarrow> 'a :: comm_monoid_add) \<Rightarrow> (noc_place \<Rightarrow> DataMessage list) \<Rightarrow> 'a" where
  "noc_total g at = (\<Sum>p\<in>noc_places. sum_list (map (g p) (at p)))"

lemma noc_total_upd:
  assumes "a \<in> noc_places"
  shows "noc_total g (at(a := ms)) = sum_list (map (g a) ms) + (\<Sum>p\<in>noc_places - {a}. sum_list (map (g p) (at p)))"
proof -
  have "(\<Sum>p\<in>noc_places - {a}. sum_list (map (g p) ((at(a := ms)) p))) = (\<Sum>p\<in>noc_places - {a}. sum_list (map (g p) (at p)))"
    by (rule sum.cong) simp_all
  then show ?thesis unfolding noc_total_def using sum.remove [OF finite_noc_places assms, of "\<lambda>p. sum_list (map (g p) ((at(a := ms)) p))"]
    by simp
qed

lemma noc_total_leave:
  assumes "a \<in> noc_places" "at a = m # ms"
  shows "noc_total g at = noc_total g (at(a := ms)) + g a m"
proof -
  have "noc_total g at = noc_total g (at(a := m # ms))" using assms(2) by (simp add: fun_upd_idem)
  then show ?thesis unfolding noc_total_upd [OF assms(1)] by (simp add: add_ac)
qed

lemma noc_total_arrive:
  assumes "b \<in> noc_places"
  shows "noc_total g (at(b := at b @ [m])) = noc_total g at + g b m"
proof -
  have "noc_total g at = noc_total g (at(b := at b))" by (simp only: fun_upd_triv)
  then show ?thesis unfolding noc_total_upd [OF assms] by (simp add: add_ac)
qed

lemma noc_total_move:
  fixes at :: "noc_place \<Rightarrow> DataMessage list"
  assumes "a \<in> noc_places" "b \<in> noc_places" "a \<noteq> b" "at a = m # ms"
  shows "noc_total g (at(a := ms, b := at b @ [m])) + g a m = noc_total g at + g b m"
  using noc_total_leave [where at = at and g = g, OF assms(1,4)] noc_total_arrive [OF assms(2), of g "at(a := ms)" m] assms(3) by (simp add: add_ac)

lemma noc_total_empty: "\<forall>p \<in> noc_places. at p = [] \<Longrightarrow> noc_total g at = 0"
  by (simp add: noc_total_def)

section \<open>Routing\<close>

text \<open>Which addresses a place may hold, and how much a message there has still to go.\<close>

fun ok_at :: "noc_place \<Rightarrow> nat \<Rightarrow> bool" where
  "ok_at (On_we k) a \<longleftrightarrow> k \<le> a"
| "ok_at (On_ew k) a \<longleftrightarrow> a < k"
| "ok_at (In_fifo (Fromhost i)) a \<longleftrightarrow> True"
| "ok_at (In_fifo (HE i)) a \<longleftrightarrow> i < a"
| "ok_at (In_fifo (WE i)) a \<longleftrightarrow> i < a"
| "ok_at (In_fifo (HW i)) a \<longleftrightarrow> a < i"
| "ok_at (In_fifo (EW i)) a \<longleftrightarrow> a < i"
| "ok_at (In_fifo (Tohost i)) a \<longleftrightarrow> a = i"
| "ok_at (In_fifo (HH i)) a \<longleftrightarrow> a = i"
| "ok_at (In_fifo (EH i)) a \<longleftrightarrow> a = i"
| "ok_at (In_fifo (WH i)) a \<longleftrightarrow> a = i"

fun to_go :: "noc_place \<Rightarrow> nat" where
  "to_go (On_we k) = 3 + (4 - k) * 40"
| "to_go (On_ew k) = 3 + k * 40"
| "to_go (In_fifo (Fromhost i)) = 200"
| "to_go (In_fifo (HE i)) = (4 - i) * 40"
| "to_go (In_fifo (WE i)) = (4 - i) * 40"
| "to_go (In_fifo (HW i)) = (1 + i) * 40"
| "to_go (In_fifo (EW i)) = (1 + i) * 40"
| "to_go (In_fifo (Tohost i)) = 1"
| "to_go (In_fifo (HH i)) = 2"
| "to_go (In_fifo (EH i)) = 2"
| "to_go (In_fifo (WH i)) = 2"

definition noc_inv :: "noc \<Rightarrow> bool" where
  "noc_inv n \<longleftrightarrow> (\<forall>p. \<forall>m \<in> set (noc_at n p). ok_at p (unat (address m))) \<and> (\<forall>k. link_inv (noc_we n k) \<and> link_inv (noc_ew n k))"

text \<open>The bits not yet sent on the links.\<close>

definition wires :: "noc \<Rightarrow> nat" where
  "wires n = (\<Sum>k<5. length (tx_bits (noc_we n k)) + length (tx_bits (noc_ew n k)))"

lemma wires_upd:
  "k < 5 \<Longrightarrow> wires (n\<lparr>noc_we := (noc_we n)(k := l)\<rparr>) + length (tx_bits (noc_we n k)) = wires n + length (tx_bits l)"
  "k < 5 \<Longrightarrow> wires (n\<lparr>noc_ew := (noc_ew n)(k := l)\<rparr>) + length (tx_bits (noc_ew n k)) = wires n + length (tx_bits l)"
  "wires (n\<lparr>noc_fifos := fs\<rparr>) = wires n"
proof -
  have upd: "(\<Sum>j<5. h ((f(k := l)) j) + r j) + h (f k) = (\<Sum>j<5. h (f j) + r j) + h l" if "k < 5" for h :: "'x \<Rightarrow> nat" and f k l and r :: "nat \<Rightarrow> nat"
  proof -
    have k: "k \<in> {..<5}" using that by simp
    have "(\<Sum>j\<in>{..<5} - {k}. h ((f(k := l)) j) + r j) = (\<Sum>j\<in>{..<5} - {k}. h (f j) + r j)" by (rule sum.cong) simp_all
    then show ?thesis
      using sum.remove [OF _ k, of "\<lambda>j. h ((f(k := l)) j) + r j"] sum.remove [OF _ k, of "\<lambda>j. h (f j) + r j"] by simp
  qed
  show "wires (n\<lparr>noc_we := (noc_we n)(k := l)\<rparr>) + length (tx_bits (noc_we n k)) = wires n + length (tx_bits l)" if "k < 5"
    using upd [OF that, of "\<lambda>s. length (tx_bits s)" "noc_we n" l "\<lambda>j. length (tx_bits (noc_ew n j))"] by (simp add: wires_def)
  show "wires (n\<lparr>noc_ew := (noc_ew n)(k := l)\<rparr>) + length (tx_bits (noc_ew n k)) = wires n + length (tx_bits l)" if "k < 5"
    using upd [OF that, of "\<lambda>s. length (tx_bits s)" "noc_ew n" l "\<lambda>j. length (tx_bits (noc_we n j))"] by (simp add: wires_def add.commute)
  show "wires (n\<lparr>noc_fifos := fs\<rparr>) = wires n" by (simp add: wires_def)
qed

text \<open>
  What a rule does: a message hops to a place nearer to its end, a bit is sent, a message is reported at the
  node it is for, or one that is for no node falls off the eastern end.
\<close>

definition hops :: "noc \<Rightarrow> noc \<Rightarrow> noc_place \<Rightarrow> noc_place \<Rightarrow> DataMessage \<Rightarrow> bool" where
  "hops n n' a b m \<longleftrightarrow> a \<in> noc_places \<and> b \<in> noc_places \<and> a \<noteq> b \<and> ok_at b (unat (address m)) \<and>
     (\<exists>ms. noc_at n a = m # ms \<and> noc_at n' = (noc_at n)(a := ms, b := noc_at n b @ [m])) \<and> to_go b + wires n' < to_go a + wires n"

definition leaves :: "noc \<Rightarrow> noc \<Rightarrow> noc_place \<Rightarrow> DataMessage \<Rightarrow> bool" where
  "leaves n n' a m \<longleftrightarrow> a \<in> noc_places \<and> wires n' = wires n \<and> (\<exists>ms. noc_at n a = m # ms \<and> noc_at n' = (noc_at n)(a := ms))"

definition noc_effect :: "noc \<times> noc_ack list \<Rightarrow> noc \<times> noc_ack list \<Rightarrow> bool" where
  "noc_effect = (\<lambda>(n, acks) (n', acks').
     (acks' = acks \<and> ((\<exists>a b m. hops n n' a b m) \<or> noc_at n' = noc_at n \<and> wires n' < wires n \<or> (\<exists>m. leaves n n' (On_we 4) m))) \<or>
     (\<exists>i<4. \<exists>m. leaves n n' (In_fifo (Tohost i)) m \<and> acks' = acks @ [(address m, address m, payload m)]))"

lemma noc_invD: "noc_inv n \<Longrightarrow> noc_at n p = m # ms \<Longrightarrow> ok_at p (unat (address m))"
  unfolding noc_inv_def by (metis list.set_intros(1))

lemma noc_inv_links: "noc_inv n \<Longrightarrow> link_inv (noc_we n k)" "noc_inv n \<Longrightarrow> link_inv (noc_ew n k)"
  by (simp_all add: noc_inv_def)

text \<open>The new state keeps the invariant when its messages are where they may be and its links are in order.\<close>

lemma noc_inv_hop:
  assumes "noc_inv n" "hops n n' a b m" "\<forall>k. link_inv (noc_we n' k) \<and> link_inv (noc_ew n' k)"
  shows "noc_inv n'"
proof -
  obtain ms where h: "noc_at n a = m # ms" "noc_at n' = (noc_at n)(a := ms, b := noc_at n b @ [m])" "ok_at b (unat (address m))"
    using assms(2) by (auto simp: hops_def)
  have "ok_at p (unat (address x))" if "x \<in> set (noc_at n' p)" for p x
  proof -
    have "x \<in> set (noc_at n p) \<or> p = b \<and> x = m" using that h(1,2) by (auto split: if_splits)
    then show ?thesis using assms(1) h(3) by (auto simp: noc_inv_def)
  qed
  then show ?thesis using assms(3) by (simp add: noc_inv_def)
qed

lemma noc_inv_leave:
  assumes "noc_inv n" "noc_at n' = noc_at n \<or> (\<exists>a m. leaves n n' a m)" "\<forall>k. link_inv (noc_we n' k) \<and> link_inv (noc_ew n' k)"
  shows "noc_inv n'"
proof -
  have "set (noc_at n' p) \<subseteq> set (noc_at n p)" for p using assms(2) by (auto simp: leaves_def split: if_splits)
  then show ?thesis using assms(1,3) unfolding noc_inv_def by blast
qed

lemma noc_enqD: "noc_enq f m n = Some n' \<Longrightarrow> n' = n\<lparr>noc_fifos := (noc_fifos n)(f := noc_fifos n f @ [m])\<rparr>"
  by (auto simp: noc_enq_def split: if_splits)

lemma hopsI:
  assumes "noc_at n a = m # ms" "noc_at n' = (noc_at n)(a := ms, b := noc_at n b @ [m])" "a \<in> noc_places" "b \<in> noc_places" "a \<noteq> b"
    "ok_at b (unat (address m))" "to_go b + wires n' < to_go a + wires n"
  shows "hops n n' a b m"
  using assms by (simp add: hops_def)

lemma hop_effect:
  assumes "noc_inv n" "hops n n' a b m" "\<forall>k. link_inv (noc_we n' k) \<and> link_inv (noc_ew n' k)"
  shows "noc_inv n' \<and> noc_effect (n, acks) (n', acks)"
  using noc_inv_hop [OF assms] assms(2) by (auto simp: noc_effect_def)

lemmas noc_at_unfold = noc_at_def fun_eq_iff

lemma node_switch_effect:
  assumes "noc_inv n" "i < 4" "f \<in> {Fromhost i, HH i, EH i, WH i}" "noc_fifos n f = m # ms"
    "g = (if f = Fromhost i then from_host i m else Tohost i)" "noc_enq g m (n\<lparr>noc_fifos := (noc_fifos n)(f := ms)\<rparr>) = Some n'"
  shows "noc_inv n' \<and> noc_effect (n, acks) (n', acks)"
proof (rule hop_effect [OF assms(1)])
  have ok: "ok_at (In_fifo f) (unat (address m))" using noc_invD [OF assms(1), of "In_fifo f"] assms(4) by simp
  have ne: "f \<noteq> g" using assms(3,5) by (auto simp: from_host_def split: if_splits)
  have n': "n' = n\<lparr>noc_fifos := (noc_fifos n)(f := ms, g := noc_fifos n g @ [m])\<rparr>" using noc_enqD [OF assms(6)] ne by simp
  show "hops n n' (In_fifo f) (In_fifo g) m"
  proof (rule hopsI)
    show "noc_at n (In_fifo f) = m # ms" using assms(4) by simp
    show "noc_at n' = (noc_at n)(In_fifo f := ms, In_fifo g := noc_at n (In_fifo g) @ [m])"
      by (auto simp: n' noc_at_unfold split: noc_place.splits)
    show "In_fifo f \<in> noc_places" "In_fifo g \<in> noc_places" using assms(2,3,5) by (auto simp: node_fifos_def from_host_def)
    show "ok_at (In_fifo g) (unat (address m))" using ok assms(3,5) by (auto simp: from_host_def split: if_splits)
    show "to_go (In_fifo g) + wires n' < to_go (In_fifo f) + wires n" using assms(2,3,5) by (auto simp: n' wires_upd from_host_def split: if_splits)
  qed (use ne in simp)
  show "\<forall>k. link_inv (noc_we n' k) \<and> link_inv (noc_ew n' k)" using noc_inv_links [OF assms(1)] by (simp add: n')
qed

lemma from_link_effect:
  assumes "noc_inv n" "i < 4"
    "(ser_deq (noc_ew n (i + 1)) = Some (m, l) \<and> n1 = n\<lparr>noc_ew := (noc_ew n)(i + 1 := l)\<rparr> \<and> g = from_east i m \<and> a = On_ew (i + 1)) \<or>
     (ser_deq (noc_we n i) = Some (m, l) \<and> n1 = n\<lparr>noc_we := (noc_we n)(i := l)\<rparr> \<and> g = from_west i m \<and> a = On_we i)"
    "noc_enq g m n1 = Some n'"
  shows "noc_inv n' \<and> noc_effect (n, acks) (n', acks)"
proof (rule hop_effect [OF assms(1)])
  note li = noc_inv_links [OF assms(1)]
  have d: "link_inv l" "noc_at n a = m # link_msgs l" "noc_at n1 = (noc_at n)(a := link_msgs l)" "wires n1 = wires n" "noc_fifos n1 = noc_fifos n"
    using assms(2,3) serial.deq_laws [OF li(1), of i m l] serial.deq_laws [OF li(2), of "i + 1" m l] wires_upd(1) [of i n l] wires_upd(2) [of "i + 1" n l] by auto
  have n': "n' = n1\<lparr>noc_fifos := (noc_fifos n1)(g := noc_fifos n1 g @ [m])\<rparr>" by (rule noc_enqD [OF assms(4)])
  have ok: "ok_at a (unat (address m))" by (rule noc_invD [OF assms(1) d(2)])
  show "hops n n' a (In_fifo g) m"
  proof (rule hopsI [OF d(2)])
    show "noc_at n' = (noc_at n)(a := link_msgs l, In_fifo g := noc_at n (In_fifo g) @ [m])" unfolding n' noc_at_simps(4) using d(3,5) by simp
    show "a \<in> noc_places" "a \<noteq> In_fifo g" using assms(2,3) by auto
    show "In_fifo g \<in> noc_places" using assms(2,3) by (auto simp: node_fifos_def from_east_def from_west_def)
    show "ok_at (In_fifo g) (unat (address m))" using ok assms(3) by (auto simp: from_east_def from_west_def split: if_splits)
    show "to_go (In_fifo g) + wires n' < to_go a + wires n" using assms(2,3) d(4) by (auto simp: n' wires_upd from_east_def from_west_def split: if_splits)
  qed
  show "\<forall>k. link_inv (noc_we n' k) \<and> link_inv (noc_ew n' k)" using assms(3) li d(1) by (auto simp: n')
qed

lemma to_link_effect:
  assumes "noc_inv n" "i < 4" "noc_fifos n f = m # ms"
    "(f \<in> {HE i, WE i} \<and> ser_enq m (noc_we n (i + 1)) = Some l \<and> b = On_we (i + 1) \<and> n' = n\<lparr>noc_fifos := (noc_fifos n)(f := ms), noc_we := (noc_we n)(i + 1 := l)\<rparr>) \<or>
     (f \<in> {HW i, EW i} \<and> ser_enq m (noc_ew n i) = Some l \<and> b = On_ew i \<and> n' = n\<lparr>noc_fifos := (noc_fifos n)(f := ms), noc_ew := (noc_ew n)(i := l)\<rparr>)"
  shows "noc_inv n' \<and> noc_effect (n, acks) (n', acks)"
proof (rule hop_effect [OF assms(1)])
  note li = noc_inv_links [OF assms(1)]
  let ?n = "n\<lparr>noc_fifos := (noc_fifos n)(f := ms)\<rparr>"
  have d: "link_inv l" "noc_at n' = (noc_at n)(In_fifo f := ms, b := noc_at n b @ [m])" "wires n' = wires n + 36"
    using assms(2,4) serial.enq_laws [OF li(1), of m "i + 1" l] serial.enq_laws [OF li(2), of m i l] wires_upd(1) [of "i + 1" ?n l] wires_upd(2) [of i ?n l]
    by (auto simp: wires_upd(3) noc_at_unfold split: noc_place.splits)
  have ok: "ok_at (In_fifo f) (unat (address m))" using noc_invD [OF assms(1), of "In_fifo f"] assms(3) by simp
  show "hops n n' (In_fifo f) b m"
  proof (rule hopsI [OF _ d(2)])
    show "noc_at n (In_fifo f) = m # ms" using assms(3) by simp
    show "In_fifo f \<in> noc_places" "b \<in> noc_places" "In_fifo f \<noteq> b" using assms(2,4) by (auto simp: node_fifos_def)
    show "ok_at b (unat (address m))" using ok assms(4) by auto
    show "to_go b + wires n' < to_go (In_fifo f) + wires n" using assms(2,4) d(3) by auto
  qed
  show "\<forall>k. link_inv (noc_we n' k) \<and> link_inv (noc_ew n' k)" using assms(4) li d(1) by auto
qed

lemma noc_rule_effect:
  assumes "noc_inv n" "noc_rule (n, acks) (n', acks')"
  shows "noc_inv n' \<and> noc_effect (n, acks) (n', acks')"
  using assms(2)
proof cases
  case (fromhost i m ms)
  show ?thesis using node_switch_effect [OF assms(1) fromhost(2) _ fromhost(3) _ fromhost(4)] fromhost(1) by simp
next
  case (fromeast i m l)
  show ?thesis using from_link_effect [OF assms(1) fromeast(2) _ fromeast(4)] fromeast(1,3) by blast
next
  case (fromwest i m l)
  show ?thesis using from_link_effect [OF assms(1) fromwest(2) _ fromwest(4)] fromwest(1,3) by blast
next
  case (toHost i f m ms)
  show ?thesis using node_switch_effect [OF assms(1) toHost(2) _ toHost(4) _ toHost(5)] toHost(1,3) by auto
next
  case (toEast i f m ms l)
  show ?thesis using to_link_effect [OF assms(1) toEast(3,5)] toEast(1,2,4,6) by blast
next
  case (toWest i f m ms l)
  show ?thesis using to_link_effect [OF assms(1) toWest(3,5)] toWest(1,2,4,6) by blast
next
  case (movebits_we k l)
  note l = serial.move_laws [OF noc_inv_links(1) [OF assms(1)] movebits_we(4)]
  then have "noc_at n' = noc_at n" "wires n' < wires n" using movebits_we(1) wires_upd(1) [OF movebits_we(3), of n l] by (auto simp: fun_upd_idem)
  moreover have "\<forall>k. link_inv (noc_we n' k) \<and> link_inv (noc_ew n' k)" using noc_inv_links [OF assms(1)] l movebits_we(1) by simp
  ultimately show ?thesis using noc_inv_leave [OF assms(1)] movebits_we(2) by (auto simp: noc_effect_def)
next
  case (movebits_ew k l)
  note l = serial.move_laws [OF noc_inv_links(2) [OF assms(1)] movebits_ew(4)]
  then have "noc_at n' = noc_at n" "wires n' < wires n" using movebits_ew(1) wires_upd(2) [OF movebits_ew(3), of n l] by (auto simp: fun_upd_idem)
  moreover have "\<forall>k. link_inv (noc_we n' k) \<and> link_inv (noc_ew n' k)" using noc_inv_links [OF assms(1)] l movebits_ew(1) by simp
  ultimately show ?thesis using noc_inv_leave [OF assms(1)] movebits_ew(2) by (auto simp: noc_effect_def)
next
  case (discardeast m l)
  note l = serial.deq_laws [OF noc_inv_links(1) [OF assms(1)] discardeast(3)]
  then have lv: "leaves n n' (On_we 4) m" using discardeast(1) wires_upd(1) [of 4 n l] by (auto simp: leaves_def)
  moreover have "\<forall>k. link_inv (noc_we n' k) \<and> link_inv (noc_ew n' k)" using noc_inv_links [OF assms(1)] l discardeast(1) by simp
  ultimately show ?thesis using noc_inv_leave [OF assms(1)] discardeast(2) by (auto simp: noc_effect_def)
next
  case (discardwest m l)
  note l = serial.deq_laws [OF noc_inv_links(2) [OF assms(1)] discardwest(3)]
  then have "ok_at (On_ew 0) (unat (address m))" by (intro noc_invD [OF assms(1), of _ m "link_msgs l"]) simp
  then show ?thesis by simp
next
  case (readindications i m ms)
  have "unat (address m) = i" using noc_invD [OF assms(1), of "In_fifo (Tohost i)" m ms] readindications(4) by simp
  then have a: "of_nat i = address m" by auto
  have lv: "leaves n n' (In_fifo (Tohost i)) m" using readindications(1,3,4) by (auto simp: leaves_def wires_upd(3) node_fifos_def)
  moreover have "\<forall>k. link_inv (noc_we n' k) \<and> link_inv (noc_ew n' k)" using noc_inv_links [OF assms(1)] readindications(1) by simp
  ultimately show ?thesis using noc_inv_leave [OF assms(1)] readindications(2,3) a by (auto simp: noc_effect_def)
qed

section \<open>Nothing is lost, everything moves on\<close>

text \<open>The messages in the network that are for one of the four nodes, and those that were reported.\<close>

definition is_near :: "DataMessage \<Rightarrow> bool" where
  "is_near m \<longleftrightarrow> unat (address m) < 4"

definition near :: "noc \<Rightarrow> DataMessage multiset" where
  "near n = noc_total (\<lambda>_ m. if is_near m then {#m#} else {#}) (noc_at n)"

definition acked :: "noc_ack list \<Rightarrow> DataMessage multiset" where
  "acked acks = mset (map (\<lambda>(h, t, x). \<lparr>address = t, payload = x\<rparr>) acks)"

definition noc_work :: "noc \<Rightarrow> nat" where
  "noc_work n = noc_total (\<lambda>p _. to_go p) (noc_at n) + wires n"

lemma near_hop: "hops n n' a b m \<Longrightarrow> near n' = near n"
  by (auto simp: hops_def near_def dest: noc_total_move [of _ _ "noc_at n", where g = "\<lambda>_ m. if is_near m then {#m#} else {#}"] split: if_splits)

lemma near_leave: "leaves n n' a m \<Longrightarrow> near n = near n' + (if is_near m then {#m#} else {#})"
  by (auto simp: leaves_def near_def dest: noc_total_leave [of _ "noc_at n", where g = "\<lambda>_ m. if is_near m then {#m#} else {#}"])

lemma work_hop: "hops n n' a b m \<Longrightarrow> noc_work n' < noc_work n"
  using noc_total_move [of a b "noc_at n" m, where g = "\<lambda>p _. to_go p"] by (fastforce simp: hops_def noc_work_def)

lemma work_leave: "leaves n n' a m \<Longrightarrow> noc_work n' + to_go a = noc_work n"
  using noc_total_leave [of a "noc_at n" m, where g = "\<lambda>p _. to_go p"] by (fastforce simp: leaves_def noc_work_def)

lemma noc_rule_conserves:
  assumes "noc_inv n" "noc_rule (n, acks) (n', acks')"
  shows "near n' + acked acks' = near n + acked acks" "noc_work n' < noc_work n"
    "\<exists>as. acks' = acks @ as \<and> length as \<le> 1 \<and> (\<forall>(h, t, x) \<in> set as. h = t)" "(\<forall>p. \<forall>m \<in> set (noc_at n p). is_near m) \<Longrightarrow> \<forall>p. \<forall>m \<in> set (noc_at n' p). is_near m"
proof -
  have e: "noc_effect (n, acks) (n', acks')" using noc_rule_effect [OF assms] by blast
  from e consider a b m where "hops n n' a b m" "acks' = acks" | "noc_at n' = noc_at n" "wires n' < wires n" "acks' = acks"
    | m where "leaves n n' (On_we 4) m" "acks' = acks"
    | i m where "i < 4" "leaves n n' (In_fifo (Tohost i)) m" "acks' = acks @ [(address m, address m, payload m)]"
    by (auto simp: noc_effect_def)
  note cs = this
  show "near n' + acked acks' = near n + acked acks" using cs
  proof cases
    case 1 then show ?thesis using near_hop by simp
  next
    case 2 then show ?thesis by (simp add: near_def)
  next
    case 3
    then have "4 \<le> unat (address m)" using noc_invD [OF assms(1), of "On_we 4" m] by (auto simp: leaves_def)
    then show ?thesis using near_leave [OF 3(1)] 3(2) by (simp add: is_near_def)
  next
    case 4
    then have "unat (address m) = i" using noc_invD [OF assms(1), of "In_fifo (Tohost i)" m] by (auto simp: leaves_def)
    then show ?thesis using near_leave [OF 4(2)] 4(1,3) by (simp add: is_near_def acked_def)
  qed
  show "noc_work n' < noc_work n" using cs
  proof cases
    case 1 then show ?thesis using work_hop by simp
  next
    case 2 then show ?thesis by (simp add: noc_work_def)
  next
    case 3 then show ?thesis using work_leave [OF 3(1)] by simp
  next
    case 4 then show ?thesis using work_leave [OF 4(2)] by simp
  qed
  show "\<exists>as. acks' = acks @ as \<and> length as \<le> 1 \<and> (\<forall>(h, t, x) \<in> set as. h = t)" using cs by cases auto
  assume n: "\<forall>p. \<forall>m \<in> set (noc_at n p). is_near m"
  have hd: "is_near m \<and> (\<forall>x \<in> set ms. is_near x)" if "noc_at n a = m # ms" for a m ms using n that by (metis list.set_intros)
  have "is_near x" if x: "x \<in> set (noc_at n' p)" for x p using cs
  proof cases
    case 1
    then obtain ms where "noc_at n a = m # ms" "noc_at n' = (noc_at n)(a := ms, b := noc_at n b @ [m])" by (auto simp: hops_def)
    then show ?thesis using hd [of a] n x by (auto split: if_splits)
  next
    case 3
    then show ?thesis using hd [of "On_we 4"] n x by (auto simp: leaves_def split: if_splits)
  next
    case 4
    then show ?thesis using hd [of "In_fifo (Tohost i)"] n x by (auto simp: leaves_def split: if_splits)
  qed (use n x in auto)
  then show "\<forall>p. \<forall>m \<in> set (noc_at n' p). is_near m" by blast
qed

text \<open>
  No deadlock: a message on an eastward link can move on, or the ones it waits for further east can, and the last link
  is emptied; in the same way westward.
\<close>

abbreviation noc_live :: "noc \<Rightarrow> noc_ack list \<Rightarrow> bool" where
  "noc_live n acks \<equiv> \<exists>s. noc_rule (n, acks) s"

lemma noc_enq_room: "noc_fifos n f = [] \<Longrightarrow> \<exists>n'. noc_enq f m n = Some n'"
  by (simp add: noc_enq_def)

lemma host_live:
  assumes "i < 4" "f \<in> {Tohost i, HH i, EH i, WH i}" "noc_fifos n f \<noteq> []"
  shows "noc_live n acks"
proof -
  obtain m ms where f: "noc_fifos n f = m # ms" using assms(3) by (cases "noc_fifos n f") auto
  show ?thesis
  proof (cases "noc_fifos n (Tohost i) = []")
    case True
    then have g: "f \<in> {HH i, EH i, WH i}" using assms(2,3) by auto
    have "noc_fifos (n\<lparr>noc_fifos := (noc_fifos n)(f := ms)\<rparr>) (Tohost i) = []" using g True by auto
    then obtain n' where "noc_enq (Tohost i) m (n\<lparr>noc_fifos := (noc_fifos n)(f := ms)\<rparr>) = Some n'" using noc_enq_room by blast
    then show ?thesis using noc_rule.toHost [OF assms(1) g f] by blast
  next
    case False
    then obtain x xs where "noc_fifos n (Tohost i) = x # xs" by (cases "noc_fifos n (Tohost i)") auto
    then show ?thesis using noc_rule.readindications [OF assms(1)] by blast
  qed
qed

lemma toEast_live:
  assumes "noc_inv n" "i < 4" "g \<in> {HE i, WE i}" "noc_fifos n g \<noteq> []" "link_msgs (noc_we n (i + 1)) \<noteq> [] \<Longrightarrow> noc_live n acks"
  shows "noc_live n acks"
proof (cases "link_msgs (noc_we n (i + 1)) = []")
  case True
  obtain x xs where x: "noc_fifos n g = x # xs" using assms(4) by (cases "noc_fifos n g") auto
  obtain l' where "ser_enq x (noc_we n (i + 1)) = Some l'" using serial.enq_empty [OF noc_inv_links(1) [OF assms(1)] True] by blast
  then show ?thesis using noc_rule.toEast [OF assms(2,3) x] by blast
qed (use assms(5) in blast)

lemma toWest_live:
  assumes "noc_inv n" "i < 4" "g \<in> {HW i, EW i}" "noc_fifos n g \<noteq> []" "link_msgs (noc_ew n i) \<noteq> [] \<Longrightarrow> noc_live n acks"
  shows "noc_live n acks"
proof (cases "link_msgs (noc_ew n i) = []")
  case True
  obtain x xs where x: "noc_fifos n g = x # xs" using assms(4) by (cases "noc_fifos n g") auto
  obtain l' where "ser_enq x (noc_ew n i) = Some l'" using serial.enq_empty [OF noc_inv_links(2) [OF assms(1)] True] by blast
  then show ?thesis using noc_rule.toWest [OF assms(2,3) x] by blast
qed (use assms(5) in blast)

lemma east_live:
  assumes "noc_inv n" "k \<le> 4" "link_msgs (noc_we n k) \<noteq> []"
  shows "noc_live n acks"
  using assms(2,3)
proof (induction "4 - k" arbitrary: k rule: less_induct)
  case less
  have k: "k < 5" using less.prems(1) by simp
  from serial.alive [OF noc_inv_links(1) [OF assms(1)] less.prems(2)] consider l where "movebits (noc_we n k) = Some l" | m l where "ser_deq (noc_we n k) = Some (m, l)"
    by fastforce
  then show ?case
  proof cases
    case 1
    then show ?thesis using noc_rule.movebits_we [OF k] by blast
  next
    case 2
    show ?thesis
    proof (cases "k = 4")
      case True
      then show ?thesis using 2 noc_rule.discardeast by blast
    next
      case False
      then have k4: "k < 4" using less.prems(1) by simp
      show ?thesis
      proof (cases "noc_fifos n (from_west k m) = []")
        case True
        then have "noc_fifos (n\<lparr>noc_we := (noc_we n)(k := l)\<rparr>) (from_west k m) = []" by simp
        then obtain n' where "noc_enq (from_west k m) m (n\<lparr>noc_we := (noc_we n)(k := l)\<rparr>) = Some n'" using noc_enq_room by blast
        then show ?thesis using noc_rule.fromwest [OF k4 2] by blast
      next
        case full: False
        show ?thesis
        proof (cases "from_west k m = WH k")
          case True
          then show ?thesis using host_live [OF k4, of "WH k"] full by simp
        next
          case False
          then have we: "from_west k m = WE k" by (auto simp: from_west_def split: if_splits)
          show ?thesis
          proof (rule toEast_live [OF assms(1) k4, of "WE k"])
            show "noc_live n acks" if "link_msgs (noc_we n (k + 1)) \<noteq> []" using less.hyps [of "k + 1"] k4 that by simp
          qed (use full we in simp_all)
        qed
      qed
    qed
  qed
qed

lemma west_live:
  assumes "noc_inv n" "k \<le> 4" "link_msgs (noc_ew n k) \<noteq> []"
  shows "noc_live n acks"
  using assms(2,3)
proof (induction k)
  case 0
  from serial.alive [OF noc_inv_links(2) [OF assms(1)] 0(2)] consider l where "movebits (noc_ew n 0) = Some l" | m l where "ser_deq (noc_ew n 0) = Some (m, l)"
    by fastforce
  then show ?case by cases (use noc_rule.movebits_ew [of 0 n] noc_rule.discardwest [of n] in fastforce)+
next
  case (Suc i)
  have i: "i < 4" "Suc i < 5" using Suc.prems(1) by simp_all
  from serial.alive [OF noc_inv_links(2) [OF assms(1)] Suc.prems(2)] consider l where "movebits (noc_ew n (Suc i)) = Some l"
    | m l where "ser_deq (noc_ew n (i + 1)) = Some (m, l)" by fastforce
  then show ?case
  proof cases
    case 1
    then show ?thesis using noc_rule.movebits_ew [OF i(2)] by blast
  next
    case 2
    show ?thesis
    proof (cases "noc_fifos n (from_east i m) = []")
      case True
      then have "noc_fifos (n\<lparr>noc_ew := (noc_ew n)(i + 1 := l)\<rparr>) (from_east i m) = []" by simp
      then obtain n' where "noc_enq (from_east i m) m (n\<lparr>noc_ew := (noc_ew n)(i + 1 := l)\<rparr>) = Some n'" using noc_enq_room by blast
      then show ?thesis using noc_rule.fromeast [OF i(1) 2] by blast
    next
      case full: False
      show ?thesis
      proof (cases "from_east i m = EH i")
        case True
        then show ?thesis using host_live [OF i(1), of "EH i"] full by simp
      next
        case False
        then have ew: "from_east i m = EW i" by (auto simp: from_east_def split: if_splits)
        show ?thesis
        proof (rule toWest_live [OF assms(1) i(1), of "EW i"])
          show "noc_live n acks" if "link_msgs (noc_ew n i) \<noteq> []" using Suc.IH i that by simp
        qed (use full ew in simp_all)
      qed
    qed
  qed
qed

lemma noc_progress:
  assumes "noc_inv n" "p \<in> noc_places" "noc_at n p \<noteq> []"
  shows "noc_live n acks"
proof (cases p)
  case (In_fifo f)
  then obtain i where i: "i < 4" "f \<in> node_fifos i" using assms(2) by auto
  have ne: "noc_fifos n f \<noteq> []" using assms(3) In_fifo by simp
  have east: "g \<in> {HE i, WE i} \<Longrightarrow> noc_fifos n g \<noteq> [] \<Longrightarrow> noc_live n acks" for g
    using toEast_live [OF assms(1) i(1), of g] east_live [OF assms(1), of "i + 1"] i(1) by simp
  have west: "g \<in> {HW i, EW i} \<Longrightarrow> noc_fifos n g \<noteq> [] \<Longrightarrow> noc_live n acks" for g
    using toWest_live [OF assms(1) i(1), of g] west_live [OF assms(1), of i] i(1) by simp
  show ?thesis
  proof (cases "f = Fromhost i")
    case True
    obtain m ms where m: "noc_fifos n (Fromhost i) = m # ms" using ne True by (cases "noc_fifos n f") auto
    show ?thesis
    proof (cases "noc_fifos n (from_host i m) = []")
      case free: True
      have "from_host i m \<noteq> Fromhost i" by (simp add: from_host_def)
      then have "noc_fifos (n\<lparr>noc_fifos := (noc_fifos n)(Fromhost i := ms)\<rparr>) (from_host i m) = []" using free by simp
      then obtain n' where "noc_enq (from_host i m) m (n\<lparr>noc_fifos := (noc_fifos n)(Fromhost i := ms)\<rparr>) = Some n'" using noc_enq_room by blast
      then show ?thesis using noc_rule.fromhost [OF i(1) m] by blast
    next
      case False
      then show ?thesis using east [of "from_host i m"] west [of "from_host i m"] host_live [OF i(1), of "from_host i m"]
        by (auto simp: from_host_def split: if_splits)
    qed
  next
    case False
    then show ?thesis using i(2) ne east [of f] west [of f] host_live [OF i(1), of f] by (auto simp: node_fifos_def)
  qed
next
  case (On_we k)
  then show ?thesis using east_live [OF assms(1), of k] assms(2,3) by simp
next
  case (On_ew k)
  then show ?thesis using west_live [OF assms(1), of k] assms(2,3) by simp
qed

section \<open>Any traffic is delivered\<close>

text \<open>The network with messages that wait to be sent, in any order: sending node, address, message.\<close>

type_synonym noc_request = "4 word \<times> 4 word \<times> u32"

inductive noc_traffic :: "noc_request list \<times> noc \<times> noc_ack list \<Rightarrow> noc_request list \<times> noc \<times> noc_ack list \<Rightarrow> bool" where
  traffic_hw: "noc_rule (n, acks) (n', acks') \<Longrightarrow> noc_traffic (rs, n, acks) (rs, n', acks')"
| traffic_send: "noc_send f t x n = Some n' \<Longrightarrow> noc_traffic (rs @ (f, t, x) # rs', n, acks) (rs @ rs', n', acks)"

definition near_requests :: "noc_request list \<Rightarrow> DataMessage multiset" where
  "near_requests rs = mset (filter is_near (map (\<lambda>(f, t, x). \<lparr>address = t, payload = x\<rparr>) rs))"

lemma noc_send_effect:
  assumes "noc_inv n" "unat f < 4" "noc_send f t x n = Some n'"
  defines "m \<equiv> \<lparr>address = t, payload = x\<rparr>"
  shows "noc_inv n'" "near n' = near n + (if is_near m then {#m#} else {#})" "noc_work n' = noc_work n + 200"
    "noc_at n' = (noc_at n)(In_fifo (Fromhost (unat f)) := noc_at n (In_fifo (Fromhost (unat f))) @ [m])"
proof -
  let ?b = "In_fifo (Fromhost (unat f))"
  have n': "n' = n\<lparr>noc_fifos := (noc_fifos n)(Fromhost (unat f) := noc_fifos n (Fromhost (unat f)) @ [m])\<rparr>"
    using noc_enqD assms(3) unfolding noc_send_def m_def by blast
  show a: "noc_at n' = (noc_at n)(?b := noc_at n ?b @ [m])" by (simp add: n')
  have p: "?b \<in> noc_places" using assms(2) by (auto simp: node_fifos_def)
  show "near n' = near n + (if is_near m then {#m#} else {#})" unfolding near_def a noc_total_arrive [OF p] by simp
  show "noc_work n' = noc_work n + 200" unfolding noc_work_def a noc_total_arrive [OF p] by (simp add: n' wires_upd(3))
  have "ok_at p (unat (address y))" if y: "y \<in> set (noc_at n' p)" for p y
  proof (cases "p = ?b")
    case False
    then have "y \<in> set (noc_at n p)" using y unfolding a by simp
    then show ?thesis using assms(1) by (simp add: noc_inv_def)
  qed simp
  then show "noc_inv n'" using noc_inv_links [OF assms(1)] unfolding noc_inv_def by (simp add: n')
qed

definition traffic_inv :: "DataMessage multiset \<Rightarrow> noc_request list \<times> noc \<times> noc_ack list \<Rightarrow> bool" where
  "traffic_inv ms = (\<lambda>(rs, n, acks). noc_inv n \<and> (\<forall>(f, t, x) \<in> set rs. unat f < 4) \<and> (\<forall>(h, t, x) \<in> set acks. h = t) \<and>
     near_requests rs + near n + acked acks = ms)"

definition traffic_order :: "((noc_request list \<times> noc \<times> noc_ack list) \<times> noc_request list \<times> noc \<times> noc_ack list) set" where
  "traffic_order = measure (\<lambda>(rs, n, acks). 201 * length rs + noc_work n)"

definition traffic_over :: "noc_request list \<times> noc \<times> noc_ack list \<Rightarrow> bool" where
  "traffic_over = (\<lambda>(rs, n, acks). rs = [] \<and> (\<forall>p \<in> noc_places. noc_at n p = []))"

interpretation noc_sched: rule_system noc_traffic "traffic_inv ms" traffic_over traffic_order
proof unfold_locales
  show "wf traffic_order" by (simp add: traffic_order_def)
next
  fix s s' assume i: "traffic_inv ms s" and st: "noc_traffic s s'"
  from st show "traffic_inv ms s'"
  proof cases
    case (traffic_hw n acks n' acks' rs)
    have n: "noc_inv n" using i traffic_hw(1) by (simp add: traffic_inv_def)
    note c = noc_rule_conserves [OF n traffic_hw(3)]
    obtain as where "acks' = acks @ as" "\<forall>(h, t, x) \<in> set as. h = t" using c(3) by blast
    moreover have "near_requests rs + near n' + acked acks' = near_requests rs + near n + acked acks" using c(1) by (simp add: add.assoc)
    ultimately show ?thesis using i noc_rule_effect [OF n traffic_hw(3)] traffic_hw(1,2) by (auto simp: traffic_inv_def)
  next
    case (traffic_send f t x n n' rs rs' acks)
    have n: "noc_inv n" "unat f < 4" using i traffic_send(1) by (auto simp: traffic_inv_def)
    show ?thesis using noc_send_effect [OF n traffic_send(3)] i traffic_send(1,2) by (auto simp: traffic_inv_def near_requests_def)
  qed
  from st show "(s', s) \<in> traffic_order"
  proof cases
    case (traffic_hw n acks n' acks' rs)
    have "noc_inv n" using i traffic_hw(1) by (simp add: traffic_inv_def)
    then show ?thesis using noc_rule_conserves(2) [OF _ traffic_hw(3)] traffic_hw(1,2) by (simp add: traffic_order_def)
  next
    case (traffic_send f t x n n' rs rs' acks)
    have n: "noc_inv n" "unat f < 4" using i traffic_send(1) by (auto simp: traffic_inv_def)
    show ?thesis using noc_send_effect(3) [OF n traffic_send(3)] traffic_send(1,2) by (simp add: traffic_order_def)
  qed
next
  fix s assume i: "traffic_inv ms s" and o: "\<not> traffic_over s"
  obtain rs n acks where s: "s = (rs, n, acks)" by (cases s)
  have n: "noc_inv n" using i s by (simp add: traffic_inv_def)
  show "\<exists>s'. noc_traffic s s'"
  proof (cases "\<exists>p \<in> noc_places. noc_at n p \<noteq> []")
    case True
    then obtain n' acks' where "noc_rule (n, acks) (n', acks')" using noc_progress [OF n] by fastforce
    then show ?thesis using s noc_traffic.traffic_hw by blast
  next
    case False
    then obtain f t x rs' where rs: "rs = (f, t, x) # rs'" using o s by (cases rs) (auto simp: traffic_over_def)
    then have "In_fifo (Fromhost (unat f)) \<in> noc_places" using i s by (auto simp: traffic_inv_def node_fifos_def)
    then have "noc_fifos n (Fromhost (unat f)) = []" using False by (metis noc_at_simps(1))
    then obtain n' where "noc_send f t x n = Some n'" using noc_enq_room unfolding noc_send_def by blast
    then show ?thesis using s rs noc_traffic.traffic_send [of f t x n n' "[]" rs' acks] by auto
  qed
qed

lemma mkNocRequest_empty: "noc_at mkNocRequest = (\<lambda>_. [])" "noc_inv mkNocRequest" "near mkNocRequest = {#}"
proof -
  show a: "noc_at mkNocRequest = (\<lambda>_. [])"
    using mkSerialFIFO_empty(2) by (auto simp: noc_at_unfold mkNocRequest_def split: noc_place.splits)
  show "noc_inv mkNocRequest" using mkSerialFIFO_empty(1) by (simp add: noc_inv_def a) (simp add: mkNocRequest_def)
  show "near mkNocRequest = {#}" by (simp add: near_def a noc_total_empty)
qed

lemma acks_of_acked:
  assumes "\<forall>(h, t, x) \<in> set acks. h = t"
  shows "mset acks = image_mset (\<lambda>m. (address m, address m, payload m)) (acked acks)"
  using assms by (induction acks) (auto simp: acked_def)

text \<open>
  C26.  Whatever messages are given to the nodes, in whatever order, and whatever the schedule of switches, arbiters and
  bits on the links: the network never deadlocks and every run ends with the network empty.  Then every message
  addressed to one of the four nodes was reported exactly once, by the node it is addressed to, and
  nothing else was reported; before that nothing else is reported either.
\<close>

theorem noc_delivers:
  assumes "list_all (\<lambda>(f, t, x). unat f < 4) requests"
  defines "expected \<equiv> mset (map (\<lambda>(f, t, x). (t, t, x)) (filter (\<lambda>(f, t, x). unat t < 4) requests))"
  shows "(\<forall>r. r 0 = (requests, mkNocRequest, []) \<longrightarrow> (\<exists>k. \<not> noc_traffic (r k) (r (Suc k)))) \<and>
    (\<forall>rs n acks. noc_traffic\<^sup>*\<^sup>* (requests, mkNocRequest, []) (rs, n, acks) \<longrightarrow> mset acks \<subseteq># expected \<and>
       ((\<nexists>s. noc_traffic (rs, n, acks) s) \<longrightarrow> rs = [] \<and> (\<forall>p \<in> noc_places. noc_at n p = []) \<and> mset acks = expected))"
proof -
  let ?ms = "near_requests requests" and ?s0 = "(requests, mkNocRequest, [] :: noc_ack list)"
  let ?f = "\<lambda>m. (address m, address m, payload m)"
  have ex: "expected = image_mset ?f ?ms"
    unfolding expected_def near_requests_def by (induction requests) (auto simp: is_near_def)
  have inv: "traffic_inv ?ms ?s0" using assms(1) mkNocRequest_empty by (simp add: traffic_inv_def list_all_iff acked_def)
  have "mset acks \<subseteq># expected \<and> ((\<nexists>s. noc_traffic (rs, n, acks) s) \<longrightarrow> rs = [] \<and> (\<forall>p \<in> noc_places. noc_at n p = []) \<and> mset acks = expected)"
    if r: "noc_traffic\<^sup>*\<^sup>* ?s0 (rs, n, acks)" for rs n acks
  proof -
    have i: "traffic_inv ?ms (rs, n, acks)" by (rule noc_sched.inv_reach [OF r inv])
    then have a: "mset acks = image_mset ?f (acked acks)" and t: "near_requests rs + near n + acked acks = ?ms"
      by (auto simp: traffic_inv_def intro: acks_of_acked)
    have "acked acks \<subseteq># ?ms" unfolding t [symmetric] by simp
    then have "mset acks \<subseteq># expected" unfolding a ex by (rule image_mset_subseteq_mono)
    moreover have "rs = [] \<and> (\<forall>p \<in> noc_places. noc_at n p = []) \<and> mset acks = expected" if "\<nexists>s. noc_traffic (rs, n, acks) s"
    proof -
      have o: "rs = []" "\<forall>p \<in> noc_places. noc_at n p = []" using noc_sched.stuck_final [OF r inv that] by (auto simp: traffic_over_def)
      then have "acked acks = ?ms" using t by (simp add: near_def noc_total_empty near_requests_def)
      then show ?thesis using o a ex by simp
    qed
    ultimately show ?thesis by blast
  qed
  moreover have "\<exists>k. \<not> noc_traffic (r k) (r (Suc k))" if "r 0 = ?s0" for r
    using noc_sched.no_infinite_run [of ?ms r] inv that by simp
  ultimately show ?thesis by blast
qed

theorem noc_delivers_witness:
  "\<exists>n acks. noc_traffic\<^sup>*\<^sup>* ([(0, 3, 7), (2, 0, 8), (1, 9, 5)], mkNocRequest, []) ([], n, acks) \<and> mset acks = {#(3, 3, 7), (0, 0, 8)#}"
proof -
  let ?rs = "[(0, 3, 7), (2, 0, 8), (1, 9, 5)] :: noc_request list"
  have p: "list_all (\<lambda>(f, t, x). unat f < 4) ?rs" by simp
  have "traffic_inv (near_requests ?rs) (?rs, mkNocRequest, [])" using p mkNocRequest_empty by (simp add: traffic_inv_def list_all_iff acked_def)
  from noc_sched.reaches_end [OF this] obtain rs n acks where
    s: "noc_traffic\<^sup>*\<^sup>* (?rs, mkNocRequest, []) (rs, n, acks)" "\<nexists>s'. noc_traffic (rs, n, acks) s'" by auto
  have "rs = [] \<and> mset acks = mset (map (\<lambda>(f, t, x). (t, t, x)) (filter (\<lambda>(f, t, x). unat t < 4) ?rs))"
    using noc_delivers [OF p] s by blast
  then show ?thesis using s(1) by (auto intro!: exI [of _ n] exI [of _ acks])
qed

end
