(* ===== verification/Noc_Test.thy ===== *)
theory Noc_Test
  imports Noc_Mesh
begin

text \<open>
  The program \<^verbatim>\<open>examples/noc/testnoc.cpp\<close> on the network of \<^verbatim>\<open>Noc_Mesh\<close>: it sends a message from each node to each, waits for the
  acknowledgement, which the event thread handles, and compares what it says.
\<close>

section \<open>The program\<close>

record noc_test =
  nt_hw :: "noc \<times> noc_ack list"
  lastheardby :: u32
  lastto :: u32
  lastmsg :: u32
  nt_sem :: nat
  nt_todo :: "(u32 \<times> u32) list"
  nt_wait :: "(u32 \<times> u32) option"
  nt_errors :: "(u32 \<times> u32) list"

text \<open>The three checks print an error with what was expected and what was found.\<close>

definition shouldbe :: "u32 \<Rightarrow> u32 \<Rightarrow> (u32 \<times> u32) list" where
  "shouldbe expected got = (if got \<noteq> expected then [(expected, got)] else [])"

definition noc_checks :: "u32 \<Rightarrow> u32 \<Rightarrow> noc_test \<Rightarrow> (u32 \<times> u32) list" where
  "noc_checks to msg s = shouldbe to (lastheardby s) @ shouldbe to (lastto s) @ shouldbe msg (lastmsg s)"

definition noc_pairs :: "(u32 \<times> u32) list" where
  "noc_pairs = concat (map (\<lambda>from. map (\<lambda>to. (from, to)) [0, 1, 2, 3]) [0, 1, 2, 3])"

definition noc_msg :: "u32 \<Rightarrow> u32 \<Rightarrow> u32" where
  "noc_msg from to = push_bit 16 from + to"

definition noc_main :: noc_test where
  "noc_main = \<lparr>nt_hw = (mkNocRequest, []), lastheardby = 0, lastto = 0, lastmsg = 0, nt_sem = 0, nt_todo = noc_pairs, nt_wait = None, nt_errors = []\<rparr>"

inductive noc_step :: "noc_test \<Rightarrow> noc_test \<Rightarrow> bool" where
  nt_hardware: "noc_rule (nt_hw s) h \<Longrightarrow> noc_step s (s\<lparr>nt_hw := h\<rparr>)"
| nt_ack: "nt_hw s = (n, (heardby, to, msg) # acks) \<Longrightarrow>
    noc_step s (s\<lparr>nt_hw := (n, acks), lastheardby := ucast heardby, lastto := ucast to, lastmsg := msg, nt_sem := nt_sem s + 1\<rparr>)"
| nt_dosend: "\<lbrakk>nt_wait s = None; nt_todo s = (from, to) # rest; nt_hw s = (n, acks); noc_send (ucast from) (ucast to) (noc_msg from to) n = Some n'\<rbrakk> \<Longrightarrow>
    noc_step s (s\<lparr>nt_hw := (n', acks), nt_todo := rest, nt_wait := Some (to, noc_msg from to)\<rparr>)"
| nt_checked: "\<lbrakk>nt_wait s = Some (to, msg); 0 < nt_sem s\<rbrakk> \<Longrightarrow>
    noc_step s (s\<lparr>nt_sem := nt_sem s - 1, nt_wait := None, nt_errors := nt_errors s @ noc_checks to msg s\<rparr>)"

section \<open>It ends without an error\<close>

text \<open>The one message that is in the network or was reported and not yet handled.\<close>

definition nt_open :: "noc_test \<Rightarrow> DataMessage multiset" where
  "nt_open s = (case nt_wait s of None \<Rightarrow> {#} | Some (to, msg) \<Rightarrow> if nt_sem s = 0 then {#\<lparr>address = ucast to, payload = msg\<rparr>#} else {#})"

definition nt_inv :: "noc_test \<Rightarrow> bool" where
  "nt_inv s \<longleftrightarrow> (case nt_hw s of (n, acks) \<Rightarrow> noc_inv n \<and> (\<forall>p. \<forall>m \<in> set (noc_at n p). is_near m) \<and> (\<forall>(h, t, x) \<in> set acks. h = t) \<and>
     near n + acked acks = nt_open s) \<and> nt_errors s = [] \<and> list_all (\<lambda>(from, to). from < 4 \<and> to < 4) (nt_todo s) \<and>
     (\<forall>to msg. nt_wait s = Some (to, msg) \<longrightarrow> to < 4) \<and>
     (0 < nt_sem s \<longrightarrow> nt_sem s = 1 \<and> (\<exists>to msg. nt_wait s = Some (to, msg) \<and> lastheardby s = to \<and> lastto s = to \<and> lastmsg s = msg))"

definition nt_order :: "(noc_test \<times> noc_test) set" where
  "nt_order = measure (\<lambda>s. 4 * noc_work (fst (nt_hw s)) + 2 * length (snd (nt_hw s)) + nt_sem s + 801 * length (nt_todo s))"

lemma near_empty:
  assumes "near n = {#}" "\<forall>p. \<forall>m \<in> set (noc_at n p). is_near m" "p \<in> noc_places"
  shows "noc_at n p = []"
proof (cases "noc_at n p")
  case (Cons m ms)
  have "is_near m" using assms(2) Cons by (metis list.set_intros(1))
  then show ?thesis using noc_total_leave [of p "noc_at n" m ms "\<lambda>_ m. if is_near m then {#m#} else {#}"] assms(1,3) Cons by (simp add: near_def)
qed simp

lemma ucast_node: "to < 4 \<Longrightarrow> ucast (ucast to :: 4 word) = (to :: u32)" "to < 4 \<Longrightarrow> unat (ucast to :: 4 word) < 4"
proof -
  assume "to < 4"
  then have u: "unat to < 4" by (simp add: word_less_nat_alt)
  then have c: "unat (ucast to :: 4 word) = unat to" by (simp add: unat_ucast_down)
  then show "unat (ucast to :: 4 word) < 4" using u by simp
  have "unat (ucast (ucast to :: 4 word) :: u32) = unat to" using c u by (simp add: unat_ucast_down)
  then show "ucast (ucast to :: 4 word) = to" by (simp add: word_unat_eq_iff)
qed

lemma nt_inv_step:
  assumes "nt_inv s" "noc_step s s'"
  shows "nt_inv s'"
proof -
  obtain n acks where h: "nt_hw s = (n, acks)" by (cases "nt_hw s")
  have i: "noc_inv n" "\<forall>p. \<forall>m \<in> set (noc_at n p). is_near m" "\<forall>(h, t, x) \<in> set acks. h = t" "near n + acked acks = nt_open s"
    using assms(1) h by (auto simp: nt_inv_def)
  show ?thesis using assms(2)
  proof cases
    case (nt_hardware h')
    obtain n' acks' where h': "h' = (n', acks')" by (cases h')
    have r: "noc_rule (n, acks) (n', acks')" using nt_hardware(2) h h' by simp
    note c = noc_rule_conserves [OF i(1) r]
    obtain as where "acks' = acks @ as" "\<forall>(h, t, x) \<in> set as. h = t" using c(3) by blast
    then have "\<forall>(h, t, x) \<in> set acks'. h = t" using i(3) by auto
    moreover have "nt_open s' = nt_open s" using nt_hardware(1) by (simp add: nt_open_def split: option.splits)
    ultimately show ?thesis using assms(1) c(1) c(4) [OF i(2)] i(4) noc_rule_effect [OF i(1) r] nt_hardware(1) h h' by (simp add: nt_inv_def)
  next
    case (nt_ack n1 heardby to msg acks1)
    then have a: "acks = (heardby, to, msg) # acks1" "n1 = n" using h by simp_all
    have "nt_open s \<noteq> {#}" using i(4) a by (auto simp: acked_def)
    then obtain t x where w: "nt_wait s = Some (t, x)" "nt_sem s = 0" "nt_open s = {#\<lparr>address = ucast t, payload = x\<rparr>#}"
      by (auto simp: nt_open_def split: option.splits if_splits)
    have "add_mset \<lparr>address = to, payload = msg\<rparr> (near n + acked acks1) = {#\<lparr>address = ucast t, payload = x\<rparr>#}"
      using i(4) w(3) a(1) by (simp add: acked_def)
    then have m: "to = ucast t" "msg = x" "near n + acked acks1 = {#}" by (auto simp: add_eq_conv_ex)
    have t: "t < 4" using assms(1) w(1) by (auto simp: nt_inv_def)
    have "heardby = to" using i(3) a(1) by simp
    then show ?thesis using assms(1) nt_ack(1) w m ucast_node(1) [OF t] t i a by (simp add: nt_inv_def nt_open_def)
  next
    case (nt_dosend frm to rest n1 acks1 n')
    then have a: "n1 = n" "acks1 = acks" using h by simp_all
    have ft: "frm < 4" "to < 4" using assms(1) nt_dosend(3) by (auto simp: nt_inv_def)
    have z: "nt_sem s = 0" "nt_open s = {#}" using assms(1) nt_dosend(2) by (auto simp: nt_inv_def nt_open_def)
    note e = noc_send_effect [OF i(1) ucast_node(2) [OF ft(1)] nt_dosend(5) [unfolded a]]
    let ?m = "\<lparr>address = ucast to, payload = noc_msg frm to\<rparr>"
    have nm: "is_near ?m" using ucast_node(2) [OF ft(2)] by (simp add: is_near_def)
    have "\<forall>p. \<forall>m \<in> set (noc_at n' p). is_near m" using i(2) nm unfolding e(4) by (auto simp del: noc_at_simps(1))
    moreover have "near n' + acked acks = {#?m#}" using e(2) nm i(4) z(2) by simp
    ultimately show ?thesis using assms(1) nt_dosend(1,3) e(1) z(1) i(3) ft a by (simp add: nt_inv_def nt_open_def)
  next
    case (nt_checked to msg)
    then have l: "nt_sem s = 1" "lastheardby s = to" "lastto s = to" "lastmsg s = msg" using assms(1) by (auto simp: nt_inv_def)
    then have "noc_checks to msg s = []" by (simp add: noc_checks_def shouldbe_def)
    moreover have "nt_open s = {#}" using l(1) nt_checked(2) by (simp add: nt_open_def)
    ultimately show ?thesis using assms(1) nt_checked(1) l(1) h by (auto simp: nt_inv_def nt_open_def)
  qed
qed

lemma nt_descends:
  assumes "nt_inv s" "noc_step s s'"
  shows "(s', s) \<in> nt_order"
proof -
  obtain n acks where h: "nt_hw s = (n, acks)" by (cases "nt_hw s")
  have i: "noc_inv n" using assms(1) h by (simp add: nt_inv_def)
  show ?thesis using assms(2)
  proof cases
    case (nt_hardware h')
    obtain n' acks' where h': "h' = (n', acks')" by (cases h')
    have r: "noc_rule (n, acks) (n', acks')" using nt_hardware(2) h h' by simp
    obtain as where "acks' = acks @ as" "length as \<le> 1" using noc_rule_conserves(3) [OF i r] by blast
    then show ?thesis using noc_rule_conserves(2) [OF i r] nt_hardware(1) h h' by (simp add: nt_order_def)
  next
    case (nt_dosend frm to rest n1 acks1 n')
    have "frm < 4" using assms(1) nt_dosend(3) by (auto simp: nt_inv_def)
    then show ?thesis using noc_send_effect(3) [OF i ucast_node(2), of frm] nt_dosend h by (auto simp: nt_order_def)
  qed (use h in \<open>auto simp: nt_order_def\<close>)
qed

lemma nt_progress:
  assumes "nt_inv s" "\<not> (nt_todo s = [] \<and> nt_wait s = None)"
  shows "\<exists>s'. noc_step s s'"
proof -
  obtain n acks where h: "nt_hw s = (n, acks)" by (cases "nt_hw s")
  have i: "noc_inv n" "\<forall>p. \<forall>m \<in> set (noc_at n p). is_near m" "near n + acked acks = nt_open s" using assms(1) h by (auto simp: nt_inv_def)
  show ?thesis
  proof (cases acks)
    case (Cons a as)
    then show ?thesis using h by (cases a) (auto intro: noc_step.nt_ack)
  next
    case Nil
    show ?thesis
    proof (cases "nt_wait s")
      case None
      then obtain frm to rest where t: "nt_todo s = (frm, to) # rest" using assms(2) by (cases "nt_todo s") auto
      have "frm < 4" using assms(1) t by (simp add: nt_inv_def)
      then have p: "In_fifo (Fromhost (unat (ucast frm :: 4 word))) \<in> noc_places" using ucast_node(2) by (auto simp: node_fifos_def)
      have "near n = {#}" using i(3) None by (simp add: nt_open_def)
      then have "noc_fifos n (Fromhost (unat (ucast frm :: 4 word))) = []" using near_empty [OF _ i(2) p] by simp
      then obtain n' where "noc_send (ucast frm) (ucast to) (noc_msg frm to) n = Some n'" using noc_enq_room unfolding noc_send_def by blast
      then show ?thesis using noc_step.nt_dosend [OF None t h] by blast
    next
      case (Some w)
      then obtain to msg where w: "nt_wait s = Some (to, msg)" by (cases w) simp
      show ?thesis
      proof (cases "nt_sem s = 0")
        case True
        then have "near n \<noteq> {#}" using i(3) Nil w by (simp add: nt_open_def acked_def)
        then obtain p where "p \<in> noc_places" "noc_at n p \<noteq> []" unfolding near_def using noc_total_empty by blast
        then obtain h' where "noc_rule (n, acks) h'" using noc_progress [OF i(1)] by blast
        then show ?thesis using h noc_step.nt_hardware by metis
      qed (use w noc_step.nt_checked in blast)
    qed
  qed
qed

interpretation noc_test_sched: rule_system noc_step nt_inv "\<lambda>s. nt_todo s = [] \<and> nt_wait s = None" nt_order
proof unfold_locales
  show "wf nt_order" by (simp add: nt_order_def)
qed (fact nt_inv_step nt_descends nt_progress)+

lemma noc_main_inv: "nt_inv noc_main"
  using mkNocRequest_empty by (simp add: nt_inv_def noc_main_def nt_open_def acked_def noc_pairs_def)

text \<open>
  C38.  The test of the network ends under every schedule, and prints no error: each acknowledgement that \<^verbatim>\<open>dosend\<close> waits for is
  that of its own message, from the node it was sent to.
\<close>

theorem noc_test_passes:
  "(\<forall>r. r 0 = noc_main \<longrightarrow> (\<exists>k. \<not> noc_step (r k) (r (Suc k)))) \<and>
   (\<forall>s. noc_step\<^sup>*\<^sup>* noc_main s \<longrightarrow> nt_errors s = [] \<and> ((\<nexists>s'. noc_step s s') \<longrightarrow> nt_todo s = [] \<and> nt_wait s = None))"
proof -
  note inv = noc_main_inv
  have "\<exists>k. \<not> noc_step (r k) (r (Suc k))" if "r 0 = noc_main" for r
    using noc_test_sched.no_infinite_run [of r] inv that by simp
  moreover have "nt_errors s = []" if "noc_step\<^sup>*\<^sup>* noc_main s" for s
    using noc_test_sched.inv_reach [OF that inv] by (simp add: nt_inv_def)
  moreover have "nt_todo s = [] \<and> nt_wait s = None" if "noc_step\<^sup>*\<^sup>* noc_main s" "\<nexists>s'. noc_step s s'" for s
    using noc_test_sched.stuck_final [OF that(1) inv that(2)] .
  ultimately show ?thesis by blast
qed

theorem noc_test_passes_witness: "\<exists>s. noc_step\<^sup>*\<^sup>* noc_main s \<and> nt_errors s = [] \<and> nt_todo s = [] \<and> nt_wait s = None"
proof -
  obtain s where "noc_step\<^sup>*\<^sup>* noc_main s" "\<nexists>s'. noc_step s s'" using noc_test_sched.reaches_end [OF noc_main_inv] by blast
  then show ?thesis using noc_test_passes by blast
qed

end
