(* ===== verification/Spec2Isabelle.thy ===== *)
theory Spec2Isabelle
  imports Pcie_Driver Portal_Poller Portal_Timer Bsim_Kernel Zynq_Driver Gralloc Ring_Safety Tlp_Trace
    Image_Capture Hdmi_Demo Max_Common Strstr Memcpy Memread_Test Memwrite_Test Noc_Test
begin

text \<open>
  \<^bold>\<open>A verification development of xbsv.\<close>

  xbsv connects software to hardware designs: an application opens \<^emph>\<open>portals\<close>, windows of registers
  in an FPGA, sends requests by writing words and receives indications by reading them, and gives
  buffers of its memory to the design, which reaches them through a translation unit.  The
  repository holds the library the application is linked with (\<^verbatim>\<open>src/cpp\<close>), kernel drivers
  (\<^verbatim>\<open>src/drivers\<close>), the simulator's side (\<^verbatim>\<open>src/cpp/BsimCtrl.cxx\<close>), Bluespec libraries (\<^verbatim>\<open>src/bsv\<close>),
  and users of all this: a graphics allocator, a command line tool and examples.

  \<^bold>\<open>Theories.\<close>  Each opens with what it models.

  \<^item> \<^verbatim>\<open>Prelude\<close>: machine integers, errno values, faults, facts on words and lists.
  \<^item> \<^verbatim>\<open>Portal_Io\<close> (\<^verbatim>\<open>cpp/portal.h\<close>): register offsets; READL and WRITEL over an arbitrary device.
  \<^item> \<^verbatim>\<open>Dma_Config_Proxy\<close> (\<^verbatim>\<open>generated/cpp/DmaConfigProxy.c\<close>): the request methods with their busy wait.
  \<^item> \<^verbatim>\<open>Sglist_Mmu\<close> (\<^verbatim>\<open>bsv/SGList.bsv\<close>), \<^verbatim>\<open>Dma_Hw\<close> (\<^verbatim>\<open>bsv/Adapter.bsv\<close>, \<^verbatim>\<open>bsv/MemPortal.bsv\<close>): the translation
    unit and the request window in front of it.  The locale \<^verbatim>\<open>config_port\<close> is what software relies on,
    interpreted on this hardware for every schedule that fires within the proxies' 50 polls.
  \<^item> \<^verbatim>\<open>Sg_List\<close>, \<^verbatim>\<open>Dma_Send_Fd\<close> (\<^verbatim>\<open>cpp/dmaSendFd.h\<close>): a buffer's list is sent to the device, in three builds.
  \<^item> \<^verbatim>\<open>Portalmem\<close> (\<^verbatim>\<open>drivers/portalmem/portalmem.c\<close>): allocation, ioctls, mmap and the dma_buf callbacks.
  \<^item> \<^verbatim>\<open>Dma_Manager\<close> (\<^verbatim>\<open>cpp/dmaManager.c\<close>, \<^verbatim>\<open>cpp/StdDmaIndication.h\<close>): ids and acknowledgements, as a step
    relation of caller, device and indication thread.  The locale \<^verbatim>\<open>dma_sender\<close> is the path to the
    device; \<^verbatim>\<open>Pcie_Driver\<close> and \<^verbatim>\<open>Zynq_Driver\<close> interpret it.
  \<^item> \<^verbatim>\<open>Pcie_Driver\<close> (\<^verbatim>\<open>drivers/pcieportal/pcieportal.c\<close>), \<^verbatim>\<open>Zynq_Driver\<close> (\<^verbatim>\<open>drivers/zynqportal/zynqportal.c\<close>):
    file operations, ioctls, interrupts, and the acquisition and release of kernel resources.
  \<^item> \<^verbatim>\<open>Portal_Core\<close> (\<^verbatim>\<open>cpp/portal.c\<close>), \<^verbatim>\<open>Portal_Timer\<close> (\<^verbatim>\<open>cpp/timer.c\<close>): opening portals, the directory, the cycle
    counter, timers.
  \<^item> \<^verbatim>\<open>Portal_Hw\<close> (\<^verbatim>\<open>bsv/MemPortal.bsv\<close>), \<^verbatim>\<open>Portal_Poller\<close> (\<^verbatim>\<open>cpp/poller.cpp\<close>): indication registers and the event
    loop.  The locale \<^verbatim>\<open>ind_handler\<close> is what the loop needs of a portal's handler, interpreted on the
    generated DMA indication handler.
  \<^item> \<^verbatim>\<open>Bsim_Link\<close> (\<^verbatim>\<open>cpp/sock_utils.c\<close>, \<^verbatim>\<open>cpp/BsimCtrl.cxx\<close>, \<^verbatim>\<open>cpp/BsimDma.cxx\<close>), \<^verbatim>\<open>Bsim_Kernel\<close> (its kernel half,
    \<^verbatim>\<open>cpp/bsim_relay.c\<close>, \<^verbatim>\<open>cpp/kernel_module.c\<close>): register accesses as messages to the simulator, and the
    interleaving of a program in the kernel with its relay process.
  \<^item> \<^verbatim>\<open>Gralloc\<close> (\<^verbatim>\<open>gralloc\<close>): the graphics allocator on top of the memory driver.
  \<^item> \<^verbatim>\<open>Cmd_Ring\<close> (\<^verbatim>\<open>examples/ring\<close>, \<^verbatim>\<open>lib/bsv/RingBuffer.bsv\<close>): commands and statuses in two rings of 64-byte
    slots, the program and the hardware moving independently.  The locale \<^verbatim>\<open>slot_ring\<close> has the
    arithmetic of slots, interpreted on rings of 8192 bytes.  \<^verbatim>\<open>Ring_Safety\<close> has its proofs.
  \<^item> \<^verbatim>\<open>Morris_Pratt\<close> (\<^verbatim>\<open>lib/cpp/mp.h\<close>): the string search whose tables an accelerator is given; the locale
    \<^verbatim>\<open>fallback_table\<close> is what the matcher needs of a table, interpreted on the computed one.
  \<^item> \<^verbatim>\<open>Rule_System\<close>: the locale \<^verbatim>\<open>rule_system\<close> of rules with an invariant and a measure, whose runs all end in a final
    state.  \<^verbatim>\<open>Mp_Engine\<close> (\<^verbatim>\<open>lib/bsv/MPEngine.bsv\<close>) is the matcher in hardware and interprets it; \<^verbatim>\<open>Strstr\<close>
    (\<^verbatim>\<open>examples/strstr\<close>) has two engines share a text, and the program that compares them with the software.
  \<^item> \<^verbatim>\<open>Mem_Engine\<close> (\<^verbatim>\<open>lib/bsv/MemreadEngine.bsv\<close>, \<^verbatim>\<open>lib/bsv/MemwriteEngine.bsv\<close>): the engines that cut commands for
    buffers into bursts.  What a design relies on are the locales \<^verbatim>\<open>beat_source\<close> and \<^verbatim>\<open>beat_sink\<close>, interpreted on them.  \<^verbatim>\<open>Memcpy\<close>,
    \<^verbatim>\<open>Memread_Test\<close> and \<^verbatim>\<open>Memwrite_Test\<close> (\<^verbatim>\<open>examples/memcpy\<close>, \<^verbatim>\<open>examples/memread\<close>, \<^verbatim>\<open>examples/memwrite\<close> with their programs in
    \<^verbatim>\<open>lib/cpp\<close>) are designs on top of the engines together with the processes and threads that start and check them;
    each system interprets \<^verbatim>\<open>rule_system\<close>.
  \<^item> \<^verbatim>\<open>Serial_Fifo\<close> (\<^verbatim>\<open>lib/bsv/SerialFIFO.bsv\<close>), \<^verbatim>\<open>Noc_Mesh\<close>, \<^verbatim>\<open>Noc_Test\<close> (\<^verbatim>\<open>examples/noc\<close>): four nodes in a row joined by
    serial links, and the program that tests them.  The locale \<^verbatim>\<open>msg_link\<close> is what the network needs of a link, interpreted on
    the one that sends single bits; network and program interpret \<^verbatim>\<open>rule_system\<close>.
  \<^item> \<^verbatim>\<open>Xbsv_Util\<close> (\<^verbatim>\<open>pcie/xbsvutil/xbsvutil.c\<close>): the command line tool over the PCIe driver's ioctls.
  \<^item> \<^verbatim>\<open>Tlp_Trace\<close> (\<^verbatim>\<open>cpp/TlpReplay.cxx\<close>, \<^verbatim>\<open>pcie/dumppacket.c\<close>): the printed trace of PCIe packets replayed to a
    simulated design, and labelled.
  \<^item> \<^verbatim>\<open>Edid\<close> (\<^verbatim>\<open>lib/cpp/edid.h\<close>, \<^verbatim>\<open>lib/cpp/i2chdmi.h\<close>), \<^verbatim>\<open>Hdmi_Gen\<close> (\<^verbatim>\<open>lib/bsv/HDMI.bsv\<close>), \<^verbatim>\<open>Image_Capture\<close>
    (\<^verbatim>\<open>examples/imageon/testimagecapture.cpp\<close>): the timings a monitor reports, the generator of the video signals, and
    the camera program that connects them and writes the sensor's registers.
  \<^item> \<^verbatim>\<open>Yuv\<close> (\<^verbatim>\<open>lib/bsv/YUV.bsv\<close>, \<^verbatim>\<open>examples/yuv\<close>): colour conversion in pipelines, compared with the program's own.
  \<^item> \<^verbatim>\<open>Hdmi_Display\<close> (\<^verbatim>\<open>lib/bsv/HdmiDisplay.bsv\<close>, \<^verbatim>\<open>examples/hdmidisplay/qtmain.cpp\<close>), \<^verbatim>\<open>Hdmi_Demo\<close>
    (\<^verbatim>\<open>examples/hdmidisplay/testhdmidisplay.cpp\<close>): frame buffers read by the device, put through generator and
    colour converter to the simulator's monitor, and the program that draws into them.
  \<^item> \<^verbatim>\<open>Hirschberg\<close>, \<^verbatim>\<open>Stack_Reg\<close>, \<^verbatim>\<open>Hirschberg_C\<close>, \<^verbatim>\<open>Max_Common\<close> (\<^verbatim>\<open>examples/maxcommonsubseq\<close>,
    \<^verbatim>\<open>lib/bsv/StackReg.bsv\<close>): longest common subsequences, with the recursive algorithm on a call stack in block
    memory, which is shown to be a stack of frames.

  \<^bold>\<open>What is shown.\<close> The path of a buffer: the allocated table is well formed
  (C6) and readable (C11), sending it programs the translation unit so that every offset
  reaches its byte and other objects are untouched (C1, C2, C4, C5), mapping and debugging reach the
  same bytes (C7, C8), and in this theory process and device agree (C40). Waiting for the device:
  over both drivers a reference returns after its acknowledgement (C19, C31), while the direct build
  waits for ever after a failure (\<^verbatim>\<open>direct_failure_blocks\<close>). The event loop drains every portal and enables the
  interrupt again (C21), which with the Zynq handler loses no message (C29, C30). Simulator accesses
  are bus accesses (C27), also from the kernel (C32). Drivers: what is acquired is released, with
  the leaks named (C16, C17), refused ioctls touch nothing (C18). A trace that the tool prints is
  what the replay loads (C24). Library: opening (C25), timers (\<^verbatim>\<open>timer_statistics\<close>), the cycle counter (\<^verbatim>\<open>cycle_count_atomic\<close>). Allocator
  sizes (C35). Rings: no slot is overwritten before it was read and every echo returns its arguments
  (C37). Search: termination and soundness
  (C39), the engine under every schedule (C12), and software against hardware (C13). Examples: monitor timings survive parsing (C3) and
  drive the video signals (C20), the camera's registers (C36), colour conversion (C33), the picture
  drawn is the picture shown (C34), longest
  common subsequences (C28). Designs that move buffers: under every schedule the copy is a copy (C14),
  the written buffer is right when its reader gets it (C23), and the reading test cannot pass (C15).
  The network on chip delivers every message once and never deadlocks (C26), and its test passes (C38).
  The properties C10 and C22 state where the code does
  not do what it means to; C9 and \<^verbatim>\<open>dma_error_limit\<close> are invariants with such exceptions. Theorems beside the properties show further flaws:
  \<^verbatim>\<open>send_fd_collision\<close>, \<^verbatim>\<open>mmap_outgrows_buffer\<close>, \<^verbatim>\<open>bsim_fd_lost\<close>, \<^verbatim>\<open>last_write_lost\<close>, \<^verbatim>\<open>relay_first_blocks\<close>,
  \<^verbatim>\<open>gralloc_one_reference\<close>, \<^verbatim>\<open>nop_loses_tags\<close>, \<^verbatim>\<open>direct_returns_unacknowledged\<close>; \<^verbatim>\<open>element_size_enumerates\<close> is what the simulator's build
  relies on.

  \<^bold>\<open>Bounds and fuel.\<close>  Loops that may not end are partial functions, and their ends are proved
  (event loop, simulator reads, busy waits, status polling, table computation).  No fuel is used.
  The busy wait of the proxies is the source's 50 polls.  A list sent to the device has at most
  255 entries, the source's own limit of 256 slots less the end mark; 256 entries collide
  (\<^verbatim>\<open>send_fd_collision\<close>).
  In \<^verbatim>\<open>Ring_Safety\<close> 1023 is the number of completions and 261 the most commands in flight (127 in
  each ring and 7 in the engines), so that 761 lost tags leave one.  The strings of \<^verbatim>\<open>Max_Common\<close> have at most 127
  characters because the table has 7 bits for a row and for a column.  A frame shown by \<^verbatim>\<open>Hdmi_Display\<close> has an even number of
  pixels, because two are read at a time, and a buffer below $2^{24}$ bytes, the device's counter.
  The engines' bursts have at most 16 beats, the room of the copying design's fifo, and the buffers are below
  $2^{32}$ bytes; the write engine holds \<open>wcap\<close> beats, at least its own 32 (one burst is enough in \<^verbatim>\<open>Memwrite_Test\<close>).
  The programs' sizes and counts are those of the builds for hardware, not for the simulator.
  The pattern of \<^verbatim>\<open>Mp_Engine\<close> is shorter than 1024 characters, the size of its memories, and the text shorter than
  $2^{31}$.

  \<^bold>\<open>Parameters.\<close>  The kernel's functions (page allocation, ioremap, request_irq, copies to and from
  user space), the C library's calls and the devices behind a portal are arguments; what is used
  of them is a hypothesis, such as \<^verbatim>\<open>pages_aligned\<close>.

  \<^bold>\<open>Not modelled.\<close>  Printing and tracing; the generators in \<^verbatim>\<open>src/scripts\<close> (their output for the DMA
  portals is modelled); the pipelines inside the memory server and the remaining Bluespec designs;
  examples that only issue requests and print, among them floating point matrix programs; the two-dimensional network; the clock-domain crossings of
  the video generator, and the arbitration between units that share a block memory or a memory engine; the
  close functions and event thread of the graphics allocator; the time measurement of the ring
  example and the bytes its copy engine moves; the byte stream below whole messages on the
  simulator's socket, and the set-up of that socket.
\<close>

section \<open>The memory a process shares with the device\<close>

text \<open>
  What a process sees of PA_DMA_ADDRESSES when its buffers are writable: the return code of a
  call that fails, or the count and the entries the driver wrote.
\<close>

definition ioctl_view :: "'s pmem \<Rightarrow> (int \<Rightarrow> nat \<Rightarrow> int + nat \<times> (nat \<Rightarrow> sg_entry)) \<Rightarrow> bool" where
  "ioctl_view st io \<longleftrightarrow>
     (\<forall>fd n rc es c st'.
        pa_unlocked_ioctl (PA_DMA_ADDRESSES True fd (int n) (\<lambda>_. True) True) st = Inr (rc, (es, c), st') \<longrightarrow>
        (if rc < 0 then io fd n = Inl rc
         else \<exists>a. io fd n = Inr (nat (the c), a) \<and> (\<forall>i < length es. a i = es ! i)))"

lemma ioctl_view_open:
  assumes "ioctl_view st io" and "pm_files st fd = Some b"
  shows "\<exists>a. io fd n = Inr (length (sg_table b), a) \<and> (0 < n \<longrightarrow> map a [0..<length (sg_table b)] = sg_table b)"
proof -
  have "st\<lparr>pm_refs := (pm_refs st)(fd := pm_refs st fd)\<rparr> = st" by simp
  then have "pa_unlocked_ioctl (PA_DMA_ADDRESSES True fd (int n) (\<lambda>_. True) True) st =
      Inr (0, (if n > 0 then sg_table b else [], Some (int (length (sg_table b)))), st)"
    using assms(2) by (simp add: pa_dma_addresses_def pa_fget_def pa_fput_def Let_def list_all_iff)
  with assms(1) obtain a where "io fd n = Inr (length (sg_table b), a)"
    "\<forall>i < length (if n > 0 then sg_table b else []). a i = (if n > 0 then sg_table b else []) ! i"
    unfolding ioctl_view_def by fastforce
  then show ?thesis by (auto intro: nth_equalityI)
qed

lemma user_send_open:
  assumes "ioctl_view st io" and "pm_files st fd = Some b" and "sg_table b \<noteq> []"
  shows "send_fd_to_portal_user io m fd oid d = send_fd_to_portal_kernel m (sg_table b) oid d"
proof -
  obtain a0 where a0: "io fd 0 = Inr (length (sg_table b), a0)" using ioctl_view_open [OF assms(1,2)] by blast
  obtain a where "io fd (length (sg_table b)) = Inr (length (sg_table b), a)"
    "map a [0..<length (sg_table b)] = sg_table b"
    using ioctl_view_open [OF assms(1,2), of "length (sg_table b)"] assms(3) by auto
  with a0 show ?thesis by (simp add: send_fd_to_portal_user_def send_fd_to_portal_kernel_def)
qed

text \<open>
  C40.  A process that allocates up to 255 pages with PA_MALLOC, sends the descriptor to the device
  under a free id and maps it: the call returns the id, and for every offset of the buffer the
  device's translation unit and the process's mapping reach the same physical byte; the device is
  refused every offset past the last page.
\<close>

theorem device_and_process_share:
  assumes "pages_aligned (kc_alloc_pages k)" and "0 < unat len" and "unat len \<le> 255 * 4096"
    and "pa_unlocked_ioctl (PA_MALLOC k len) st = Inr (fd, u, st')" and "0 \<le> fd"
    and "ioctl_view st' io" and "hw_ok d" and "oid < 32"
  shows "\<exists>b. pm_files st' fd = Some b \<and>
    (let r = send_fd_to_portal_user io dma_mmio fd oid d; sz = (unat len + 4095) div 4096 * 4096 in
       fst r = sint oid \<and>
       (\<forall>off. if unat off < sz
          then \<exists>pa. mmu_translate (hw_mmu_settled (snd r)) (ucast oid) off = Some (of_nat pa) \<and>
                    map_lookup (snd (pa_dma_buf_mmap b v (v + sz) 0)) (v + unat off) = Some pa
          else mmu_translate (hw_mmu_settled (snd r)) (ucast oid) off = None))"
proof -
  let ?sz = "(unat len + 4095) div 4096 * 4096"
  have c: "portalmem_dmabuffer_create k len st = Inr (fd, st')"
    using assms(4) by (auto split: sum.splits)
  from create_result [OF assms(1) _ c assms(5)] assms(3) obtain b where
    b: "pm_files st' fd = Some b" "table_ok (sg_table b)" "sg_total (sg_table b) = ?sz" by auto
  let ?es = "sg_table b"
  have "length ?es * 4096 \<le> ?sz" using table_ok_length [OF b(2)] b(3) by (simp add: PAGE_SIZE_def)
  moreover have "?sz \<le> 255 * 4096" using assms(3) by simp
  ultimately have len: "length ?es \<le> 255" by linarith
  have ne: "?es \<noteq> []" using b(3) assms(2) by (auto simp: sg_total_def)
  let ?r = "send_fd_to_portal_user io dma_mmio fd oid d"
  have r: "?r = send_fd_to_portal_kernel dma_mmio ?es oid d" by (rule user_send_open [OF assms(6) b(1) ne])
  have tr: "mmu_translate (hw_mmu_settled (snd ?r)) (ucast oid) off = map_option of_nat (sg_lookup ?es (unat off))" for off
    unfolding r kernel_result(3) [OF assms(7)]
    by (rule mmu_holds_translates [OF table_ok_wf [OF b(2) len] programmed_holds [OF assms(8) len]])
  have mm: "map_lookup (snd (pa_dma_buf_mmap b v (v + ?sz) 0)) (v + o') = sg_lookup ?es o'" if "o' < ?sz" for o'
    using mmap_loop_lookup [OF _ _ _ table_ok_dvd [OF b(2)], of 0 v "v + o'" "v + ?sz"] that
    by (simp add: pa_dma_buf_mmap_def)
  have "if unat off < ?sz
      then \<exists>pa. mmu_translate (hw_mmu_settled (snd ?r)) (ucast oid) off = Some (of_nat pa) \<and>
                map_lookup (snd (pa_dma_buf_mmap b v (v + ?sz) 0)) (v + unat off) = Some pa
      else mmu_translate (hw_mmu_settled (snd ?r)) (ucast oid) off = None" for off
    using sg_lookup_None_iff [of ?es "unat off"] b(3) by (auto simp: tr mm)
  moreover have "fst ?r = sint oid" unfolding r by (rule kernel_result(1) [OF assms(7)])
  ultimately show ?thesis using b(1) unfolding Let_def by blast
qed

definition sample_st :: "nat pmem" where
  "sample_st = (case portalmem_dmabuffer_create (sample_calls 0x1000000) 0x2345 sample_pmem of
     Inl _ \<Rightarrow> sample_pmem | Inr (_, st) \<Rightarrow> st)"

definition sample_io :: "int \<Rightarrow> nat \<Rightarrow> int + nat \<times> (nat \<Rightarrow> sg_entry)" where
  "sample_io fd n =
     (case pm_files sample_st fd of
        None \<Rightarrow> Inl (- EFAULT)
      | Some b \<Rightarrow> Inr (length (sg_table b), (!) (sg_table b)))"

theorem device_and_process_share_witness:
  "\<exists>b. pm_files sample_st 5 = Some b \<and>
     fst (send_fd_to_portal_user sample_io dma_mmio 5 3 (hw_reset mmu_zero)) = 3 \<and>
     (\<exists>pa. mmu_translate (hw_mmu_settled (snd (send_fd_to_portal_user sample_io dma_mmio 5 3 (hw_reset mmu_zero)))) 3 0x1234 =
             Some (of_nat pa) \<and>
           map_lookup (snd (pa_dma_buf_mmap b 0x400000 0x403000 0)) 0x401234 = Some pa)"
proof -
  have "alloc_loop (kc_alloc_pages (sample_calls 0x1000000)) (sint (page_round 0x2345)) 8
      (False, [], pm_pages sample_pmem) = (True, [(0x3000, 0), (0x4000, 0), (0x5000, 0)], 0x6000)"
    by (simp add: sample_calls_def sample_pmem_def page_round_def alloc_loop.simps orders_def PAGE_SIZE_def
        bump_alloc_def Let_def)
  from create_unfold [OF this] obtain s where
    "portalmem_dmabuffer_create (sample_calls 0x1000000) 0x2345 sample_pmem = Inr (5, s)"
    by (auto simp: create_export_def Let_def sample_calls_def list_all_iff)
  then have c: "portalmem_dmabuffer_create (sample_calls 0x1000000) 0x2345 sample_pmem = Inr (5, sample_st)"
    by (simp add: sample_st_def)
  have io: "ioctl_view sample_st sample_io"
    unfolding ioctl_view_def
    by (auto simp: sample_io_def pa_dma_addresses_def pa_fget_def Let_def list_all_iff split: option.splits)
  have al: "pages_aligned (kc_alloc_pages (sample_calls 0x1000000))"
    by (simp add: sample_calls_def bump_aligned)
  let ?r = "send_fd_to_portal_user sample_io dma_mmio 5 3 (hw_reset mmu_zero)"
  have sz: "(unat (0x2345 :: u64) + 4095) div 4096 * 4096 = 0x3000" by simp
  have "\<exists>b. pm_files sample_st 5 = Some b \<and>
    (let r = ?r; sz = (unat (0x2345 :: u64) + 4095) div 4096 * 4096 in
       fst r = sint (3 :: u32) \<and>
       (\<forall>off. if unat off < sz
          then \<exists>pa. mmu_translate (hw_mmu_settled (snd r)) (ucast (3 :: u32)) off = Some (of_nat pa) \<and>
                    map_lookup (snd (pa_dma_buf_mmap b 0x400000 (0x400000 + sz) 0)) (0x400000 + unat off) = Some pa
          else mmu_translate (hw_mmu_settled (snd r)) (ucast (3 :: u32)) off = None))"
    by (rule device_and_process_share [OF al _ _ _ _ io hw_ok_reset [of mmu_zero],
          of "0x2345" sample_pmem 5 "([], None)" 3 "0x400000"]) (simp_all add: c)
  then obtain b where "pm_files sample_st 5 = Some b" "fst ?r = sint (3 :: u32)" and
    t: "\<forall>off. if unat off < 0x3000
      then \<exists>pa. mmu_translate (hw_mmu_settled (snd ?r)) (ucast (3 :: u32)) off = Some (of_nat pa) \<and>
                map_lookup (snd (pa_dma_buf_mmap b 0x400000 (0x400000 + 0x3000) 0)) (0x400000 + unat off) = Some pa
      else mmu_translate (hw_mmu_settled (snd ?r)) (ucast (3 :: u32)) off = None"
    unfolding Let_def sz by blast
  with spec [OF t, of "0x1234"] show ?thesis by (intro exI [of _ b]) simp
qed

end
